(* ===== verification/Prelude.thy ===== *)
theory Prelude
  imports Main "HOL-Library.Word" "HOL-Library.Monad_Syntax"
begin

unbundle bit_operations_syntax

text \<open>
  Shared vocabulary of the development: the fixed-width integers of the C sources, the objects
  of C memory as byte lists with checked accesses, and the generic lemmas on these that the
  component theories use.

  A C object is the list of its bytes.  A read or a write outside it is undefined behaviour and
  is the value \<^term>\<open>None\<close>; every function of the model that touches memory returns an
  option for this reason, and the safety theorems say that the result is never
  \<^term>\<open>None\<close>.
\<close>

section \<open>Machine integers\<close>

type_synonym u8 = "8 word"
type_synonym u16 = "16 word"
type_synonym u32 = "32 word"
type_synonym u64 = "64 word"

text \<open>A pointer that is read from: \<^term>\<open>None\<close> is \<open>NULL\<close>, \<^term>\<open>Some bs\<close> points at the
  bytes \<open>bs\<close> that lie between it and the end of its object.\<close>

type_synonym cptr = "u8 list option"

section \<open>Collections of facts\<close>

named_theorems mem_simps \<open>reads and writes of C objects\<close>
named_theorems u8_simps \<open>fields packed into one byte\<close>

section \<open>Checked memory accesses\<close>

definition peek :: "'a list \<Rightarrow> nat \<Rightarrow> 'a option" where
  "peek bs i = (if i < length bs then Some (bs ! i) else None)"

definition poke :: "'a list \<Rightarrow> nat \<Rightarrow> 'a \<Rightarrow> 'a list option" where
  "poke bs i v = (if i < length bs then Some (bs[i := v]) else None)"

definition memcpy_out :: "cptr \<Rightarrow> nat \<Rightarrow> u8 list option" where
  "memcpy_out p n = (if n = 0 then Some []
     else case p of None \<Rightarrow> None
       | Some bs \<Rightarrow> if n \<le> length bs then Some (take n bs) else None)"

definition memcpy_in :: "u8 list \<Rightarrow> nat \<Rightarrow> u8 list \<Rightarrow> u8 list option" where
  "memcpy_in bs i src = (if i + length src \<le> length bs
     then Some (take i bs @ src @ drop (i + length src) bs) else None)"

lemma peek_Some_iff [mem_simps]: "peek bs i = Some v \<longleftrightarrow> i < length bs \<and> bs ! i = v"
  by (simp add: peek_def)

lemma peek_None_iff [mem_simps]: "peek bs i = None \<longleftrightarrow> length bs \<le> i"
  by (auto simp: peek_def)

lemma peek_in [mem_simps]: "i < length bs \<Longrightarrow> peek bs i = Some (bs ! i)"
  by (simp add: peek_def)

lemma poke_in [mem_simps]: "i < length bs \<Longrightarrow> poke bs i v = Some (bs[i := v])"
  by (simp add: poke_def)

lemma poke_out [mem_simps]: "length bs \<le> i \<Longrightarrow> poke bs i v = None"
  by (simp add: poke_def)

lemma poke_length: "poke bs i v = Some bs' \<Longrightarrow> length bs' = length bs"
  by (auto simp: poke_def split: if_splits)

lemma memcpy_in_length: "memcpy_in bs i src = Some bs' \<Longrightarrow> length bs' = length bs"
  by (auto simp: memcpy_in_def split: if_splits)

lemma memcpy_out_length: "memcpy_out p n = Some bs \<Longrightarrow> length bs = n"
  by (auto simp: memcpy_out_def split: if_splits option.splits)

lemma memcpy_out_take [mem_simps]: "n \<le> length bs \<Longrightarrow> memcpy_out (Some bs) n = Some (take n bs)"
  by (simp add: memcpy_out_def)

lemma memcpy_out_zero [mem_simps, simp]: "memcpy_out p 0 = Some []"
  by (simp add: memcpy_out_def)

text \<open>Sequential output: a buffer whose first \<open>i\<close> bytes are \<open>out\<close> has the bytes
  written next to them at the end of its first bytes.\<close>

lemma take_poke_next: "i < length bs \<Longrightarrow> take (Suc i) (bs[i := v]) = take i bs @ [v]"
  by (simp add: take_Suc_conv_app_nth)

lemma take_memcpy_next:
  "memcpy_in bs i src = Some bs' \<Longrightarrow> take (i + length src) bs' = take i bs @ src"
  by (auto simp: memcpy_in_def split: if_splits)

lemma poke_memcpy: "poke bs i v = memcpy_in bs i [v]"
  by (auto simp: poke_def memcpy_in_def upd_conv_take_nth_drop)

lemma memcpy_in_append:
  "Option.bind (memcpy_in bs i xs) (\<lambda>b. memcpy_in b (i + length xs) ys) = memcpy_in bs i (xs @ ys)"
  by (auto simp: memcpy_in_def min_def add_ac neq_Nil_conv)

lemma memcpy_in_bind:
  "Option.bind (memcpy_in bs i xs) (\<lambda>b. Option.bind (memcpy_in b (i + length xs) ys) f) =
   Option.bind (memcpy_in bs i (xs @ ys)) f"
  by (simp flip: memcpy_in_append)

lemma memcpy_in_Cons:
  "Option.bind (memcpy_in bs i [x]) (\<lambda>b. Option.bind (memcpy_in b (Suc i) ys) f) =
   Option.bind (memcpy_in bs i (x # ys)) f"
  using memcpy_in_bind [of bs i "[x]" ys f] by simp

lemma memcpy_in_Cons2:
  "Option.bind (memcpy_in bs i [x, y]) (\<lambda>b. Option.bind (memcpy_in b (Suc (Suc i)) ys) f) =
   Option.bind (memcpy_in bs i (x # y # ys)) f"
  using memcpy_in_bind [of bs i "[x, y]" ys f] by simp

lemma memcpy_in_Nil: "i \<le> length bs \<Longrightarrow> memcpy_in bs i [] = Some bs"
  by (simp add: memcpy_in_def)

lemma memcpy_in_ok:
  assumes "i + length xs \<le> length bs"
  shows "\<exists>b. memcpy_in bs i xs = Some b \<and> length b = length bs \<and>
    take (i + length xs) b = take i bs @ xs \<and> drop (i + length xs) b = drop (i + length xs) bs"
  using assms by (simp add: memcpy_in_def)

section \<open>Options\<close>

lemma bind_Some_iff: "Option.bind m f = Some r \<longleftrightarrow> (\<exists>x. m = Some x \<and> f x = Some r)"
  by (cases m) auto

lemma bind_None_iff: "Option.bind m f = None \<longleftrightarrow> m = None \<or> (\<exists>x. m = Some x \<and> f x = None)"
  by (cases m) auto

lemma bind_SomeE:
  assumes "Option.bind m f = Some r"
  obtains x where "m = Some x" "f x = Some r"
  using assms by (cases m) auto

section \<open>Lists\<close>

lemma take_Suc_dropD:
  assumes "take (Suc m) (drop i xs) = y # ys"
  shows "i < length xs" "xs ! i = y" "take m (drop (Suc i) xs) = ys"
proof -
  show i: "i < length xs" using assms by (cases "i < length xs") auto
  show "xs ! i = y" "take m (drop (Suc i) xs) = ys"
    using assms unfolding Cons_nth_drop_Suc [OF i, symmetric] by auto
qed

section \<open>Bytes as numbers\<close>

lemma unat_lt_256 [simp]: "unat (b :: u8) < 256"
  using unsigned_less [of b, where ?'a = nat] by simp

lemma unat_le_255 [simp]: "unat (b :: u8) \<le> 255"
  using unat_lt_256 [of b] by linarith

lemma u8_ucast_unat [u8_simps]: "unat (ucast (b :: u8) :: u16) = unat b"
  by (simp add: unsigned_ucast_eq take_bit_eq_mod less_trans [OF unat_lt_256])

lemma u8_hi_nibble [u8_simps]: "unat (drop_bit 4 (b AND 0xF0) :: u8) = unat b div 16"
proof -
  have "drop_bit 4 (0xF0 :: u8) = mask 4" by code_simp
  then have "drop_bit 4 (b AND 0xF0) = take_bit 4 (drop_bit 4 b)"
    by (simp only: drop_bit_and take_bit_eq_mask)
  moreover have "unat (drop_bit 4 b) = unat b div 16"
    by (simp only: unsigned_drop_bit_eq)
      (simp add: drop_bit_eq_div [where ?'a = nat] take_bit_eq_mod [where ?'a = nat])
  moreover have "unat b div 16 < 16" using unat_lt_256 [of b] by linarith
  ultimately show ?thesis by (simp add: unsigned_take_bit_eq take_bit_eq_mod [where ?'a = nat])
qed

lemma u8_lo_nibble [u8_simps]: "unat (b AND 0x0F :: u8) = unat b mod 16"
proof -
  have "b AND 0x0F = take_bit 4 b"
    by (simp add: take_bit_eq_mask mask_eq_exp_minus_1)
  then show ?thesis by (simp only: unsigned_take_bit_eq) (simp add: take_bit_eq_mod)
qed

lemma ucast_of_nat_u8: "n < 256 \<Longrightarrow> ucast (of_nat n :: u8) = (of_nat n :: u16)"
proof -
  assume "n < 256"
  then have "unat (of_nat n :: u8) = n" by (simp only: unat_of_nat) simp
  then show ?thesis by (metis of_nat_unat)
qed

lemma ucast_u8_u16_u8: "ucast (ucast (m :: u8) :: u16) = m"
  by (metis of_nat_unat u8_ucast_unat ucast_id)

lemma ucast_of_nat_u32: "n < 256 \<Longrightarrow> ucast (of_nat n :: u32) = (of_nat n :: u8)"
  by (simp add: word_unat_eq_iff unsigned_ucast_eq unsigned_of_nat take_bit_eq_mod)

lemma u16_be: "unat (push_bit 8 (ucast (h :: u8)) OR ucast (l :: u8) :: u16) = 256 * unat h + unat l"
proof -
  have "bit (ucast l :: u16) n \<Longrightarrow> n < 8" for n
    by (auto simp: bit_simps dest: bit_imp_le_length)
  then have "push_bit 8 (ucast h :: u16) AND ucast l = 0"
    by (intro bit_word_eqI) (auto simp: bit_simps, metis not_le)
  then have "push_bit 8 (ucast h) OR ucast l = (push_bit 8 (ucast h) + ucast l :: u16)"
    by (simp only: disjunctive_add_eq_or)
  also have "\<dots> = of_nat (256 * unat h + unat l)"
    by (simp add: push_bit_eq_mult)
  moreover have "256 * unat h + unat l < 65536"
    using unat_lt_256 [of h] unat_lt_256 [of l] by linarith
  ultimately show ?thesis by (simp only: unat_of_nat) simp
qed

section \<open>Bit fields\<close>

lemma unat_drop_bit: "unat (drop_bit n (w :: 'a::len word)) = unat w div 2 ^ n"
proof -
  have "take_bit LENGTH('a) (unat w) = unat w" using unsigned_less [of w, where ?'a = nat] by (simp add: take_bit_eq_mod)
  then show ?thesis by (simp only: unsigned_drop_bit_eq drop_bit_eq_div [where ?'a = nat])
qed

lemma unat_and_7F: "unat ((w :: 'a::len word) AND 0x7F) = unat w mod 128"
proof -
  have "w AND 0x7F = take_bit 7 w" by (simp add: take_bit_eq_mask mask_eq_exp_minus_1)
  then show ?thesis by (simp only: unsigned_take_bit_eq) (simp add: take_bit_eq_mod)
qed

lemma unat_or_push_bit:
  fixes a b :: "'a::len word"
  assumes "unat a < 2 ^ k" "unat b * 2 ^ k < 2 ^ LENGTH('a)"
  shows "unat (a OR push_bit k b) = unat a + unat b * 2 ^ k"
proof -
  have "unat (a OR push_bit k b) = unat a OR unat (push_bit k b)" by (simp only: unsigned_or_eq)
  moreover have "unat (push_bit k b) = push_bit k (unat b)"
    using assms(2) by (simp only: unsigned_push_bit_eq) (simp add: take_bit_eq_mod push_bit_eq_mult)
  moreover have "unat a OR push_bit k (unat b) = unat a + push_bit k (unat b)"
  proof (rule disjunctive_add_eq_or [symmetric], rule bit_eqI)
    fix n
    have "take_bit k (unat a) = unat a" using assms(1) by (simp add: take_bit_eq_mod)
    then have "n < k" if "bit (unat a) n" using that by (metis bit_take_bit_iff)
    then show "bit (unat a AND push_bit k (unat b)) n = bit 0 n" by (auto simp: bit_simps)
  qed
  ultimately show ?thesis by (simp add: push_bit_eq_mult)
qed

lemma unat_or_80: "unat (b :: u8) < 128 \<Longrightarrow> unat (b OR 0x80) = unat b + 128"
proof -
  assume "unat b < 128"
  moreover have "(0x80 :: u8) = push_bit 7 1" by simp
  ultimately show ?thesis using unat_or_push_bit [of b 7 1] by simp
qed

lemma u8_and_80: "(b :: u8) AND 0x80 = 0 \<longleftrightarrow> unat b < 128"
proof -
  have n: "(0x80 :: u8) = NOT 0x7F" by simp
  have "unat b < 128 \<longleftrightarrow> unat b mod 128 = unat b" using mod_less_divisor [of 128 "unat b"] by (metis mod_less zero_less_numeral)
  also have "\<dots> \<longleftrightarrow> b AND 0x7F = b" by (simp only: unat_and_7F [symmetric] word_unat_eq_iff)
  also have "\<dots> \<longleftrightarrow> b AND NOT 0x7F = 0" by (auto simp: bit_eq_iff bit_simps)
  finally show ?thesis by (simp only: n)
qed

section \<open>Text\<close>

text \<open>The bytes of a string literal, and the decimal digits that \<open>printf\<close> writes for
  \<open>%d\<close>.\<close>

definition bytes_of :: "string \<Rightarrow> u8 list" where
  "bytes_of s = map (\<lambda>c. of_nat (of_char c)) s"

fun dec_nat :: "nat \<Rightarrow> u8 list" where
  "dec_nat n = (if n < 10 then [of_nat (48 + n)] else dec_nat (n div 10) @ [of_nat (48 + n mod 10)])"

declare dec_nat.simps [simp del]

definition dec_int :: "int \<Rightarrow> u8 list" where
  "dec_int i = (if i < 0 then 45 # dec_nat (nat (- i)) else dec_nat (nat i))"

lemma dec_nat_length: "length (dec_nat n) \<le> k \<longleftrightarrow> 0 < k \<and> n < 10 ^ k"
proof (induction n arbitrary: k rule: dec_nat.induct)
  case (1 n)
  show ?case
  proof (cases "n < 10")
    case True
    have "(10 :: nat) \<le> 10 ^ k" if "0 < k" using that power_increasing [of 1 k "10 :: nat"] by simp
    then have "n < 10 ^ k" if "0 < k" using that True by (meson less_le_trans)
    then show ?thesis using True by (subst dec_nat.simps) auto
  next
    case False
    then have "length (dec_nat n) \<le> k \<longleftrightarrow> 0 < k \<and> length (dec_nat (n div 10)) \<le> k - 1"
      by (subst dec_nat.simps) auto
    also have "\<dots> \<longleftrightarrow> 0 < k \<and> n < 10 ^ k"
      using 1 [OF False, of "k - 1"] False by (cases k) (auto simp: div_less_iff_less_mult)
    finally show ?thesis .
  qed
qed

section \<open>C strings\<close>

text \<open>The string at the start of an object: the bytes before its first zero.  Without a zero the
  string functions run out of the object.\<close>

definition c_str :: "u8 list \<Rightarrow> u8 list option" where
  "c_str bs = (if 0 \<in> set bs then Some (takeWhile (\<lambda>c. c \<noteq> 0) bs) else None)"

lemma c_str_append: "0 \<notin> set xs \<Longrightarrow> c_str (xs @ 0 # ys) = Some xs"
  by (simp add: c_str_def takeWhile_append takeWhile_eq_all_conv)

lemma c_str_Some: "c_str bs = Some xs \<Longrightarrow> 0 \<notin> set xs \<and> (\<exists>ys. bs = xs @ 0 # ys)"
proof -
  assume "c_str bs = Some xs"
  then have z: "0 \<in> set bs" and xs: "xs = takeWhile (\<lambda>c. c \<noteq> 0) bs" by (auto simp: c_str_def split: if_splits)
  have d: "dropWhile (\<lambda>c. c \<noteq> 0) bs \<noteq> []" using z by auto
  then have "hd (dropWhile (\<lambda>c. c \<noteq> 0) bs) = 0" using hd_dropWhile [OF d] by simp
  then have "bs = xs @ 0 # tl (dropWhile (\<lambda>c. c \<noteq> 0) bs)"
    using d xs by (metis takeWhile_dropWhile_id list.collapse)
  then show ?thesis using xs by (metis set_takeWhileD)
qed

lemma c_str_at: "i < length bs \<Longrightarrow> bs ! i = 0 \<Longrightarrow> \<exists>xs. c_str bs = Some xs \<and> length xs \<le> i"
proof -
  assume i: "i < length bs" "bs ! i = 0"
  then have "0 \<in> set bs" by (metis nth_mem)
  moreover have "length (takeWhile (\<lambda>c. c \<noteq> 0) bs) \<le> i"
    using i nth_length_takeWhile by (metis (mono_tags, lifting) linorder_not_le nth_mem set_takeWhileD takeWhile_nth)
  ultimately show ?thesis by (simp add: c_str_def)
qed

end
