(* ===== verification/Interfaces.thy ===== *)
theory Interfaces
  imports Prelude
begin

text \<open>
  The contracts between the components, as locales.  Each is interpreted on the definitions of the
  component that provides it, in that component's theory.
\<close>

section \<open>Message codecs\<close>

text \<open>
  A builder that serialises a packet into a caller's buffer and a parser that fills a packet from
  received bytes.  \<open>msg\<close> is the message a packet stands for and \<open>wire\<close> its bytes.
  \<open>sendable\<close> are the packets the builder accepts, \<open>target\<close> the packet structures the
  parser may fill.
\<close>

locale message_codec =
  fixes build :: "u8 list \<Rightarrow> nat \<Rightarrow> 'p \<Rightarrow> ('e \<times> u8 list \<times> nat) option"
    and parse :: "'p \<Rightarrow> u8 list \<Rightarrow> nat \<Rightarrow> ('e \<times> 'p) option"
    and ok :: 'e
    and msg :: "'p \<Rightarrow> 'm"
    and wire :: "'m \<Rightarrow> u8 list"
    and sendable :: "'p \<Rightarrow> bool"
    and target :: "'p \<Rightarrow> bool"
  assumes build_wire: "sendable p \<Longrightarrow> length (wire (msg p)) \<le> n \<Longrightarrow> n \<le> length buf \<Longrightarrow>
      \<exists>buf'. build buf n p = Some (ok, buf', length (wire (msg p))) \<and> length buf' = length buf \<and>
        take (length (wire (msg p))) buf' = wire (msg p) \<and>
        drop (length (wire (msg p))) buf' = drop (length (wire (msg p))) buf"
    and parse_wire: "sendable p \<Longrightarrow> target q \<Longrightarrow>
      \<exists>q'. parse q (wire (msg p)) (length (wire (msg p))) = Some (ok, q') \<and> msg q' = msg p"
begin

lemma round_trip:
  assumes "sendable p" "target q" "length (wire (msg p)) \<le> n" "n \<le> length buf"
  shows "\<exists>buf' k q'. build buf n p = Some (ok, buf', k) \<and> k \<le> n \<and>
    parse q (take k buf') k = Some (ok, q') \<and> msg q' = msg p"
  using build_wire [OF assms(1,3,4)] parse_wire [OF assms(1,2)] assms(3) by auto

lemma wire_inj:
  assumes "sendable p" "sendable q" "target r" "wire (msg p) = wire (msg q)"
  shows "msg p = msg q"
  using parse_wire [OF assms(1,3)] parse_wire [OF assms(2,3)] assms(4) by auto

end

section \<open>Interrupt controllers\<close>

text \<open>
  What a driver relies on, for the hart it runs on: a set of enabled vectors and a table of handlers
  that the four operations change in the expected way.  A driver attaches itself by registering its
  handler and unmasking its vector.
\<close>

locale interrupt_controller =
  fixes mask :: "nat \<Rightarrow> 's \<Rightarrow> 's"
    and unmask :: "nat \<Rightarrow> 's \<Rightarrow> 's"
    and register :: "nat \<Rightarrow> 'h \<Rightarrow> 's \<Rightarrow> 's option"
    and enabled :: "'s \<Rightarrow> nat set"
    and handler :: "'s \<Rightarrow> nat \<Rightarrow> 'h option"
    and irqs :: "nat set"
    and ok :: "'s \<Rightarrow> bool"
  assumes mask_enabled: "v \<in> irqs \<Longrightarrow> enabled (mask v s) = enabled s - {v}"
    and unmask_enabled: "v \<in> irqs \<Longrightarrow> enabled (unmask v s) = insert v (enabled s)"
    and mask_handler: "handler (mask v s) = handler s"
    and unmask_handler: "handler (unmask v s) = handler s"
    and mask_ok: "ok s \<Longrightarrow> ok (mask v s)"
    and unmask_ok: "ok s \<Longrightarrow> ok (unmask v s)"
    and register_law: "ok s \<Longrightarrow> v \<in> irqs \<Longrightarrow>
      \<exists>s'. register v h s = Some s' \<and> ok s' \<and> handler s' = (handler s)(v \<mapsto> h) \<and> enabled s' = enabled s"
begin

lemma attach:
  assumes "ok s" "v \<in> irqs"
  shows "\<exists>s'. register v h s = Some s' \<and> ok (unmask v s') \<and>
    enabled (unmask v s') = insert v (enabled s) \<and> handler (unmask v s') = (handler s)(v \<mapsto> h)"
  using register_law [OF assms, of h] assms(2) by (auto simp: unmask_ok unmask_enabled unmask_handler)

lemma mask_unmask: "v \<in> irqs \<Longrightarrow> v \<notin> enabled s \<Longrightarrow> enabled (mask v (unmask v s)) = enabled s"
  by (simp add: mask_enabled unmask_enabled)

lemma mask_all:
  "set vs \<subseteq> irqs \<Longrightarrow> enabled (fold mask vs s) = enabled s - set vs"
  by (induction vs arbitrary: s) (auto simp: mask_enabled)

end

end
