(* ===== verification/Coap.thy ===== *)
theory Coap
  imports Interfaces
begin

unbundle bit_operations_syntax

text \<open>
  The CoAP codec, \<open>src/pus/lib/coap/coap.c\<close> and \<open>include/lib/coap.h\<close>.

  Out-parameters are state: every function takes the structure it fills and returns it with the
  return code, also on the error returns, because callers such as
  \<open>coap_svc_callback\<close> go on after an error.  An access outside an object, and a read of an
  uninitialised local, is \<^term>\<open>None\<close>.  A buffer \<open>p, len\<close> is a
  \<^typ>\<open>cptr\<close> with its length.  \<open>size_t\<close> lengths of objects in memory are naturals;
  \<open>uint8_t\<close>, \<open>uint16_t\<close> and \<open>uint32_t\<close> values are words and wrap as in C.
  The debug output (\<open>LTRACEF\<close>, \<open>printf\<close>, \<open>coap_dump*\<close>) is not modelled.
\<close>

section \<open>Data of coap.h\<close>

definition MAXOPT :: nat where "MAXOPT = 16"

record coap_header =
  hdr_ver :: u8
  hdr_t :: u8
  hdr_tkl :: u8
  hdr_code :: u8
  hdr_id0 :: u8
  hdr_id1 :: u8

record coap_buffer =
  buf_p :: cptr
  buf_len :: nat

record coap_rw_buffer =
  rw_p :: "u8 list"
  rw_len :: nat

record coap_option =
  opt_num :: u8
  opt_buf :: coap_buffer

record coap_packet =
  pkt_hdr :: coap_header
  pkt_tok :: coap_buffer
  pkt_numopts :: u8
  pkt_opts :: "coap_option list"
  pkt_payload :: coap_buffer

datatype coap_option_num =
    COAP_OPTION_IF_MATCH | COAP_OPTION_URI_HOST | COAP_OPTION_ETAG
  | COAP_OPTION_IF_NONE_MATCH | COAP_OPTION_OBSERVE | COAP_OPTION_URI_PORT
  | COAP_OPTION_LOCATION_PATH | COAP_OPTION_URI_PATH | COAP_OPTION_CONTENT_FORMAT
  | COAP_OPTION_MAX_AGE | COAP_OPTION_URI_QUERY | COAP_OPTION_ACCEPT
  | COAP_OPTION_LOCATION_QUERY | COAP_OPTION_PROXY_URI | COAP_OPTION_PROXY_SCHEME

primrec coap_option_num_val :: "coap_option_num \<Rightarrow> u8" where
  "coap_option_num_val COAP_OPTION_IF_MATCH = 1"
| "coap_option_num_val COAP_OPTION_URI_HOST = 3"
| "coap_option_num_val COAP_OPTION_ETAG = 4"
| "coap_option_num_val COAP_OPTION_IF_NONE_MATCH = 5"
| "coap_option_num_val COAP_OPTION_OBSERVE = 6"
| "coap_option_num_val COAP_OPTION_URI_PORT = 7"
| "coap_option_num_val COAP_OPTION_LOCATION_PATH = 8"
| "coap_option_num_val COAP_OPTION_URI_PATH = 11"
| "coap_option_num_val COAP_OPTION_CONTENT_FORMAT = 12"
| "coap_option_num_val COAP_OPTION_MAX_AGE = 14"
| "coap_option_num_val COAP_OPTION_URI_QUERY = 15"
| "coap_option_num_val COAP_OPTION_ACCEPT = 17"
| "coap_option_num_val COAP_OPTION_LOCATION_QUERY = 20"
| "coap_option_num_val COAP_OPTION_PROXY_URI = 35"
| "coap_option_num_val COAP_OPTION_PROXY_SCHEME = 39"

datatype coap_method =
  COAP_METHOD_GET | COAP_METHOD_POST | COAP_METHOD_PUT | COAP_METHOD_DELETE

primrec coap_method_val :: "coap_method \<Rightarrow> u8" where
  "coap_method_val COAP_METHOD_GET = 1"
| "coap_method_val COAP_METHOD_POST = 2"
| "coap_method_val COAP_METHOD_PUT = 3"
| "coap_method_val COAP_METHOD_DELETE = 4"

datatype coap_msgtype =
  COAP_TYPE_CON | COAP_TYPE_NONCON | COAP_TYPE_ACK | COAP_TYPE_RESET

primrec coap_msgtype_val :: "coap_msgtype \<Rightarrow> u8" where
  "coap_msgtype_val COAP_TYPE_CON = 0"
| "coap_msgtype_val COAP_TYPE_NONCON = 1"
| "coap_msgtype_val COAP_TYPE_ACK = 2"
| "coap_msgtype_val COAP_TYPE_RESET = 3"

definition MAKE_RSPCODE :: "u8 \<Rightarrow> u8 \<Rightarrow> u8" where
  "MAKE_RSPCODE clas det = (push_bit 5 clas OR det)"

datatype coap_responsecode =
    COAP_RSPCODE_CONTENT | COAP_RSPCODE_NOT_FOUND
  | COAP_RSPCODE_BAD_REQUEST | COAP_RSPCODE_CHANGED

primrec coap_responsecode_val :: "coap_responsecode \<Rightarrow> u8" where
  "coap_responsecode_val COAP_RSPCODE_CONTENT = MAKE_RSPCODE 2 5"
| "coap_responsecode_val COAP_RSPCODE_NOT_FOUND = MAKE_RSPCODE 4 4"
| "coap_responsecode_val COAP_RSPCODE_BAD_REQUEST = MAKE_RSPCODE 4 0"
| "coap_responsecode_val COAP_RSPCODE_CHANGED = MAKE_RSPCODE 2 4"

datatype coap_content_type =
    COAP_CONTENTTYPE_NONE | COAP_CONTENTTYPE_TEXT_PLAIN
  | COAP_CONTENTTYPE_APPLICATION_LINKFORMAT | COAP_CONTENTTYPE_APPLICATION_XML
  | COAP_CONTENTTYPE_APPLICATION_OCTECT_STREAM | COAP_CONTENTTYPE_APPLICATION_EXI
  | COAP_CONTENTTYPE_APPLICATION_JSON

text \<open>The value of the enumerator after the cast \<open>(uint16_t)content_type\<close>.\<close>

primrec coap_content_type_val :: "coap_content_type \<Rightarrow> u16" where
  "coap_content_type_val COAP_CONTENTTYPE_NONE = -1"
| "coap_content_type_val COAP_CONTENTTYPE_TEXT_PLAIN = 0"
| "coap_content_type_val COAP_CONTENTTYPE_APPLICATION_LINKFORMAT = 40"
| "coap_content_type_val COAP_CONTENTTYPE_APPLICATION_XML = 41"
| "coap_content_type_val COAP_CONTENTTYPE_APPLICATION_OCTECT_STREAM = 42"
| "coap_content_type_val COAP_CONTENTTYPE_APPLICATION_EXI = 47"
| "coap_content_type_val COAP_CONTENTTYPE_APPLICATION_JSON = 50"

datatype coap_error =
    COAP_ERR_NONE | COAP_ERR_HEADER_TOO_SHORT | COAP_ERR_VERSION_NOT_1
  | COAP_ERR_TOKEN_TOO_SHORT | COAP_ERR_OPTION_TOO_SHORT_FOR_HEADER
  | COAP_ERR_OPTION_TOO_SHORT | COAP_ERR_OPTION_OVERRUNS_PACKET
  | COAP_ERR_OPTION_TOO_BIG | COAP_ERR_OPTION_LEN_INVALID
  | COAP_ERR_BUFFER_TOO_SMALL | COAP_ERR_UNSUPPORTED | COAP_ERR_OPTION_DELTA_INVALID

text \<open>An endpoint handler gets the scratch buffer, the request, the response to fill and the two
  message id bytes.\<close>

type_synonym coap_endpoint_func =
  "coap_rw_buffer \<Rightarrow> coap_packet \<Rightarrow> coap_packet \<Rightarrow> u8 \<Rightarrow> u8
     \<Rightarrow> (coap_error \<times> coap_rw_buffer \<times> coap_packet) option"

record coap_endpoint_path =
  path_count :: int
  path_elems :: "u8 list list"

record coap_endpoint =
  ep_method :: u8
  ep_handler :: "coap_endpoint_func option"
  ep_path :: coap_endpoint_path
  ep_core_attr :: string

section \<open>Parsing\<close>

definition coap_parseHeader :: "coap_header \<Rightarrow> u8 list \<Rightarrow> nat \<Rightarrow> (coap_error \<times> coap_header) option" where
  "coap_parseHeader hdr buf buflen =
     (if buflen < 4 then Some (COAP_ERR_HEADER_TOO_SHORT, hdr)
      else do {
        b0 \<leftarrow> peek buf 0;
        let hdr = hdr\<lparr>hdr_ver := drop_bit 6 (b0 AND 0xC0)\<rparr>;
        if hdr_ver hdr \<noteq> 1 then Some (COAP_ERR_VERSION_NOT_1, hdr)
        else do {
          b1 \<leftarrow> peek buf 1;
          b2 \<leftarrow> peek buf 2;
          b3 \<leftarrow> peek buf 3;
          Some (COAP_ERR_NONE,
            hdr\<lparr>hdr_t := drop_bit 4 (b0 AND 0x30), hdr_tkl := b0 AND 0x0F,
                hdr_code := b1, hdr_id0 := b2, hdr_id1 := b3\<rparr>)
        }
      })"

definition coap_parseToken ::
  "coap_buffer \<Rightarrow> coap_header \<Rightarrow> u8 list \<Rightarrow> nat \<Rightarrow> coap_error \<times> coap_buffer" where
  "coap_parseToken tokbuf hdr buf buflen =
     (if hdr_tkl hdr = 0 then (COAP_ERR_NONE, \<lparr>buf_p = None, buf_len = 0\<rparr>)
      else if hdr_tkl hdr \<le> 8 then
        (if 4 + unat (hdr_tkl hdr) > buflen then (COAP_ERR_TOKEN_TOO_SHORT, tokbuf)
         else (COAP_ERR_NONE, \<lparr>buf_p = Some (drop 4 buf), buf_len = unat (hdr_tkl hdr)\<rparr>))
      else (COAP_ERR_TOKEN_TOO_SHORT, tokbuf))"

text \<open>The extended form of a delta or length nibble, the two equal \<open>if\<close> chains of
  \<open>coap_parseOption\<close>: \<open>p\<close> is the index of the last head byte read, \<open>headlen\<close> the
  bytes of the head so far and \<open>invalid\<close> the error of the reserved nibble 15.\<close>

definition coap_parseExt ::
  "u16 \<Rightarrow> nat \<Rightarrow> nat \<Rightarrow> u8 list \<Rightarrow> nat \<Rightarrow> coap_error \<Rightarrow> (coap_error + u16 \<times> nat \<times> nat) option" where
  "coap_parseExt nib headlen p buf buflen invalid =
     (if nib = 13 then
        (if buflen < headlen + 1 then Some (Inl COAP_ERR_OPTION_TOO_SHORT_FOR_HEADER)
         else do {
           b \<leftarrow> peek buf (p + 1);
           Some (Inr (ucast b + 13, headlen + 1, p + 1))
         })
      else if nib = 14 then
        (if buflen < headlen + 2 then Some (Inl COAP_ERR_OPTION_TOO_SHORT_FOR_HEADER)
         else do {
           b1 \<leftarrow> peek buf (p + 1);
           b2 \<leftarrow> peek buf (p + 2);
           Some (Inr ((push_bit 8 (ucast b1) OR ucast b2) + 269, headlen + 2, p + 2))
         })
      else if nib = 15 then Some (Inl invalid)
      else Some (Inr (nib, headlen, p)))"

definition coap_parseOption ::
  "coap_option \<Rightarrow> u16 \<Rightarrow> u8 list \<Rightarrow> nat
     \<Rightarrow> (coap_error \<times> coap_option \<times> u16 \<times> u8 list) option" where
  "coap_parseOption opt running_delta buf buflen =
     (if buflen < 1 then Some (COAP_ERR_OPTION_TOO_SHORT_FOR_HEADER, opt, running_delta, buf)
      else do {
        b0 \<leftarrow> peek buf 0;
        d \<leftarrow> coap_parseExt (ucast (drop_bit 4 (b0 AND 0xF0))) 1 0 buf buflen
              COAP_ERR_OPTION_DELTA_INVALID;
        case d of Inl e \<Rightarrow> Some (e, opt, running_delta, buf)
        | Inr (delta, headlen, p) \<Rightarrow> do {
            l \<leftarrow> coap_parseExt (ucast (b0 AND 0x0F)) headlen p buf buflen
                  COAP_ERR_OPTION_LEN_INVALID;
            case l of Inl e \<Rightarrow> Some (e, opt, running_delta, buf)
            | Inr (len, headlen, p) \<Rightarrow>
                if p + 1 + unat len > buflen
                then Some (COAP_ERR_OPTION_TOO_BIG, opt, running_delta, buf)
                else Some (COAP_ERR_NONE,
                  \<lparr>opt_num = ucast (delta + running_delta),
                   opt_buf = \<lparr>buf_p = Some (drop (p + 1) buf), buf_len = unat len\<rparr>\<rparr>,
                  running_delta + delta, drop (p + 1 + unat len) buf)
          }
      })"

text \<open>The loop of \<open>coap_parseOptionsAndPayload\<close>.  \<open>p\<close> is the rest of the buffer and
  \<open>left\<close> the distance \<open>end - p\<close>; the result is the return code, the options written, the
  option count reached and the rest.\<close>

function coap_parseOptions ::
  "coap_option list \<Rightarrow> nat \<Rightarrow> nat \<Rightarrow> u16 \<Rightarrow> u8 list \<Rightarrow> nat
     \<Rightarrow> (coap_error \<times> coap_option list \<times> nat \<times> u8 list \<times> nat) option" where
  "coap_parseOptions options optionIndex numOptions delta p left =
     (if optionIndex < numOptions \<and> left > 0 then
        (case peek p 0 of None \<Rightarrow> None
         | Some b \<Rightarrow>
           if b = 0xFF then Some (COAP_ERR_NONE, options, optionIndex, p, left)
           else (case peek options optionIndex of None \<Rightarrow> None
             | Some opt \<Rightarrow>
               (case coap_parseOption opt delta p left of None \<Rightarrow> None
                | Some (rc, opt', delta', p') \<Rightarrow>
                  if rc \<noteq> COAP_ERR_NONE
                  then Some (rc, options[optionIndex := opt'], optionIndex, p, left)
                  else coap_parseOptions (options[optionIndex := opt']) (Suc optionIndex)
                         numOptions delta' p' (left - (length p - length p')))))
      else Some (COAP_ERR_NONE, options, optionIndex, p, left))"
  by pat_completeness auto
termination
  by (relation "measure (\<lambda>(_, i, n, _). n - i)") auto

declare coap_parseOptions.simps [simp del]

definition coap_parseOptionsAndPayload ::
  "coap_option list \<Rightarrow> u8 \<Rightarrow> coap_buffer \<Rightarrow> coap_header \<Rightarrow> u8 list \<Rightarrow> nat
     \<Rightarrow> (coap_error \<times> coap_option list \<times> u8 \<times> coap_buffer) option" where
  "coap_parseOptionsAndPayload options numOptions payload hdr buf buflen =
     (let start = 4 + unat (hdr_tkl hdr) in
      if start > buflen then Some (COAP_ERR_OPTION_OVERRUNS_PACKET, options, numOptions, payload)
      else do {
        (rc, options, optionIndex, p, left) \<leftarrow>
          coap_parseOptions options 0 (unat numOptions) 0 (drop start buf) (buflen - start);
        if rc \<noteq> COAP_ERR_NONE then Some (rc, options, numOptions, payload)
        else if left > 1 then do {
          b \<leftarrow> peek p 0;
          if b = 0xFF
          then Some (COAP_ERR_NONE, options, of_nat optionIndex,
                 \<lparr>buf_p = Some (drop 1 p), buf_len = left - 1\<rparr>)
          else Some (COAP_ERR_NONE, options, of_nat optionIndex, \<lparr>buf_p = None, buf_len = 0\<rparr>)
        }
        else Some (COAP_ERR_NONE, options, of_nat optionIndex, \<lparr>buf_p = None, buf_len = 0\<rparr>)
      })"

definition coap_parse :: "coap_packet \<Rightarrow> u8 list \<Rightarrow> nat \<Rightarrow> (coap_error \<times> coap_packet) option" where
  "coap_parse pkt buf buflen = do {
     (rc, hdr) \<leftarrow> coap_parseHeader (pkt_hdr pkt) buf buflen;
     let pkt = pkt\<lparr>pkt_hdr := hdr\<rparr>;
     if rc \<noteq> COAP_ERR_NONE then Some (rc, pkt)
     else do {
       let (rc, tok) = coap_parseToken (pkt_tok pkt) hdr buf buflen;
       let pkt = pkt\<lparr>pkt_tok := tok\<rparr>;
       if rc \<noteq> COAP_ERR_NONE then Some (rc, pkt)
       else do {
         let pkt = pkt\<lparr>pkt_numopts := of_nat MAXOPT\<rparr>;
         (rc, opts, numopts, payload) \<leftarrow>
           coap_parseOptionsAndPayload (pkt_opts pkt) (pkt_numopts pkt) (pkt_payload pkt) hdr buf buflen;
         Some (rc, pkt\<lparr>pkt_opts := opts, pkt_numopts := numopts, pkt_payload := payload\<rparr>)
       }
     }
   }"

section \<open>Options, strings\<close>

text \<open>The result is the index of the first option of the block (\<open>NULL\<close> is
  \<^term>\<open>None\<close>) and the count.  \<open>n\<close> is the number of options not yet seen.\<close>

fun coap_findOptions_loop ::
  "coap_option list \<Rightarrow> u8 \<Rightarrow> nat \<Rightarrow> nat \<Rightarrow> nat option \<Rightarrow> u8 \<Rightarrow> (nat option \<times> u8) option" where
  "coap_findOptions_loop opts num 0 i first count = Some (first, count)"
| "coap_findOptions_loop opts num (Suc n) i first count =
     (case peek opts i of None \<Rightarrow> None
      | Some opt \<Rightarrow>
        if opt_num opt = num
        then coap_findOptions_loop opts num n (Suc i)
               (case first of None \<Rightarrow> Some i | Some f \<Rightarrow> Some f) (count + 1)
        else if first \<noteq> None then Some (first, count)
        else coap_findOptions_loop opts num n (Suc i) first count)"

definition coap_findOptions :: "coap_packet \<Rightarrow> u8 \<Rightarrow> (nat option \<times> u8) option" where
  "coap_findOptions pkt num =
     coap_findOptions_loop (pkt_opts pkt) num (unat (pkt_numopts pkt)) 0 None 0"

definition coap_buffer_to_string :: "u8 list \<Rightarrow> nat \<Rightarrow> coap_buffer \<Rightarrow> (coap_error \<times> u8 list) option" where
  "coap_buffer_to_string strbuf strbuflen buf =
     (if buf_len buf + 1 > strbuflen then Some (COAP_ERR_BUFFER_TOO_SMALL, strbuf)
      else do {
        src \<leftarrow> memcpy_out (buf_p buf) (buf_len buf);
        strbuf \<leftarrow> memcpy_in strbuf 0 src;
        strbuf \<leftarrow> poke strbuf (buf_len buf) 0;
        Some (COAP_ERR_NONE, strbuf)
      })"

section \<open>Building\<close>

text \<open>The out-parameter \<open>*nibble\<close> is \<^term>\<open>None\<close> while it is uninitialised.\<close>

definition coap_option_nibble :: "u32 \<Rightarrow> u8 option \<Rightarrow> u8 option" where
  "coap_option_nibble value nibble =
     (if value < 13 then Some (0xFF AND ucast value)
      else if value \<le> 0xFF + 13 then Some 13
      else if value \<le> 0xFFFF + 269 then Some 14
      else nibble)"

text \<open>One iteration of the option loop of \<open>coap_build\<close>: \<open>p\<close> is the index
  \<open>p - buf\<close>.\<close>

definition coap_build_option ::
  "nat \<Rightarrow> coap_option \<Rightarrow> u8 list \<Rightarrow> nat \<Rightarrow> u16 \<Rightarrow> (coap_error \<times> u8 list \<times> nat \<times> u16) option" where
  "coap_build_option buflen opt buf p running_delta =
     (if p > buflen then Some (COAP_ERR_BUFFER_TOO_SMALL, buf, p, running_delta)
      else do {
        let optDelta = (ucast (opt_num opt) - ucast running_delta :: u32);
        let olen = buf_len (opt_buf opt);
        delta \<leftarrow> coap_option_nibble optDelta (Some 0);
        len \<leftarrow> coap_option_nibble (of_nat olen) None;
        buf \<leftarrow> poke buf p (push_bit 4 delta OR len);
        let p = p + 1;
        (buf, p) \<leftarrow>
          (if delta = 13 then do {
             buf \<leftarrow> poke buf p (ucast (optDelta - 13));
             Some (buf, p + 1)
           } else if delta = 14 then do {
             buf \<leftarrow> poke buf p (ucast (drop_bit 8 (optDelta - 269)));
             buf \<leftarrow> poke buf (p + 1) (ucast (0xFF AND (optDelta - 269)));
             Some (buf, p + 2)
           } else Some (buf, p));
        (buf, p) \<leftarrow>
          (if len = 13 then do {
             buf \<leftarrow> poke buf p (of_nat (olen - 13));
             Some (buf, p + 1)
           } else if len = 14 then do {
             buf \<leftarrow> poke buf p (of_nat (olen div 256));
             buf \<leftarrow> poke buf (p + 1) (of_nat (olen - 269));
             Some (buf, p + 2)
           } else Some (buf, p));
        src \<leftarrow> memcpy_out (buf_p (opt_buf opt)) olen;
        buf \<leftarrow> memcpy_in buf p src;
        Some (COAP_ERR_NONE, buf, p + olen, ucast (opt_num opt))
      })"

fun coap_build_options ::
  "coap_option list \<Rightarrow> nat \<Rightarrow> nat \<Rightarrow> nat \<Rightarrow> u8 list \<Rightarrow> nat \<Rightarrow> u16
     \<Rightarrow> (coap_error \<times> u8 list \<times> nat) option" where
  "coap_build_options opts 0 i buflen buf p running_delta = Some (COAP_ERR_NONE, buf, p)"
| "coap_build_options opts (Suc n) i buflen buf p running_delta =
     (case peek opts i of None \<Rightarrow> None
      | Some opt \<Rightarrow>
        (case coap_build_option buflen opt buf p running_delta of None \<Rightarrow> None
         | Some (rc, buf, p, running_delta) \<Rightarrow>
           if rc \<noteq> COAP_ERR_NONE then Some (rc, buf, p)
           else coap_build_options opts n (Suc i) buflen buf p running_delta))"

text \<open>The second half of \<open>coap_build\<close>: the options and the payload, after the header and the
  token are in the buffer.\<close>

definition coap_build_rest :: "nat \<Rightarrow> coap_packet \<Rightarrow> u8 list \<Rightarrow> (coap_error \<times> u8 list \<times> nat) option" where
  "coap_build_rest buflen pkt buf =
     (let payload = pkt_payload pkt in do {
        (rc, buf, p) \<leftarrow> coap_build_options (pkt_opts pkt) (unat (pkt_numopts pkt)) 0 buflen buf
          (4 + unat (hdr_tkl (pkt_hdr pkt))) 0;
        if rc \<noteq> COAP_ERR_NONE then Some (rc, buf, buflen)
        else do {
          let opts_len = p - 4;
          if buf_len payload > 0 then
            (if buflen < 4 + 1 + buf_len payload + opts_len
             then Some (COAP_ERR_BUFFER_TOO_SMALL, buf, buflen)
             else do {
               buf \<leftarrow> poke buf (4 + opts_len) 0xFF;
               src \<leftarrow> memcpy_out (buf_p payload) (buf_len payload);
               buf \<leftarrow> memcpy_in buf (5 + opts_len) src;
               Some (COAP_ERR_NONE, buf, opts_len + 5 + buf_len payload)
             })
          else Some (COAP_ERR_NONE, buf, opts_len + 4)
        }
      })"

definition coap_build :: "u8 list \<Rightarrow> nat \<Rightarrow> coap_packet \<Rightarrow> (coap_error \<times> u8 list \<times> nat) option" where
  "coap_build buf buflen pkt =
     (let hdr = pkt_hdr pkt; tkl = unat (hdr_tkl hdr) in
      if buflen < 4 + tkl then Some (COAP_ERR_BUFFER_TOO_SMALL, buf, buflen)
      else do {
        buf \<leftarrow> poke buf 0 (push_bit 6 (hdr_ver hdr AND 0x03) OR push_bit 4 (hdr_t hdr AND 0x03)
                          OR (hdr_tkl hdr AND 0x0F));
        buf \<leftarrow> poke buf 1 (hdr_code hdr);
        buf \<leftarrow> poke buf 2 (hdr_id0 hdr);
        buf \<leftarrow> poke buf 3 (hdr_id1 hdr);
        if tkl > 0 \<and> tkl \<noteq> buf_len (pkt_tok pkt) then Some (COAP_ERR_UNSUPPORTED, buf, buflen)
        else do {
          tok \<leftarrow> memcpy_out (buf_p (pkt_tok pkt)) tkl;
          buf \<leftarrow> memcpy_in buf 4 tok;
          coap_build_rest buflen pkt buf
        }
      })"

section \<open>Responses and request dispatch\<close>

text \<open>\<open>opts[0].buf.p\<close> points into the scratch buffer, so the option holds the bytes written to
  it.  The loop that prints the payload moves \<open>payload.p\<close> and puts it back.\<close>

definition coap_make_response ::
  "coap_rw_buffer \<Rightarrow> coap_packet \<Rightarrow> cptr \<Rightarrow> nat \<Rightarrow> u8 \<Rightarrow> u8 \<Rightarrow> coap_buffer option
     \<Rightarrow> coap_responsecode \<Rightarrow> coap_content_type
     \<Rightarrow> (coap_error \<times> coap_rw_buffer \<times> coap_packet) option" where
  "coap_make_response scratch pkt content content_len msgid_hi msgid_lo tok rspcode content_type =
     do {
       let hdr = (pkt_hdr pkt)\<lparr>hdr_ver := 0x01, hdr_t := coap_msgtype_val COAP_TYPE_ACK, hdr_tkl := 0,
             hdr_code := coap_responsecode_val rspcode, hdr_id0 := msgid_hi, hdr_id1 := msgid_lo\<rparr>;
       let pkt = pkt\<lparr>pkt_hdr := hdr, pkt_numopts := 1\<rparr>;
       let pkt = (case tok of None \<Rightarrow> pkt
             | Some tk \<Rightarrow> pkt\<lparr>pkt_hdr := hdr\<lparr>hdr_tkl := of_nat (buf_len tk)\<rparr>, pkt_tok := tk\<rparr>);
       opt \<leftarrow> peek (pkt_opts pkt) 0;
       let opt = opt\<lparr>opt_num := coap_option_num_val COAP_OPTION_CONTENT_FORMAT,
             opt_buf := (opt_buf opt)\<lparr>buf_p := Some (rw_p scratch)\<rparr>\<rparr>;
       if rw_len scratch < 2
       then Some (COAP_ERR_BUFFER_TOO_SMALL, scratch, pkt\<lparr>pkt_opts := (pkt_opts pkt)[0 := opt]\<rparr>)
       else do {
         sp \<leftarrow> poke (rw_p scratch) 0
                (ucast (drop_bit 8 (coap_content_type_val content_type AND 0xFF00)));
         sp \<leftarrow> poke sp 1 (ucast (coap_content_type_val content_type AND 0x00FF));
         Some (COAP_ERR_NONE, scratch\<lparr>rw_p := sp\<rparr>,
           pkt\<lparr>pkt_opts := (pkt_opts pkt)[0 := opt\<lparr>opt_buf := \<lparr>buf_p = Some sp, buf_len = 2\<rparr>\<rparr>],
               pkt_payload := \<lparr>buf_p = content, buf_len = content_len\<rparr>\<rparr>)
       }
     }"

text \<open>The segment loop of \<open>coap_handle_req\<close>; \<open>opt\<close> is the index of the first option of
  the block and \<open>n\<close> the number of segments left.\<close>

fun coap_match_path :: "coap_option list \<Rightarrow> nat \<Rightarrow> u8 list list \<Rightarrow> nat \<Rightarrow> nat \<Rightarrow> bool option" where
  "coap_match_path opts opt elems i 0 = Some True"
| "coap_match_path opts opt elems i (Suc n) =
     (case (peek opts (opt + i), peek elems i) of
        (Some op, Some el) \<Rightarrow>
          if buf_len (opt_buf op) \<noteq> length el then Some False
          else (case memcpy_out (buf_p (opt_buf op)) (buf_len (opt_buf op)) of None \<Rightarrow> None
            | Some bs \<Rightarrow> if bs \<noteq> el then Some False
                else coap_match_path opts opt elems (Suc i) n)
      | _ \<Rightarrow> None)"

definition coap_endpoint_matches :: "coap_packet \<Rightarrow> coap_endpoint \<Rightarrow> bool option" where
  "coap_endpoint_matches inpkt ep =
     (if ep_method ep \<noteq> hdr_code (pkt_hdr inpkt) then Some False
      else do {
        (opt, count) \<leftarrow> coap_findOptions inpkt (coap_option_num_val COAP_OPTION_URI_PATH);
        case opt of None \<Rightarrow> Some False
        | Some f \<Rightarrow>
          if int (unat count) \<noteq> path_count (ep_path ep) then Some False
          else coap_match_path (pkt_opts inpkt) f (path_elems (ep_path ep)) 0 (unat count)
      })"

text \<open>\<open>ep\<close> is the endpoint table from the current entry on; running off its end is an access
  outside the table.\<close>

fun coap_handle_req ::
  "coap_rw_buffer \<Rightarrow> coap_packet \<Rightarrow> coap_packet \<Rightarrow> coap_endpoint list
     \<Rightarrow> (coap_error \<times> coap_rw_buffer \<times> coap_packet) option" where
  "coap_handle_req scratch inpkt outpkt [] = None"
| "coap_handle_req scratch inpkt outpkt (ep # eps) =
     (case ep_handler ep of
        None \<Rightarrow> do {
          (rc, scratch, outpkt) \<leftarrow>
            coap_make_response scratch outpkt None 0 (hdr_id0 (pkt_hdr inpkt)) (hdr_id1 (pkt_hdr inpkt))
              (Some (pkt_tok inpkt)) COAP_RSPCODE_NOT_FOUND COAP_CONTENTTYPE_NONE;
          Some (COAP_ERR_NONE, scratch, outpkt)
        }
      | Some handler \<Rightarrow>
          (case coap_endpoint_matches inpkt ep of
             None \<Rightarrow> None
           | Some True \<Rightarrow> handler scratch inpkt outpkt (hdr_id0 (pkt_hdr inpkt)) (hdr_id1 (pkt_hdr inpkt))
           | Some False \<Rightarrow> coap_handle_req scratch inpkt outpkt eps))"

section \<open>Memory safety of the parser\<close>

definition buf_ok :: "coap_buffer \<Rightarrow> bool" where
  "buf_ok b = (case buf_p b of None \<Rightarrow> buf_len b = 0 | Some bs \<Rightarrow> buf_len b \<le> length bs)"

definition buf_bytes :: "coap_buffer \<Rightarrow> u8 list" where
  "buf_bytes b = (case buf_p b of None \<Rightarrow> [] | Some bs \<Rightarrow> take (buf_len b) bs)"

definition pkt_live_opts :: "coap_packet \<Rightarrow> coap_option list" where
  "pkt_live_opts pkt = take (unat (pkt_numopts pkt)) (pkt_opts pkt)"

text \<open>What \<open>coap_parse\<close> promises of a packet it accepts.\<close>

definition pkt_ok :: "coap_packet \<Rightarrow> bool" where
  "pkt_ok pkt \<longleftrightarrow>
     hdr_ver (pkt_hdr pkt) = 1 \<and> unat (hdr_t (pkt_hdr pkt)) < 4 \<and>
     unat (hdr_tkl (pkt_hdr pkt)) \<le> 8 \<and> buf_len (pkt_tok pkt) = unat (hdr_tkl (pkt_hdr pkt)) \<and>
     buf_ok (pkt_tok pkt) \<and> length (pkt_opts pkt) = MAXOPT \<and> unat (pkt_numopts pkt) \<le> MAXOPT \<and>
     (\<forall>opt\<in>set (pkt_live_opts pkt). buf_ok (opt_buf opt)) \<and> buf_ok (pkt_payload pkt)"

lemma buf_ok_simps [simp]:
  "buf_ok \<lparr>buf_p = None, buf_len = n\<rparr> \<longleftrightarrow> n = 0"
  "buf_ok \<lparr>buf_p = Some bs, buf_len = n\<rparr> \<longleftrightarrow> n \<le> length bs"
  by (simp_all add: buf_ok_def)

lemma coap_parseExt_safe:
  assumes "headlen = p + 1" "headlen \<le> buflen" "buflen \<le> length buf" "e \<noteq> COAP_ERR_NONE"
  shows "(\<exists>e'. coap_parseExt nib headlen p buf buflen e = Some (Inl e') \<and> e' \<noteq> COAP_ERR_NONE) \<or>
    (\<exists>v q. coap_parseExt nib headlen p buf buflen e = Some (Inr (v, q + 1, q)) \<and> q + 1 \<le> buflen)"
  using assms by (auto simp: coap_parseExt_def mem_simps)

lemma coap_parseOption_safe:
  assumes "buflen \<le> length buf"
  shows "\<exists>rc opt' delta' p'.
    coap_parseOption opt delta buf buflen = Some (rc, opt', delta', p') \<and>
    (rc = COAP_ERR_NONE \<longrightarrow> (\<exists>k>0. k \<le> buflen \<and> p' = drop k buf \<and> buf_ok (opt_buf opt')))"
proof (cases "buflen < 1")
  case True
  then show ?thesis by (auto simp: coap_parseOption_def)
next
  case False
  with assms obtain b0 where b0: "peek buf 0 = Some b0"
    using peek_in [of 0 buf] by fastforce
  define d where "d = (ucast (drop_bit 4 (b0 AND 0xF0)) :: u16)"
  define l where "l = (ucast (b0 AND 0x0F) :: u16)"
  consider (err) e where "coap_parseExt d 1 0 buf buflen COAP_ERR_OPTION_DELTA_INVALID = Some (Inl e)"
      "e \<noteq> COAP_ERR_NONE"
    | (ok) dv q where "coap_parseExt d 1 0 buf buflen COAP_ERR_OPTION_DELTA_INVALID
        = Some (Inr (dv, q + 1, q))" "q + 1 \<le> buflen"
    using coap_parseExt_safe [of 1 0 buflen buf COAP_ERR_OPTION_DELTA_INVALID d] False assms by auto
  then show ?thesis
  proof cases
    case err
    with b0 False show ?thesis by (simp add: coap_parseOption_def d_def)
  next
    case d: ok
    consider (err) e where
        "coap_parseExt l (q + 1) q buf buflen COAP_ERR_OPTION_LEN_INVALID = Some (Inl e)"
        "e \<noteq> COAP_ERR_NONE"
      | (ok) lv q' where "coap_parseExt l (q + 1) q buf buflen COAP_ERR_OPTION_LEN_INVALID
          = Some (Inr (lv, q' + 1, q'))" "q' + 1 \<le> buflen"
      using coap_parseExt_safe [of "q + 1" q buflen buf COAP_ERR_OPTION_LEN_INVALID l] d assms by auto
    then show ?thesis
    proof cases
      case err
      with b0 d False show ?thesis by (simp add: coap_parseOption_def d_def l_def)
    next
      case l: ok
      then show ?thesis
        using b0 d False assms
        by (auto simp: coap_parseOption_def d_def l_def buf_ok_def
            intro!: exI [of _ "Suc (q' + unat lv)"])
    qed
  qed
qed

lemma coap_parseOptions_safe:
  assumes "left \<le> length p" "i \<le> n" "n \<le> length options"
    and "\<forall>opt\<in>set (take i options). buf_ok (opt_buf opt)"
  shows "\<exists>rc options' i' p' left'.
    coap_parseOptions options i n delta p left = Some (rc, options', i', p', left') \<and>
    length options' = length options \<and>
    (rc = COAP_ERR_NONE \<longrightarrow> i' \<le> n \<and> left' \<le> length p' \<and> left' \<le> left \<and>
       (\<forall>opt\<in>set (take i' options'). buf_ok (opt_buf opt)))"
  using assms
proof (induction options i n delta p left rule: coap_parseOptions.induct)
  case (1 options i n delta p left)
  show ?case
  proof (cases "i < n \<and> left > 0 \<and> p ! 0 \<noteq> 0xFF")
    case False
    moreover have "left > 0 \<Longrightarrow> peek p 0 = Some (p ! 0)" using 1(2) by (intro peek_in) linarith
    ultimately show ?thesis using 1(2-5) by (subst coap_parseOptions.simps) auto
  next
    case True
    with 1(2-5) have pk: "peek p 0 = Some (p ! 0)" "peek options i = Some (options ! i)"
      by (auto intro!: peek_in)
    from coap_parseOption_safe [OF 1(2), of "options ! i" delta] obtain rc opt' delta' p' where
      po: "coap_parseOption (options ! i) delta p left = Some (rc, opt', delta', p')" and
      ok: "rc = COAP_ERR_NONE \<longrightarrow> (\<exists>k>0. k \<le> left \<and> p' = drop k p \<and> buf_ok (opt_buf opt'))"
      by blast
    show ?thesis
    proof (cases "rc = COAP_ERR_NONE")
      case False
      with True pk po show ?thesis by (subst coap_parseOptions.simps) auto
    next
      case rc: True
      from ok rc obtain k where k: "k > 0" "k \<le> left" "p' = drop k p" "buf_ok (opt_buf opt')"
        by blast
      let ?left = "left - (length p - length p')"
      have left: "?left \<le> length p'" "?left \<le> left" using k 1(2) by auto
      have "take (Suc i) (options[i := opt']) = take i options @ [opt']"
        using True 1(4) by (intro take_poke_next) auto
      then have "\<forall>opt\<in>set (take (Suc i) (options[i := opt'])). buf_ok (opt_buf opt)"
        using 1(5) k by auto
      with 1(1) [of "p ! 0" "options ! i" "(rc, opt', delta', p')" rc "(opt', delta', p')" opt' "(delta', p')" delta' p']
        True pk po rc left 1(3,4)
      have IH: "\<exists>rc'' options' i' q left'.
        coap_parseOptions (options[i := opt']) (Suc i) n delta' p' ?left = Some (rc'', options', i', q, left') \<and>
        length options' = length (options[i := opt']) \<and>
        (rc'' = COAP_ERR_NONE \<longrightarrow> i' \<le> n \<and> left' \<le> length q \<and> left' \<le> ?left \<and>
           (\<forall>opt\<in>set (take i' options'). buf_ok (opt_buf opt)))"
        by simp
      have "coap_parseOptions options i n delta p left =
          coap_parseOptions (options[i := opt']) (Suc i) n delta' p' ?left"
        using True pk po rc by (subst coap_parseOptions.simps) simp
      with IH left show ?thesis by (force intro: order_trans)
    qed
  qed
qed

lemma hdr_t_bound: "unat (drop_bit 4 (b AND 0x30) :: u8) < 4"
proof -
  have "drop_bit 4 (0x30 :: u8) = 3" by code_simp
  then have "drop_bit 4 (b AND 0x30) = drop_bit 4 b AND 3" by (simp only: drop_bit_and)
  also have "\<dots> \<le> 3" by (rule word_and_le1)
  finally show ?thesis by (simp add: word_le_nat_alt)
qed

lemma coap_parseHeader_safe:
  assumes "buflen \<le> length buf"
  shows "\<exists>rc hdr'. coap_parseHeader hdr buf buflen = Some (rc, hdr') \<and>
    (rc = COAP_ERR_NONE \<longrightarrow> hdr_ver hdr' = 1 \<and> unat (hdr_t hdr') < 4 \<and> 4 \<le> buflen)"
proof (cases "buflen < 4")
  case False
  then have "peek buf 0 = Some (buf ! 0)" "peek buf 1 = Some (buf ! 1)"
    "peek buf 2 = Some (buf ! 2)" "peek buf 3 = Some (buf ! 3)"
    using assms by (auto intro!: peek_in)
  with False show ?thesis
    using hdr_t_bound [of "buf ! 0"] by (simp add: coap_parseHeader_def Let_def)
qed (simp add: coap_parseHeader_def)

lemma coap_parseToken_ok:
  assumes "coap_parseToken tok hdr buf buflen = (COAP_ERR_NONE, tok')" "buflen \<le> length buf"
  shows "unat (hdr_tkl hdr) \<le> 8" "buf_len tok' = unat (hdr_tkl hdr)" "buf_ok tok'"
  using assms by (auto simp: coap_parseToken_def buf_ok_def word_le_nat_alt split: if_splits)

lemma coap_parse_ok:
  assumes "buflen \<le> length buf" "length (pkt_opts pkt) = MAXOPT"
  shows "\<exists>rc pkt'. coap_parse pkt buf buflen = Some (rc, pkt') \<and>
     length (pkt_opts pkt') = MAXOPT \<and> (rc = COAP_ERR_NONE \<longrightarrow> pkt_ok pkt')"
proof -
  from coap_parseHeader_safe [OF assms(1), of "pkt_hdr pkt"] obtain rc hdr where
    h: "coap_parseHeader (pkt_hdr pkt) buf buflen = Some (rc, hdr)" and
    hok: "rc = COAP_ERR_NONE \<longrightarrow> hdr_ver hdr = 1 \<and> unat (hdr_t hdr) < 4 \<and> 4 \<le> buflen"
    by blast
  obtain rct tok where t: "coap_parseToken (pkt_tok pkt) hdr buf buflen = (rct, tok)" by fastforce
  show ?thesis
  proof (cases "rc = COAP_ERR_NONE \<and> rct = COAP_ERR_NONE \<and> 4 + unat (hdr_tkl hdr) \<le> buflen")
    case False
    with h t assms show ?thesis
      by (auto simp: coap_parse_def coap_parseOptionsAndPayload_def Let_def)
  next
    case True
    let ?s = "4 + unat (hdr_tkl hdr)"
    obtain rco opts i p left where
      o: "coap_parseOptions (pkt_opts pkt) 0 MAXOPT 0 (drop ?s buf) (buflen - ?s)
            = Some (rco, opts, i, p, left)" and len: "length opts = length (pkt_opts pkt)" and
      ook: "rco = COAP_ERR_NONE \<longrightarrow> i \<le> MAXOPT \<and> left \<le> length p \<and>
              (\<forall>opt\<in>set (take i opts). buf_ok (opt_buf opt))"
      using coap_parseOptions_safe [of "buflen - ?s" "drop ?s buf" 0 MAXOPT "pkt_opts pkt" 0] assms
        diff_le_mono [OF assms(1), of ?s]
      by auto
    have M: "unat (of_nat MAXOPT :: u8) = MAXOPT" by (simp add: MAXOPT_def)
    have I: "i \<le> MAXOPT \<Longrightarrow> unat (of_nat i :: u8) = i"
      by (simp add: unsigned_of_nat take_bit_eq_mod MAXOPT_def)
    show ?thesis
    proof (cases "rco = COAP_ERR_NONE")
      case False
      with h t o M len True assms show ?thesis
        by (auto simp: coap_parse_def coap_parseOptionsAndPayload_def Let_def)
    next
      case rco: True
      note ok = coap_parseToken_ok [OF _ assms(1), of "pkt_tok pkt" hdr tok]
      have pk: "left > 1 \<Longrightarrow> peek p 0 = Some (p ! 0)"
        using ook rco by (intro peek_in) linarith
      from rco h t o M True show ?thesis
        using ook ok hok len I assms
        by (cases "left > 1 \<and> p ! 0 = 0xFF")
          (auto simp: coap_parse_def coap_parseOptionsAndPayload_def Let_def pk
            pkt_ok_def pkt_live_opts_def)
    qed
  qed
qed

lemma buf_bytes_length: "buf_ok b \<Longrightarrow> length (buf_bytes b) = buf_len b"
  by (auto simp: buf_ok_def buf_bytes_def split: option.splits)

lemma memcpy_out_bytes: "buf_ok b \<Longrightarrow> memcpy_out (buf_p b) (buf_len b) = Some (buf_bytes b)"
  by (auto simp: buf_ok_def buf_bytes_def memcpy_out_def split: option.splits)

section \<open>Finding options\<close>

text \<open>The specification: the position of the first option with the number, and the length of the
  block of equal numbers that starts there.\<close>

fun find_spec :: "u8 list \<Rightarrow> u8 \<Rightarrow> (nat \<times> nat) option" where
  "find_spec [] num = None"
| "find_spec (n # ns) num =
     (if n = num then Some (0, Suc (length (takeWhile ((=) num) ns)))
      else map_option (\<lambda>(i, c). (Suc i, c)) (find_spec ns num))"

lemma findOptions_loop_block:
  assumes "take n (drop i opts) = os" "length os = n"
  shows "coap_findOptions_loop opts num n i (Some f) c =
    Some (Some f, c + of_nat (length (takeWhile ((=) num) (map opt_num os))))"
  using assms
proof (induction os arbitrary: n i c)
  case (Cons opt os)
  then obtain m where n: "n = Suc m" "length os = m" by (cases n) auto
  with Cons.prems have "i < length opts" "opts ! i = opt" "take m (drop (Suc i) opts) = os"
    by (auto dest: take_Suc_dropD)
  with Cons.IH [of m "Suc i"] n show ?case by (auto simp: peek_def)
qed simp

lemma findOptions_loop_spec:
  assumes "take n (drop i opts) = os" "length os = n"
  shows "coap_findOptions_loop opts num n i None 0 =
    Some (case find_spec (map opt_num os) num of None \<Rightarrow> (None, 0)
          | Some (j, c) \<Rightarrow> (Some (i + j), of_nat c))"
  using assms
proof (induction os arbitrary: n i)
  case (Cons opt os)
  then obtain m where n: "n = Suc m" "length os = m" by (cases n) auto
  with Cons.prems have i: "i < length opts" "opts ! i = opt" "take m (drop (Suc i) opts) = os"
    by (auto dest: take_Suc_dropD)
  show ?case
  proof (cases "opt_num opt = num")
    case True
    with i n findOptions_loop_block [of m "Suc i" opts os num i 1] show ?thesis
      by (simp add: peek_def)
  next
    case False
    with i n Cons.IH [of m "Suc i"] show ?thesis
      by (auto simp: peek_def split: option.splits)
  qed
qed simp

lemma find_spec_sorted:
  "sorted ns \<Longrightarrow> find_spec ns num = (if num \<in> set ns then
     Some (length (takeWhile (\<lambda>n. n < num) ns), count_list ns num) else None)"
proof (induction ns)
  case (Cons n ns)
  have "length (takeWhile ((=) num) ns) = count_list ns num" if "n = num"
    using Cons.prems that
  proof (induction ns)
    case (Cons m ms)
    then show ?case by (cases "m = num") (auto simp: count_list_0_iff)
  qed simp
  with Cons show ?case by (cases "n = num") auto
qed simp

section \<open>Request dispatch\<close>

definition uri_path :: "coap_packet \<Rightarrow> u8 list list" where
  "uri_path pkt = (case find_spec (map opt_num (pkt_live_opts pkt)) (coap_option_num_val COAP_OPTION_URI_PATH)
     of None \<Rightarrow> [] | Some (j, c) \<Rightarrow> map (\<lambda>opt. buf_bytes (opt_buf opt)) (take c (drop j (pkt_live_opts pkt))))"

definition path_ok :: "coap_endpoint \<Rightarrow> bool" where
  "path_ok ep \<longleftrightarrow> path_count (ep_path ep) = int (length (path_elems (ep_path ep)))"

definition req_matches :: "coap_packet \<Rightarrow> coap_endpoint \<Rightarrow> bool" where
  "req_matches pkt ep \<longleftrightarrow> ep_method ep = hdr_code (pkt_hdr pkt) \<and> uri_path pkt \<noteq> [] \<and>
     uri_path pkt = path_elems (ep_path ep)"

lemma find_spec_bound: "find_spec ns num = Some (j, c) \<Longrightarrow> 0 < c \<and> j + c \<le> length ns"
proof (induction ns arbitrary: j)
  case (Cons n ns)
  then show ?case
    by (auto split: if_splits intro: le_trans [OF length_takeWhile_le])
qed simp

lemma findOptions_spec:
  assumes "pkt_ok pkt"
  shows "coap_findOptions pkt num = Some (case find_spec (map opt_num (pkt_live_opts pkt)) num of
    None \<Rightarrow> (None, 0) | Some (j, c) \<Rightarrow> (Some j, of_nat c))"
  using findOptions_loop_spec [of "unat (pkt_numopts pkt)" 0 "pkt_opts pkt" "pkt_live_opts pkt" num] assms
  by (simp add: coap_findOptions_def pkt_ok_def pkt_live_opts_def split: option.split)

lemma match_path_spec:
  assumes "take n (drop (opt + i) opts) = os" "length os = n" "\<forall>x\<in>set os. buf_ok (opt_buf x)"
    and "take n (drop i elems) = es" "length es = n"
  shows "coap_match_path opts opt elems i n = Some (map (\<lambda>x. buf_bytes (opt_buf x)) os = es)"
  using assms
proof (induction os arbitrary: n i es)
  case (Cons o' os)
  then obtain m where n: "n = Suc m" "length os = m" by (cases n) auto
  obtain e es' where es: "es = e # es'" using Cons.prems n by (cases es) auto
  from Cons.prems n have o: "opt + i < length opts" "opts ! (opt + i) = o'"
    "take m (drop (opt + Suc i) opts) = os" by (auto dest: take_Suc_dropD)
  from Cons.prems n es have e: "i < length elems" "elems ! i = e" "take m (drop (Suc i) elems) = es'"
    by (auto dest: take_Suc_dropD)
  have ok: "buf_ok (opt_buf o')" using Cons.prems by simp
  have "coap_match_path opts opt elems (Suc i) m = Some (map (\<lambda>x. buf_bytes (opt_buf x)) os = es')"
    using Cons.prems n es o e by (intro Cons.IH) auto
  with o e n es show ?case
    using memcpy_out_bytes [OF ok] buf_bytes_length [OF ok] by (auto simp: peek_def)
qed simp

lemma endpoint_matches_spec:
  assumes ok: "pkt_ok pkt" and path: "path_ok ep"
  shows "coap_endpoint_matches pkt ep = Some (req_matches pkt ep)"
proof (cases "find_spec (map opt_num (pkt_live_opts pkt)) (coap_option_num_val COAP_OPTION_URI_PATH)")
  case None
  then show ?thesis
    using findOptions_spec [OF ok] by (simp add: coap_endpoint_matches_def req_matches_def uri_path_def)
next
  case (Some jc)
  then obtain j c where jc: "find_spec (map opt_num (pkt_live_opts pkt))
    (coap_option_num_val COAP_OPTION_URI_PATH) = Some (j, c)" by (cases jc) auto
  let ?os = "take c (drop j (pkt_live_opts pkt))" and ?es = "path_elems (ep_path ep)"
  have b: "0 < c" "j + c \<le> length (pkt_live_opts pkt)" using find_spec_bound [OF jc] by auto
  have len: "length (pkt_live_opts pkt) \<le> 16" using ok by (simp add: pkt_ok_def pkt_live_opts_def MAXOPT_def)
  have uc: "unat (of_nat c :: u8) = c" using b len by (simp only: unat_of_nat) simp
  have ui: "uint (of_nat c :: u8) = int c" using arg_cong [OF uc, of int] by simp
  have os: "take c (drop j (pkt_opts pkt)) = ?os"
    using b(2) by (auto simp: pkt_live_opts_def take_drop min_def split: if_splits)
  have bok: "\<forall>x\<in>set ?os. buf_ok (opt_buf x)"
    using ok by (auto simp: pkt_ok_def dest!: in_set_takeD in_set_dropD)
  have lo: "length ?os = c" using b(2) by simp
  show ?thesis
  proof (cases "length ?es = c")
    case True
    have "coap_match_path (pkt_opts pkt) j ?es 0 c = Some (map (\<lambda>x. buf_bytes (opt_buf x)) ?os = ?es)"
      using os bok lo True by (intro match_path_spec) auto
    with True jc uc ui path b findOptions_spec [OF ok] lo show ?thesis
      by (auto simp: coap_endpoint_matches_def req_matches_def uri_path_def path_ok_def)
  next
    case False
    moreover have "length (uri_path pkt) = c" using jc lo by (simp add: uri_path_def)
    ultimately show ?thesis
      using jc uc ui path findOptions_spec [OF ok]
      by (auto simp: coap_endpoint_matches_def req_matches_def path_ok_def)
  qed
qed

lemma handle_req_found:
  assumes "pkt_ok inpkt" "\<forall>ep\<in>set eps. path_ok ep \<and> ep_handler ep \<noteq> None"
    and "find (req_matches inpkt) eps = Some ep" "ep_handler ep = Some h"
  shows "coap_handle_req scratch inpkt outpkt (eps @ rest) =
    h scratch inpkt outpkt (hdr_id0 (pkt_hdr inpkt)) (hdr_id1 (pkt_hdr inpkt))"
  using assms by (induction eps) (auto simp: endpoint_matches_spec split: if_splits)

lemma handle_req_not_found:
  assumes "pkt_ok inpkt" "\<forall>ep\<in>set eps. path_ok ep \<and> ep_handler ep \<noteq> None"
    and "find (req_matches inpkt) eps = None"
  shows "coap_handle_req scratch inpkt outpkt (eps @ rest) = coap_handle_req scratch inpkt outpkt rest"
  using assms by (induction eps) (auto simp: endpoint_matches_spec split: if_splits)

section \<open>Properties\<close>

text \<open>C21.  Memory safety of the parser: on any datagram, of any length, \<open>coap_parse\<close> reads and
  writes only inside the datagram and the packet structure, and a packet it accepts has version 1, a
  token of at most 8 bytes, at most \<open>MAXOPT\<close> options, and token, option and payload buffers that
  lie inside the datagram.\<close>

theorem coap_parse_safe:
  assumes "buflen \<le> length buf" "length (pkt_opts pkt) = MAXOPT"
  shows "\<exists>rc pkt'. coap_parse pkt buf buflen = Some (rc, pkt') \<and>
     length (pkt_opts pkt') = MAXOPT \<and> (rc = COAP_ERR_NONE \<longrightarrow> pkt_ok pkt')"
  by (rule coap_parse_ok [OF assms])

definition empty_opts :: "coap_option list" where
  "empty_opts = replicate MAXOPT \<lparr>opt_num = 0, opt_buf = \<lparr>buf_p = None, buf_len = 0\<rparr>\<rparr>"

definition empty_packet :: coap_packet where
  "empty_packet = \<lparr>pkt_hdr = \<lparr>hdr_ver = 0, hdr_t = 0, hdr_tkl = 0, hdr_code = 0, hdr_id0 = 0, hdr_id1 = 0\<rparr>,
     pkt_tok = \<lparr>buf_p = None, buf_len = 0\<rparr>, pkt_numopts = 0, pkt_opts = empty_opts,
     pkt_payload = \<lparr>buf_p = None, buf_len = 0\<rparr>\<rparr>"

lemma empty_opts_length [simp]: "length (pkt_opts empty_packet) = MAXOPT"
  by (simp add: empty_packet_def empty_opts_def)

theorem coap_parse_safe_witness:
  "\<exists>rc pkt'. coap_parse empty_packet [0x40, 1, 0, 7, 0xDF] 5 = Some (rc, pkt') \<and>
     length (pkt_opts pkt') = MAXOPT \<and> (rc = COAP_ERR_NONE \<longrightarrow> pkt_ok pkt')"
  using coap_parse_safe [of 5 "[0x40, 1, 0, 7, 0xDF]" empty_packet] by simp

text \<open>C24.  Option lookup: on a packet whose options are sorted by number, as the format requires,
  \<open>coap_findOptions\<close> returns the position of the first option with the number and the count of
  all of them, and \<open>NULL\<close> with count 0 exactly when there is none.\<close>

theorem coap_findOptions_sorted:
  assumes "pkt_ok pkt" "sorted (map opt_num (pkt_live_opts pkt))"
  shows "coap_findOptions pkt num = Some (if num \<in> opt_num ` set (pkt_live_opts pkt)
    then (Some (length (takeWhile (\<lambda>n. n < num) (map opt_num (pkt_live_opts pkt)))),
          of_nat (count_list (map opt_num (pkt_live_opts pkt)) num))
    else (None, 0))"
  using findOptions_spec [OF assms(1), of num] find_spec_sorted [OF assms(2), of num] by simp

definition two_segments :: coap_packet where
  "two_segments = empty_packet\<lparr>pkt_hdr := (pkt_hdr empty_packet)\<lparr>hdr_ver := 1, hdr_code := 1\<rparr>,
     pkt_numopts := 2, pkt_opts := empty_opts[0 := \<lparr>opt_num = 11, opt_buf = \<lparr>buf_p = Some [97], buf_len = 1\<rparr>\<rparr>,
       1 := \<lparr>opt_num = 11, opt_buf = \<lparr>buf_p = Some [98], buf_len = 1\<rparr>\<rparr>]\<rparr>"

lemma two_segments_live: "pkt_live_opts two_segments =
  [\<lparr>opt_num = 11, opt_buf = \<lparr>buf_p = Some [97], buf_len = 1\<rparr>\<rparr>,
   \<lparr>opt_num = 11, opt_buf = \<lparr>buf_p = Some [98], buf_len = 1\<rparr>\<rparr>]"
  by code_simp

lemma two_segments_ok: "pkt_ok two_segments"
  using two_segments_live
  by (simp add: pkt_ok_def) (simp add: two_segments_def empty_packet_def empty_opts_def MAXOPT_def)

theorem coap_findOptions_sorted_witness: "coap_findOptions two_segments 11 = Some (Some 0, 2)"
  using coap_findOptions_sorted [OF two_segments_ok, of 11] by (simp add: two_segments_live)

text \<open>C23.  Request dispatch: on a well-formed request, with a table that ends in an entry without
  a handler, \<open>coap_handle_req\<close> calls the handler of the first endpoint whose method is the
  request code and whose path is the request's non-empty Uri-Path, with the two message id bytes of
  the request; when there is none it fills in the 4.04 response with the request's id and token and
  returns 0.\<close>

theorem coap_handle_req_dispatch:
  assumes "pkt_ok inpkt" "\<forall>ep\<in>set eps. path_ok ep \<and> ep_handler ep \<noteq> None" "ep_handler nul = None"
  shows "coap_handle_req scratch inpkt outpkt (eps @ nul # rest) =
    (case find (req_matches inpkt) eps of
       Some ep \<Rightarrow> the (ep_handler ep) scratch inpkt outpkt (hdr_id0 (pkt_hdr inpkt)) (hdr_id1 (pkt_hdr inpkt))
     | None \<Rightarrow> map_option (\<lambda>(rc, scratch, outpkt). (COAP_ERR_NONE, scratch, outpkt))
         (coap_make_response scratch outpkt None 0 (hdr_id0 (pkt_hdr inpkt)) (hdr_id1 (pkt_hdr inpkt))
            (Some (pkt_tok inpkt)) COAP_RSPCODE_NOT_FOUND COAP_CONTENTTYPE_NONE))"
proof (cases "find (req_matches inpkt) eps")
  case None
  then show ?thesis
    using handle_req_not_found [OF assms(1,2) None] assms(3)
    by (auto simp: map_option_case split: option.split bind_split)
next
  case (Some ep)
  then have "ep \<in> set eps" by (auto simp: find_Some_iff in_set_conv_nth)
  then obtain h where "ep_handler ep = Some h" using assms(2) by auto
  then show ?thesis using handle_req_found [OF assms(1,2) Some] Some by simp
qed

definition echo_handler :: coap_endpoint_func where
  "echo_handler scratch inpkt outpkt hi lo = Some (COAP_ERR_NONE, scratch, inpkt)"

definition ab_endpoint :: coap_endpoint where
  "ab_endpoint = \<lparr>ep_method = 1, ep_handler = Some echo_handler,
     ep_path = \<lparr>path_count = 2, path_elems = [[97], [98]]\<rparr>, ep_core_attr = ''ct=0''\<rparr>"

definition end_of_table :: coap_endpoint where
  "end_of_table = \<lparr>ep_method = 0, ep_handler = None,
     ep_path = \<lparr>path_count = 0, path_elems = []\<rparr>, ep_core_attr = []\<rparr>"

theorem coap_handle_req_dispatch_witness:
  "coap_handle_req \<lparr>rw_p = [0, 0], rw_len = 2\<rparr> two_segments empty_packet [ab_endpoint, end_of_table] =
     Some (COAP_ERR_NONE, \<lparr>rw_p = [0, 0], rw_len = 2\<rparr>, two_segments)"
proof -
  have m: "req_matches two_segments ab_endpoint"
    by (simp add: req_matches_def uri_path_def two_segments_live buf_bytes_def ab_endpoint_def)
      (simp add: two_segments_def)
  show ?thesis
    using coap_handle_req_dispatch [OF two_segments_ok, of "[ab_endpoint]" end_of_table
        "\<lparr>rw_p = [0, 0], rw_len = 2\<rparr>" empty_packet "[]"] m
    by (simp add: ab_endpoint_def path_ok_def echo_handler_def end_of_table_def)
qed

text \<open>Option numbers are kept modulo 256: an option with number 267 is taken for a Uri-Path
  (number 11), so that a request with this unknown option is dispatched as a request for its value.\<close>

theorem coap_option_number_aliased:
  "map_option (\<lambda>(rc, pkt). (rc, map opt_num (pkt_live_opts pkt), uri_path pkt))
     (coap_parse empty_packet [0x40, 1, 0, 7, 0xD1, 254, 97] 7)
   = Some (COAP_ERR_NONE, [coap_option_num_val COAP_OPTION_URI_PATH], [[97]])"
  by code_simp

end
