(* ===== verification/Coap_Wire.thy ===== *)
theory Coap_Wire
  imports Coap
begin

unbundle bit_operations_syntax

text \<open>
  The CoAP codec against the wire format of RFC 7252: \<open>coap_build\<close> writes exactly the reference
  encoding \<open>msg_bytes\<close> of the message a packet stands for, \<open>coap_parse\<close> reads it back, and
  the places where the code departs from the format.
\<close>

section \<open>The wire format\<close>

record coap_msg =
  m_t :: u8
  m_code :: u8
  m_id0 :: u8
  m_id1 :: u8
  m_tok :: "u8 list"
  m_opts :: "(u8 \<times> u8 list) list"
  m_payload :: "u8 list"

definition nib :: "nat \<Rightarrow> nat" where
  "nib n = (if n < 13 then n else 13)"

definition ext :: "nat \<Rightarrow> u8 list" where
  "ext n = (if n < 13 then [] else [of_nat (n - 13)])"

definition option_bytes :: "nat \<Rightarrow> u8 list \<Rightarrow> u8 list" where
  "option_bytes d v = of_nat (16 * nib d + nib (length v)) # ext d @ ext (length v) @ v"

fun options_bytes :: "u8 \<Rightarrow> (u8 \<times> u8 list) list \<Rightarrow> u8 list" where
  "options_bytes prev [] = []"
| "options_bytes prev ((n, v) # os) = option_bytes (unat n - unat prev) v @ options_bytes n os"

definition msg_bytes :: "coap_msg \<Rightarrow> u8 list" where
  "msg_bytes m = [of_nat (64 + 16 * unat (m_t m) + length (m_tok m)), m_code m, m_id0 m, m_id1 m]
     @ m_tok m @ options_bytes 0 (m_opts m) @ (if m_payload m = [] then [] else 0xFF # m_payload m)"

definition wf_msg :: "coap_msg \<Rightarrow> bool" where
  "wf_msg m \<longleftrightarrow> unat (m_t m) < 4 \<and> length (m_tok m) \<le> 8 \<and> length (m_opts m) \<le> MAXOPT \<and>
     sorted (map fst (m_opts m)) \<and> (\<forall>(n, v)\<in>set (m_opts m). length v < 269)"

definition opt_pair :: "coap_option \<Rightarrow> u8 \<times> u8 list" where
  "opt_pair opt = (opt_num opt, buf_bytes (opt_buf opt))"

definition pkt_msg :: "coap_packet \<Rightarrow> coap_msg" where
  "pkt_msg pkt = \<lparr>m_t = hdr_t (pkt_hdr pkt), m_code = hdr_code (pkt_hdr pkt),
     m_id0 = hdr_id0 (pkt_hdr pkt), m_id1 = hdr_id1 (pkt_hdr pkt), m_tok = buf_bytes (pkt_tok pkt),
     m_opts = map opt_pair (pkt_live_opts pkt), m_payload = buf_bytes (pkt_payload pkt)\<rparr>"

lemma nib_le [simp]: "nib n \<le> 13" "nib n < 16" "nib n < 15"
  by (simp_all add: nib_def)

lemma nib_eq_13: "nib n = 13 \<longleftrightarrow> n \<ge> 13" by (auto simp: nib_def)



section \<open>The builder writes the wire format\<close>

lemma u8_pack: "d < 16 \<Longrightarrow> l < 16 \<Longrightarrow> push_bit 4 (of_nat d :: u8) OR of_nat l = of_nat (16 * d + l)"
proof -
  assume d: "d < 16" and l: "l < 16"
  have "\<forall>d\<in>set [0..<16]. \<forall>l\<in>set [0..<16]. push_bit 4 (of_nat d :: u8) OR of_nat l = of_nat (16 * d + l)"
    by code_simp
  with d l show ?thesis by simp
qed

lemma nibble_small: "n < 269 \<Longrightarrow> coap_option_nibble (of_nat n) x = Some (of_nat (nib n))"
proof -
  assume n: "n < 269"
  have m: "(0xFF :: u8) = - 1" by code_simp
  have "unat (of_nat n :: u32) = n" using n by (simp add: unsigned_of_nat take_bit_eq_mod)
  then show ?thesis using n
    by (auto simp: coap_option_nibble_def nib_def word_less_nat_alt word_le_nat_alt ucast_of_nat_u32 m)
qed

lemma optDelta_eq:
  assumes "prev \<le> num"
  shows "(ucast (num :: u8) - ucast (ucast (prev :: u8) :: u16) :: u32) = of_nat (unat num - unat prev)"
proof -
  have "ucast (ucast prev :: u16) = (ucast prev :: u32)"
    using arg_cong [OF u8_ucast_unat [of prev], where f = "of_nat :: nat \<Rightarrow> u32"] by simp
  then show ?thesis using assms by (simp add: of_nat_diff word_le_nat_alt)
qed

lemma build_option_writes:
  assumes "p \<le> buflen" "buflen \<le> length buf" "prev \<le> opt_num opt"
    and ok: "buf_ok (opt_buf opt)" and len: "buf_len (opt_buf opt) < 269"
  shows "coap_build_option buflen opt buf p (ucast prev) =
    Option.bind (memcpy_in buf p (option_bytes (unat (opt_num opt) - unat prev) (buf_bytes (opt_buf opt))))
      (\<lambda>b. Some (COAP_ERR_NONE, b,
         p + length (option_bytes (unat (opt_num opt) - unat prev) (buf_bytes (opt_buf opt))),
         ucast (opt_num opt)))"
proof -
  define d where "d = unat (opt_num opt) - unat prev"
  define l where "l = buf_len (opt_buf opt)"
  have d: "d < 256" unfolding d_def using unat_lt_256 [of "opt_num opt"] by linarith
  have l: "l < 269" "length (buf_bytes (opt_buf opt)) = l"
    using len ok by (simp_all add: l_def buf_bytes_length)
  have nd: "coap_option_nibble (of_nat d) (Some 0) = Some (of_nat (nib d))"
    using d by (intro nibble_small) simp
  have nl: "coap_option_nibble (of_nat l) None = Some (of_nat (nib l))"
    using l by (intro nibble_small) simp
  have nib13: "(of_nat (nib n) :: u8) = 13 \<longleftrightarrow> 13 \<le> n" "(of_nat (nib n) :: u8) \<noteq> 14" for n
    by (auto simp: nib_def word_unat_eq_iff unsigned_of_nat take_bit_eq_mod)
  have e: "ucast (of_nat d - 13 :: u32) = (of_nat (d - 13) :: u8)" if "13 \<le> d"
  proof -
    have "(of_nat d - 13 :: u32) = of_nat (d - 13)" using that by (simp add: of_nat_diff)
    then show ?thesis using d by (simp add: ucast_of_nat_u32)
  qed
  note opt = optDelta_eq [OF assms(3), folded d_def] memcpy_out_bytes [OF ok, folded l_def]
  show ?thesis
    unfolding coap_build_option_def d_def [symmetric] l_def [symmetric] opt Let_def
    using assms(1) l(2)
    by (auto simp: nd nl opt nib13 u8_pack option_bytes_def ext_def e poke_memcpy memcpy_in_Cons memcpy_in_Cons2)
qed

lemma build_options_writes:
  assumes "p + length (options_bytes prev (map opt_pair os)) \<le> buflen" "buflen \<le> length buf"
    and "take n (drop i opts) = os" "length os = n"
    and "sorted (prev # map opt_num os)"
    and "\<forall>opt\<in>set os. buf_ok (opt_buf opt) \<and> buf_len (opt_buf opt) < 269"
  shows "coap_build_options opts n i buflen buf p (ucast prev) =
    Option.bind (memcpy_in buf p (options_bytes prev (map opt_pair os)))
      (\<lambda>b. Some (COAP_ERR_NONE, b, p + length (options_bytes prev (map opt_pair os))))"
  using assms
proof (induction os arbitrary: n i buf p prev)
  case Nil
  then show ?case by (simp add: memcpy_in_Nil)
next
  case (Cons opt os)
  then obtain m where n: "n = Suc m" "length os = m" by (cases n) auto
  from Cons.prems n have i: "i < length opts" "opts ! i = opt" "take m (drop (Suc i) opts) = os"
    by (auto dest: take_Suc_dropD)
  let ?ob = "option_bytes (unat (opt_num opt) - unat prev) (buf_bytes (opt_buf opt))"
  let ?rest = "options_bytes (opt_num opt) (map opt_pair os)"
  have eq: "options_bytes prev (map opt_pair (opt # os)) = ?ob @ ?rest"
    by (simp add: opt_pair_def)
  have fits: "p + length ?ob + length ?rest \<le> buflen" using Cons.prems(1) eq by simp
  then obtain b where b: "memcpy_in buf p ?ob = Some b" "length b = length buf"
    using memcpy_in_ok [of p ?ob buf] Cons.prems(2) by auto
  have bo: "coap_build_option buflen opt buf p (ucast prev) =
      Some (COAP_ERR_NONE, b, p + length ?ob, ucast (opt_num opt))"
    using build_option_writes [of p buflen buf prev opt] Cons.prems fits b(1) by auto
  have "coap_build_options opts m (Suc i) buflen b (p + length ?ob) (ucast (opt_num opt)) =
    Option.bind (memcpy_in b (p + length ?ob) ?rest)
      (\<lambda>b. Some (COAP_ERR_NONE, b, p + length ?ob + length ?rest))"
    using Cons.prems fits n i b(2) by (intro Cons.IH) auto
  moreover have "memcpy_in b (p + length ?ob) ?rest = memcpy_in buf p (?ob @ ?rest)"
    using memcpy_in_append [of buf p ?ob ?rest] b(1) by simp
  ultimately show ?case
    unfolding eq using n i bo by (simp add: mem_simps add.assoc)
qed

definition buildable :: "coap_packet \<Rightarrow> bool" where
  "buildable pkt \<longleftrightarrow> pkt_ok pkt \<and> sorted (map opt_num (pkt_live_opts pkt)) \<and>
     (\<forall>opt\<in>set (pkt_live_opts pkt). buf_len (opt_buf opt) < 269)"

lemma u8_head: "t < 4 \<Longrightarrow> l \<le> 8 \<Longrightarrow>
  push_bit 6 ((1 :: u8) AND 0x03) OR push_bit 4 (of_nat t AND 0x03) OR (of_nat l AND 0x0F) = of_nat (64 + 16 * t + l)"
proof -
  assume "t < 4" "l \<le> 8"
  moreover have "\<forall>t\<in>set [0..<4]. \<forall>l\<in>set [0..<9]. push_bit 6 ((1 :: u8) AND 0x03) OR
      push_bit 4 (of_nat t AND 0x03) OR (of_nat l AND 0x0F) = of_nat (64 + 16 * t + l)"
    by code_simp
  ultimately show ?thesis by simp
qed

definition head_bytes :: "coap_packet \<Rightarrow> u8 list" where
  "head_bytes pkt = [of_nat (64 + 16 * unat (hdr_t (pkt_hdr pkt)) + unat (hdr_tkl (pkt_hdr pkt))),
     hdr_code (pkt_hdr pkt), hdr_id0 (pkt_hdr pkt), hdr_id1 (pkt_hdr pkt)] @ buf_bytes (pkt_tok pkt)"

definition payload_bytes :: "coap_packet \<Rightarrow> u8 list" where
  "payload_bytes pkt = (if buf_len (pkt_payload pkt) = 0 then [] else 0xFF # buf_bytes (pkt_payload pkt))"

lemma pkt_ok_token:
  assumes "pkt_ok pkt"
  shows "buf_len (pkt_tok pkt) = unat (hdr_tkl (pkt_hdr pkt))" "buf_ok (pkt_tok pkt)"
    "length (buf_bytes (pkt_tok pkt)) = unat (hdr_tkl (pkt_hdr pkt))"
    "length (head_bytes pkt) = 4 + unat (hdr_tkl (pkt_hdr pkt))"
  using assms by (simp_all add: pkt_ok_def buf_bytes_length head_bytes_def)

lemma msg_bytes_split:
  assumes "pkt_ok pkt"
  shows "msg_bytes (pkt_msg pkt) =
    head_bytes pkt @ options_bytes 0 (map opt_pair (pkt_live_opts pkt)) @ payload_bytes pkt"
proof -
  have "buf_bytes (pkt_payload pkt) = [] \<longleftrightarrow> buf_len (pkt_payload pkt) = 0"
    using assms by (simp add: pkt_ok_def flip: length_0_conv buf_bytes_length)
  with pkt_ok_token [OF assms] show ?thesis
    by (simp add: msg_bytes_def pkt_msg_def head_bytes_def payload_bytes_def)
qed

text \<open>The header and the token are written in one piece, then the rest is built behind them.\<close>

lemma coap_build_head:
  assumes ok: "pkt_ok pkt" and fits: "4 + unat (hdr_tkl (pkt_hdr pkt)) \<le> buflen" "buflen \<le> length buf"
  obtains b where "memcpy_in buf 0 (head_bytes pkt) = Some b" "length b = length buf"
    "coap_build buf buflen pkt = coap_build_rest buflen pkt b"
proof -
  let ?hdr = "pkt_hdr pkt"
  let ?tkl = "unat (hdr_tkl ?hdr)" and ?F = "coap_build_rest buflen pkt"
  let ?h4 = "[of_nat (64 + 16 * unat (hdr_t ?hdr) + ?tkl), hdr_code ?hdr, hdr_id0 ?hdr, hdr_id1 ?hdr]"
  note tok = pkt_ok_token [OF ok]
  obtain b where b: "memcpy_in buf 0 (head_bytes pkt) = Some b" "length b = length buf"
    using memcpy_in_ok [of 0 "head_bytes pkt" buf] fits tok(4) by auto
  have hd: "push_bit 6 (hdr_ver ?hdr AND 0x03) OR push_bit 4 (hdr_t ?hdr AND 0x03) OR (hdr_tkl ?hdr AND 0x0F)
      = of_nat (64 + 16 * unat (hdr_t ?hdr) + ?tkl)"
    using u8_head [of "unat (hdr_t ?hdr)" ?tkl] ok by (simp add: pkt_ok_def)
  have "do { buf \<leftarrow> poke buf 0 (of_nat (64 + 16 * unat (hdr_t ?hdr) + ?tkl)); buf \<leftarrow> poke buf 1 (hdr_code ?hdr);
       buf \<leftarrow> poke buf 2 (hdr_id0 ?hdr); buf \<leftarrow> poke buf 3 (hdr_id1 ?hdr);
       tok \<leftarrow> memcpy_out (buf_p (pkt_tok pkt)) ?tkl; buf \<leftarrow> memcpy_in buf 4 tok; ?F buf }
     = Option.bind (memcpy_in buf 0 (?h4 @ buf_bytes (pkt_tok pkt))) ?F"
    using memcpy_out_bytes [OF tok(2)] tok(1) memcpy_in_bind [of buf 0 ?h4 "buf_bytes (pkt_tok pkt)" ?F]
    by (simp add: poke_memcpy eval_nat_numeral memcpy_in_Cons)
  with b(1) fits tok(1) have "coap_build buf buflen pkt = ?F b"
    unfolding coap_build_def Let_def hd by (simp add: head_bytes_def)
  with b that show thesis by blast
qed

lemma coap_build_payload:
  assumes "buf_ok (pkt_payload pkt)" "p + length (payload_bytes pkt) \<le> buflen" "buflen \<le> length b"
    and opts: "coap_build_options (pkt_opts pkt) (unat (pkt_numopts pkt)) 0 buflen buf
      (4 + unat (hdr_tkl (pkt_hdr pkt))) 0 = Some (COAP_ERR_NONE, b, p)" and p: "4 \<le> p"
  shows "coap_build_rest buflen pkt buf = Option.bind (memcpy_in b p (payload_bytes pkt))
    (\<lambda>b. Some (COAP_ERR_NONE, b, p + length (payload_bytes pkt)))"
proof (cases "buf_len (pkt_payload pkt) = 0")
  case True
  with assms show ?thesis
    by (simp add: coap_build_rest_def payload_bytes_def memcpy_in_Nil)
next
  case False
  from p obtain q where q: "p = 4 + q" using le_Suc_ex by blast
  have q5: "5 + q = Suc (4 + q)" by simp
  from False assms q have "coap_build_rest buflen pkt buf = do {
      b \<leftarrow> memcpy_in b (4 + q) [0xFF];
      b \<leftarrow> memcpy_in b (5 + q) (buf_bytes (pkt_payload pkt));
      Some (COAP_ERR_NONE, b, q + 5 + buf_len (pkt_payload pkt)) }"
    using memcpy_out_bytes [OF assms(1)] buf_bytes_length [OF assms(1)]
    by (simp add: coap_build_rest_def payload_bytes_def poke_memcpy Let_def)
  also have "\<dots> = Option.bind (memcpy_in b p (payload_bytes pkt))
      (\<lambda>b. Some (COAP_ERR_NONE, b, q + 5 + buf_len (pkt_payload pkt)))"
    unfolding q5 memcpy_in_Cons using False by (simp add: q payload_bytes_def)
  also have "q + 5 + buf_len (pkt_payload pkt) = p + length (payload_bytes pkt)"
    using False q buf_bytes_length [OF assms(1)] by (simp add: payload_bytes_def)
  finally show ?thesis .
qed

lemma coap_build_writes:
  assumes ok: "buildable pkt" and fits: "length (msg_bytes (pkt_msg pkt)) \<le> buflen" "buflen \<le> length buf"
  shows "coap_build buf buflen pkt =
    Option.bind (memcpy_in buf 0 (msg_bytes (pkt_msg pkt)))
      (\<lambda>b. Some (COAP_ERR_NONE, b, length (msg_bytes (pkt_msg pkt))))"
proof -
  let ?p = "4 + unat (hdr_tkl (pkt_hdr pkt))" and ?os = "pkt_live_opts pkt"
  let ?ob = "options_bytes 0 (map opt_pair ?os)"
  have pok: "pkt_ok pkt" using ok by (simp add: buildable_def)
  note tok = pkt_ok_token [OF pok] and mb = msg_bytes_split [OF pok]
  have len: "?p + length ?ob + length (payload_bytes pkt) \<le> buflen"
    using fits(1) tok(4) mb by simp
  obtain b where b: "memcpy_in buf 0 (head_bytes pkt) = Some b" "length b = length buf"
    and bld: "coap_build buf buflen pkt = coap_build_rest buflen pkt b"
    using coap_build_head [OF pok _ fits(2)] len by auto
  obtain b' where b': "memcpy_in b ?p ?ob = Some b'" "length b' = length buf"
    using memcpy_in_ok [of ?p ?ob b] len fits(2) b by auto
  have numo: "unat (pkt_numopts pkt) \<le> length (pkt_opts pkt)" using pok by (simp add: pkt_ok_def)
  have "coap_build_options (pkt_opts pkt) (unat (pkt_numopts pkt)) 0 buflen b ?p (ucast (0 :: u8)) =
     Option.bind (memcpy_in b ?p ?ob) (\<lambda>b. Some (COAP_ERR_NONE, b, ?p + length ?ob))"
    using ok len fits(2) b numo
    by (intro build_options_writes) (auto simp: buildable_def pkt_ok_def pkt_live_opts_def)
  with b' have o: "coap_build_options (pkt_opts pkt) (unat (pkt_numopts pkt)) 0 buflen b ?p 0 =
      Some (COAP_ERR_NONE, b', ?p + length ?ob)" by simp
  have "coap_build_rest buflen pkt b = Option.bind (memcpy_in b' (?p + length ?ob) (payload_bytes pkt))
      (\<lambda>b. Some (COAP_ERR_NONE, b, ?p + length ?ob + length (payload_bytes pkt)))"
    using pok len fits(2) b' by (intro coap_build_payload [OF _ _ _ o]) (auto simp: pkt_ok_def)
  moreover have "memcpy_in b' (?p + length ?ob) (payload_bytes pkt) =
      memcpy_in buf 0 (msg_bytes (pkt_msg pkt))"
  proof -
    have "memcpy_in buf 0 (head_bytes pkt @ ?ob) = Some b'"
      using memcpy_in_append [of buf 0 "head_bytes pkt" ?ob] b(1) b'(1) tok(4) by simp
    then show ?thesis
      using memcpy_in_append [of buf 0 "head_bytes pkt @ ?ob" "payload_bytes pkt"] tok(4)
      by (simp add: mb)
  qed
  ultimately show ?thesis using bld tok(4) by (simp add: mb add.assoc)
qed

section \<open>The parser reads the wire format\<close>

lemma unat_head: "d < 15 \<Longrightarrow> l < 15 \<Longrightarrow> unat (of_nat (16 * d + l) :: u8) = 16 * d + l"
  by (simp only: unat_of_nat) simp

lemma parseExt_ext:
  assumes "n < 269" "headlen = p + 1" "drop (p + 1) buf = ext n @ rest" "length buf = buflen" "p < buflen"
  shows "coap_parseExt (of_nat (nib n)) headlen p buf buflen e =
    Some (Inr (of_nat n, headlen + length (ext n), p + length (ext n)))"
proof (cases "n < 13")
  case True
  then have "(of_nat n :: u16) \<noteq> 13" "(of_nat n :: u16) \<noteq> 14" "(of_nat n :: u16) \<noteq> 15"
    by (auto simp: word_unat_eq_iff unat_of_nat)
  with True show ?thesis by (simp add: coap_parseExt_def nib_def ext_def)
next
  case False
  then have b: "p + 1 < length buf" "buf ! (p + 1) = of_nat (n - 13)"
    using assms(3) by (auto simp: ext_def nth_via_drop) (metis drop_all list.distinct(1) not_le)
  have "ucast (of_nat (n - 13) :: u8) + 13 = (of_nat n :: u16)"
    using assms(1) False by (subst ucast_of_nat_u8) (auto simp: of_nat_diff)
  with False b assms show ?thesis
    by (simp add: coap_parseExt_def nib_def ext_def peek_def)
qed

lemma ext_length [simp]: "length (ext n) \<le> 1" by (simp add: ext_def)

lemma parseOption_bytes:
  assumes "d < 256" "length v < 269"
  shows "coap_parseOption opt rd (option_bytes d v @ rest) (length (option_bytes d v) + length rest) =
    Some (COAP_ERR_NONE,
      \<lparr>opt_num = ucast (of_nat d + rd), opt_buf = \<lparr>buf_p = Some (v @ rest), buf_len = length v\<rparr>\<rparr>,
      rd + of_nat d, rest)"
proof -
  let ?buf = "option_bytes d v @ rest" and ?n = "length (option_bytes d v) + length rest"
  let ?l = "length v"
  let ?b0 = "of_nat (16 * nib d + nib ?l) :: u8"
  have n: "?n = length ?buf" "?n = 1 + length (ext d) + length (ext ?l) + ?l + length rest"
    by (simp_all add: option_bytes_def)
  have b0: "peek ?buf 0 = Some ?b0" by (simp add: peek_def option_bytes_def)
  have ub: "unat ?b0 = 16 * nib d + nib ?l" by (intro unat_head) auto
  have hi: "ucast (drop_bit 4 (?b0 AND 0xF0)) = (of_nat (nib d) :: u16)"
    by (simp only: word_unat_eq_iff u8_ucast_unat u8_hi_nibble ub) (simp add: unat_of_nat less_trans [OF nib_le(2)])
  have lo: "ucast (?b0 AND 0x0F) = (of_nat (nib ?l) :: u16)"
    by (simp only: word_unat_eq_iff u8_ucast_unat u8_lo_nibble ub) (simp add: unat_of_nat less_trans [OF nib_le(2)])
  have x1: "coap_parseExt (of_nat (nib d)) 1 0 ?buf ?n COAP_ERR_OPTION_DELTA_INVALID =
      Some (Inr (of_nat d, 1 + length (ext d), length (ext d)))"
    using parseExt_ext [of d 1 0 ?buf "ext ?l @ v @ rest" ?n] assms n by (simp add: option_bytes_def)
  have x2: "coap_parseExt (of_nat (nib ?l)) (1 + length (ext d)) (length (ext d)) ?buf ?n COAP_ERR_OPTION_LEN_INVALID =
      Some (Inr (of_nat ?l, 1 + length (ext d) + length (ext ?l), length (ext d) + length (ext ?l)))"
    using parseExt_ext [of ?l "1 + length (ext d)" "length (ext d)" ?buf "v @ rest" ?n] assms n
    by (simp add: option_bytes_def)
  have ul: "unat (of_nat ?l :: u16) = ?l" using assms(2) by (simp add: unat_of_nat)
  show ?thesis
    unfolding coap_parseOption_def b0 Option.bind.simps hi x1 lo x2 sum.case prod.case
    using n by (simp add: ul option_bytes_def add_ac)
qed

lemma option_bytes_ne_marker: "option_bytes d v = b # bs \<Longrightarrow> b \<noteq> 0xFF"
proof -
  have "unat (of_nat (16 * nib d + nib (length v)) :: u8) = 16 * nib d + nib (length v)"
    by (intro unat_head) auto
  moreover have "16 * nib d + nib (length v) < 255"
    using nib_le(1) [of d] nib_le(1) [of "length v"] by linarith
  ultimately show "option_bytes d v = b # bs \<Longrightarrow> b \<noteq> 0xFF"
    by (auto simp: option_bytes_def)
qed

definition at_payload :: "u8 list \<Rightarrow> bool" where
  "at_payload tail = (tail = [] \<or> hd tail = 0xFF)"

lemma parseOptions_bytes:
  assumes "i + length os \<le> n" "n \<le> length options" "at_payload tail"
    and "sorted (prev # map fst os)" "\<forall>(m, v)\<in>set os. length v < 269"
  shows "\<exists>options'. coap_parseOptions options i n (ucast prev) (options_bytes prev os @ tail)
      (length (options_bytes prev os) + length tail) =
      Some (COAP_ERR_NONE, options', i + length os, tail, length tail) \<and>
    length options' = length options \<and>
    map opt_pair (take (i + length os) options') = map opt_pair (take i options) @ os"
  using assms
proof (induction os arbitrary: options i prev)
  case Nil
  then show ?case
    by (subst coap_parseOptions.simps) (auto simp: at_payload_def peek_def hd_conv_nth)
next
  case (Cons o' os)
  obtain m v where o': "o' = (m, v)" by (cases o')
  let ?d = "unat m - unat prev"
  let ?rest = "options_bytes m os @ tail"
  have d: "?d < 256" using unat_lt_256 [of m] by linarith
  have v: "length v < 269" using Cons.prems o' by simp
  have rd: "of_nat ?d + ucast prev = (ucast m :: u16)"
    using Cons.prems(4) o' by (simp add: of_nat_diff word_le_nat_alt)
  obtain b bs where ob: "option_bytes ?d v = b # bs" by (simp add: option_bytes_def)
  note po = parseOption_bytes [OF d v, of "options ! i" "ucast prev" ?rest]
  let ?opt = "\<lparr>opt_num = m, opt_buf = \<lparr>buf_p = Some (v @ ?rest), buf_len = length v\<rparr>\<rparr>"
  have step: "coap_parseOptions options i n (ucast prev) (options_bytes prev (o' # os) @ tail)
      (length (options_bytes prev (o' # os)) + length tail) =
    coap_parseOptions (options[i := ?opt]) (Suc i) n (ucast m) ?rest
      (length (options_bytes m os) + length tail)"
    using Cons.prems po rd ob option_bytes_ne_marker [OF ob] o'
    by (subst coap_parseOptions.simps) (simp add: peek_def add_ac ucast_u8_u16_u8)
  have "\<exists>options'. coap_parseOptions (options[i := ?opt]) (Suc i) n (ucast m) ?rest
      (length (options_bytes m os) + length tail) =
      Some (COAP_ERR_NONE, options', Suc i + length os, tail, length tail) \<and>
    length options' = length (options[i := ?opt]) \<and>
    map opt_pair (take (Suc i + length os) options') = map opt_pair (take (Suc i) (options[i := ?opt])) @ os"
    using Cons.prems o' by (intro Cons.IH) auto
  moreover have "map opt_pair (take (Suc i) (options[i := ?opt])) = map opt_pair (take i options) @ [o']"
    using Cons.prems take_poke_next [of i options ?opt] o' by (simp add: opt_pair_def buf_bytes_def)
  ultimately show ?case using step by auto
qed

lemma u8_head_fields:
  assumes "t < 4" "l \<le> 8"
  shows "drop_bit 6 ((of_nat (64 + 16 * t + l) :: u8) AND 0xC0) = 1"
    and "drop_bit 4 ((of_nat (64 + 16 * t + l) :: u8) AND 0x30) = of_nat t"
    and "(of_nat (64 + 16 * t + l) :: u8) AND 0x0F = of_nat l"
proof -
  have "\<forall>t\<in>set [0..<4]. \<forall>l\<in>set [0..<9].
      drop_bit 6 ((of_nat (64 + 16 * t + l) :: u8) AND 0xC0) = 1 \<and>
      drop_bit 4 ((of_nat (64 + 16 * t + l) :: u8) AND 0x30) = of_nat t \<and>
      (of_nat (64 + 16 * t + l) :: u8) AND 0x0F = of_nat l"
    by code_simp
  moreover have "t \<in> set [0..<4]" "l \<in> set [0..<9]" using assms by auto
  ultimately show "drop_bit 6 ((of_nat (64 + 16 * t + l) :: u8) AND 0xC0) = 1"
    and "drop_bit 4 ((of_nat (64 + 16 * t + l) :: u8) AND 0x30) = of_nat t"
    and "(of_nat (64 + 16 * t + l) :: u8) AND 0x0F = of_nat l"
    by blast+
qed

lemma coap_parse_bytes:
  assumes wf: "wf_msg m" and opts: "length (pkt_opts pkt) = MAXOPT"
  shows "\<exists>pkt'. coap_parse pkt (msg_bytes m) (length (msg_bytes m)) = Some (COAP_ERR_NONE, pkt') \<and>
    pkt_msg pkt' = m"
proof -
  let ?l = "length (m_tok m)" and ?os = "options_bytes 0 (m_opts m)"
  let ?b0 = "of_nat (64 + 16 * unat (m_t m) + ?l) :: u8"
  define tail where "tail = (if m_payload m = [] then [] else 0xFF # m_payload m)"
  have mb: "msg_bytes m = [?b0, m_code m, m_id0 m, m_id1 m] @ m_tok m @ ?os @ tail"
    by (simp add: msg_bytes_def tail_def)
  note b0 = u8_head_fields [of "unat (m_t m)" ?l]
  have l: "?l \<le> 8" "unat (m_t m) < 4" using wf by (simp_all add: wf_msg_def)
  have ul: "unat (of_nat ?l :: u8) = ?l" using l by (simp only: unat_of_nat) simp
  let ?hdr = "\<lparr>hdr_ver = 1, hdr_t = m_t m, hdr_tkl = of_nat ?l, hdr_code = m_code m,
     hdr_id0 = m_id0 m, hdr_id1 = m_id1 m\<rparr>"
  have h: "coap_parseHeader (pkt_hdr pkt) (msg_bytes m) (length (msg_bytes m)) = Some (COAP_ERR_NONE, ?hdr)"
    using b0 l unfolding coap_parseHeader_def mb by (simp add: peek_def Let_def)
  have tkl: "(of_nat ?l :: u8) = 0 \<longleftrightarrow> m_tok m = []" "(of_nat ?l :: u8) \<le> 8"
    using ul l by (auto simp: word_unat_eq_iff word_le_nat_alt simp del: of_nat_eq_0_iff)
  define tok where "tok = (if m_tok m = [] then \<lparr>buf_p = None, buf_len = 0\<rparr>
      else \<lparr>buf_p = Some (drop 4 (msg_bytes m)), buf_len = ?l\<rparr>)"
  have t: "coap_parseToken (pkt_tok pkt) ?hdr (msg_bytes m) (length (msg_bytes m)) = (COAP_ERR_NONE, tok)"
    using ul tkl by (simp add: coap_parseToken_def mb tok_def)
  have tb: "buf_bytes tok = m_tok m" by (simp add: tok_def buf_bytes_def mb)
  have srt: "sorted (0 # map fst (m_opts m))" using wf by (simp add: wf_msg_def)
  have M: "unat (of_nat MAXOPT :: u8) = MAXOPT" by (simp add: MAXOPT_def)
  have pay: "at_payload tail" by (simp add: at_payload_def tail_def)
  obtain opts where o: "coap_parseOptions (pkt_opts pkt) 0 MAXOPT 0 (?os @ tail) (length ?os + length tail) =
        Some (COAP_ERR_NONE, opts, length (m_opts m), tail, length tail)"
    and os: "map opt_pair (take (length (m_opts m)) opts) = m_opts m"
    using parseOptions_bytes [of 0 "m_opts m" MAXOPT "pkt_opts pkt" tail 0] wf srt opts
      pay by (auto simp: wf_msg_def)
  have start: "drop (4 + ?l) (msg_bytes m) = ?os @ tail"
    "length (msg_bytes m) - (4 + ?l) = length ?os + length tail" "4 + ?l \<le> length (msg_bytes m)"
    by (simp_all add: mb eval_nat_numeral)
  have uo: "unat (of_nat (length (m_opts m)) :: u8) = length (m_opts m)"
    using wf by (simp only: unat_of_nat) (simp add: wf_msg_def MAXOPT_def)
  show ?thesis
  proof (cases "m_payload m = []")
    case True
    then have "tail = []" by (simp add: tail_def)
    with h t o start ul M uo os tb True show ?thesis
      by (simp add: coap_parse_def coap_parseOptionsAndPayload_def Let_def pkt_msg_def
          pkt_live_opts_def buf_bytes_def [of "\<lparr>buf_p = None, buf_len = 0\<rparr>"])
  next
    case False
    then have "length tail > 1" "peek tail 0 = Some 0xFF" "drop 1 tail = m_payload m"
      by (auto simp: tail_def peek_def Suc_lessI)
    with h t o start ul M uo os tb show ?thesis
      by (simp add: coap_parse_def coap_parseOptionsAndPayload_def Let_def pkt_msg_def
          pkt_live_opts_def buf_bytes_def [of "\<lparr>buf_p = Some bs, buf_len = n\<rparr>" for bs n] tail_def)
  qed
qed

section \<open>Responses\<close>

definition scratch_ok :: "coap_rw_buffer \<Rightarrow> bool" where
  "scratch_ok s \<longleftrightarrow> 2 \<le> rw_len s \<and> rw_len s \<le> length (rw_p s)"

definition content_format :: "coap_content_type \<Rightarrow> u8 list" where
  "content_format ct = [ucast (drop_bit 8 (coap_content_type_val ct AND 0xFF00)),
     ucast (coap_content_type_val ct AND 0x00FF)]"

definition response_msg ::
  "coap_responsecode \<Rightarrow> coap_content_type \<Rightarrow> u8 \<Rightarrow> u8 \<Rightarrow> u8 list \<Rightarrow> u8 list \<Rightarrow> coap_msg" where
  "response_msg rsp ct hi lo tok content =
     \<lparr>m_t = coap_msgtype_val COAP_TYPE_ACK, m_code = coap_responsecode_val rsp, m_id0 = hi, m_id1 = lo,
      m_tok = tok, m_opts = [(coap_option_num_val COAP_OPTION_CONTENT_FORMAT, content_format ct)],
      m_payload = content\<rparr>"

lemma make_response_ok:
  assumes s: "scratch_ok scratch" and o: "length (pkt_opts pkt) = MAXOPT"
    and tok: "buf_ok tok" "buf_len tok \<le> 8" and c: "buf_ok \<lparr>buf_p = content, buf_len = n\<rparr>"
  shows "\<exists>scratch' pkt'. coap_make_response scratch pkt content n hi lo (Some tok) rsp ct
      = Some (COAP_ERR_NONE, scratch', pkt') \<and> scratch_ok scratch' \<and> buildable pkt' \<and>
    pkt_msg pkt' = response_msg rsp ct hi lo (buf_bytes tok) (buf_bytes \<lparr>buf_p = content, buf_len = n\<rparr>)"
proof -
  have p: "pkt_opts pkt \<noteq> []" using o by (auto simp: MAXOPT_def)
  obtain x y sp where sp: "rw_p scratch = x # y # sp"
    using s by (cases "rw_p scratch"; cases "tl (rw_p scratch)") (auto simp: scratch_ok_def)
  have l: "unat (of_nat (buf_len tok) :: u8) = buf_len tok"
    using tok(2) by (simp only: unat_of_nat) simp
  have "take 1 ((pkt_opts pkt)[0 := v]) = [v]" for v
    using p by (cases "pkt_opts pkt") auto
  then show ?thesis
    using assms p l
    by (simp add: coap_make_response_def Let_def peek_def poke_def sp scratch_ok_def response_msg_def
        content_format_def pkt_msg_def pkt_live_opts_def opt_pair_def buildable_def pkt_ok_def
        buf_bytes_def [of "\<lparr>buf_p = Some bs, buf_len = k\<rparr>" for bs k] MAXOPT_def)
qed

lemma build_first_option_overflow:
  assumes ok: "buildable pkt" and l: "4 + unat (hdr_tkl (pkt_hdr pkt)) \<le> length buf"
    and o: "pkt_live_opts pkt = opt # os"
    and big: "length buf < 4 + unat (hdr_tkl (pkt_hdr pkt)) + length (option_bytes (unat (opt_num opt)) (buf_bytes (opt_buf opt)))"
  shows "coap_build buf (length buf) pkt = None"
proof -
  let ?p = "4 + unat (hdr_tkl (pkt_hdr pkt))"
  have pok: "pkt_ok pkt" using ok by (simp add: buildable_def)
  obtain b where b: "length b = length buf" "coap_build buf (length buf) pkt = coap_build_rest (length buf) pkt b"
    using coap_build_head [OF pok l order_refl] by blast
  obtain n where n: "unat (pkt_numopts pkt) = Suc n" "0 < length (pkt_opts pkt)" "pkt_opts pkt ! 0 = opt"
    using o by (cases "unat (pkt_numopts pkt)"; cases "pkt_opts pkt") (auto simp: pkt_live_opts_def)
  have "buf_ok (opt_buf opt)" "buf_len (opt_buf opt) < 269"
    using ok o by (auto simp: buildable_def pkt_ok_def)
  then have "coap_build_option (length b) opt b ?p 0 = None"
    using build_option_writes [of ?p "length b" b 0 opt] l big b by (simp add: memcpy_in_def)
  then have "coap_build_options (pkt_opts pkt) (Suc n) 0 (length buf) b ?p 0 = None"
    using b n by (simp add: peek_def)
  then show ?thesis using b n by (simp add: coap_build_rest_def)
qed

lemma long_option_rejected:
  assumes L: "269 \<le> length v" "length v < 65000" and d: "d < 13"
    and b: "b0 = (of_nat (16 * d + 14) :: u8)"
  shows "coap_parseOption opt rd (b0 # of_nat (length v div 256) # of_nat (length v - 269) # v) (3 + length v)
    = Some (COAP_ERR_OPTION_TOO_BIG, opt, rd, b0 # of_nat (length v div 256) # of_nat (length v - 269) # v)"
proof -
  let ?L = "length v"
  let ?h = "of_nat (?L div 256) :: u8" and ?l = "of_nat (?L - 269) :: u8"
  let ?x = "(push_bit 8 (ucast ?h) OR ucast ?l) + 269 :: u16"
  have ub: "unat b0 = 16 * d + 14" using b d by (simp only: unat_of_nat) simp
  have hi: "ucast (drop_bit 4 (b0 AND 0xF0)) = (of_nat d :: u16)"
    using d by (simp only: word_unat_eq_iff u8_ucast_unat u8_hi_nibble ub) (simp add: unat_of_nat)
  have lo: "ucast (b0 AND 0x0F) = (14 :: u16)"
    by (simp only: word_unat_eq_iff u8_ucast_unat u8_lo_nibble ub) simp
  have d': "(of_nat d :: u16) \<noteq> 13" "(of_nat d :: u16) \<noteq> 14" "(of_nat d :: u16) \<noteq> 15"
    using d by (auto simp: word_unat_eq_iff unat_of_nat)
  have h: "unat ?h = ?L div 256" using L by (simp only: unat_of_nat) simp
  have l: "unat ?l = (?L - 269) mod 256" by (simp only: unat_of_nat) simp
  have "256 * (?L div 256) + (?L - 269) mod 256 + 269 < 65536" using L by linarith
  then have "unat ?x = 256 * (?L div 256) + (?L - 269) mod 256 + 269"
    using u16_be [of ?h ?l] h l by (simp add: unat_word_ariths)
  moreover have "256 * (?L div 256) + (?L - 269) mod 256 + 269 > ?L" using L by linarith
  ultimately have big: "?L < unat ?x" by linarith
  show ?thesis
    unfolding coap_parseOption_def peek_def
    using hi lo d' big by (simp add: coap_parseExt_def peek_def)
qed

section \<open>The codec contract\<close>

lemma opts_pkt_wf: "buildable pkt \<Longrightarrow> wf_msg (pkt_msg pkt)"
  by (auto simp: buildable_def pkt_ok_def wf_msg_def pkt_msg_def pkt_live_opts_def opt_pair_def
      buf_bytes_length comp_def)

interpretation coap: message_codec coap_build coap_parse COAP_ERR_NONE pkt_msg msg_bytes buildable
  "\<lambda>q. length (pkt_opts q) = MAXOPT"
proof unfold_locales
  fix p n and buf :: "u8 list"
  assume "buildable p" "length (msg_bytes (pkt_msg p)) \<le> n" "n \<le> length buf"
  then show "\<exists>buf'. coap_build buf n p = Some (COAP_ERR_NONE, buf', length (msg_bytes (pkt_msg p))) \<and>
      length buf' = length buf \<and>
      take (length (msg_bytes (pkt_msg p))) buf' = msg_bytes (pkt_msg p) \<and>
      drop (length (msg_bytes (pkt_msg p))) buf' = drop (length (msg_bytes (pkt_msg p))) buf"
    using coap_build_writes [of p n buf] memcpy_in_ok [of 0 "msg_bytes (pkt_msg p)" buf] by auto
next
  fix p q :: coap_packet
  assume "buildable p" "length (pkt_opts q) = MAXOPT"
  then show "\<exists>q'. coap_parse q (msg_bytes (pkt_msg p)) (length (msg_bytes (pkt_msg p))) =
      Some (COAP_ERR_NONE, q') \<and> pkt_msg q' = pkt_msg p"
    by (intro coap_parse_bytes opts_pkt_wf)
qed

section \<open>Properties\<close>

text \<open>A concrete request, used by the witnesses: GET with message id 18 52, token 7 and the path
  \<open>temp\<close>.\<close>

definition null_buf :: coap_buffer where
  "null_buf = \<lparr>buf_p = None, buf_len = 0\<rparr>"

definition blank_packet :: coap_packet where
  "blank_packet = \<lparr>pkt_hdr = \<lparr>hdr_ver = 0, hdr_t = 0, hdr_tkl = 0, hdr_code = 0, hdr_id0 = 0, hdr_id1 = 0\<rparr>,
     pkt_tok = null_buf, pkt_numopts = 0,
     pkt_opts = replicate MAXOPT \<lparr>opt_num = 0, opt_buf = null_buf\<rparr>, pkt_payload = null_buf\<rparr>"

definition sample_packet :: coap_packet where
  "sample_packet = blank_packet\<lparr>
     pkt_hdr := \<lparr>hdr_ver = 1, hdr_t = 0, hdr_tkl = 1, hdr_code = 1, hdr_id0 = 18, hdr_id1 = 52\<rparr>,
     pkt_tok := \<lparr>buf_p = Some [7], buf_len = 1\<rparr>, pkt_numopts := 1,
     pkt_opts := (pkt_opts blank_packet)[0 := \<lparr>opt_num = 11,
       opt_buf = \<lparr>buf_p = Some [116, 101, 109, 112], buf_len = 4\<rparr>\<rparr>],
     pkt_payload := \<lparr>buf_p = Some [33, 34], buf_len = 2\<rparr>\<rparr>"

lemma sample_live: "pkt_live_opts sample_packet =
  [\<lparr>opt_num = 11, opt_buf = \<lparr>buf_p = Some [116, 101, 109, 112], buf_len = 4\<rparr>\<rparr>]"
  by (simp add: sample_packet_def blank_packet_def pkt_live_opts_def MAXOPT_def numeral_eq_Suc)

lemma sample_buildable: "buildable sample_packet"
  using sample_live
  by (simp add: buildable_def pkt_ok_def) (simp add: sample_packet_def blank_packet_def MAXOPT_def)

lemma sample_bytes: "msg_bytes (pkt_msg sample_packet) =
  [65, 1, 18, 52, 7, 180, 116, 101, 109, 112, 255, 33, 34]"
  by (simp add: pkt_msg_def sample_live opt_pair_def buf_bytes_def msg_bytes_def option_bytes_def
      nib_def ext_def) (simp add: sample_packet_def blank_packet_def)

text \<open>C20.  Round trip: a well-formed packet with sorted option numbers and option values of fewer than 269
  bytes each, which \<open>coap_build\<close> serialises into a large enough buffer, is read
  back by \<open>coap_parse\<close> from the bytes produced, with the same header fields, token, options (in
  order, with their numbers and values) and payload.\<close>

theorem coap_round_trip:
  assumes "buildable pkt" "length (pkt_opts target) = MAXOPT"
    and "length (msg_bytes (pkt_msg pkt)) \<le> buflen" "buflen \<le> length buf"
  shows "\<exists>buf' k pkt'. coap_build buf buflen pkt = Some (COAP_ERR_NONE, buf', k) \<and> k \<le> buflen \<and>
    coap_parse target (take k buf') k = Some (COAP_ERR_NONE, pkt') \<and> pkt_msg pkt' = pkt_msg pkt"
  by (rule coap.round_trip [OF assms])

theorem coap_round_trip_witness:
  "buildable sample_packet \<and> (\<exists>buf' k pkt'.
     coap_build (replicate 64 0) 64 sample_packet = Some (COAP_ERR_NONE, buf', k) \<and> k \<le> 64 \<and>
     coap_parse blank_packet (take k buf') k = Some (COAP_ERR_NONE, pkt') \<and>
     pkt_msg pkt' = pkt_msg sample_packet)"
  using coap_round_trip [of sample_packet blank_packet 64 "replicate 64 0"] sample_buildable
  by (simp add: sample_bytes blank_packet_def)

text \<open>C22.  Refinement: for a well-formed packet with sorted option numbers and option values of fewer than
  269 bytes each \<open>coap_build\<close> writes exactly the wire format of the packet's message to
  the front of the buffer, returns its length in \<open>*buflen\<close> and leaves the bytes behind it alone.\<close>

theorem coap_build_refines:
  assumes "buildable pkt" "length (msg_bytes (pkt_msg pkt)) \<le> buflen" "buflen \<le> length buf"
  shows "\<exists>buf'. coap_build buf buflen pkt = Some (COAP_ERR_NONE, buf', length (msg_bytes (pkt_msg pkt))) \<and>
    length buf' = length buf \<and>
    take (length (msg_bytes (pkt_msg pkt))) buf' = msg_bytes (pkt_msg pkt) \<and>
    drop (length (msg_bytes (pkt_msg pkt))) buf' = drop (length (msg_bytes (pkt_msg pkt))) buf"
  by (rule coap.build_wire [OF assms])

theorem coap_build_refines_witness:
  "\<exists>buf'. coap_build (replicate 16 9) 13 sample_packet = Some (COAP_ERR_NONE, buf', 13) \<and>
     take 13 buf' = [65, 1, 18, 52, 7, 180, 116, 101, 109, 112, 255, 33, 34] \<and> drop 13 buf' = [9, 9, 9]"
  using coap_build_refines [of sample_packet 13 "replicate 16 9"] sample_buildable
  by (auto simp: sample_bytes numeral_eq_Suc)

text \<open>The builder overruns its buffer: when the header and the token fit but the first option
  does not, \<open>coap_build\<close> writes past the end of the buffer instead of returning
  \<open>COAP_ERR_BUFFER_TOO_SMALL\<close>, because it checks the room only before an option is written.\<close>

theorem coap_build_overruns:
  assumes "buildable pkt" "4 + unat (hdr_tkl (pkt_hdr pkt)) \<le> length buf"
    and "pkt_live_opts pkt = opt # os"
    and "length buf < 4 + unat (hdr_tkl (pkt_hdr pkt)) +
      length (option_bytes (unat (opt_num opt)) (buf_bytes (opt_buf opt)))"
  shows "coap_build buf (length buf) pkt = None"
  by (rule build_first_option_overflow [OF assms])

theorem coap_build_overruns_witness: "coap_build (replicate 6 0) 6 sample_packet = None"
  using coap_build_overruns [OF sample_buildable _ sample_live, of "replicate 6 0"]
  by (simp add: option_bytes_def nib_def ext_def buf_bytes_def) (simp add: sample_packet_def)

text \<open>Long options: the length field that \<open>coap_build\<close> writes for an option value of 269
  bytes or more has \<open>len >> 8\<close> where the format has \<open>(len - 269) >> 8\<close>, so that the parser
  reads a length beyond the packet and rejects every such option as too big.\<close>

theorem coap_long_option_rejected:
  assumes "269 \<le> length v" "length v < 65000" "unat num < 13"
    and "buf_p (opt_buf opt) = Some v" "buf_len (opt_buf opt) = length v" "opt_num opt = num"
    and "3 + length v \<le> buflen" "buflen \<le> length buf"
  shows "\<exists>buf' p rd. coap_build_option buflen opt buf 0 0 = Some (COAP_ERR_NONE, buf', p, rd) \<and>
    p = 3 + length v \<and>
    (\<exists>rest. coap_parseOption opt0 0 (take p buf') p = Some (COAP_ERR_OPTION_TOO_BIG, opt0, 0, rest))"
proof -
  let ?L = "length v" and ?d = "unat num"
  let ?bytes = "of_nat (16 * ?d + 14) # of_nat (?L div 256) # of_nat (?L - 269) # v :: u8 list"
  have nl: "coap_option_nibble (of_nat ?L) None = Some 14"
    using assms(1,2) by (simp add: coap_option_nibble_def word_less_nat_alt word_le_nat_alt unat_of_nat)
  have nd: "coap_option_nibble (of_nat ?d) (Some 0) = Some (of_nat ?d)"
    using nibble_small [of ?d "Some 0"] assms(3) by (simp add: nib_def)
  have d13: "(of_nat ?d :: u8) \<noteq> 13" "(of_nat ?d :: u8) \<noteq> 14"
    using assms(3) by (auto simp: word_unat_eq_iff)
  have pack: "push_bit 4 (of_nat ?d :: u8) OR 14 = of_nat (16 * ?d + 14)"
    using u8_pack [of ?d 14] assms(3) by simp
  have od: "(ucast num - ucast (0 :: u16) :: u32) = of_nat ?d" by simp
  obtain b where b: "memcpy_in buf 0 ?bytes = Some b" "take (3 + ?L) b = ?bytes"
    using memcpy_in_ok [of 0 ?bytes buf] assms(7,8) by (auto simp: numeral_3_eq_3)
  have "coap_build_option buflen opt buf 0 0 = Option.bind (memcpy_in buf 0 ?bytes)
      (\<lambda>b. Some (COAP_ERR_NONE, b, 3 + ?L, ucast num))"
    unfolding coap_build_option_def Let_def assms(4-6) od nd nl Option.bind.simps pack
    using d13 assms(1) memcpy_in_bind [of buf 0 "[of_nat (16 * ?d + 14), of_nat (?L div 256), of_nat (?L - 269)]"
        v "\<lambda>b. Some (COAP_ERR_NONE, b, 3 + ?L, ucast num)"]
    by (simp add: memcpy_out_take poke_memcpy memcpy_in_Cons memcpy_in_Cons2 numeral_2_eq_2 numeral_3_eq_3)
  moreover have "coap_parseOption opt0 0 ?bytes (3 + ?L) = Some (COAP_ERR_OPTION_TOO_BIG, opt0, 0, ?bytes)"
    using assms by (intro long_option_rejected) auto
  ultimately show ?thesis using b by auto
qed

theorem coap_long_option_rejected_witness:
  "\<exists>buf' p rd. coap_build_option 300
      \<lparr>opt_num = 11, opt_buf = \<lparr>buf_p = Some (replicate 269 0), buf_len = 269\<rparr>\<rparr> (replicate 300 0) 0 0
      = Some (COAP_ERR_NONE, buf', p, rd) \<and> p = 272 \<and>
    (\<exists>rest. coap_parseOption \<lparr>opt_num = 0, opt_buf = null_buf\<rparr> 0 (take p buf') p =
       Some (COAP_ERR_OPTION_TOO_BIG, \<lparr>opt_num = 0, opt_buf = null_buf\<rparr>, 0, rest))"
  using coap_long_option_rejected [of "replicate 269 0" 11
      "\<lparr>opt_num = 11, opt_buf = \<lparr>buf_p = Some (replicate 269 0), buf_len = 269\<rparr>\<rparr>" 300 "replicate 300 0"]
  by simp

end
