(* ===== verification/Coap_Apps.thy ===== *)
theory Coap_Apps
  imports Coap_Wire
begin

unbundle bit_operations_syntax

text \<open>
  The applications on top of the CoAP library: the server of \<open>coapsrv.c\<close>, the sensor client of
  \<open>coapcli.c\<close> and the two clients of \<open>app600\<close> that feed a script interpreter.

  Calls into the kernel (UDP, block device, file system, script interpreter) are recorded as events
  in order; their results are arguments.  A structure on the stack that the code does not initialise
  is an argument, too (\<open>junk\<close>).  Console output is left out.
\<close>

section \<open>The server\<close>

definition COAPSRV_PORT :: nat where "COAPSRV_PORT = 5699"

record coapsrv =
  packetbuf :: "u8 list"
  scratch_buf :: coap_rw_buffer

definition hello :: "u8 list" where
  "hello = bytes_of ''Hello from PusOS Coap Server!''"

definition path_hello :: coap_endpoint_path where
  "path_hello = \<lparr>path_count = 1, path_elems = [bytes_of ''hello'']\<rparr>"

definition handle_get_hello :: coap_endpoint_func where
  "handle_get_hello scratch inpkt outpkt id_hi id_lo =
     coap_make_response scratch outpkt (Some (hello @ replicate (64 - length hello) 0)) (length hello)
       id_hi id_lo (Some (pkt_tok inpkt)) COAP_RSPCODE_CONTENT COAP_CONTENTTYPE_TEXT_PLAIN"

text \<open>The table of the source has this one entry and no terminating entry.\<close>

definition endpoints :: "coap_endpoint list" where
  "endpoints = [\<lparr>ep_method = coap_method_val COAP_METHOD_GET, ep_handler = Some handle_get_hello,
     ep_path = path_hello, ep_core_attr = ''ct=0''\<rparr>]"

text \<open>The result is the datagram sent, if any, and the new state.  The return codes of
  \<open>coap_parse\<close> and \<open>coap_handle_req\<close> are overwritten before they are read.\<close>

definition coap_svc_callback ::
  "bool \<Rightarrow> coap_packet \<Rightarrow> coap_packet \<Rightarrow> u8 list \<Rightarrow> u8 \<Rightarrow> coapsrv \<Rightarrow> (u8 list option \<times> coapsrv) option" where
  "coap_svc_callback open_ok junk rspjunk buffer packetlen s = do {
     (rc, cpacket) \<leftarrow> coap_parse junk buffer (unat packetlen);
     if \<not> open_ok then Some (None, s)
     else do {
       let rsplen = length (packetbuf s);
       (rc, scratch, rsppkt) \<leftarrow> coap_handle_req (scratch_buf s) cpacket rspjunk endpoints;
       let s = s\<lparr>scratch_buf := scratch\<rparr>;
       (rc, pbuf, rsplen) \<leftarrow> coap_build (packetbuf s) rsplen rsppkt;
       let s = s\<lparr>packetbuf := pbuf\<rparr>;
       if rc \<noteq> COAP_ERR_NONE then Some (None, s)
       else Some (Some (take rsplen pbuf), s)
     }
   }"

definition coapsrv_ok :: "coapsrv \<Rightarrow> bool" where
  "coapsrv_ok s \<longleftrightarrow> length (packetbuf s) = 64 \<and> rw_len (scratch_buf s) = 64 \<and> length (rw_p (scratch_buf s)) = 64"

lemma scratch_after_response:
  "coap_make_response scratch pkt content n hi lo tok rsp ct = Some (rc, scratch', pkt') \<Longrightarrow>
   rw_len scratch' = rw_len scratch \<and> length (rw_p scratch') = length (rw_p scratch)"
  by (auto simp: coap_make_response_def Let_def bind_Some_iff poke_def split: if_splits)

lemma hello_matches:
  "req_matches pkt (hd endpoints) \<longleftrightarrow>
   hdr_code (pkt_hdr pkt) = coap_method_val COAP_METHOD_GET \<and> uri_path pkt = [bytes_of ''hello'']"
  by (auto simp: req_matches_def endpoints_def path_hello_def)

lemma endpoints_single: "endpoints = [hd endpoints]" "path_ok (hd endpoints)"
  "ep_handler (hd endpoints) = Some handle_get_hello"
  by (simp_all add: endpoints_def path_ok_def path_hello_def)

lemma hello_length: "length hello = 29"
  by (simp add: hello_def bytes_of_def)

lemma content_format_length: "length (content_format ct) = 2"
  by (simp add: content_format_def)

lemma hello_response_length:
  "length tok \<le> 8 \<Longrightarrow> length (msg_bytes (response_msg COAP_RSPCODE_CONTENT ct hi lo tok hello)) \<le> 64"
  by (simp add: msg_bytes_def response_msg_def option_bytes_def nib_def ext_def hello_length
      content_format_length split: if_splits)

text \<open>C19.  The server's answer: a datagram that parses as a GET of the path \<open>hello\<close> is answered
  with exactly the encoding of the 2.05 response with the request's message id and token, text format
  and the greeting as payload; the server's buffers keep their sizes, so it can answer again.\<close>

theorem coapsrv_answers_hello:
  assumes s: "coapsrv_ok s" and junk: "length (pkt_opts junk) = MAXOPT" "length (pkt_opts rspjunk) = MAXOPT"
    and data: "unat packetlen \<le> length buffer"
    and parse: "coap_parse junk buffer (unat packetlen) = Some (COAP_ERR_NONE, req)"
    and get: "hdr_code (pkt_hdr req) = coap_method_val COAP_METHOD_GET" "uri_path req = [bytes_of ''hello'']"
  shows "\<exists>s'. coap_svc_callback True junk rspjunk buffer packetlen s =
      Some (Some (msg_bytes (response_msg COAP_RSPCODE_CONTENT COAP_CONTENTTYPE_TEXT_PLAIN
        (hdr_id0 (pkt_hdr req)) (hdr_id1 (pkt_hdr req)) (buf_bytes (pkt_tok req)) hello)), s') \<and> coapsrv_ok s'"
proof -
  have req: "pkt_ok req" using coap_parse_ok [OF data junk(1)] parse by auto
  have tok: "buf_ok (pkt_tok req)" "buf_len (pkt_tok req) \<le> 8"
    using pkt_ok_token [OF req] req by (auto simp: pkt_ok_def)
  define content where "content = Some (hello @ replicate (64 - length hello) (0 :: u8))"
  have c: "buf_ok \<lparr>buf_p = content, buf_len = length hello\<rparr>" "buf_bytes \<lparr>buf_p = content, buf_len = length hello\<rparr> = hello"
    by (simp_all add: content_def buf_bytes_def)
  have "scratch_ok (scratch_buf s)" using s by (simp add: coapsrv_ok_def scratch_ok_def)
  from make_response_ok [OF this junk(2) tok c(1)] obtain scratch' rsp where
    mk: "coap_make_response (scratch_buf s) rspjunk content (length hello) (hdr_id0 (pkt_hdr req)) (hdr_id1 (pkt_hdr req))
        (Some (pkt_tok req)) COAP_RSPCODE_CONTENT COAP_CONTENTTYPE_TEXT_PLAIN = Some (COAP_ERR_NONE, scratch', rsp)"
    and rsp: "buildable rsp" and msg: "pkt_msg rsp = response_msg COAP_RSPCODE_CONTENT COAP_CONTENTTYPE_TEXT_PLAIN
        (hdr_id0 (pkt_hdr req)) (hdr_id1 (pkt_hdr req)) (buf_bytes (pkt_tok req)) hello"
    using c(2) by (metis (no_types))
  have "req_matches req (hd endpoints)" using get by (simp add: hello_matches)
  then have handle: "coap_handle_req (scratch_buf s) req rspjunk endpoints = Some (COAP_ERR_NONE, scratch', rsp)"
    using handle_req_found [OF req, of "[hd endpoints]" "hd endpoints" handle_get_hello "scratch_buf s" rspjunk "[]"]
      mk endpoints_single(2,3)
    by (subst endpoints_single(1)) (simp add: handle_get_hello_def content_def)
  have len: "length (msg_bytes (pkt_msg rsp)) \<le> 64"
    unfolding msg using hello_response_length buf_bytes_length [OF tok(1)] tok(2) by simp
  obtain b where "coap_build (packetbuf s) 64 rsp = Some (COAP_ERR_NONE, b, length (msg_bytes (pkt_msg rsp)))"
    "length b = 64" "take (length (msg_bytes (pkt_msg rsp))) b = msg_bytes (pkt_msg rsp)"
    using coap.build_wire [OF rsp len, of "packetbuf s"] s by (auto simp: coapsrv_ok_def)
  then show ?thesis
    using parse handle scratch_after_response [OF mk] s msg
    by (simp add: coap_svc_callback_def coapsrv_ok_def)
qed

definition idle_server :: coapsrv where
  "idle_server = \<lparr>packetbuf = replicate 64 0, scratch_buf = \<lparr>rw_p = replicate 64 0, rw_len = 64\<rparr>\<rparr>"

definition hello_request :: "u8 list" where
  "hello_request = [0x41, 1, 18, 52, 7, 0xB5] @ bytes_of ''hello''"

lemma hello_request_parses:
  "map_option (\<lambda>(rc, p). (rc, hdr_code (pkt_hdr p), hdr_id0 (pkt_hdr p), hdr_id1 (pkt_hdr p), buf_bytes (pkt_tok p), uri_path p))
     (coap_parse blank_packet hello_request 11) =
   Some (COAP_ERR_NONE, 1, 18, 52, [7], [bytes_of ''hello''])"
  by code_simp

theorem coapsrv_answers_hello_witness:
  "\<exists>s'. coap_svc_callback True blank_packet blank_packet hello_request 11 idle_server =
     Some (Some (msg_bytes (response_msg COAP_RSPCODE_CONTENT COAP_CONTENTTYPE_TEXT_PLAIN 18 52 [7] hello)), s')"
proof -
  obtain req where "coap_parse blank_packet hello_request 11 = Some (COAP_ERR_NONE, req)"
    "hdr_code (pkt_hdr req) = 1" "hdr_id0 (pkt_hdr req) = 18" "hdr_id1 (pkt_hdr req) = 52"
    "buf_bytes (pkt_tok req) = [7]" "uri_path req = [bytes_of ''hello'']"
    using hello_request_parses by auto
  then show ?thesis
    using coapsrv_answers_hello [of idle_server blank_packet blank_packet 11 hello_request req]
    by (auto simp: coapsrv_ok_def idle_server_def blank_packet_def hello_request_def bytes_of_def)
qed

text \<open>C38.  The server's table has no end: for every well-formed request that is not a GET of
  \<open>hello\<close>, \<open>coap_handle_req\<close> reads past the end of \<open>endpoints\<close>.  With a terminating
  entry it would have answered 4.04.\<close>

theorem coapsrv_runs_off_table:
  assumes "length (pkt_opts junk) = MAXOPT" "unat packetlen \<le> length buffer"
    and parse: "coap_parse junk buffer (unat packetlen) = Some (COAP_ERR_NONE, req)"
    and other: "hdr_code (pkt_hdr req) \<noteq> coap_method_val COAP_METHOD_GET \<or> uri_path req \<noteq> [bytes_of ''hello'']"
  shows "coap_svc_callback True junk rspjunk buffer packetlen s = None"
proof -
  have req: "pkt_ok req" using coap_parse_ok [OF assms(2,1)] parse by auto
  have "\<not> req_matches req (hd endpoints)" using other by (auto simp: hello_matches)
  then have "coap_handle_req (scratch_buf s) req rspjunk endpoints = None"
    using handle_req_not_found [OF req, of "[hd endpoints]" "scratch_buf s" rspjunk "[]"] endpoints_single(2,3)
    by (subst endpoints_single(1)) simp
  then show ?thesis using parse by (simp add: coap_svc_callback_def)
qed

theorem coapsrv_runs_off_table_witness:
  "coap_svc_callback True blank_packet blank_packet [0x40, 1, 0, 0, 0xB1, 120] 6 idle_server = None"
proof -
  have "map_option (\<lambda>(rc, p). (rc, uri_path p)) (coap_parse blank_packet [0x40, 1, 0, 0, 0xB1, 120] 6) =
    Some (COAP_ERR_NONE, [[120]])" by code_simp
  then obtain req where "coap_parse blank_packet [0x40, 1, 0, 0, 0xB1, 120] 6 = Some (COAP_ERR_NONE, req)"
    "uri_path req = [[120]]" by auto
  then show ?thesis
    using coapsrv_runs_off_table [of blank_packet 6 "[0x40, 1, 0, 0, 0xB1, 120]" req]
    by (simp add: blank_packet_def bytes_of_def)
qed

section \<open>The sensor client\<close>

datatype app_event = Bio_Open | Lfs_Mount | Lfs_Format | Udp_Listen nat | Udp_Open nat nat
  | Udp_Send "u8 list" | Thread_Sleep nat | Mu_Eval "u8 list"

record sensor_data =
  message_id :: u16
  sd_type :: u8
  sd_value :: u32
  c_time :: u64

text \<open>A 32 bit value from four bytes in memory order, on a little-endian machine.\<close>

definition le32 :: "u8 \<Rightarrow> u8 \<Rightarrow> u8 \<Rightarrow> u8 \<Rightarrow> u32" where
  "le32 b0 b1 b2 b3 = ucast b0 OR push_bit 8 (ucast b1) OR push_bit 16 (ucast b2) OR push_bit 24 (ucast b3)"

text \<open>The part the clients share: the first four bytes of a payload that is not empty.\<close>

definition payload_word :: "coap_packet \<Rightarrow> u32 option" where
  "payload_word pkt = (case buf_p (pkt_payload pkt) of None \<Rightarrow> None
     | Some bs \<Rightarrow> do {
         b0 \<leftarrow> peek bs 0; b1 \<leftarrow> peek bs 1; b2 \<leftarrow> peek bs 2; b3 \<leftarrow> peek bs 3;
         Some (le32 b0 b1 b2 b3)
       })"

definition msgid16 :: "coap_packet \<Rightarrow> u16" where
  "msgid16 pkt = ucast (hdr_id1 (pkt_hdr pkt)) + push_bit 8 (ucast (hdr_id0 (pkt_hdr pkt)))"

text \<open>\<open>buffer\<close> is the memory of the datagram; the record is printed.\<close>

definition coap_response_cb ::
  "u64 \<Rightarrow> coap_packet \<Rightarrow> u8 list \<Rightarrow> u8 \<Rightarrow> sensor_data option option" where
  "coap_response_cb now junk buffer packetlen = do {
     (rc, cpacket) \<leftarrow> coap_parse junk buffer (unat packetlen);
     if rc = COAP_ERR_NONE \<and> buf_len (pkt_payload cpacket) > 0 then do {
       v \<leftarrow> payload_word cpacket;
       Some (Some \<lparr>message_id = msgid16 cpacket, sd_type = 0x0a, sd_value = v, c_time = now\<rparr>)
     }
     else Some None
   }"

text \<open>The request packet that the clients prepare in an uninitialised structure.\<close>

definition request_packet :: "u8 list \<Rightarrow> coap_packet \<Rightarrow> coap_packet" where
  "request_packet path junk = junk\<lparr>
     pkt_hdr := (pkt_hdr junk)\<lparr>hdr_ver := 0x01, hdr_t := coap_msgtype_val COAP_TYPE_CON, hdr_tkl := 1,
       hdr_code := coap_method_val COAP_METHOD_GET\<rparr>,
     pkt_tok := \<lparr>buf_p = Some [0x01], buf_len = 1\<rparr>, pkt_numopts := 1,
     pkt_opts := (pkt_opts junk)[0 := \<lparr>opt_num = coap_option_num_val COAP_OPTION_URI_PATH,
       opt_buf = \<lparr>buf_p = Some (path @ [0]), buf_len = length path\<rparr>\<rparr>],
     pkt_payload := (pkt_payload junk)\<lparr>buf_len := 0\<rparr>\<rparr>"

text \<open>The request loop: \<open>rnd\<close> are the values \<open>rand\<close> returns, two for each request, and
  \<open>rsplen\<close> is not reset between the requests.  \<open>after\<close> are the events after a datagram that
  was sent.\<close>

fun request_loop ::
  "app_event list \<Rightarrow> nat \<Rightarrow> (nat \<Rightarrow> u8) \<Rightarrow> coap_packet \<Rightarrow> u8 list \<Rightarrow> nat \<Rightarrow> app_event list option" where
  "request_loop after 0 rnd pkt pbuf rsplen = Some []"
| "request_loop after (Suc n) rnd pkt pbuf rsplen =
     (let pkt = pkt\<lparr>pkt_hdr := (pkt_hdr pkt)\<lparr>hdr_id0 := rnd 0, hdr_id1 := rnd 1\<rparr>\<rparr> in
      case coap_build pbuf rsplen pkt of None \<Rightarrow> None
      | Some (rc, pbuf, rsplen) \<Rightarrow>
          map_option (\<lambda>evs. (if rc \<noteq> COAP_ERR_NONE then [] else Udp_Send (take rsplen pbuf) # after) @ evs)
            (request_loop after n (\<lambda>i. rnd (i + 2)) pkt pbuf rsplen))"

text \<open>\<open>mounted\<close> is \<open>mount_lfs\<close>, \<open>bio_ok\<close> whether the block device opens,
  \<open>mount_err\<close> the result of the first mount and \<open>open_ok\<close> that of \<open>udp_open\<close>.\<close>

definition coapcli_worker ::
  "bool \<Rightarrow> bool \<Rightarrow> bool \<Rightarrow> int \<Rightarrow> (nat \<Rightarrow> u8) \<Rightarrow> coap_packet \<Rightarrow> u8 list \<Rightarrow> bool
     \<Rightarrow> (int \<times> bool \<times> app_event list) option" where
  "coapcli_worker bio_ok mount_err open_ok pull_count rnd junk pbuf mounted =
     (if \<not> mounted \<and> \<not> bio_ok then Some (-1, mounted, [Bio_Open])
      else
        let evs = (if mounted then []
              else [Bio_Open, Lfs_Mount] @ (if mount_err then [Lfs_Format, Lfs_Mount] else []))
              @ [Udp_Listen 5683, Udp_Open 5683 5683]
        in if \<not> open_ok then Some (-1, True, evs)
           else do {
             sent \<leftarrow> request_loop [Thread_Sleep 100] (nat pull_count) rnd
               (request_packet (bytes_of ''temp'') junk) pbuf (length pbuf);
             Some (0, True, evs @ sent)
           })"

text \<open>The commands: \<open>pull_count_p\<close> workers of one request each, one after the other and joined
  when the argument is positive, detached otherwise.  The arguments of the command are the workers
  to start.\<close>

definition coapcli :: "int \<Rightarrow> int \<times> nat" where
  "coapcli pull_count_p = (0, if pull_count_p > 0 then nat pull_count_p else nat (-1 * pull_count_p))"

section \<open>The script clients\<close>

text \<open>\<open>sprintf\<close> into an array of \<open>n\<close> bytes, with the terminating zero.\<close>

definition sprintf_into :: "nat \<Rightarrow> u8 list \<Rightarrow> u8 list option" where
  "sprintf_into n str = (if length str + 1 \<le> n then Some str else None)"

text \<open>\<open>fmt_f\<close> is what \<open>%f\<close> prints for the float with the given bits.\<close>

definition handle_temp_resp ::
  "(u32 \<Rightarrow> u8 list) \<Rightarrow> coap_packet \<Rightarrow> u8 list \<Rightarrow> u8 \<Rightarrow> app_event list option" where
  "handle_temp_resp fmt_f junk buffer packetlen = do {
     (rc, cpacket) \<leftarrow> coap_parse junk buffer (unat packetlen);
     if rc = COAP_ERR_NONE \<and> buf_len (pkt_payload cpacket) > 0 then do {
       v \<leftarrow> payload_word cpacket;
       cmd \<leftarrow> sprintf_into 16 (bytes_of ''temp['' @ dec_nat (unat (msgid16 cpacket)) @ bytes_of '']='' @ fmt_f v
         @ bytes_of '';'');
       Some [Mu_Eval cmd]
     }
     else Some []
   }"

definition handle_humidity_resp :: "coap_packet \<Rightarrow> u8 list \<Rightarrow> u8 \<Rightarrow> app_event list option" where
  "handle_humidity_resp junk buffer packetlen = do {
     (rc, cpacket) \<leftarrow> coap_parse junk buffer (unat packetlen);
     if rc = COAP_ERR_NONE \<and> buf_len (pkt_payload cpacket) > 0 then do {
       v \<leftarrow> payload_word cpacket;
       cmd \<leftarrow> sprintf_into 16 (bytes_of ''humidity['' @ dec_nat (unat (msgid16 cpacket)) @ bytes_of '']='' @ dec_int (sint v)
         @ bytes_of '';'');
       Some [Mu_Eval cmd]
     }
     else Some []
   }"

definition app600 ::
  "bool \<Rightarrow> int \<Rightarrow> (nat \<Rightarrow> u8) \<Rightarrow> coap_packet \<Rightarrow> u8 list \<Rightarrow> (int \<times> app_event list) option" where
  "app600 open_ok n rnd junk pbuf =
     (let evs = [Mu_Eval (bytes_of ''temp=[];''), Udp_Listen 5683, Udp_Open 5683 5683] in
      if \<not> open_ok then Some (-1, evs)
      else do {
        sent \<leftarrow> request_loop [] (nat n) rnd (request_packet (bytes_of ''temp'') junk) pbuf (length pbuf);
        Some (0, evs @ sent)
      })"

definition app602 ::
  "bool \<Rightarrow> int \<Rightarrow> (nat \<Rightarrow> u8) \<Rightarrow> coap_packet \<Rightarrow> u8 list \<Rightarrow> (int \<times> app_event list) option" where
  "app602 open_ok n rnd junk pbuf =
     (let evs = [Mu_Eval (bytes_of ''humidity=[];''), Udp_Listen 5684, Udp_Open 5684 5683] in
      if \<not> open_ok then Some (-1, evs)
      else do {
        sent \<leftarrow> request_loop [] (nat n) rnd (request_packet (bytes_of ''humidity'') junk) pbuf (length pbuf);
        Some (0, evs @ sent)
      })"

section \<open>The requests on the wire\<close>

definition request_msg :: "u8 list \<Rightarrow> u8 \<Rightarrow> u8 \<Rightarrow> coap_msg" where
  "request_msg path hi lo = \<lparr>m_t = coap_msgtype_val COAP_TYPE_CON, m_code = coap_method_val COAP_METHOD_GET,
     m_id0 = hi, m_id1 = lo, m_tok = [1],
     m_opts = [(coap_option_num_val COAP_OPTION_URI_PATH, path)], m_payload = []\<rparr>"

definition is_request :: "u8 list \<Rightarrow> coap_packet \<Rightarrow> bool" where
  "is_request path pkt \<longleftrightarrow> (\<forall>hi lo. let p = pkt\<lparr>pkt_hdr := (pkt_hdr pkt)\<lparr>hdr_id0 := hi, hdr_id1 := lo\<rparr>\<rparr> in
     buildable p \<and> pkt_msg p = request_msg path hi lo)"

lemma request_packet_is_request:
  assumes "length (pkt_opts junk) = MAXOPT" "length path < 269"
  shows "is_request path (request_packet path junk)"
proof -
  have ne: "pkt_opts junk \<noteq> []" using assms(1) by (auto simp: MAXOPT_def)
  have "take 1 ((pkt_opts junk)[0 := v]) = [v]" for v using ne by (cases "pkt_opts junk") auto
  then show ?thesis
    using assms
    by (simp add: is_request_def Let_def request_packet_def buildable_def pkt_ok_def pkt_live_opts_def pkt_msg_def
        request_msg_def opt_pair_def MAXOPT_def)
      (simp add: buf_ok_def buf_bytes_def split: option.splits)
qed

lemma request_loop_sends:
  assumes "is_request path pkt" "length (msg_bytes (request_msg path 0 0)) \<le> rsplen" "rsplen \<le> length pbuf"
  shows "request_loop after n rnd pkt pbuf rsplen =
    Some (concat (map (\<lambda>i. Udp_Send (msg_bytes (request_msg path (rnd (2 * i)) (rnd (2 * i + 1)))) # after) [0..<n]))"
  using assms
proof (induction n arbitrary: rnd pkt pbuf rsplen)
  case (Suc n)
  define p where "p = pkt\<lparr>pkt_hdr := (pkt_hdr pkt)\<lparr>hdr_id0 := rnd 0, hdr_id1 := rnd (Suc 0)\<rparr>\<rparr>"
  let ?m = "msg_bytes (request_msg path (rnd 0) (rnd (Suc 0)))"
  have len: "length ?m = length (msg_bytes (request_msg path 0 0))"
    by (simp add: msg_bytes_def request_msg_def)
  then have fits: "length ?m \<le> rsplen" using Suc.prems(2) by simp
  have p: "buildable p" "pkt_msg p = request_msg path (rnd 0) (rnd (Suc 0))"
    using Suc.prems(1) by (simp_all add: is_request_def p_def Let_def)
  have again: "is_request path p" using Suc.prems(1) by (simp add: is_request_def p_def)
  obtain b where b: "coap_build pbuf rsplen p = Some (COAP_ERR_NONE, b, length ?m)" "length b = length pbuf"
    "take (length ?m) b = ?m"
    using coap.build_wire [OF p(1), of rsplen pbuf] fits Suc.prems(3) unfolding p(2) by blast
  have "request_loop after n (\<lambda>i. rnd (i + 2)) p b (length ?m) =
      Some (concat (map (\<lambda>i. Udp_Send (msg_bytes (request_msg path (rnd (2 * i + 2)) (rnd (2 * i + 1 + 2)))) # after) [0..<n]))"
    using Suc.IH [OF again, of "length ?m" b "\<lambda>i. rnd (i + 2)"] b(2) Suc.prems(3) fits len by simp
  then show ?case
    using b by (simp add: p_def [symmetric] Let_def upt_conv_Cons map_Suc_upt [symmetric] comp_def del: upt_Suc)
qed simp

text \<open>C26.  The sensor client: on a mounted store or one that can be opened, and with a socket,
  the worker sends one confirmable GET of \<open>temp\<close> per pull, each with the next two random bytes as
  its message id and token 1, and pauses after each; the reused length never stops it.\<close>

theorem coapcli_sends_requests:
  assumes "length (pkt_opts junk) = MAXOPT" "length pbuf = 32" "mounted \<or> bio_ok"
  shows "\<exists>evs. coapcli_worker bio_ok mount_err True (int n) rnd junk pbuf mounted = Some (0, True, evs @
      concat (map (\<lambda>i. [Udp_Send ([0x41, 1, rnd (2 * i), rnd (2 * i + 1), 1, 0xB4] @ bytes_of ''temp''),
        Thread_Sleep 100]) [0..<n])) \<and> evs \<noteq> [] \<and> last evs = Udp_Open 5683 5683"
proof -
  have m: "msg_bytes (request_msg (bytes_of ''temp'') a b) = [0x41, 1, a, b, 1, 0xB4] @ bytes_of ''temp''" for a b
    by (simp add: msg_bytes_def request_msg_def option_bytes_def nib_def ext_def bytes_of_def)
  have "length (msg_bytes (request_msg (bytes_of ''temp'') 0 0)) \<le> 32"
    unfolding m by (simp add: bytes_of_def)
  then have "request_loop [Thread_Sleep 100] n rnd (request_packet (bytes_of ''temp'') junk) pbuf 32 =
      Some (concat (map (\<lambda>i. [Udp_Send ([0x41, 1, rnd (2 * i), rnd (2 * i + 1), 1, 0xB4] @ bytes_of ''temp''),
        Thread_Sleep 100]) [0..<n]))"
    using request_loop_sends [OF request_packet_is_request [OF assms(1), of "bytes_of ''temp''"], of 32 pbuf "[Thread_Sleep 100]" n rnd]
      assms(2) by (simp only: m) (simp add: bytes_of_def)
  then show ?thesis using assms(2,3) by (auto simp: coapcli_worker_def)
qed

theorem coapcli_sends_requests_witness:
  "\<exists>evs. coapcli_worker True False True 1 (\<lambda>i. 5) blank_packet (replicate 32 0) False =
     Some (0, True, evs @ [Udp_Send [0x41, 1, 5, 5, 1, 0xB4, 116, 101, 109, 112], Thread_Sleep 100])"
  using coapcli_sends_requests [of blank_packet "replicate 32 0" False True False 1 "\<lambda>i. 5"]
  by (auto simp: blank_packet_def bytes_of_def)

section \<open>Sensor readings\<close>

lemma payload_word_spec:
  assumes "pkt_ok pkt"
  shows "4 \<le> buf_len (pkt_payload pkt) \<Longrightarrow> payload_word pkt = Some (le32 (buf_bytes (pkt_payload pkt) ! 0)
      (buf_bytes (pkt_payload pkt) ! 1) (buf_bytes (pkt_payload pkt) ! 2) (buf_bytes (pkt_payload pkt) ! 3))"
    and "payload_word pkt \<noteq> None \<longleftrightarrow> (\<exists>bs. buf_p (pkt_payload pkt) = Some bs \<and> 4 \<le> length bs)"
proof -
  have "buf_ok (pkt_payload pkt)" using assms by (simp add: pkt_ok_def)
  then show "payload_word pkt = Some (le32 (buf_bytes (pkt_payload pkt) ! 0)
      (buf_bytes (pkt_payload pkt) ! 1) (buf_bytes (pkt_payload pkt) ! 2) (buf_bytes (pkt_payload pkt) ! 3))"
    if "4 \<le> buf_len (pkt_payload pkt)"
    using that by (auto simp: payload_word_def buf_ok_def buf_bytes_def peek_def split: option.splits)
  show "payload_word pkt \<noteq> None \<longleftrightarrow> (\<exists>bs. buf_p (pkt_payload pkt) = Some bs \<and> 4 \<le> length bs)"
    by (auto simp: payload_word_def peek_def split: option.splits)
qed

lemma msgid16_nat: "unat (msgid16 pkt) = 256 * unat (hdr_id0 (pkt_hdr pkt)) + unat (hdr_id1 (pkt_hdr pkt))"
proof -
  let ?h = "hdr_id0 (pkt_hdr pkt)" and ?l = "hdr_id1 (pkt_hdr pkt)"
  have "msgid16 pkt = of_nat (256 * unat ?h + unat ?l)"
    by (simp add: msgid16_def push_bit_eq_mult)
  moreover have "256 * unat ?h + unat ?l < 65536" using unat_lt_256 [of ?h] unat_lt_256 [of ?l] by linarith
  ultimately show ?thesis by (simp only: unat_of_nat) simp
qed

text \<open>Sensor readings: the client turns an accepted response with at least four payload bytes
  into a record with the 16 bit message id of the response, the time of arrival and the 32 bit value
  of the first four bytes; a response without payload or a datagram that does not parse gives no
  record.\<close>

theorem sensor_reading:
  assumes "length (pkt_opts junk) = MAXOPT" "unat packetlen \<le> length buffer"
    and parse: "coap_parse junk buffer (unat packetlen) = Some (rc, pkt)"
    and pl: "pl = buf_bytes (pkt_payload pkt)" "rc = COAP_ERR_NONE \<Longrightarrow> pl = [] \<or> 4 \<le> length pl"
  shows "\<exists>reading. coap_response_cb now junk buffer packetlen = Some reading \<and>
    (reading = None \<longleftrightarrow> rc \<noteq> COAP_ERR_NONE \<or> pl = []) \<and>
    (\<forall>r. reading = Some r \<longrightarrow> sd_value r = le32 (pl ! 0) (pl ! 1) (pl ! 2) (pl ! 3) \<and> c_time r = now \<and>
       unat (message_id r) = 256 * unat (hdr_id0 (pkt_hdr pkt)) + unat (hdr_id1 (pkt_hdr pkt)))"
proof (cases "rc = COAP_ERR_NONE \<and> pl \<noteq> []")
  case True
  have ok: "pkt_ok pkt" using coap_parse_ok [OF assms(2,1)] parse True by auto
  then have "length pl = buf_len (pkt_payload pkt)" using buf_bytes_length by (simp add: pl(1) pkt_ok_def)
  with True pl(2) have "4 \<le> buf_len (pkt_payload pkt)" by auto
  with payload_word_spec(1) [OF ok] True parse show ?thesis
    by (auto simp: coap_response_cb_def pl(1) msgid16_nat)
next
  case False
  then have "rc \<noteq> COAP_ERR_NONE \<or> buf_len (pkt_payload pkt) = 0"
    using coap_parse_ok [OF assms(2,1)] parse pl(1) by (auto simp: pkt_ok_def dest!: buf_bytes_length)
  then show ?thesis using parse False by (auto simp: coap_response_cb_def)
qed

definition reading_datagram :: "u8 list" where
  "reading_datagram = [0x60, 0x45, 2, 1, 0xFF, 0, 0, 0xC8, 0x41]"

theorem sensor_reading_witness:
  "\<exists>r. coap_response_cb 9 blank_packet reading_datagram 9 = Some (Some r) \<and> sd_value r = 0x41C80000 \<and>
     unat (message_id r) = 513"
proof -
  have p: "map_option (\<lambda>(rc, p). (rc, buf_bytes (pkt_payload p), hdr_id0 (pkt_hdr p), hdr_id1 (pkt_hdr p)))
      (coap_parse blank_packet reading_datagram 9) = Some (COAP_ERR_NONE, [0, 0, 0xC8, 0x41], 2, 1)" by code_simp
  then obtain pkt where pkt: "coap_parse blank_packet reading_datagram 9 = Some (COAP_ERR_NONE, pkt)"
    "buf_bytes (pkt_payload pkt) = [0, 0, 0xC8, 0x41]" "hdr_id0 (pkt_hdr pkt) = 2" "hdr_id1 (pkt_hdr pkt) = 1" by auto
  have "le32 0 0 0xC8 0x41 = 0x41C80000" by code_simp
  then show ?thesis
    using sensor_reading [of blank_packet 9 reading_datagram COAP_ERR_NONE pkt _ 9, OF _ _ _ refl] pkt
    by (auto simp: blank_packet_def reading_datagram_def)
qed

text \<open>Short readings: the client checks that the payload is not empty but reads four bytes of
  it, so a response whose payload has fewer bytes and ends the datagram is read past its end.\<close>

theorem short_reading_overread:
  "coap_response_cb now blank_packet [0x60, 0x45, 2, 1, 0xFF, 7] 6 = None"
proof -
  have "map_option (\<lambda>(rc, p). (rc, buf_len (pkt_payload p), payload_word p))
      (coap_parse blank_packet [0x60, 0x45, 2, 1, 0xFF, 7] 6) = Some (COAP_ERR_NONE, 1, None)" by code_simp
  then show ?thesis by (auto simp: coap_response_cb_def)
qed

lemma msgid16_digits: "0 < length (dec_nat n)"
  by (subst dec_nat.simps) simp

text \<open>The command buffer of the script clients: with a format that prints a float with six
  decimals the temperature client overruns its 16 byte array on every reading; the humidity client
  fits it exactly when message id and value have three characters together.\<close>

theorem script_command_overrun:
  assumes "length (pkt_opts junk) = MAXOPT" "unat packetlen \<le> length buffer"
    and parse: "coap_parse junk buffer (unat packetlen) = Some (COAP_ERR_NONE, pkt)"
    and v: "4 \<le> length (buf_bytes (pkt_payload pkt))" "payload_word pkt = Some v"
    and fmt: "\<And>w. 8 \<le> length (fmt_f w)"
  shows "handle_temp_resp fmt_f junk buffer packetlen = None \<and>
    (handle_humidity_resp junk buffer packetlen \<noteq> None \<longleftrightarrow>
      length (dec_nat (unat (msgid16 pkt))) + length (dec_int (sint v)) \<le> 3)"
proof -
  have "pkt_ok pkt" using coap_parse_ok [OF assms(2,1)] parse by auto
  then have "0 < buf_len (pkt_payload pkt)" using v(1) buf_bytes_length by (auto simp: pkt_ok_def)
  then show ?thesis
    using parse v(2) fmt [of v] msgid16_digits [of "unat (msgid16 pkt)"]
    by (auto simp: handle_temp_resp_def handle_humidity_resp_def sprintf_into_def bytes_of_def)
qed

theorem script_command_overrun_witness:
  "handle_temp_resp (\<lambda>w. replicate 8 48) blank_packet reading_datagram 9 = None \<and>
   handle_humidity_resp blank_packet reading_datagram 9 = None"
proof -
  have p: "map_option (\<lambda>(rc, p). (rc, buf_bytes (pkt_payload p), payload_word p, msgid16 p))
      (coap_parse blank_packet reading_datagram 9) =
    Some (COAP_ERR_NONE, [0, 0, 0xC8, 0x41], Some 0x41C80000, 513)" by code_simp
  then obtain pkt where pkt: "coap_parse blank_packet reading_datagram 9 = Some (COAP_ERR_NONE, pkt)"
    "buf_bytes (pkt_payload pkt) = [0, 0, 0xC8, 0x41]" "payload_word pkt = Some 0x41C80000" "msgid16 pkt = 513" by auto
  have three: "\<not> length (dec_nat 513) \<le> 2" by (simp add: dec_nat_length)
  have "\<not> length (dec_nat 513) + length (dec_int i) \<le> 3" for i
  proof -
    have "0 < length (dec_int i)" using msgid16_digits by (simp add: dec_int_def)
    with three show ?thesis by linarith
  qed
  then show ?thesis
    using script_command_overrun [of blank_packet 9 reading_datagram pkt "0x41C80000" "\<lambda>w. replicate 8 48"] pkt
    by (simp add: blank_packet_def reading_datagram_def)
qed

end
