(* ===== verification/Plic.thy ===== *)
theory Plic
  imports Interfaces
begin

unbundle bit_operations_syntax

text \<open>
  The interrupt controller of the platform, \<open>plic.c\<close> with the memory map of
  \<open>virt.h\<close>, in the configuration of \<open>project/pus.mk\<close>: machine mode on a 64 bit hart
  without an MMU, so a virtual address is the physical one.

  The state is the file of the 32 bit device registers, by address, and the table of handlers.  A
  handler is a code address: a value of the type variable \<open>'h\<close>, which the platform
  instantiates with its handlers; what the code at the address does is the argument \<open>run\<close> of
  \<open>riscv_platform_irq\<close>.  Reading the claim register is the one read that the device answers
  by itself, so its value is an argument, too.  Tracing and interrupt statistics are left out.
\<close>

section \<open>Memory and interrupt layout\<close>

definition PERIPHERAL_BASE_VIRT :: nat where "PERIPHERAL_BASE_VIRT = 0"
definition IRQ_VIRTIO_BASE :: nat where "IRQ_VIRTIO_BASE = 1"
definition IRQ_UART0 :: nat where "IRQ_UART0 = 10"
definition IRQ_RTC :: nat where "IRQ_RTC = 11"
definition NUM_IRQS :: nat where "NUM_IRQS = 127"
definition PLIC_BASE_VIRT :: nat where "PLIC_BASE_VIRT = PERIPHERAL_BASE_VIRT + 0x0c000000"
definition UART0_BASE_VIRT :: nat where "UART0_BASE_VIRT = PERIPHERAL_BASE_VIRT + 0x10000000"
definition RTC_BASE_VIRT :: nat where "RTC_BASE_VIRT = PERIPHERAL_BASE_VIRT + 0x101000"
definition VIRTIO_BASE_VIRT :: nat where "VIRTIO_BASE_VIRT = PERIPHERAL_BASE_VIRT + 0x10001000"
definition NUM_VIRTIO_TRANSPORTS :: nat where "NUM_VIRTIO_TRANSPORTS = 8"
definition SMP_MAX_CPUS :: nat where "SMP_MAX_CPUS = 8"
definition VIRTIO_STRIDE :: nat where "VIRTIO_STRIDE = 0x1000"

definition PLIC_HART_IDX :: "nat \<Rightarrow> nat" where "PLIC_HART_IDX hart = 2 * hart"

definition PLIC_PRIORITY :: "nat \<Rightarrow> nat" where
  "PLIC_PRIORITY irq = PLIC_BASE_VIRT + 4 + 4 * irq"

definition PLIC_ENABLE :: "nat \<Rightarrow> nat \<Rightarrow> nat" where
  "PLIC_ENABLE irq hart = PLIC_BASE_VIRT + 0x2000 + 0x80 * PLIC_HART_IDX hart + 4 * (irq div 32)"

definition PLIC_THRESHOLD :: "nat \<Rightarrow> nat" where
  "PLIC_THRESHOLD hart = PLIC_BASE_VIRT + 0x200000 + 0x1000 * PLIC_HART_IDX hart"

definition PLIC_COMPLETE :: "nat \<Rightarrow> nat" where
  "PLIC_COMPLETE hart = PLIC_BASE_VIRT + 0x200004 + 0x1000 * PLIC_HART_IDX hart"

lemmas layout_defs = PERIPHERAL_BASE_VIRT_def PLIC_BASE_VIRT_def PLIC_HART_IDX_def
  PLIC_PRIORITY_def PLIC_ENABLE_def PLIC_THRESHOLD_def PLIC_COMPLETE_def

section \<open>State and operations\<close>

datatype status = NO_ERROR | ERR_NOT_SUPPORTED

datatype handler_return = INT_NO_RESCHEDULE | INT_RESCHEDULE

record 'h int_handlers =
  ih_handler :: "'h option"
  ih_arg :: u64

record 'h plic =
  reg32 :: "nat \<Rightarrow> u32"
  handlers :: "'h int_handlers list"

definition set_reg32 :: "nat \<Rightarrow> u32 \<Rightarrow> ('h, 'z) plic_scheme \<Rightarrow> ('h, 'z) plic_scheme" where
  "set_reg32 a v s = s\<lparr>reg32 := (reg32 s)(a := v)\<rparr>"

definition plic_early_init_irq :: "nat \<Rightarrow> nat \<Rightarrow> ('h, 'z) plic_scheme \<Rightarrow> ('h, 'z) plic_scheme" where
  "plic_early_init_irq hart i s =
     (let a = PLIC_ENABLE i hart;
          s = set_reg32 a (reg32 s a AND NOT (push_bit (i mod 32) 1)) s
      in set_reg32 (PLIC_PRIORITY i) 1 s)"

definition plic_early_init :: "nat \<Rightarrow> ('h, 'z) plic_scheme \<Rightarrow> ('h, 'z) plic_scheme" where
  "plic_early_init hart s =
     set_reg32 (PLIC_THRESHOLD hart) 0 (fold (plic_early_init_irq hart) [1..<NUM_IRQS] s)"

definition plic_init :: "('h, 'z) plic_scheme \<Rightarrow> ('h, 'z) plic_scheme" where
  "plic_init s = s"

definition mask_interrupt :: "nat \<Rightarrow> nat \<Rightarrow> ('h, 'z) plic_scheme \<Rightarrow> status \<times> ('h, 'z) plic_scheme" where
  "mask_interrupt hart vector s =
     (let a = PLIC_ENABLE vector hart
      in (NO_ERROR, set_reg32 a (reg32 s a AND NOT (push_bit (vector mod 32) 1)) s))"

definition unmask_interrupt :: "nat \<Rightarrow> nat \<Rightarrow> ('h, 'z) plic_scheme \<Rightarrow> status \<times> ('h, 'z) plic_scheme" where
  "unmask_interrupt hart vector s =
     (let a = PLIC_ENABLE vector hart
      in (NO_ERROR, set_reg32 a (reg32 s a OR push_bit (vector mod 32) 1) s))"

text \<open>\<^term>\<open>None\<close> is the failed \<open>DEBUG_ASSERT\<close>, which panics.\<close>

definition register_int_handler ::
  "nat \<Rightarrow> 'h option \<Rightarrow> u64 \<Rightarrow> ('h, 'z) plic_scheme \<Rightarrow> ('h, 'z) plic_scheme option" where
  "register_int_handler vector handler arg s =
     (if vector < NUM_IRQS
      then do {
        hs \<leftarrow> poke (handlers s) vector \<lparr>ih_handler = handler, ih_arg = arg\<rparr>;
        Some (s\<lparr>handlers := hs\<rparr>)
      }
      else None)"

text \<open>\<open>PANIC_UNIMPLEMENTED\<close>\<close>

definition register_int_handler_msi ::
  "nat \<Rightarrow> 'h option \<Rightarrow> u64 \<Rightarrow> bool \<Rightarrow> ('h, 'z) plic_scheme \<Rightarrow> ('h, 'z) plic_scheme option" where
  "register_int_handler_msi vector handler arg edge s = None"

definition riscv_platform_irq ::
  "nat \<Rightarrow> ('h \<Rightarrow> u64 \<Rightarrow> ('h, 'z) plic_scheme \<Rightarrow> (handler_return \<times> ('h, 'z) plic_scheme) option)
     \<Rightarrow> u32 \<Rightarrow> ('h, 'z) plic_scheme \<Rightarrow> (handler_return \<times> ('h, 'z) plic_scheme) option" where
  "riscv_platform_irq hart run claim s =
     (let vector = claim in
      if vector = 0 then Some (INT_NO_RESCHEDULE, s)
      else do {
        h \<leftarrow> peek (handlers s) (unat vector);
        (ret, s) \<leftarrow> (case ih_handler h of None \<Rightarrow> Some (INT_NO_RESCHEDULE, s)
                   | Some f \<Rightarrow> run f (ih_arg h) s);
        Some (ret, set_reg32 (PLIC_COMPLETE hart) vector s)
      })"

definition platform_pci_int_to_vector :: "nat \<Rightarrow> status \<times> nat" where
  "platform_pci_int_to_vector pci_int = (NO_ERROR, pci_int)"

definition platform_allocate_interrupts :: "nat \<Rightarrow> nat \<Rightarrow> bool \<Rightarrow> status" where
  "platform_allocate_interrupts count align_log2 msi = ERR_NOT_SUPPORTED"

definition platform_compute_msi_values :: "nat \<Rightarrow> nat \<Rightarrow> bool \<Rightarrow> status" where
  "platform_compute_msi_values vector cpu edge = ERR_NOT_SUPPORTED"

section \<open>The set of enabled interrupts\<close>

text \<open>What the controller promises its clients is a set of enabled vectors per hart and a table of
  handlers.  The registers hold the set as bits.\<close>

definition irq_enabled :: "nat \<Rightarrow> ('h, 'z) plic_scheme \<Rightarrow> nat \<Rightarrow> bool" where
  "irq_enabled hart s v = bit (reg32 s (PLIC_ENABLE v hart)) (v mod 32)"

definition enabled_irqs :: "nat \<Rightarrow> ('h, 'z) plic_scheme \<Rightarrow> nat set" where
  "enabled_irqs hart s = {v \<in> {1..<NUM_IRQS}. irq_enabled hart s v}"

definition handler_of :: "('h, 'z) plic_scheme \<Rightarrow> nat \<Rightarrow> 'h int_handlers option" where
  "handler_of s v = peek (handlers s) v"

definition plic_ok :: "('h, 'z) plic_scheme \<Rightarrow> bool" where
  "plic_ok s = (length (handlers s) = NUM_IRQS)"

lemma reg32_set_reg32 [simp]: "reg32 (set_reg32 a v s) = (reg32 s)(a := v)"
  by (simp add: set_reg32_def)

lemma handlers_set_reg32 [simp]: "handlers (set_reg32 a v s) = handlers s"
  by (simp add: set_reg32_def)

lemma handler_of_set_reg32 [simp]: "handler_of (set_reg32 a v s) = handler_of s"
  by (simp add: handler_of_def fun_eq_iff)

lemma plic_ok_set_reg32 [simp]: "plic_ok (set_reg32 a v s) = plic_ok s"
  by (simp add: plic_ok_def)

lemma PLIC_ENABLE_eq:
  assumes "v < 1024" "w < 1024"
  shows "PLIC_ENABLE v h = PLIC_ENABLE w k \<longleftrightarrow> h = k \<and> v div 32 = w div 32"
proof -
  define a b where "a = v div 32" and "b = w div 32"
  then have "a < 32" "b < 32" using assms by auto
  then have "256 * h + 4 * a = 256 * k + 4 * b \<longleftrightarrow> h = k \<and> a = b"
    by (cases h k rule: linorder_cases) linarith+
  then show ?thesis by (simp add: layout_defs a_def b_def)
qed

lemma same_word_bit: "v div 32 = w div 32 \<Longrightarrow> v mod 32 = w mod 32 \<longleftrightarrow> v = (w :: nat)"
  by (metis div_mult_mod_eq)

lemma irq_enabled_unmask:
  assumes "v < 1024" "w < 1024"
  shows "irq_enabled k (snd (unmask_interrupt h v s)) w \<longleftrightarrow> irq_enabled k s w \<or> (k = h \<and> w = v)"
  using PLIC_ENABLE_eq [OF assms(2,1), of k h] same_word_bit [of v w]
  by (auto simp: irq_enabled_def unmask_interrupt_def Let_def bit_simps)

lemma irq_enabled_mask:
  assumes "v < 1024" "w < 1024"
  shows "irq_enabled k (snd (mask_interrupt h v s)) w \<longleftrightarrow> irq_enabled k s w \<and> \<not> (k = h \<and> w = v)"
  using PLIC_ENABLE_eq [OF assms(2,1), of k h] same_word_bit [of v w]
  by (auto simp: irq_enabled_def mask_interrupt_def Let_def bit_simps)

lemma enabled_irqs_unmask:
  "v \<in> {1..<NUM_IRQS} \<Longrightarrow> enabled_irqs k (snd (unmask_interrupt h v s)) =
     (if k = h then insert v (enabled_irqs k s) else enabled_irqs k s)"
  by (auto simp: enabled_irqs_def irq_enabled_unmask NUM_IRQS_def)

lemma enabled_irqs_mask:
  "v \<in> {1..<NUM_IRQS} \<Longrightarrow> enabled_irqs k (snd (mask_interrupt h v s)) =
     (if k = h then enabled_irqs k s - {v} else enabled_irqs k s)"
  by (auto simp: enabled_irqs_def irq_enabled_mask NUM_IRQS_def)

lemma register_int_handler_ok:
  assumes "plic_ok s" "v < NUM_IRQS"
  shows "register_int_handler v h a s =
    Some (s\<lparr>handlers := (handlers s)[v := \<lparr>ih_handler = h, ih_arg = a\<rparr>]\<rparr>)"
  using assms by (simp add: register_int_handler_def plic_ok_def mem_simps)

lemma mask_handlers [simp]:
  "handler_of (snd (mask_interrupt h v s)) = handler_of s" "plic_ok (snd (mask_interrupt h v s)) = plic_ok s"
  "handler_of (snd (unmask_interrupt h v s)) = handler_of s" "plic_ok (snd (unmask_interrupt h v s)) = plic_ok s"
  by (simp_all add: mask_interrupt_def unmask_interrupt_def Let_def)

interpretation plic: interrupt_controller
  "\<lambda>v s. snd (mask_interrupt hart v s)" "\<lambda>v s. snd (unmask_interrupt hart v s)"
  "\<lambda>v h. register_int_handler v (ih_handler h) (ih_arg h)"
  "enabled_irqs hart" handler_of "{1..<NUM_IRQS}" plic_ok for hart
proof unfold_locales
  fix v and s :: "('a, 'b) plic_scheme" and h :: "'a int_handlers"
  assume ok: "plic_ok s" and v: "v \<in> {1..<NUM_IRQS}"
  then have "register_int_handler v (ih_handler h) (ih_arg h) s = Some (s\<lparr>handlers := (handlers s)[v := h]\<rparr>)"
    by (cases h) (simp add: register_int_handler_ok)
  then show "\<exists>s'. register_int_handler v (ih_handler h) (ih_arg h) s = Some s' \<and> plic_ok s' \<and>
      handler_of s' = (handler_of s)(v \<mapsto> h) \<and> enabled_irqs hart s' = enabled_irqs hart s"
    using ok v by (auto simp: plic_ok_def handler_of_def peek_def enabled_irqs_def irq_enabled_def)
qed (simp_all add: enabled_irqs_mask enabled_irqs_unmask)

section \<open>Initialisation and dispatch\<close>

lemma PLIC_PRIORITY_disjoint: "i < 1024 \<Longrightarrow> PLIC_PRIORITY i \<noteq> PLIC_ENABLE w k"
  by (simp add: layout_defs)

lemma irq_enabled_early_irq:
  assumes "i < 1024" "w < 1024"
  shows "irq_enabled k (plic_early_init_irq hart i s) w \<longleftrightarrow> irq_enabled k s w \<and> \<not> (k = hart \<and> w = i)"
  using irq_enabled_mask [OF assms, of k hart s] PLIC_PRIORITY_disjoint [OF assms(1), of w k]
  by (simp add: irq_enabled_def plic_early_init_irq_def mask_interrupt_def Let_def)

lemma early_irqs_enabled:
  "set is \<subseteq> {1..<NUM_IRQS} \<Longrightarrow> enabled_irqs k (fold (plic_early_init_irq hart) is s) =
     (if k = hart then enabled_irqs k s - set is else enabled_irqs k s)"
proof (induction "is" arbitrary: s)
  case (Cons i "is")
  have "enabled_irqs k (plic_early_init_irq hart i s) =
      (if k = hart then enabled_irqs k s - {i} else enabled_irqs k s)"
    using Cons.prems by (auto simp: enabled_irqs_def irq_enabled_early_irq NUM_IRQS_def)
  then show ?case using Cons by auto
qed auto

lemma early_irqs_priority:
  "set is \<subseteq> {1..<NUM_IRQS} \<Longrightarrow> reg32 (fold (plic_early_init_irq hart) is s) (PLIC_PRIORITY p) =
     (if p \<in> set is then 1 else reg32 s (PLIC_PRIORITY p))" if "p < 1024"
proof (induction "is" arbitrary: s)
  case (Cons i "is")
  have "reg32 (plic_early_init_irq hart i s) (PLIC_PRIORITY p) = (if p = i then 1 else reg32 s (PLIC_PRIORITY p))"
    using PLIC_PRIORITY_disjoint [OF that, of i hart]
    by (simp add: plic_early_init_irq_def Let_def) (simp add: layout_defs)
  then show ?case using Cons by auto
qed auto

lemma early_irqs_handlers: "handlers (fold (plic_early_init_irq hart) is s) = handlers s"
  by (induction "is" arbitrary: s) (simp_all add: plic_early_init_irq_def Let_def)

lemma threshold_disjoint:
  "w < 1024 \<Longrightarrow> k < SMP_MAX_CPUS \<Longrightarrow> PLIC_THRESHOLD hart \<noteq> PLIC_ENABLE w k"
  "p < 1024 \<Longrightarrow> PLIC_THRESHOLD hart \<noteq> PLIC_PRIORITY p"
  by (simp_all add: layout_defs SMP_MAX_CPUS_def)

lemma enabled_irqs_threshold:
  "k < SMP_MAX_CPUS \<Longrightarrow> enabled_irqs k (set_reg32 (PLIC_THRESHOLD hart) v s) = enabled_irqs k s"
  by (auto simp: enabled_irqs_def irq_enabled_def NUM_IRQS_def threshold_disjoint(1) [symmetric])

lemma enabled_irqs_early_init:
  assumes "k < SMP_MAX_CPUS"
  shows "enabled_irqs k (plic_early_init hart s) = (if k = hart then {} else enabled_irqs k s)"
proof -
  have "enabled_irqs k s - set [1..<NUM_IRQS] = {}" by (auto simp: enabled_irqs_def)
  with assms show ?thesis
    using early_irqs_enabled [of "[1..<NUM_IRQS]" k hart s]
    by (simp only: plic_early_init_def enabled_irqs_threshold) simp
qed

lemma priority_early_init:
  assumes "p < 1024"
  shows "reg32 (plic_early_init hart s) (PLIC_PRIORITY p) =
    (if p \<in> {1..<NUM_IRQS} then 1 else reg32 s (PLIC_PRIORITY p))"
  using early_irqs_priority [OF assms, of "[1..<NUM_IRQS]" hart s] threshold_disjoint(2) [OF assms, of hart]
  by (simp add: plic_early_init_def)

lemma handlers_early_init: "handlers (plic_early_init hart s) = handlers s"
  by (simp add: plic_early_init_def early_irqs_handlers)

text \<open>Reset of the interrupt controller: after \<open>plic_early_init\<close> no interrupt is enabled
  on the calling hart, the enables of every other hart and the handler table are as before, the
  threshold lets everything through, and the priority registers written are those of
  \<open>PLIC_PRIORITY(1)\<close> to \<open>PLIC_PRIORITY(126)\<close>: the register of \<open>PLIC_PRIORITY(0)\<close>, at
  offset 4, which is the one the PLIC specification gives to source 1, keeps its value.\<close>

theorem plic_early_init_resets:
  assumes "k < SMP_MAX_CPUS"
  shows "enabled_irqs k (plic_early_init hart s) = (if k = hart then {} else enabled_irqs k s) \<and>
    handlers (plic_early_init hart s) = handlers s \<and>
    reg32 (plic_early_init hart s) (PLIC_THRESHOLD hart) = 0 \<and>
    (\<forall>p\<in>{1..<NUM_IRQS}. reg32 (plic_early_init hart s) (PLIC_PRIORITY p) = 1) \<and>
    reg32 (plic_early_init hart s) (PLIC_BASE_VIRT + 4 * 1) = reg32 s (PLIC_BASE_VIRT + 4 * 1)"
proof -
  have "PLIC_BASE_VIRT + 4 * 1 = PLIC_PRIORITY 0" by (simp add: layout_defs)
  moreover have "\<forall>p\<in>{1..<NUM_IRQS}. p < 1024" by (simp add: NUM_IRQS_def)
  moreover have "reg32 (plic_early_init hart s) (PLIC_THRESHOLD hart) = 0"
    by (simp add: plic_early_init_def)
  ultimately show ?thesis
    using priority_early_init [of _ hart s] enabled_irqs_early_init [OF assms, of hart s]
    by (auto simp: handlers_early_init)
qed

definition reset_plic :: "nat plic" where
  "reset_plic = \<lparr>reg32 = (\<lambda>_. 0xFFFFFFFF), handlers = replicate NUM_IRQS \<lparr>ih_handler = None, ih_arg = 0\<rparr>\<rparr>"

theorem plic_early_init_resets_witness:
  "enabled_irqs 0 (plic_early_init 0 reset_plic) = {} \<and>
   enabled_irqs 1 (plic_early_init 0 reset_plic) = {1..<NUM_IRQS}"
proof -
  have "enabled_irqs 1 reset_plic = {1..<NUM_IRQS}"
  proof -
    have "bit (0xFFFFFFFF :: u32) (v mod 32)" for v :: nat
    proof -
      have "\<forall>i\<in>set [0..<32]. bit (0xFFFFFFFF :: u32) i" by code_simp
      then show ?thesis by simp
    qed
    then show ?thesis by (auto simp: enabled_irqs_def irq_enabled_def reset_plic_def)
  qed
  then show ?thesis
    using plic_early_init_resets [of 0 0 reset_plic] plic_early_init_resets [of 1 0 reset_plic]
    by (simp add: SMP_MAX_CPUS_def)
qed

lemma unat_of_irq: "v < NUM_IRQS \<Longrightarrow> unat (of_nat v :: u32) = v"
  by (simp add: unat_of_nat NUM_IRQS_def)

lemma riscv_platform_irq_handler:
  assumes "handler_of s v = Some h" "0 < v" "v < NUM_IRQS"
  shows "riscv_platform_irq hart run (of_nat v) s =
    map_option (\<lambda>(r, s'). (r, set_reg32 (PLIC_COMPLETE hart) (of_nat v) s'))
      (case ih_handler h of None \<Rightarrow> Some (INT_NO_RESCHEDULE, s) | Some f \<Rightarrow> run f (ih_arg h) s)"
proof -
  have "(of_nat v :: u32) \<noteq> 0" using unat_of_irq [OF assms(3)] assms(2) by (metis neq0_conv unat_0)
  then show ?thesis using assms
    by (auto simp: riscv_platform_irq_def handler_of_def unat_of_irq Let_def map_conv_bind_option
        split: option.splits bind_split)
qed

text \<open>C29.  Interrupt dispatch: once a driver has registered a handler for a vector and unmasked it,
  exactly that vector has been added to the enabled ones, a claim of the vector runs the handler
  with its argument and then completes the interrupt, and every other vector has the handler it had;
  a spurious claim of 0 does nothing, and a claimed vector beyond the table is not checked and reads
  past it.\<close>

theorem irq_attach_dispatch:
  assumes "plic_ok s" "v \<in> {1..<NUM_IRQS}"
  shows "\<exists>s1 s2. register_int_handler v (Some f) a s = Some s1 \<and>
    unmask_interrupt hart v s1 = (NO_ERROR, s2) \<and>
    enabled_irqs hart s2 = insert v (enabled_irqs hart s) \<and>
    riscv_platform_irq hart run (of_nat v) s2 =
      map_option (\<lambda>(r, s'). (r, set_reg32 (PLIC_COMPLETE hart) (of_nat v) s')) (run f a s2) \<and>
    (\<forall>w. w \<noteq> v \<longrightarrow> handler_of s2 w = handler_of s w) \<and>
    riscv_platform_irq hart run 0 s2 = Some (INT_NO_RESCHEDULE, s2) \<and>
    (\<forall>w. NUM_IRQS \<le> unat w \<longrightarrow> riscv_platform_irq hart run w s2 = None)"
proof -
  let ?h = "\<lparr>ih_handler = Some f, ih_arg = a\<rparr>"
  obtain s1 where s1: "register_int_handler v (Some f) a s = Some s1"
    and ok: "plic_ok (snd (unmask_interrupt hart v s1))"
    and en: "enabled_irqs hart (snd (unmask_interrupt hart v s1)) = insert v (enabled_irqs hart s)"
    and h: "handler_of (snd (unmask_interrupt hart v s1)) = (handler_of s)(v \<mapsto> ?h)"
    using plic.attach [OF assms, of ?h hart] by auto
  define s2 where "s2 = snd (unmask_interrupt hart v s1)"
  have out: "riscv_platform_irq hart run w s2 = None" if "NUM_IRQS \<le> unat w" for w
  proof -
    have "w \<noteq> 0" using that by (auto simp: NUM_IRQS_def)
    then show ?thesis using that ok by (simp add: riscv_platform_irq_def s2_def plic_ok_def peek_def)
  qed
  have u: "unmask_interrupt hart v s1 = (NO_ERROR, s2)"
    by (simp add: s2_def unmask_interrupt_def Let_def)
  have irq: "riscv_platform_irq hart run (of_nat v) s2 =
      map_option (\<lambda>(r, s'). (r, set_reg32 (PLIC_COMPLETE hart) (of_nat v) s')) (run f a s2)"
    using riscv_platform_irq_handler [of s2 v ?h hart run] h assms(2) by (simp add: s2_def)
  have "riscv_platform_irq hart run 0 s2 = Some (INT_NO_RESCHEDULE, s2)"
    by (simp add: riscv_platform_irq_def)
  with s1 u en h irq out show ?thesis unfolding s2_def by auto
qed

theorem irq_attach_dispatch_witness:
  "\<exists>s1 s2. register_int_handler 10 (Some 7) 0 reset_plic = Some s1 \<and>
    unmask_interrupt 0 10 s1 = (NO_ERROR, s2) \<and>
    riscv_platform_irq 0 (\<lambda>f a s. Some (INT_RESCHEDULE, s)) 10 s2 =
      Some (INT_RESCHEDULE, set_reg32 (PLIC_COMPLETE 0) 10 s2)"
  using irq_attach_dispatch [of reset_plic 10 7 0 0 "\<lambda>f a s. Some (INT_RESCHEDULE, s)"]
  by (auto simp: plic_ok_def reset_plic_def NUM_IRQS_def)

end
