(* ===== verification/Rtc.thy ===== *)
theory Rtc
  imports Plic
begin

unbundle bit_operations_syntax

text \<open>
  The driver of the real-time clock, \<open>goldfish_rtc.c\<close>.  Its registers are words of the
  register file of the platform; the device shows the wall time, in nanoseconds since the Unix epoch,
  in \<open>RTC_TIME_LOW\<close> and \<open>RTC_TIME_HIGH\<close>, and a read of the first latches the second, so
  one call of \<open>read_raw_time\<close> sees both halves of one sample.  The state of the driver itself
  is the boot offset and the callback of the one-shot timer.  \<open>lk_time_t\<close> is 32 bits wide and
  \<open>lk_bigtime_t\<close> 64 bits.
\<close>

text \<open>The addresses of the code that the platform hands out: its own handlers and those of
  drivers and clients that are not part of it.\<close>

datatype code_ptr = uart_irq_handler_ptr | rtc_irq_ptr | ext_ptr nat

record rtc = "code_ptr plic" +
  system_boot_offset :: u64
  t_callback :: "code_ptr option"
  t_arg :: u64

datatype rtc_register = RTC_TIME_LOW | RTC_TIME_HIGH | RTC_ALARM_LOW | RTC_ALARM_HIGH
  | RTC_IRQ_ENABLED | RTC_CLEAR_ALARM | RTC_ALARM_STATUS | RTC_CLEAR_INTERRUPT

primrec rtc_register_val :: "rtc_register \<Rightarrow> nat" where
  "rtc_register_val RTC_TIME_LOW = 0x00"
| "rtc_register_val RTC_TIME_HIGH = 0x04"
| "rtc_register_val RTC_ALARM_LOW = 0x08"
| "rtc_register_val RTC_ALARM_HIGH = 0x0c"
| "rtc_register_val RTC_IRQ_ENABLED = 0x10"
| "rtc_register_val RTC_CLEAR_ALARM = 0x14"
| "rtc_register_val RTC_ALARM_STATUS = 0x18"
| "rtc_register_val RTC_CLEAR_INTERRUPT = 0x1c"

definition rtc_addr :: "rtc_register \<Rightarrow> nat" where
  "rtc_addr reg = RTC_BASE_VIRT + 4 * (rtc_register_val reg div 4)"

definition write_reg :: "rtc_register \<Rightarrow> u32 \<Rightarrow> 'z rtc_scheme \<Rightarrow> 'z rtc_scheme" where
  "write_reg reg val s = set_reg32 (rtc_addr reg) val s"

definition read_reg :: "rtc_register \<Rightarrow> 'z rtc_scheme \<Rightarrow> u32" where
  "read_reg reg s = reg32 s (rtc_addr reg)"

definition read_raw_time :: "'z rtc_scheme \<Rightarrow> u64" where
  "read_raw_time s =
     (let low = read_reg RTC_TIME_LOW s; high = read_reg RTC_TIME_HIGH s
      in push_bit 32 (ucast high) OR ucast low)"

definition rtc_current_time :: "'z rtc_scheme \<Rightarrow> u32" where
  "rtc_current_time s =
     (let t = read_raw_time s - system_boot_offset s in ucast (t div 1000000000))"

text \<open>\<open>call\<close> is what the code of a callback does with its argument and the time.\<close>

definition rtc_irq ::
  "(code_ptr \<Rightarrow> u64 \<Rightarrow> u32 \<Rightarrow> 'z rtc_scheme \<Rightarrow> (handler_return \<times> 'z rtc_scheme) option)
     \<Rightarrow> 'z rtc_scheme \<Rightarrow> (handler_return \<times> 'z rtc_scheme) option" where
  "rtc_irq call s =
     (let s = write_reg RTC_CLEAR_ALARM 1 s;
          s = write_reg RTC_CLEAR_INTERRUPT 1 s
      in case t_callback s of None \<Rightarrow> Some (INT_NO_RESCHEDULE, s)
         | Some cb \<Rightarrow> call cb (t_arg s) (rtc_current_time s) s)"

definition rtc_platform_stop_timer :: "'z rtc_scheme \<Rightarrow> 'z rtc_scheme" where
  "rtc_platform_stop_timer s = write_reg RTC_CLEAR_INTERRUPT 1 (write_reg RTC_CLEAR_ALARM 1 s)"

definition goldfish_rtc_early_init :: "nat \<Rightarrow> 'z rtc_scheme \<Rightarrow> 'z rtc_scheme option" where
  "goldfish_rtc_early_init hart s = do {
     let s = s\<lparr>system_boot_offset := read_raw_time s\<rparr>;
     let s = rtc_platform_stop_timer s;
     s \<leftarrow> register_int_handler RTC_BASE_VIRT (Some rtc_irq_ptr) 0 s;
     let s = snd (unmask_interrupt hart RTC_BASE_VIRT s);
     Some (write_reg RTC_IRQ_ENABLED 1 s)
   }"

definition goldfish_rtc_init :: "'z rtc_scheme \<Rightarrow> 'z rtc_scheme" where
  "goldfish_rtc_init s = s"

definition rtc_current_time_hires :: "'z rtc_scheme \<Rightarrow> u64" where
  "rtc_current_time_hires s = (let t = read_raw_time s - system_boot_offset s in t div 1000)"

definition rtc_platform_set_oneshot_timer ::
  "code_ptr option \<Rightarrow> u64 \<Rightarrow> u32 \<Rightarrow> 'z rtc_scheme \<Rightarrow> status \<times> 'z rtc_scheme" where
  "rtc_platform_set_oneshot_timer callback arg interval s =
     (let s = s\<lparr>t_callback := callback, t_arg := arg\<rparr>;
          delta = read_raw_time s;
          delta = delta + ucast interval * 1000000;
          s = write_reg RTC_ALARM_HIGH (ucast (drop_bit 32 delta)) s;
          s = write_reg RTC_ALARM_LOW (ucast (delta AND 0xffffffff)) s
      in (NO_ERROR, s))"

section \<open>The clock\<close>

text \<open>The device shows the time \<open>t\<close> in its two time registers; the alarm is the 64 bit number
  in its two alarm registers.\<close>

definition rtc_shows :: "u64 \<Rightarrow> 'z rtc_scheme \<Rightarrow> bool" where
  "rtc_shows t s = (read_reg RTC_TIME_LOW s = ucast t \<and> read_reg RTC_TIME_HIGH s = ucast (drop_bit 32 t))"

definition rtc_alarm :: "'z rtc_scheme \<Rightarrow> u64" where
  "rtc_alarm s = push_bit 32 (ucast (read_reg RTC_ALARM_HIGH s)) OR ucast (read_reg RTC_ALARM_LOW s)"

lemma u64_halves: "push_bit 32 (ucast (ucast (drop_bit 32 t) :: u32)) OR ucast (ucast t :: u32) = (t :: u64)"
  by (rule bit_word_eqI) (auto simp: bit_simps)

lemma ucast_and_low: "(ucast (t AND 0xffffffff :: u64) :: u32) = ucast t"
proof -
  have "t AND 0xffffffff = take_bit 32 t" by (simp add: take_bit_eq_mask mask_eq_exp_minus_1)
  then show ?thesis by (intro bit_word_eqI) (auto simp: bit_simps)
qed

lemma read_raw_time_shows: "rtc_shows t s \<Longrightarrow> read_raw_time s = t"
  by (simp add: rtc_shows_def read_raw_time_def u64_halves)

lemma rtc_addr_inj [simp]: "rtc_addr a = rtc_addr b \<longleftrightarrow> a = b"
  by (cases a; cases b; simp add: rtc_addr_def)

lemma read_write_reg [simp]: "read_reg a (write_reg b v s) = (if a = b then v else read_reg a s)"
  by (simp add: read_reg_def write_reg_def)

lemma write_reg_fields [simp]:
  "system_boot_offset (write_reg b v s) = system_boot_offset s"
  "t_callback (write_reg b v s) = t_callback s" "t_arg (write_reg b v s) = t_arg s"
  "handlers (write_reg b v s) = handlers s"
  by (simp_all add: write_reg_def set_reg32_def)

lemma read_reg_update [simp]:
  "read_reg a (s\<lparr>t_callback := c, t_arg := x\<rparr>) = read_reg a s"
  "read_reg a (s\<lparr>system_boot_offset := b\<rparr>) = read_reg a s"
  by (simp_all add: read_reg_def)

lemma rtc_current_time_seconds:
  assumes "rtc_shows t s" "system_boot_offset s \<le> t"
  shows "unat (rtc_current_time s) = (unat t - unat (system_boot_offset s)) div 10 ^ 9 mod 2 ^ 32"
  using unat_sub [OF assms(2)]
  by (simp add: rtc_current_time_def read_raw_time_shows [OF assms(1)] unat_div unsigned_ucast_eq
      take_bit_eq_mod [where ?'a = nat])

text \<open>The clock: when the device shows \<open>t\<close> nanoseconds and the driver's offset is
  \<open>b\<close>, \<open>rtc_current_time_hires\<close> is the number of microseconds and \<open>rtc_current_time\<close>
  the number of whole seconds since then, modulo the width of \<open>lk_time_t\<close>: it counts seconds,
  not the milliseconds of its comment.\<close>

theorem rtc_clock_units:
  assumes "rtc_shows t s" "system_boot_offset s \<le> t"
  shows "unat (rtc_current_time_hires s) = (unat t - unat (system_boot_offset s)) div 1000 \<and>
    unat (rtc_current_time s) = (unat t - unat (system_boot_offset s)) div 10 ^ 9 mod 2 ^ 32"
  using unat_sub [OF assms(2)] rtc_current_time_seconds [OF assms]
  by (simp add: rtc_current_time_hires_def read_raw_time_shows [OF assms(1)] unat_div)

definition sample_rtc :: rtc where
  "sample_rtc = \<lparr>reg32 = (\<lambda>a. if a = rtc_addr RTC_TIME_HIGH then 0x17979CFE else 0x362A0000),
     handlers = replicate NUM_IRQS \<lparr>ih_handler = None, ih_arg = 0\<rparr>,
     system_boot_offset = 0, t_callback = None, t_arg = 0\<rparr>"

lemma sample_rtc_shows: "rtc_shows 0x17979CFE362A0000 sample_rtc"
proof -
  have "ucast (0x17979CFE362A0000 :: u64) = (0x362A0000 :: u32)"
    "ucast (drop_bit 32 (0x17979CFE362A0000 :: u64)) = (0x17979CFE :: u32)" by code_simp+
  then show ?thesis by (simp add: rtc_shows_def read_reg_def sample_rtc_def)
qed

theorem rtc_clock_units_witness:
  "unat (rtc_current_time sample_rtc) = 1700000000 \<and> unat (rtc_current_time_hires sample_rtc) = 1700000000000000"
  using rtc_clock_units [OF sample_rtc_shows] by (simp add: sample_rtc_def)

text \<open>The one-shot timer: \<open>rtc_platform_set_oneshot_timer\<close> keeps the callback and its
  argument and sets the alarm to the time shown plus the interval in milliseconds, a 64 bit sum that
  wraps, whatever was in the alarm registers; the interrupt then clears the alarm and calls the
  callback with its argument.\<close>

theorem rtc_oneshot_alarm:
  assumes "rtc_shows t s" "rtc_platform_set_oneshot_timer (Some cb) arg interval s = (rc, s')"
  shows "rc = NO_ERROR \<and> unat (rtc_alarm s') = (unat t + unat interval * 10 ^ 6) mod 2 ^ 64 \<and>
    (\<exists>s''. rtc_irq call s' = call cb arg (rtc_current_time s') s'' \<and>
       read_reg RTC_CLEAR_ALARM s'' = 1 \<and> read_reg RTC_CLEAR_INTERRUPT s'' = 1)"
proof -
  let ?d = "t + ucast interval * 1000000"
  have raw: "read_raw_time (s\<lparr>t_callback := Some cb, t_arg := arg\<rparr>) = t"
    using read_raw_time_shows [OF assms(1)] by (simp add: read_raw_time_def)
  then have s': "rc = NO_ERROR" "s' = write_reg RTC_ALARM_LOW (ucast ?d)
      (write_reg RTC_ALARM_HIGH (ucast (drop_bit 32 ?d)) (s\<lparr>t_callback := Some cb, t_arg := arg\<rparr>))"
    using assms(2) by (simp_all add: rtc_platform_set_oneshot_timer_def Let_def ucast_and_low)
  then have "rtc_alarm s' = ?d" by (simp add: rtc_alarm_def u64_halves)
  moreover have "unat ?d = (unat t + unat interval * 10 ^ 6) mod 2 ^ 64"
  proof -
    have "?d = of_nat (unat t + unat interval * 10 ^ 6)" by simp
    then show ?thesis by (simp only: unat_of_nat) simp
  qed
  moreover define s'' where "s'' = write_reg RTC_CLEAR_INTERRUPT 1 (write_reg RTC_CLEAR_ALARM 1 s')"
  have "rtc_irq call s' = call cb arg (rtc_current_time s'') s''"
    using s'(2) by (simp add: rtc_irq_def Let_def s''_def)
  moreover have "rtc_current_time s'' = rtc_current_time s'"
    by (simp add: rtc_current_time_def read_raw_time_def s''_def)
  ultimately show ?thesis using s'(1) by (auto simp: s''_def)
qed

theorem rtc_oneshot_alarm_witness:
  "unat (rtc_alarm (snd (rtc_platform_set_oneshot_timer (Some (ext_ptr 1)) 0 1500 sample_rtc))) =
     0x17979CFE362A0000 + 1500 * 10 ^ 6"
  using rtc_oneshot_alarm [where cb = "ext_ptr 1" and arg = 0 and interval = 1500,
      OF sample_rtc_shows surjective_pairing] by simp

text \<open>\<open>goldfish_rtc_early_init\<close> cannot be used: it registers its handler under the base
  address of the device instead of its interrupt number, which fails the assertion of
  \<open>register_int_handler\<close> in every state.  \<open>IRQ_RTC\<close> is a vector that would pass.\<close>

theorem goldfish_rtc_early_init_panics:
  "goldfish_rtc_early_init hart s = None \<and>
   register_int_handler IRQ_RTC (Some rtc_irq_ptr) 0 sample_rtc \<noteq> None"
  by (simp add: goldfish_rtc_early_init_def register_int_handler_def RTC_BASE_VIRT_def
      PERIPHERAL_BASE_VIRT_def NUM_IRQS_def IRQ_RTC_def sample_rtc_def mem_simps)

end
