(* ===== verification/Uart.thy ===== *)
theory Uart
  imports Rtc
begin

unbundle bit_operations_syntax

text \<open>
  The serial port, \<open>uart.c\<close>: reception by interrupt into a ring buffer, transmission by polling.

  The 16550 and the ring buffer of the kernel library \<open>lib/cbuf\<close> are not part of the sources:
  they are the parameters collected in \<open>uart_env\<close>, and what the driver relies on is stated by
  \<open>uart_rx_ok\<close>, \<open>uart_tx_ok\<close> and \<open>cbuf_ok\<close>.  The two polling loops have fuel, the
  number of polls; \<^term>\<open>None\<close> is a loop that is still running when it is used up, or a panic.
\<close>

definition RXBUF_SIZE :: nat where "RXBUF_SIZE = 128"

record ('d, 'c) uart_env =
  dev_read :: "nat \<Rightarrow> 'd \<Rightarrow> u8 \<times> 'd"
  dev_write :: "nat \<Rightarrow> u8 \<Rightarrow> 'd \<Rightarrow> 'd"
  cbuf_initialize_etc :: "nat \<Rightarrow> 'c"
  cbuf_write_char :: "'c \<Rightarrow> u8 \<Rightarrow> bool \<Rightarrow> 'c"
  cbuf_read_char :: "'c \<Rightarrow> bool \<Rightarrow> int \<times> u8 \<times> 'c"

record ('d, 'c) uart = rtc +
  uart_base :: 'd
  uart_rx_buf :: 'c

definition uart_read_8 ::
  "('d, 'c) uart_env \<Rightarrow> nat \<Rightarrow> ('d, 'c, 'z) uart_scheme \<Rightarrow> u8 \<times> ('d, 'c, 'z) uart_scheme" where
  "uart_read_8 env offset s = (case dev_read env offset (uart_base s) of (v, d) \<Rightarrow> (v, s\<lparr>uart_base := d\<rparr>))"

definition uart_write_8 ::
  "('d, 'c) uart_env \<Rightarrow> nat \<Rightarrow> u8 \<Rightarrow> ('d, 'c, 'z) uart_scheme \<Rightarrow> ('d, 'c, 'z) uart_scheme" where
  "uart_write_8 env offset val s = s\<lparr>uart_base := dev_write env offset val (uart_base s)\<rparr>"

fun uart_rx_loop ::
  "('d, 'c) uart_env \<Rightarrow> nat \<Rightarrow> bool \<Rightarrow> ('d, 'c, 'z) uart_scheme \<Rightarrow> (bool \<times> ('d, 'c, 'z) uart_scheme) option" where
  "uart_rx_loop env 0 resched s = None"
| "uart_rx_loop env (Suc fuel) resched s =
     (case uart_read_8 env 5 s of (lsr, s) \<Rightarrow>
        if lsr AND 1 \<noteq> 0
        then (case uart_read_8 env 0 s of (c, s) \<Rightarrow>
          uart_rx_loop env fuel True (s\<lparr>uart_rx_buf := cbuf_write_char env (uart_rx_buf s) c False\<rparr>))
        else Some (resched, s))"

definition uart_irq_handler ::
  "('d, 'c) uart_env \<Rightarrow> nat \<Rightarrow> ('d, 'c, 'z) uart_scheme \<Rightarrow> (handler_return \<times> ('d, 'c, 'z) uart_scheme) option" where
  "uart_irq_handler env fuel s = do {
     (resched, s) \<leftarrow> uart_rx_loop env fuel False s;
     Some (if resched then INT_RESCHEDULE else INT_NO_RESCHEDULE, s)
   }"

definition uart_init ::
  "('d, 'c) uart_env \<Rightarrow> nat \<Rightarrow> ('d, 'c, 'z) uart_scheme \<Rightarrow> ('d, 'c, 'z) uart_scheme option" where
  "uart_init env hart s = do {
     let s = s\<lparr>uart_rx_buf := cbuf_initialize_etc env RXBUF_SIZE\<rparr>;
     s \<leftarrow> register_int_handler IRQ_UART0 (Some uart_irq_handler_ptr) 0 s;
     let s = uart_write_8 env 1 0x1 s;
     Some (snd (unmask_interrupt hart IRQ_UART0 s))
   }"

fun uart_putc ::
  "('d, 'c) uart_env \<Rightarrow> nat \<Rightarrow> u8 \<Rightarrow> ('d, 'c, 'z) uart_scheme \<Rightarrow> ('d, 'c, 'z) uart_scheme option" where
  "uart_putc env 0 c s = None"
| "uart_putc env (Suc fuel) c s =
     (case uart_read_8 env 5 s of (lsr, s) \<Rightarrow>
        if lsr AND push_bit 6 1 = 0 then uart_putc env fuel c s
        else Some (uart_write_8 env 0 c s))"

definition uart_getc ::
  "('d, 'c) uart_env \<Rightarrow> bool \<Rightarrow> ('d, 'c, 'z) uart_scheme \<Rightarrow> int \<times> u8 \<times> ('d, 'c, 'z) uart_scheme" where
  "uart_getc env wait s =
     (case cbuf_read_char env (uart_rx_buf s) wait of (n, c, b) \<Rightarrow> (n, c, s\<lparr>uart_rx_buf := b\<rparr>))"

text \<open>The recursive call is on \<open>'\r'\<close>, byte 13, so it is not repeated.\<close>

function platform_dputc ::
  "('d, 'c) uart_env \<Rightarrow> nat \<Rightarrow> u8 \<Rightarrow> ('d, 'c, 'z) uart_scheme \<Rightarrow> ('d, 'c, 'z) uart_scheme option" where
  "platform_dputc env fuel c s =
     (case (if c = 10 then platform_dputc env fuel 13 s else Some s) of None \<Rightarrow> None
      | Some s \<Rightarrow> uart_putc env fuel c s)"
  by pat_completeness auto
termination by (relation "measure (\<lambda>(_, _, c, _). if c = 10 then 1 else 0)") auto

declare platform_dputc.simps [simp del]

definition platform_dgetc ::
  "('d, 'c) uart_env \<Rightarrow> bool \<Rightarrow> ('d, 'c, 'z) uart_scheme \<Rightarrow> int \<times> u8 \<times> ('d, 'c, 'z) uart_scheme" where
  "platform_dgetc env wait s = uart_getc env wait s"

text \<open>The out-parameter is \<^term>\<open>None\<close> when it is not written.\<close>

definition platform_pgetc ::
  "('d, 'c) uart_env \<Rightarrow> bool \<Rightarrow> ('d, 'c, 'z) uart_scheme \<Rightarrow> int \<times> u8 option \<times> ('d, 'c, 'z) uart_scheme" where
  "platform_pgetc env wait s =
     (case uart_read_8 env 5 s of (lsr, s) \<Rightarrow>
        if lsr AND 1 \<noteq> 0 then (case uart_read_8 env 0 s of (c, s) \<Rightarrow> (0, Some c, s))
        else (-1, None, s))"

section \<open>What the driver relies on\<close>

text \<open>The receiver: bit 0 of the line status register says whether a byte is pending, and reading
  the data register takes the first pending byte.\<close>

definition uart_rx_ok :: "('d, 'c) uart_env \<Rightarrow> ('d \<Rightarrow> u8 list) \<Rightarrow> bool" where
  "uart_rx_ok env pending = (\<forall>d.
     (fst (dev_read env 5 d) AND 1 \<noteq> 0 \<longleftrightarrow> pending d \<noteq> []) \<and>
     pending (snd (dev_read env 5 d)) = pending d \<and>
     (pending d \<noteq> [] \<longrightarrow> fst (dev_read env 0 d) = hd (pending d) \<and>
        pending (snd (dev_read env 0 d)) = tl (pending d)))"

text \<open>The transmitter: bit 6 is set after at most \<open>busy\<close> polls, and writing the data register
  sends the byte.\<close>

definition uart_tx_ok :: "('d, 'c) uart_env \<Rightarrow> ('d \<Rightarrow> u8 list) \<Rightarrow> ('d \<Rightarrow> nat) \<Rightarrow> nat \<Rightarrow> bool" where
  "uart_tx_ok env sent busy bound = (\<forall>d.
     (fst (dev_read env 5 d) AND push_bit 6 1 = 0 \<longrightarrow> busy (snd (dev_read env 5 d)) < busy d) \<and>
     sent (snd (dev_read env 5 d)) = sent d \<and> busy d \<le> bound \<and>
     (\<forall>c. sent (dev_write env 0 c d) = sent d @ [c]))"

text \<open>The ring buffer: a queue of at most \<open>cap\<close> bytes that drops what does not fit.\<close>

definition cbuf_ok :: "('d, 'c) uart_env \<Rightarrow> ('c \<Rightarrow> u8 list) \<Rightarrow> nat \<Rightarrow> bool" where
  "cbuf_ok env contents cap = (contents (cbuf_initialize_etc env RXBUF_SIZE) = [] \<and> (\<forall>b.
     (\<forall>c. contents (cbuf_write_char env b c False) =
        (if length (contents b) < cap then contents b @ [c] else contents b)) \<and>
     (contents b \<noteq> [] \<longrightarrow> (\<exists>b'. cbuf_read_char env b False = (1, hd (contents b), b') \<and>
        contents b' = tl (contents b)))))"

section \<open>Reception\<close>

lemma uart_rx_loop_ok:
  assumes "uart_rx_ok env pending" "cbuf_ok env contents cap" "length (pending (uart_base s)) < fuel"
  shows "\<exists>s'. uart_rx_loop env fuel r s = Some (r \<or> pending (uart_base s) \<noteq> [], s') \<and>
    pending (uart_base s') = [] \<and>
    contents (uart_rx_buf s') = contents (uart_rx_buf s) @
      take (cap - length (contents (uart_rx_buf s))) (pending (uart_base s))"
  using assms(3)
proof (induction fuel arbitrary: r s)
  case (Suc fuel)
  obtain v d where 5: "dev_read env 5 (uart_base s) = (v, d)" by fastforce
  with assms(1) have v: "(v AND 1 \<noteq> 0) = (pending (uart_base s) \<noteq> [])" "pending d = pending (uart_base s)"
    unfolding uart_rx_ok_def by (metis fst_conv snd_conv)+
  show ?case
  proof (cases "pending (uart_base s)")
    case Nil
    then show ?thesis using 5 v by (simp add: uart_read_8_def)
  next
    case (Cons c cs)
    obtain c' d' where 0: "dev_read env 0 d = (c', d')" by fastforce
    with assms(1) Cons v have c: "c' = c" "pending d' = cs"
      unfolding uart_rx_ok_def by (metis fst_conv snd_conv list.sel list.discI)+
    define s1 where "s1 = s\<lparr>uart_base := d', uart_rx_buf := cbuf_write_char env (uart_rx_buf s) c False\<rparr>"
    have buf: "contents (uart_rx_buf s1) = (if length (contents (uart_rx_buf s)) < cap
        then contents (uart_rx_buf s) @ [c] else contents (uart_rx_buf s))"
      using assms(2) by (simp add: cbuf_ok_def s1_def)
    obtain s' where "uart_rx_loop env fuel True s1 = Some (True, s')" "pending (uart_base s') = []"
      "contents (uart_rx_buf s') = contents (uart_rx_buf s1) @ take (cap - length (contents (uart_rx_buf s1))) cs"
      using Suc.IH [of s1 True] Suc.prems Cons c(2) by (auto simp: s1_def)
    moreover have "uart_rx_loop env (Suc fuel) r s = uart_rx_loop env fuel True s1"
      using 5 0 v Cons c(1) by (simp add: uart_read_8_def s1_def)
    ultimately show ?thesis using Cons buf by (simp add: Suc_diff_Suc [symmetric])
  qed
qed simp

text \<open>C30.  Serial reception: the interrupt handler takes every pending byte off the device and
  appends them, in order, to the receive buffer, as many as it has room for; it asks for a reschedule
  exactly when there was a byte.  It returns: as many polls as there are pending bytes, and one more,
  are enough.\<close>

theorem uart_irq_drains:
  assumes "uart_rx_ok env pending" "cbuf_ok env contents cap" "length (pending (uart_base s)) < fuel"
  shows "\<exists>s'. uart_irq_handler env fuel s =
      Some (if pending (uart_base s) = [] then INT_NO_RESCHEDULE else INT_RESCHEDULE, s') \<and>
    pending (uart_base s') = [] \<and>
    contents (uart_rx_buf s') = contents (uart_rx_buf s) @
      take (cap - length (contents (uart_rx_buf s))) (pending (uart_base s))"
  using uart_rx_loop_ok [OF assms, of False] by (auto simp: uart_irq_handler_def)

text \<open>A device with a receive queue, a transmit log and an idle transmitter, and a ring buffer as a
  list of at most 127 bytes.\<close>

definition list_env :: "(u8 list \<times> u8 list, u8 list) uart_env" where
  "list_env = \<lparr>
     dev_read = (\<lambda>r (rx, tx). if r = 5 then (0x60 OR (if rx = [] then 0 else 1), (rx, tx))
        else (case rx of [] \<Rightarrow> (0, ([], tx)) | c # cs \<Rightarrow> (c, (cs, tx)))),
     dev_write = (\<lambda>r v (rx, tx). if r = 0 then (rx, tx @ [v]) else (rx, tx)),
     cbuf_initialize_etc = (\<lambda>n. []),
     cbuf_write_char = (\<lambda>b c w. if length b < 127 then b @ [c] else b),
     cbuf_read_char = (\<lambda>b w. case b of [] \<Rightarrow> (0, 0, []) | c # cs \<Rightarrow> (1, c, cs))\<rparr>"

lemma list_env_rx: "uart_rx_ok list_env fst"
proof -
  have "(0x60 OR 0 :: u8) AND 1 = 0" "(0x60 OR 1 :: u8) AND 1 \<noteq> 0" by code_simp+
  then show ?thesis by (simp add: uart_rx_ok_def list_env_def split: list.splits)
qed

lemma list_env_tx: "uart_tx_ok list_env snd (\<lambda>_. 0) 0"
proof -
  have "(0x60 OR 0 :: u8) AND push_bit 6 1 \<noteq> 0" "(0x60 OR 1 :: u8) AND push_bit 6 1 \<noteq> 0" by code_simp+
  then show ?thesis by (simp add: uart_tx_ok_def list_env_def)
qed

lemma list_env_cbuf: "cbuf_ok list_env (\<lambda>b. b) 127"
  by (auto simp: cbuf_ok_def list_env_def neq_Nil_conv)

definition sample_uart :: "(u8 list \<times> u8 list, u8 list) uart" where
  "sample_uart = rtc.extend sample_rtc \<lparr>uart_base = ([0x68, 0x69], []), uart_rx_buf = []\<rparr>"

theorem uart_irq_drains_witness:
  "map_option (\<lambda>(r, s). (r, uart_rx_buf s)) (uart_irq_handler list_env 3 sample_uart) =
     Some (INT_RESCHEDULE, [0x68, 0x69])"
  using uart_irq_drains [OF list_env_rx list_env_cbuf, of sample_uart 3]
  by (auto simp: sample_uart_def rtc.defs)

section \<open>Transmission\<close>

lemma uart_putc_sends:
  assumes "uart_tx_ok env sent busy bound" "busy (uart_base s) < fuel"
  shows "\<exists>s'. uart_putc env fuel c s = Some s' \<and> sent (uart_base s') = sent (uart_base s) @ [c] \<and>
    uart_rx_buf s' = uart_rx_buf s"
  using assms(2)
proof (induction fuel arbitrary: s)
  case (Suc fuel)
  obtain v d where 5: "dev_read env 5 (uart_base s) = (v, d)" by fastforce
  with assms(1) have v: "v AND push_bit 6 1 = 0 \<Longrightarrow> busy d < busy (uart_base s)" "sent d = sent (uart_base s)"
    "sent (dev_write env 0 c d) = sent d @ [c]"
    unfolding uart_tx_ok_def by (metis fst_conv snd_conv)+
  show ?case
  proof (cases "v AND push_bit 6 1 = 0")
    case True
    then show ?thesis using Suc.IH [of "s\<lparr>uart_base := d\<rparr>"] Suc.prems 5 v by (simp add: uart_read_8_def)
  next
    case False
    then show ?thesis using 5 v by (simp add: uart_read_8_def uart_write_8_def)
  qed
qed simp

definition crlf :: "u8 \<Rightarrow> u8 list" where
  "crlf c = (if c = 10 then [13, 10] else [c])"

lemma platform_dputc_sends:
  assumes "uart_tx_ok env sent busy bound" "bound < fuel"
  shows "\<exists>s'. platform_dputc env fuel c s = Some s' \<and> sent (uart_base s') = sent (uart_base s) @ crlf c"
proof -
  have busy: "busy d < fuel" for d
    using assms by (auto simp: uart_tx_ok_def intro: le_less_trans)
  have put: "\<exists>s'. uart_putc env fuel c s = Some s' \<and> sent (uart_base s') = sent (uart_base s) @ [c]" for c s
    using uart_putc_sends [OF assms(1) busy] by blast
  have cr: "platform_dputc env fuel 13 s = uart_putc env fuel 13 s"
    by (subst platform_dputc.simps) simp
  show ?thesis
  proof (cases "c = 10")
    case True
    obtain s1 where 1: "uart_putc env fuel 13 s = Some s1" "sent (uart_base s1) = sent (uart_base s) @ [13]"
      using put by blast
    then show ?thesis using put [of 10 s1] True cr
      by (subst platform_dputc.simps) (auto simp: crlf_def)
  next
    case False
    then show ?thesis using put [of c s] by (subst platform_dputc.simps) (auto simp: crlf_def)
  qed
qed

text \<open>Writing a text to the console, as the kernel's \<open>printf\<close> does: one
  \<open>platform_dputc\<close> per byte.\<close>

fun console_write ::
  "('d, 'c) uart_env \<Rightarrow> nat \<Rightarrow> u8 list \<Rightarrow> ('d, 'c, 'z) uart_scheme \<Rightarrow> ('d, 'c, 'z) uart_scheme option" where
  "console_write env fuel [] s = Some s"
| "console_write env fuel (c # cs) s =
     (case platform_dputc env fuel c s of None \<Rightarrow> None | Some s \<Rightarrow> console_write env fuel cs s)"

text \<open>C31.  Console output: with a transmitter that becomes ready within \<open>bound\<close> polls, every
  byte of a text is sent, in order and once, each newline as carriage return and newline; polling
  \<open>bound + 1\<close> times is enough.\<close>

theorem console_write_sends:
  assumes "uart_tx_ok env sent busy bound" "bound < fuel"
  shows "\<exists>s'. console_write env fuel cs s = Some s' \<and>
    sent (uart_base s') = sent (uart_base s) @ concat (map crlf cs)"
proof (induction cs arbitrary: s)
  case (Cons c cs)
  obtain s1 where "platform_dputc env fuel c s = Some s1" "sent (uart_base s1) = sent (uart_base s) @ crlf c"
    using platform_dputc_sends [OF assms] by blast
  then show ?case using Cons.IH [of s1] by auto
qed simp

theorem console_write_sends_witness:
  "map_option (\<lambda>s. snd (uart_base s)) (console_write list_env 1 [0x68, 10] sample_uart) =
     Some [0x68, 13, 10]"
  using console_write_sends [OF list_env_tx, of 1 "[0x68, 10]" sample_uart]
  by (auto simp: sample_uart_def rtc.defs crlf_def)

end
