(* ===== verification/Platform.thy ===== *)
theory Platform
  imports Uart
begin

unbundle bit_operations_syntax

text \<open>
  Start-up and halt of the board, \<open>platform.c\<close>, in the configuration of \<open>project/pus.mk\<close>
  and \<open>rules.mk\<close>: machine mode without the virtual memory manager, with the network stack
  \<open>minip\<close>, without the panic shell.

  The flattened device tree is the list of nodes that \<open>fdt_walk\<close> reports to its callbacks, with
  its return code.  Calls into the kernel are recorded in order in \<open>kcalls\<close>; their results are
  the fields of \<open>pf_env\<close>.  Of these calls only \<open>virtio_mmio_detect\<close>, which attaches the
  drivers it finds, changes the modelled state.
\<close>

section \<open>State\<close>

record fdt_walk_pcie_info =
  ecam_base :: u64
  ecam_len :: u64
  bus_start :: u8
  bus_end :: u8
  io_base :: u64
  io_len :: u64
  mmio_base :: u64
  mmio_len :: u64
  mmio64_base :: u64
  mmio64_len :: u64

datatype fdt_node = FdtMem u64 u64 | FdtCpu u64 | FdtPcie fdt_walk_pcie_info

datatype pci_resource = PCI_RESOURCE_IO_RANGE | PCI_RESOURCE_MMIO_RANGE | PCI_RESOURCE_MMIO64_RANGE

datatype kcall =
    novm_add_arena string u64 u64
  | riscv_set_secondary_count int
  | pci_init_ecam u64 u64 u8 u8
  | pci_bus_mgr_add_resource pci_resource u64 u64
  | pci_bus_mgr_init
  | pci_bus_mgr_assign_resources
  | virtio_mmio_detect nat nat "nat list" nat
  | minip_set_eth "u8 list"
  | virtio_net_start
  | minip_start_dhcp
  | arch_disable_ints

record ('d, 'c) platform = "('d, 'c) uart" +
  pcie_state :: fdt_walk_pcie_info
  power_reset_reg :: "nat option"
  kcalls :: "kcall list"

record 's pf_env =
  fdt_nodes :: "fdt_node list"
  fdt_err :: int
  pci_init_ecam_ok :: bool
  virtio_attach :: "'s \<Rightarrow> 's"
  virtio_net_found :: int
  virtio_net_mac :: "u8 list"

definition MEMBASE :: u64 where "MEMBASE = 0x80000000"
definition MEMSIZE :: u64 where "MEMSIZE = 0x01000000"

definition kcall :: "kcall \<Rightarrow> ('d, 'c) platform \<Rightarrow> ('d, 'c) platform" where
  "kcall k s = s\<lparr>kcalls := kcalls s @ [k]\<rparr>"

section \<open>Early initialisation\<close>

definition memcallback :: "u64 \<Rightarrow> u64 \<Rightarrow> bool \<Rightarrow> ('d, 'c) platform \<Rightarrow> bool \<times> ('d, 'c) platform" where
  "memcallback base len found_mem s =
     (if \<not> found_mem then (True, kcall (novm_add_arena ''fdt'' base len) s) else (found_mem, s))"

definition cpucallback :: "u64 \<Rightarrow> int \<Rightarrow> int" where
  "cpucallback cpu_id cpu_count = cpu_count + 1"

definition pciecallback :: "fdt_walk_pcie_info \<Rightarrow> ('d, 'c) platform \<Rightarrow> ('d, 'c) platform" where
  "pciecallback info s = s\<lparr>pcie_state := info\<rparr>"

text \<open>The calls that \<open>fdt_walk\<close> makes for the nodes it finds; the cookies are the first two
  components of the state.\<close>

fun fdt_callbacks :: "fdt_node list \<Rightarrow> bool \<times> int \<times> ('d, 'c) platform \<Rightarrow> bool \<times> int \<times> ('d, 'c) platform" where
  "fdt_callbacks [] st = st"
| "fdt_callbacks (FdtMem base len # ns) (m, n, s) =
     (case memcallback base len m s of (m, s) \<Rightarrow> fdt_callbacks ns (m, n, s))"
| "fdt_callbacks (FdtCpu i # ns) (m, n, s) = fdt_callbacks ns (m, cpucallback i n, s)"
| "fdt_callbacks (FdtPcie info # ns) (m, n, s) = fdt_callbacks ns (m, n, pciecallback info s)"

definition platform_early_init ::
  "nat \<Rightarrow> ('d, 'c) platform pf_env \<Rightarrow> ('d, 'c) platform \<Rightarrow> ('d, 'c) platform" where
  "platform_early_init hart env s =
     (let s = plic_early_init hart s;
          s = goldfish_rtc_init s;
          (found_mem, cpu_count, s) = fdt_callbacks (fdt_nodes env) (False, 0, s);
          s = (if \<not> found_mem then kcall (novm_add_arena ''default'' MEMBASE MEMSIZE) s else s);
          s = (if cpu_count > 0 then kcall (riscv_set_secondary_count (cpu_count - 1)) s else s)
      in s\<lparr>power_reset_reg := Some 0x100000\<rparr>)"

section \<open>Initialisation\<close>

text \<open>The PCI part of \<open>platform_init\<close>; \<^term>\<open>None\<close> is the failed assertion on the base of
  the I/O range.\<close>

definition platform_init_pci :: "('d, 'c) platform pf_env \<Rightarrow> ('d, 'c) platform \<Rightarrow> ('d, 'c) platform option" where
  "platform_init_pci env s =
     (let info = pcie_state s in
      if ecam_len info > 0 then
        let s = kcall (pci_init_ecam (ecam_base info) (ecam_len info) (bus_start info) (bus_end info)) s
        in if pci_init_ecam_ok env then do {
             s \<leftarrow> (if io_len info > 0
                  then if io_base info = 0
                    then Some (kcall (pci_bus_mgr_add_resource PCI_RESOURCE_IO_RANGE (io_base info) (io_len info)) s)
                    else None
                  else Some s);
             let s = (if mmio_len info > 0
               then kcall (pci_bus_mgr_add_resource PCI_RESOURCE_MMIO_RANGE (mmio_base info) (mmio_len info)) s
               else s);
             let s = (if mmio64_len info > 0
               then kcall (pci_bus_mgr_add_resource PCI_RESOURCE_MMIO64_RANGE (mmio64_base info) (mmio64_len info)) s
               else s);
             let s = kcall pci_bus_mgr_init s;
             Some (kcall pci_bus_mgr_assign_resources s)
           }
           else Some s
      else Some s)"

definition platform_init_virtio :: "('d, 'c) platform pf_env \<Rightarrow> ('d, 'c) platform \<Rightarrow> ('d, 'c) platform" where
  "platform_init_virtio env s =
     (let virtio_irqs = map (\<lambda>i. IRQ_VIRTIO_BASE + i) [0..<NUM_VIRTIO_TRANSPORTS];
          s = kcall (virtio_mmio_detect VIRTIO_BASE_VIRT NUM_VIRTIO_TRANSPORTS virtio_irqs VIRTIO_STRIDE) s;
          s = virtio_attach env s
      in if virtio_net_found env > 0
         then kcall minip_start_dhcp (kcall virtio_net_start (kcall (minip_set_eth (virtio_net_mac env)) s))
         else s)"

definition platform_init ::
  "('d, 'c) uart_env \<Rightarrow> nat \<Rightarrow> ('d, 'c) platform pf_env \<Rightarrow> ('d, 'c) platform \<Rightarrow> ('d, 'c) platform option" where
  "platform_init uenv hart env s = do {
     let s = plic_init s;
     s \<leftarrow> uart_init uenv hart s;
     let s = goldfish_rtc_init s;
     s \<leftarrow> platform_init_pci env s;
     Some (platform_init_virtio env s)
   }"

section \<open>Halt\<close>

datatype platform_halt_action = HALT_ACTION_HALT | HALT_ACTION_REBOOT | HALT_ACTION_SHUTDOWN

text \<open>\<open>platform_halt\<close> does not return; the result is the state in which it goes idle.  A write
  through the pointer before \<open>platform_early_init\<close> has set it is undefined.\<close>

definition platform_halt :: "platform_halt_action \<Rightarrow> ('d, 'c) platform \<Rightarrow> ('d, 'c) platform option" where
  "platform_halt suggested_action s = do {
     s \<leftarrow> (case suggested_action of
            HALT_ACTION_SHUTDOWN \<Rightarrow> map_option (\<lambda>a. set_reg32 a 0x5555 s) (power_reset_reg s)
          | HALT_ACTION_REBOOT \<Rightarrow> map_option (\<lambda>a. set_reg32 a 0x7777 s) (power_reset_reg s)
          | HALT_ACTION_HALT \<Rightarrow> Some s);
     Some (kcall arch_disable_ints s)
   }"

section \<open>The handlers of the platform\<close>

definition run_handler ::
  "('d, 'c) uart_env \<Rightarrow> nat
     \<Rightarrow> (code_ptr \<Rightarrow> u64 \<Rightarrow> u32 \<Rightarrow> ('d, 'c) platform \<Rightarrow> (handler_return \<times> ('d, 'c) platform) option)
     \<Rightarrow> (nat \<Rightarrow> u64 \<Rightarrow> ('d, 'c) platform \<Rightarrow> (handler_return \<times> ('d, 'c) platform) option)
     \<Rightarrow> code_ptr \<Rightarrow> u64 \<Rightarrow> ('d, 'c) platform \<Rightarrow> (handler_return \<times> ('d, 'c) platform) option" where
  "run_handler uenv fuel call ext p arg s =
     (case p of uart_irq_handler_ptr \<Rightarrow> uart_irq_handler uenv fuel s
      | rtc_irq_ptr \<Rightarrow> rtc_irq call s
      | ext_ptr n \<Rightarrow> ext n arg s)"

section \<open>Boot\<close>

definition mem_nodes :: "fdt_node list \<Rightarrow> (u64 \<times> u64) list" where
  "mem_nodes = List.map_filter (\<lambda>n. case n of FdtMem b l \<Rightarrow> Some (b, l) | _ \<Rightarrow> None)"

definition cpu_nodes :: "fdt_node list \<Rightarrow> u64 list" where
  "cpu_nodes = List.map_filter (\<lambda>n. case n of FdtCpu i \<Rightarrow> Some i | _ \<Rightarrow> None)"

definition pcie_nodes :: "fdt_node list \<Rightarrow> fdt_walk_pcie_info list" where
  "pcie_nodes = List.map_filter (\<lambda>n. case n of FdtPcie i \<Rightarrow> Some i | _ \<Rightarrow> None)"

lemmas node_defs = mem_nodes_def cpu_nodes_def pcie_nodes_def List.map_filter_simps

lemma fdt_callbacks_spec:
  "fdt_callbacks ns (m, n, s) = (m \<or> mem_nodes ns \<noteq> [], n + int (length (cpu_nodes ns)),
     s\<lparr>pcie_state := last (pcie_state s # pcie_nodes ns),
       kcalls := kcalls s @ (if m then [] else
         case mem_nodes ns of [] \<Rightarrow> [] | (b, l) # _ \<Rightarrow> [novm_add_arena ''fdt'' b l])\<rparr>)"
proof (induction ns arbitrary: m n s)
  case Nil
  then show ?case by (simp add: node_defs)
next
  case (Cons nd ns)
  show ?case
    by (cases nd; cases m) (simp_all add: Cons.IH node_defs memcallback_def cpucallback_def pciecallback_def kcall_def)
qed

definition boot_arena :: "fdt_node list \<Rightarrow> kcall" where
  "boot_arena ns = (case mem_nodes ns of [] \<Rightarrow> novm_add_arena ''default'' MEMBASE MEMSIZE
     | (b, l) # _ \<Rightarrow> novm_add_arena ''fdt'' b l)"

lemma platform_early_init_eq:
  "platform_early_init hart env s = (plic_early_init hart s)\<lparr>
     pcie_state := last (pcie_state (plic_early_init hart s) # pcie_nodes (fdt_nodes env)),
     kcalls := kcalls (plic_early_init hart s) @ boot_arena (fdt_nodes env) #
       (if cpu_nodes (fdt_nodes env) = [] then []
        else [riscv_set_secondary_count (int (length (cpu_nodes (fdt_nodes env))) - 1)]),
     power_reset_reg := Some 0x100000\<rparr>"
  by (auto simp: platform_early_init_def fdt_callbacks_spec goldfish_rtc_init_def Let_def kcall_def
      boot_arena_def split: list.splits)

lemma set_reg32_platform [simp]:
  "uart_base (set_reg32 a v s) = uart_base s" "uart_rx_buf (set_reg32 a v s) = uart_rx_buf s"
  "system_boot_offset (set_reg32 a v s) = system_boot_offset s"
  "pcie_state (set_reg32 a v s) = pcie_state s" "kcalls (set_reg32 a v s) = kcalls s"
  "power_reset_reg (set_reg32 a v s) = power_reset_reg s"
  by (simp_all add: set_reg32_def)

lemma early_irqs_platform:
  "kcalls (fold (plic_early_init_irq hart) is s) = kcalls s"
  "system_boot_offset (fold (plic_early_init_irq hart) is s) = system_boot_offset s"
  "uart_base (fold (plic_early_init_irq hart) is s) = uart_base s"
  by (induction "is" arbitrary: s) (simp_all add: plic_early_init_irq_def Let_def)

text \<open>C32.  Early boot: \<open>platform_early_init\<close> gives the kernel exactly one memory arena, the
  first memory node of the device tree or else the default one, announces one secondary hart less
  than the tree has processors when it has any, leaves every interrupt of the boot hart masked and
  the offset of the clock and the handlers as they were.\<close>

theorem platform_early_init_boot:
  assumes "hart < SMP_MAX_CPUS" and s': "s' = platform_early_init hart env s"
  shows "kcalls s' = kcalls s @ boot_arena (fdt_nodes env) #
      (if cpu_nodes (fdt_nodes env) = [] then []
       else [riscv_set_secondary_count (int (length (cpu_nodes (fdt_nodes env))) - 1)]) \<and>
    enabled_irqs hart s' = {} \<and> handlers s' = handlers s \<and>
    system_boot_offset s' = system_boot_offset s \<and> power_reset_reg s' = Some 0x100000"
proof -
  have "enabled_irqs hart s' = enabled_irqs hart (plic_early_init hart s)" "handlers s' = handlers (plic_early_init hart s)"
    by (simp_all add: s' platform_early_init_eq enabled_irqs_def irq_enabled_def)
  then show ?thesis
    using enabled_irqs_early_init [OF assms(1), of hart s] handlers_early_init [of hart s]
    by (simp add: s' platform_early_init_eq) (simp add: plic_early_init_def early_irqs_platform)
qed

section \<open>Boot and serial input\<close>

lemma uart_init_ok:
  fixes s :: "('d, 'c, 'z) uart_scheme"
  assumes "plic_ok s" "cbuf_ok uenv contents cap"
  shows "\<exists>s'. uart_init uenv hart s = Some s' \<and> plic_ok s' \<and>
    handler_of s' IRQ_UART0 = Some \<lparr>ih_handler = Some uart_irq_handler_ptr, ih_arg = 0\<rparr> \<and>
    enabled_irqs hart s' = insert IRQ_UART0 (enabled_irqs hart s) \<and>
    uart_base s' = dev_write uenv 1 1 (uart_base s) \<and> contents (uart_rx_buf s') = []"
proof -
  let ?h = "\<lparr>ih_handler = Some uart_irq_handler_ptr, ih_arg = 0\<rparr>"
  define s0 where "s0 = s\<lparr>uart_rx_buf := cbuf_initialize_etc uenv RXBUF_SIZE\<rparr>"
  have v: "IRQ_UART0 \<in> {1..<NUM_IRQS}" by (simp add: IRQ_UART0_def NUM_IRQS_def)
  define s1 where "s1 = s0\<lparr>handlers := (handlers s0)[IRQ_UART0 := ?h],
    uart_base := dev_write uenv 1 1 (uart_base s)\<rparr>"
  have ok: "plic_ok s0" using assms(1) by (simp add: s0_def plic_ok_def)
  have run: "uart_init uenv hart s = Some (snd (unmask_interrupt hart IRQ_UART0 s1))"
    using register_int_handler_ok [OF ok, of IRQ_UART0 "Some uart_irq_handler_ptr" 0] v
    by (simp add: uart_init_def s0_def [symmetric] s1_def uart_write_8_def) (simp add: s0_def)
  have h: "handler_of s1 IRQ_UART0 = Some ?h" "plic_ok s1"
    using ok v by (auto simp: s1_def handler_of_def peek_def plic_ok_def)
  have en: "enabled_irqs hart s1 = enabled_irqs hart s"
    by (simp add: s1_def s0_def enabled_irqs_def irq_enabled_def)
  have buf: "contents (uart_rx_buf s1) = []" "uart_base s1 = dev_write uenv 1 1 (uart_base s)"
    using assms(2) by (simp_all add: s1_def s0_def cbuf_ok_def)
  show ?thesis
    using run h en buf plic.unmask_enabled [OF v, of hart s1]
    by (auto simp: unmask_interrupt_def Let_def set_reg32_def plic_ok_def handler_of_def)
qed

text \<open>What boot relies on in the drivers that \<open>virtio_mmio_detect\<close> attaches: they use the eight
  vectors they are given and leave the serial port alone.\<close>

definition virtio_ok :: "nat \<Rightarrow> ('d, 'c) platform pf_env \<Rightarrow> bool" where
  "virtio_ok hart env = (\<forall>s. plic_ok s \<longrightarrow> (let s' = virtio_attach env s in
     plic_ok s' \<and> handler_of s' IRQ_UART0 = handler_of s IRQ_UART0 \<and>
     enabled_irqs hart s \<subseteq> enabled_irqs hart s' \<and>
     enabled_irqs hart s' \<subseteq> enabled_irqs hart s \<union> {IRQ_VIRTIO_BASE..<IRQ_VIRTIO_BASE + NUM_VIRTIO_TRANSPORTS} \<and>
     uart_base s' = uart_base s \<and> uart_rx_buf s' = uart_rx_buf s))"

definition same_devices :: "nat \<Rightarrow> ('d, 'c) platform \<Rightarrow> ('d, 'c) platform \<Rightarrow> bool" where
  "same_devices hart s s' = (handlers s' = handlers s \<and> reg32 s' = reg32 s \<and>
     uart_base s' = uart_base s \<and> uart_rx_buf s' = uart_rx_buf s)"

lemma same_devicesD:
  assumes "same_devices hart s s'"
  shows "plic_ok s' = plic_ok s" "handler_of s' = handler_of s" "enabled_irqs hart s' = enabled_irqs hart s"
    "uart_base s' = uart_base s" "uart_rx_buf s' = uart_rx_buf s"
  using assms by (auto simp: same_devices_def plic_ok_def handler_of_def enabled_irqs_def irq_enabled_def)

lemma kcall_same: "same_devices hart s t \<Longrightarrow> same_devices hart s (kcall k t)"
  by (simp add: same_devices_def kcall_def)

lemma same_devices_refl: "same_devices hart s s"
  by (simp add: same_devices_def)

lemma platform_init_pci_same: "platform_init_pci env s = Some s' \<Longrightarrow> same_devices hart s s'"
  by (auto simp: platform_init_pci_def Let_def intro!: kcall_same same_devices_refl split: if_splits)

lemma platform_init_virtio_ok:
  assumes "virtio_ok hart env" "plic_ok s" "s' = platform_init_virtio env s"
  shows "plic_ok s'" "handler_of s' IRQ_UART0 = handler_of s IRQ_UART0"
    "enabled_irqs hart s \<subseteq> enabled_irqs hart s'"
    "enabled_irqs hart s' \<subseteq> enabled_irqs hart s \<union> {IRQ_VIRTIO_BASE..<IRQ_VIRTIO_BASE + NUM_VIRTIO_TRANSPORTS}"
    "uart_base s' = uart_base s" "uart_rx_buf s' = uart_rx_buf s"
proof -
  let ?t = "kcall (virtio_mmio_detect VIRTIO_BASE_VIRT NUM_VIRTIO_TRANSPORTS
      (map (\<lambda>i. IRQ_VIRTIO_BASE + i) [0..<NUM_VIRTIO_TRANSPORTS]) VIRTIO_STRIDE) s"
  have 1: "same_devices hart s ?t" by (intro kcall_same same_devices_refl)
  have 2: "same_devices hart (virtio_attach env ?t) s'"
    unfolding assms(3) platform_init_virtio_def Let_def
    by (auto intro: kcall_same same_devices_refl)
  have "plic_ok ?t" using same_devicesD(1) [OF 1] assms(2) by simp
  then show "plic_ok s'" "handler_of s' IRQ_UART0 = handler_of s IRQ_UART0"
    "enabled_irqs hart s \<subseteq> enabled_irqs hart s'"
    "enabled_irqs hart s' \<subseteq> enabled_irqs hart s \<union> {IRQ_VIRTIO_BASE..<IRQ_VIRTIO_BASE + NUM_VIRTIO_TRANSPORTS}"
    "uart_base s' = uart_base s" "uart_rx_buf s' = uart_rx_buf s"
    using assms(1) unfolding virtio_ok_def Let_def
    by (simp_all only: same_devicesD [OF 1] same_devicesD [OF 2]) (metis same_devicesD [OF 1])+
qed

text \<open>C28.  From boot to input: after \<open>platform_early_init\<close> and \<open>platform_init\<close> the serial
  interrupt is enabled on the boot hart and no vector outside those of the serial port and of the
  eight virtio transports is, in particular not that of the clock; and the next serial interrupt
  leaves the bytes that the device holds in the receive buffer, up to its capacity.\<close>

theorem platform_boot_serial:
  assumes "plic_ok s" "hart < SMP_MAX_CPUS" "virtio_ok hart env"
    and "uart_rx_ok uenv pending" "cbuf_ok uenv contents cap"
    and boot: "platform_init uenv hart env (platform_early_init hart env s) = Some s1"
    and "length (pending (dev_write uenv 1 1 (uart_base s))) < fuel"
  shows "uart_base s1 = dev_write uenv 1 1 (uart_base s) \<and> IRQ_UART0 \<in> enabled_irqs hart s1 \<and> IRQ_RTC \<notin> enabled_irqs hart s1 \<and>
    enabled_irqs hart s1 \<subseteq> {1..8} \<union> {IRQ_UART0} \<and>
    (\<exists>r s2. riscv_platform_irq hart (run_handler uenv fuel call ext) (of_nat IRQ_UART0) s1 = Some (r, s2) \<and>
       contents (uart_rx_buf s2) = take cap (pending (uart_base s1)))"
proof -
  define s0 where "s0 = platform_early_init hart env s"
  have en0: "enabled_irqs hart s0 = {}" and ok0: "plic_ok s0"
    using enabled_irqs_early_init [OF assms(2), of hart s] handlers_early_init [of hart s] assms(1)
    by (simp_all add: s0_def platform_early_init_eq enabled_irqs_def irq_enabled_def plic_ok_def)
  have base0: "uart_base s0 = uart_base s"
    by (simp add: s0_def platform_early_init_eq) (simp add: plic_early_init_def early_irqs_platform)
  obtain u where u: "uart_init uenv hart s0 = Some u" "plic_ok u"
    "handler_of u IRQ_UART0 = Some \<lparr>ih_handler = Some uart_irq_handler_ptr, ih_arg = 0\<rparr>"
    "enabled_irqs hart u = {IRQ_UART0}" "contents (uart_rx_buf u) = []"
    "uart_base u = dev_write uenv 1 1 (uart_base s)"
    using uart_init_ok [OF ok0 assms(5), of hart] en0 base0 by auto
  obtain p where p: "platform_init_pci env u = Some p" and s1: "s1 = platform_init_virtio env p"
    using boot u(1) by (auto simp: platform_init_def plic_init_def goldfish_rtc_init_def s0_def bind_Some_iff)
  note same = same_devicesD [OF platform_init_pci_same [OF p]]
  have okp: "plic_ok p" using same(1) u(2) by simp
  note vo = platform_init_virtio_ok [OF assms(3) okp s1]
  have h: "handler_of s1 IRQ_UART0 = Some \<lparr>ih_handler = Some uart_irq_handler_ptr, ih_arg = 0\<rparr>"
    using vo(2) same(2) u(3) by simp
  have en: "IRQ_UART0 \<in> enabled_irqs hart s1" "enabled_irqs hart s1 \<subseteq> {1..8} \<union> {IRQ_UART0}"
    using vo(3,4) same(3) [of hart] u(4) by (auto simp: IRQ_VIRTIO_BASE_def NUM_VIRTIO_TRANSPORTS_def)
  have buf: "contents (uart_rx_buf s1) = []" using vo(6) same(5) u(5) by simp
  have base: "uart_base s1 = dev_write uenv 1 1 (uart_base s)" using vo(5) same(4) u(6) by simp
  obtain r s2 where "uart_irq_handler uenv fuel s1 = Some (r, s2)"
    "contents (uart_rx_buf s2) = take cap (pending (uart_base s1))"
    using uart_rx_loop_ok [OF assms(4,5), of s1 fuel False] assms(7) buf base by (auto simp: uart_irq_handler_def)
  then have "riscv_platform_irq hart (run_handler uenv fuel call ext) (of_nat IRQ_UART0) s1 =
      Some (r, set_reg32 (PLIC_COMPLETE hart) (of_nat IRQ_UART0) s2)"
    using riscv_platform_irq_handler [OF h, of hart "run_handler uenv fuel call ext"]
    by (simp add: run_handler_def IRQ_UART0_def NUM_IRQS_def)
  moreover have "IRQ_RTC \<notin> enabled_irqs hart s1" using en(2) by (auto simp: IRQ_RTC_def IRQ_UART0_def)
  ultimately show ?thesis
    using en base \<open>contents (uart_rx_buf s2) = _\<close> by auto
qed

definition no_pcie :: fdt_walk_pcie_info where
  "no_pcie = \<lparr>ecam_base = 0, ecam_len = 0, bus_start = 0, bus_end = 0, io_base = 0, io_len = 0,
     mmio_base = 0, mmio_len = 0, mmio64_base = 0, mmio64_len = 0\<rparr>"

definition sample_platform :: "(u8 list \<times> u8 list, u8 list) platform" where
  "sample_platform = uart.extend sample_uart \<lparr>pcie_state = no_pcie, power_reset_reg = None, kcalls = []\<rparr>"

definition sample_env :: "(u8 list \<times> u8 list, u8 list) platform pf_env" where
  "sample_env = \<lparr>fdt_nodes = [FdtCpu 0, FdtMem 0x80000000 0x8000000, FdtCpu 1, FdtMem 0 1], fdt_err = 0,
     pci_init_ecam_ok = False, virtio_attach = (\<lambda>s. s), virtio_net_found = 0, virtio_net_mac = []\<rparr>"

theorem platform_early_init_boot_witness:
  "kcalls (platform_early_init 0 sample_env sample_platform) =
     [novm_add_arena ''fdt'' 0x80000000 0x8000000, riscv_set_secondary_count 1] \<and>
   enabled_irqs 0 (platform_early_init 0 sample_env sample_platform) = {}"
  using platform_early_init_boot [OF _ refl, of 0 sample_env sample_platform]
  by (simp add: SMP_MAX_CPUS_def sample_env_def sample_platform_def uart.defs boot_arena_def node_defs)

lemma sample_plic_ok: "plic_ok sample_platform"
  by (simp add: plic_ok_def sample_platform_def sample_uart_def sample_rtc_def uart.defs rtc.defs)

lemma sample_boots: "\<exists>s1. platform_init list_env 0 sample_env (platform_early_init 0 sample_env sample_platform) = Some s1"
proof -
  have "plic_ok (platform_early_init 0 sample_env sample_platform)"
    using sample_plic_ok by (simp add: platform_early_init_eq plic_ok_def handlers_early_init)
  then obtain u where "uart_init list_env 0 (platform_early_init 0 sample_env sample_platform) = Some u"
    using uart_init_ok [OF _ list_env_cbuf] by blast
  then show ?thesis
    by (simp add: platform_init_def plic_init_def goldfish_rtc_init_def platform_init_pci_def sample_env_def Let_def)
qed

theorem platform_boot_serial_witness:
  "\<exists>s1 r s2. platform_init list_env 0 sample_env (platform_early_init 0 sample_env sample_platform) = Some s1 \<and>
     IRQ_UART0 \<in> enabled_irqs 0 s1 \<and>
     riscv_platform_irq 0 (run_handler list_env 3 (\<lambda>_ _ _ _. None) (\<lambda>_ _ _. None)) (of_nat IRQ_UART0) s1 = Some (r, s2) \<and>
     uart_rx_buf s2 = [0x68, 0x69]"
proof -
  have v: "virtio_ok 0 sample_env" by (auto simp: virtio_ok_def sample_env_def)
  have d: "dev_write list_env 1 1 (uart_base sample_platform) = ([0x68, 0x69], [])"
    by (simp add: sample_platform_def sample_uart_def uart.defs rtc.defs list_env_def)
  obtain s1 where s1: "platform_init list_env 0 sample_env (platform_early_init 0 sample_env sample_platform) = Some s1"
    using sample_boots by blast
  show ?thesis
    using platform_boot_serial [OF sample_plic_ok _ v list_env_rx list_env_cbuf s1,
        of 3 "\<lambda>_ _ _ _. None" "\<lambda>_ _ _. None"] s1 d
    by (auto simp: SMP_MAX_CPUS_def)
qed

end
