(* ===== verification/Datetime.thy ===== *)
theory Datetime
  imports Rtc
begin

unbundle bit_operations_syntax

text \<open>
  The calendar library, \<open>datetime.c\<close>: conversion of Unix time to a date and the day of the
  week.  The conversion is proved against the Gregorian calendar, given by its rules for leap years
  and month lengths and by stepping from one day to the next (\<open>calendar\<close>); the arithmetic of the
  code is at its widths, and the theorems say up to which date nothing wraps.
\<close>

section \<open>The code\<close>

record DateTime =
  year :: u16
  month :: u8
  day :: u8
  dayOfWeek :: u8
  hours :: u8
  minutes :: u8
  seconds :: u8
  milliseconds :: u16

definition computeDayOfWeek :: "u16 \<Rightarrow> u8 \<Rightarrow> u8 \<Rightarrow> u8" where
  "computeDayOfWeek y m d =
     (let (m, y) = (if m \<le> 2 then (m + 12, y - 1) else (m, y));
          j = ucast (y div 100) :: u8;
          k = ucast (y mod 100) :: u8;
          h = of_nat (unat d + (26 * (unat m + 1)) div 10 + unat k + unat k div 4 + 5 * unat j
                + unat j div 4) :: u8
      in of_nat ((unat h + 5) mod 7 + 1))"

text \<open>The part of \<open>convertUnixTimeToDate\<close> that turns a day number into year, month and day.\<close>

definition convertDays :: "u64 \<Rightarrow> u32 \<times> u32 \<times> u32" where
  "convertDays t =
     (let a = ucast ((4 * t + 102032) div 146097 + 15) :: u32;
          b = ucast (t + 2442113 + ucast a - ucast (a div 4)) :: u32;
          c = (20 * b - 2442) div 7305;
          d = b - 365 * c - (c div 4);
          e = d * 1000 div 30601;
          f = d - e * 30 - e * 601 div 1000
      in if e \<le> 13 then (c - 4716, e - 1, f) else (c - 4715, e - 13, f))"

definition convertUnixTimeToDate :: "u64 \<Rightarrow> DateTime" where
  "convertUnixTimeToDate t =
     (let t = (if t < 1 then 0 else t);
          sec = t mod 60; t = t div 60;
          minute = t mod 60; t = t div 60;
          hour = t mod 24; t = t div 24;
          (c, e, f) = convertDays t
      in \<lparr>year = ucast c, month = ucast e, day = ucast f,
          dayOfWeek = computeDayOfWeek (ucast c) (ucast e) (ucast f),
          hours = ucast hour, minutes = ucast minute, seconds = ucast sec, milliseconds = 0\<rparr>)"

definition getCurrentDate :: "'z rtc_scheme \<Rightarrow> DateTime" where
  "getCurrentDate s = convertUnixTimeToDate (ucast (rtc_current_time s))"

section \<open>The calendar\<close>

definition leap_year :: "nat \<Rightarrow> bool" where
  "leap_year y \<longleftrightarrow> (4 dvd y \<and> \<not> 100 dvd y) \<or> 400 dvd y"

definition month_days :: "nat \<Rightarrow> nat \<Rightarrow> nat" where
  "month_days y m = (if m = 2 then if leap_year y then 29 else 28
     else if m \<in> {4, 6, 9, 11} then 30 else 31)"

fun next_day :: "nat \<times> nat \<times> nat \<Rightarrow> nat \<times> nat \<times> nat" where
  "next_day (y, m, d) = (if d < month_days y m then (y, m, d + 1)
     else if m < 12 then (y, m + 1, 1) else (y + 1, 1, 1))"

definition calendar :: "nat \<Rightarrow> nat \<times> nat \<times> nat" where
  "calendar n = (next_day ^^ n) (1970, 1, 1)"

definition valid_date :: "nat \<times> nat \<times> nat \<Rightarrow> bool" where
  "valid_date = (\<lambda>(y, m, d). 1970 \<le> y \<and> 1 \<le> m \<and> m \<le> 12 \<and> 1 \<le> d \<and> d \<le> month_days y m)"

text \<open>March-based day count: years start in March, so the leap day is the last of its year.\<close>

definition march :: "nat \<times> nat \<times> nat \<Rightarrow> nat \<times> nat \<times> nat" where
  "march = (\<lambda>(y, m, d). if m \<le> 2 then (y - 1, m + 12, d) else (y, m, d))"

definition daynum :: "nat \<times> nat \<times> nat \<Rightarrow> int" where
  "daynum = (\<lambda>(y, m, d). int (365 * y + y div 4 + y div 400 + (153 * (m - 3) + 2) div 5 + d)
     - int (y div 100) - 719469)"

lemma next_day_valid: "valid_date x \<Longrightarrow> valid_date (next_day x)"
  by (cases x) (auto simp: valid_date_def month_days_def)

lemma calendar_valid: "valid_date (calendar n)"
proof (induction n)
  case 0
  show ?case by (simp add: calendar_def valid_date_def month_days_def)
next
  case (Suc n)
  then show ?case using next_day_valid by (simp add: calendar_def)
qed

lemma leap_next:
  "Suc y div 4 + Suc y div 400 + y div 100 =
   y div 4 + y div 400 + Suc y div 100 + (if leap_year (Suc y) then 1 else 0)"
proof -
  have "400 dvd Suc y \<Longrightarrow> 100 dvd Suc y" "100 dvd Suc y \<Longrightarrow> 4 dvd Suc y"
    by (auto elim: dvd_trans [rotated])
  moreover have "Suc y div k = y div k + (if k dvd Suc y then 1 else 0)" for k
    by (simp add: div_Suc dvd_eq_mod_eq_0)
  ultimately show ?thesis unfolding leap_year_def by (simp only:) auto
qed

lemma month_cases:
  assumes "1 \<le> m" "m \<le> (12 :: nat)"
  shows "m \<in> {1, 2, 3, 4, 5, 6, 7, 8, 9, 10, 11, 12}"
  using assms by auto arith

lemma daynum_same_year: "daynum (y, m', d') = daynum (y, m, d) + 1"
  if "(153 * (m' - 3) + 2) div 5 + d' = (153 * (m - 3) + 2) div 5 + d + 1"
  using that by (simp add: daynum_def)

lemma daynum_leap: "daynum (Suc z, 3, 1) = daynum (z, 14, if leap_year (Suc z) then 29 else 28) + 1"
proof -
  define a b c a' b' c' where "a = Suc z div 4" "b = Suc z div 400" "c = Suc z div 100"
    "a' = z div 4" "b' = z div 400" "c' = z div 100"
  then show ?thesis using leap_next [of z] unfolding daynum_def prod.case a_b_c_a'_b'_c'_def [symmetric]
    by (cases "leap_year (Suc z)") simp_all
qed

lemma daynum_next:
  assumes "valid_date x"
  shows "daynum (march (next_day x)) = daynum (march x) + 1"
proof -
  obtain y m d where x: "x = (y, m, d)" by (cases x)
  obtain z where y: "y = Suc z" using assms x by (cases y) (auto simp: valid_date_def)
  have md: "d \<le> month_days y m" and m: "1 \<le> m" "m \<le> 12" using assms x by (auto simp: valid_date_def)
  show ?thesis
  proof (cases "d < month_days y m")
    case True
    then show ?thesis by (simp add: x march_def daynum_same_year)
  next
    case False
    then have d: "d = month_days y m" using md by simp
    show ?thesis
    proof (cases "m = 2")
      case True
      then show ?thesis using d daynum_leap [of z] by (simp add: x y march_def month_days_def)
    next
      case False
      then have "m \<in> {1, 3, 4, 5, 6, 7, 8, 9, 10, 11, 12}" using month_cases [OF m] by simp
      then show ?thesis using d by (elim insertE emptyE) (simp_all add: x march_def month_days_def daynum_same_year)
    qed
  qed
qed

lemma daynum_calendar: "daynum (march (calendar n)) = int n"
proof (induction n)
  case 0
  show ?case by (simp add: calendar_def daynum_def march_def)
next
  case (Suc n)
  have "calendar (Suc n) = next_day (calendar n)" by (simp add: calendar_def)
  then show ?case using daynum_next [OF calendar_valid [of n]] Suc by simp
qed

section \<open>The conversion on natural numbers\<close>

definition convert_days :: "nat \<Rightarrow> nat \<times> nat \<times> nat" where
  "convert_days t =
     (let a = (4 * t + 102032) div 146097 + 15;
          b = t + 2442113 + a - a div 4;
          c = (20 * b - 2442) div 7305;
          d = b - 365 * c - c div 4;
          e = d * 1000 div 30601;
          f = d - e * 30 - e * 601 div 1000
      in if e \<le> 13 then (c - 4716, e - 1, f) else (c - 4715, e - 13, f))"

lemma div_eqI: "k * n \<le> m \<Longrightarrow> m < k * n + k \<Longrightarrow> m div k = (n :: nat)"
  by (rule div_nat_eqI) (simp_all add: mult.commute)

text \<open>\<open>p\<close> is the number of days from the first of March to the first of month \<open>m\<close>.\<close>

lemma month_of_day:
  assumes "m \<in> {3, 4, 5, 6, 7, 8, 9, 10, 11, 12, 13, 14 :: nat}" "1 \<le> d"
    "d \<le> (if m = 14 then 29 else if m \<in> {4, 6, 9, 11} then 30 else 31)"
  shows "((153 * (m - 3) + 2) div 5 + d + 122) * 1000 div 30601 = m + 1 \<and>
    (153 * (m - 3) + 2) div 5 + d + 122 - (m + 1) * 30 - (m + 1) * 601 div 1000 = d"
  using assms by (auto intro!: div_eqI)

lemma year_of_day:
  assumes "1 \<le> x" "x \<le> (if c mod 4 = 3 then 366 else 365)"
  shows "(20 * (365 * c + c div 4 + x + 122) - 2442) div 7305 = (c :: nat)"
proof (rule div_eqI)
  define k r where "k = c div 4" and "r = c mod 4"
  have "c = 4 * k + r" by (simp add: k_def r_def)
  then have c: "5 * c = 20 * k + 5 * r" "r \<le> 3" by (simp_all add: r_def less_Suc_eq_le [symmetric])
  have x: "1 \<le> x" "20 * x \<le> 7306 + 5 * r"
    using assms by (auto simp: r_def [symmetric] split: if_splits)
  have b: "20 * (365 * c + c div 4 + x + 122) = 7300 * c + 20 * k + 20 * x + 2440"
    by (simp add: k_def)
  show "7305 * c \<le> 20 * (365 * c + c div 4 + x + 122) - 2442"
    unfolding b using c x by linarith
  show "20 * (365 * c + c div 4 + x + 122) - 2442 < 7305 * c + 7305"
    unfolding b using c x by linarith
qed

lemma leap_century:
  assumes "y = 100 * q + (99 :: nat)"
  shows "leap_year (Suc y) \<longleftrightarrow> q mod 4 = 3"
proof -
  have "Suc y = 100 * Suc q" using assms by simp
  moreover have "400 dvd 100 * Suc q \<longleftrightarrow> 4 dvd Suc q"
    using nat_mult_dvd_cancel1 [of 100 4 "Suc q"] by simp
  moreover have "4 dvd Suc q \<longleftrightarrow> q mod 4 = 3" by presburger
  ultimately show ?thesis by (auto simp: leap_year_def)
qed

lemma century_of_day:
  assumes n: "n + 719469 + q = 365 * y + y div 4 + q div 4 + x" and q: "q = y div 100" "19 \<le> q"
    and x: "1 \<le> x" "x \<le> (if leap_year (Suc y) then 366 else 365)"
  shows "(4 * n + 102032) div 146097 = q - 19"
proof (rule div_eqI)
  define r where "r = y mod 100"
  have y: "y = 100 * q + r" "r < 100" by (simp_all add: q r_def)
  define j u v w where "j = q div 4" and "u = q mod 4" and "v = r div 4" and "w = r mod 4"
  have j: "q = 4 * j + u" "u \<le> 3" "r = 4 * v + w" "w \<le> 3"
    by (simp_all add: j_def u_def v_def w_def less_Suc_eq_le [symmetric])
  have "y div 4 = 25 * q + v"
    using y by (simp add: v_def)
  then have n': "4 * n + 2877876 = 146096 * q + 1460 * r + 4 * v + 4 * j + 4 * x"
    using n y(1) by (simp add: j_def)
  have up: "1460 * r + 4 * v + 4 * x \<le> 146097 + u"
  proof (cases "r = 99")
    case True
    then have "v = 24" "4 * x \<le> 1461 + u"
      using x leap_century [of y q] y by (auto simp: u_def v_def split: if_splits)
    then show ?thesis using True by simp
  next
    case False
    then have "x \<le> 366" "r \<le> 98" using x y(2) by (auto split: if_splits)
    then show ?thesis using j by linarith
  qed
  obtain p where p: "q = p + 19" using q(2) le_Suc_ex by (metis add.commute)
  show "146097 * (q - 19) \<le> 4 * n + 102032"
    using n' j x(1) p by linarith
  show "4 * n + 102032 < 146097 * (q - 19) + 146097"
    using n' j up p by linarith
qed

text \<open>Every date has the number of its year, counted from March, and the day in that year, from 1 to
  366.\<close>

lemma march_date:
  assumes "valid_date (y, m, d)" "march (y, m, d) = (z, k, d)" "x = (153 * (k - 3) + 2) div 5 + d"
  shows "k \<in> {3, 4, 5, 6, 7, 8, 9, 10, 11, 12, 13, 14}" "1969 \<le> z"
    "d \<le> (if k = 14 then 29 else if k \<in> {4, 6, 9, 11} then 30 else 31)"
    "1 \<le> x" "x \<le> (if leap_year (Suc z) then 366 else 365)"
    "(y, m) = (if k \<le> 12 then (z, k) else (z + 1, k - 12))"
proof -
  have m: "m \<in> {1, 2, 3, 4, 5, 6, 7, 8, 9, 10, 11, 12}" "1970 \<le> y" "1 \<le> d" "d \<le> month_days y m"
    using assms(1) month_cases by (auto simp: valid_date_def)
  have zk: "z = (if m \<le> 2 then y - 1 else y)" "k = (if m \<le> 2 then m + 12 else m)"
    using assms(2) by (auto simp: march_def split: if_splits)
  have y: "m \<le> 2 \<Longrightarrow> y = Suc z" using zk m(2) by simp
  show "k \<in> {3, 4, 5, 6, 7, 8, 9, 10, 11, 12, 13, 14}" "1969 \<le> z" using zk m(1,2) by auto
  show "d \<le> (if k = 14 then 29 else if k \<in> {4, 6, 9, 11} then 30 else 31)"
    using zk m by (auto simp: month_days_def split: if_splits)
  show "1 \<le> x" using m(3) assms(3) by simp
  show "x \<le> (if leap_year (Suc z) then 366 else 365)"
    using zk m(1,4) y assms(3) by (auto simp: month_days_def split: if_splits)
  show "(y, m) = (if k \<le> 12 then (z, k) else (z + 1, k - 12))"
    using zk m(1,2) by auto
qed

lemma day_of_march_year:
  "a4 + 1 = q4 \<Longrightarrow> n + 719469 + q = 365 * z + z4 + q4 + x \<Longrightarrow> a = q - 4 \<Longrightarrow> 19 \<le> q \<Longrightarrow>
   c4 = z4 + 1179 \<Longrightarrow> c = z + 4716 \<Longrightarrow> n + 2442113 + a - a4 = 365 * c + c4 + (x + 122 :: nat)"
  by linarith

text \<open>The intermediate values of the conversion of the day number of a date: the century, the year
  from March and its first day, the day in that year and the month.\<close>

lemma diff_diff_eq_pos: "a - b - c = d \<Longrightarrow> 1 \<le> d \<Longrightarrow> a = b + c + (d :: nat)"
  by linarith

lemma conversion_steps:
  assumes "valid_date (y, m, d)" "daynum (march (y, m, d)) = int n"
  shows "\<exists>c x e. n + 2442113 + ((4 * n + 102032) div 146097 + 15) - ((4 * n + 102032) div 146097 + 15) div 4
        = 365 * c + c div 4 + x \<and>
    (20 * (365 * c + c div 4 + x) - 2442) div 7305 = c \<and> x * 1000 div 30601 = e \<and>
    x = e * 30 + e * 601 div 1000 + d \<and> 123 \<le> x \<and> x \<le> 488 \<and> 4 \<le> e \<and> 6685 \<le> c \<and>
    365 * c \<le> n + 2440809 \<and> (y, m) = (if e \<le> 13 then (c - 4716, e - 1) else (c - 4715, e - 13))"
proof -
  obtain z k where zk: "march (y, m, d) = (z, k, d)" by (cases "m \<le> 2") (auto simp: march_def)
  define p where "p = (153 * (k - 3) + 2) div 5"
  define x where "x = p + d"
  define q where "q = z div 100"
  note md = march_date [OF assms(1) zk x_def [unfolded p_def]]
  have dn: "n + 719469 + q = 365 * z + z div 4 + q div 4 + x"
    using assms(2) by (simp add: zk daynum_def q_def x_def p_def div_mult2_eq [symmetric])
  have q: "19 \<le> q" using md(2) by (simp add: q_def div_le_mono [of 1969 z 100, simplified])
  define a where "a = (4 * n + 102032) div 146097 + 15"
  have a: "a = q - 4" using century_of_day [OF dn q_def q md(4,5)] q by (simp add: a_def)
  define c where "c = z + 4716"
  have c4: "c div 4 = z div 4 + 1179" "c mod 4 = z mod 4"
    using div_mult_self1 [of 4 z 1179] mod_mult_self1 [of z 1179 4] by (simp_all add: c_def)
  have "q = a + 4" using a q by simp
  then have "a div 4 + 1 = q div 4" by simp
  then have b: "n + 2442113 + a - a div 4 = 365 * c + c div 4 + (x + 122)"
    using dn a q c4(1) c_def by (rule day_of_march_year)
  have "4 dvd Suc z \<Longrightarrow> z mod 4 = 3" by presburger
  then have "leap_year (Suc z) \<Longrightarrow> z mod 4 = 3" unfolding leap_year_def by (auto elim: dvd_trans [rotated])
  then have x: "x \<le> (if c mod 4 = 3 then 366 else 365)" using md(5) c4 by (auto split: if_splits)
  then have x': "x \<le> 366" by (auto split: if_splits)
  have c: "(20 * (365 * c + c div 4 + (x + 122)) - 2442) div 7305 = c"
    using year_of_day [OF md(4) x] by (simp add: add.assoc)
  have "1 \<le> d" using assms(1) by (simp add: valid_date_def)
  note e = month_of_day [OF md(1) this md(3)]
  have e1: "(x + 122) * 1000 div 30601 = k + 1" using e by (simp add: x_def p_def)
  have e2: "x + 122 = (k + 1) * 30 + (k + 1) * 601 div 1000 + d"
    unfolding x_def p_def using e \<open>1 \<le> d\<close> by (blast intro: diff_diff_eq_pos)
  have "q \<le> z div 4" unfolding q_def by (rule div_le_mono2) auto
  then have "365 * c \<le> n + 2440809" using dn by (simp add: c_def)
  moreover have "(y, m) = (if k + 1 \<le> 13 then (c - 4716, k + 1 - 1) else (c - 4715, k + 1 - 13))"
    using md(6) by (auto simp: c_def)
  moreover have "4 \<le> k + 1" "6685 \<le> c" "123 \<le> x + 122" "x + 122 \<le> 488"
    using md(1,2,4) x' by (auto simp: c_def)
  ultimately show ?thesis
    unfolding a_def [symmetric] using b c e1 e2
    by (intro exI [of _ c] exI [of _ "x + 122"] exI [of _ "k + 1"] conjI)
qed

lemma convert_days_daynum:
  assumes "valid_date (y, m, d)" "daynum (march (y, m, d)) = int n"
  shows "convert_days n = (y, m, d)"
proof -
  obtain c x e where b: "n + 2442113 + ((4 * n + 102032) div 146097 + 15) - ((4 * n + 102032) div 146097 + 15) div 4
        = 365 * c + c div 4 + x"
    and c: "(20 * (365 * c + c div 4 + x) - 2442) div 7305 = c" and e: "x * 1000 div 30601 = e"
    and f: "x = e * 30 + e * 601 div 1000 + d"
    and ym: "(y, m) = (if e \<le> 13 then (c - 4716, e - 1) else (c - 4715, e - 13))"
    using conversion_steps [OF assms] by blast
  have d: "365 * c + c div 4 + x - 365 * c - c div 4 = x" by simp
  have "x - e * 30 - e * 601 div 1000 = d" using f by simp
  then show ?thesis using ym unfolding convert_days_def Let_def b c d e by (auto split: if_splits)
qed

lemma convert_days_calendar: "convert_days n = calendar n"
  using convert_days_daynum [of "fst (calendar n)" "fst (snd (calendar n))" "snd (snd (calendar n))" n]
    calendar_valid [of n] daynum_calendar [of n] by simp

section \<open>The conversion on words\<close>

lemma word_of_nat_div:
  assumes "x < 2 ^ LENGTH('a)" "y < 2 ^ LENGTH('a)"
  shows "(of_nat x :: 'a::len word) div of_nat y = of_nat (x div y)"
proof -
  have "x div y < 2 ^ LENGTH('a)" using assms(1) by (rule order.strict_trans1 [OF div_le_dividend])
  then show ?thesis using assms by (simp add: word_unat_eq_iff unat_div unat_of_nat)
qed

lemma word_of_nat_mod:
  assumes "x < 2 ^ LENGTH('a)" "y < 2 ^ LENGTH('a)"
  shows "(of_nat x :: 'a::len word) mod of_nat y = of_nat (x mod y)"
proof -
  have "x mod y < 2 ^ LENGTH('a)" using assms(1) by (rule order.strict_trans1 [OF mod_less_eq_dividend])
  then show ?thesis using assms by (simp add: word_unat_eq_iff unat_mod unat_of_nat)
qed

lemma ucast_of_nat_down:
  assumes "x < 2 ^ LENGTH('a)"
  shows "(ucast (of_nat x :: 'a::len word) :: 'b::len word) = of_nat x"
proof -
  have "unat (of_nat x :: 'a word) = x" using assms by (simp add: unat_of_nat)
  then show ?thesis by (metis of_nat_unat)
qed

text \<open>No operation of the word version wraps, so it computes the same intermediate values.\<close>

lemma convertDays_words:
  assumes n: "n < 23200000" and a_def: "a = (4 * n + 102032) div 146097 + 15"
    and b: "n + 2442113 + a - a div 4 = 365 * c + c div 4 + x"
    and c: "(20 * (365 * c + c div 4 + x) - 2442) div 7305 = c" and e: "x * 1000 div 30601 = e"
    and f: "x = e * 30 + e * 601 div 1000 + d" and bounds: "123 \<le> x" "x \<le> 488" "4 \<le> e" "6685 \<le> c"
      "365 * c \<le> n + 2440809"
  shows "convertDays (of_nat n) = (if e \<le> 13 then (of_nat c - 4716, of_nat e - 1, of_nat d)
    else (of_nat c - 4715, of_nat e - 13, of_nat d))"
proof -
  define b' where "b' = 365 * c + c div 4 + x"
  have "c div 4 \<le> c" by simp
  then have b'_less: "b' < 200000000" and c_less: "c < 100000"
    using bounds n unfolding b'_def by linarith+
  have "(4 * n + 102032) div 146097 \<le> 4 * n + 102032" by simp
  then have a_less: "a < 100000000" using n unfolding a_def by linarith
  have e_less: "e < 20" using f bounds(2) by linarith
  have wa: "(4 * of_nat n + 102032) div 146097 + 15 = (of_nat a :: u64)"
    using word_of_nat_div [of "4 * n + 102032" 146097, where ?'a = 64] n by (simp add: a_def)
  have wa2: "ucast (of_nat a :: u64) = (of_nat a :: u32)" "ucast (of_nat a :: u32) = (of_nat a :: u64)"
    "(of_nat a :: u32) div 4 = of_nat (a div 4)" "ucast (of_nat (a div 4) :: u32) = (of_nat (a div 4) :: u64)"
    using a_less word_of_nat_div [of a 4, where ?'a = 32] div_le_dividend [of a 4]
    by (simp_all add: ucast_of_nat_down)
  have "of_nat n + 2442113 + of_nat a - of_nat (a div 4) = (of_nat (n + 2442113 + a - a div 4) :: u64)"
    using div_le_dividend [of a 4] by (simp add: of_nat_diff)
  then have wb: "ucast (of_nat n + 2442113 + of_nat a - of_nat (a div 4) :: u64) = (of_nat b' :: u32)"
    using b b'_less by (simp only: b'_def [symmetric] ucast_of_nat_down) (simp add: ucast_of_nat_down)
  have "20 * of_nat b' - 2442 = (of_nat (20 * b' - 2442) :: u32)"
    using bounds(1,4) by (simp add: of_nat_diff b'_def)
  then have wc: "(20 * of_nat b' - 2442) div 7305 = (of_nat c :: u32)"
    using word_of_nat_div [of "20 * b' - 2442" 7305, where ?'a = 32] b'_less c by (simp add: b'_def)
  have wc4: "(of_nat c :: u32) div 4 = of_nat (c div 4)"
    using word_of_nat_div [of c 4, where ?'a = 32] c_less by simp
  have wd: "of_nat b' - 365 * of_nat c - of_nat (c div 4) = (of_nat x :: u32)"
    by (simp add: b'_def)
  have we: "of_nat x * 1000 div 30601 = (of_nat e :: u32)"
    using word_of_nat_div [of "x * 1000" 30601, where ?'a = 32] bounds(2) e by simp
  have we6: "(of_nat e * 601 :: u32) div 1000 = of_nat (e * 601 div 1000)"
    using word_of_nat_div [of "e * 601" 1000, where ?'a = 32] e_less by simp
  have wf: "of_nat x - of_nat e * 30 - of_nat (e * 601 div 1000) = (of_nat d :: u32)"
    by (subst f) simp
  have e13: "(of_nat e :: u32) \<le> 13 \<longleftrightarrow> e \<le> 13"
    using e_less by (simp add: word_le_nat_alt unat_of_nat)
  show ?thesis
    unfolding convertDays_def Let_def wa wa2 wb wc wc4 wd we we6 wf e13 by simp
qed

lemma calendar_steps:
  assumes "calendar n = (y, m, d)"
  obtains c x e where
    "n + 2442113 + ((4 * n + 102032) div 146097 + 15) - ((4 * n + 102032) div 146097 + 15) div 4
        = 365 * c + c div 4 + x"
    "(20 * (365 * c + c div 4 + x) - 2442) div 7305 = c" "x * 1000 div 30601 = e"
    "x = e * 30 + e * 601 div 1000 + d" "123 \<le> x" "x \<le> 488" "4 \<le> e" "6685 \<le> c"
    "365 * c \<le> n + 2440809" "(y, m) = (if e \<le> 13 then (c - 4716, e - 1) else (c - 4715, e - 13))"
  using conversion_steps [of y m d n] calendar_valid [of n] daynum_calendar [of n] that
  unfolding assms by blast

lemma convertDays_calendar:
  assumes "n < 23200000" "calendar n = (y, m, d)"
  shows "convertDays (of_nat n) = (of_nat y, of_nat m, of_nat d)"
  using assms(2)
proof (rule calendar_steps)
  fix c x e
  assume steps: "n + 2442113 + ((4 * n + 102032) div 146097 + 15) - ((4 * n + 102032) div 146097 + 15) div 4
        = 365 * c + c div 4 + x"
    "(20 * (365 * c + c div 4 + x) - 2442) div 7305 = c" "x * 1000 div 30601 = e"
    "x = e * 30 + e * 601 div 1000 + d" and bounds: "123 \<le> x" "x \<le> 488" "4 \<le> e" "6685 \<le> c" "365 * c \<le> n + 2440809"
    and ym: "(y, m) = (if e \<le> 13 then (c - 4716, e - 1) else (c - 4715, e - 13))"
  show ?thesis
    using convertDays_words [OF assms(1) refl steps bounds] ym bounds(3,4)
    by (auto simp: of_nat_diff split: if_splits)
qed

lemma calendar_year_bound:
  assumes "calendar n = (y, m, d)" "n < 23200000"
  shows "y < 65536"
  using assms(1)
proof (rule calendar_steps)
  fix c x e
  assume "365 * c \<le> n + 2440809" "(y, m) = (if e \<le> 13 then (c - 4716, e - 1) else (c - 4715, e - 13))"
  then show ?thesis using assms(2) by (auto split: if_splits)
qed

section \<open>Correctness\<close>

lemma u64_time_fields:
  fixes t :: u64
  shows "(if t < 1 then 0 else t) = t" "t div 60 div 60 div 24 = of_nat (unat t div 86400)"
    "unat (t mod 60) = unat t mod 60" "unat (t div 60 mod 60) = unat t mod 3600 div 60"
    "unat (t div 60 div 60 mod 24) = unat t mod 86400 div 3600"
proof -
  show "(if t < 1 then 0 else t) = t" by (simp add: word_less_1)
  show "t div 60 div 60 div 24 = of_nat (unat t div 86400)"
    using le_less_trans [OF div_le_dividend unsigned_less [of t], of 86400]
    by (simp add: word_unat_eq_iff unat_div unat_of_nat div_mult2_eq [symmetric])
  show "unat (t mod 60) = unat t mod 60" by (simp add: unat_mod)
  show "unat (t div 60 mod 60) = unat t mod 3600 div 60"
    using mod_mult2_eq [of "unat t" 60 60] by (simp add: unat_div unat_mod)
  show "unat (t div 60 div 60 mod 24) = unat t mod 86400 div 3600"
    using mod_mult2_eq [of "unat t" 3600 24] by (simp add: unat_div unat_mod div_mult2_eq [symmetric])
qed

lemma convertUnixTimeToDate_eq:
  assumes "unat t div 86400 < 23200000" "calendar (unat t div 86400) = (y, m, d)"
  shows "convertUnixTimeToDate t = \<lparr>year = of_nat y, month = of_nat m, day = of_nat d,
    dayOfWeek = computeDayOfWeek (of_nat y) (of_nat m) (of_nat d),
    hours = ucast (t div 60 div 60 mod 24), minutes = ucast (t div 60 mod 60), seconds = ucast (t mod 60),
    milliseconds = 0\<rparr>"
proof -
  have "y < 65536" "m < 256" "d < 256"
    using calendar_year_bound [OF assms(2,1)] calendar_valid [of "unat t div 86400"] assms(2)
    by (auto simp: valid_date_def month_days_def split: if_splits)
  then show ?thesis
    unfolding convertUnixTimeToDate_def Let_def u64_time_fields(1,2) convertDays_calendar [OF assms]
    by (simp add: ucast_of_nat_down)
qed

lemma date_of_time_fields:
  assumes "unat t < 2 * 10 ^ 12" and r: "r = convertUnixTimeToDate t"
  shows "unat (hours r) = unat t mod 86400 div 3600" "unat (minutes r) = unat t mod 3600 div 60"
    "unat (seconds r) = unat t mod 60"
proof -
  obtain y m d where cal: "calendar (unat t div 86400) = (y, m, d)" by (cases "calendar (unat t div 86400)")
  have n: "unat t div 86400 < 23200000" using assms(1) by (simp add: div_less_iff_less_mult)
  have small: "unat (ucast w :: u8) = unat w" if "unat w < 256" for w :: u64
    using that by (simp add: unsigned_ucast_eq take_bit_eq_mod [where ?'a = nat])
  show "unat (hours r) = unat t mod 86400 div 3600" "unat (minutes r) = unat t mod 3600 div 60"
      "unat (seconds r) = unat t mod 60"
    using u64_time_fields(3-5) [of t] small
    by (simp_all add: r convertUnixTimeToDate_eq [OF n cal] div_less_iff_less_mult)
qed

lemma date_of_time:
  assumes "unat t < 2 * 10 ^ 12" and r: "r = convertUnixTimeToDate t"
  shows "(unat (year r), unat (month r), unat (day r)) = calendar (unat t div 86400) \<and>
    unat t = unat t div 86400 * 86400 + unat (hours r) * 3600 + unat (minutes r) * 60 + unat (seconds r) \<and>
    unat (hours r) < 24 \<and> unat (minutes r) < 60 \<and> unat (seconds r) < 60 \<and> milliseconds r = 0"
proof -
  obtain y m d where cal: "calendar (unat t div 86400) = (y, m, d)" by (cases "calendar (unat t div 86400)")
  have n: "unat t div 86400 < 23200000" using assms(1) by (simp add: div_less_iff_less_mult)
  have ymd: "y < 65536" "m < 256" "d < 256"
    using calendar_year_bound [OF cal n] calendar_valid [of "unat t div 86400"] cal
    by (auto simp: valid_date_def month_days_def split: if_splits)
  note hms = date_of_time_fields [OF assms]
  have "unat t = unat t div 86400 * 86400 + unat t mod 86400" by simp
  moreover have "unat t mod 86400 = unat t mod 86400 div 3600 * 3600 + unat t mod 3600"
    using div_mult_mod_eq [of "unat t mod 86400" 3600] by (simp add: mod_mod_cancel)
  moreover have "unat t mod 3600 = unat t mod 3600 div 60 * 60 + unat t mod 60"
    using div_mult_mod_eq [of "unat t mod 3600" 60] by (simp add: mod_mod_cancel)
  ultimately have "unat t = unat t div 86400 * 86400 + unat (hours r) * 3600 + unat (minutes r) * 60 + unat (seconds r)"
    unfolding hms by linarith
  moreover have "unat (year r) = y" "unat (month r) = m" "unat (day r) = d" "milliseconds r = 0"
    using ymd by (simp_all add: r convertUnixTimeToDate_eq [OF n cal] unat_of_nat)
  ultimately show ?thesis using hms cal by (simp add: div_less_iff_less_mult)
qed

text \<open>C16.  Calendar conversion: for every Unix time before the year 65000,
  \<open>convertUnixTimeToDate\<close> gives the date of the Gregorian calendar, found by stepping day by day
  from the first of January 1970, and the time of day; none of its word operations wraps.\<close>

theorem convertUnixTimeToDate_correct:
  assumes "unat t < 2 * 10 ^ 12" and r: "r = convertUnixTimeToDate t"
  shows "(unat (year r), unat (month r), unat (day r)) = calendar (unat t div 86400) \<and>
    unat t = unat t div 86400 * 86400 + unat (hours r) * 3600 + unat (minutes r) * 60 + unat (seconds r) \<and>
    unat (hours r) < 24 \<and> unat (minutes r) < 60 \<and> unat (seconds r) < 60 \<and> milliseconds r = 0"
  using date_of_time [OF assms] .

lemma calendar_2023: "calendar 19675 = (2023, 11, 14)"
  by (simp add: convert_days_calendar [symmetric] convert_days_def)

theorem convertUnixTimeToDate_correct_witness:
  "(unat (year (convertUnixTimeToDate 1700000000)), unat (month (convertUnixTimeToDate 1700000000)),
    unat (day (convertUnixTimeToDate 1700000000))) = (2023, 11, 14)"
  using convertUnixTimeToDate_correct [OF _ refl, of 1700000000] calendar_2023 by simp

section \<open>The day of the week\<close>

text \<open>The first of January 1970 was a Thursday, day 4.\<close>

definition weekday :: "nat \<Rightarrow> nat" where
  "weekday n = (n + 3) mod 7 + 1"

definition zeller_sum :: "nat \<times> nat \<times> nat \<Rightarrow> nat" where
  "zeller_sum date = (case march date of (y, m, d) \<Rightarrow>
     d + 26 * (m + 1) div 10 + y mod 100 + y mod 100 div 4 + 5 * (y div 100) + y div 100 div 4)"

lemma zeller_weekday:
  assumes "calendar n = (y, m, d)"
  shows "(zeller_sum (y, m, d) + 5) mod 7 + 1 = weekday n"
proof -
  obtain z k where zk: "march (y, m, d) = (z, k, d)" by (cases "m \<le> 2") (auto simp: march_def)
  have v: "valid_date (y, m, d)" using calendar_valid [of n] assms by simp
  define q r where "q = z div 100" and "r = z mod 100"
  have z: "z = 100 * q + r" by (simp add: q_def r_def)
  have k: "k \<in> {3, 4, 5, 6, 7, 8, 9, 10, 11, 12, 13, 14}" using march_date(1) [OF v zk refl] .
  have "n + 719469 + q = 365 * z + z div 4 + q div 4 + ((153 * (k - 3) + 2) div 5 + d)"
    using daynum_calendar [of n] assms by (simp add: zk daynum_def q_def div_mult2_eq [symmetric])
  moreover have "z div 4 = 25 * q + r div 4" using z by simp
  ultimately have n: "n + 719469 = 36524 * q + 365 * r + r div 4 + q div 4 + ((153 * (k - 3) + 2) div 5 + d)"
    using z by simp
  define s where "s = r div 4 + q div 4"
  obtain i where i: "26 * (k + 1) div 10 + 7 * i = (153 * (k - 3) + 2) div 5 + 10"
  proof -
    have "26 * (k + 1) div 10 + 7 * (((153 * (k - 3) + 2) div 5 + 10 - 26 * (k + 1) div 10) div 7) =
        (153 * (k - 3) + 2) div 5 + 10"
      using k by (elim insertE emptyE) simp_all
    then show ?thesis using that by blast
  qed
  have zs: "zeller_sum (y, m, d) = d + 26 * (k + 1) div 10 + r + 5 * q + s"
    by (simp add: zeller_sum_def zk q_def r_def s_def)
  have "n + 3 + 7 * 102783 = zeller_sum (y, m, d) + 5 + 7 * (5217 * q + 52 * r + i)"
    unfolding zs using n [folded s_def] i by (simp add: s_def)
  then have "(n + 3) mod 7 = (zeller_sum (y, m, d) + 5) mod 7" by (metis mod_mult_self2)
  then show ?thesis by (simp add: weekday_def)
qed

lemma computeDayOfWeek_eq:
  assumes "valid_date (y, m, d)" "y < 25600"
  shows "unat (computeDayOfWeek (of_nat y) (of_nat m) (of_nat d)) =
    (zeller_sum (y, m, d) mod 256 + 5) mod 7 + 1"
proof -
  obtain z k where zk: "march (y, m, d) = (z, k, d)" by (cases "m \<le> 2") (auto simp: march_def)
  have k: "k \<le> 14" using march_date(1) [OF assms(1) zk refl] by auto
  have m: "1 \<le> m" "m \<le> 12" "d \<le> 31" "1970 \<le> y"
    using assms(1) by (auto simp: valid_date_def month_days_def split: if_splits)
  have z: "z < 25600" using zk assms(2) by (auto simp: march_def split: if_splits)
  have mle: "(of_nat m :: u8) \<le> 2 \<longleftrightarrow> m \<le> 2" using m by (simp add: word_le_nat_alt unat_of_nat)
  have "(of_nat y - 1 :: u16) = of_nat (y - 1)" using m(4) by (simp add: of_nat_diff)
  then have branch: "(if (of_nat m :: u8) \<le> 2 then (of_nat m + 12, of_nat y - 1) else (of_nat m, of_nat y)) =
      (of_nat k :: u8, of_nat z :: u16)"
    using zk unfolding mle by (auto simp: march_def split: if_splits)
  have j: "ucast ((of_nat z :: u16) div 100) = (of_nat (z div 100) :: u8)"
    "ucast ((of_nat z :: u16) mod 100) = (of_nat (z mod 100) :: u8)"
    using word_of_nat_div [of z 100, where ?'a = 16] word_of_nat_mod [of z 100, where ?'a = 16] z
      div_le_dividend [of z 100] mod_less_eq_dividend [of z 100]
    by (simp_all add: ucast_of_nat_down)
  have u: "unat (of_nat (z div 100) :: u8) = z div 100" "unat (of_nat (z mod 100) :: u8) = z mod 100"
    "unat (of_nat k :: u8) = k" "unat (of_nat d :: u8) = d"
    using z k m by (simp_all add: unat_of_nat div_less_iff_less_mult)
  have "((zeller_sum (y, m, d)) mod 256 + 5) mod 7 + 1 < 256"
    using mod_less_divisor [of 7 "(zeller_sum (y, m, d)) mod 256 + 5"] by linarith
  moreover have zs: "d + 26 * (k + 1) div 10 + z mod 100 + z mod 100 div 4 + 5 * (z div 100) + z div 100 div 4
      = zeller_sum (y, m, d)" by (simp add: zeller_sum_def zk)
  ultimately show ?thesis
    unfolding computeDayOfWeek_def branch Let_def case_prod_conv j u zs
    unfolding unat_of_nat by simp
qed

lemma zeller_bounds:
  assumes "valid_date (y, m, d)"
  shows "y < 25600 \<Longrightarrow> zeller_sum (y, m, d) < 1536"
    "2001 \<le> y \<Longrightarrow> y \<le> 2063 \<Longrightarrow> zeller_sum (y, m, d) < 256"
proof -
  obtain z k where zk: "march (y, m, d) = (z, k, d)" by (cases "m \<le> 2") (auto simp: march_def)
  have "k \<le> 14" using march_date(1) [OF assms zk refl] by auto
  then have k: "26 * (k + 1) div 10 \<le> 39" by (simp add: div_le_mono [of "26 * (k + 1)" 390 10, simplified])
  have m: "d \<le> 31" using assms by (auto simp: valid_date_def month_days_def split: if_splits)
  have z: "z \<le> y" "y \<le> z + 1" using zk by (auto simp: march_def split: if_splits)
  have r: "z mod 100 \<le> 99" "z mod 100 div 4 \<le> 24"
    using div_le_mono [of "z mod 100" 99 4] by (simp_all add: less_Suc_eq_le [symmetric])
  define K R R4 Q Q4 where "K = 26 * (k + 1) div 10" and "R = z mod 100" and "R4 = R div 4"
    and "Q = z div 100" and "Q4 = Q div 4"
  have zs: "zeller_sum (y, m, d) = d + K + R + R4 + 5 * Q + Q4"
    by (simp add: zeller_sum_def zk K_def R_def R4_def Q_def Q4_def)
  have b: "K \<le> 39" "R \<le> 99" "R4 \<le> 24" using k r by (simp_all add: K_def R_def R4_def)
  show "zeller_sum (y, m, d) < 1536" if "y < 25600"
  proof -
    have "Q \<le> 255" using that z div_le_mono [of z 25599 100] by (simp add: Q_def)
    moreover from this have "Q4 \<le> 63" using div_le_mono [of Q 255 4] by (simp add: Q4_def)
    ultimately show ?thesis using m b unfolding zs by linarith
  qed
  show "zeller_sum (y, m, d) < 256" if "2001 \<le> y" "y \<le> 2063"
  proof -
    define w where "w = z - 2000"
    have w: "z = 2000 + w" "w \<le> 63" using that z by (simp_all add: w_def)
    have "(2000 + w) mod 100 = w" using w(2) mod_mult_self3 [of 20 100 w] by simp
    with w have "Q = 20" "R = w" "Q4 = 5" by (simp_all add: Q_def R_def Q4_def)
    moreover have "R4 \<le> 15" using div_le_mono [of w 63 4] w(2) \<open>R = w\<close> by (simp add: R4_def)
    ultimately show ?thesis using m b w(2) unfolding zs by linarith
  qed
qed

lemma residue_shift:
  assumes "i \<in> {1, 2, 3, 4, 5 :: nat}"
  shows "(w + 5) mod 7 \<noteq> (256 * i + w + 5) mod 7"
proof
  assume "(w + 5) mod 7 = (256 * i + w + 5) mod 7"
  then have "(256 * i + w + 5) mod 7 = (w + 5) mod 7" by simp
  then have "7 dvd 256 * i + w + 5 - (w + 5)" by (subst (asm) mod_eq_dvd_iff_nat) auto
  with assms show False by auto
qed

text \<open>C36.  Day of the week: up to the year 25599 \<open>computeDayOfWeek\<close> gives the day of the week
  of a date, from 1 for Monday to 7 for Sunday, exactly when Zeller's sum for the date is below 256;
  otherwise the sum wraps in its byte and the result is wrong.  The sum is below 256 for every date
  of the years 2001 to 2063.\<close>

theorem computeDayOfWeek_iff:
  assumes "calendar n = (y, m, d)" "y < 25600"
  shows "(unat (computeDayOfWeek (of_nat y) (of_nat m) (of_nat d)) = weekday n \<longleftrightarrow> zeller_sum (y, m, d) < 256) \<and>
    (2001 \<le> y \<and> y \<le> 2063 \<longrightarrow> zeller_sum (y, m, d) < 256)"
proof -
  have v: "valid_date (y, m, d)" using calendar_valid [of n] assms(1) by simp
  define S where "S = zeller_sum (y, m, d)"
  have S: "S < 1536" "weekday n = (S + 5) mod 7 + 1"
    using zeller_bounds(1) [OF v assms(2)] zeller_weekday [OF assms(1)] by (simp_all add: S_def)
  have wrap: "(S mod 256 + 5) mod 7 = (S + 5) mod 7 \<longleftrightarrow> S < 256"
  proof -
    define i w where "i = S div 256" and "w = S mod 256"
    have iw: "S = 256 * i + w" "w < 256" by (simp_all add: i_def w_def)
    then have "i < 6" using S(1) by linarith
    then consider "i = 0" | "i \<in> {1, 2, 3, 4, 5}" by fastforce
    then show ?thesis
    proof cases
      case 1
      then show ?thesis using iw by (simp add: w_def)
    next
      case 2
      then have "256 \<le> S" using iw(1) by auto
      then show ?thesis using residue_shift [OF 2, of w] iw(1) unfolding w_def [symmetric] by simp
    qed
  qed
  show ?thesis
    using computeDayOfWeek_eq [OF v assms(2)] wrap zeller_bounds(2) [OF v] by (simp add: S_def [symmetric] S(2))
qed

theorem computeDayOfWeek_iff_witness:
  "unat (computeDayOfWeek (of_nat 2023) (of_nat 11) (of_nat 14)) = weekday 19675 \<and> weekday 19675 = 2"
  using computeDayOfWeek_iff [OF calendar_2023] by (simp add: weekday_def)

text \<open>A wrong day of the week: 31 December 1999, a Friday, is reported as a Monday.\<close>

theorem computeDayOfWeek_1999:
  "calendar 10956 = (1999, 12, 31) \<and> weekday 10956 = 5 \<and> computeDayOfWeek 1999 12 31 = 1"
proof -
  have "computeDayOfWeek 1999 12 31 = 1" by code_simp
  then show ?thesis by (simp add: convert_days_calendar [symmetric] convert_days_def weekday_def)
qed

section \<open>The current date\<close>

text \<open>The current date: when the clock device shows \<open>t\<close> nanoseconds since the epoch, with
  the driver's offset never set, \<open>getCurrentDate\<close> is the calendar date of that time, until the
  32 bits of \<open>lk_time_t\<close> are used up in the year 2106.\<close>

theorem getCurrentDate_correct:
  assumes "rtc_shows t s" "system_boot_offset s = 0" "unat t < 2 ^ 32 * 10 ^ 9"
    and r: "r = getCurrentDate s"
  shows "(unat (year r), unat (month r), unat (day r)) = calendar (unat t div 10 ^ 9 div 86400) \<and>
    unat t div 10 ^ 9 = unat t div 10 ^ 9 div 86400 * 86400 + unat (hours r) * 3600 + unat (minutes r) * 60
      + unat (seconds r)"
proof -
  have "unat t div 10 ^ 9 < 2 ^ 32" using assms(3) by (simp add: div_less_iff_less_mult)
  then have secs: "unat (rtc_current_time s) = unat t div 10 ^ 9"
    using rtc_current_time_seconds [OF assms(1)] assms(2) by simp
  have u: "unat (ucast (rtc_current_time s) :: u64) = unat t div 10 ^ 9"
    using secs unsigned_less [of "rtc_current_time s", where ?'a = nat]
    by (simp add: unsigned_ucast_eq take_bit_eq_mod [where ?'a = nat])
  have "unat t div 10 ^ 9 < 2 * 10 ^ 12" using \<open>unat t div 10 ^ 9 < 2 ^ 32\<close> by simp
  then show ?thesis
    using date_of_time [of "ucast (rtc_current_time s)" r] r unfolding getCurrentDate_def u by simp
qed

theorem getCurrentDate_correct_witness:
  "(unat (year (getCurrentDate sample_rtc)), unat (month (getCurrentDate sample_rtc)),
    unat (day (getCurrentDate sample_rtc))) = (2023, 11, 14)"
  using getCurrentDate_correct [OF sample_rtc_shows _ _ refl] calendar_2023 by (simp add: sample_rtc_def)

end
