(* ===== verification/Time_Apps.thy ===== *)
theory Time_Apps
  imports Datetime
begin

unbundle bit_operations_syntax

text \<open>
  The console commands that show the time: \<open>systime\<close> prints the time of the clock device and
  \<open>ntptime\<close> asks a time server over UDP and prints its answer.  The model of a command returns
  what it prints; the result of \<open>udp_open\<close> is an argument and the datagram sent a result.
\<close>

section \<open>systime\<close>

text \<open>\<open>"%d-%d-%d %d:%d:%d"\<close>, the format of both commands.\<close>

definition print_date :: "DateTime \<Rightarrow> u8 list" where
  "print_date r = dec_nat (unat (year r)) @ bytes_of ''-'' @ dec_nat (unat (month r)) @ bytes_of ''-'' @
     dec_nat (unat (day r)) @ bytes_of '' '' @ dec_nat (unat (hours r)) @ bytes_of '':'' @
     dec_nat (unat (minutes r)) @ bytes_of '':'' @ dec_nat (unat (seconds r))"

definition systime :: "'z rtc_scheme \<Rightarrow> int \<times> u8 list" where
  "systime s =
     (let time_rtc = ucast (rtc_current_time s) :: u64;
          cur_date = getCurrentDate s
      in (0, bytes_of ''epoch_time:'' @ dec_nat (unat time_rtc) @ [10] @ print_date cur_date @ bytes_of '' UTC'' @ [10]))"

section \<open>ntptime\<close>

definition NTP_TIMESTAMP_DELTA :: u64 where "NTP_TIMESTAMP_DELTA = 2208988800"

definition NTP_UDP_PORT :: nat where "NTP_UDP_PORT = 123"


text \<open>The layout of the structure in memory, on a little-endian machine.\<close>

definition le_bytes :: "u32 \<Rightarrow> u8 list" where
  "le_bytes w = [ucast w, ucast (drop_bit 8 w), ucast (drop_bit 16 w), ucast (drop_bit 24 w)]"


definition be32 :: "u8 list \<Rightarrow> nat \<Rightarrow> u32 option" where
  "be32 bs i = do {
     b0 \<leftarrow> peek bs i; b1 \<leftarrow> peek bs (i + 1); b2 \<leftarrow> peek bs (i + 2); b3 \<leftarrow> peek bs (i + 3);
     Some (push_bit 24 (ucast b0) OR push_bit 16 (ucast b1) OR push_bit 8 (ucast b2) OR ucast b3)
   }"

text \<open>\<open>data\<close> is the memory of the datagram, in which the two fields of the transmit time are
  brought into the machine's order in place: a load, \<open>ntohl\<close> and a store are a read of the four
  bytes as a big-endian number and a write of its bytes in the other order.  \<open>packetlen\<close> is not
  looked at.  The result is the memory and what is printed.\<close>

definition ntp_response_cb :: "u8 list \<Rightarrow> u8 \<Rightarrow> (u8 list \<times> u8 list) option" where
  "ntp_response_cb data packetlen = do {
     tx_s \<leftarrow> be32 data 40;
     data \<leftarrow> memcpy_in data 40 (le_bytes tx_s);
     tx_f \<leftarrow> be32 data 44;
     data \<leftarrow> memcpy_in data 44 (le_bytes tx_f);
     let txTm = (ucast (ucast tx_s - NTP_TIMESTAMP_DELTA) :: u32);
     Some (data, bytes_of ''NTP response: '' @ print_date (convertUnixTimeToDate (ucast txTm)) @ [10])
   }"



section \<open>Properties\<close>




text \<open>Short time responses: the length of the datagram is not checked, so one of fewer than 48
  bytes is read past its end.\<close>

theorem ntp_short_response: "length data < 48 \<Longrightarrow> ntp_response_cb data packetlen = None"
proof -
  assume l: "length data < 48"
  show ?thesis
  proof (cases "be32 data 40")
    case (Some w)
    show ?thesis
    proof (cases "memcpy_in data 40 (le_bytes w)")
      case (Some d)
      then have "be32 d 44 = None" using l by (simp add: memcpy_in_length be32_def peek_def bind_None_iff)
      then show ?thesis using Some \<open>be32 data 40 = Some w\<close> by (simp add: ntp_response_cb_def)
    qed (use Some in \<open>simp add: ntp_response_cb_def\<close>)
  qed (simp add: ntp_response_cb_def)
qed

theorem ntp_short_response_witness: "ntp_response_cb [] 0 = None"
  using ntp_short_response [of "[]"] by simp

text \<open>The \<open>systime\<close> command prints the seconds shown by the clock and then the date and time
  of day that belong to them.\<close>

theorem systime_prints:
  assumes "rtc_shows t s" "system_boot_offset s = 0" "unat t < 2 ^ 32 * 10 ^ 9"
  shows "\<exists>y m d. calendar (unat t div 10 ^ 9 div 86400) = (y, m, d) \<and>
    systime s = (0, bytes_of ''epoch_time:'' @ dec_nat (unat t div 10 ^ 9) @ [10] @
      dec_nat y @ bytes_of ''-'' @ dec_nat m @ bytes_of ''-'' @ dec_nat d @ bytes_of '' '' @
      dec_nat (unat t div 10 ^ 9 mod 86400 div 3600) @ bytes_of '':'' @
      dec_nat (unat t div 10 ^ 9 mod 3600 div 60) @ bytes_of '':'' @
      dec_nat (unat t div 10 ^ 9 mod 60) @ bytes_of '' UTC'' @ [10])"
proof -
  let ?n = "unat t div 10 ^ 9"
  obtain y m d where cal: "calendar (?n div 86400) = (y, m, d)" by (cases "calendar (?n div 86400)")
  have n: "?n < 2 ^ 32" using assms(3) by (simp add: div_less_iff_less_mult)
  then have "unat (rtc_current_time s) = ?n"
    using rtc_current_time_seconds [OF assms(1)] assms(2) by simp
  then have u: "unat (ucast (rtc_current_time s) :: u64) = ?n"
    using n by (simp add: unsigned_ucast_eq take_bit_eq_mod [where ?'a = nat])
  define r where "r = getCurrentDate s"
  have r': "r = convertUnixTimeToDate (ucast (rtc_current_time s))" by (simp add: r_def getCurrentDate_def)
  have f: "unat (year r) = y" "unat (month r) = m" "unat (day r) = d" "unat (hours r) = ?n mod 86400 div 3600"
    "unat (minutes r) = ?n mod 3600 div 60" "unat (seconds r) = ?n mod 60"
    using date_of_time [OF _ r'] date_of_time_fields [OF _ r'] n cal unfolding u by simp_all
  show ?thesis
    using cal u f by (simp add: systime_def Let_def print_date_def r_def)
qed

theorem systime_prints_witness:
  "\<exists>y m d. calendar 19675 = (y, m, d) \<and> systime sample_rtc = (0, bytes_of ''epoch_time:'' @ dec_nat 1700000000 @ [10] @
      dec_nat y @ bytes_of ''-'' @ dec_nat m @ bytes_of ''-'' @ dec_nat d @ bytes_of '' '' @
      dec_nat 22 @ bytes_of '':'' @ dec_nat 13 @ bytes_of '':'' @ dec_nat 20 @ bytes_of '' UTC'' @ [10])"
  using systime_prints [OF sample_rtc_shows] by (simp add: sample_rtc_def)

end
