(* ===== verification/Retro.thy ===== *)
theory Retro
  imports Interfaces "HOL-Library.Signed_Division"
begin

unbundle bit_operations_syntax

text \<open>
  The virtual machine of \<open>retro.c\<close>: its registers, stacks and memory, the thirty instructions,
  instruction bundles and the execution loop.

  A cell is an \<open>int64_t\<close>, an \<^typ>\<open>int\<close> in its range; an arithmetic result outside the range, an
  index outside an array, a division by zero, a shift by the width or more and an instruction number
  outside the table are undefined in C and are \<^term>\<open>None\<close>.  \<open>vm_exited\<close> is set when the
  thread ends itself in \<open>inst_ii\<close>.
\<close>

section \<open>The machine\<close>

definition IMAGE_SIZE :: int where "IMAGE_SIZE = 524288"
definition ADDRESSES :: nat where "ADDRESSES = 256"
definition STACK_DEPTH :: nat where "STACK_DEPTH = 256"
definition CELL_MIN :: int where "CELL_MIN = - (2 ^ 63) + 1"
definition CELL_MAX :: int where "CELL_MAX = 2 ^ 63 - 1 - 1"

record vm =
  sp :: int
  rp :: int
  ip :: int
  data :: "int list"
  address :: "int list"
  memory :: "int \<Rightarrow> int"
  retro_code :: "u8 list"
  vm_out :: "u8 list"
  vm_exited :: bool

definition cell_ok :: "int \<Rightarrow> bool" where
  "cell_ok i \<longleftrightarrow> - (2 ^ 63) \<le> i \<and> i < 2 ^ 63"

definition cell :: "int \<Rightarrow> int option" where
  "cell i = (if cell_ok i then Some i else None)"

definition arr_get :: "int list \<Rightarrow> int \<Rightarrow> int option" where
  "arr_get xs i = (if 0 \<le> i then peek xs (nat i) else None)"

definition arr_set :: "int list \<Rightarrow> int \<Rightarrow> int \<Rightarrow> int list option" where
  "arr_set xs i v = (if 0 \<le> i then poke xs (nat i) v else None)"

definition mem_get :: "vm \<Rightarrow> int \<Rightarrow> int option" where
  "mem_get s a = (if 0 \<le> a \<and> a \<le> IMAGE_SIZE then Some (memory s a) else None)"

definition mem_set :: "int \<Rightarrow> int \<Rightarrow> vm \<Rightarrow> vm option" where
  "mem_set a v s = (if 0 \<le> a \<and> a \<le> IMAGE_SIZE then Some (s\<lparr>memory := (memory s)(a := v)\<rparr>) else None)"

definition TOS :: "vm \<Rightarrow> int option" where "TOS s = arr_get (data s) (sp s)"
definition NOS :: "vm \<Rightarrow> int option" where "NOS s = arr_get (data s) (sp s - 1)"
definition TORS :: "vm \<Rightarrow> int option" where "TORS s = arr_get (address s) (rp s)"

definition set_TOS :: "int \<Rightarrow> vm \<Rightarrow> vm option" where
  "set_TOS v s = map_option (\<lambda>d. s\<lparr>data := d\<rparr>) (arr_set (data s) (sp s) v)"

definition set_NOS :: "int \<Rightarrow> vm \<Rightarrow> vm option" where
  "set_NOS v s = map_option (\<lambda>d. s\<lparr>data := d\<rparr>) (arr_set (data s) (sp s - 1) v)"

definition set_TORS :: "int \<Rightarrow> vm \<Rightarrow> vm option" where
  "set_TORS v s = map_option (\<lambda>d. s\<lparr>address := d\<rparr>) (arr_set (address s) (rp s) v)"

definition stack_pop :: "vm \<Rightarrow> (int \<times> vm) option" where
  "stack_pop s = (let s = s\<lparr>sp := sp s - 1\<rparr> in map_option (\<lambda>v. (v, s)) (arr_get (data s) (sp s + 1)))"

definition stack_push :: "int \<Rightarrow> vm \<Rightarrow> vm option" where
  "stack_push v s = (let s = s\<lparr>sp := sp s + 1\<rparr> in map_option (\<lambda>d. s\<lparr>data := d\<rparr>) (arr_set (data s) (sp s) v))"

section \<open>Instructions\<close>

definition inst_no :: "vm \<Rightarrow> vm option" where "inst_no s = Some s"

definition inst_li :: "vm \<Rightarrow> vm option" where
  "inst_li s = do { let s = s\<lparr>ip := ip s + 1\<rparr>; v \<leftarrow> mem_get s (ip s); stack_push v s }"

definition inst_du :: "vm \<Rightarrow> vm option" where
  "inst_du s = do { v \<leftarrow> TOS s; stack_push v s }"

definition inst_dr :: "vm \<Rightarrow> vm option" where
  "inst_dr s = do {
     d \<leftarrow> arr_set (data s) (sp s) 0;
     let s = s\<lparr>data := d, sp := sp s - 1\<rparr>;
     Some (if sp s < 0 then s\<lparr>ip := IMAGE_SIZE\<rparr> else s)
   }"

definition inst_sw :: "vm \<Rightarrow> vm option" where
  "inst_sw s = do { a \<leftarrow> TOS s; b \<leftarrow> NOS s; s \<leftarrow> set_TOS b s; set_NOS a s }"

definition inst_pu :: "vm \<Rightarrow> vm option" where
  "inst_pu s = do { let s = s\<lparr>rp := rp s + 1\<rparr>; v \<leftarrow> TOS s; s \<leftarrow> set_TORS v s; inst_dr s }"

definition inst_po :: "vm \<Rightarrow> vm option" where
  "inst_po s = do { v \<leftarrow> TORS s; s \<leftarrow> stack_push v s; Some (s\<lparr>rp := rp s - 1\<rparr>) }"

definition inst_ju :: "vm \<Rightarrow> vm option" where
  "inst_ju s = do { t \<leftarrow> TOS s; a \<leftarrow> cell (t - 1); inst_dr (s\<lparr>ip := a\<rparr>) }"

definition inst_ca :: "vm \<Rightarrow> vm option" where
  "inst_ca s = do {
     let s = s\<lparr>rp := rp s + 1\<rparr>;
     s \<leftarrow> set_TORS (ip s) s;
     t \<leftarrow> TOS s;
     a \<leftarrow> cell (t - 1);
     inst_dr (s\<lparr>ip := a\<rparr>)
   }"

definition inst_cc :: "vm \<Rightarrow> vm option" where
  "inst_cc s = do {
     a \<leftarrow> TOS s; s \<leftarrow> inst_dr s;
     b \<leftarrow> TOS s; s \<leftarrow> inst_dr s;
     if b \<noteq> 0 then do {
       let s = s\<lparr>rp := rp s + 1\<rparr>;
       s \<leftarrow> set_TORS (ip s) s;
       a \<leftarrow> cell (a - 1);
       Some (s\<lparr>ip := a\<rparr>)
     } else Some s
   }"

definition inst_re :: "vm \<Rightarrow> vm option" where
  "inst_re s = do { a \<leftarrow> TORS s; Some (s\<lparr>ip := a, rp := rp s - 1\<rparr>) }"

text \<open>\<open>NOS = f(NOS, TOS); inst_dr();\<close>, the shape of the binary instructions.\<close>

definition binary :: "(int \<Rightarrow> int \<Rightarrow> int option) \<Rightarrow> vm \<Rightarrow> vm option" where
  "binary f s = do { n \<leftarrow> NOS s; t \<leftarrow> TOS s; v \<leftarrow> f n t; s \<leftarrow> set_NOS v s; inst_dr s }"

definition flag :: "bool \<Rightarrow> int" where "flag b = (if b then -1 else 0)"

definition inst_eq :: "vm \<Rightarrow> vm option" where "inst_eq = binary (\<lambda>n t. Some (flag (n = t)))"
definition inst_ne :: "vm \<Rightarrow> vm option" where "inst_ne = binary (\<lambda>n t. Some (flag (n \<noteq> t)))"
definition inst_lt :: "vm \<Rightarrow> vm option" where "inst_lt = binary (\<lambda>n t. Some (flag (n < t)))"
definition inst_gt :: "vm \<Rightarrow> vm option" where "inst_gt = binary (\<lambda>n t. Some (flag (n > t)))"

definition inst_fe :: "vm \<Rightarrow> vm option" where
  "inst_fe s = do {
     t \<leftarrow> TOS s;
     if t = -1 then set_TOS (sp s - 1) s
     else if t = -2 then set_TOS (rp s) s
     else if t = -3 then set_TOS IMAGE_SIZE s
     else if t = -4 then set_TOS CELL_MIN s
     else if t = -5 then set_TOS CELL_MAX s
     else do { v \<leftarrow> mem_get s t; set_TOS v s }
   }"

definition inst_st :: "vm \<Rightarrow> vm option" where
  "inst_st s = do {
     t \<leftarrow> TOS s;
     if t \<le> IMAGE_SIZE \<and> t \<ge> 0 then do {
       n \<leftarrow> NOS s;
       s \<leftarrow> mem_set t n s;
       s \<leftarrow> inst_dr s;
       inst_dr s
     } else Some (s\<lparr>ip := IMAGE_SIZE\<rparr>)
   }"

definition inst_ad :: "vm \<Rightarrow> vm option" where "inst_ad = binary (\<lambda>n t. cell (n + t))"
definition inst_su :: "vm \<Rightarrow> vm option" where "inst_su = binary (\<lambda>n t. cell (n - t))"
definition inst_mu :: "vm \<Rightarrow> vm option" where "inst_mu = binary (\<lambda>n t. cell (n * t))"

definition inst_di :: "vm \<Rightarrow> vm option" where
  "inst_di s = do {
     a \<leftarrow> TOS s; b \<leftarrow> NOS s;
     if a = 0 then None
     else do { q \<leftarrow> cell (b sdiv a); s \<leftarrow> set_TOS q s; set_NOS (b smod a) s }
   }"

definition inst_an :: "vm \<Rightarrow> vm option" where "inst_an = binary (\<lambda>n t. Some (t AND n))"
definition inst_or :: "vm \<Rightarrow> vm option" where "inst_or = binary (\<lambda>n t. Some (t OR n))"
definition inst_xo :: "vm \<Rightarrow> vm option" where "inst_xo = binary (\<lambda>n t. Some (t XOR n))"

text \<open>A negative shift count shifts to the left, which is undefined for a negative number and for a result that does not fit.  In the other branch \<open>~0U\<close> is a 32 bit
  number, so the bits that are set again are those of a 32 bit result; a right shift of a negative
  number copies the sign.\<close>

definition shift :: "int \<Rightarrow> int \<Rightarrow> int option" where
  "shift x y =
     (if y < 0 then if 0 \<le> x \<and> - y < 64 then cell (push_bit (nat (- y)) x) else None
      else if x < 0 \<and> y > 0
      then if y < 32 then Some (drop_bit (nat y) x OR (0xFFFFFFFF - drop_bit (nat y) 0xFFFFFFFF)) else None
      else if y < 64 then Some (drop_bit (nat y) x) else None)"

definition inst_sh :: "vm \<Rightarrow> vm option" where "inst_sh = binary shift"

definition inst_zr :: "vm \<Rightarrow> vm option" where
  "inst_zr s = do {
     t \<leftarrow> TOS s;
     if t = 0 then do { s \<leftarrow> inst_dr s; a \<leftarrow> TORS s; Some (s\<lparr>ip := a, rp := rp s - 1\<rparr>) }
     else Some s
   }"

definition inst_ha :: "vm \<Rightarrow> vm option" where "inst_ha s = Some (s\<lparr>ip := IMAGE_SIZE\<rparr>)"

definition inst_ie :: "vm \<Rightarrow> vm option" where "inst_ie s = stack_push 2 s"

definition inst_iq :: "vm \<Rightarrow> vm option" where
  "inst_iq s = do {
     t \<leftarrow> TOS s;
     if t = 0 then do { s \<leftarrow> inst_dr s; s \<leftarrow> stack_push 0 s; stack_push 0 s }
     else if t = 1 then do { s \<leftarrow> inst_dr s; s \<leftarrow> stack_push 1 s; stack_push 1 s }
     else Some s
   }"

definition inst_ii :: "vm \<Rightarrow> vm option" where
  "inst_ii s = do {
     t \<leftarrow> TOS s;
     if t = 0 then do {
       s \<leftarrow> inst_dr s;
       (v, s) \<leftarrow> stack_pop s;
       Some (s\<lparr>vm_out := vm_out s @ [of_int v]\<rparr>)
     } else if t = 1 then do {
       c \<leftarrow> peek (retro_code s) 0;
       if c = 0 then Some (s\<lparr>vm_exited := True\<rparr>)
       else do {
         s \<leftarrow> inst_dr s;
         s \<leftarrow> stack_push (int (unat c)) s;
         Some (s\<lparr>retro_code := drop 1 (retro_code s)\<rparr>)
       }
     } else inst_dr s
   }"

definition instructions :: "(vm \<Rightarrow> vm option) list" where
  "instructions = [inst_no, inst_li, inst_du, inst_dr, inst_sw, inst_pu, inst_po,
     inst_ju, inst_ca, inst_cc, inst_re, inst_eq, inst_ne, inst_lt,
     inst_gt, inst_fe, inst_st, inst_ad, inst_su, inst_mu, inst_di,
     inst_an, inst_or, inst_xo, inst_sh, inst_zr, inst_ha, inst_ie,
     inst_iq, inst_ii]"

text \<open>Once the thread has ended itself nothing more is executed.\<close>

definition run_instruction :: "nat \<Rightarrow> vm \<Rightarrow> vm option" where
  "run_instruction n s = (if vm_exited s then Some s
     else do { inst \<leftarrow> peek instructions n; inst s })"

definition process_opcode_bundle :: "int \<Rightarrow> vm \<Rightarrow> vm option" where
  "process_opcode_bundle opcode s = do {
     s \<leftarrow> run_instruction (nat (opcode AND 0xFF)) s;
     s \<leftarrow> run_instruction (nat (drop_bit 8 opcode AND 0xFF)) s;
     s \<leftarrow> run_instruction (nat (drop_bit 16 opcode AND 0xFF)) s;
     run_instruction (nat (drop_bit 24 opcode AND 0xFF)) s
   }"

section \<open>Execution\<close>

datatype 'a run = Undefined | Out_of_fuel | Done 'a

definition execute_step :: "vm \<Rightarrow> vm option" where
  "execute_step s = do {
     opcode \<leftarrow> mem_get s (ip s);
     s \<leftarrow> process_opcode_bundle opcode s;
     if vm_exited s then Some s
     else do {
       i \<leftarrow> cell (ip s + 1);
       let s = s\<lparr>ip := i\<rparr>;
       Some (if rp s = 0 then s\<lparr>ip := IMAGE_SIZE\<rparr> else s)
     }
   }"

fun execute_loop :: "nat \<Rightarrow> vm \<Rightarrow> vm run" where
  "execute_loop fuel s =
     (if vm_exited s \<or> \<not> ip s < IMAGE_SIZE then Done s
      else case fuel of 0 \<Rightarrow> Out_of_fuel
        | Suc n \<Rightarrow> (case execute_step s of None \<Rightarrow> Undefined | Some s' \<Rightarrow> execute_loop n s'))"

declare execute_loop.simps [simp del]

definition execute :: "nat \<Rightarrow> int \<Rightarrow> vm \<Rightarrow> vm run" where
  "execute fuel c s = execute_loop fuel (s\<lparr>rp := 1, ip := c\<rparr>)"

fun load_cells :: "int \<Rightarrow> int list \<Rightarrow> vm \<Rightarrow> vm option" where
  "load_cells i [] s = Some s"
| "load_cells i (c # cs) s = (case mem_set i c s of None \<Rightarrow> None | Some s \<Rightarrow> load_cells (i + 1) cs s)"

text \<open>\<open>ngaImage\<close> is the argument; its contents are data of \<open>image.h\<close>.\<close>

definition load_embedded_image :: "int list \<Rightarrow> vm \<Rightarrow> vm option" where
  "load_embedded_image ngaImage s = load_cells 0 ngaImage s"

fun inject_chars :: "u8 list \<Rightarrow> int \<Rightarrow> vm \<Rightarrow> vm option" where
  "inject_chars [] a s = Some s"
| "inject_chars (c # cs) a s =
     (case mem_set a (int (unat c)) s of None \<Rightarrow> None
      | Some s \<Rightarrow> (case mem_set (a + 1) 0 s of None \<Rightarrow> None | Some s \<Rightarrow> inject_chars cs (a + 1) s))"

text \<open>The string without its terminator; \<^term>\<open>None\<close> is \<open>NULL\<close>.\<close>

definition string_inject :: "u8 list option \<Rightarrow> int \<Rightarrow> vm \<Rightarrow> (int \<times> vm) option" where
  "string_inject str buffer s =
     (case str of None \<Rightarrow> map_option (\<lambda>s. (0, s)) (mem_set buffer 0 s)
      | Some cs \<Rightarrow> map_option (\<lambda>s. (buffer, s)) (inject_chars cs buffer s))"

definition evaluate :: "nat \<Rightarrow> u8 list \<Rightarrow> vm \<Rightarrow> vm run" where
  "evaluate fuel cs s =
     (if cs = [] then Done s
      else case string_inject (Some cs) 120 s of None \<Rightarrow> Undefined
        | Some (_, s) \<Rightarrow> (case stack_push 120 s of None \<Rightarrow> Undefined | Some s \<Rightarrow> execute fuel 0 s))"

end
