(* ===== verification/Retro_Spec.thy ===== *)
theory Retro_Spec
  imports Retro
begin

unbundle bit_operations_syntax

text \<open>
  The specification of the machine: the same instructions on stacks that are lists, top first, as the
  language's own description gives them, and the proof that the machine of \<open>retro.c\<close>, with its
  arrays and pointers, implements it.  The specification is partial: it says nothing on a stack
  underflow or overflow, on an address outside the memory and on an arithmetic result outside a cell.
\<close>

section \<open>The abstract machine\<close>

record am =
  stk :: "int list"
  rstk :: "int list"
  a_ip :: int
  a_mem :: "int \<Rightarrow> int"
  a_in :: "u8 list"
  a_out :: "u8 list"
  a_exited :: bool

definition a_push :: "int \<Rightarrow> am \<Rightarrow> am option" where
  "a_push v a = (if length (stk a) + 1 < STACK_DEPTH then Some (a\<lparr>stk := v # stk a\<rparr>) else None)"

definition a_rpush :: "int \<Rightarrow> am \<Rightarrow> am option" where
  "a_rpush v a = (if length (rstk a) + 1 < ADDRESSES then Some (a\<lparr>rstk := v # rstk a\<rparr>) else None)"

definition a_fetch :: "am \<Rightarrow> int \<Rightarrow> int option" where
  "a_fetch a i = (if 0 \<le> i \<and> i \<le> IMAGE_SIZE then Some (a_mem a i) else None)"

definition a_jump :: "int \<Rightarrow> am \<Rightarrow> am option" where
  "a_jump t a = map_option (\<lambda>i. a\<lparr>a_ip := i\<rparr>) (cell (t - 1))"

definition a_return :: "am \<Rightarrow> am option" where
  "a_return a = (case rstk a of r # rs \<Rightarrow> Some (a\<lparr>a_ip := r, rstk := rs\<rparr>) | [] \<Rightarrow> None)"

definition a_li :: "am \<Rightarrow> am option" where
  "a_li a = do { v \<leftarrow> a_fetch a (a_ip a + 1); a_push v (a\<lparr>a_ip := a_ip a + 1\<rparr>) }"

definition a_du :: "am \<Rightarrow> am option" where
  "a_du a = (case stk a of x # _ \<Rightarrow> a_push x a | _ \<Rightarrow> None)"

definition a_dr :: "am \<Rightarrow> am option" where
  "a_dr a = (case stk a of x # xs \<Rightarrow> Some (a\<lparr>stk := xs\<rparr>) | _ \<Rightarrow> None)"

definition a_sw :: "am \<Rightarrow> am option" where
  "a_sw a = (case stk a of x # y # xs \<Rightarrow> Some (a\<lparr>stk := y # x # xs\<rparr>) | _ \<Rightarrow> None)"

definition a_pu :: "am \<Rightarrow> am option" where
  "a_pu a = (case stk a of x # xs \<Rightarrow> a_rpush x (a\<lparr>stk := xs\<rparr>) | _ \<Rightarrow> None)"

definition a_po :: "am \<Rightarrow> am option" where
  "a_po a = (case rstk a of r # rs \<Rightarrow> a_push r (a\<lparr>rstk := rs\<rparr>) | _ \<Rightarrow> None)"

definition a_ju :: "am \<Rightarrow> am option" where
  "a_ju a = (case stk a of x # xs \<Rightarrow> a_jump x (a\<lparr>stk := xs\<rparr>) | _ \<Rightarrow> None)"

definition a_ca :: "am \<Rightarrow> am option" where
  "a_ca a = (case stk a of x # xs \<Rightarrow> Option.bind (a_rpush (a_ip a) (a\<lparr>stk := xs\<rparr>)) (a_jump x) | _ \<Rightarrow> None)"

definition a_cc :: "am \<Rightarrow> am option" where
  "a_cc a = (case stk a of t # f # xs \<Rightarrow>
       let a = a\<lparr>stk := xs\<rparr> in if f \<noteq> 0 then Option.bind (a_rpush (a_ip a) a) (a_jump t) else Some a
     | _ \<Rightarrow> None)"

definition a_binary :: "(int \<Rightarrow> int \<Rightarrow> int option) \<Rightarrow> am \<Rightarrow> am option" where
  "a_binary f a = (case stk a of t # n # xs \<Rightarrow> map_option (\<lambda>v. a\<lparr>stk := v # xs\<rparr>) (f n t) | _ \<Rightarrow> None)"

definition a_fe :: "am \<Rightarrow> am option" where
  "a_fe a = (case stk a of t # xs \<Rightarrow>
       map_option (\<lambda>v. a\<lparr>stk := v # xs\<rparr>)
         (if t = -1 then Some (int (length xs))
          else if t = -2 then Some (int (length (rstk a)))
          else if t = -3 then Some IMAGE_SIZE
          else if t = -4 then Some CELL_MIN
          else if t = -5 then Some CELL_MAX
          else a_fetch a t)
     | _ \<Rightarrow> None)"

definition a_st :: "am \<Rightarrow> am option" where
  "a_st a = (case stk a of t # xs \<Rightarrow>
       if 0 \<le> t \<and> t \<le> IMAGE_SIZE
       then (case xs of n # ys \<Rightarrow> Some (a\<lparr>a_mem := (a_mem a)(t := n), stk := ys\<rparr>) | _ \<Rightarrow> None)
       else Some (a\<lparr>a_ip := IMAGE_SIZE\<rparr>)
     | _ \<Rightarrow> None)"

definition a_di :: "am \<Rightarrow> am option" where
  "a_di a = (case stk a of t # n # xs \<Rightarrow>
       if t = 0 then None else map_option (\<lambda>q. a\<lparr>stk := q # (n smod t) # xs\<rparr>) (cell (n sdiv t))
     | _ \<Rightarrow> None)"

definition a_zr :: "am \<Rightarrow> am option" where
  "a_zr a = (case stk a of t # xs \<Rightarrow> if t = 0 then a_return (a\<lparr>stk := xs\<rparr>) else Some a | _ \<Rightarrow> None)"

definition a_iq :: "am \<Rightarrow> am option" where
  "a_iq a = (case stk a of t # xs \<Rightarrow>
       if t = 0 \<or> t = 1 then a_push t a else Some a | _ \<Rightarrow> None)"

definition a_ii :: "am \<Rightarrow> am option" where
  "a_ii a = (case stk a of t # xs \<Rightarrow>
       if t = 0 then (case xs of v # ys \<Rightarrow> Some (a\<lparr>stk := ys, a_out := a_out a @ [of_int v]\<rparr>) | _ \<Rightarrow> None)
       else if t = 1 then (case a_in a of c # cs \<Rightarrow>
           if c = 0 then Some (a\<lparr>a_exited := True\<rparr>) else Some (a\<lparr>stk := int (unat c) # xs, a_in := cs\<rparr>)
         | _ \<Rightarrow> None)
       else Some (a\<lparr>stk := xs\<rparr>)
     | _ \<Rightarrow> None)"

text \<open>Shifting by arithmetic: to the left a product, to the right a quotient, in which the code sets the upper bits of a 32 bit word again.\<close>

definition a_shift :: "int \<Rightarrow> int \<Rightarrow> int option" where
  "a_shift x y =
     (if y < 0 then if 0 \<le> x \<and> - y < 64 \<and> x * 2 ^ nat (- y) < 2 ^ 63 then Some (x * 2 ^ nat (- y)) else None
      else if x < 0 \<and> 0 < y then if y < 32 then Some (x div 2 ^ nat y OR (2 ^ 32 - 2 ^ (32 - nat y))) else None
      else if y < 64 then Some (x div 2 ^ nat y) else None)"

definition a_instructions :: "(am \<Rightarrow> am option) list" where
  "a_instructions = [Some, a_li, a_du, a_dr, a_sw, a_pu, a_po,
     a_ju, a_ca, a_cc, a_return,
     a_binary (\<lambda>n t. Some (if n = t then -1 else 0)), a_binary (\<lambda>n t. Some (if n \<noteq> t then -1 else 0)),
     a_binary (\<lambda>n t. Some (if n < t then -1 else 0)), a_binary (\<lambda>n t. Some (if n > t then -1 else 0)),
     a_fe, a_st, a_binary (\<lambda>n t. cell (n + t)), a_binary (\<lambda>n t. cell (n - t)),
     a_binary (\<lambda>n t. cell (n * t)), a_di,
     a_binary (\<lambda>n t. Some (t AND n)), a_binary (\<lambda>n t. Some (t OR n)), a_binary (\<lambda>n t. Some (t XOR n)),
     a_binary a_shift, a_zr, (\<lambda>a. Some (a\<lparr>a_ip := IMAGE_SIZE\<rparr>)), a_push 2, a_iq, a_ii]"

definition a_instruction :: "nat \<Rightarrow> am \<Rightarrow> am option" where
  "a_instruction n a = (if a_exited a then Some a else do { inst \<leftarrow> peek a_instructions n; inst a })"

fun a_bundle :: "nat list \<Rightarrow> am \<Rightarrow> am option" where
  "a_bundle [] a = Some a"
| "a_bundle (n # ns) a = (case a_instruction n a of None \<Rightarrow> None | Some a \<Rightarrow> a_bundle ns a)"

definition opcodes :: "int \<Rightarrow> nat list" where
  "opcodes w = map (\<lambda>i. nat (drop_bit i w AND 0xFF)) [0, 8, 16, 24]"

definition a_step :: "am \<Rightarrow> am option" where
  "a_step a = do {
     w \<leftarrow> a_fetch a (a_ip a);
     a \<leftarrow> a_bundle (opcodes w) a;
     if a_exited a then Some a
     else map_option (\<lambda>i. a\<lparr>a_ip := if rstk a = [] then IMAGE_SIZE else i\<rparr>) (cell (a_ip a + 1))
   }"

text \<open>A terminating run of the abstract machine.\<close>

inductive a_runs :: "am \<Rightarrow> am \<Rightarrow> bool" where
  a_runs_stop: "a_exited a \<or> \<not> a_ip a < IMAGE_SIZE \<Longrightarrow> a_runs a a"
| a_runs_step: "\<not> a_exited a \<Longrightarrow> a_ip a < IMAGE_SIZE \<Longrightarrow> a_step a = Some b \<Longrightarrow> a_runs b c \<Longrightarrow> a_runs a c"

text \<open>A normal order for updates.\<close>

lemma am_order [simp]:
  "a\<lparr>rstk := y, stk := x\<rparr> = a\<lparr>stk := x, rstk := y\<rparr>"
  "a\<lparr>a_ip := i, stk := x\<rparr> = a\<lparr>stk := x, a_ip := i\<rparr>"
  "a\<lparr>a_ip := i, rstk := y\<rparr> = a\<lparr>rstk := y, a_ip := i\<rparr>"
  "a\<lparr>a_mem := m, stk := x\<rparr> = a\<lparr>stk := x, a_mem := m\<rparr>"
  "a\<lparr>a_in := c, stk := x\<rparr> = a\<lparr>stk := x, a_in := c\<rparr>"
  "a\<lparr>a_out := c, stk := x\<rparr> = a\<lparr>stk := x, a_out := c\<rparr>"
  by (cases a; simp)+

section \<open>The arrays represent the stacks\<close>

definition holds :: "int list \<Rightarrow> nat \<Rightarrow> int \<Rightarrow> int list \<Rightarrow> bool" where
  "holds arr n p xs \<longleftrightarrow> length arr = n \<and> p = int (length xs) \<and> length xs < n \<and>
     take (length xs) (drop 1 arr) = rev xs"

definition repr :: "vm \<Rightarrow> am \<Rightarrow> bool" where
  "repr s a \<longleftrightarrow> holds (data s) STACK_DEPTH (sp s) (stk a) \<and> holds (address s) ADDRESSES (rp s) (rstk a) \<and>
     ip s = a_ip a \<and> memory s = a_mem a \<and> retro_code s = a_in a \<and> vm_out s = a_out a \<and> vm_exited s = a_exited a"

lemma holds_top: "holds arr n p (x # xs) \<Longrightarrow> arr_get arr p = Some x"
proof -
  assume h: "holds arr n p (x # xs)"
  then have "take (Suc (length xs)) (drop 1 arr) = rev xs @ [x]" by (simp add: holds_def)
  then have "drop 1 arr ! length xs = x"
    by (metis length_rev lessI nth_append_length nth_take)
  then show ?thesis using h by (simp add: holds_def arr_get_def peek_def nat_add_distrib)
qed

lemma holds_tail: "holds arr n p (x # xs) \<Longrightarrow> holds arr n (p - 1) xs"
proof -
  assume h: "holds arr n p (x # xs)"
  then have "take (length xs) (take (Suc (length xs)) (drop 1 arr)) = take (length xs) (rev xs @ [x])"
    by (simp add: holds_def)
  then show ?thesis using h by (simp add: holds_def)
qed

lemma holds_set:
  assumes "holds arr n (p - 1) xs" "length xs + 1 < n"
  shows "\<exists>arr'. arr_set arr p v = Some arr' \<and> holds arr' n p (v # xs)"
proof -
  have p: "p = int (Suc (length xs))" "length arr = n" "take (length xs) (drop 1 arr) = rev xs"
    using assms by (simp_all add: holds_def)
  have "take (Suc (length xs)) (drop 1 (arr[Suc (length xs) := v])) = take (length xs) (drop 1 arr) @ [v]"
    using assms(2) p(2) by (simp add: drop_update_swap take_Suc_conv_app_nth)
  then have "holds (arr[Suc (length xs) := v]) n p (v # xs)"
    using p assms(2) by (simp add: holds_def)
  moreover have "arr_set arr p v = Some (arr[Suc (length xs) := v])"
    using p assms(2) by (simp add: arr_set_def poke_def nat_add_distrib)
  ultimately show ?thesis by blast
qed

lemma holds_clear:
  assumes "holds arr n p (x # xs)"
  shows "\<exists>arr'. arr_set arr p v = Some arr' \<and> holds arr' n (p - 1) xs"
  using holds_set [OF holds_tail [OF assms], of v] assms
  by (metis holds_tail holds_def length_Cons Suc_eq_plus1)

section \<open>The accessors\<close>

lemma repr_ip [simp]: "repr s a \<Longrightarrow> repr (s\<lparr>ip := i\<rparr>) (a\<lparr>a_ip := i\<rparr>)"
  by (simp add: repr_def)

lemma repr_fields: "repr s a \<Longrightarrow> ip s = a_ip a \<and> memory s = a_mem a \<and> retro_code s = a_in a \<and>
    vm_out s = a_out a \<and> vm_exited s = a_exited a \<and> sp s = int (length (stk a)) \<and> rp s = int (length (rstk a))"
  by (simp add: repr_def holds_def)

lemma repr_TOS: "repr s a \<Longrightarrow> stk a = x # xs \<Longrightarrow> TOS s = Some x"
  by (auto simp: repr_def TOS_def intro: holds_top)

lemma repr_NOS: "repr s a \<Longrightarrow> stk a = x # y # xs \<Longrightarrow> NOS s = Some y"
  by (simp add: repr_def NOS_def) (metis holds_tail holds_top)

lemma repr_TORS: "repr s a \<Longrightarrow> rstk a = x # xs \<Longrightarrow> TORS s = Some x"
  by (auto simp: repr_def TORS_def intro: holds_top)

lemma repr_mem_get: "repr s a \<Longrightarrow> mem_get s i = a_fetch a i"
  by (simp add: repr_def mem_get_def a_fetch_def)

lemma repr_dr:
  assumes "repr s a" "stk a = x # xs"
  shows "\<exists>s'. inst_dr s = Some s' \<and> repr s' (a\<lparr>stk := xs\<rparr>)"
proof -
  obtain d where "arr_set (data s) (sp s) 0 = Some d" "holds d STACK_DEPTH (sp s - 1) xs"
    using holds_clear assms unfolding repr_def by metis
  moreover have "\<not> sp s - 1 < 0" using repr_fields [OF assms(1)] assms(2) by simp
  ultimately show ?thesis using assms by (simp add: inst_dr_def repr_def)
qed

lemma repr_push:
  assumes "repr s a" "length (stk a) + 1 < STACK_DEPTH"
  shows "\<exists>s'. stack_push v s = Some s' \<and> repr s' (a\<lparr>stk := v # stk a\<rparr>)"
proof -
  have "holds (data s) STACK_DEPTH (sp s + 1 - 1) (stk a)" using assms by (simp add: repr_def)
  from holds_set [OF this assms(2), of v] obtain d where
    "arr_set (data s) (sp s + 1) v = Some d" "holds d STACK_DEPTH (sp s + 1) (v # stk a)" by blast
  then show ?thesis using assms(1) by (simp add: stack_push_def repr_def Let_def)
qed

lemma repr_rpush:
  assumes "repr s a" "length (rstk a) + 1 < ADDRESSES"
  shows "\<exists>s'. set_TORS v (s\<lparr>rp := rp s + 1\<rparr>) = Some s' \<and> repr s' (a\<lparr>rstk := v # rstk a\<rparr>)"
proof -
  have "holds (address s) ADDRESSES (rp s + 1 - 1) (rstk a)" using assms by (simp add: repr_def)
  from holds_set [OF this assms(2), of v] obtain d where
    "arr_set (address s) (rp s + 1) v = Some d" "holds d ADDRESSES (rp s + 1) (v # rstk a)" by blast
  then show ?thesis using assms(1) by (simp add: set_TORS_def repr_def)
qed

lemma repr_rpop: "repr s a \<Longrightarrow> rstk a = r # rs \<Longrightarrow> repr (s\<lparr>ip := i, rp := rp s - 1\<rparr>) (a\<lparr>a_ip := i, rstk := rs\<rparr>)"
  by (auto simp: repr_def intro: holds_tail)

lemma repr_rpop': "repr s a \<Longrightarrow> rstk a = r # rs \<Longrightarrow> repr (s\<lparr>rp := rp s - 1\<rparr>) (a\<lparr>rstk := rs\<rparr>)"
  by (auto simp: repr_def intro: holds_tail)

lemma repr_set_TOS:
  assumes "repr s a" "stk a = x # xs"
  shows "\<exists>s'. set_TOS v s = Some s' \<and> repr s' (a\<lparr>stk := v # xs\<rparr>)"
proof -
  have "holds (data s) STACK_DEPTH (sp s - 1) xs" "length xs + 1 < STACK_DEPTH"
    using assms holds_tail by (auto simp: repr_def holds_def)
  from holds_set [OF this, of v] show ?thesis using assms(1) by (auto simp: set_TOS_def repr_def)
qed

lemma holds_set_second:
  assumes "holds arr n p (x # y # xs)"
  shows "\<exists>arr'. arr_set arr (p - 1) v = Some arr' \<and> holds arr' n p (x # v # xs)"
proof -
  have p: "p = int (Suc (Suc (length xs)))" "length arr = n" "Suc (Suc (length xs)) < n"
    "take (Suc (Suc (length xs))) (drop 1 arr) = rev xs @ [y, x]"
    using assms by (simp_all add: holds_def)
  have "take (Suc (Suc (length xs))) (drop 1 (arr[Suc (length xs) := v])) = (rev xs @ [y, x])[length xs := v]"
    unfolding p(4) [symmetric] by (simp add: drop_update_swap take_update_swap)
  also have "\<dots> = rev xs @ [v, x]" by (metis length_rev list_update_length)
  finally have "holds (arr[Suc (length xs) := v]) n p (x # v # xs)" using p by (simp add: holds_def)
  moreover have "arr_set arr (p - 1) v = Some (arr[Suc (length xs) := v])"
    using p by (simp add: arr_set_def poke_def nat_add_distrib)
  ultimately show ?thesis by blast
qed

lemma repr_set_NOS:
  assumes "repr s a" "stk a = x # y # xs"
  shows "\<exists>s'. set_NOS v s = Some s' \<and> repr s' (a\<lparr>stk := x # v # xs\<rparr>)"
  using holds_set_second [of "data s" STACK_DEPTH "sp s" x y xs v] assms by (auto simp: set_NOS_def repr_def)

section \<open>The instructions\<close>

definition simulates :: "(vm \<Rightarrow> vm option) \<Rightarrow> (am \<Rightarrow> am option) \<Rightarrow> bool" where
  "simulates f g \<longleftrightarrow> (\<forall>s a a'. repr s a \<longrightarrow> g a = Some a' \<longrightarrow> (\<exists>s'. f s = Some s' \<and> repr s' a'))"

lemma simulatesI: "(\<And>s a a'. repr s a \<Longrightarrow> g a = Some a' \<Longrightarrow> \<exists>s'. f s = Some s' \<and> repr s' a') \<Longrightarrow> simulates f g"
  by (auto simp: simulates_def)

lemma simulatesD: "simulates f g \<Longrightarrow> repr s a \<Longrightarrow> g a = Some a' \<Longrightarrow> \<exists>s'. f s = Some s' \<and> repr s' a'"
  by (auto simp: simulates_def)

lemma sim_no: "simulates inst_no Some"
  by (simp add: simulates_def inst_no_def)

lemma sim_ha: "simulates inst_ha (\<lambda>a. Some (a\<lparr>a_ip := IMAGE_SIZE\<rparr>))"
  by (simp add: simulates_def inst_ha_def)

lemma sim_push: "simulates (stack_push v) (a_push v)"
  by (rule simulatesI) (auto simp: a_push_def dest: repr_push split: if_splits)

lemma sim_li: "simulates inst_li a_li"
proof (rule simulatesI)
  fix s a a' assume r: "repr s a" and "a_li a = Some a'"
  then obtain v where v: "a_fetch a (a_ip a + 1) = Some v" "a_push v (a\<lparr>a_ip := a_ip a + 1\<rparr>) = Some a'"
    by (auto simp: a_li_def bind_Some_iff)
  have "ip s = a_ip a" using repr_fields [OF r] by simp
  moreover have "mem_get (s\<lparr>ip := i\<rparr>) j = mem_get s j" for i j by (simp add: mem_get_def)
  ultimately show "\<exists>s'. inst_li s = Some s' \<and> repr s' a'"
    using simulatesD [OF sim_push repr_ip [OF r] v(2)] v(1) repr_mem_get [OF r] by (simp add: inst_li_def)
qed

lemma sim_du: "simulates inst_du a_du"
proof (rule simulatesI)
  fix s a a' assume r: "repr s a" and "a_du a = Some a'"
  then obtain x xs where "stk a = x # xs" "a_push x a = Some a'" by (auto simp: a_du_def split: list.splits)
  then show "\<exists>s'. inst_du s = Some s' \<and> repr s' a'"
    using simulatesD [OF sim_push r] repr_TOS [OF r] by (simp add: inst_du_def)
qed

lemma sim_dr: "simulates inst_dr a_dr"
  by (rule simulatesI) (auto simp: a_dr_def dest: repr_dr split: list.splits)

lemma sim_sw: "simulates inst_sw a_sw"
proof (rule simulatesI)
  fix s a a' assume r: "repr s a" and "a_sw a = Some a'"
  then obtain x y xs where st: "stk a = x # y # xs" "a' = a\<lparr>stk := y # x # xs\<rparr>"
    by (auto simp: a_sw_def split: list.splits)
  obtain s1 where s1: "set_TOS y s = Some s1" "repr s1 (a\<lparr>stk := y # y # xs\<rparr>)" using repr_set_TOS [OF r st(1)] by blast
  obtain s2 where "set_NOS x s1 = Some s2" "repr s2 (a\<lparr>stk := y # x # xs\<rparr>)"
    using repr_set_NOS [OF s1(2), of y y xs x] by auto
  then show "\<exists>s'. inst_sw s = Some s' \<and> repr s' a'"
    using repr_TOS [OF r st(1)] repr_NOS [OF r st(1)] s1(1) st(2) by (simp add: inst_sw_def)
qed

lemma sim_binary: "simulates (binary f) (a_binary f)"
proof (rule simulatesI)
  fix s a a' assume r: "repr s a" and "a_binary f a = Some a'"
  then obtain t n xs v where st: "stk a = t # n # xs" "f n t = Some v" "a' = a\<lparr>stk := v # xs\<rparr>"
    by (auto simp: a_binary_def split: list.splits)
  obtain s1 where s1: "set_NOS v s = Some s1" "repr s1 (a\<lparr>stk := t # v # xs\<rparr>)" using repr_set_NOS [OF r st(1)] by blast
  obtain s2 where "inst_dr s1 = Some s2" "repr s2 (a\<lparr>stk := v # xs\<rparr>)" using repr_dr [OF s1(2), of t "v # xs"] by auto
  then show "\<exists>s'. binary f s = Some s' \<and> repr s' a'"
    using repr_TOS [OF r st(1)] repr_NOS [OF r st(1)] s1(1) st(2,3) by (simp add: binary_def)
qed

lemma a_shift_eq: "a_shift x y = shift x y"
proof -
  have r: "0xFFFFFFFF - drop_bit n 0xFFFFFFFF = (2 ^ 32 - 2 ^ (32 - n) :: int)" if "n < 32" for n
  proof -
    have "list_all (\<lambda>n. 0xFFFFFFFF - 0xFFFFFFFF div 2 ^ n = (2 ^ 32 - 2 ^ (32 - n) :: int)) [0..<32]" by code_simp
    then show ?thesis using that by (simp add: list_all_iff drop_bit_eq_div)
  qed
  have l: "(if 0 \<le> x \<and> - y < 64 then cell (push_bit (nat (- y)) x) else None) =
    (if 0 \<le> x \<and> - y < 64 \<and> x * 2 ^ nat (- y) < 2 ^ 63 then Some (x * 2 ^ nat (- y)) else None)"
  proof -
    have "- (2 ^ 63) \<le> x * 2 ^ nat (- y)" if "0 \<le> x"
    proof -
      have "0 \<le> x * 2 ^ nat (- y)" using that by simp
      then show ?thesis by (rule order_trans [rotated]) simp
    qed
    then show ?thesis by (auto simp: cell_def cell_ok_def push_bit_eq_mult)
  qed
  have n: "y < 32 \<Longrightarrow> 0 < y \<Longrightarrow> nat y < 32" by simp
  show ?thesis unfolding shift_def a_shift_def l by (simp add: r [OF n] drop_bit_eq_div [of "nat y" x])
qed

lemma sim_pu: "simulates inst_pu a_pu"
proof (rule simulatesI)
  fix s a a' assume r: "repr s a" and "a_pu a = Some a'"
  then obtain x xs where st: "stk a = x # xs" "length (rstk a) + 1 < ADDRESSES" "a' = a\<lparr>stk := xs, rstk := x # rstk a\<rparr>"
    by (auto simp: a_pu_def a_rpush_def split: list.splits if_splits)
  obtain s1 where s1: "set_TORS x (s\<lparr>rp := rp s + 1\<rparr>) = Some s1" "repr s1 (a\<lparr>rstk := x # rstk a\<rparr>)"
    using repr_rpush [OF r st(2)] by blast
  obtain s2 where "inst_dr s1 = Some s2" "repr s2 (a\<lparr>rstk := x # rstk a, stk := xs\<rparr>)"
    using repr_dr [OF s1(2), of x xs] st(1) by auto
  moreover have "TOS (s\<lparr>rp := rp s + 1\<rparr>) = Some x" using repr_TOS [OF r st(1)] by (simp add: TOS_def)
  ultimately show "\<exists>s'. inst_pu s = Some s' \<and> repr s' a'"
    using s1(1) st(3) by (simp add: inst_pu_def)
qed

lemma stack_push_rp: "stack_push v s = Some s' \<Longrightarrow> rp s' = rp s"
  by (auto simp: stack_push_def Let_def)

lemma sim_po: "simulates inst_po a_po"
proof (rule simulatesI)
  fix s a a' assume r: "repr s a" and "a_po a = Some a'"
  then obtain x xs where st: "rstk a = x # xs" "length (stk a) + 1 < STACK_DEPTH" "a' = a\<lparr>rstk := xs, stk := x # stk a\<rparr>"
    by (auto simp: a_po_def a_push_def split: list.splits if_splits)
  obtain s1 where s1: "stack_push x s = Some s1" "repr s1 (a\<lparr>stk := x # stk a\<rparr>)" using repr_push [OF r st(2)] by blast
  then have "repr (s1\<lparr>rp := rp s1 - 1\<rparr>) a'" using repr_rpop' [OF s1(2), of x xs] st(1,3) by simp
  then show "\<exists>s'. inst_po s = Some s' \<and> repr s' a'"
    using repr_TORS [OF r st(1)] s1(1) by (simp add: inst_po_def)
qed

lemma sim_ju: "simulates inst_ju a_ju"
proof (rule simulatesI)
  fix s a a' assume r: "repr s a" and "a_ju a = Some a'"
  then obtain x xs i where st: "stk a = x # xs" "cell (x - 1) = Some i" "a' = a\<lparr>stk := xs, a_ip := i\<rparr>"
    by (auto simp: a_ju_def a_jump_def split: list.splits)
  have "repr (s\<lparr>ip := i\<rparr>) (a\<lparr>a_ip := i\<rparr>)" using r by simp
  from repr_dr [OF this, of x xs] show "\<exists>s'. inst_ju s = Some s' \<and> repr s' a'"
    using repr_TOS [OF r st(1)] st by (simp add: inst_ju_def)
qed

lemma sim_ca: "simulates inst_ca a_ca"
proof (rule simulatesI)
  fix s a a' assume r: "repr s a" and "a_ca a = Some a'"
  then obtain x xs i where st: "stk a = x # xs" "length (rstk a) + 1 < ADDRESSES" "cell (x - 1) = Some i"
    "a' = a\<lparr>stk := xs, rstk := a_ip a # rstk a, a_ip := i\<rparr>"
    by (auto simp: a_ca_def a_rpush_def a_jump_def bind_Some_iff split: list.splits if_splits)
  have ip: "ip s = a_ip a" using repr_fields [OF r] by simp
  obtain s1 where s1: "set_TORS (a_ip a) (s\<lparr>rp := rp s + 1\<rparr>) = Some s1" "repr s1 (a\<lparr>rstk := a_ip a # rstk a\<rparr>)"
    using repr_rpush [OF r st(2)] by blast
  have "TOS s1 = Some x" using repr_TOS [OF s1(2)] st(1) by simp
  moreover have "repr (s1\<lparr>ip := i\<rparr>) (a\<lparr>rstk := a_ip a # rstk a, a_ip := i\<rparr>)" using repr_ip [OF s1(2)] by simp
  from repr_dr [OF this, of x xs] obtain s2 where
    "inst_dr (s1\<lparr>ip := i\<rparr>) = Some s2" "repr s2 (a\<lparr>rstk := a_ip a # rstk a, a_ip := i, stk := xs\<rparr>)" using st(1) by auto
  ultimately show "\<exists>s'. inst_ca s = Some s' \<and> repr s' a'"
    using s1(1) st(3,4) ip by (simp add: inst_ca_def)
qed

lemma sim_cc: "simulates inst_cc a_cc"
proof (rule simulatesI)
  fix s a a' assume r: "repr s a" and acc: "a_cc a = Some a'"
  then obtain t f xs where st: "stk a = t # f # xs" by (auto simp: a_cc_def split: list.splits)
  obtain s1 where s1: "inst_dr s = Some s1" "repr s1 (a\<lparr>stk := f # xs\<rparr>)" using repr_dr [OF r st] by blast
  obtain s2 where s2: "inst_dr s1 = Some s2" "repr s2 (a\<lparr>stk := xs\<rparr>)" using repr_dr [OF s1(2), of f xs] by auto
  have tops: "TOS s = Some t" "TOS s1 = Some f" using repr_TOS [OF r st] repr_TOS [OF s1(2), of f xs] by simp_all
  show "\<exists>s'. inst_cc s = Some s' \<and> repr s' a'"
  proof (cases "f = 0")
    case True
    then show ?thesis using acc st s1 s2 tops by (simp add: a_cc_def inst_cc_def)
  next
    case False
    then obtain i where i: "length (rstk a) + 1 < ADDRESSES" "cell (t - 1) = Some i"
      "a' = a\<lparr>stk := xs, rstk := a_ip a # rstk a, a_ip := i\<rparr>"
      using acc st by (auto simp: a_cc_def a_rpush_def a_jump_def bind_Some_iff Let_def split: if_splits)
    have ip: "ip s2 = a_ip a" using repr_fields [OF s2(2)] by simp
    obtain s3 where "set_TORS (a_ip a) (s2\<lparr>rp := rp s2 + 1\<rparr>) = Some s3"
      "repr s3 (a\<lparr>stk := xs, rstk := a_ip a # rstk a\<rparr>)"
      using repr_rpush [OF s2(2), of "a_ip a"] i(1) by auto
    then show ?thesis using repr_ip False s1(1) s2(1) tops i ip by (simp add: inst_cc_def)
  qed
qed

lemma sim_return: "simulates inst_re a_return"
proof (rule simulatesI)
  fix s a a' assume r: "repr s a" and "a_return a = Some a'"
  then obtain x xs where "rstk a = x # xs" "a' = a\<lparr>a_ip := x, rstk := xs\<rparr>" by (auto simp: a_return_def split: list.splits)
  then show "\<exists>s'. inst_re s = Some s' \<and> repr s' a'"
    using repr_TORS [OF r] repr_rpop [OF r] by (simp add: inst_re_def)
qed

lemma sim_zr: "simulates inst_zr a_zr"
proof (rule simulatesI)
  fix s a a' assume r: "repr s a" and azr: "a_zr a = Some a'"
  then obtain t xs where st: "stk a = t # xs" by (auto simp: a_zr_def split: list.splits)
  show "\<exists>s'. inst_zr s = Some s' \<and> repr s' a'"
  proof (cases "t = 0")
    case True
    obtain s1 where s1: "inst_dr s = Some s1" "repr s1 (a\<lparr>stk := xs\<rparr>)" using repr_dr [OF r st] by blast
    moreover have "a_return (a\<lparr>stk := xs\<rparr>) = Some a'" using azr st True by (simp add: a_zr_def)
    ultimately show ?thesis
      using simulatesD [OF sim_return s1(2)] repr_TOS [OF r st] True by (simp add: inst_zr_def inst_re_def)
  qed (use azr st r repr_TOS [OF r st] in \<open>simp add: a_zr_def inst_zr_def\<close>)
qed

lemma sim_fe: "simulates inst_fe a_fe"
proof (rule simulatesI)
  fix s a a' assume r: "repr s a" and afe: "a_fe a = Some a'"
  then obtain t xs where st: "stk a = t # xs" by (auto simp: a_fe_def split: list.splits)
  have f: "sp s = int (length xs) + 1" "rp s = int (length (rstk a))" using repr_fields [OF r] st by simp_all
  show "\<exists>s'. inst_fe s = Some s' \<and> repr s' a'"
    using afe st repr_TOS [OF r st] repr_set_TOS [OF r st] repr_mem_get [OF r, of t] f
    by (auto simp: a_fe_def inst_fe_def split: if_splits)
qed

lemma sim_st: "simulates inst_st a_st"
proof (rule simulatesI)
  fix s a a' assume r: "repr s a" and ast: "a_st a = Some a'"
  then obtain t xs where st: "stk a = t # xs" by (auto simp: a_st_def split: list.splits)
  show "\<exists>s'. inst_st s = Some s' \<and> repr s' a'"
  proof (cases "0 \<le> t \<and> t \<le> IMAGE_SIZE")
    case True
    then obtain n ys where xs: "xs = n # ys" "a' = a\<lparr>a_mem := (a_mem a)(t := n), stk := ys\<rparr>"
      using ast st by (auto simp: a_st_def split: list.splits)
    define s0 where "s0 = s\<lparr>memory := (memory s)(t := n)\<rparr>"
    have r0: "repr s0 (a\<lparr>a_mem := (a_mem a)(t := n)\<rparr>)" using r by (simp add: s0_def repr_def)
    obtain s1 where s1: "inst_dr s0 = Some s1" "repr s1 (a\<lparr>a_mem := (a_mem a)(t := n), stk := n # ys\<rparr>)"
      using repr_dr [OF r0, of t xs] st xs by auto
    obtain s2 where "inst_dr s1 = Some s2" "repr s2 (a\<lparr>a_mem := (a_mem a)(t := n), stk := ys\<rparr>)"
      using repr_dr [OF s1(2), of n ys] by auto
    then show ?thesis
      using True repr_TOS [OF r st] repr_NOS [OF r, of t n ys] st xs s1(1)
      by (simp add: inst_st_def mem_set_def s0_def)
  qed (use ast st r repr_TOS [OF r st] in \<open>auto simp: a_st_def inst_st_def\<close>)
qed

lemma sim_di: "simulates inst_di a_di"
proof (rule simulatesI)
  fix s a a' assume r: "repr s a" and "a_di a = Some a'"
  then obtain t n xs q where st: "stk a = t # n # xs" "t \<noteq> 0" "cell (n sdiv t) = Some q" "a' = a\<lparr>stk := q # (n smod t) # xs\<rparr>"
    by (auto simp: a_di_def split: list.splits if_splits)
  obtain s1 where s1: "set_TOS q s = Some s1" "repr s1 (a\<lparr>stk := q # n # xs\<rparr>)" using repr_set_TOS [OF r st(1)] by blast
  obtain s2 where "set_NOS (n smod t) s1 = Some s2" "repr s2 (a\<lparr>stk := q # (n smod t) # xs\<rparr>)"
    using repr_set_NOS [OF s1(2), of q n xs "n smod t"] by auto
  then show "\<exists>s'. inst_di s = Some s' \<and> repr s' a'"
    using repr_TOS [OF r st(1)] repr_NOS [OF r st(1)] s1(1) st by (simp add: inst_di_def)
qed

lemma sim_iq: "simulates inst_iq a_iq"
proof (rule simulatesI)
  fix s a a' assume r: "repr s a" and aiq: "a_iq a = Some a'"
  then obtain t xs where st: "stk a = t # xs" by (auto simp: a_iq_def split: list.splits)
  show "\<exists>s'. inst_iq s = Some s' \<and> repr s' a'"
  proof (cases "t = 0 \<or> t = 1")
    case True
    then have room: "length xs + 2 < STACK_DEPTH" "a' = a\<lparr>stk := t # t # xs\<rparr>"
      using aiq st by (auto simp: a_iq_def a_push_def split: if_splits)
    obtain s1 where s1: "inst_dr s = Some s1" "repr s1 (a\<lparr>stk := xs\<rparr>)" using repr_dr [OF r st] by blast
    obtain s2 where s2: "stack_push t s1 = Some s2" "repr s2 (a\<lparr>stk := t # xs\<rparr>)"
      using repr_push [OF s1(2), of t] room(1) by auto
    obtain s3 where "stack_push t s2 = Some s3" "repr s3 (a\<lparr>stk := t # t # xs\<rparr>)"
      using repr_push [OF s2(2), of t] room(1) by auto
    then show ?thesis using True s1(1) s2(1) room(2) repr_TOS [OF r st] by (auto simp: inst_iq_def)
  qed (use aiq st r repr_TOS [OF r st] in \<open>simp add: a_iq_def inst_iq_def\<close>)
qed

lemma repr_pop:
  assumes "repr s a" "stk a = x # xs"
  shows "stack_pop s = Some (x, s\<lparr>sp := sp s - 1\<rparr>)" "repr (s\<lparr>sp := sp s - 1\<rparr>) (a\<lparr>stk := xs\<rparr>)"
  using assms holds_top [of "data s" STACK_DEPTH "sp s" x xs] holds_tail [of "data s" STACK_DEPTH "sp s" x xs]
  by (simp_all add: stack_pop_def repr_def Let_def)

lemma sim_ii: "simulates inst_ii a_ii"
proof (rule simulatesI)
  fix s a a' assume r: "repr s a" and aii: "a_ii a = Some a'"
  then obtain t xs where st: "stk a = t # xs" by (auto simp: a_ii_def split: list.splits)
  obtain s1 where s1: "inst_dr s = Some s1" "repr s1 (a\<lparr>stk := xs\<rparr>)" using repr_dr [OF r st] by blast
  note top = repr_TOS [OF r st]
  consider "t = 0" | "t = 1" | "t \<noteq> 0" "t \<noteq> 1" by blast
  then show "\<exists>s'. inst_ii s = Some s' \<and> repr s' a'"
  proof cases
    case 1
    then obtain v ys where xs: "xs = v # ys" "a' = a\<lparr>stk := ys, a_out := a_out a @ [of_int v]\<rparr>"
      using aii st by (auto simp: a_ii_def split: list.splits)
    have "repr (s1\<lparr>sp := sp s1 - 1\<rparr>) (a\<lparr>stk := ys\<rparr>)" "stack_pop s1 = Some (v, s1\<lparr>sp := sp s1 - 1\<rparr>)"
      using repr_pop [OF s1(2), of v ys] xs by simp_all
    then show ?thesis using 1 top s1(1) xs(2) by (simp add: inst_ii_def repr_def)
  next
    case 2
    then obtain c cs where c: "a_in a = c # cs"
      "a' = (if c = 0 then a\<lparr>a_exited := True\<rparr> else a\<lparr>stk := int (unat c) # xs, a_in := cs\<rparr>)"
      using aii st by (auto simp: a_ii_def split: list.splits if_splits)
    have code: "peek (retro_code s) 0 = Some c" using repr_fields [OF r] c(1) by (simp add: peek_def)
    have "length xs + 1 < STACK_DEPTH" using r st by (simp add: repr_def holds_def)
    then obtain s2 where s2: "stack_push (int (unat c)) s1 = Some s2" "repr s2 (a\<lparr>stk := int (unat c) # xs\<rparr>)"
      using repr_push [OF s1(2), of "int (unat c)"] by auto
    have "repr (s\<lparr>vm_exited := True\<rparr>) (a\<lparr>a_exited := True\<rparr>)" using r by (simp add: repr_def)
    moreover have "repr (s2\<lparr>retro_code := drop 1 (retro_code s2)\<rparr>) (a\<lparr>stk := int (unat c) # xs, a_in := cs\<rparr>)"
      using s2(2) c(1) by (simp add: repr_def)
    ultimately show ?thesis using 2 top code s1(1) s2(1) c(2) by (cases "c = 0") (simp_all add: inst_ii_def)
  next
    case 3
    then show ?thesis using aii st top s1 by (simp add: a_ii_def inst_ii_def)
  qed
qed

section \<open>Bundles and execution\<close>

lemma a_shift_shift: "a_shift = shift"
  by (intro ext) (rule a_shift_eq)

lemma instructions_simulate: "list_all2 simulates instructions a_instructions"
  unfolding instructions_def a_instructions_def inst_eq_def inst_ne_def inst_lt_def inst_gt_def inst_ad_def inst_su_def
    inst_mu_def inst_an_def inst_or_def inst_xo_def inst_sh_def flag_def a_shift_shift
  by (simp add: sim_no sim_li sim_du sim_dr sim_sw sim_pu sim_po sim_ju sim_ca sim_cc sim_return sim_binary sim_fe sim_st
      sim_di sim_zr sim_ha sim_iq sim_ii inst_ie_def [abs_def] sim_push)

lemma sim_instruction: "simulates (run_instruction n) (a_instruction n)"
proof (rule simulatesI)
  fix s a a' assume r: "repr s a" and an: "a_instruction n a = Some a'"
  have ex: "vm_exited s = a_exited a" using repr_fields [OF r] by simp
  show "\<exists>s'. run_instruction n s = Some s' \<and> repr s' a'"
  proof (cases "a_exited a")
    case False
    then obtain g where g: "n < length a_instructions" "g = a_instructions ! n" "g a = Some a'"
      using an by (auto simp: a_instruction_def bind_Some_iff mem_simps)
    then have "n < length instructions" "simulates (instructions ! n) g"
      using list_all2_nthD2 [OF instructions_simulate] list_all2_lengthD [OF instructions_simulate] by auto
    then show ?thesis
      using simulatesD [of "instructions ! n" g s a a'] r g(3) False ex by (simp add: run_instruction_def mem_simps)
  qed (use an ex r in \<open>simp add: a_instruction_def run_instruction_def\<close>)
qed

lemma sim_bind:
  assumes "simulates f g" "simulates f' g'"
  shows "simulates (\<lambda>s. Option.bind (f s) f') (\<lambda>a. Option.bind (g a) g')"
  using assms by (fastforce simp: simulates_def bind_Some_iff)

lemma sim_bundle: "simulates (process_opcode_bundle w) (a_bundle (opcodes w))"
proof -
  have "a_bundle (opcodes w) = (\<lambda>a. Option.bind (a_instruction (nat (w AND 0xFF)) a)
      (\<lambda>a. Option.bind (a_instruction (nat (drop_bit 8 w AND 0xFF)) a)
      (\<lambda>a. Option.bind (a_instruction (nat (drop_bit 16 w AND 0xFF)) a)
      (a_instruction (nat (drop_bit 24 w AND 0xFF))))))"
    by (auto simp: fun_eq_iff opcodes_def split: option.splits bind_split)
  then show ?thesis
    unfolding process_opcode_bundle_def [abs_def] by (simp add: sim_bind sim_instruction)
qed

lemma sim_step: "simulates execute_step a_step"
proof (rule simulatesI)
  fix s a a' assume r: "repr s a" and "a_step a = Some a'"
  then obtain w b where w: "a_fetch a (a_ip a) = Some w" "a_bundle (opcodes w) a = Some b"
    "(if a_exited b then Some b
      else map_option (\<lambda>i. b\<lparr>a_ip := if rstk b = [] then IMAGE_SIZE else i\<rparr>) (cell (a_ip b + 1))) = Some a'"
    by (auto simp: a_step_def bind_Some_iff)
  obtain s1 where s1: "process_opcode_bundle w s = Some s1" "repr s1 b" using simulatesD [OF sim_bundle r w(2)] by blast
  have f: "ip s1 = a_ip b" "vm_exited s1 = a_exited b" "rp s1 = int (length (rstk b))" using repr_fields [OF s1(2)] by simp_all
  have "mem_get s (ip s) = Some w" using repr_mem_get [OF r] repr_fields [OF r] w(1) by simp
  then show "\<exists>s'. execute_step s = Some s' \<and> repr s' a'"
    using s1 f w(3) by (cases "a_exited b"; cases "rstk b = []") (auto simp: execute_step_def Let_def)
qed

lemma execute_loop_more: "execute_loop n s = Done s' \<Longrightarrow> n \<le> m \<Longrightarrow> execute_loop m s = Done s'"
proof (induction n arbitrary: s m)
  case 0
  then show ?case by (subst execute_loop.simps) (subst (asm) execute_loop.simps, auto split: if_splits)
next
  case (Suc n)
  then obtain k where k: "m = Suc k" "n \<le> k" by (cases m) auto
  show ?case
  proof (cases "vm_exited s \<or> \<not> ip s < IMAGE_SIZE")
    case False
    then obtain t where "execute_step s = Some t" "execute_loop n t = Done s'"
      using Suc.prems(1) by (subst (asm) execute_loop.simps) (auto split: option.splits)
    then show ?thesis using Suc.IH [of t k] k False by (subst execute_loop.simps) simp
  qed (use Suc.prems(1) in \<open>subst execute_loop.simps, subst (asm) execute_loop.simps, simp\<close>)
qed

lemma runs_simulated:
  assumes "a_runs a c" "repr s a"
  shows "\<exists>n s'. execute_loop n s = Done s' \<and> repr s' c"
  using assms
proof (induction arbitrary: s rule: a_runs.induct)
  case (a_runs_stop a)
  then have "execute_loop 0 s = Done s" using repr_fields [OF a_runs_stop(2)] by (subst execute_loop.simps) auto
  then show ?case using a_runs_stop by blast
next
  case (a_runs_step a b c)
  obtain s1 where s1: "execute_step s = Some s1" "repr s1 b"
    using simulatesD [OF sim_step a_runs_step.prems a_runs_step(3)] by blast
  obtain n s' where "execute_loop n s1 = Done s'" "repr s' c" using a_runs_step.IH [OF s1(2)] by blast
  moreover have "\<not> vm_exited s" "ip s < IMAGE_SIZE" using repr_fields [OF a_runs_step.prems] a_runs_step(1,2) by simp_all
  ultimately have "execute_loop (Suc n) s = Done s'" using s1(1) by (subst execute_loop.simps) simp
  then show ?case using \<open>repr s' c\<close> by blast
qed

text \<open>C5.  The machine implements its specification: whenever the abstract machine, with stacks as
  lists, runs from the entry state to its end, \<open>execute\<close> terminates, for every sufficient number
  of steps, in the state that the arrays and pointers represent: same stacks, memory, input and
  output.\<close>

theorem retro_execute_refines:
  assumes "repr (s\<lparr>rp := 1, ip := c\<rparr>) a" "a_runs a b"
  shows "\<exists>n s'. repr s' b \<and> (\<forall>m\<ge>n. execute m c s = Done s')"
  using runs_simulated [OF assms(2,1)] execute_loop_more unfolding execute_def by meson

text \<open>A program of one bundle: two literals, add, halt.\<close>

definition add_program :: "int \<Rightarrow> int" where
  "add_program = (\<lambda>_. 0)(0 := 1 + 256 * 1 + 65536 * 17 + 16777216 * 26, 1 := 3, 2 := 4)"

definition add_vm :: vm where
  "add_vm = \<lparr>sp = 0, rp = 0, ip = 0, data = replicate STACK_DEPTH 0, address = replicate ADDRESSES 0,
     memory = add_program, retro_code = [0], vm_out = [], vm_exited = False\<rparr>"

definition add_am :: am where
  "add_am = \<lparr>stk = [], rstk = [0], a_ip = 0, a_mem = add_program, a_in = [0], a_out = [], a_exited = False\<rparr>"

lemma add_program_opcodes: "opcodes (add_program 0) = [1, 1, 17, 26]"
  by (simp add: opcodes_def add_program_def)

lemma add_runs: "a_runs add_am (add_am\<lparr>stk := [7], a_ip := IMAGE_SIZE + 1\<rparr>)"
proof -
  have "a_bundle [1, 1, 17, 26] add_am = Some (add_am\<lparr>stk := [7], a_ip := IMAGE_SIZE\<rparr>)"
    by (simp add: a_instruction_def a_instructions_def peek_def a_li_def a_fetch_def a_push_def a_binary_def cell_def
        cell_ok_def add_am_def add_program_def STACK_DEPTH_def IMAGE_SIZE_def)
  then have "a_step add_am = Some (add_am\<lparr>stk := [7], a_ip := IMAGE_SIZE + 1\<rparr>)"
    using add_program_opcodes
    by (simp add: a_step_def a_fetch_def add_am_def IMAGE_SIZE_def cell_def cell_ok_def)
  then show ?thesis
    by (rule a_runs_step [rotated 2]) (auto simp: add_am_def IMAGE_SIZE_def intro: a_runs_stop)
qed

theorem retro_execute_refines_witness:
  "\<exists>n s'. sp s' = 1 \<and> TOS s' = Some 7 \<and> (\<forall>m\<ge>n. execute m 0 add_vm = Done s')"
proof -
  have "repr (add_vm\<lparr>rp := 1, ip := 0\<rparr>) add_am"
    by (simp add: repr_def holds_def add_vm_def add_am_def STACK_DEPTH_def ADDRESSES_def)
  from retro_execute_refines [OF this add_runs] obtain n s' where
    r: "repr s' (add_am\<lparr>stk := [7], a_ip := IMAGE_SIZE + 1\<rparr>)" and "\<forall>m\<ge>n. execute m 0 add_vm = Done s'" by blast
  moreover have "sp s' = 1" using repr_fields [OF r] by simp
  moreover have "TOS s' = Some 7" using repr_TOS [OF r] by simp
  ultimately show ?thesis by blast
qed

end
