(* ===== verification/Retro_Safety.thy ===== *)
theory Retro_Safety
  imports Retro_Spec
begin

unbundle bit_operations_syntax

text \<open>
  Invariants of the machine of \<open>retro.c\<close>, the shift instruction, and the memory functions that
  put the image and strings into the machine.
\<close>

section \<open>The type invariant\<close>

definition vm_ok :: "vm \<Rightarrow> bool" where
  "vm_ok s \<longleftrightarrow> length (data s) = STACK_DEPTH \<and> length (address s) = ADDRESSES \<and>
     -1 \<le> sp s \<and> sp s < int STACK_DEPTH \<and> -1 \<le> rp s \<and> rp s < int ADDRESSES \<and> cell_ok (ip s) \<and>
     (\<forall>x\<in>set (data s). cell_ok x) \<and> (\<forall>x\<in>set (address s). cell_ok x) \<and> (\<forall>i. cell_ok (memory s i))"

definition preserves :: "(vm \<Rightarrow> vm option) \<Rightarrow> bool" where
  "preserves f \<longleftrightarrow> (\<forall>s s'. vm_ok s \<longrightarrow> f s = Some s' \<longrightarrow> vm_ok s')"

lemma preservesI: "(\<And>s s'. vm_ok s \<Longrightarrow> f s = Some s' \<Longrightarrow> vm_ok s') \<Longrightarrow> preserves f"
  by (auto simp: preserves_def)

lemma preservesD: "preserves f \<Longrightarrow> vm_ok s \<Longrightarrow> f s = Some s' \<Longrightarrow> vm_ok s'"
  by (auto simp: preserves_def)

lemma cell_ok_small [simp]: "cell_ok 0" "cell_ok 1" "cell_ok 2" "cell_ok (-1)" "cell_ok IMAGE_SIZE" "cell_ok CELL_MIN" "cell_ok CELL_MAX"
  by (simp_all add: cell_ok_def IMAGE_SIZE_def CELL_MIN_def CELL_MAX_def)

lemma cell_ok_byte: "cell_ok (int (unat (c :: u8)))"
proof -
  have "0 \<le> int (unat c)" "int (unat c) < 256" using unat_lt_256 [of c] by linarith+
  moreover have "cell_ok i" if "0 \<le> i" "i < 256" for i using that by (simp add: cell_ok_def)
  ultimately show ?thesis by blast
qed

lemma cell_Some: "cell i = Some j \<Longrightarrow> j = i \<and> cell_ok i"
  by (auto simp: cell_def split: if_splits)

lemma vm_ok_tops:
  "TOS s = Some v \<Longrightarrow> vm_ok s \<Longrightarrow> cell_ok v" "NOS s = Some v \<Longrightarrow> vm_ok s \<Longrightarrow> cell_ok v"
  "TORS s = Some v \<Longrightarrow> vm_ok s \<Longrightarrow> cell_ok v" "mem_get s a = Some v \<Longrightarrow> vm_ok s \<Longrightarrow> cell_ok v"
  by (auto simp: vm_ok_def TOS_def NOS_def TORS_def arr_get_def peek_def mem_get_def split: if_splits)

lemma vm_ok_pointers: "vm_ok s \<Longrightarrow> cell_ok (sp s - 1)" "vm_ok s \<Longrightarrow> cell_ok (rp s)" "vm_ok s \<Longrightarrow> cell_ok (ip s)"
  by (auto simp: vm_ok_def cell_ok_def STACK_DEPTH_def ADDRESSES_def)

lemma vm_ok_ip: "vm_ok s \<Longrightarrow> cell_ok i \<Longrightarrow> vm_ok (s\<lparr>ip := i\<rparr>)"
  by (simp add: vm_ok_def)

lemma arr_set_cells:
  assumes "arr_set xs i v = Some ys" "\<forall>x\<in>set xs. cell_ok x" "cell_ok v"
  shows "length ys = length xs" "\<forall>x\<in>set ys. cell_ok x" "0 \<le> i" "i < int (length xs)"
  using assms set_update_subset_insert [of xs "nat i" v]
  by (auto simp: arr_set_def poke_def split: if_splits)

lemma vm_ok_set_TOS: "set_TOS v s = Some s' \<Longrightarrow> vm_ok s \<Longrightarrow> cell_ok v \<Longrightarrow> vm_ok s'"
  by (auto simp: set_TOS_def vm_ok_def dest: arr_set_cells)

lemma vm_ok_set_NOS: "set_NOS v s = Some s' \<Longrightarrow> vm_ok s \<Longrightarrow> cell_ok v \<Longrightarrow> vm_ok s'"
  by (auto simp: set_NOS_def vm_ok_def dest: arr_set_cells)

lemma vm_ok_rpush: "set_TORS v (s\<lparr>rp := rp s + 1\<rparr>) = Some s' \<Longrightarrow> vm_ok s \<Longrightarrow> cell_ok v \<Longrightarrow> vm_ok s'"
  by (auto simp: set_TORS_def vm_ok_def dest: arr_set_cells)

lemma vm_ok_push: "stack_push v s = Some s' \<Longrightarrow> vm_ok s \<Longrightarrow> cell_ok v \<Longrightarrow> vm_ok s'"
  by (auto simp: stack_push_def vm_ok_def Let_def dest: arr_set_cells)

lemma vm_ok_dr: "inst_dr s = Some s' \<Longrightarrow> vm_ok s \<Longrightarrow> vm_ok s'"
  by (auto simp: inst_dr_def vm_ok_def Let_def bind_Some_iff dest: arr_set_cells split: if_splits)

lemma vm_ok_rpop: "TORS s = Some v \<Longrightarrow> vm_ok s \<Longrightarrow> vm_ok (s\<lparr>ip := v, rp := rp s - 1\<rparr>)"
  by (auto simp: vm_ok_def TORS_def arr_get_def peek_def split: if_splits)

lemmas vm_ok_ops = vm_ok_tops vm_ok_pointers vm_ok_ip vm_ok_set_TOS vm_ok_set_NOS vm_ok_rpush vm_ok_push vm_ok_dr vm_ok_rpop

section \<open>Every instruction keeps it\<close>

lemma cell_ok_bits: "cell_ok i \<longleftrightarrow> signed_take_bit 63 i = i"
  by (simp add: cell_ok_def signed_take_bit_int_eq_self_iff)

lemma cell_ok_logic [simp]:
  "cell_ok i \<Longrightarrow> cell_ok j \<Longrightarrow> cell_ok (i AND j)" "cell_ok i \<Longrightarrow> cell_ok j \<Longrightarrow> cell_ok (i OR j)"
  "cell_ok i \<Longrightarrow> cell_ok j \<Longrightarrow> cell_ok (i XOR j)"
  by (simp_all add: cell_ok_bits bit_eq_iff bit_simps)

lemma cell_ok_drop_bit: "cell_ok i \<Longrightarrow> cell_ok (drop_bit n i)"
proof -
  assume i: "cell_ok i"
  show ?thesis
  proof (cases "0 \<le> i")
    case True
    then have "i div 2 ^ n \<le> i" "0 \<le> i div 2 ^ n"
      using zdiv_mono2 [of i 1 "2 ^ n"] by (simp_all add: pos_imp_zdiv_nonneg_iff)
    then show ?thesis using i by (simp add: drop_bit_eq_div cell_ok_def)
  next
    case False
    then have "i \<le> i div 2 ^ n" "i div 2 ^ n < 0"
      using zdiv_mono2_neg [of i 1 "2 ^ n"] by (simp_all add: div_neg_pos_less0)
    then show ?thesis using i by (simp add: drop_bit_eq_div cell_ok_def)
  qed
qed

lemma cell_ok_shift: "cell_ok x \<Longrightarrow> shift x y = Some v \<Longrightarrow> cell_ok v"
proof -
  have "cell_ok (0xFFFFFFFF - drop_bit n 0xFFFFFFFF)" for n
  proof -
    have "(0 :: int) \<le> drop_bit n 0xFFFFFFFF" by (simp add: drop_bit_eq_div pos_imp_zdiv_nonneg_iff)
    moreover have "drop_bit n 0xFFFFFFFF \<le> (0xFFFFFFFF :: int)"
      using zdiv_mono2 [of "0xFFFFFFFF" 1 "2 ^ n"] by (simp add: drop_bit_eq_div)
    moreover have "cell_ok (0xFFFFFFFF - w)" if "0 \<le> w" "w \<le> 0xFFFFFFFF" for w using that by (simp add: cell_ok_def)
    ultimately show ?thesis by blast
  qed
  then show "cell_ok x \<Longrightarrow> shift x y = Some v \<Longrightarrow> cell_ok v"
    by (auto simp: shift_def cell_ok_drop_bit dest: cell_Some split: if_splits)
qed

lemma cell_ok_smod: "cell_ok a \<Longrightarrow> a \<noteq> 0 \<Longrightarrow> cell_ok (b smod a)"
  using smod_int_range [of a b] by (auto simp: cell_ok_def)

lemma preserves_binary:
  assumes "\<And>n t v. cell_ok n \<Longrightarrow> cell_ok t \<Longrightarrow> f n t = Some v \<Longrightarrow> cell_ok v"
  shows "preserves (binary f)"
proof (rule preservesI)
  fix s s' assume s: "vm_ok s" "binary f s = Some s'"
  then obtain n t v s1 where "NOS s = Some n" "TOS s = Some t" "f n t = Some v" "set_NOS v s = Some s1" "inst_dr s1 = Some s'"
    by (auto simp: binary_def bind_Some_iff)
  then show "vm_ok s'" using s(1) assms by (blast intro: vm_ok_ops)
qed

lemma preserves_du: "preserves inst_du"
proof (rule preservesI)
  fix s s' assume s: "vm_ok s" "inst_du s = Some s'"
  then obtain v where "TOS s = Some v" "stack_push v s = Some s'" by (auto simp: inst_du_def bind_Some_iff)
  then show "vm_ok s'" using s(1) by (blast intro: vm_ok_tops vm_ok_push)
qed

lemma preserves_simple:
  "preserves inst_no" "preserves inst_dr" "preserves inst_ha" "preserves inst_ie" "preserves inst_re"
  by (auto intro!: preservesI simp: inst_no_def inst_ha_def inst_ie_def inst_re_def bind_Some_iff vm_ok_ip
      dest: vm_ok_dr vm_ok_rpop vm_ok_push [OF _ _ cell_ok_small(3)])

lemma preserves_li: "preserves inst_li"
proof (rule preservesI)
  fix s s' assume s: "vm_ok s" "inst_li s = Some s'"
  then obtain v where v: "mem_get (s\<lparr>ip := ip s + 1\<rparr>) (ip s + 1) = Some v" "stack_push v (s\<lparr>ip := ip s + 1\<rparr>) = Some s'"
    by (auto simp: inst_li_def bind_Some_iff Let_def)
  then have "cell_ok (ip s + 1)" by (auto simp: mem_get_def cell_ok_def IMAGE_SIZE_def split: if_splits)
  then have "vm_ok (s\<lparr>ip := ip s + 1\<rparr>)" using s(1) by (rule vm_ok_ip [rotated])
  then show "vm_ok s'" using v by (blast intro: vm_ok_tops vm_ok_push)
qed

lemma preserves_sw: "preserves inst_sw"
proof (rule preservesI)
  fix s s' assume s: "vm_ok s" "inst_sw s = Some s'"
  then obtain a b s1 where "TOS s = Some a" "NOS s = Some b" "set_TOS b s = Some s1" "set_NOS a s1 = Some s'"
    by (auto simp: inst_sw_def bind_Some_iff)
  then show "vm_ok s'" using s(1) by (blast intro: vm_ok_tops vm_ok_set_TOS vm_ok_set_NOS)
qed

lemma preserves_pu: "preserves inst_pu"
proof (rule preservesI)
  fix s s' assume s: "vm_ok s" "inst_pu s = Some s'"
  then obtain v s1 where "TOS s = Some v" "set_TORS v (s\<lparr>rp := rp s + 1\<rparr>) = Some s1" "inst_dr s1 = Some s'"
    by (auto simp: inst_pu_def bind_Some_iff TOS_def Let_def)
  then show "vm_ok s'" using s(1) by (blast intro: vm_ok_tops vm_ok_rpush vm_ok_dr)
qed

lemma preserves_po: "preserves inst_po"
proof (rule preservesI)
  fix s s' assume s: "vm_ok s" "inst_po s = Some s'"
  then obtain v s1 where v: "TORS s = Some v" "stack_push v s = Some s1" "s' = s1\<lparr>rp := rp s1 - 1\<rparr>"
    by (auto simp: inst_po_def bind_Some_iff)
  then have "vm_ok s1" using s(1) by (blast intro: vm_ok_tops vm_ok_push)
  moreover have "rp s1 = rp s" using stack_push_rp [OF v(2)] .
  moreover have "0 \<le> rp s" using v(1) by (auto simp: TORS_def arr_get_def split: if_splits)
  ultimately show "vm_ok s'" using v(3) by (simp add: vm_ok_def)
qed

lemma preserves_ju: "preserves inst_ju"
proof (rule preservesI)
  fix s s' assume s: "vm_ok s" "inst_ju s = Some s'"
  then obtain a where "cell_ok a" "inst_dr (s\<lparr>ip := a\<rparr>) = Some s'"
    by (auto simp: inst_ju_def bind_Some_iff dest!: cell_Some)
  then show "vm_ok s'" using s(1) by (blast intro: vm_ok_ip vm_ok_dr)
qed

lemma preserves_ca: "preserves inst_ca"
proof (rule preservesI)
  fix s s' assume s: "vm_ok s" "inst_ca s = Some s'"
  then obtain s1 a where "set_TORS (ip s) (s\<lparr>rp := rp s + 1\<rparr>) = Some s1" "cell_ok a"
    "inst_dr (s1\<lparr>ip := a\<rparr>) = Some s'" by (auto simp: inst_ca_def bind_Some_iff Let_def dest!: cell_Some)
  then show "vm_ok s'" using s(1) by (blast intro: vm_ok_ip vm_ok_dr vm_ok_rpush vm_ok_pointers)
qed

lemma preserves_cc: "preserves inst_cc"
proof (rule preservesI)
  fix s s' assume s: "vm_ok s" "inst_cc s = Some s'"
  from s(2) obtain t s1 b s2 where "TOS s = Some t" and d: "inst_dr s = Some s1" and "TOS s1 = Some b"
    and d': "inst_dr s1 = Some s2"
    and r: "(if b \<noteq> 0 then let s = s2\<lparr>rp := rp s2 + 1\<rparr> in
        Option.bind (set_TORS (ip s) s) (\<lambda>s. Option.bind (cell (t - 1)) (\<lambda>a. Some (s\<lparr>ip := a\<rparr>)))
      else Some s2) = Some s'"
    unfolding inst_cc_def by (elim bind_SomeE) (rule that)
  have 2: "vm_ok s2" using s(1) d d' by (blast intro: vm_ok_dr)
  show "vm_ok s'"
  proof (cases "b = 0")
    case False
    then obtain s3 a where "set_TORS (ip s2) (s2\<lparr>rp := rp s2 + 1\<rparr>) = Some s3" "cell_ok a" "s' = s3\<lparr>ip := a\<rparr>"
      using r by (auto simp: bind_Some_iff Let_def dest!: cell_Some)
    then show ?thesis using 2 by (blast intro: vm_ok_ip vm_ok_rpush vm_ok_pointers)
  qed (use r 2 in simp)
qed

lemma preserves_zr: "preserves inst_zr"
proof (rule preservesI)
  fix s s' assume s: "vm_ok s" "inst_zr s = Some s'"
  then consider "s' = s" | s1 a where "inst_dr s = Some s1" "TORS s1 = Some a" "s' = s1\<lparr>ip := a, rp := rp s1 - 1\<rparr>"
    by (auto simp: inst_zr_def bind_Some_iff split: if_splits)
  then show "vm_ok s'" using s(1) by cases (blast intro: vm_ok_dr vm_ok_rpop)+
qed

lemma preserves_fe: "preserves inst_fe"
proof (rule preservesI)
  fix s s' assume s: "vm_ok s" "inst_fe s = Some s'"
  from s(2) obtain t where "TOS s = Some t" and r: "(if t = -1 then set_TOS (sp s - 1) s
     else if t = -2 then set_TOS (rp s) s else if t = -3 then set_TOS IMAGE_SIZE s
     else if t = -4 then set_TOS CELL_MIN s else if t = -5 then set_TOS CELL_MAX s
     else do { v \<leftarrow> mem_get s t; set_TOS v s }) = Some s'"
    unfolding inst_fe_def by (elim bind_SomeE) (rule that)
  have "\<exists>v. set_TOS v s = Some s' \<and> cell_ok v"
  proof (cases "t \<in> {-1, -2, -3, -4, -5}")
    case True
    then show ?thesis using r vm_ok_pointers [OF s(1)] by auto
  next
    case False
    then obtain v where "mem_get s t = Some v" "set_TOS v s = Some s'" using r by (auto simp: bind_Some_iff)
    then show ?thesis using vm_ok_tops(4) s(1) by blast
  qed
  then show "vm_ok s'" using s(1) by (blast intro: vm_ok_set_TOS)
qed

lemma preserves_st: "preserves inst_st"
proof (rule preservesI)
  fix s s' assume s: "vm_ok s" "inst_st s = Some s'"
  then consider "s' = s\<lparr>ip := IMAGE_SIZE\<rparr>"
    | n t s1 s2 where "NOS s = Some n" "s1 = s\<lparr>memory := (memory s)(t := n)\<rparr>" "inst_dr s1 = Some s2" "inst_dr s2 = Some s'"
    by (auto simp: inst_st_def bind_Some_iff mem_set_def split: if_splits)
  then show "vm_ok s'"
  proof cases
    case 2
    then have "vm_ok s1" using s(1) vm_ok_tops(2) by (auto simp: vm_ok_def)
    then show ?thesis using 2 by (blast intro: vm_ok_dr)
  qed (use s(1) in \<open>simp add: vm_ok_ip\<close>)
qed

lemma preserves_di: "preserves inst_di"
proof (rule preservesI)
  fix s s' assume s: "vm_ok s" "inst_di s = Some s'"
  then obtain a b q s1 where d: "TOS s = Some a" "a \<noteq> 0" "cell_ok q" "set_TOS q s = Some s1" "set_NOS (b smod a) s1 = Some s'"
    by (auto simp: inst_di_def bind_Some_iff split: if_splits dest!: cell_Some)
  moreover have "cell_ok (b smod a)" using cell_ok_smod vm_ok_tops(1) d s(1) by blast
  ultimately show "vm_ok s'" using s(1) by (blast intro: vm_ok_set_TOS vm_ok_set_NOS)
qed

lemma preserves_iq: "preserves inst_iq"
proof (rule preservesI)
  fix s s' assume s: "vm_ok s" "inst_iq s = Some s'"
  then consider "s' = s" | v s1 s2 where "inst_dr s = Some s1" "stack_push v s1 = Some s2" "stack_push v s2 = Some s'" "cell_ok v"
    unfolding inst_iq_def bind_Some_iff by (clarsimp simp: bind_Some_iff split: if_splits) (blast intro: cell_ok_small)+
  then show "vm_ok s'" using s(1) by cases (blast intro: vm_ok_dr vm_ok_push)+
qed

lemma preserves_ii: "preserves inst_ii"
proof (rule preservesI)
  fix s s' assume s: "vm_ok s" "inst_ii s = Some s'"
  from s(2) obtain t where "TOS s = Some t" and r: "(if t = 0 then do {
       s \<leftarrow> inst_dr s; (v, s) \<leftarrow> stack_pop s; Some (s\<lparr>vm_out := vm_out s @ [of_int v]\<rparr>)
     } else if t = 1 then do {
       c \<leftarrow> peek (retro_code s) 0;
       if c = 0 then Some (s\<lparr>vm_exited := True\<rparr>)
       else do {
         s \<leftarrow> inst_dr s; s \<leftarrow> stack_push (int (unat c)) s; Some (s\<lparr>retro_code := drop 1 (retro_code s)\<rparr>)
       }
     } else inst_dr s) = Some s'"
    unfolding inst_ii_def by (elim bind_SomeE) (rule that)
  consider (out) s1 v s2 where "inst_dr s = Some s1" "stack_pop s1 = Some (v, s2)" "s' = s2\<lparr>vm_out := vm_out s2 @ [of_int v]\<rparr>"
    | (exit) "s' = s\<lparr>vm_exited := True\<rparr>"
    | (inp) c s1 s2 where "inst_dr s = Some s1" "stack_push (int (unat (c :: u8))) s1 = Some s2"
        "s' = s2\<lparr>retro_code := drop 1 (retro_code s2)\<rparr>"
    | (drop) "inst_dr s = Some s'"
  proof (cases "t = 0 \<or> t = 1")
    case True
    show ?thesis
    proof (cases "t = 0")
      case True
      then show ?thesis using r that(1) by (auto simp: bind_Some_iff)
    next
      case False
      then obtain c where "peek (retro_code s) 0 = Some c" and c: "(if c = 0 then Some (s\<lparr>vm_exited := True\<rparr>) else do {
         s \<leftarrow> inst_dr s; s \<leftarrow> stack_push (int (unat c)) s; Some (s\<lparr>retro_code := drop 1 (retro_code s)\<rparr>) }) = Some s'"
        using r True by (auto elim!: bind_SomeE)
      then show ?thesis using that(2) that(3) [of _ c] by (cases "c = 0") (auto elim!: bind_SomeE)
    qed
  qed (use r that(4) in auto)
  then show "vm_ok s'"
  proof cases
    case out
    then have "vm_ok s1" "0 \<le> sp s1" using s(1) vm_ok_dr
      by (auto simp: stack_pop_def Let_def arr_get_def split: if_splits)
    then show ?thesis using out(2,3) by (auto simp: stack_pop_def Let_def vm_ok_def)
  next
    case exit
    then show ?thesis using s(1) by (simp add: vm_ok_def)
  next
    case inp
    have "cell_ok (int (unat c))" by (rule cell_ok_byte)
    then have "vm_ok s2" using inp s(1) by (blast intro: vm_ok_dr vm_ok_push)
    then show ?thesis using inp(3) by (simp add: vm_ok_def)
  next
    case drop
    then show ?thesis using s(1) by (blast intro: vm_ok_dr)
  qed
qed

lemma instructions_preserve: "list_all preserves instructions"
proof -
  have "preserves inst_eq" "preserves inst_ne" "preserves inst_lt" "preserves inst_gt" "preserves inst_ad" "preserves inst_su"
    "preserves inst_mu" "preserves inst_an" "preserves inst_or" "preserves inst_xo" "preserves inst_sh"
    unfolding inst_eq_def inst_ne_def inst_lt_def inst_gt_def inst_ad_def inst_su_def inst_mu_def inst_an_def inst_or_def
      inst_xo_def inst_sh_def
    by (rule preserves_binary, auto simp: flag_def dest: cell_Some cell_ok_shift split: if_splits)+
  then show ?thesis
    by (simp add: instructions_def preserves_simple preserves_li preserves_du preserves_sw preserves_pu preserves_po preserves_ju
        preserves_ca preserves_cc preserves_fe preserves_st preserves_di preserves_zr preserves_iq preserves_ii)
qed

lemma preserves_instruction: "preserves (run_instruction n)"
proof (rule preservesI)
  fix s s' assume s: "vm_ok s" "run_instruction n s = Some s'"
  then consider "s' = s" | inst where "inst \<in> set instructions" "inst s = Some s'"
    by (auto simp: run_instruction_def bind_Some_iff peek_def split: if_splits intro: nth_mem)
  then show "vm_ok s'" using s(1) instructions_preserve by cases (auto simp: list_all_iff dest: preservesD)
qed

lemma preserves_bundle: "preserves (process_opcode_bundle w)"
proof (rule preservesI)
  fix s s' assume s: "vm_ok s" "process_opcode_bundle w s = Some s'"
  from s(2) obtain s1 s2 s3 i j k l where "run_instruction i s = Some s1" "run_instruction j s1 = Some s2"
    "run_instruction k s2 = Some s3" "run_instruction l s3 = Some s'"
    unfolding process_opcode_bundle_def by (elim bind_SomeE) (rule that)
  then show "vm_ok s'" using s(1) preservesD [OF preserves_instruction] by blast
qed

lemma preserves_step: "preserves execute_step"
proof (rule preservesI)
  fix s s' assume s: "vm_ok s" "execute_step s = Some s'"
  then obtain w t where t: "process_opcode_bundle w s = Some t" and
    r: "s' = t \<or> (\<exists>i. cell_ok i \<and> s' = t\<lparr>ip := i\<rparr>)"
    by (auto simp: execute_step_def bind_Some_iff Let_def split: if_splits dest!: cell_Some)
      (metis cell_ok_small(5))
  show "vm_ok s'" using preservesD [OF preserves_bundle s(1) t] r by (auto intro: vm_ok_ip)
qed

lemma execute_loop_ok: "execute_loop fuel s = Done s' \<Longrightarrow> vm_ok s \<Longrightarrow> vm_ok s'"
proof (induction fuel arbitrary: s)
  case 0
  then show ?case by (subst (asm) execute_loop.simps) (simp split: if_splits)
next
  case (Suc n)
  show ?case
  proof (cases "vm_exited s \<or> \<not> ip s < IMAGE_SIZE")
    case False
    then obtain t where "execute_step s = Some t" "execute_loop n t = Done s'"
      using Suc.prems(1) by (subst (asm) execute_loop.simps) (auto split: option.splits)
    then show ?thesis using Suc.IH preservesD [OF preserves_step] Suc.prems(2) by blast
  qed (use Suc.prems in \<open>subst (asm) execute_loop.simps, simp\<close>)
qed

text \<open>\<open>execute\<close> ends in a well-typed state, whatever program the memory holds.\<close>

lemma execute_type:
  assumes "vm_ok s" "cell_ok c" "execute fuel c s = Done s'"
  shows "vm_ok s'"
proof -
  have "vm_ok (s\<lparr>rp := 1, ip := c\<rparr>)" using assms(1,2) by (simp add: vm_ok_def ADDRESSES_def)
  then show ?thesis using execute_loop_ok assms(3) unfolding execute_def by blast
qed

section \<open>What the instructions rely on\<close>

text \<open>For each instruction, what the code takes for granted: the items on the stacks and the room for what it adds, an index that it does not check, and
  arithmetic that does not overflow.  \<open>st\<close> checks its address, so any address is good for it.\<close>

definition depth :: "vm \<Rightarrow> int" where "depth s = sp s + 1"
definition rdepth :: "vm \<Rightarrow> int" where "rdepth s = rp s + 1"
definition top :: "vm \<Rightarrow> int" where "top s = data s ! nat (sp s)"
definition below :: "vm \<Rightarrow> int" where "below s = data s ! nat (sp s - 1)"

definition demands :: "(vm \<Rightarrow> bool) list" where
  "demands =
    [\<lambda>s. True,
     \<lambda>s. depth s < 256 \<and> 0 \<le> ip s + 1 \<and> ip s + 1 \<le> IMAGE_SIZE,
     \<lambda>s. 1 \<le> depth s \<and> depth s < 256,
     \<lambda>s. 1 \<le> depth s,
     \<lambda>s. 2 \<le> depth s,
     \<lambda>s. 1 \<le> depth s \<and> rdepth s < 256,
     \<lambda>s. 1 \<le> rdepth s \<and> depth s < 256,
     \<lambda>s. 1 \<le> depth s \<and> top s \<noteq> - (2 ^ 63),
     \<lambda>s. 1 \<le> depth s \<and> rdepth s < 256 \<and> top s \<noteq> - (2 ^ 63),
     \<lambda>s. 2 \<le> depth s \<and> (below s \<noteq> 0 \<longrightarrow> rdepth s < 256 \<and> top s \<noteq> - (2 ^ 63)),
     \<lambda>s. 1 \<le> rdepth s,
     \<lambda>s. 2 \<le> depth s, \<lambda>s. 2 \<le> depth s, \<lambda>s. 2 \<le> depth s, \<lambda>s. 2 \<le> depth s,
     \<lambda>s. 1 \<le> depth s \<and> - 5 \<le> top s \<and> top s \<le> IMAGE_SIZE,
     \<lambda>s. 1 \<le> depth s \<and> (0 \<le> top s \<and> top s \<le> IMAGE_SIZE \<longrightarrow> 2 \<le> depth s),
     \<lambda>s. 2 \<le> depth s \<and> cell_ok (below s + top s), \<lambda>s. 2 \<le> depth s \<and> cell_ok (below s - top s), \<lambda>s. 2 \<le> depth s \<and> cell_ok (below s * top s),
     \<lambda>s. 2 \<le> depth s \<and> top s \<noteq> 0 \<and> \<not> (below s = - (2 ^ 63) \<and> top s = -1),
     \<lambda>s. 2 \<le> depth s, \<lambda>s. 2 \<le> depth s, \<lambda>s. 2 \<le> depth s,
     \<lambda>s. 2 \<le> depth s \<and> (if top s < 0 then 0 \<le> below s \<and> - top s < 64 \<and> below s * 2 ^ nat (- top s) < 2 ^ 63
       else if below s < 0 \<and> 0 < top s then top s < 32 else top s < 64),
     \<lambda>s. 1 \<le> depth s \<and> (top s = 0 \<longrightarrow> 1 \<le> rdepth s),
     \<lambda>s. True,
     \<lambda>s. depth s < 256,
     \<lambda>s. 1 \<le> depth s \<and> (top s = 0 \<or> top s = 1 \<longrightarrow> depth s < 256),
     \<lambda>s. 1 \<le> depth s \<and> (top s = 0 \<longrightarrow> 2 \<le> depth s) \<and> (top s = 1 \<longrightarrow> retro_code s \<noteq> [])]"

definition defined_when :: "(vm \<Rightarrow> vm option) \<Rightarrow> (vm \<Rightarrow> bool) \<Rightarrow> bool" where
  "defined_when f d \<longleftrightarrow> (\<forall>s. vm_ok s \<longrightarrow> (\<exists>s'. f s = Some s') = d s)"

lemma defined_whenI: "(\<And>s. vm_ok s \<Longrightarrow> length (data s) = 256 \<Longrightarrow> length (address s) = 256 \<Longrightarrow> -1 \<le> sp s \<Longrightarrow> sp s < 256 \<Longrightarrow> -1 \<le> rp s \<Longrightarrow> rp s < 256 \<Longrightarrow>
    (\<exists>s'. f s = Some s') = d s) \<Longrightarrow> defined_when f d"
  by (simp add: defined_when_def vm_ok_def STACK_DEPTH_def ADDRESSES_def)

lemmas access_defs = TOS_def NOS_def TORS_def set_TOS_def set_NOS_def set_TORS_def arr_get_def arr_set_def peek_def poke_def stack_push_def stack_pop_def
  inst_dr_def mem_get_def mem_set_def depth_def rdepth_def top_def below_def Let_def

lemma defined_stack:
  "defined_when inst_no (\<lambda>s. True)" "defined_when inst_ha (\<lambda>s. True)" "defined_when inst_ie (\<lambda>s. depth s < 256)"
  "defined_when inst_li (\<lambda>s. depth s < 256 \<and> 0 \<le> ip s + 1 \<and> ip s + 1 \<le> IMAGE_SIZE)" "defined_when inst_du (\<lambda>s. 1 \<le> depth s \<and> depth s < 256)"
  "defined_when inst_dr (\<lambda>s. 1 \<le> depth s)" "defined_when inst_sw (\<lambda>s. 2 \<le> depth s)" "defined_when inst_pu (\<lambda>s. 1 \<le> depth s \<and> rdepth s < 256)"
  "defined_when inst_po (\<lambda>s. 1 \<le> rdepth s \<and> depth s < 256)" "defined_when inst_re (\<lambda>s. 1 \<le> rdepth s)"
  by (rule defined_whenI; auto simp: inst_no_def inst_ha_def inst_ie_def inst_li_def inst_du_def inst_sw_def inst_pu_def inst_po_def inst_re_def access_defs
      bind_Some_iff)+

lemma defined_binary:
  assumes "\<And>n t. (\<exists>v. f n t = Some v) = d n t"
  shows "defined_when (binary f) (\<lambda>s. 2 \<le> depth s \<and> d (below s) (top s))"
proof (rule defined_whenI)
  fix s :: vm assume h: "length (data s) = 256" "-1 \<le> sp s" "sp s < 256"
  show "(\<exists>s'. binary f s = Some s') = (2 \<le> depth s \<and> d (below s) (top s))"
    unfolding assms [symmetric] using h by (auto simp: binary_def access_defs bind_Some_iff)
qed

lemma cell_no_min: "cell_ok t \<Longrightarrow> (\<exists>v. cell (t - 1) = Some v) \<longleftrightarrow> t \<noteq> - (2 ^ 63)"
  by (auto simp: cell_def cell_ok_def)

lemma top_ok: "vm_ok s \<Longrightarrow> 0 \<le> sp s \<Longrightarrow> cell_ok (top s)" "vm_ok s \<Longrightarrow> 1 \<le> sp s \<Longrightarrow> cell_ok (below s)"
  by (auto simp: vm_ok_def top_def below_def)

lemma defined_ju: "defined_when inst_ju (\<lambda>s. 1 \<le> depth s \<and> top s \<noteq> - (2 ^ 63))"
proof (rule defined_whenI)
  fix s assume h: "vm_ok s" "length (data s) = 256" "-1 \<le> sp s" "sp s < 256"
  show "(\<exists>s'. inst_ju s = Some s') = (1 \<le> depth s \<and> top s \<noteq> - (2 ^ 63))"
    using h cell_no_min [OF top_ok(1) [OF h(1)]] by (auto simp: inst_ju_def access_defs bind_Some_iff)
qed

lemma defined_ca: "defined_when inst_ca (\<lambda>s. 1 \<le> depth s \<and> rdepth s < 256 \<and> top s \<noteq> - (2 ^ 63))"
proof (rule defined_whenI)
  fix s assume h: "vm_ok s" "length (data s) = 256" "length (address s) = 256" "-1 \<le> sp s" "sp s < 256" "-1 \<le> rp s" "rp s < 256"
  show "(\<exists>s'. inst_ca s = Some s') = (1 \<le> depth s \<and> rdepth s < 256 \<and> top s \<noteq> - (2 ^ 63))"
    using h cell_no_min [OF top_ok(1) [OF h(1)]] by (auto simp: inst_ca_def access_defs bind_Some_iff)
qed

lemma defined_cc: "defined_when inst_cc (\<lambda>s. 2 \<le> depth s \<and> (below s \<noteq> 0 \<longrightarrow> rdepth s < 256 \<and> top s \<noteq> - (2 ^ 63)))"
proof (rule defined_whenI)
  fix s assume h: "vm_ok s" "length (data s) = 256" "length (address s) = 256" "-1 \<le> sp s" "sp s < 256" "-1 \<le> rp s" "rp s < 256"
  show "(\<exists>s'. inst_cc s = Some s') = (2 \<le> depth s \<and> (below s \<noteq> 0 \<longrightarrow> rdepth s < 256 \<and> top s \<noteq> - (2 ^ 63)))"
    using h cell_no_min [OF top_ok(1) [OF h(1)]] by (auto simp: inst_cc_def access_defs bind_Some_iff)
qed

lemma defined_fe: "defined_when inst_fe (\<lambda>s. 1 \<le> depth s \<and> - 5 \<le> top s \<and> top s \<le> IMAGE_SIZE)"
  by (rule defined_whenI) (auto simp: inst_fe_def access_defs bind_Some_iff IMAGE_SIZE_def)

lemma defined_st: "defined_when inst_st (\<lambda>s. 1 \<le> depth s \<and> (0 \<le> top s \<and> top s \<le> IMAGE_SIZE \<longrightarrow> 2 \<le> depth s))"
  by (rule defined_whenI) (auto simp: inst_st_def access_defs bind_Some_iff)

lemma defined_zr: "defined_when inst_zr (\<lambda>s. 1 \<le> depth s \<and> (top s = 0 \<longrightarrow> 1 \<le> rdepth s))"
  by (rule defined_whenI) (auto simp: inst_zr_def access_defs bind_Some_iff)

lemma defined_iq: "defined_when inst_iq (\<lambda>s. 1 \<le> depth s \<and> (top s = 0 \<or> top s = 1 \<longrightarrow> depth s < 256))"
  by (rule defined_whenI) (auto simp: inst_iq_def access_defs bind_Some_iff)

lemma defined_ii: "defined_when inst_ii (\<lambda>s. 1 \<le> depth s \<and> (top s = 0 \<longrightarrow> 2 \<le> depth s) \<and> (top s = 1 \<longrightarrow> retro_code s \<noteq> []))"
  by (rule defined_whenI) (auto simp: inst_ii_def access_defs bind_Some_iff)

lemma sdiv_defined: "cell_ok n \<Longrightarrow> cell_ok t \<Longrightarrow> t \<noteq> 0 \<Longrightarrow> (\<exists>q. cell (n sdiv t) = Some q) \<longleftrightarrow> \<not> (n = - (2 ^ 63) \<and> t = -1)"
proof -
  assume h: "cell_ok n" "cell_ok t" "t \<noteq> 0"
  have "cell_ok (n sdiv t) \<longleftrightarrow> \<not> (n = - (2 ^ 63) \<and> t = -1)"
  proof (cases "t = -1")
    case True
    then show ?thesis using h(1) by (auto simp: cell_ok_def)
  next
    case False
    have r: "- \<bar>n\<bar> \<le> n sdiv t" "n sdiv t \<le> \<bar>n\<bar>" using sdiv_int_range [of n t] by simp_all
    have "n sdiv t \<noteq> - n \<or> n = 0" using False int_sdiv_negated_is_minus1 by blast
    then show ?thesis using r h(1) False by (auto simp: cell_ok_def)
  qed
  then show ?thesis by (simp add: cell_def)
qed

lemma shift_defined: "(\<exists>v. shift x y = Some v) \<longleftrightarrow>
    (if y < 0 then 0 \<le> x \<and> - y < 64 \<and> x * 2 ^ nat (- y) < 2 ^ 63 else if x < 0 \<and> 0 < y then y < 32 else y < 64)"
  unfolding a_shift_eq [symmetric] a_shift_def by simp

lemma defined_di: "defined_when inst_di (\<lambda>s. 2 \<le> depth s \<and> top s \<noteq> 0 \<and> \<not> (below s = - (2 ^ 63) \<and> top s = -1))"
proof (rule defined_whenI)
  fix s assume h: "vm_ok s" "length (data s) = 256" "-1 \<le> sp s" "sp s < 256"
  show "(\<exists>s'. inst_di s = Some s') = (2 \<le> depth s \<and> top s \<noteq> 0 \<and> \<not> (below s = - (2 ^ 63) \<and> top s = -1))"
  proof (cases "2 \<le> depth s \<and> top s \<noteq> 0")
    case True
    then have "(\<exists>q. cell (below s sdiv top s) = Some q) \<longleftrightarrow> \<not> (below s = - (2 ^ 63) \<and> top s = -1)"
      using sdiv_defined top_ok [OF h(1)] by (simp add: depth_def)
    then show ?thesis using h(2-4) True by (auto simp: inst_di_def access_defs bind_Some_iff)
  qed (use h(2-4) in \<open>auto simp: inst_di_def access_defs bind_Some_iff\<close>)
qed

lemma instructions_defined: "list_all2 defined_when instructions demands"
proof -
  have b: "defined_when inst_eq (\<lambda>s. 2 \<le> depth s)" "defined_when inst_ne (\<lambda>s. 2 \<le> depth s)" "defined_when inst_lt (\<lambda>s. 2 \<le> depth s)"
    "defined_when inst_gt (\<lambda>s. 2 \<le> depth s)" "defined_when inst_an (\<lambda>s. 2 \<le> depth s)" "defined_when inst_or (\<lambda>s. 2 \<le> depth s)" "defined_when inst_xo (\<lambda>s. 2 \<le> depth s)"
    unfolding inst_eq_def inst_ne_def inst_lt_def inst_gt_def inst_an_def inst_or_def inst_xo_def
    by (rule defined_binary [where d = "\<lambda>n t. True", simplified], simp)+
  have a: "defined_when inst_ad (\<lambda>s. 2 \<le> depth s \<and> cell_ok (below s + top s))" "defined_when inst_su (\<lambda>s. 2 \<le> depth s \<and> cell_ok (below s - top s))"
    "defined_when inst_mu (\<lambda>s. 2 \<le> depth s \<and> cell_ok (below s * top s))"
    unfolding inst_ad_def inst_su_def inst_mu_def by (rule defined_binary, simp add: cell_def)+
  note sh = defined_binary [where f = shift, OF shift_defined, folded inst_sh_def]
  show ?thesis unfolding instructions_def demands_def list_all2_Cons
    using b a sh defined_stack defined_ju defined_ca defined_cc defined_fe defined_st defined_di defined_zr defined_iq defined_ii by simp
qed

text \<open>C10.  Every instruction is as safe as the state lets it be: on a well-typed state it is defined exactly when its demands are met, so none but these
  lead outside an array or to an undefined result, and \<open>st\<close> to any address is among the defined ones; and then the state is well-typed again.\<close>

theorem retro_instruction_safe:
  assumes "vm_ok s" "\<not> vm_exited s" "n < 30"
  shows "((\<exists>s'. run_instruction n s = Some s') \<longleftrightarrow> (demands ! n) s) \<and> (\<forall>s'. run_instruction n s = Some s' \<longrightarrow> vm_ok s')"
proof
  have "length instructions = 30" by (simp add: instructions_def)
  then have i: "n < length instructions" "run_instruction n s = (instructions ! n) s" using assms(2,3) by (simp_all add: run_instruction_def peek_def)
  then have "defined_when (instructions ! n) (demands ! n)" using list_all2_nthD [OF instructions_defined] by blast
  then show "(\<exists>s'. run_instruction n s = Some s') \<longleftrightarrow> (demands ! n) s" using assms(1) i(2) by (simp add: defined_when_def)
  show "\<forall>s'. run_instruction n s = Some s' \<longrightarrow> vm_ok s'" using preservesD [OF preserves_instruction assms(1)] by blast
qed

section \<open>Injected strings and the image\<close>

definition cells_at :: "int \<Rightarrow> int list \<Rightarrow> (int \<Rightarrow> int) \<Rightarrow> int \<Rightarrow> int" where
  "cells_at a cs m i = (if a \<le> i \<and> i < a + int (length cs) then cs ! nat (i - a) else m i)"

lemma cells_at_Nil [simp]: "cells_at a [] m = m"
  by (auto simp: cells_at_def)

lemma cells_at_Cons: "cells_at a (c # cs) m = cells_at (a + 1) cs (m(a := c))"
proof
  fix i
  have "nat (i - a) = Suc (nat (i - (a + 1)))" if "a + 1 \<le> i" using that by linarith
  then show "cells_at a (c # cs) m i = cells_at (a + 1) cs (m(a := c)) i" by (auto simp: cells_at_def)
qed

lemma load_cells_at:
  "0 \<le> i \<Longrightarrow> i + int (length cs) \<le> IMAGE_SIZE + 1 \<Longrightarrow>
    load_cells i cs s = Some (s\<lparr>memory := cells_at i cs (memory s)\<rparr>)"
  by (induction i cs s rule: load_cells.induct) (simp_all add: mem_set_def cells_at_Cons)

lemma inject_chars_at:
  assumes "0 \<le> a" "a + int (length cs) \<le> IMAGE_SIZE" "memory s a = 0 \<or> cs \<noteq> []"
  shows "inject_chars cs a s = Some (s\<lparr>memory := cells_at a (map (\<lambda>c. int (unat c)) cs @ [0]) (memory s)\<rparr>)"
  using assms
proof (induction cs a s rule: inject_chars.induct)
  case (1 a s)
  then show ?case by (simp add: cells_at_Cons fun_upd_idem)
next
  case (2 c cs a s)
  let ?s = "s\<lparr>memory := (memory s)(a := int (unat c), a + 1 := 0)\<rparr>"
  have "inject_chars cs (a + 1) ?s = Some (?s\<lparr>memory := cells_at (a + 1) (map (\<lambda>c. int (unat c)) cs @ [0]) (memory ?s)\<rparr>)"
    by (rule 2(1) [of "s\<lparr>memory := (memory s)(a := int (unat c))\<rparr>"]) (use 2 in \<open>auto simp: mem_set_def\<close>)
  moreover have "cells_at (a + 1) (map (\<lambda>c. int (unat c)) cs @ [0]) ((memory s)(a := x, a + 1 := 0))
    = cells_at (a + 1) (map (\<lambda>c. int (unat c)) cs @ [0]) ((memory s)(a := x))" for x
    by (auto simp: cells_at_def)
  ultimately show ?case using 2(2,3) by (simp add: mem_set_def cells_at_Cons)
qed

text \<open>\<open>string_inject\<close> of a nonempty string writes its characters and a terminating zero to
  consecutive cells from the buffer on, leaves every other cell and register alone, and returns the
  buffer.\<close>

theorem retro_string_inject:
  assumes "0 \<le> a" "a + int (length cs) \<le> IMAGE_SIZE" "cs \<noteq> []"
  shows "string_inject (Some cs) a s =
    Some (a, s\<lparr>memory := cells_at a (map (\<lambda>c. int (unat c)) cs @ [0]) (memory s)\<rparr>)"
  using inject_chars_at [OF assms(1,2), of s] assms(3) by (simp add: string_inject_def)

theorem retro_string_inject_witness:
  "string_inject (Some [72, 105]) 120 add_vm =
    Some (120, add_vm\<lparr>memory := cells_at 120 [72, 105, 0] (memory add_vm)\<rparr>)"
  using retro_string_inject [of 120 "[72, 105]" add_vm] by (simp add: IMAGE_SIZE_def)

section \<open>Shifts\<close>

lemma high_bits_32: "n \<le> 32 \<Longrightarrow> (0xFFFFFFFF :: int) - drop_bit n 0xFFFFFFFF = push_bit (32 - n) (mask n)"
proof -
  assume n: "n \<le> 32"
  have "(0xFFFFFFFF :: int) = mask 32" by (simp add: mask_eq_exp_minus_1)
  moreover have "drop_bit n (mask 32) = (mask (32 - n) :: int)"
    by (rule bit_eqI) (use n in \<open>auto simp: bit_simps\<close>)
  moreover have "mask 32 - mask (32 - n) = (push_bit (32 - n) (mask n) :: int)"
  proof -
    have "(2 :: int) ^ 32 = 2 ^ n * 2 ^ (32 - n)" using n by (simp flip: power_add)
    then show ?thesis by (simp add: mask_eq_exp_minus_1 push_bit_eq_mult algebra_simps)
  qed
  ultimately show ?thesis by simp
qed

lemma bit_negative: "- (2 ^ m) \<le> x \<Longrightarrow> x < (0 :: int) \<Longrightarrow> m \<le> k \<Longrightarrow> bit x k"
proof -
  assume "- (2 ^ m) \<le> x" "x < 0" "m \<le> k"
  then have x: "signed_take_bit m x = x" using signed_take_bit_int_eq_self_iff [of m x] zero_less_power [of "2 :: int" m] by linarith
  then have "bit x m" using \<open>x < 0\<close> signed_take_bit_negative_iff [of m x] by simp
  moreover have "bit (signed_take_bit m x) k = bit x m" using \<open>m \<le> k\<close> by (simp add: bit_simps min_absorb1)
  ultimately show ?thesis using x by simp
qed

text \<open>Inside 32 bits the shift instruction is arithmetic: a count between 0 and 31 divides,
  rounding down, every number from \<open>-2^31\<close> on.  (The bits set again by \<open>~(~0U >> y)\<close> are those of
  a 32 bit result, so smaller numbers shift wrongly: see \<open>retro_shift_below_32_bits\<close>.)\<close>

theorem retro_shift_right:
  assumes "- (2 ^ 31) \<le> x" "0 \<le> y" "y < 32"
  shows "shift x y = Some (x div 2 ^ nat y)"
proof -
  have "drop_bit n x OR push_bit (32 - n) (mask n) = drop_bit n x" if "n < 32" "x < 0" for n
  proof (rule bit_eqI)
    fix k
    have "bit x (n + k)" if "32 - n \<le> k" by (rule bit_negative [OF assms(1) \<open>x < 0\<close>]) (use that in linarith)
    then show "bit (drop_bit n x OR push_bit (32 - n) (mask n)) k = bit (drop_bit n x) k"
      by (auto simp: bit_simps)
  qed
  moreover have "nat y < 32" using assms(2,3) by simp
  ultimately show ?thesis using assms(2,3) high_bits_32 [of "nat y"]
    by (simp add: shift_def drop_bit_eq_div [of "nat y" x, symmetric])
qed

theorem retro_shift_right_witness: "shift (- 1000) 3 = Some (- 125)"
  using retro_shift_right [of "- 1000" 3] by simp

text \<open>\<open>-2^40 / 2\<close> comes out wrong.\<close>

lemma retro_shift_below_32_bits: "shift (- (2 ^ 40)) 1 = Some (- (2 ^ 39) + 2 ^ 31)"
  by (simp add: shift_def drop_bit_eq_div or_int_unfold)

theorem retro_instruction_safe_witness:
  "\<exists>s'. run_instruction 16 (add_vm\<lparr>sp := 1, data := (replicate 256 0)[1 := 600000]\<rparr>) = Some s' \<and> vm_ok s'"
proof -
  let ?s = "add_vm\<lparr>sp := 1, data := (replicate 256 0)[1 := 600000]\<rparr>"
  have "\<forall>x\<in>set ((replicate 256 0)[1 := 600000]). cell_ok x"
    using set_update_subset_insert [of "replicate 256 (0 :: int)" 1 600000] by (fastforce simp: cell_ok_def)
  then have "vm_ok ?s" by (auto simp: vm_ok_def add_vm_def add_program_def cell_ok_def STACK_DEPTH_def ADDRESSES_def)
  moreover have "\<not> vm_exited ?s" by (simp add: add_vm_def)
  moreover have "(demands ! 16) ?s" by (simp add: demands_def depth_def top_def IMAGE_SIZE_def)
  ultimately show ?thesis using retro_instruction_safe [of ?s 16] by auto
qed

end
