(* ===== verification/Retro_Console.thy ===== *)
theory Retro_Console
  imports Retro_Safety
begin

text \<open>
  The console command of \<open>retro.c\<close>: the line editor of \<open>retro_app\<close> with its escape
  sequences, and \<open>process_buffer\<close>, which starts the machine on a line.

  The state is the position, which is static and survives the command, the 200 byte buffer, which
  is a fresh stack object of every call, and the escape level.  Started threads are recorded with
  the object \<open>retro_code\<close> points at.
\<close>

definition LINE_LEN :: nat where "LINE_LEN = 64"

record console =
  con_pos :: nat
  con_buffer :: "u8 list"
  con_escape :: nat
  con_out :: "u8 list"
  con_started :: "u8 list list"

text \<open>\<open>Leave\<close> is \<open>goto done\<close>.\<close>

datatype con_next = Stay console | Leave console

definition con_puts :: "u8 list \<Rightarrow> console \<Rightarrow> console" where
  "con_puts bs s = s\<lparr>con_out := con_out s @ bs\<rparr>"

definition con_store :: "u8 \<Rightarrow> console \<Rightarrow> console option" where
  "con_store c s = map_option (\<lambda>b. s\<lparr>con_buffer := b, con_pos := con_pos s + 1\<rparr>) (poke (con_buffer s) (con_pos s) c)"

definition con_erase :: "console \<Rightarrow> console" where
  "con_erase s = (if con_pos s > 0 then con_puts [8, 32, 8] (s\<lparr>con_pos := con_pos s - 1\<rparr>) else s)"

text \<open>\<open>ret\<close> are the hundred bytes of the uninitialised array of this name.\<close>

definition process_buffer :: "u8 list \<Rightarrow> console \<Rightarrow> (bool \<times> console) option" where
  "process_buffer ret s = do {
     line \<leftarrow> c_str (con_buffer s);
     if line = bytes_of ''bye'' then Some (True, s)
     else do {
       ret \<leftarrow> memcpy_in ret 0 line;
       Some (False, con_puts [10] (s\<lparr>con_started := con_started s @ [ret], con_pos := 0\<rparr>))
     }
   }"

definition con_key :: "u8 list \<Rightarrow> int \<Rightarrow> console \<Rightarrow> con_next option" where
  "con_key ret c s =
     (if con_escape s = 0 then
        if c = 13 \<or> c = 10 then do {
          s \<leftarrow> con_store 0 s;
          (bye, s) \<leftarrow> process_buffer ret (con_puts [10] s);
          Some (if bye then Leave s else Stay (con_erase s))
        }
        else if c = 127 \<or> c = 8 then Some (Stay (con_erase s))
        else if c = 27 then Some (Stay (s\<lparr>con_escape := con_escape s + 1\<rparr>))
        else map_option (\<lambda>s. Stay (con_puts [of_int c] s)) (con_store (of_int c) s)
      else if con_escape s = 1 then
        Some (Stay (s\<lparr>con_escape := (if c = 91 then con_escape s + 1 else 0)\<rparr>))
      else map_option (\<lambda>s. Stay (s\<lparr>con_escape := 0\<rparr>))
        (if c = 67 then map_option (con_puts [32]) (con_store 32 s)
         else if c = 68 then Some (con_erase s)
         else Some s))"

definition con_step :: "u8 list \<Rightarrow> int \<Rightarrow> console \<Rightarrow> con_next option" where
  "con_step ret c s =
     (if c < 0 then Some (Stay s)
      else do {
        n \<leftarrow> con_key ret c s;
        Some (case n of Leave s \<Rightarrow> Leave s
          | Stay s \<Rightarrow> if con_pos s = LINE_LEN - 1
              then Leave (con_puts (10 # bytes_of ''error: line too long'' @ [10]) (s\<lparr>con_pos := 0\<rparr>))
              else Stay s)
      })"

text \<open>A session on the keys it is given: the keys end, or it leaves.\<close>

fun con_keys :: "u8 list \<Rightarrow> int list \<Rightarrow> console \<Rightarrow> con_next option" where
  "con_keys ret [] s = Some (Stay s)"
| "con_keys ret (c # cs) s = (case con_step ret c s of None \<Rightarrow> None
     | Some (Leave s) \<Rightarrow> Some (Leave s) | Some (Stay s) \<Rightarrow> con_keys ret cs s)"

definition retro_app :: "nat \<Rightarrow> u8 list \<Rightarrow> u8 list \<Rightarrow> int list \<Rightarrow> con_next option" where
  "retro_app pos buffer ret cs = con_keys ret cs
     (con_puts (bytes_of ''retro 0.0'' @ [13, 10] @ bytes_of ''type 'bye' to exit'' @ [13, 10])
       \<lparr>con_pos = pos, con_buffer = buffer, con_escape = 0, con_out = [], con_started = []\<rparr>)"

section \<open>The line editor stays in its buffer\<close>

definition con_ok :: "console \<Rightarrow> bool" where
  "con_ok s \<longleftrightarrow> length (con_buffer s) = 200 \<and> con_pos s \<le> 62 \<and> con_escape s \<le> 2"

fun con_next_ok :: "con_next \<Rightarrow> bool" where
  "con_next_ok (Stay s) \<longleftrightarrow> con_ok s"
| "con_next_ok (Leave s) \<longleftrightarrow> length (con_buffer s) = 200 \<and> con_pos s \<le> 63"

lemma con_puts_fields [simp]:
  "con_pos (con_puts bs s) = con_pos s" "con_buffer (con_puts bs s) = con_buffer s"
  "con_escape (con_puts bs s) = con_escape s" "con_started (con_puts bs s) = con_started s"
  by (simp_all add: con_puts_def)

lemma con_erase_fields [simp]:
  "con_pos (con_erase s) = con_pos s - 1" "con_buffer (con_erase s) = con_buffer s"
  "con_escape (con_erase s) = con_escape s" "con_started (con_erase s) = con_started s"
  by (simp_all add: con_erase_def)

lemma con_ok_puts [simp]: "con_ok (con_puts bs s) = con_ok s"
  by (simp add: con_ok_def)

lemma con_ok_erase: "con_ok s \<Longrightarrow> con_ok (con_erase s)"
  by (auto simp: con_ok_def)

lemma con_store_ok:
  "con_ok s \<Longrightarrow> con_store c s = Some (s\<lparr>con_buffer := (con_buffer s)[con_pos s := c], con_pos := con_pos s + 1\<rparr>)"
  by (simp add: con_store_def con_ok_def poke_def)

lemma process_buffer_ok:
  assumes "con_ok s" "length ret = 100" "s' = con_puts bs (s\<lparr>con_buffer := (con_buffer s)[con_pos s := 0], con_pos := con_pos s + 1\<rparr>)"
  obtains bye t where "process_buffer ret s' = Some (bye, t)" "con_buffer t = con_buffer s'" "con_escape t = con_escape s"
    "if bye then con_pos t = con_pos s' else con_pos t = 0"
proof -
  have "con_pos s < length (con_buffer s')" "con_buffer s' ! con_pos s = 0" using assms by (auto simp: con_ok_def)
  then obtain line where l: "c_str (con_buffer s') = Some line" "length line \<le> con_pos s" using c_str_at by blast
  then have "\<exists>r. memcpy_in ret 0 line = Some r" using assms(1,2) by (simp add: memcpy_in_def con_ok_def)
  then show ?thesis using that l(1) assms(3)
    by (cases "line = bytes_of ''bye''") (auto simp: process_buffer_def)
qed

lemma con_key_ok:
  assumes "con_ok s" "length ret = 100"
  shows "\<exists>n. con_key ret c s = Some n \<and>
    (case n of Stay t \<Rightarrow> length (con_buffer t) = 200 \<and> con_pos t \<le> 63 \<and> con_escape t \<le> 2
      | Leave t \<Rightarrow> length (con_buffer t) = 200 \<and> con_pos t \<le> 63)"
proof -
  let ?s = "con_puts [10] (s\<lparr>con_buffer := (con_buffer s)[con_pos s := 0], con_pos := con_pos s + 1\<rparr>)"
  obtain bye t where t: "process_buffer ret ?s = Some (bye, t)" "con_buffer t = con_buffer ?s" "con_escape t = con_escape s"
    "if bye then con_pos t = con_pos ?s else con_pos t = 0"
    using process_buffer_ok [OF assms refl] by blast
  show ?thesis using assms t by (auto simp: con_key_def con_store_ok con_ok_def)
qed

lemma con_step_ok:
  assumes "con_ok s" "length ret = 100"
  shows "\<exists>n. con_step ret c s = Some n \<and> con_next_ok n"
proof -
  obtain n where n: "con_key ret c s = Some n" and "case n of Stay t \<Rightarrow> length (con_buffer t) = 200 \<and> con_pos t \<le> 63 \<and> con_escape t \<le> 2
      | Leave t \<Rightarrow> length (con_buffer t) = 200 \<and> con_pos t \<le> 63" using con_key_ok [OF assms] by blast
  then show ?thesis using assms by (cases n) (auto simp: con_step_def con_ok_def LINE_LEN_def)
qed

lemma con_keys_ok: "con_ok s \<Longrightarrow> length ret = 100 \<Longrightarrow> \<exists>n. con_keys ret cs s = Some n \<and> con_next_ok n"
proof (induction cs arbitrary: s)
  case (Cons c cs)
  obtain n where "con_step ret c s = Some n" "con_next_ok n" using con_step_ok Cons.prems by blast
  then show ?case using Cons by (cases n) auto
qed simp

text \<open>C33.  The line editor never leaves its buffers: a session that starts with the position at 62
  or below handles every sequence of keys without an access outside \<open>buffer\<close> or \<open>ret\<close>, and
  ends or goes on with the position at most 63.\<close>

theorem retro_console_safe:
  assumes "pos \<le> 62" "length buffer = 200" "length ret = 100"
  shows "\<exists>n. retro_app pos buffer ret cs = Some n \<and> con_next_ok n"
proof -
  have "con_ok \<lparr>con_pos = pos, con_buffer = buffer, con_escape = 0, con_out = [], con_started = []\<rparr>"
    using assms by (simp add: con_ok_def)
  then show ?thesis using assms(3) unfolding retro_app_def by (intro con_keys_ok) simp_all
qed

theorem retro_console_safe_witness:
  "\<exists>n. retro_app 0 (replicate 200 1) (replicate 100 1) [49, 27, 91, 67, 10] = Some n \<and> con_next_ok n"
  using retro_console_safe [of 0 "replicate 200 1" "replicate 100 1"] by simp

section \<open>Lines\<close>

definition plain_key :: "u8 \<Rightarrow> bool" where
  "plain_key c \<longleftrightarrow> c \<notin> {13, 10, 127, 8, 27}"

lemma plain_key_int: "plain_key c \<Longrightarrow> int (unat c) \<notin> {13, 10, 127, 8, 27}"
proof -
  have "c = of_int k" if "uint c = k" for k using that by (metis word_of_int_uint)
  then show "plain_key c \<Longrightarrow> ?thesis" by (fastforce simp: plain_key_def)
qed

lemma con_step_plain:
  assumes "plain_key c" "con_escape s = 0" "con_pos s < length (con_buffer s)" "con_pos s \<noteq> 62"
  shows "con_step ret (int (unat c)) s = Some (Stay (con_puts [c]
    (s\<lparr>con_buffer := (con_buffer s)[con_pos s := c], con_pos := con_pos s + 1\<rparr>)))"
  using assms plain_key_int [OF assms(1)]
  by (simp add: con_step_def con_key_def con_store_def poke_def LINE_LEN_def)

lemma con_keys_append:
  "con_keys ret (cs @ ds) s = (case con_keys ret cs s of Some (Stay t) \<Rightarrow> con_keys ret ds t | r \<Rightarrow> r)"
  by (induction ret cs s rule: con_keys.induct) (auto split: option.splits con_next.splits)

lemma con_keys_plain:
  assumes "\<forall>c\<in>set cs. plain_key c" "con_escape s = 0" "length (con_buffer s) = 200"
    "con_pos s + length cs \<le> 62 \<or> 63 \<le> con_pos s \<and> con_pos s + length cs \<le> 200"
  shows "\<exists>t. con_keys ret (map (\<lambda>c. int (unat c)) cs) s = Some (Stay t) \<and> con_escape t = 0 \<and>
    con_started t = con_started s \<and> con_pos t = con_pos s + length cs \<and>
    con_buffer t = take (con_pos s) (con_buffer s) @ cs @ drop (con_pos s + length cs) (con_buffer s)"
  using assms
proof (induction cs arbitrary: s)
  case (Cons c cs)
  let ?t = "con_puts [c] (s\<lparr>con_buffer := (con_buffer s)[con_pos s := c], con_pos := con_pos s + 1\<rparr>)"
  have p: "con_pos s < length (con_buffer s)" using Cons.prems(3,4) by auto
  have "con_step ret (int (unat c)) s = Some (Stay ?t)"
    by (rule con_step_plain) (use Cons.prems in auto)
  moreover obtain t where "con_keys ret (map (\<lambda>c. int (unat c)) cs) ?t = Some (Stay t)" "con_escape t = 0"
    "con_started t = con_started s" "con_pos t = con_pos s + 1 + length cs"
    "con_buffer t = take (con_pos s + 1) ((con_buffer s)[con_pos s := c]) @ cs @ drop (con_pos s + 1 + length cs) ((con_buffer s)[con_pos s := c])"
    using Cons.IH [of ?t] Cons.prems by auto
  ultimately show ?case using p take_poke_next [OF p] by auto
qed simp

text \<open>A line of at most 62 plain characters, typed into an empty line buffer and ended by Enter,
  starts the machine once, on an object that begins with exactly these characters, and leaves the
  buffer empty again; the line \<open>bye\<close> starts nothing and leaves the command.\<close>

theorem retro_console_line:
  assumes "length buffer = 200" "length ret = 100" "length cs \<le> 62" "\<forall>c\<in>set cs. plain_key c \<and> c \<noteq> 0"
  shows "\<exists>t. retro_app 0 buffer ret (map (\<lambda>c. int (unat c)) cs @ [10]) =
      Some (if cs = bytes_of ''bye'' then Leave t else Stay t) \<and>
    con_started t = (if cs = bytes_of ''bye'' then [] else [cs @ drop (length cs) ret]) \<and>
    con_pos t = (if cs = bytes_of ''bye'' then 4 else 0)"
proof -
  define s where "s = con_puts (bytes_of ''retro 0.0'' @ [13, 10] @ bytes_of ''type 'bye' to exit'' @ [13, 10])
       \<lparr>con_pos = 0, con_buffer = buffer, con_escape = 0, con_out = [], con_started = []\<rparr>"
  have s: "con_escape s = 0" "length (con_buffer s) = 200" "con_pos s = 0" "con_started s = []" using assms(1) by (simp_all add: s_def)
  obtain u where u: "con_keys ret (map (\<lambda>c. int (unat c)) cs) s = Some (Stay u)" "con_escape u = 0" "con_started u = []"
    "con_pos u = length cs" "con_buffer u = cs @ drop (length cs) (con_buffer s)"
    using con_keys_plain [of cs s ret] assms s by auto
  have "con_ok u" using u s assms(3) by (simp add: con_ok_def)
  have "(con_buffer u)[con_pos u := 0] = cs @ 0 # drop (length cs + 1) (con_buffer s)"
    using u(4,5) s(2) assms(3) by (simp add: list_update_append Cons_nth_drop_Suc [symmetric])
  then have "c_str ((con_buffer u)[con_pos u := 0]) = Some cs" using assms(4) c_str_append by fastforce
  moreover have "memcpy_in ret 0 cs = Some (cs @ drop (length cs) ret)" using assms(2,3) by (simp add: memcpy_in_def)
  ultimately have "con_step ret 10 u = Some (if cs = bytes_of ''bye'' then Leave
      (con_puts [10] (u\<lparr>con_buffer := (con_buffer u)[con_pos u := 0], con_pos := con_pos u + 1\<rparr>))
    else Stay (con_puts [10] (con_puts [10] (u\<lparr>con_buffer := (con_buffer u)[con_pos u := 0]\<rparr>)
      \<lparr>con_pos := 0, con_started := [cs @ drop (length cs) ret]\<rparr>)))"
    using u(2,3) con_store_ok [OF \<open>con_ok u\<close>]
    by (simp add: con_step_def con_key_def process_buffer_def LINE_LEN_def con_puts_def con_erase_def)
  moreover have "length cs = 3" if "cs = bytes_of ''bye''" using that by (simp add: bytes_of_def)
  ultimately show ?thesis unfolding retro_app_def s_def [symmetric] con_keys_append u(1) using u(3,4) by auto
qed

theorem retro_console_line_witness:
  "\<exists>t. retro_app 0 (replicate 200 1) (replicate 100 1) [49, 50, 10] = Some (Stay t) \<and>
    con_started t = [[49, 50] @ replicate 98 1] \<and> con_pos t = 0"
  using retro_console_line [of "replicate 200 1" "replicate 100 1" "[49, 50]"]
  by (simp add: plain_key_def bytes_of_def)

text \<open>The static position is not reset when the command is left: after the input
  \<open>bye\<close>, a zero byte, 58 characters and Enter the next session starts at position 63, the check
  for position 63 never succeeds again, and 138 more characters write outside the buffer.\<close>

theorem retro_console_overflow:
  assumes "length buffer = 200" "length buffer' = 200" "length ret = 100"
  shows "\<exists>t. retro_app 0 buffer ret ([98, 121, 101, 0] @ replicate 58 120 @ [10]) = Some (Leave t) \<and>
    retro_app (con_pos t) buffer' ret (replicate 138 120) = None"
proof -
  define banner where "banner = bytes_of ''retro 0.0'' @ [13, 10] @ bytes_of ''type 'bye' to exit'' @ [13, 10]"
  define start where "start = (\<lambda>p b. con_puts banner
       \<lparr>con_pos = p, con_buffer = b, con_escape = 0, con_out = [], con_started = []\<rparr>)"
  let ?cs = "[98, 121, 101, 0] @ replicate 58 120 :: u8 list"
  have plain: "\<forall>c\<in>set ?cs. plain_key c" by (auto simp: plain_key_def)
  obtain u where u: "con_keys ret (map (\<lambda>c. int (unat c)) ?cs) (start 0 buffer) = Some (Stay u)" "con_escape u = 0"
    "con_pos u = 62" "con_buffer u = ?cs @ drop 62 buffer"
    using con_keys_plain [OF plain, of "start 0 buffer" ret] assms(1) by (auto simp: start_def)
  have "con_ok u" using u assms(1) by (simp add: con_ok_def)
  have "(con_buffer u)[con_pos u := 0] = [98, 121, 101] @ 0 # (replicate 58 120 @ drop 62 buffer)[58 := 0]"
    unfolding u(3,4) by simp
  then have "c_str ((con_buffer u)[con_pos u := 0]) = Some [98, 121, 101]"
    using c_str_append [of "[98, 121, 101]"] by simp
  then have "con_step ret 10 u = Some (Leave (con_puts [10] (u\<lparr>con_buffer := (con_buffer u)[con_pos u := 0], con_pos := 63\<rparr>)))"
    using u(2,3) con_store_ok [OF \<open>con_ok u\<close>]
    by (simp add: con_step_def con_key_def process_buffer_def bytes_of_def)
  then have 1: "con_keys ret (map (\<lambda>c. int (unat c)) ?cs @ [10]) (start 0 buffer) =
      Some (Leave (con_puts [10] (u\<lparr>con_buffer := (con_buffer u)[con_pos u := 0], con_pos := 63\<rparr>)))"
    unfolding con_keys_append u(1) by simp
  have plain': "\<forall>c\<in>set (replicate 137 (120 :: u8)). plain_key c" by (auto simp: plain_key_def)
  obtain v where v: "con_keys ret (map (\<lambda>c. int (unat c)) (replicate 137 (120 :: u8))) (start 63 buffer') = Some (Stay v)"
    "con_escape v = 0" "con_pos v = 200" "length (con_buffer v) = 200"
    using con_keys_plain [OF plain', of "start 63 buffer'" ret] assms(2) by (auto simp: start_def)
  have "con_step ret 120 v = None" using v(2-4) by (simp add: con_step_def con_key_def con_store_def poke_def)
  then have 2: "con_keys ret (replicate 137 120 @ [120]) (start 63 buffer') = None"
    unfolding con_keys_append using v(1) by simp
  have "replicate 137 120 @ [120] = (replicate 138 120 :: int list)" by (simp flip: replicate_append_same add: numeral_eq_Suc)
  then show ?thesis using 1 2 by (simp add: retro_app_def start_def banner_def)
qed

theorem retro_console_overflow_witness:
  "\<exists>t. retro_app 0 (replicate 200 0) (replicate 100 0) ([98, 121, 101, 0] @ replicate 58 120 @ [10]) = Some (Leave t) \<and>
    retro_app (con_pos t) (replicate 200 0) (replicate 100 0) (replicate 138 120) = None"
  by (rule retro_console_overflow) simp_all

end
