(* ===== verification/App501.thy ===== *)
theory App501
  imports Prelude
begin

text \<open>
  The producer and the consumers of \<open>app500/myapp2.c\<close> (\<open>app501\<close>): one thread runs
  \<open>pub501\<close>, three run \<open>sub501\<close>, over a ring of nine items of six bytes, two counting
  semaphores and a mutex.  The program is a step relation; a step is one call of a thread or its
  critical section.

  The kernel's primitives appear by their contract: a mutex is acquired when it is free; a timed
  wait takes a unit when there is one, and gives up, changing nothing, only when there is none.  The
  program ignores which of the two happened.  The items a thread prints are recorded in
  \<open>pub_log\<close> and \<open>sub_log\<close>, and \<open>pub_timeouts\<close> and \<open>sub_timeouts\<close> count the waits that gave
  up.
\<close>

section \<open>State\<close>

definition BUFFER_SIZE :: nat where "BUFFER_SIZE = 9"
definition PUB_ROUNDS :: nat where "PUB_ROUNDS = 20"
definition SUB_ROUNDS :: nat where "SUB_ROUNDS = 22"
definition SUBS :: nat where "SUBS = 3"

datatype pc = Gen | Sem | Lock | Crit | Unlock | Post

datatype tid = Pub | Sub nat

record app501 =
  buffer_501 :: "u8 list"
  producer_item :: "u8 list"
  in_x :: nat
  out_x :: nat
  empty_sem :: nat
  full_sem :: nat
  pipe_lock_501 :: "tid option"
  pub_pc :: pc
  pub_i :: nat
  sub_pc :: "pc list"
  sub_i :: "nat list"
  pub_log :: "u8 list list"
  sub_log :: "u8 list list"
  pub_timeouts :: nat
  sub_timeouts :: nat

definition app501 :: "u8 list \<Rightarrow> u8 list \<Rightarrow> nat \<Rightarrow> nat \<Rightarrow> app501" where
  "app501 buf itm i j = \<lparr>buffer_501 = buf, producer_item = itm, in_x = i, out_x = j, empty_sem = BUFFER_SIZE, full_sem = 0,
     pipe_lock_501 = None, pub_pc = Gen, pub_i = 0, sub_pc = replicate SUBS Sem, sub_i = replicate SUBS 0,
     pub_log = [], sub_log = [], pub_timeouts = 0, sub_timeouts = 0\<rparr>"

section \<open>The threads\<close>

text \<open>The statements between \<open>mutex_acquire\<close> and \<open>mutex_release\<close>.\<close>

definition pub_critical :: "app501 \<Rightarrow> app501 option" where
  "pub_critical s = do {
     b \<leftarrow> memcpy_in (buffer_501 s) (in_x s * 6) (producer_item s);
     Some (s\<lparr>buffer_501 := b, pub_log := pub_log s @ [producer_item s], in_x := (in_x s + 1) mod BUFFER_SIZE\<rparr>)
   }"

definition sub_critical :: "app501 \<Rightarrow> app501 option" where
  "sub_critical s = do {
     itm \<leftarrow> memcpy_out (Some (drop (out_x s * 6) (buffer_501 s))) 6;
     Some (s\<lparr>sub_log := sub_log s @ [itm], out_x := (out_x s + 1) mod BUFFER_SIZE\<rparr>)
   }"

inductive step501 :: "app501 \<Rightarrow> app501 \<Rightarrow> bool" where
  pub_gen: "pub_pc s = Gen \<Longrightarrow> pub_i s < PUB_ROUNDS \<Longrightarrow> length rnd = 6 \<Longrightarrow>
    step501 s (s\<lparr>producer_item := rnd, pub_pc := Sem\<rparr>)"
| pub_wait: "pub_pc s = Sem \<Longrightarrow> 0 < empty_sem s \<Longrightarrow>
    step501 s (s\<lparr>empty_sem := empty_sem s - 1, pub_pc := Lock\<rparr>)"
| pub_timeout: "pub_pc s = Sem \<Longrightarrow> empty_sem s = 0 \<Longrightarrow>
    step501 s (s\<lparr>pub_timeouts := pub_timeouts s + 1, pub_pc := Lock\<rparr>)"
| pub_lock: "pub_pc s = Lock \<Longrightarrow> pipe_lock_501 s = None \<Longrightarrow>
    step501 s (s\<lparr>pipe_lock_501 := Some Pub, pub_pc := Crit\<rparr>)"
| pub_crit: "pub_pc s = Crit \<Longrightarrow> pub_critical s = Some s' \<Longrightarrow> step501 s (s'\<lparr>pub_pc := Unlock\<rparr>)"
| pub_unlock: "pub_pc s = Unlock \<Longrightarrow> step501 s (s\<lparr>pipe_lock_501 := None, pub_pc := Post\<rparr>)"
| pub_post: "pub_pc s = Post \<Longrightarrow>
    step501 s (s\<lparr>full_sem := full_sem s + 1, pub_pc := Gen, pub_i := pub_i s + 1\<rparr>)"
| sub_wait: "k < SUBS \<Longrightarrow> sub_pc s ! k = Sem \<Longrightarrow> sub_i s ! k < SUB_ROUNDS \<Longrightarrow> 0 < full_sem s \<Longrightarrow>
    step501 s (s\<lparr>full_sem := full_sem s - 1, sub_pc := (sub_pc s)[k := Lock]\<rparr>)"
| sub_timeout: "k < SUBS \<Longrightarrow> sub_pc s ! k = Sem \<Longrightarrow> sub_i s ! k < SUB_ROUNDS \<Longrightarrow> full_sem s = 0 \<Longrightarrow>
    step501 s (s\<lparr>sub_timeouts := sub_timeouts s + 1, sub_pc := (sub_pc s)[k := Lock]\<rparr>)"
| sub_lock: "k < SUBS \<Longrightarrow> sub_pc s ! k = Lock \<Longrightarrow> pipe_lock_501 s = None \<Longrightarrow>
    step501 s (s\<lparr>pipe_lock_501 := Some (Sub k), sub_pc := (sub_pc s)[k := Crit]\<rparr>)"
| sub_crit: "k < SUBS \<Longrightarrow> sub_pc s ! k = Crit \<Longrightarrow> sub_critical s = Some s' \<Longrightarrow>
    step501 s (s'\<lparr>sub_pc := (sub_pc s)[k := Unlock]\<rparr>)"
| sub_unlock: "k < SUBS \<Longrightarrow> sub_pc s ! k = Unlock \<Longrightarrow>
    step501 s (s\<lparr>pipe_lock_501 := None, sub_pc := (sub_pc s)[k := Post]\<rparr>)"
| sub_post: "k < SUBS \<Longrightarrow> sub_pc s ! k = Post \<Longrightarrow>
    step501 s (s\<lparr>empty_sem := empty_sem s + 1, sub_pc := (sub_pc s)[k := Sem], sub_i := (sub_i s)[k := sub_i s ! k + 1]\<rparr>)"

text \<open>All four threads have returned, so that the joins of \<open>app501\<close> are over.\<close>

definition finished501 :: "app501 \<Rightarrow> bool" where
  "finished501 s \<longleftrightarrow> pub_pc s = Gen \<and> pub_i s = PUB_ROUNDS \<and>
     (\<forall>k<SUBS. sub_pc s ! k = Sem \<and> sub_i s ! k = SUB_ROUNDS)"

inductive runs501 :: "app501 \<Rightarrow> nat \<Rightarrow> app501 \<Rightarrow> bool" where
  runs_refl: "runs501 s 0 s"
| runs_step: "runs501 s n t \<Longrightarrow> step501 t u \<Longrightarrow> runs501 s (Suc n) u"

section \<open>Sums over the consumers\<close>

definition total :: "(nat \<Rightarrow> pc \<Rightarrow> nat) \<Rightarrow> app501 \<Rightarrow> nat" where
  "total w s = (\<Sum>k<SUBS. w (sub_i s ! k) (sub_pc s ! k))"

lemma sum_update:
  assumes "k < (n :: nat)" "\<And>j. j \<noteq> k \<Longrightarrow> g j = f j"
  shows "sum g {..<n} + f k = sum f {..<n} + (g k :: nat)"
proof -
  have "sum g ({..<n} - {k}) = sum f ({..<n} - {k})" using assms(2) by (intro sum.cong) auto
  then show ?thesis using assms(1) by (simp add: sum.remove [of "{..<n}" k])
qed

lemma total_step:
  assumes "k < SUBS" "length (sub_pc s) = SUBS" "length (sub_i s) = SUBS"
    "sub_pc t = (sub_pc s)[k := p]" "sub_i t = (sub_i s)[k := i]"
  shows "total w t + w (sub_i s ! k) (sub_pc s ! k) = total w s + w i p"
  unfolding total_def
  using sum_update [of k SUBS "\<lambda>j. w (sub_i t ! j) (sub_pc t ! j)" "\<lambda>j. w (sub_i s ! j) (sub_pc s ! j)"] assms
  by (simp add: nth_list_update)

lemma total_move:
  assumes "k < SUBS" "length (sub_pc s) = SUBS" "length (sub_i s) = SUBS"
    "sub_pc t = (sub_pc s)[k := p]" "sub_i t = sub_i s"
  shows "total w t + w (sub_i s ! k) (sub_pc s ! k) = total w s + w (sub_i s ! k) p"
  using total_step [OF assms(1-4), of "sub_i s ! k"] assms(5) by simp

lemma total_same: "sub_pc t = sub_pc s \<Longrightarrow> sub_i t = sub_i s \<Longrightarrow> total w t = total w s"
  by (simp add: total_def)

lemma total_ge: "k < SUBS \<Longrightarrow> w (sub_i s ! k) (sub_pc s ! k) \<le> total w s"
  unfolding total_def by (rule member_le_sum) auto

section \<open>Invariants of every run\<close>

definition shape501 :: "app501 \<Rightarrow> bool" where
  "shape501 s \<longleftrightarrow> length (buffer_501 s) = BUFFER_SIZE * 6 \<and> length (producer_item s) = 6 \<and>
     in_x s < BUFFER_SIZE \<and> out_x s < BUFFER_SIZE \<and> length (sub_pc s) = SUBS \<and> length (sub_i s) = SUBS"

fun holds501 :: "app501 \<Rightarrow> tid \<Rightarrow> bool" where
  "holds501 s Pub \<longleftrightarrow> pub_pc s \<in> {Crit, Unlock}"
| "holds501 s (Sub k) \<longleftrightarrow> k < SUBS \<and> sub_pc s ! k \<in> {Crit, Unlock}"

definition mutex501 :: "app501 \<Rightarrow> bool" where
  "mutex501 s \<longleftrightarrow> (\<forall>t. holds501 s t \<longleftrightarrow> pipe_lock_501 s = Some t)"

definition rounds501 :: "app501 \<Rightarrow> bool" where
  "rounds501 s \<longleftrightarrow> (pub_i s < PUB_ROUNDS \<or> pub_i s = PUB_ROUNDS \<and> pub_pc s = Gen) \<and>
     (\<forall>k<SUBS. sub_pc s ! k \<noteq> Gen \<and> (sub_i s ! k < SUB_ROUNDS \<or> sub_i s ! k = SUB_ROUNDS \<and> sub_pc s ! k = Sem))"

lemma critical_fields:
  "pub_critical s = Some t \<Longrightarrow> sub_pc t = sub_pc s \<and> sub_i t = sub_i s \<and> pub_pc t = pub_pc s \<and> pub_i t = pub_i s \<and>
     pipe_lock_501 t = pipe_lock_501 s \<and> empty_sem t = empty_sem s \<and> full_sem t = full_sem s \<and> pub_timeouts t = pub_timeouts s \<and> sub_timeouts t = sub_timeouts s \<and>
     sub_log t = sub_log s \<and> out_x t = out_x s \<and> producer_item t = producer_item s \<and>
     pub_log t = pub_log s @ [producer_item s] \<and> in_x t = (in_x s + 1) mod BUFFER_SIZE \<and>
     memcpy_in (buffer_501 s) (in_x s * 6) (producer_item s) = Some (buffer_501 t)"
  "sub_critical s = Some t \<Longrightarrow> sub_pc t = sub_pc s \<and> sub_i t = sub_i s \<and> pub_pc t = pub_pc s \<and> pub_i t = pub_i s \<and>
     pipe_lock_501 t = pipe_lock_501 s \<and> empty_sem t = empty_sem s \<and> full_sem t = full_sem s \<and> pub_timeouts t = pub_timeouts s \<and> sub_timeouts t = sub_timeouts s \<and>
     pub_log t = pub_log s \<and> in_x t = in_x s \<and> producer_item t = producer_item s \<and> buffer_501 t = buffer_501 s \<and>
     out_x t = (out_x s + 1) mod BUFFER_SIZE \<and>
     (\<exists>itm. memcpy_out (Some (drop (out_x s * 6) (buffer_501 s))) 6 = Some itm \<and> sub_log t = sub_log s @ [itm])"
  by (auto simp: pub_critical_def sub_critical_def bind_Some_iff)

lemma BUFFER_SIZE_pos [simp]: "n mod BUFFER_SIZE < BUFFER_SIZE"
  by (simp add: BUFFER_SIZE_def)

lemma shape_step: "step501 s t \<Longrightarrow> shape501 s \<Longrightarrow> shape501 t"
  by (induction rule: step501.induct) (auto simp: shape501_def dest!: critical_fields memcpy_in_length)

lemma holds_sub_pc:
  assumes "sub_pc t = (sub_pc s)[k := p]" "pub_pc t = pub_pc s" "k < SUBS" "shape501 s"
  shows "holds501 t x \<longleftrightarrow> (if x = Sub k then p \<in> {Crit, Unlock} else holds501 s x)"
  using assms by (cases x) (auto simp: nth_list_update shape501_def)

lemma holds_pub_pc:
  assumes "pub_pc t = p" "sub_pc t = sub_pc s"
  shows "holds501 t x \<longleftrightarrow> (if x = Pub then p \<in> {Crit, Unlock} else holds501 s x)"
  using assms by (cases x) auto

text \<open>A move of thread \<open>x\<close> keeps, takes or gives back the lock.\<close>

lemma mutex_keep:
  "mutex501 s \<Longrightarrow> (\<And>y. holds501 t y \<longleftrightarrow> (if y = x then h else holds501 s y)) \<Longrightarrow> holds501 s x = h \<Longrightarrow>
    pipe_lock_501 t = pipe_lock_501 s \<Longrightarrow> mutex501 t"
  unfolding mutex501_def by metis

lemma mutex_take:
  "mutex501 s \<Longrightarrow> (\<And>y. holds501 t y \<longleftrightarrow> (if y = x then h else holds501 s y)) \<Longrightarrow> h \<Longrightarrow> pipe_lock_501 s = None \<Longrightarrow>
    pipe_lock_501 t = Some x \<Longrightarrow> mutex501 t"
  unfolding mutex501_def by (metis option.distinct(1) option.inject)

lemma mutex_give:
  "mutex501 s \<Longrightarrow> (\<And>y. holds501 t y \<longleftrightarrow> (if y = x then h else holds501 s y)) \<Longrightarrow> \<not> h \<Longrightarrow> holds501 s x \<Longrightarrow>
    pipe_lock_501 t = None \<Longrightarrow> mutex501 t"
  unfolding mutex501_def by (metis option.distinct(1) option.inject)

lemma mutex_step: "step501 s t \<Longrightarrow> shape501 s \<Longrightarrow> mutex501 s \<Longrightarrow> mutex501 t"
proof (induction rule: step501.induct)
  case (pub_gen s rnd)
  show ?case by (rule mutex_keep [OF pub_gen(5) holds_pub_pc [OF refl]]) (use pub_gen in simp_all)
next
  case (pub_wait s)
  show ?case by (rule mutex_keep [OF pub_wait(4) holds_pub_pc [OF refl]]) (use pub_wait in simp_all)
next
  case (pub_timeout s)
  show ?case by (rule mutex_keep [OF pub_timeout(4) holds_pub_pc [OF refl]]) (use pub_timeout in simp_all)
next
  case (pub_lock s)
  show ?case by (rule mutex_take [OF pub_lock(4) holds_pub_pc [OF refl]]) (use pub_lock in simp_all)
next
  case (pub_crit s s')
  note f = critical_fields(1) [OF pub_crit(2)]
  show ?case by (rule mutex_keep [OF pub_crit(4) holds_pub_pc [OF refl]]) (use pub_crit f in simp_all)
next
  case (pub_unlock s)
  show ?case by (rule mutex_give [OF pub_unlock(3) holds_pub_pc [OF refl]]) (use pub_unlock in simp_all)
next
  case (pub_post s)
  show ?case by (rule mutex_keep [OF pub_post(3) holds_pub_pc [OF refl]]) (use pub_post in simp_all)
next
  case (sub_wait k s)
  show ?case by (rule mutex_keep [OF sub_wait(6) holds_sub_pc [where p = Lock and k = k]]) (use sub_wait in simp_all)
next
  case (sub_timeout k s)
  show ?case by (rule mutex_keep [OF sub_timeout(6) holds_sub_pc [where p = Lock and k = k]]) (use sub_timeout in simp_all)
next
  case (sub_lock k s)
  show ?case by (rule mutex_take [OF sub_lock(5) holds_sub_pc [where p = Crit and k = k]]) (use sub_lock in simp_all)
next
  case (sub_crit k s s')
  note f = critical_fields(2) [OF sub_crit(3)]
  show ?case by (rule mutex_keep [OF sub_crit(5) holds_sub_pc [where p = Unlock and k = k]]) (use sub_crit f in simp_all)
next
  case (sub_unlock k s)
  show ?case by (rule mutex_give [OF sub_unlock(4) holds_sub_pc [where p = Post and k = k]]) (use sub_unlock in simp_all)
next
  case (sub_post k s)
  show ?case by (rule mutex_keep [OF sub_post(4) holds_sub_pc [where p = Sem and k = k]]) (use sub_post in simp_all)
qed

lemma rounds_step: "step501 s t \<Longrightarrow> shape501 s \<Longrightarrow> rounds501 s \<Longrightarrow> rounds501 t"
  by (induction rule: step501.induct) (auto simp: rounds501_def shape501_def nth_list_update dest!: critical_fields)

section \<open>Every run ends\<close>

text \<open>The number of steps a thread has done.\<close>

fun pc_steps :: "pc \<Rightarrow> nat" where
  "pc_steps Gen = 0" | "pc_steps Sem = 0" | "pc_steps Lock = 1" | "pc_steps Crit = 2" | "pc_steps Unlock = 3" | "pc_steps Post = 4"

definition steps501 :: "app501 \<Rightarrow> nat" where
  "steps501 s = 6 * pub_i s + (if pub_pc s = Gen then 0 else 1 + pc_steps (pub_pc s)) + total (\<lambda>i p. 5 * i + pc_steps p) s"

lemma steps_step: "step501 s t \<Longrightarrow> shape501 s \<Longrightarrow> steps501 t = steps501 s + 1"
proof (induction rule: step501.induct)
  case (pub_crit s s')
  then show ?case by (auto simp: steps501_def total_def dest!: critical_fields)
next
  case (sub_wait k s)
  then show ?case using total_move [of k s "s\<lparr>full_sem := full_sem s - 1, sub_pc := (sub_pc s)[k := Lock]\<rparr>" Lock "\<lambda>i p. 5 * i + pc_steps p"]
    by (simp add: steps501_def shape501_def)
next
  case (sub_timeout k s)
  then show ?case using total_move [of k s "s\<lparr>sub_timeouts := sub_timeouts s + 1, sub_pc := (sub_pc s)[k := Lock]\<rparr>" Lock "\<lambda>i p. 5 * i + pc_steps p"]
    by (simp add: steps501_def shape501_def)
next
  case (sub_lock k s)
  then show ?case using total_move [of k s "s\<lparr>pipe_lock_501 := Some (Sub k), sub_pc := (sub_pc s)[k := Crit]\<rparr>" Crit "\<lambda>i p. 5 * i + pc_steps p"]
    by (simp add: steps501_def shape501_def)
next
  case (sub_crit k s s')
  then show ?case using total_move [of k s "s'\<lparr>sub_pc := (sub_pc s)[k := Unlock]\<rparr>" Unlock "\<lambda>i p. 5 * i + pc_steps p"] critical_fields(2) [of s s']
    by (simp add: steps501_def shape501_def)
next
  case (sub_unlock k s)
  then show ?case using total_move [of k s "s\<lparr>pipe_lock_501 := None, sub_pc := (sub_pc s)[k := Post]\<rparr>" Post "\<lambda>i p. 5 * i + pc_steps p"]
    by (simp add: steps501_def shape501_def)
next
  case (sub_post k s)
  then show ?case using total_step [of k s "s\<lparr>empty_sem := empty_sem s + 1, sub_pc := (sub_pc s)[k := Sem], sub_i := (sub_i s)[k := sub_i s ! k + 1]\<rparr>"
      Sem "sub_i s ! k + 1" "\<lambda>i p. 5 * i + pc_steps p"]
    by (simp add: steps501_def shape501_def)
qed (simp_all add: steps501_def total_def)

lemma critical_defined: "shape501 s \<Longrightarrow> \<exists>t. pub_critical s = Some t" "shape501 s \<Longrightarrow> \<exists>t. sub_critical s = Some t"
  by (auto simp: pub_critical_def sub_critical_def memcpy_in_def memcpy_out_def shape501_def BUFFER_SIZE_def)

lemma pub_progress:
  assumes "shape501 s" "pub_pc s = Gen \<Longrightarrow> pub_i s < PUB_ROUNDS" "pub_pc s = Lock \<Longrightarrow> pipe_lock_501 s = None"
  shows "\<exists>t. step501 s t"
proof (cases "pub_pc s")
  case Gen
  then show ?thesis using assms(2) step501.pub_gen [of s "replicate 6 0"] by auto
next
  case Sem
  then show ?thesis using step501.pub_wait step501.pub_timeout by (cases "empty_sem s = 0") blast+
next
  case Crit
  then show ?thesis using critical_defined(1) [OF assms(1)] step501.pub_crit by blast
qed (use assms(3) step501.pub_lock step501.pub_unlock step501.pub_post in blast)+

lemma sub_progress:
  assumes "shape501 s" "k < SUBS" "sub_pc s ! k \<noteq> Gen" "sub_pc s ! k = Sem \<Longrightarrow> sub_i s ! k < SUB_ROUNDS"
    "sub_pc s ! k = Lock \<Longrightarrow> pipe_lock_501 s = None"
  shows "\<exists>t. step501 s t"
proof (cases "sub_pc s ! k")
  case Sem
  then show ?thesis using assms(2,4) step501.sub_wait step501.sub_timeout by (cases "full_sem s = 0") blast+
next
  case Crit
  then show ?thesis using critical_defined(2) [OF assms(1)] assms(2) step501.sub_crit by blast
qed (use assms(2,3,5) step501.sub_lock step501.sub_unlock step501.sub_post in blast)+

lemma progress501:
  assumes "shape501 s" "mutex501 s" "rounds501 s" "\<not> finished501 s"
  shows "\<exists>t. step501 s t"
proof (cases "pipe_lock_501 s")
  case None
  show ?thesis
  proof (cases "pub_pc s = Gen \<and> pub_i s = PUB_ROUNDS")
    case True
    then obtain k where "k < SUBS" "sub_pc s ! k \<noteq> Sem \<or> sub_i s ! k \<noteq> SUB_ROUNDS" using assms(4) by (auto simp: finished501_def)
    then show ?thesis using sub_progress [OF assms(1), of k] assms(3) None by (auto simp: rounds501_def)
  next
    case False
    then show ?thesis using pub_progress [OF assms(1)] assms(3) None by (auto simp: rounds501_def)
  qed
next
  case (Some t)
  then have h: "holds501 s t" using assms(2) by (simp add: mutex501_def)
  show ?thesis
  proof (cases t)
    case Pub
    then show ?thesis using h pub_progress [OF assms(1)] by auto
  next
    case (Sub k)
    then show ?thesis using h sub_progress [OF assms(1), of k] by auto
  qed
qed

lemma steps_finished: "shape501 s \<Longrightarrow> finished501 s \<Longrightarrow> steps501 s = 450"
  by (simp add: finished501_def steps501_def total_def PUB_ROUNDS_def SUB_ROUNDS_def SUBS_def)

lemma runs_invariant:
  assumes "runs501 s n t" "shape501 s" "mutex501 s" "rounds501 s"
  shows "shape501 t \<and> mutex501 t \<and> rounds501 t \<and> steps501 t = steps501 s + n"
  using assms by (induction rule: runs501.induct) (auto dest: shape_step mutex_step rounds_step steps_step)

section \<open>Counting items and units\<close>

definition taken :: "pc \<Rightarrow> nat" where "taken p = of_bool (p \<in> {Lock, Crit})"
definition passed :: "pc \<Rightarrow> nat" where "passed p = of_bool (p \<in> {Unlock, Post})"

lemma taken_simps [simp]: "taken Gen = 0" "taken Sem = 0" "taken Lock = 1" "taken Crit = 1" "taken Unlock = 0" "taken Post = 0"
  by (simp_all add: taken_def)

lemma passed_simps [simp]: "passed Gen = 0" "passed Sem = 0" "passed Lock = 0" "passed Crit = 0" "passed Unlock = 1" "passed Post = 1"
  by (simp_all add: passed_def)

text \<open>The rings' positions, the items printed, and where every unit of the two semaphores is: free,
  with a thread before or after its critical section, or standing for an item in the ring; a wait
  that gave up adds a unit.\<close>

definition counts501 :: "nat \<Rightarrow> nat \<Rightarrow> app501 \<Rightarrow> bool" where
  "counts501 i j s \<longleftrightarrow>
     length (pub_log s) = pub_i s + passed (pub_pc s) \<and>
     length (sub_log s) = total (\<lambda>i p. i + passed p) s \<and>
     in_x s = (i + length (pub_log s)) mod BUFFER_SIZE \<and> out_x s = (j + length (sub_log s)) mod BUFFER_SIZE \<and>
     full_sem s + total (\<lambda>i p. taken p) s + passed (pub_pc s) + length (sub_log s) = length (pub_log s) + sub_timeouts s \<and>
     empty_sem s + taken (pub_pc s) + total (\<lambda>i p. passed p) s + length (pub_log s) =
       BUFFER_SIZE + length (sub_log s) + pub_timeouts s"

lemma counts_move:
  assumes "counts501 i j s" "shape501 s" "k < SUBS" "sub_pc t = (sub_pc s)[k := p]" "sub_i t = sub_i s"
    "pub_log t = pub_log s" "pub_i t = pub_i s" "pub_pc t = pub_pc s" "pub_timeouts t = pub_timeouts s" "in_x t = in_x s"
    "length (sub_log t) + passed (sub_pc s ! k) = length (sub_log s) + passed p"
    "out_x t = (j + length (sub_log t)) mod BUFFER_SIZE"
    "full_sem t + taken p + length (sub_log t) + sub_timeouts s = full_sem s + taken (sub_pc s ! k) + length (sub_log s) + sub_timeouts t"
    "empty_sem t + passed p + length (sub_log s) = empty_sem s + passed (sub_pc s ! k) + length (sub_log t)"
  shows "counts501 i j t"
proof -
  have l: "length (sub_pc s) = SUBS" "length (sub_i s) = SUBS" using assms(2) by (simp_all add: shape501_def)
  note m = total_move [OF assms(3) l assms(4,5)]
  have "total (\<lambda>i p. i + passed p) t + passed (sub_pc s ! k) = total (\<lambda>i p. i + passed p) s + passed p"
    using m [of "\<lambda>i p. i + passed p"] by simp
  moreover note m [of "\<lambda>i p. taken p"] m [of "\<lambda>i p. passed p"]
  ultimately show ?thesis using assms(1,6-) unfolding counts501_def by (intro conjI; simp; linarith)
qed

lemma counts_step: "step501 s t \<Longrightarrow> shape501 s \<Longrightarrow> counts501 i j s \<Longrightarrow> counts501 i j t"
proof (induction rule: step501.induct)
  case (pub_crit s s')
  have "((i + n) mod BUFFER_SIZE + 1) mod BUFFER_SIZE = (i + (n + 1)) mod BUFFER_SIZE" for n by (simp add: mod_simps)
  then show ?case using pub_crit by (auto simp: counts501_def total_def dest!: critical_fields(1))
next
  case (sub_wait k s)
  show ?case by (rule counts_move [OF sub_wait(6,5,1), where p = Lock]) (use sub_wait in \<open>simp_all add: counts501_def\<close>)
next
  case (sub_timeout k s)
  show ?case by (rule counts_move [OF sub_timeout(6,5,1), where p = Lock]) (use sub_timeout in \<open>simp_all add: counts501_def\<close>)
next
  case (sub_lock k s)
  show ?case by (rule counts_move [OF sub_lock(5,4,1), where p = Crit]) (use sub_lock in \<open>simp_all add: counts501_def\<close>)
next
  case (sub_crit k s s')
  have "((j + n) mod BUFFER_SIZE + 1) mod BUFFER_SIZE = (j + (n + 1)) mod BUFFER_SIZE" for n by (simp add: mod_simps)
  then show ?case by (intro counts_move [OF sub_crit(5,4,1), where p = Unlock])
    (use sub_crit critical_fields(2) [OF sub_crit(3)] in \<open>auto simp: counts501_def\<close>)
next
  case (sub_unlock k s)
  show ?case by (rule counts_move [OF sub_unlock(4,3,1), where p = Post]) (use sub_unlock in \<open>simp_all add: counts501_def\<close>)
next
  case (sub_post k s)
  define t where "t = s\<lparr>empty_sem := empty_sem s + 1, sub_pc := (sub_pc s)[k := Sem], sub_i := (sub_i s)[k := sub_i s ! k + 1]\<rparr>"
  have l: "length (sub_pc s) = SUBS" "length (sub_i s) = SUBS" using sub_post(3) by (simp_all add: shape501_def)
  have "total w t + w (sub_i s ! k) Post = total w s + w (sub_i s ! k + 1) Sem" for w
    using total_step [OF sub_post(1) l, of t Sem "sub_i s ! k + 1" w] sub_post(2) by (simp add: t_def)
  from this [of "\<lambda>i p. i + passed p"] this [of "\<lambda>i p. taken p"] this [of "\<lambda>i p. passed p"]
  show ?case using sub_post(4) unfolding t_def [symmetric] counts501_def by (simp add: t_def)
qed (auto simp: counts501_def total_def)

lemma counts_init: "i < BUFFER_SIZE \<Longrightarrow> j < BUFFER_SIZE \<Longrightarrow> counts501 i j (app501 b itm i j)"
  by (simp add: counts501_def app501_def total_def SUBS_def)

section \<open>The ring\<close>

definition slot :: "u8 list \<Rightarrow> nat \<Rightarrow> u8 list" where
  "slot b k = take 6 (drop (k * 6) b)"

lemma slot_write:
  assumes "memcpy_in b (m * 6) itm = Some b'" "length itm = 6"
  shows "slot b' k = (if k = m then itm else slot b k)"
proof -
  have l: "m * 6 + 6 \<le> length b" and b': "b' = take (m * 6) b @ itm @ drop (m * 6 + 6) b"
    using assms by (auto simp: memcpy_in_def split: if_splits)
  consider "k = m" | "k < m" | "m < k" by linarith
  then show ?thesis
  proof cases
    case 1
    then show ?thesis using l b' assms(2) by (simp add: slot_def)
  next
    case 2
    then obtain j where j: "m * 6 = k * 6 + (6 + j)" by (metis le_Suc_ex Suc_leI mult_Suc add.commute add.left_commute mult_le_mono1)
    then show ?thesis using l b' 2 by (simp add: slot_def drop_take min_def)
  next
    case 3
    then have "m * 6 + 6 \<le> k * 6" by linarith
    then show ?thesis using l b' 3 assms(2) by (simp add: slot_def)
  qed
qed

lemma mod_distinct:
  assumes "a < b" "b < a + (n :: nat)"
  shows "(i + a) mod n \<noteq> (i + b) mod n"
proof
  assume "(i + a) mod n = (i + b) mod n"
  then have "n dvd (i + b) - (i + a)" using assms(1) by (metis mod_eq_dvd_iff_nat add_le_cancel_left less_imp_le)
  then show False using assms by (auto dest!: dvd_imp_le)
qed

definition fifo501 :: "nat \<Rightarrow> app501 \<Rightarrow> bool" where
  "fifo501 i s \<longleftrightarrow> sub_log s = take (length (sub_log s)) (pub_log s) \<and>
     (\<forall>m. length (sub_log s) \<le> m \<longrightarrow> m < length (pub_log s) \<longrightarrow> slot (buffer_501 s) ((i + m) mod BUFFER_SIZE) = pub_log s ! m)"

lemma fifo_same:
  "fifo501 i s \<Longrightarrow> pub_log t = pub_log s \<Longrightarrow> sub_log t = sub_log s \<Longrightarrow> buffer_501 t = buffer_501 s \<Longrightarrow> fifo501 i t"
  by (simp add: fifo501_def)

lemma fifo_pub:
  assumes f: "fifo501 i s" and c: "pub_critical s = Some t" and n: "length (pub_log s) < length (sub_log s) + BUFFER_SIZE"
    and x: "in_x s = (i + length (pub_log s)) mod BUFFER_SIZE" and l: "length (producer_item s) = 6"
    and le: "length (sub_log s) \<le> length (pub_log s)"
  shows "fifo501 i t"
proof -
  note t = critical_fields(1) [OF c]
  have b: "slot (buffer_501 t) k = (if k = in_x s then producer_item s else slot (buffer_501 s) k)" for k
    using slot_write [of "buffer_501 s" "in_x s" "producer_item s" "buffer_501 t"] t l by blast
  have "slot (buffer_501 t) ((i + m) mod BUFFER_SIZE) = (pub_log s @ [producer_item s]) ! m"
    if "length (sub_log s) \<le> m" "m < length (pub_log s) + 1" for m
  proof (cases "m = length (pub_log s)")
    case False
    then have "(i + m) mod BUFFER_SIZE \<noteq> in_x s" unfolding x by (intro mod_distinct) (use that n in linarith)+
    then show ?thesis using f that False by (simp add: b fifo501_def nth_append)
  qed (simp add: b x)
  then show ?thesis using f t le by (simp add: fifo501_def)
qed

lemma fifo_sub:
  assumes f: "fifo501 i s" and c: "sub_critical s = Some t" and n: "length (sub_log s) < length (pub_log s)"
    and x: "out_x s = (i + length (sub_log s)) mod BUFFER_SIZE"
  shows "fifo501 i t"
proof -
  note t = critical_fields(2) [OF c]
  obtain itm where i: "memcpy_out (Some (drop (out_x s * 6) (buffer_501 s))) 6 = Some itm" "sub_log t = sub_log s @ [itm]"
    using t by blast
  then have "itm = slot (buffer_501 s) (out_x s)" by (auto simp: memcpy_out_def slot_def split: if_splits)
  then have "itm = pub_log s ! length (sub_log s)" using f n by (simp add: fifo501_def x)
  then have "sub_log t = take (length (sub_log t)) (pub_log s)"
    using f n i(2) by (simp add: fifo501_def take_Suc_conv_app_nth)
  moreover have "slot (buffer_501 t) ((i + m) mod BUFFER_SIZE) = pub_log t ! m"
    if "length (sub_log t) \<le> m" "m < length (pub_log t)" for m
    using f t that i(2) by (simp add: fifo501_def)
  ultimately show ?thesis using t unfolding fifo501_def by metis
qed

lemma step_logs:
  assumes "step501 s t"
  obtains (pub) u where "pub_pc s = Crit" "pub_critical s = Some u" "pub_log t = pub_log u" "sub_log t = sub_log u" "buffer_501 t = buffer_501 u"
  | (sub) k u where "k < SUBS" "sub_pc s ! k = Crit" "sub_critical s = Some u" "pub_log t = pub_log u" "sub_log t = sub_log u" "buffer_501 t = buffer_501 u"
  | (none) "pub_log t = pub_log s" "sub_log t = sub_log s" "buffer_501 t = buffer_501 s"
  using assms by (cases rule: step501.cases) (auto intro: that)

lemma step_timeouts: "step501 s t \<Longrightarrow> pub_timeouts s \<le> pub_timeouts t \<and> sub_timeouts s \<le> sub_timeouts t"
  by (induction rule: step501.induct) (auto dest!: critical_fields)

lemma counts_nc: "counts501 i j s \<Longrightarrow> sub_timeouts s = 0 \<Longrightarrow> length (sub_log s) + total (\<lambda>i p. taken p) s \<le> length (pub_log s)"
  by (auto simp: counts501_def)

lemma counts_np: "counts501 i j s \<Longrightarrow> pub_timeouts s = 0 \<Longrightarrow> length (pub_log s) + taken (pub_pc s) \<le> BUFFER_SIZE + length (sub_log s)"
  by (auto simp: counts501_def)

lemma fifo_step:
  assumes "step501 s t" "shape501 s" "counts501 i i s" "fifo501 i s" "pub_timeouts t = 0" "sub_timeouts t = 0"
  shows "fifo501 i t"
proof -
  have z: "pub_timeouts s = 0" "sub_timeouts s = 0" using step_timeouts [OF assms(1)] assms(5,6) by simp_all
  note nc = counts_nc [OF assms(3) z(2)] and np = counts_np [OF assms(3) z(1)]
  have x: "in_x s = (i + length (pub_log s)) mod BUFFER_SIZE" "out_x s = (i + length (sub_log s)) mod BUFFER_SIZE"
    using assms(3) by (simp_all add: counts501_def)
  from assms(1) show ?thesis
  proof (cases rule: step_logs)
    case (pub u)
    have "fifo501 i u" using fifo_pub [OF assms(4) pub(2) _ x(1)] assms(2) nc np pub(1) by (simp add: shape501_def)
    then show ?thesis using pub(3-) fifo_same by blast
  next
    case (sub k u)
    have "1 \<le> total (\<lambda>i p. taken p) s" using total_ge [OF sub(1), of "\<lambda>i p. taken p" s] sub(2) by simp
    then have "fifo501 i u" using fifo_sub [OF assms(4) sub(3) _ x(2)] nc by simp
    then show ?thesis using sub(4-) fifo_same by blast
  next
    case none
    then show ?thesis using assms(4) fifo_same by blast
  qed
qed

lemma runs_fifo:
  assumes "runs501 s n t" "shape501 s" "counts501 i i s" "fifo501 i s"
  shows "shape501 t \<and> counts501 i i t \<and> (pub_timeouts t = 0 \<longrightarrow> sub_timeouts t = 0 \<longrightarrow> fifo501 i t)"
  using assms
proof (induction rule: runs501.induct)
  case (runs_step s n t u)
  note ih = runs_step.IH [OF runs_step.prems]
  have "fifo501 i u" if "pub_timeouts u = 0" "sub_timeouts u = 0"
    using fifo_step [OF runs_step(2)] ih that step_timeouts [OF runs_step(2)] by auto
  then show ?case using ih shape_step counts_step runs_step(2) by blast
qed simp

section \<open>Properties\<close>

lemma init501:
  assumes "length b = 54" "length itm = 6" "i < 9" "j < 9"
  shows "shape501 (app501 b itm i j)" "mutex501 (app501 b itm i j)" "rounds501 (app501 b itm i j)"
    "steps501 (app501 b itm i j) = 0" "counts501 i j (app501 b itm i j)" "fifo501 i (app501 b itm i j)"
proof -
  show "mutex501 (app501 b itm i j)" unfolding mutex501_def
    by (intro allI, rename_tac t, case_tac t) (auto simp: app501_def)
  show "counts501 i j (app501 b itm i j)" by (rule counts_init) (use assms in \<open>simp_all add: BUFFER_SIZE_def\<close>)
qed (use assms in \<open>simp_all add: app501_def shape501_def rounds501_def steps501_def fifo501_def total_def
    BUFFER_SIZE_def PUB_ROUNDS_def SUB_ROUNDS_def SUBS_def\<close>)

text \<open>C14.  First in, first out, exactly once: started with equal ring positions, as long as no timed
  wait has given up, the items the consumers have read are, in this order, the first items of the
  producer, whatever the interleaving of the four threads, and the producer is at most nine items
  ahead.\<close>

theorem app501_fifo:
  assumes "length b = 54" "length itm = 6" "i < 9" "runs501 (app501 b itm i i) n s"
    "pub_timeouts s = 0" "sub_timeouts s = 0"
  shows "(\<exists>rest. pub_log s = sub_log s @ rest \<and> length rest \<le> 9)"
proof -
  note init = init501 [OF assms(1-3,3)]
  have r: "counts501 i i s" "fifo501 i s" using runs_fifo [OF assms(4) init(1,5,6)] assms(5,6) by auto
  then have "pub_log s = sub_log s @ drop (length (sub_log s)) (pub_log s)"
    unfolding fifo501_def by (metis append_take_drop_id)
  moreover have "length (drop (length (sub_log s)) (pub_log s)) \<le> 9"
    using counts_np [OF r(1) assms(5)] by (simp add: BUFFER_SIZE_def)
  ultimately show ?thesis by blast
qed

definition one_item :: app501 where
  "one_item = (app501 (replicate 54 0) (replicate 6 0) 0 0)\<lparr>producer_item := [1, 2, 3, 4, 5, 6],
     buffer_501 := [1, 2, 3, 4, 5, 6] @ replicate 48 0, in_x := 1, out_x := 1, empty_sem := 8, full_sem := 0,
     pub_pc := Gen, pub_i := 1, sub_pc := [Unlock, Sem, Sem], pipe_lock_501 := Some (Sub 0),
     pub_log := [[1, 2, 3, 4, 5, 6]], sub_log := [[1, 2, 3, 4, 5, 6]]\<rparr>"

lemma one_item_run: "runs501 (app501 (replicate 54 0) (replicate 6 0) 0 0) 9 one_item"
proof -
  define s0 where "s0 = app501 (replicate 54 0) (replicate 6 0) 0 0"
  define s3 where "s3 = s0\<lparr>producer_item := [1, 2, 3, 4, 5, 6], empty_sem := 8, pipe_lock_501 := Some Pub, pub_pc := Crit\<rparr>"
  define s6 where "s6 = s3\<lparr>buffer_501 := [1, 2, 3, 4, 5, 6] @ replicate 48 0, pub_log := [[1, 2, 3, 4, 5, 6]], in_x := 1,
    pipe_lock_501 := None, full_sem := 1, pub_pc := Gen, pub_i := 1\<rparr>"
  define s8 where "s8 = s6\<lparr>full_sem := 0, sub_pc := [Crit, Sem, Sem], pipe_lock_501 := Some (Sub 0)\<rparr>"
  note defs = app501_def s0_def s3_def s6_def s8_def BUFFER_SIZE_def SUBS_def PUB_ROUNDS_def SUB_ROUNDS_def numeral_3_eq_3
  have "step501 s0 (s0\<lparr>producer_item := [1, 2, 3, 4, 5, 6], pub_pc := Sem\<rparr>)" (is "step501 _ ?s1")
    by (rule pub_gen) (simp_all add: defs)
  moreover have "step501 ?s1 (?s1\<lparr>empty_sem := 8, pub_pc := Lock\<rparr>)" (is "step501 _ ?s2")
    using pub_wait [of ?s1] by (simp add: defs)
  moreover have "step501 ?s2 s3" using pub_lock [of ?s2] by (simp add: defs)
  moreover have "pub_critical s3 = Some (s3\<lparr>buffer_501 := [1, 2, 3, 4, 5, 6] @ replicate 48 0, pub_log := [[1, 2, 3, 4, 5, 6]], in_x := 1\<rparr>)"
    by (simp add: pub_critical_def memcpy_in_def defs)
  from pub_crit [OF _ this] have "step501 s3 (s3\<lparr>buffer_501 := [1, 2, 3, 4, 5, 6] @ replicate 48 0, pub_log := [[1, 2, 3, 4, 5, 6]],
    in_x := 1, pub_pc := Unlock\<rparr>)" (is "step501 _ ?s4") by (simp add: defs)
  moreover have "step501 ?s4 (?s4\<lparr>pipe_lock_501 := None, pub_pc := Post\<rparr>)" (is "step501 _ ?s5") by (rule pub_unlock) simp
  moreover have "step501 ?s5 s6" using pub_post [of ?s5] by (simp add: defs)
  moreover have "step501 s6 (s6\<lparr>full_sem := 0, sub_pc := [Lock, Sem, Sem]\<rparr>)" (is "step501 _ ?s7")
    using sub_wait [of 0 s6] by (simp add: defs)
  moreover have "step501 ?s7 s8" using sub_lock [of 0 ?s7] by (simp add: defs)
  moreover have "sub_critical s8 = Some (s8\<lparr>sub_log := [[1, 2, 3, 4, 5, 6]], out_x := 1\<rparr>)"
    by (simp add: sub_critical_def memcpy_out_def defs)
  from sub_crit [OF _ _ this, of 0] have "step501 s8 one_item" by (simp add: defs one_item_def)
  ultimately have "runs501 s0 (Suc (Suc (Suc (Suc (Suc (Suc (Suc (Suc (Suc 0))))))))) one_item"
    by (blast intro: runs501.intros)
  then show ?thesis by (simp add: s0_def eval_nat_numeral)
qed

theorem app501_fifo_witness:
  "runs501 (app501 (replicate 54 0) (replicate 6 0) 0 0) 9 one_item \<and> sub_log one_item = [[1, 2, 3, 4, 5, 6]] \<and>
    (\<exists>rest. pub_log one_item = sub_log one_item @ rest \<and> length rest \<le> 9)"
  using app501_fifo [OF _ _ _ one_item_run] one_item_run by (simp add: one_item_def app501_def)

lemma rounds_steps:
  assumes "rounds501 s"
  shows "steps501 s \<le> 450 \<and> (steps501 s = 450 \<longrightarrow> finished501 s)"
proof -
  define w where "w = (\<lambda>k. 5 * sub_i s ! k + pc_steps (sub_pc s ! k))"
  have pc: "pc_steps p \<le> 4" for p by (cases p) simp_all
  have k: "w k \<le> 110 \<and> (w k = 110 \<longrightarrow> sub_pc s ! k = Sem \<and> sub_i s ! k = SUB_ROUNDS)" if "k < SUBS" for k
    using assms that pc [of "sub_pc s ! k"] by (auto simp: w_def rounds501_def SUB_ROUNDS_def)
  define p where "p = 6 * pub_i s + (if pub_pc s = Gen then 0 else 1 + pc_steps (pub_pc s))"
  have p: "p \<le> 120 \<and> (p = 120 \<longrightarrow> pub_pc s = Gen \<and> pub_i s = PUB_ROUNDS)"
    using assms pc [of "pub_pc s"] by (auto simp: p_def rounds501_def PUB_ROUNDS_def)
  have e: "steps501 s = p + (w 0 + w 1 + w 2)"
    by (simp add: steps501_def p_def w_def total_def SUBS_def eval_nat_numeral)
  have s: "(\<forall>k<SUBS. P k) \<longleftrightarrow> P 0 \<and> P 1 \<and> P 2" for P
    by (auto simp: SUBS_def eval_nat_numeral less_Suc_eq)
  show ?thesis using p k [of 0] k [of 1] k [of 2] unfolding finished501_def s e by (simp add: SUBS_def)
qed

text \<open>C18.  Termination without deadlock: in every interleaving a run has at most 450 steps, it can go on
  as long as a thread has not returned, and after 450 steps all four threads have returned.\<close>

theorem app501_terminates:
  assumes "length b = 54" "length itm = 6" "i < 9" "j < 9" "runs501 (app501 b itm i j) n s"
  shows "n \<le> 450 \<and> (n = 450 \<longleftrightarrow> finished501 s) \<and> (n < 450 \<longrightarrow> (\<exists>t. step501 s t))"
proof -
  note init = init501 [OF assms(1-4)]
  have s: "shape501 s" "mutex501 s" "rounds501 s" "steps501 s = n" using runs_invariant [OF assms(5) init(1-3)] init(4) by auto
  show ?thesis using rounds_steps [OF s(3)] steps_finished [OF s(1)] progress501 [OF s(1-3)] s(4) by auto
qed

theorem app501_terminates_witness: "\<exists>t. step501 one_item t"
  using app501_terminates [OF _ _ _ _ one_item_run] by simp

lemma runs_counts: "runs501 s n t \<Longrightarrow> shape501 s \<Longrightarrow> counts501 i j s \<Longrightarrow> counts501 i j t \<and> shape501 t"
  by (induction rule: runs501.induct) (auto dest: shape_step counts_step)

text \<open>C40.  Stale items: when all threads have returned, the consumers have read 66 items and the producer
  has written 20, so at least 46 reads followed a wait that gave up and returned old contents of the
  ring; and the ring positions, which the next call does not reset, have come apart.\<close>

theorem app501_stale_reads:
  assumes "length b = 54" "length itm = 6" "i < 9" "runs501 (app501 b itm i i) n s" "finished501 s"
  shows "length (pub_log s) = 20 \<and> length (sub_log s) = 66 \<and> 46 \<le> sub_timeouts s \<and> in_x s \<noteq> out_x s"
proof -
  note init = init501 [OF assms(1-3,3)]
  have c: "counts501 i i s" using runs_counts [OF assms(4) init(1,5)] by blast
  have "(\<Sum>k<SUBS. sub_i s ! k + passed (sub_pc s ! k)) = (\<Sum>k<SUBS. SUB_ROUNDS)"
    by (rule sum.cong) (use assms(5) in \<open>simp_all add: finished501_def\<close>)
  then have l: "length (pub_log s) = 20" "length (sub_log s) = 66"
    using c assms(5) by (simp_all add: counts501_def finished501_def total_def PUB_ROUNDS_def SUB_ROUNDS_def SUBS_def)
  have "(i + 66) mod 9 = (i + 21 + 9 * 5) mod 9" by (simp add: add.assoc)
  then have "(i + 66) mod 9 = (i + 21) mod 9" by (simp only: mod_mult_self2)
  then have "(i + 20) mod 9 \<noteq> (i + 66) mod 9" using mod_distinct [of 20 21 9 i] by simp
  then show ?thesis using c l by (simp add: counts501_def BUFFER_SIZE_def)
qed

lemma run_to_end: "m \<le> 450 \<Longrightarrow> \<exists>s. runs501 (app501 (replicate 54 0) (replicate 6 0) 0 0) m s"
proof (induction m)
  case (Suc m)
  then obtain s where r: "runs501 (app501 (replicate 54 0) (replicate 6 0) 0 0) m s" by auto
  note init = init501 [of "replicate 54 0" "replicate 6 0" 0 0]
  have s: "shape501 s" "mutex501 s" "rounds501 s" "steps501 s = m" using runs_invariant [OF r] init by auto
  then have "\<not> finished501 s" using steps_finished [OF s(1)] Suc.prems by auto
  then show ?case using progress501 [OF s(1-3)] r by (blast intro: runs501.intros)
qed (blast intro: runs501.intros)

theorem app501_stale_reads_witness:
  "\<exists>s. runs501 (app501 (replicate 54 0) (replicate 6 0) 0 0) 450 s \<and> length (sub_log s) = 66 \<and> 46 \<le> sub_timeouts s"
proof -
  obtain s where r: "runs501 (app501 (replicate 54 0) (replicate 6 0) 0 0) 450 s" using run_to_end by blast
  have "rounds501 s" "steps501 s = 450"
    using runs_invariant [OF r] init501 [of "replicate 54 0" "replicate 6 0" 0 0] by auto
  then have "finished501 s" using rounds_steps by blast
  then show ?thesis using app501_stale_reads [OF _ _ _ r] r by auto
qed

end
