(* ===== verification/Nanopb.thy ===== *)
theory Nanopb
  imports Prelude
begin

unbundle bit_operations_syntax

text \<open>
  The wire layer of \<open>lib/nanopb\<close>: memory streams, variable length and fixed width integers, tags
  and strings, as written by \<open>pb_encode.c\<close> and read by \<open>pb_decode.c\<close>.

  A call that returns \<open>false\<close> is \<open>Fail\<close> with the message it leaves in \<open>errmsg\<close> (the
  first message set is kept); an access outside an object is \<open>Fault\<close>.  \<open>size_t\<close> has 64
  bits.  An output stream without a callback only counts (\<open>os_buf = None\<close>); an input stream is
  the memory from its read position on together with \<open>bytes_left\<close>.  The library is built with
  its default options, so error messages, custom streams and 64 bit types are on.
\<close>

section \<open>Results\<close>

datatype 'a pb = Fault | Fail string | Ok 'a

fun pb_bind :: "'a pb \<Rightarrow> ('a \<Rightarrow> 'b pb) \<Rightarrow> 'b pb" where
  "pb_bind Fault f = Fault"
| "pb_bind (Fail e) f = Fail e"
| "pb_bind (Ok x) f = f x"

lemma pb_bind_Ok_iff: "pb_bind m f = Ok y \<longleftrightarrow> (\<exists>x. m = Ok x \<and> f x = Ok y)"
  by (cases m) auto

lemma pb_bind_Fault_iff: "pb_bind m f = Fault \<longleftrightarrow> m = Fault \<or> (\<exists>x. m = Ok x \<and> f x = Fault)"
  by (cases m) auto

lemma pb_bind_assoc: "pb_bind (pb_bind m f) g = pb_bind m (\<lambda>x. pb_bind (f x) g)"
  by (cases m) auto

section \<open>Output streams\<close>

record pb_ostream =
  os_buf :: "u8 list option"
  max_size :: nat
  bytes_written :: nat

definition buf_write :: "u8 list \<Rightarrow> pb_ostream \<Rightarrow> pb_ostream pb" where
  "buf_write bs s = (case os_buf s of None \<Rightarrow> Fault
     | Some b \<Rightarrow> (case memcpy_in b (bytes_written s) bs of None \<Rightarrow> Fault | Some b' \<Rightarrow> Ok (s\<lparr>os_buf := Some b'\<rparr>)))"

definition pb_ostream_from_buffer :: "u8 list \<Rightarrow> nat \<Rightarrow> pb_ostream" where
  "pb_ostream_from_buffer buf bufsize = \<lparr>os_buf = Some buf, max_size = bufsize, bytes_written = 0\<rparr>"

definition pb_write :: "u8 list \<Rightarrow> pb_ostream \<Rightarrow> pb_ostream pb" where
  "pb_write bs s =
     (let new = (bytes_written s + length bs) mod 2 ^ 64
      in if length bs > 0 \<and> os_buf s \<noteq> None
      then if new < bytes_written s \<or> new > max_size s then Fail ''stream full''
        else pb_bind (buf_write bs s) (\<lambda>s. Ok (s\<lparr>bytes_written := new\<rparr>))
      else Ok (s\<lparr>bytes_written := new\<rparr>))"

section \<open>Integers to bytes\<close>

text \<open>The two loops of \<open>pb_encode_varint_32\<close>: the bytes stored and the byte carried on.\<close>

function varint_low :: "nat \<Rightarrow> u8 \<Rightarrow> u32 \<Rightarrow> u32 \<Rightarrow> u8 list \<times> u8" where
  "varint_low i byte low high =
     (if i < 4 \<and> (low \<noteq> 0 \<or> high \<noteq> 0)
      then let (bs, b) = varint_low (i + 1) (ucast (low AND 0x7F)) (drop_bit 7 low) high in ((byte OR 0x80) # bs, b)
      else ([], byte))"
  by pat_completeness auto
termination by (relation "measure (\<lambda>(i, _, _, _). 4 - i)") auto

declare varint_low.simps [simp del]

lemma drop_7_less: "high \<noteq> 0 \<Longrightarrow> unat (drop_bit 7 high :: u32) < unat high"
  by (simp add: unat_drop_bit unat_gt_0)

function varint_high :: "u8 \<Rightarrow> u32 \<Rightarrow> u8 list" where
  "varint_high byte high =
     (if high \<noteq> 0 then (byte OR 0x80) # varint_high (ucast (high AND 0x7F)) (drop_bit 7 high) else [byte])"
  by pat_completeness auto
termination by (relation "measure (\<lambda>(_, h). unat h)") (auto simp: drop_7_less)

declare varint_high.simps [simp del]

definition varint_32_bytes :: "u32 \<Rightarrow> u32 \<Rightarrow> u8 list" where
  "varint_32_bytes low high =
     (let (bs, byte) = varint_low 0 (ucast (low AND 0x7F)) (drop_bit 7 low) high
      in if high \<noteq> 0 then bs @ varint_high (byte OR ucast (push_bit 4 (high AND 0x07))) (drop_bit 3 high)
      else bs @ [byte])"

text \<open>The bytes are collected in an array of ten.\<close>

definition pb_encode_varint_32 :: "u32 \<Rightarrow> u32 \<Rightarrow> pb_ostream \<Rightarrow> pb_ostream pb" where
  "pb_encode_varint_32 low high s =
     (let bs = varint_32_bytes low high in if length bs \<le> 10 then pb_write bs s else Fault)"

definition pb_encode_varint :: "u64 \<Rightarrow> pb_ostream \<Rightarrow> pb_ostream pb" where
  "pb_encode_varint v s = (if v \<le> 0x7F then pb_write [ucast v] s
     else pb_encode_varint_32 (ucast v) (ucast (drop_bit 32 v)) s)"

text \<open>A signed value is given by its 64 bits.\<close>

definition zigzag :: "u64 \<Rightarrow> u64" where
  "zigzag v = (if bit v 63 then NOT (push_bit 1 (v AND drop_bit 1 (- 1))) else push_bit 1 v)"

definition pb_encode_svarint :: "u64 \<Rightarrow> pb_ostream \<Rightarrow> pb_ostream pb" where
  "pb_encode_svarint v s = pb_encode_varint (zigzag v) s"

definition pb_encode_fixed32 :: "u32 \<Rightarrow> pb_ostream \<Rightarrow> pb_ostream pb" where
  "pb_encode_fixed32 v s = pb_write [ucast v, ucast (drop_bit 8 v), ucast (drop_bit 16 v), ucast (drop_bit 24 v)] s"

definition pb_encode_fixed64 :: "u64 \<Rightarrow> pb_ostream \<Rightarrow> pb_ostream pb" where
  "pb_encode_fixed64 v s = pb_write (map (\<lambda>i. ucast (drop_bit (8 * i) v)) [0, 1, 2, 3, 4, 5, 6, 7]) s"

datatype pb_wire_type = PB_WT_VARINT | PB_WT_64BIT | PB_WT_STRING | PB_WT_32BIT

fun pb_wire_type_val :: "pb_wire_type \<Rightarrow> nat" where
  "pb_wire_type_val PB_WT_VARINT = 0"
| "pb_wire_type_val PB_WT_64BIT = 1"
| "pb_wire_type_val PB_WT_STRING = 2"
| "pb_wire_type_val PB_WT_32BIT = 5"

definition pb_encode_tag :: "pb_wire_type \<Rightarrow> u32 \<Rightarrow> pb_ostream \<Rightarrow> pb_ostream pb" where
  "pb_encode_tag wt n s = pb_encode_varint (push_bit 3 (ucast n) OR of_nat (pb_wire_type_val wt)) s"

definition pb_encode_string :: "u8 list \<Rightarrow> pb_ostream \<Rightarrow> pb_ostream pb" where
  "pb_encode_string bs s = pb_bind (pb_encode_varint (of_nat (length bs)) s) (pb_write bs)"

section \<open>Input streams\<close>

record pb_istream =
  is_state :: "u8 list"
  bytes_left :: nat

definition buf_read :: "nat \<Rightarrow> pb_istream \<Rightarrow> (u8 list \<times> pb_istream) pb" where
  "buf_read n s = (if n \<le> length (is_state s)
     then Ok (take n (is_state s), s\<lparr>is_state := drop n (is_state s)\<rparr>) else Fault)"

text \<open>A null destination only drops the bytes that are the result here.\<close>

definition pb_read :: "nat \<Rightarrow> pb_istream \<Rightarrow> (u8 list \<times> pb_istream) pb" where
  "pb_read n s =
     (if n = 0 then Ok ([], s)
      else if bytes_left s < n then Fail ''end-of-stream''
      else pb_bind (buf_read n s) (\<lambda>(bs, s). Ok (bs, s\<lparr>bytes_left := bytes_left s - n\<rparr>)))"

definition pb_readbyte :: "pb_istream \<Rightarrow> (u8 \<times> pb_istream) pb" where
  "pb_readbyte s =
     (if bytes_left s = 0 then Fail ''end-of-stream''
      else pb_bind (buf_read 1 s) (\<lambda>(bs, s). Ok (hd bs, s\<lparr>bytes_left := bytes_left s - 1\<rparr>)))"

definition pb_istream_from_buffer :: "u8 list \<Rightarrow> nat \<Rightarrow> pb_istream" where
  "pb_istream_from_buffer buf msglen = \<lparr>is_state = buf, bytes_left = msglen\<rparr>"

lemma pb_readbyte_left: "pb_readbyte s = Ok (b, t) \<Longrightarrow> bytes_left t < bytes_left s"
  by (auto simp: pb_readbyte_def buf_read_def split: if_splits)

section \<open>Bytes to integers\<close>

function varint32_loop :: "nat \<Rightarrow> u32 \<Rightarrow> pb_istream \<Rightarrow> (u32 \<times> pb_istream) pb" where
  "varint32_loop bitpos result s =
     (case pb_readbyte s of Fault \<Rightarrow> Fault | Fail e \<Rightarrow> Fail e
      | Ok (byte, s) \<Rightarrow>
         let sign_extension = (if bitpos < 63 then 0xFF else 0x01);
             valid_extension = (byte AND 0x7F = 0 \<or> drop_bit 31 result \<noteq> 0 \<and> byte = sign_extension);
             bad = (if bitpos \<ge> 32 then bitpos \<ge> 64 \<or> \<not> valid_extension
               else bitpos = 28 \<and> byte AND 0x70 \<noteq> 0 \<and> byte AND 0x78 \<noteq> 0x78);
             result = (if bitpos \<ge> 32 then result
               else if bitpos = 28 then result OR push_bit bitpos (ucast (byte AND 0x0F))
               else result OR push_bit bitpos (ucast (byte AND 0x7F)))
         in if bad then Fail ''varint overflow''
         else if byte AND 0x80 \<noteq> 0 then varint32_loop (bitpos + 7) result s
         else Ok (result, s))"
  by pat_completeness auto
termination by (relation "measure (\<lambda>(_, _, s). bytes_left s)") (auto dest: pb_readbyte_left)

declare varint32_loop.simps [simp del]

text \<open>The end-of-stream flag is raised exactly when nothing is left to begin with.\<close>

definition pb_decode_varint32_eof :: "pb_istream \<Rightarrow> bool \<times> (u32 \<times> pb_istream) pb" where
  "pb_decode_varint32_eof s = (bytes_left s = 0,
     pb_bind (pb_readbyte s) (\<lambda>(byte, s). if byte AND 0x80 = 0 then Ok (ucast byte, s)
       else varint32_loop 7 (ucast (byte AND 0x7F)) s))"

definition pb_decode_varint32 :: "pb_istream \<Rightarrow> (u32 \<times> pb_istream) pb" where
  "pb_decode_varint32 s = snd (pb_decode_varint32_eof s)"

function varint_loop :: "nat \<Rightarrow> u64 \<Rightarrow> pb_istream \<Rightarrow> (u64 \<times> pb_istream) pb" where
  "varint_loop bitpos result s =
     (case pb_readbyte s of Fault \<Rightarrow> Fault | Fail e \<Rightarrow> Fail e
      | Ok (byte, s) \<Rightarrow>
         if bitpos \<ge> 63 \<and> byte AND 0xFE \<noteq> 0 then Fail ''varint overflow''
         else let result = result OR push_bit bitpos (ucast (byte AND 0x7F))
           in if byte AND 0x80 \<noteq> 0 then varint_loop (bitpos + 7) result s else Ok (result, s))"
  by pat_completeness auto
termination by (relation "measure (\<lambda>(_, _, s). bytes_left s)") (auto dest: pb_readbyte_left)

declare varint_loop.simps [simp del]

definition pb_decode_varint :: "pb_istream \<Rightarrow> (u64 \<times> pb_istream) pb" where
  "pb_decode_varint s = varint_loop 0 0 s"

function pb_skip_varint :: "pb_istream \<Rightarrow> pb_istream pb" where
  "pb_skip_varint s = (case pb_read 1 s of Fault \<Rightarrow> Fault | Fail e \<Rightarrow> Fail e
     | Ok (bs, s) \<Rightarrow> if hd bs AND 0x80 \<noteq> 0 then pb_skip_varint s else Ok s)"
  by pat_completeness auto
termination by (relation "measure bytes_left") (auto simp: pb_read_def buf_read_def split: if_splits)

declare pb_skip_varint.simps [simp del]

definition pb_skip_string :: "pb_istream \<Rightarrow> pb_istream pb" where
  "pb_skip_string s = pb_bind (pb_decode_varint32 s) (\<lambda>(length, s).
     pb_bind (pb_read (unat length) s) (\<lambda>(_, s). Ok s))"

text \<open>The wire type is the number in the lowest three bits.\<close>

definition pb_decode_tag :: "pb_istream \<Rightarrow> bool \<times> (nat \<times> u32 \<times> pb_istream) pb" where
  "pb_decode_tag s = (case pb_decode_varint32_eof s of (eof, r) \<Rightarrow>
     (eof, pb_bind r (\<lambda>(temp, s). Ok (unat (temp AND 7), drop_bit 3 temp, s))))"

definition pb_skip_field :: "nat \<Rightarrow> pb_istream \<Rightarrow> pb_istream pb" where
  "pb_skip_field wt s =
     (if wt = 0 then pb_skip_varint s
      else if wt = 1 then pb_bind (pb_read 8 s) (\<lambda>(_, s). Ok s)
      else if wt = 2 then pb_skip_string s
      else if wt = 5 then pb_bind (pb_read 4 s) (\<lambda>(_, s). Ok s)
      else Fail ''invalid wire_type'')"

function raw_varint :: "nat \<Rightarrow> nat \<Rightarrow> pb_istream \<Rightarrow> (u8 list \<times> pb_istream) pb" where
  "raw_varint sz mx s =
     (if sz + 1 > mx then Fail ''varint overflow''
      else case pb_read 1 s of Fault \<Rightarrow> Fault | Fail e \<Rightarrow> Fail e
        | Ok (bs, s) \<Rightarrow> if hd bs AND 0x80 \<noteq> 0
            then pb_bind (raw_varint (sz + 1) mx s) (\<lambda>(cs, s). Ok (bs @ cs, s)) else Ok (bs, s))"
  by pat_completeness auto
termination by (relation "measure (\<lambda>(_, _, s). bytes_left s)") (auto simp: pb_read_def buf_read_def split: if_splits)

declare raw_varint.simps [simp del]

definition read_raw_value :: "nat \<Rightarrow> nat \<Rightarrow> pb_istream \<Rightarrow> (u8 list \<times> pb_istream) pb" where
  "read_raw_value wt mx s =
     (if wt = 0 then raw_varint 0 mx s
      else if wt = 1 then pb_read 8 s
      else if wt = 5 then pb_read 4 s
      else Fail ''invalid wire_type'')"

text \<open>The substream and the rest of the stream, which still stands at the substream's first byte.\<close>

definition pb_make_string_substream :: "pb_istream \<Rightarrow> (pb_istream \<times> pb_istream) pb" where
  "pb_make_string_substream s = pb_bind (pb_decode_varint32 s) (\<lambda>(size, s).
     if bytes_left s < unat size then Fail ''parent stream too short''
     else Ok (s\<lparr>bytes_left := unat size\<rparr>, s\<lparr>bytes_left := bytes_left s - unat size\<rparr>))"

definition pb_close_string_substream :: "pb_istream \<Rightarrow> pb_istream \<Rightarrow> pb_istream pb" where
  "pb_close_string_substream s sub =
     pb_bind (if bytes_left sub \<noteq> 0 then pb_read (bytes_left sub) sub else Ok ([], sub))
       (\<lambda>(_, sub). Ok (s\<lparr>is_state := is_state sub\<rparr>))"

definition pb_decode_bool :: "pb_istream \<Rightarrow> (bool \<times> pb_istream) pb" where
  "pb_decode_bool s = pb_bind (pb_decode_varint32 s) (\<lambda>(value, s). Ok (value \<noteq> 0, s))"

definition unzigzag :: "u64 \<Rightarrow> u64" where
  "unzigzag value = (if value AND 1 \<noteq> 0 then NOT (drop_bit 1 value) else drop_bit 1 value)"

definition pb_decode_svarint :: "pb_istream \<Rightarrow> (u64 \<times> pb_istream) pb" where
  "pb_decode_svarint s = pb_bind (pb_decode_varint s) (\<lambda>(value, s). Ok (unzigzag value, s))"

fun le_value :: "u8 list \<Rightarrow> 'a::len word" where
  "le_value [] = 0"
| "le_value (b # bs) = ucast b OR push_bit 8 (le_value bs)"

definition pb_decode_fixed32 :: "pb_istream \<Rightarrow> (u32 \<times> pb_istream) pb" where
  "pb_decode_fixed32 s = pb_bind (pb_read 4 s) (\<lambda>(bs, s). Ok (le_value bs, s))"

definition pb_decode_fixed64 :: "pb_istream \<Rightarrow> (u64 \<times> pb_istream) pb" where
  "pb_decode_fixed64 s = pb_bind (pb_read 8 s) (\<lambda>(bs, s). Ok (le_value bs, s))"

section \<open>The variable length encoding\<close>

text \<open>Seven bits per byte, the lowest first, all but the last marked.\<close>

fun leb :: "nat \<Rightarrow> u8 list" where
  "leb n = (if n < 128 then [of_nat n] else of_nat (n mod 128 + 128) # leb (n div 128))"

declare leb.simps [simp del]

lemma leb_split: "c < 128 \<Longrightarrow> leb (c + 128 * r) = (if r = 0 then [of_nat c] else of_nat (c + 128) # leb r)"
  by (subst leb.simps) simp

lemma u8_of_unat: "unat (b :: u8) = n \<Longrightarrow> b = of_nat n"
  by auto

lemma unat_ucast_small: "unat (w :: 'a::len word) < 256 \<Longrightarrow> unat (ucast w :: u8) = unat w"
  by (simp only: unsigned_ucast_eq) (simp add: take_bit_eq_mod)

lemma unat_low7: "unat (ucast ((w :: u32) AND 0x7F) :: u8) = unat w mod 128"
proof -
  have "unat (w AND 0x7F) < 256" using mod_less_divisor [of 128 "unat w"] by (simp only: unat_and_7F)
  then show ?thesis by (simp only: unat_ucast_small unat_and_7F)
qed

lemma or_80_of_nat: "unat b < 128 \<Longrightarrow> b OR 0x80 = of_nat (unat (b :: u8) + 128)"
  by (rule u8_of_unat) (rule unat_or_80)

lemma varint_high_leb: "unat byte < 128 \<Longrightarrow> varint_high byte high = leb (unat byte + 128 * unat high)"
proof (induction byte high rule: varint_high.induct)
  case (1 byte high)
  show ?case
  proof (cases "high = 0")
    case True
    then show ?thesis using 1(2) by (subst varint_high.simps) (simp add: leb_split [of _ 0, simplified])
  next
    case False
    have "varint_high (ucast (high AND 0x7F)) (drop_bit 7 high) = leb (unat high mod 128 + 128 * (unat high div 128))"
      using 1(1) [OF False] by (simp add: unat_low7 unat_drop_bit)
    then show ?thesis using False 1(2) by (subst varint_high.simps) (simp add: or_80_of_nat leb_split unat_gt_0 unat_eq_zero)
  qed
qed

lemma varint_low_zero:
  assumes "i \<le> 4" "unat byte < 128" "unat low < 128 ^ (4 - i)" "varint_low i byte low 0 = (bs, b)"
  shows "bs @ [b] = leb (unat byte + 128 * unat low)"
  using assms
proof (induction i byte low "0 :: u32" arbitrary: bs b rule: varint_low.induct)
  case (1 i byte low)
  show ?case
  proof (cases "i < 4 \<and> low \<noteq> 0")
    case True
    obtain cs c where r: "varint_low (i + 1) (ucast (low AND 0x7F)) (drop_bit 7 low) 0 = (cs, c)" by (cases "varint_low (i + 1) (ucast (low AND 0x7F)) (drop_bit 7 low) 0")
    then have bs: "bs = (byte OR 0x80) # cs" "b = c" using 1(5) True varint_low.simps [of i byte low 0] by simp_all
    have "unat low < 128 * 128 ^ (4 - (i + 1))" using 1(4) True by (metis Suc_diff_Suc Suc_eq_plus1 power_Suc)
    then have "unat low div 128 < 128 ^ (4 - (i + 1))" by (metis less_mult_imp_div_less mult.commute)
    then have "cs @ [c] = leb (unat low mod 128 + 128 * (unat low div 128))"
      using 1(1) [of cs c] r True by (simp add: unat_low7 unat_drop_bit)
    then show ?thesis using bs True 1(3) by (simp add: or_80_of_nat leb_split unat_eq_zero)
  next
    case False
    then have "low = 0" using 1(2,4) by (cases "i = 4") (auto simp: unat_eq_zero)
    then show ?thesis using False 1(3,5) varint_low.simps [of i byte low 0] by (simp add: leb_split [of _ 0, simplified])
  qed
qed

lemma unat_and_7: "unat ((w :: u32) AND 7) = unat w mod 8"
proof -
  have "w AND 7 = take_bit 3 w" by (simp add: take_bit_eq_mask mask_eq_exp_minus_1)
  then show ?thesis by (simp only: unsigned_take_bit_eq) (simp add: take_bit_eq_mod)
qed

lemma carry_byte:
  assumes "unat (b :: u8) < 16"
  shows "unat (b OR ucast (push_bit 4 ((high :: u32) AND 7))) = unat b + 16 * (unat high mod 8)"
proof -
  define m where "m = unat high mod 8"
  have m: "m < 8" by (simp add: m_def)
  have "unat (push_bit 4 (high AND 7)) = m * 16"
    using m unat_and_7 [of high] by (simp only: unsigned_push_bit_eq) (simp add: take_bit_eq_mod push_bit_eq_mult m_def)
  moreover have "m * 16 < 256" using m by simp
  ultimately have "unat (ucast (push_bit 4 (high AND 7)) :: u8) = m * 16" by (simp only: unat_ucast_small)
  moreover have "unat (of_nat m :: u8) = m" using m by (simp only: unat_of_nat) simp
  moreover have "unat (push_bit 4 (of_nat m :: u8)) = m * 16"
    using m \<open>unat (of_nat m :: u8) = m\<close> by (simp only: unsigned_push_bit_eq) (simp add: take_bit_eq_mod push_bit_eq_mult)
  ultimately have "ucast (push_bit 4 (high AND 7)) = push_bit 4 (of_nat m :: u8)" by (simp only: word_unat_eq_iff)
  then show ?thesis using unat_or_push_bit [of b 4 "of_nat m"] assms m \<open>unat (of_nat m :: u8) = m\<close> by (simp add: m_def)
qed

lemma varint_high_start:
  assumes "unat (b :: u8) < 16"
  shows "varint_high (b OR ucast (push_bit 4 (high AND 7))) (drop_bit 3 high) = leb (unat b + 16 * unat high)"
proof -
  have "unat b + 16 * (unat high mod 8) < 128" using assms mod_less_divisor [of 8 "unat high"] by linarith
  then have "varint_high (b OR ucast (push_bit 4 (high AND 7))) (drop_bit 3 high) =
      leb (unat b + 16 * (unat high mod 8) + 128 * (unat high div 8))"
    using varint_high_leb [of "b OR ucast (push_bit 4 (high AND 7))" "drop_bit 3 high"]
    unfolding carry_byte [OF assms] unat_drop_bit by simp
  moreover have "16 * (h mod 8) + 128 * (h div 8) = 16 * h" for h :: nat
    using mult_div_mod_eq [of 8 h] by linarith
  ultimately show ?thesis by (simp add: add.assoc)
qed

lemma varint_low_high:
  assumes "i \<le> 3" "unat byte < 128" "unat low < 2 ^ (25 - 7 * i)" "high \<noteq> 0" "varint_low i byte low high = (bs, b)"
  shows "bs @ varint_high (b OR ucast (push_bit 4 (high AND 7))) (drop_bit 3 high) =
    leb (unat byte + 128 * (unat low + 2 ^ (25 - 7 * i) * unat high))"
  using assms
proof (induction i byte low high arbitrary: bs b rule: varint_low.induct)
  case (1 i byte low high)
  let ?h = "unat high"
  obtain cs c where r: "varint_low (i + 1) (ucast (low AND 0x7F)) (drop_bit 7 low) high = (cs, c)"
    by (cases "varint_low (i + 1) (ucast (low AND 0x7F)) (drop_bit 7 low) high")
  then have bs: "bs = (byte OR 0x80) # cs" "b = c" using 1(2,5,6) varint_low.simps [of i byte low high] by simp_all
  have h: "0 < ?h" using 1(5) by (simp add: unat_gt_0)
  have "cs @ varint_high (c OR ucast (push_bit 4 (high AND 7))) (drop_bit 3 high) = leb (unat low + 2 ^ (25 - 7 * i) * ?h)"
  proof (cases "i = 3")
    case True
    then have low: "unat low < 16" using 1(4) by simp
    have "cs = []" "c = ucast (low AND 0x7F)" using r True varint_low.simps [of 4] by simp_all
    moreover have "unat (ucast (low AND 0x7F) :: u8) = unat low" using low by (simp add: unat_low7)
    ultimately show ?thesis using True low varint_high_start [of c high] by simp
  next
    case False
    then have i: "i + 1 \<le> 3" using 1(2) by simp
    have p: "(2 :: nat) ^ (25 - 7 * i) = 128 * 2 ^ (25 - 7 * (i + 1))"
    proof -
      have "25 - 7 * i = 7 + (25 - 7 * (i + 1))" using i by simp
      then show ?thesis by (simp only: power_add) simp
    qed
    then have l: "unat low div 128 < 2 ^ (25 - 7 * (i + 1))"
      using 1(4) by (metis less_mult_imp_div_less mult.commute)
    have "cs @ varint_high (c OR ucast (push_bit 4 (high AND 7))) (drop_bit 3 high) =
        leb (unat low mod 128 + 128 * (unat low div 128 + 2 ^ (25 - 7 * (i + 1)) * ?h))"
      using 1(1) [of cs c] r i l 1(5) by (simp add: unat_low7 unat_drop_bit)
    moreover have "unat low mod 128 + 128 * (unat low div 128 + x * ?h) = unat low + 128 * x * ?h" for x
      using mult_div_mod_eq [of 128 "unat low"] by (simp add: algebra_simps)
    ultimately show ?thesis by (simp only: p)
  qed
  moreover have "leb (unat byte + 128 * x) = (byte OR 0x80) # leb x" if "0 < x" for x
    using that 1(3) by (simp only: leb_split or_80_of_nat) simp
  moreover have "0 < unat low + 2 ^ (25 - 7 * i) * ?h" using h by simp
  ultimately show ?case unfolding bs by (simp only: append_Cons)
qed

lemma varint_32_bytes_leb: "varint_32_bytes low high = leb (unat low + 2 ^ 32 * unat high)"
proof -
  obtain bs b where r: "varint_low 0 (ucast (low AND 0x7F)) (drop_bit 7 low) high = (bs, b)"
    by (cases "varint_low 0 (ucast (low AND 0x7F)) (drop_bit 7 low) high")
  have l: "unat low div 128 < 2 ^ 25"
    using unsigned_less [of low, where ?'a = nat] by (simp add: div_less_iff_less_mult)
  have d: "n mod 128 + 128 * (n div 128 + x) = n + 128 * x" for n x :: nat
    using mult_div_mod_eq [of 128 n] by (simp add: algebra_simps)
  show ?thesis
  proof (cases "high = 0")
    case True
    have "unat low div 128 < 128 ^ 4" using l by simp
    then have "bs @ [b] = leb (unat low)"
      using varint_low_zero [OF _ _ _ r [unfolded True]] d [of "unat low" 0] by (simp add: unat_low7 unat_drop_bit)
    then show ?thesis using r True by (simp add: varint_32_bytes_def)
  next
    case False
    have "bs @ varint_high (b OR ucast (push_bit 4 (high AND 7))) (drop_bit 3 high) =
        leb (unat low mod 128 + 128 * (unat low div 128 + 2 ^ 25 * unat high))"
      using varint_low_high [OF _ _ _ False r] l by (simp add: unat_low7 unat_drop_bit)
    then show ?thesis using r False d [of "unat low" "2 ^ 25 * unat high"] by (simp add: varint_32_bytes_def)
  qed
qed

lemma leb_length: "n < 128 ^ k \<Longrightarrow> 0 < k \<Longrightarrow> length (leb n) \<le> k"
proof (induction n arbitrary: k rule: leb.induct)
  case (1 n)
  show ?case
  proof (cases "n < 128")
    case True
    then show ?thesis using 1(3) by (subst leb.simps) simp
  next
    case False
    then obtain j where k: "k = Suc j" "0 < j" using 1(2,3) by (cases k; cases "k - 1") auto
    then have "n div 128 < 128 ^ j" using 1(2) by (simp add: div_less_iff_less_mult mult.commute)
    then show ?thesis using 1(1) [OF False, of j] k False by (subst leb.simps) simp
  qed
qed

lemma leb_length_u64: "length (leb (unat (v :: u64))) \<le> 10"
proof (rule leb_length)
  have "unat v < 2 ^ 64" using unsigned_less [of v, where ?'a = nat] by simp
  also have "(2 :: nat) ^ 64 < 128 ^ 10" by simp
  finally show "unat v < 128 ^ 10" .
qed simp

lemma split_u64: "unat (ucast (v :: u64) :: u32) + 2 ^ 32 * unat (ucast (drop_bit 32 v) :: u32) = unat v"
proof -
  have "unat v < 2 ^ 32 * 2 ^ 32" using unsigned_less [of v, where ?'a = nat] by simp
  then have "unat v div 2 ^ 32 < 2 ^ 32" by (metis less_mult_imp_div_less)
  then have "unat (ucast (drop_bit 32 v) :: u32) = unat v div 2 ^ 32"
    by (simp only: unsigned_ucast_eq take_bit_eq_mod [where ?'a = nat] unat_drop_bit) simp
  moreover have "unat (ucast v :: u32) = unat v mod 2 ^ 32"
    by (simp only: unsigned_ucast_eq take_bit_eq_mod [where ?'a = nat]) simp
  ultimately show ?thesis using mod_mult_div_eq [of "unat v" "2 ^ 32"] by simp
qed

lemma pb_encode_varint_leb: "pb_encode_varint v s = pb_write (leb (unat v)) s"
proof (cases "v \<le> 0x7F")
  case True
  then have v: "unat v < 128" by (simp add: word_le_nat_alt)
  then have "unat (ucast v :: u8) = unat v" by (simp add: unat_ucast_small)
  then have "leb (unat v) = [ucast v]" using v by (subst leb.simps) (simp add: u8_of_unat)
  then show ?thesis using True by (simp add: pb_encode_varint_def)
next
  case False
  then show ?thesis using leb_length_u64 [of v]
    by (simp add: pb_encode_varint_def pb_encode_varint_32_def varint_32_bytes_leb split_u64 del: power_numeral)
qed

text \<open>C13.  Variable length integers: for every 64 bit value the two loops of
  \<open>pb_encode_varint_32\<close>, which avoid 64 bit shifts, and the fast path of \<open>pb_encode_varint\<close>
  write the reference encoding, and the ten byte array is never exceeded.\<close>

theorem pb_encode_varint_reference:
  "pb_encode_varint v s = pb_write (leb (unat v)) s \<and> length (leb (unat v)) \<le> 10"
  using pb_encode_varint_leb leb_length_u64 by blast

section \<open>Reading it back\<close>

text \<open>A stream that has the bytes \<open>bs\<close> left, in an object that goes on with \<open>rest\<close>.\<close>

definition stream_of :: "u8 list \<Rightarrow> u8 list \<Rightarrow> pb_istream" where
  "stream_of bs rest = \<lparr>is_state = bs @ rest, bytes_left = length bs\<rparr>"

lemma pb_readbyte_stream [simp]: "pb_readbyte (stream_of (b # bs) rest) = Ok (b, stream_of bs rest)"
  by (simp add: pb_readbyte_def buf_read_def stream_of_def)

lemma pb_readbyte_end [simp]: "pb_readbyte (stream_of [] rest) = Fail ''end-of-stream''"
  by (simp add: pb_readbyte_def stream_of_def)

lemma pb_read_stream: "pb_read (length xs) (stream_of (xs @ bs) rest) = Ok (xs, stream_of bs rest)"
  by (simp add: pb_read_def buf_read_def stream_of_def)

lemma unat_u8_of_nat: "n < 256 \<Longrightarrow> unat (of_nat n :: u8) = n"
  by (simp only: unat_of_nat) simp

lemma leb_first:
  obtains b :: u8 where "leb n = b # (if n < 128 then [] else leb (n div 128))" "unat (b AND 0x7F) = n mod 128"
    "b AND 0x80 = 0 \<longleftrightarrow> n < 128" "n < 128 \<Longrightarrow> unat b = n"
proof
  define b where "b = (if n < 128 then n else n mod 128 + 128)"
  have b: "unat (of_nat b :: u8) = b" by (rule unat_u8_of_nat) (use mod_less_divisor [of 128 n] in \<open>auto simp: b_def\<close>)
  show "leb n = of_nat b # (if n < 128 then [] else leb (n div 128))" by (subst leb.simps) (simp add: b_def)
  show "unat (of_nat b AND 0x7F :: u8) = n mod 128" by (simp only: unat_and_7F b) (simp add: b_def)
  show "(of_nat b :: u8) AND 0x80 = 0 \<longleftrightarrow> n < 128" by (simp only: u8_and_80 b) (simp add: b_def)
  show "unat (of_nat b :: u8) = n" if "n < 128" using b that by (simp add: b_def)
qed

lemma or_chunk:
  fixes r :: "'a::len word"
  assumes "unat (c :: u8) = m" "m < 128" "8 \<le> LENGTH('a)" "unat r < 2 ^ j" "m * 2 ^ j < 2 ^ LENGTH('a)"
  shows "unat (r OR push_bit j (ucast c)) = unat r + m * 2 ^ j"
proof -
  have "(2 :: nat) ^ 8 \<le> 2 ^ LENGTH('a)" by (rule power_increasing) (use assms(3) in simp_all)
  then have "unat (ucast c :: 'a word) = m"
    using assms(1,2) by (simp only: unsigned_ucast_eq take_bit_eq_mod [where ?'a = nat]) simp
  then show ?thesis using unat_or_push_bit [of r j "ucast c"] assms(4,5) by simp
qed

lemma word_of_unat: "unat (w :: 'a::len word) = n \<Longrightarrow> w = of_nat n"
  by auto

lemma chunk_bounds:
  assumes "x < 2 ^ j" "n * 2 ^ j < (2 :: nat) ^ w"
  shows "n mod 128 * 2 ^ j < 2 ^ w" "x + n mod 128 * 2 ^ j < 2 ^ (j + 7)" "n div 128 * 2 ^ (j + 7) < 2 ^ w"
    "x + n mod 128 * 2 ^ j + n div 128 * 2 ^ (j + 7) = x + n * 2 ^ j"
proof -
  define p where "p = (2 :: nat) ^ j"
  have p7: "2 ^ (j + 7) = 128 * p" by (simp add: p_def power_add)
  have "n mod 128 * p \<le> n * p" by (rule mult_le_mono1) simp
  then show "n mod 128 * 2 ^ j < 2 ^ w" using assms(2) unfolding p_def by (rule le_less_trans)
  have "x + n mod 128 * p < (1 + n mod 128) * p" using assms(1) by (simp add: p_def)
  also have "\<dots> \<le> 128 * p" using mod_less_divisor [of 128 n] by (intro mult_le_mono1) linarith
  finally show "x + n mod 128 * 2 ^ j < 2 ^ (j + 7)" unfolding p7 p_def .
  have "n div 128 * (128 * p) \<le> n * p" unfolding mult.assoc [symmetric] by (rule mult_le_mono1) simp
  then show "n div 128 * 2 ^ (j + 7) < 2 ^ w" using assms(2) unfolding p7 p_def [symmetric] by (rule le_less_trans)
  have "n mod 128 * p + n div 128 * (128 * p) = n * p"
    using mult_div_mod_eq [of 128 n] by (metis add.commute add_mult_distrib mult.assoc mult.commute)
  then show "x + n mod 128 * 2 ^ j + n div 128 * 2 ^ (j + 7) = x + n * 2 ^ j" unfolding p7 p_def by simp
qed

lemma varint_loop_leb:
  assumes "unat r < 2 ^ (7 * k)" "n * 2 ^ (7 * k) < 2 ^ 64"
  shows "varint_loop (7 * k) r (stream_of (leb n @ bs) rest) = Ok (of_nat (unat r + n * 2 ^ (7 * k)), stream_of bs rest)"
  using assms
proof (induction n arbitrary: k r rule: leb.induct)
  case (1 n)
  obtain b :: u8 where b: "leb n = b # (if n < 128 then [] else leb (n div 128))" "unat (b AND 0x7F) = n mod 128"
    "b AND 0x80 = 0 \<longleftrightarrow> n < 128" "n < 128 \<Longrightarrow> unat b = n" using leb_first [of n] by blast
  define r' where "r' = r OR push_bit (7 * k) (ucast (b AND 0x7F))"
  note cb = chunk_bounds [OF 1(2,3)]
  have r': "unat r' = unat r + n mod 128 * 2 ^ (7 * k)"
    unfolding r'_def by (rule or_chunk [OF b(2) _ _ 1(2)]) (use cb(1) in simp_all)
  have big: "n < 2" if "63 \<le> 7 * k"
  proof (rule ccontr)
    assume "\<not> n < 2"
    then have "2 * 2 ^ 63 \<le> n * 2 ^ (7 * k)" using that by (intro mult_le_mono power_increasing) auto
    then show False using 1(3) by simp
  qed
  show ?case
  proof (cases "n < 128")
    case True
    have "b AND 0xFE = 0" if "63 \<le> 7 * k"
      using big [OF that] b(4) [OF True] by (auto simp: less_2_cases_iff dest!: word_of_unat)
    then have "varint_loop (7 * k) r (stream_of (leb n @ bs) rest) = Ok (r', stream_of bs rest)"
      using True b(1,3) by (subst varint_loop.simps) (auto simp: r'_def Let_def)
    moreover have "r' = of_nat (unat r + n * 2 ^ (7 * k))" using r' True by (intro word_of_unat) simp
    ultimately show ?thesis by (simp only:)
  next
    case False
    then have "varint_loop (7 * k) r (stream_of (leb n @ bs) rest) =
        varint_loop (7 * (k + 1)) r' (stream_of (leb (n div 128) @ bs) rest)"
      using b(1,3) big by (subst varint_loop.simps) (auto simp: r'_def Let_def add.commute)
    also have "\<dots> = Ok (of_nat (unat r' + n div 128 * 2 ^ (7 * (k + 1))), stream_of bs rest)"
      by (rule 1(1) [OF False]) (use r' cb(2,3) in \<open>simp_all add: add.commute [of 7]\<close>)
    finally show ?thesis using r' cb(4) by (simp add: add.commute [of 7])
  qed
qed

lemma low_nibble:
  assumes "unat (b :: u8) < 16"
  shows "b AND 0x70 = 0" "b AND 0x0F = b"
proof -
  show f: "b AND 0x0F = b" using assms by (simp only: word_unat_eq_iff u8_lo_nibble) simp
  have "b AND 0x70 = (b AND 0x0F) AND 0x70" by (simp only: f)
  also have "\<dots> = 0" by (simp only: and.assoc) simp
  finally show "b AND 0x70 = 0" .
qed

lemma varint32_loop_leb:
  assumes "unat r < 2 ^ (7 * k)" "n * 2 ^ (7 * k) < 2 ^ 32" "0 < n"
  shows "varint32_loop (7 * k) r (stream_of (leb n @ bs) rest) = Ok (of_nat (unat r + n * 2 ^ (7 * k)), stream_of bs rest)"
  using assms
proof (induction n arbitrary: k r rule: leb.induct)
  case (1 n)
  obtain b :: u8 where b: "leb n = b # (if n < 128 then [] else leb (n div 128))" "unat (b AND 0x7F) = n mod 128"
    "b AND 0x80 = 0 \<longleftrightarrow> n < 128" "n < 128 \<Longrightarrow> unat b = n" using leb_first [of n] by blast
  define r' where "r' = r OR push_bit (7 * k) (ucast (b AND 0x7F))"
  note cb = chunk_bounds [OF 1(2,3)]
  have r': "unat r' = unat r + n mod 128 * 2 ^ (7 * k)"
    unfolding r'_def by (rule or_chunk [OF b(2) _ _ 1(2)]) (use cb(1) in simp_all)
  have "(2 :: nat) ^ (7 * k) < 2 ^ 32" using 1(3,4) by (cases n) auto
  then have k: "7 * k < 32" using power_strict_increasing_iff [of "2 :: nat" "7 * k" 32] by (simp del: power_numeral)
  have k4: "n < 16" if "k = 4" using 1(3) that by simp
  show ?case
  proof (cases "n < 128")
    case True
    have nib: "b AND 0x70 = 0 \<and> b AND 0x0F = b AND 0x7F" if "k = 4"
    proof -
      have "unat b < 16" using k4 [OF that] b(4) [OF True] by simp
      moreover have "b AND 0x7F = b" using b(2,4) True by (simp add: word_unat_eq_iff)
      ultimately show ?thesis using low_nibble by simp
    qed
    have "varint32_loop (7 * k) r (stream_of (leb n @ bs) rest) = Ok (r', stream_of bs rest)"
      using True b(1,3) k nib by (subst varint32_loop.simps) (auto simp: r'_def Let_def)
    moreover have "r' = of_nat (unat r + n * 2 ^ (7 * k))" using r' True by (intro word_of_unat) simp
    ultimately show ?thesis by (simp only:)
  next
    case False
    then have "k \<noteq> 4" using k4 by auto
    then have "varint32_loop (7 * k) r (stream_of (leb n @ bs) rest) =
        varint32_loop (7 * (k + 1)) r' (stream_of (leb (n div 128) @ bs) rest)"
      using b(1,3) k False by (subst varint32_loop.simps) (auto simp: r'_def Let_def add.commute)
    also have "\<dots> = Ok (of_nat (unat r' + n div 128 * 2 ^ (7 * (k + 1))), stream_of bs rest)"
      by (rule 1(1) [OF False]) (use r' cb(2,3) False in \<open>simp_all add: add.commute [of 7]\<close>)
    finally show ?thesis using r' cb(4) by (simp add: add.commute [of 7])
  qed
qed

lemma pb_decode_varint_leb:
  "n < 2 ^ 64 \<Longrightarrow> pb_decode_varint (stream_of (leb n @ bs) rest) = Ok (of_nat n, stream_of bs rest)"
  using varint_loop_leb [of 0 0 n] by (simp add: pb_decode_varint_def)

lemma pb_decode_varint32_leb:
  assumes "n < 2 ^ 32"
  shows "pb_decode_varint32 (stream_of (leb n @ bs) rest) = Ok (of_nat n, stream_of bs rest)"
proof -
  obtain b :: u8 where b: "leb n = b # (if n < 128 then [] else leb (n div 128))" "unat (b AND 0x7F) = n mod 128"
    "b AND 0x80 = 0 \<longleftrightarrow> n < 128" "n < 128 \<Longrightarrow> unat b = n" using leb_first [of n] by blast
  show ?thesis
  proof (cases "n < 128")
    case True
    then have "ucast b = (of_nat n :: u32)" using b(4) by (metis of_nat_unat)
    then show ?thesis using True b(1,3) by (simp add: pb_decode_varint32_def pb_decode_varint32_eof_def)
  next
    case False
    have u: "unat (ucast (b AND 0x7F) :: u32) = n mod 128"
      using or_chunk [OF b(2), where j = 0 and r = "0 :: u32"] mod_less_divisor [of 128 n] by (simp add: less_trans [of _ 128])
    have "n div 128 * 2 ^ (7 * 1) < 2 ^ 32"
      using assms div_times_less_eq_dividend [of n 128] by simp
    then have "varint32_loop (7 * 1) (ucast (b AND 0x7F)) (stream_of (leb (n div 128) @ bs) rest) =
        Ok (of_nat (n mod 128 + n div 128 * 2 ^ (7 * 1)), stream_of bs rest)"
      using varint32_loop_leb [of "ucast (b AND 0x7F)" 1 "n div 128"] u False by simp
    moreover have "n mod 128 + n div 128 * 2 ^ (7 * 1) = n" using mod_div_mult_eq [of n 128] by simp
    ultimately show ?thesis using False b(1,3) by (simp add: pb_decode_varint32_def pb_decode_varint32_eof_def)
  qed
qed

section \<open>Round trips\<close>

lemma zigzag_inverse: "unzigzag (zigzag v) = v"
proof -
  have m: "drop_bit 1 (- 1 :: u64) = mask 63" by (simp add: mask_eq_exp_minus_1)
  have odd: "x AND 1 \<noteq> 0 \<longleftrightarrow> bit x 0" for x :: u64 by (simp add: and_one_eq bit_0 odd_iff_mod_2_eq_one)
  show ?thesis
  proof (cases "bit v 63")
    case True
    have z: "zigzag v = NOT (push_bit 1 (v AND mask 63))" using True m by (simp only: zigzag_def if_True)
    have "zigzag v AND 1 \<noteq> 0" unfolding odd z bit_0 even_not_iff by (simp del: push_bit_and)
    then have "unzigzag (zigzag v) = NOT (drop_bit 1 (NOT (push_bit 1 (v AND mask 63))))" unfolding unzigzag_def z by simp
    also have "\<dots> = v"
    proof (rule bit_word_eqI)
      fix n assume "n < LENGTH(64)"
      then show "bit (NOT (drop_bit 1 (NOT (push_bit 1 (v AND mask 63))))) n = bit v n"
        using True by (cases "n = 63") (auto simp: bit_simps simp del: One_nat_def push_bit_Suc)
    qed
    finally show ?thesis .
  next
    case False
    then have z: "zigzag v = push_bit 1 v" by (simp add: zigzag_def)
    have "\<not> bit (zigzag v) 0" unfolding z bit_0 by simp
    then have "unzigzag (zigzag v) = drop_bit 1 (push_bit 1 v)" unfolding unzigzag_def odd z by simp
    also have "\<dots> = v"
    proof (rule bit_word_eqI)
      fix n assume "n < LENGTH(64)"
      then show "bit (drop_bit 1 (push_bit 1 v)) n = bit v n" using False by (cases "n = 63") (auto simp: bit_simps simp del: One_nat_def push_bit_Suc)
    qed
    finally show ?thesis .
  qed
qed

lemma le_value_step: "bit (le_value (b # bs) :: 'a::len word) n \<longleftrightarrow>
   n < LENGTH('a) \<and> (if n < 8 then bit b n else bit (le_value bs :: 'a word) (n - 8))"
  by (auto simp: bit_simps dest: bit_imp_le_length)

lemma le_value_ucast: "le_value bs = drop_bit 8 w \<Longrightarrow> le_value (ucast w # bs) = (w :: 'a::len word)"
  by (rule bit_word_eqI) (auto simp only: le_value_step, auto simp: bit_simps split: if_splits)

lemma fixed32_inverse:
  "le_value [ucast v, ucast (drop_bit 8 v), ucast (drop_bit 16 v), ucast (drop_bit 24 v)] = (v :: u32)"
proof -
  have z: "drop_bit 32 v = 0" by (rule bit_word_eqI) (simp add: bit_simps)
  have "le_value [ucast (drop_bit 24 v)] = drop_bit 24 v" by (rule le_value_ucast) (simp add: z)
  then have "le_value [ucast (drop_bit 16 v), ucast (drop_bit 24 v)] = drop_bit 16 v" by (intro le_value_ucast) simp
  then have "le_value [ucast (drop_bit 8 v), ucast (drop_bit 16 v), ucast (drop_bit 24 v)] = drop_bit 8 v"
    by (intro le_value_ucast) simp
  then show ?thesis by (rule le_value_ucast)
qed

lemma fixed64_inverse: "le_value (map (\<lambda>i. ucast (drop_bit (8 * i) v)) [0, 1, 2, 3, 4, 5, 6, 7]) = (v :: u64)"
proof -
  have z: "drop_bit 64 v = 0" by (rule bit_word_eqI) (simp add: bit_simps)
  have "le_value [ucast (drop_bit 56 v)] = drop_bit 56 v" by (rule le_value_ucast) (simp add: z)
  then have "le_value [ucast (drop_bit 48 v), ucast (drop_bit 56 v)] = drop_bit 48 v" by (intro le_value_ucast) simp
  then have "le_value [ucast (drop_bit 40 v), ucast (drop_bit 48 v), ucast (drop_bit 56 v)] = drop_bit 40 v"
    by (intro le_value_ucast) simp
  then have "le_value [ucast (drop_bit 32 v), ucast (drop_bit 40 v), ucast (drop_bit 48 v), ucast (drop_bit 56 v)] = drop_bit 32 v"
    by (intro le_value_ucast) simp
  then have "le_value [ucast (drop_bit 24 v), ucast (drop_bit 32 v), ucast (drop_bit 40 v), ucast (drop_bit 48 v),
      ucast (drop_bit 56 v)] = drop_bit 24 v" by (intro le_value_ucast) simp
  then have "le_value [ucast (drop_bit 16 v), ucast (drop_bit 24 v), ucast (drop_bit 32 v), ucast (drop_bit 40 v),
      ucast (drop_bit 48 v), ucast (drop_bit 56 v)] = drop_bit 16 v" by (intro le_value_ucast) simp
  then have "le_value [ucast (drop_bit 8 v), ucast (drop_bit 16 v), ucast (drop_bit 24 v), ucast (drop_bit 32 v),
      ucast (drop_bit 40 v), ucast (drop_bit 48 v), ucast (drop_bit 56 v)] = drop_bit 8 v" by (intro le_value_ucast) simp
  then show ?thesis by (simp del: le_value.simps add: le_value_ucast)
qed

section \<open>Encoders append\<close>

text \<open>A stream on a buffer that holds at least \<open>max_size\<close> bytes.\<close>

definition ok_os :: "pb_ostream \<Rightarrow> bool" where
  "ok_os s \<longleftrightarrow> (\<exists>b. os_buf s = Some b \<and> max_size s \<le> length b) \<and> bytes_written s \<le> max_size s \<and> max_size s < 2 ^ 64"

definition wrote :: "pb_ostream \<Rightarrow> u8 list" where
  "wrote s = (case os_buf s of None \<Rightarrow> [] | Some b \<Rightarrow> take (bytes_written s) b)"

definition os_put :: "u8 list \<Rightarrow> pb_ostream \<Rightarrow> pb_ostream" where
  "os_put bs s = s\<lparr>os_buf := map_option (\<lambda>b. take (bytes_written s) b @ bs @ drop (bytes_written s + length bs) b) (os_buf s),
     bytes_written := bytes_written s + length bs\<rparr>"

lemma os_put_Nil: "ok_os s \<Longrightarrow> os_put [] s = s"
  by (auto simp: os_put_def ok_os_def)

lemma os_put_append: "ok_os s \<Longrightarrow> bytes_written s + length xs \<le> max_size s \<Longrightarrow> os_put ys (os_put xs s) = os_put (xs @ ys) s"
  by (auto simp: os_put_def ok_os_def min_def add.assoc add.commute [of "length ys"] neq_Nil_conv)

lemma ok_os_put: "ok_os s \<Longrightarrow> bytes_written s + length xs \<le> max_size s \<Longrightarrow> ok_os (os_put xs s)"
  by (auto simp: os_put_def ok_os_def)

lemma os_put_fields [simp]: "max_size (os_put xs s) = max_size s" "bytes_written (os_put xs s) = bytes_written s + length xs"
  by (simp_all add: os_put_def)

lemma wrote_put: "ok_os s \<Longrightarrow> bytes_written s + length xs \<le> max_size s \<Longrightarrow> wrote (os_put xs s) = wrote s @ xs"
  by (auto simp: os_put_def ok_os_def wrote_def)

lemma pb_write_ok:
  assumes "ok_os s" "bytes_written s + length bs < 2 ^ 64"
  shows "pb_write bs s = (if bytes_written s + length bs \<le> max_size s then Ok (os_put bs s) else Fail ''stream full'')"
proof -
  obtain b where b: "os_buf s = Some b" "max_size s \<le> length b" "bytes_written s \<le> max_size s"
    using assms by (auto simp: ok_os_def)
  have m: "(bytes_written s + length bs) mod 2 ^ 64 = bytes_written s + length bs" using assms(2) by simp
  show ?thesis using b m
    by (cases "bs = []") (auto simp: pb_write_def os_put_def buf_write_def memcpy_in_def Let_def simp del: power_numeral)
qed

text \<open>\<open>f\<close> appends \<open>bs\<close> or reports a full stream.\<close>

definition encodes :: "(pb_ostream \<Rightarrow> pb_ostream pb) \<Rightarrow> u8 list \<Rightarrow> bool" where
  "encodes f bs \<longleftrightarrow> (\<forall>s. ok_os s \<longrightarrow> bytes_written s + length bs < 2 ^ 64 \<longrightarrow>
     f s = (if bytes_written s + length bs \<le> max_size s then Ok (os_put bs s) else Fail ''stream full''))"

lemma encodes_write: "encodes (pb_write bs) bs"
  unfolding encodes_def by (intro allI impI) (rule pb_write_ok)

lemma encodes_bind:
  assumes "encodes f xs" "encodes g ys"
  shows "encodes (\<lambda>s. pb_bind (f s) g) (xs @ ys)"
  unfolding encodes_def
proof (intro allI impI)
  fix s assume s: "ok_os s" "bytes_written s + length (xs @ ys) < 2 ^ 64"
  show "pb_bind (f s) g = (if bytes_written s + length (xs @ ys) \<le> max_size s then Ok (os_put (xs @ ys) s) else Fail ''stream full'')"
  proof (cases "bytes_written s + length xs \<le> max_size s")
    case True
    have "f s = Ok (os_put xs s)" using assms(1) s True by (simp add: encodes_def del: power_numeral)
    moreover have "g (os_put xs s) = (if bytes_written s + length (xs @ ys) \<le> max_size s
        then Ok (os_put ys (os_put xs s)) else Fail ''stream full'')"
      using assms(2) ok_os_put [OF s(1) True] s(2) by (simp add: encodes_def add.assoc del: power_numeral)
    ultimately show ?thesis using os_put_append [OF s(1) True] by simp
  next
    case False
    then have "f s = Fail ''stream full''" using assms(1) s by (simp add: encodes_def del: power_numeral)
    then show ?thesis using False by simp
  qed
qed

lemma encodes_Ok: "encodes Ok []"
  using os_put_Nil by (auto simp: encodes_def ok_os_def)

lemma encodes_varint: "encodes (pb_encode_varint v) (leb (unat v))"
proof -
  have "pb_encode_varint v = pb_write (leb (unat v))" using pb_encode_varint_leb by blast
  then show ?thesis using encodes_write by simp
qed

definition tag_bytes :: "pb_wire_type \<Rightarrow> u32 \<Rightarrow> u8 list" where
  "tag_bytes wt n = leb (unat n * 8 + pb_wire_type_val wt)"

definition string_bytes :: "u8 list \<Rightarrow> u8 list" where
  "string_bytes bs = leb (length bs) @ bs"

lemma wire_type_small: "pb_wire_type_val wt < 8"
  by (cases wt) simp_all

lemma encodes_tag: "encodes (pb_encode_tag wt n) (tag_bytes wt n)"
proof -
  have u: "unat (ucast n :: u64) = unat n" using unsigned_less [of n, where ?'a = nat]
    by (simp only: unsigned_ucast_eq take_bit_eq_mod [where ?'a = nat]) simp
  have w: "unat (of_nat (pb_wire_type_val wt) :: u64) = pb_wire_type_val wt"
    using wire_type_small [of wt] by (simp only: unat_of_nat) simp
  have "unat n * 2 ^ 3 < 2 ^ 64" using unsigned_less [of n, where ?'a = nat] by simp
  then have "unat (of_nat (pb_wire_type_val wt) OR push_bit 3 (ucast n) :: u64) = pb_wire_type_val wt + unat n * 2 ^ 3"
    using unat_or_push_bit [of "of_nat (pb_wire_type_val wt)" 3 "ucast n :: u64"] u w wire_type_small [of wt] by simp
  then have "unat (push_bit 3 (ucast n) OR of_nat (pb_wire_type_val wt) :: u64) = unat n * 8 + pb_wire_type_val wt"
    by (simp only: or.commute) simp
  then show ?thesis using encodes_varint [of "push_bit 3 (ucast n) OR of_nat (pb_wire_type_val wt)"]
    unfolding tag_bytes_def pb_encode_tag_def by simp
qed

lemma encodes_string: "length bs < 2 ^ 64 \<Longrightarrow> encodes (pb_encode_string bs) (string_bytes bs)"
proof -
  assume "length bs < 2 ^ 64"
  then have "unat (of_nat (length bs) :: u64) = length bs" by (simp only: unat_of_nat) simp
  then have "encodes (pb_encode_varint (of_nat (length bs))) (leb (length bs))" using encodes_varint by metis
  from encodes_bind [OF this encodes_write] show ?thesis unfolding pb_encode_string_def string_bytes_def .
qed

lemma decode_tag:
  assumes "unat n < 2 ^ 29"
  shows "pb_decode_tag (stream_of (tag_bytes wt n @ bs) rest) = (False, Ok (pb_wire_type_val wt, n, stream_of bs rest))"
proof -
  define t where "t = unat n * 8 + pb_wire_type_val wt"
  have w: "pb_wire_type_val wt < 8" by (rule wire_type_small)
  have t: "t < 2 ^ 32" using assms w by (simp add: t_def)
  then have u: "unat (of_nat t :: u32) = t" by (simp only: unat_of_nat) simp
  have "leb t \<noteq> []" using leb_first [of t] by (metis list.distinct(1))
  then have "bytes_left (stream_of (leb t @ bs) rest) \<noteq> 0" by (simp add: stream_of_def)
  moreover have "unat ((of_nat t :: u32) AND 7) = pb_wire_type_val wt"
    by (simp only: unat_and_7 u) (simp add: t_def w)
  moreover have "drop_bit 3 (of_nat t :: u32) = n"
    using w by (simp only: word_unat_eq_iff unat_drop_bit u) (simp add: t_def)
  ultimately show ?thesis using pb_decode_varint32_leb [OF t, of bs rest]
    by (simp add: pb_decode_tag_def pb_decode_varint32_def pb_decode_varint32_eof_def tag_bytes_def t_def [symmetric])
qed

lemma substream:
  assumes "length xs < 2 ^ 32"
  shows "pb_make_string_substream (stream_of (string_bytes xs @ bs) rest) =
    Ok (stream_of xs (bs @ rest), \<lparr>is_state = xs @ bs @ rest, bytes_left = length bs\<rparr>)"
proof -
  have "unat (of_nat (length xs) :: u32) = length xs" using assms by (simp only: unat_of_nat) simp
  then show ?thesis using pb_decode_varint32_leb [OF assms, of "xs @ bs" rest]
    by (simp add: pb_make_string_substream_def string_bytes_def stream_of_def)
qed

lemma close_substream:
  "pb_close_string_substream \<lparr>is_state = ys, bytes_left = length bs\<rparr> (stream_of zs (bs @ rest)) = Ok (stream_of bs rest)"
  by (cases "zs = []") (simp_all add: pb_close_string_substream_def stream_of_def pb_read_def buf_read_def)

text \<open>C12.  Every primitive of the wire format round-trips: what \<open>pb_encode_varint\<close>,
  \<open>pb_encode_svarint\<close>, \<open>pb_encode_fixed32\<close> and \<open>pb_encode_fixed64\<close> append is read back by the
  corresponding decoder, for every value, and the stream then stands behind it; so is what \<open>pb_encode_tag\<close> appends for a field number
  below \<open>2 ^ 29\<close>; and a string of fewer than \<open>2 ^ 32\<close> bytes that \<open>pb_encode_string\<close> appends is the substream that
  \<open>pb_make_string_substream\<close> opens, which when it is closed, however much of it was read, leaves the stream behind the string.\<close>

theorem pb_wire_round_trip:
  "(\<exists>e. encodes (pb_encode_varint v) e \<and> (\<forall>bs rest. pb_decode_varint (stream_of (e @ bs) rest) = Ok (v, stream_of bs rest))) \<and>
   (\<exists>e. encodes (pb_encode_svarint v) e \<and> (\<forall>bs rest. pb_decode_svarint (stream_of (e @ bs) rest) = Ok (v, stream_of bs rest))) \<and>
   (\<exists>e. encodes (pb_encode_fixed32 w) e \<and> (\<forall>bs rest. pb_decode_fixed32 (stream_of (e @ bs) rest) = Ok (w, stream_of bs rest))) \<and>
   (\<exists>e. encodes (pb_encode_fixed64 v) e \<and> (\<forall>bs rest. pb_decode_fixed64 (stream_of (e @ bs) rest) = Ok (v, stream_of bs rest))) \<and>
   (unat n < 2 ^ 29 \<longrightarrow> (\<exists>e. encodes (pb_encode_tag wt n) e \<and>
      (\<forall>bs rest. pb_decode_tag (stream_of (e @ bs) rest) = (False, Ok (pb_wire_type_val wt, n, stream_of bs rest))))) \<and>
   (length xs < 2 ^ 32 \<longrightarrow> (\<exists>e. encodes (pb_encode_string xs) e \<and>
      (\<forall>bs rest. \<exists>s. pb_make_string_substream (stream_of (e @ bs) rest) = Ok (stream_of xs (bs @ rest), s) \<and>
        (\<forall>ys. pb_close_string_substream s (stream_of ys (bs @ rest)) = Ok (stream_of bs rest)))))"
proof (intro conjI)
  show "unat n < 2 ^ 29 \<longrightarrow> (\<exists>e. encodes (pb_encode_tag wt n) e \<and>
      (\<forall>bs rest. pb_decode_tag (stream_of (e @ bs) rest) = (False, Ok (pb_wire_type_val wt, n, stream_of bs rest))))"
    using encodes_tag decode_tag by blast
  have "length xs < 2 ^ 32 \<Longrightarrow> encodes (pb_encode_string xs) (string_bytes xs)" by (rule encodes_string) simp
  then show "length xs < 2 ^ 32 \<longrightarrow> (\<exists>e. encodes (pb_encode_string xs) e \<and>
      (\<forall>bs rest. \<exists>s. pb_make_string_substream (stream_of (e @ bs) rest) = Ok (stream_of xs (bs @ rest), s) \<and>
        (\<forall>ys. pb_close_string_substream s (stream_of ys (bs @ rest)) = Ok (stream_of bs rest))))"
    using substream close_substream by blast
  have d: "pb_decode_varint (stream_of (leb (unat u) @ bs) rest) = Ok (u, stream_of bs rest)" for u bs rest
    using pb_decode_varint_leb [of "unat u"] unsigned_less [of u, where ?'a = nat] by simp
  then show "\<exists>e. encodes (pb_encode_varint v) e \<and> (\<forall>bs rest. pb_decode_varint (stream_of (e @ bs) rest) = Ok (v, stream_of bs rest))"
    using encodes_varint by blast
  have "encodes (pb_encode_svarint v) (leb (unat (zigzag v)))" unfolding pb_encode_svarint_def by (rule encodes_varint)
  then show "\<exists>e. encodes (pb_encode_svarint v) e \<and> (\<forall>bs rest. pb_decode_svarint (stream_of (e @ bs) rest) = Ok (v, stream_of bs rest))"
    using d [of "zigzag v"] by (intro exI [of _ "leb (unat (zigzag v))"]) (simp add: pb_decode_svarint_def zigzag_inverse)
  let ?e = "[ucast w, ucast (drop_bit 8 w), ucast (drop_bit 16 w), ucast (drop_bit 24 w)] :: u8 list"
  have "pb_read 4 (stream_of (?e @ bs) rest) = Ok (?e, stream_of bs rest)" for bs rest using pb_read_stream [of ?e bs rest] by (simp add: numeral_eq_Suc)
  then show "\<exists>e. encodes (pb_encode_fixed32 w) e \<and> (\<forall>bs rest. pb_decode_fixed32 (stream_of (e @ bs) rest) = Ok (w, stream_of bs rest))"
    using encodes_write [of ?e] fixed32_inverse [of w] unfolding pb_encode_fixed32_def pb_decode_fixed32_def
    by (intro exI [of _ ?e]) (simp del: le_value.simps)
  let ?f = "map (\<lambda>i. ucast (drop_bit (8 * i) v)) [0, 1, 2, 3, 4, 5, 6, 7] :: u8 list"
  have "pb_read 8 (stream_of (?f @ bs) rest) = Ok (?f, stream_of bs rest)" for bs rest using pb_read_stream [of ?f bs rest] by (simp add: numeral_eq_Suc)
  then show "\<exists>e. encodes (pb_encode_fixed64 v) e \<and> (\<forall>bs rest. pb_decode_fixed64 (stream_of (e @ bs) rest) = Ok (v, stream_of bs rest))"
    using encodes_write [of ?f] fixed64_inverse [of v] unfolding pb_encode_fixed64_def pb_decode_fixed64_def
    by (intro exI [of _ ?f]) (simp del: le_value.simps)
qed

theorem pb_wire_round_trip_witness:
  "(\<exists>e. encodes (pb_encode_tag PB_WT_STRING 5) e \<and> snd (pb_decode_tag (stream_of e [])) = Ok (2, 5, stream_of [] [])) \<and>
   (\<exists>e s. encodes (pb_encode_string [1, 2]) e \<and> pb_make_string_substream (stream_of (e @ [9]) []) = Ok (stream_of [1, 2] [9], s))"
proof -
  note c = pb_wire_round_trip [where v = 0 and w = 0 and n = 5 and wt = PB_WT_STRING and xs = "[1, 2]"]
  have "unat (5 :: u32) < 2 ^ 29" by simp
  with c have "\<exists>e. encodes (pb_encode_tag PB_WT_STRING 5) e \<and> (\<forall>bs rest. pb_decode_tag (stream_of (e @ bs) rest) = (False, Ok (pb_wire_type_val PB_WT_STRING, 5, stream_of bs rest)))"
    by - (elim conjE, erule (1) mp)
  then obtain e where e: "encodes (pb_encode_tag PB_WT_STRING 5) e" "pb_decode_tag (stream_of (e @ []) []) = (False, Ok (pb_wire_type_val PB_WT_STRING, 5, stream_of [] []))" by blast
  have "length [1, 2 :: u8] < 2 ^ 32" by simp
  with c have "\<exists>e. encodes (pb_encode_string [1, 2]) e \<and>
      (\<forall>bs rest. \<exists>s. pb_make_string_substream (stream_of (e @ bs) rest) = Ok (stream_of [1, 2] (bs @ rest), s) \<and>
        (\<forall>ys. pb_close_string_substream s (stream_of ys (bs @ rest)) = Ok (stream_of bs rest)))"
    by - (elim conjE, erule (1) mp)
  then obtain f where f: "encodes (pb_encode_string [1, 2]) f" "\<exists>s. pb_make_string_substream (stream_of (f @ [9]) []) = Ok (stream_of [1, 2] ([9] @ []), s)" by blast
  show ?thesis using e f by auto
qed

end
