(* ===== verification/Nanopb_Msg.thy ===== *)
theory Nanopb_Msg
  imports Nanopb
begin

unbundle bit_operations_syntax

text \<open>
  The message layer of \<open>lib/nanopb\<close>: field iteration of \<open>pb_common.c\<close>, \<open>pb_encode\<close> and
  \<open>pb_decode\<close>, for messages of the kinds the repository's \<open>.pb.h\<close> files declare: static
  singular fields of the scalar, string and byte kinds and callback fields, without default values,
  extensions or required fields.

  A message structure is the list of its fields' contents, in the order of the descriptor: the bytes
  of a static field, or the callback with the object its argument points at.  \<open>funcs\<close> is a union, so
  a callback has one function.  A callback that returns \<open>false\<close> without a message is
  \<open>Fail []\<close>.
\<close>

section \<open>Descriptors\<close>

datatype pb_ltype = PB_LTYPE_BOOL | PB_LTYPE_VARINT | PB_LTYPE_UVARINT | PB_LTYPE_SVARINT | PB_LTYPE_FIXED32
  | PB_LTYPE_FIXED64 | PB_LTYPE_BYTES | PB_LTYPE_STRING | PB_LTYPE_FIXED_LENGTH_BYTES

datatype pb_atype = PB_ATYPE_STATIC | PB_ATYPE_CALLBACK

record pb_field =
  tag :: u32
  atype :: pb_atype
  ltype :: pb_ltype
  data_size :: nat

record pb_msgdesc =
  field_info :: "pb_field list"
  field_callback :: bool

datatype pb_funcs = No_funcs
  | Encode "pb_field \<Rightarrow> u8 list \<Rightarrow> pb_ostream \<Rightarrow> pb_ostream pb"
  | Decode "u8 list \<Rightarrow> pb_istream \<Rightarrow> (u8 list \<times> pb_istream) pb"

datatype pb_slot = Data "u8 list" | Callback pb_funcs "u8 list"

section \<open>Field iteration\<close>

text \<open>\<open>advance_iterator\<close> on the index, and the loop of \<open>pb_field_iter_find\<close> that searches
  from an index to the one it started from.\<close>

definition advance_iterator :: "pb_field list \<Rightarrow> nat \<Rightarrow> nat" where
  "advance_iterator fs i = (if i + 1 \<ge> length fs then 0 else i + 1)"

function iter_find_loop :: "pb_field list \<Rightarrow> nat \<Rightarrow> nat \<Rightarrow> u32 \<Rightarrow> bool \<times> nat" where
  "iter_find_loop fs start i t =
     (if start \<ge> length fs then (False, start)
      else let i = advance_iterator fs i
        in if tag (fs ! i) = t then (True, i)
        else if i \<noteq> start then iter_find_loop fs start i t
        else (False, i))"
  by pat_completeness auto
termination by (relation "measure (\<lambda>(fs, start, i, _). if i < start then start - i else (length fs - i) + start + 1)")
  (auto simp: advance_iterator_def)

declare iter_find_loop.simps [simp del]

definition largest_tag :: "pb_field list \<Rightarrow> u32" where
  "largest_tag fs = foldr (\<lambda>f m. max (tag f) m) fs 0"

definition pb_field_iter_find :: "pb_field list \<Rightarrow> nat \<Rightarrow> u32 \<Rightarrow> bool \<times> nat" where
  "pb_field_iter_find fs i t =
     (if i < length fs \<and> tag (fs ! i) = t then (True, i)
      else if t > largest_tag fs then (False, i)
      else iter_find_loop fs i (if t < tag (fs ! i) then length fs else i) t)"

section \<open>Encoding\<close>

definition safe_read_bool :: "u8 list \<Rightarrow> bool" where
  "safe_read_bool bs \<longleftrightarrow> (\<exists>b\<in>set bs. b \<noteq> 0)"

text \<open>For a static singular field; the structure of a byte field starts with its 16 bit size.\<close>

definition bytes_size :: "u8 list \<Rightarrow> u16" where
  "bytes_size bs = le_value (take 2 bs)"

definition pb_check_proto3_default_value :: "pb_field \<Rightarrow> u8 list \<Rightarrow> bool" where
  "pb_check_proto3_default_value f bs \<longleftrightarrow> (case ltype f of
       PB_LTYPE_BYTES \<Rightarrow> bytes_size bs = 0
     | PB_LTYPE_STRING \<Rightarrow> take 1 bs = [0]
     | PB_LTYPE_FIXED_LENGTH_BYTES \<Rightarrow> data_size f = 0
     | _ \<Rightarrow> \<forall>b\<in>set bs. b = 0)"

definition pb_encode_tag_for_field :: "pb_field \<Rightarrow> pb_ostream \<Rightarrow> pb_ostream pb" where
  "pb_encode_tag_for_field f s = pb_encode_tag (case ltype f of
       PB_LTYPE_BOOL \<Rightarrow> PB_WT_VARINT | PB_LTYPE_VARINT \<Rightarrow> PB_WT_VARINT | PB_LTYPE_UVARINT \<Rightarrow> PB_WT_VARINT
     | PB_LTYPE_SVARINT \<Rightarrow> PB_WT_VARINT | PB_LTYPE_FIXED32 \<Rightarrow> PB_WT_32BIT | PB_LTYPE_FIXED64 \<Rightarrow> PB_WT_64BIT
     | _ \<Rightarrow> PB_WT_STRING) (tag f) s"

definition pb_enc_varint :: "pb_field \<Rightarrow> u8 list \<Rightarrow> pb_ostream \<Rightarrow> pb_ostream pb" where
  "pb_enc_varint f bs s =
     (if data_size f \<notin> {1, 2, 4, 8} then Fail ''invalid data_size''
      else if ltype f = PB_LTYPE_UVARINT then pb_encode_varint (le_value bs) s
      else let value = signed_take_bit (8 * data_size f - 1) (le_value bs)
        in if ltype f = PB_LTYPE_SVARINT then pb_encode_svarint value s else pb_encode_varint value s)"

definition pb_enc_fixed :: "pb_field \<Rightarrow> u8 list \<Rightarrow> pb_ostream \<Rightarrow> pb_ostream pb" where
  "pb_enc_fixed f bs s =
     (if data_size f = 4 then pb_encode_fixed32 (le_value bs) s
      else if data_size f = 8 then pb_encode_fixed64 (le_value bs) s
      else Fail ''invalid data_size'')"

definition pb_enc_bytes :: "pb_field \<Rightarrow> u8 list \<Rightarrow> pb_ostream \<Rightarrow> pb_ostream pb" where
  "pb_enc_bytes f bs s =
     (if unat (bytes_size bs) > data_size f - 2 then Fail ''bytes size exceeded''
      else pb_encode_string (take (unat (bytes_size bs)) (drop 2 bs)) s)"

definition pb_enc_string :: "pb_field \<Rightarrow> u8 list \<Rightarrow> pb_ostream \<Rightarrow> pb_ostream pb" where
  "pb_enc_string f bs s =
     (if data_size f = 0 then Fail ''zero-length string''
      else let str = takeWhile (\<lambda>c. c \<noteq> 0) (take (data_size f - 1) bs)
        in if take 1 (drop (length str) bs) \<noteq> [0] then Fail ''unterminated string''
        else pb_encode_string str s)"

definition encode_basic_field :: "pb_field \<Rightarrow> u8 list \<Rightarrow> pb_ostream \<Rightarrow> pb_ostream pb" where
  "encode_basic_field f bs s = pb_bind (pb_encode_tag_for_field f s)
     (case ltype f of PB_LTYPE_BOOL \<Rightarrow> pb_encode_varint (if safe_read_bool bs then 1 else 0)
      | PB_LTYPE_VARINT \<Rightarrow> pb_enc_varint f bs | PB_LTYPE_UVARINT \<Rightarrow> pb_enc_varint f bs | PB_LTYPE_SVARINT \<Rightarrow> pb_enc_varint f bs
      | PB_LTYPE_FIXED32 \<Rightarrow> pb_enc_fixed f bs | PB_LTYPE_FIXED64 \<Rightarrow> pb_enc_fixed f bs
      | PB_LTYPE_BYTES \<Rightarrow> pb_enc_bytes f bs | PB_LTYPE_STRING \<Rightarrow> pb_enc_string f bs
      | PB_LTYPE_FIXED_LENGTH_BYTES \<Rightarrow> pb_encode_string bs)"

text \<open>\<open>pb_default_field_callback\<close> in the direction of encoding; a function of the other direction in
  the union is called with the wrong arguments.\<close>

fun encode_callback :: "pb_funcs \<Rightarrow> pb_field \<Rightarrow> u8 list \<Rightarrow> pb_ostream \<Rightarrow> pb_ostream pb" where
  "encode_callback No_funcs f arg s = Ok s"
| "encode_callback (Encode e) f arg s = e f arg s"
| "encode_callback (Decode d) f arg s = Fault"

definition encode_callback_field :: "bool \<Rightarrow> pb_funcs \<Rightarrow> pb_field \<Rightarrow> u8 list \<Rightarrow> pb_ostream \<Rightarrow> pb_ostream pb" where
  "encode_callback_field cb fn f arg s =
     (if cb then (case encode_callback fn f arg s of Fail e \<Rightarrow> Fail (if e = [] then ''callback error'' else e) | r \<Rightarrow> r)
      else Ok s)"

fun encode_field :: "bool \<Rightarrow> pb_field \<Rightarrow> pb_slot \<Rightarrow> pb_ostream \<Rightarrow> pb_ostream pb" where
  "encode_field cb f (Data bs) s = (if pb_check_proto3_default_value f bs then Ok s else encode_basic_field f bs s)"
| "encode_field cb f (Callback fn arg) s = encode_callback_field cb fn f arg s"

fun encode_fields :: "bool \<Rightarrow> pb_field list \<Rightarrow> pb_slot list \<Rightarrow> pb_ostream \<Rightarrow> pb_ostream pb" where
  "encode_fields cb (f # fs) (v # vs) s = pb_bind (encode_field cb f v s) (encode_fields cb fs vs)"
| "encode_fields cb _ _ s = Ok s"

definition pb_encode :: "pb_msgdesc \<Rightarrow> pb_slot list \<Rightarrow> pb_ostream \<Rightarrow> pb_ostream pb" where
  "pb_encode d m s = encode_fields (field_callback d) (field_info d) m s"

section \<open>Decoding\<close>

definition store_le :: "nat \<Rightarrow> u64 \<Rightarrow> u8 list" where
  "store_le n v = map (\<lambda>i. ucast (drop_bit (8 * i) v)) [0..<n]"

definition pb_dec_varint :: "pb_field \<Rightarrow> pb_istream \<Rightarrow> (u8 list \<times> pb_istream) pb" where
  "pb_dec_varint f s =
     (let n = data_size f
      in if ltype f = PB_LTYPE_UVARINT
      then pb_bind (pb_decode_varint s) (\<lambda>(value, s).
        if n \<notin> {1, 2, 4, 8} then Fail ''invalid data_size''
        else if take_bit (8 * n) value \<noteq> value then Fail ''integer too large''
        else Ok (store_le n value, s))
      else pb_bind (if ltype f = PB_LTYPE_SVARINT then pb_decode_svarint s
          else pb_bind (pb_decode_varint s) (\<lambda>(value, s). Ok (if n = 8 then value else signed_take_bit 31 value, s)))
        (\<lambda>(svalue, s).
          if n \<notin> {1, 2, 4, 8} then Fail ''invalid data_size''
          else if signed_take_bit (8 * n - 1) svalue \<noteq> svalue then Fail ''integer too large''
          else Ok (store_le n svalue, s)))"

text \<open>\<open>pb_size_t\<close> has 16 bits and \<open>size_t\<close> 64, so the sums for the allocation do not wrap.\<close>

definition pb_dec_bytes :: "pb_field \<Rightarrow> u8 list \<Rightarrow> pb_istream \<Rightarrow> (u8 list \<times> pb_istream) pb" where
  "pb_dec_bytes f bs s = pb_bind (pb_decode_varint32 s) (\<lambda>(size, s).
     if unat size > 65535 \<or> unat size + 2 > data_size f then Fail ''bytes overflow''
     else pb_bind (pb_read (unat size) s) (\<lambda>(xs, s). Ok (store_le 2 (ucast size) @ xs @ drop (unat size + 2) bs, s)))"

definition pb_dec_string :: "pb_field \<Rightarrow> u8 list \<Rightarrow> pb_istream \<Rightarrow> (u8 list \<times> pb_istream) pb" where
  "pb_dec_string f bs s = pb_bind (pb_decode_varint32 s) (\<lambda>(size, s).
     if size = - 1 then Fail ''size too large''
     else if unat size + 1 > data_size f then Fail ''string overflow''
     else pb_bind (pb_read (unat size) s) (\<lambda>(xs, s). Ok (xs @ [0] @ drop (unat size + 1) bs, s)))"

definition pb_dec_fixed_length_bytes :: "pb_field \<Rightarrow> u8 list \<Rightarrow> pb_istream \<Rightarrow> (u8 list \<times> pb_istream) pb" where
  "pb_dec_fixed_length_bytes f bs s = pb_bind (pb_decode_varint32 s) (\<lambda>(size, s).
     if unat size > 65535 then Fail ''bytes overflow''
     else if size = 0 then Ok (replicate (length bs) 0, s)
     else if unat size \<noteq> data_size f then Fail ''incorrect fixed length bytes size''
     else pb_read (data_size f) s)"

text \<open>Four bytes are stored through a \<open>uint32_t*\<close>, eight through a \<open>uint64_t*\<close>.  The wire type
  \<open>PB_WT_PACKED\<close> is passed for the elements of packed arrays only.\<close>

definition decode_basic_field :: "nat \<Rightarrow> pb_field \<Rightarrow> u8 list \<Rightarrow> pb_istream \<Rightarrow> (u8 list \<times> pb_istream) pb" where
  "decode_basic_field wt f bs s =
     (case ltype f of
        PB_LTYPE_BOOL \<Rightarrow> if wt \<noteq> 0 then Fail ''wrong wire type''
          else pb_bind (pb_decode_bool s) (\<lambda>(b, s). Ok ([if b then 1 else 0], s))
      | PB_LTYPE_FIXED32 \<Rightarrow> if wt \<noteq> 5 then Fail ''wrong wire type''
          else pb_bind (pb_decode_fixed32 s) (\<lambda>(v, s). Ok (store_le 4 (ucast v), s))
      | PB_LTYPE_FIXED64 \<Rightarrow> if wt \<noteq> 1 then Fail ''wrong wire type''
          else pb_bind (pb_decode_fixed64 s) (\<lambda>(v, s). Ok (store_le 8 v, s))
      | PB_LTYPE_BYTES \<Rightarrow> if wt \<noteq> 2 then Fail ''wrong wire type'' else pb_dec_bytes f bs s
      | PB_LTYPE_STRING \<Rightarrow> if wt \<noteq> 2 then Fail ''wrong wire type'' else pb_dec_string f bs s
      | PB_LTYPE_FIXED_LENGTH_BYTES \<Rightarrow> if wt \<noteq> 2 then Fail ''wrong wire type'' else pb_dec_fixed_length_bytes f bs s
      | _ \<Rightarrow> if wt \<noteq> 0 then Fail ''wrong wire type'' else pb_dec_varint f s)"

fun decode_callback :: "pb_funcs \<Rightarrow> u8 list \<Rightarrow> pb_istream \<Rightarrow> (u8 list \<times> pb_istream) pb" where
  "decode_callback No_funcs arg s = Ok (arg, s)"
| "decode_callback (Decode d) arg s = d arg s"
| "decode_callback (Encode e) arg s = Fault"

function callback_loop :: "pb_funcs \<Rightarrow> u8 list \<Rightarrow> pb_istream \<Rightarrow> (u8 list \<times> pb_istream) pb" where
  "callback_loop fn arg sub =
     (case decode_callback fn arg sub of Fault \<Rightarrow> Fault
      | Fail e \<Rightarrow> Fail (if e = [] then ''callback failed'' else e)
      | Ok (arg, t) \<Rightarrow> if bytes_left t > 0 \<and> bytes_left t < bytes_left sub then callback_loop fn arg t else Ok (arg, t))"
  by pat_completeness auto
termination by (relation "measure (\<lambda>(_, _, s). bytes_left s)") auto

declare callback_loop.simps [simp del]

definition decode_callback_field :: "bool \<Rightarrow> nat \<Rightarrow> pb_funcs \<Rightarrow> u8 list \<Rightarrow> pb_istream \<Rightarrow> (u8 list \<times> pb_istream) pb" where
  "decode_callback_field cb wt fn arg s =
     (if \<not> cb then pb_bind (pb_skip_field wt s) (\<lambda>s. Ok (arg, s))
      else if wt = 2 then pb_bind (pb_make_string_substream s) (\<lambda>(sub, s).
        pb_bind (callback_loop fn arg sub) (\<lambda>(arg, sub).
        pb_bind (pb_close_string_substream s sub) (\<lambda>s. Ok (arg, s))))
      else pb_bind (read_raw_value wt 10 s) (\<lambda>(raw, s).
        case decode_callback fn arg (pb_istream_from_buffer raw (length raw)) of Fault \<Rightarrow> Fault | Fail _ \<Rightarrow> Fail []
        | Ok (arg, _) \<Rightarrow> Ok (arg, s)))"

fun decode_field :: "bool \<Rightarrow> nat \<Rightarrow> pb_field \<Rightarrow> pb_slot \<Rightarrow> pb_istream \<Rightarrow> (pb_slot \<times> pb_istream) pb" where
  "decode_field cb wt f (Data bs) s = pb_bind (decode_basic_field wt f bs s) (\<lambda>(bs, s). Ok (Data bs, s))"
| "decode_field cb wt f (Callback fn arg) s =
     pb_bind (decode_callback_field cb wt fn arg s) (\<lambda>(arg, s). Ok (Callback fn arg, s))"

fun pb_field_set_to_default :: "pb_slot \<Rightarrow> pb_slot" where
  "pb_field_set_to_default (Data bs) = Data (replicate (length bs) 0)"
| "pb_field_set_to_default (Callback fn arg) = Callback fn arg"

definition pb_message_set_to_defaults :: "pb_slot list \<Rightarrow> pb_slot list" where
  "pb_message_set_to_defaults m = map pb_field_set_to_default m"

section \<open>The decoding loop\<close>

lemma left_read: "pb_read n s = Ok (bs, t) \<Longrightarrow> bytes_left t \<le> bytes_left s"
  by (auto simp: pb_read_def buf_read_def split: if_splits)

lemma left_varint: "varint_loop b r s = Ok (v, t) \<Longrightarrow> bytes_left t < bytes_left s"
proof (induction b r s rule: varint_loop.induct)
  case (1 b r s)
  obtain c u where c: "pb_readbyte s = Ok (c, u)" using 1(2) by (subst (asm) varint_loop.simps) (auto split: pb.splits)
  have "bytes_left u < bytes_left s" using pb_readbyte_left [OF c] .
  moreover have "bytes_left t \<le> bytes_left u"
    using 1(1) [OF c] 1(2) c by (subst (asm) (2) varint_loop.simps) (fastforce simp: Let_def split: if_splits)
  ultimately show ?case by simp
qed

lemma left_varint32_loop: "varint32_loop b r s = Ok (v, t) \<Longrightarrow> bytes_left t < bytes_left s"
proof (induction b r s rule: varint32_loop.induct)
  case (1 b r s)
  obtain c u where c: "pb_readbyte s = Ok (c, u)" using 1(2) by (subst (asm) varint32_loop.simps) (auto split: pb.splits)
  have "bytes_left u < bytes_left s" using pb_readbyte_left [OF c] .
  moreover have "bytes_left t \<le> bytes_left u"
    using 1(1) [OF c] 1(2) c by (subst (asm) (2) varint32_loop.simps) (fastforce simp: Let_def split: if_splits)
  ultimately show ?case by simp
qed

lemma left_varint32: "pb_decode_varint32 s = Ok (v, t) \<Longrightarrow> bytes_left t < bytes_left s"
  by (auto simp: pb_decode_varint32_def pb_decode_varint32_eof_def pb_bind_Ok_iff split: if_splits
      dest!: pb_readbyte_left left_varint32_loop)

lemma left_tag: "snd (pb_decode_tag s) = Ok (wt, n, t) \<Longrightarrow> bytes_left t < bytes_left s"
  using left_varint32 by (auto simp: pb_decode_tag_def pb_decode_varint32_def pb_bind_Ok_iff split: prod.splits)

lemma left_skip_varint: "pb_skip_varint s = Ok t \<Longrightarrow> bytes_left t \<le> bytes_left s"
proof (induction s rule: pb_skip_varint.induct)
  case (1 s)
  obtain c u where c: "pb_read 1 s = Ok (c, u)" using 1(2) by (subst (asm) pb_skip_varint.simps) (auto split: pb.splits)
  have "bytes_left t \<le> bytes_left u"
    using 1(1) [OF c] 1(2) c by (subst (asm) (2) pb_skip_varint.simps) (auto split: if_splits)
  then show ?case using left_read [OF c] by simp
qed

lemma left_skip: "pb_skip_field wt s = Ok t \<Longrightarrow> bytes_left t \<le> bytes_left s"
  by (auto simp: pb_skip_field_def pb_skip_string_def pb_bind_Ok_iff split: if_splits
      dest: left_skip_varint left_read left_varint32 le_less_trans [OF left_read left_varint32, THEN less_imp_le])

lemma left_raw: "raw_varint n m s = Ok (bs, t) \<Longrightarrow> bytes_left t \<le> bytes_left s"
proof (induction n m s arbitrary: bs rule: raw_varint.induct)
  case (1 n m s)
  obtain c u where c: "\<not> m < n + 1" "pb_read 1 s = Ok (c, u)" using 1(2) by (subst (asm) raw_varint.simps) (auto split: pb.splits if_splits)
  have "bytes_left t \<le> bytes_left u"
    using 1(1) [OF c] 1(2) c by (subst (asm) (2) raw_varint.simps) (auto simp: pb_bind_Ok_iff split: if_splits)
  then show ?case using left_read [OF c(2)] by simp
qed

lemma left_raw_value: "read_raw_value wt n s = Ok (bs, t) \<Longrightarrow> bytes_left t \<le> bytes_left s"
  by (auto simp: read_raw_value_def split: if_splits dest: left_raw left_read)

lemma left_substream: "pb_make_string_substream s = Ok (sub, t) \<Longrightarrow> bytes_left t \<le> bytes_left s"
  by (auto simp: pb_make_string_substream_def pb_bind_Ok_iff split: if_splits dest!: left_varint32)

lemma left_close: "pb_close_string_substream s sub = Ok t \<Longrightarrow> bytes_left t = bytes_left s"
  by (auto simp: pb_close_string_substream_def pb_bind_Ok_iff)

lemma left_callback:
  assumes "decode_callback_field cb wt fn arg s = Ok (arg', t)"
  shows "bytes_left t \<le> bytes_left s"
proof (cases "cb \<and> wt \<noteq> 2")
  case True
  then obtain raw u where r: "read_raw_value wt 10 s = Ok (raw, u)"
    using assms by (auto simp: decode_callback_field_def pb_bind_Ok_iff)
  then have "t = u" using assms True
    by (cases "decode_callback fn arg (pb_istream_from_buffer raw (length raw))") (auto simp: decode_callback_field_def)
  then show ?thesis using left_raw_value [OF r] by simp
qed (use assms in \<open>cases cb; auto simp: decode_callback_field_def pb_bind_Ok_iff dest!: left_skip left_substream left_close\<close>)

lemma left_dec_varint: "pb_dec_varint f s = Ok (bs, t) \<Longrightarrow> bytes_left t < bytes_left s"
  by (auto simp: pb_dec_varint_def pb_decode_svarint_def pb_decode_varint_def Let_def pb_bind_Ok_iff
      split: if_splits dest!: left_varint)

lemma left_dec_text:
  "pb_dec_bytes f bs s = Ok (cs, t) \<Longrightarrow> bytes_left t \<le> bytes_left s"
  "pb_dec_string f bs s = Ok (cs, t) \<Longrightarrow> bytes_left t \<le> bytes_left s"
  "pb_dec_fixed_length_bytes f bs s = Ok (cs, t) \<Longrightarrow> bytes_left t \<le> bytes_left s"
  by (auto simp: pb_dec_bytes_def pb_dec_string_def pb_dec_fixed_length_bytes_def pb_bind_Ok_iff
      split: if_splits dest!: left_varint32 left_read)

lemma left_basic: "decode_basic_field wt f cs s = Ok (bs, t) \<Longrightarrow> bytes_left t \<le> bytes_left s"
  by (auto simp: decode_basic_field_def pb_decode_bool_def pb_decode_fixed32_def pb_decode_fixed64_def pb_bind_Ok_iff
      split: pb_ltype.splits if_splits dest!: left_varint32 left_read left_dec_varint left_dec_text)

lemma left_field: "decode_field cb wt f v s = Ok (v', t) \<Longrightarrow> bytes_left t \<le> bytes_left s"
  by (cases v) (auto simp: pb_bind_Ok_iff dest!: left_basic left_callback)

text \<open>The tag flag is never raised inside the loop, which runs while bytes are left.\<close>

function decode_loop :: "pb_msgdesc \<Rightarrow> nat \<Rightarrow> pb_slot list \<Rightarrow> pb_istream \<Rightarrow> (pb_slot list \<times> pb_istream) pb" where
  "decode_loop d i m s =
     (if bytes_left s = 0 then Ok (m, s)
      else case pb_decode_tag s of
        (eof, Fault) \<Rightarrow> Fault
      | (eof, Fail e) \<Rightarrow> if eof then Ok (m, s) else Fail e
      | (_, Ok (wt, t, u)) \<Rightarrow>
          if t = 0 then Fail ''zero tag''
          else let (found, j) = pb_field_iter_find (field_info d) i t
            in if \<not> found then (case pb_skip_field wt u of Fault \<Rightarrow> Fault | Fail e \<Rightarrow> Fail e | Ok s' \<Rightarrow> decode_loop d j m s')
            else if j < length m
            then (case decode_field (field_callback d) wt (field_info d ! j) (m ! j) u of Fault \<Rightarrow> Fault | Fail e \<Rightarrow> Fail e
              | Ok (v, s') \<Rightarrow> decode_loop d j (m[j := v]) s')
            else Fault)"
  by pat_completeness auto
termination
proof (relation "measure (\<lambda>(_, _, _, s). bytes_left s)", simp)
  fix d :: pb_msgdesc and i :: nat and m :: "pb_slot list" and s :: pb_istream and y z x wt x' t u p found j s'
  assume a: "(y, z) = pb_decode_tag s" "z = Ok x" "(wt, x') = x" "(t, u) = x'"
  then have l: "bytes_left u < bytes_left s" using left_tag [of s wt t u] by (metis snd_conv)
  {
    assume "pb_skip_field wt u = Ok s'"
    then show "((d, j, m, s'), d, i, m, s) \<in> measure (\<lambda>(_, _, _, s). bytes_left s)"
      using l left_skip [of wt u s'] by simp
  }
next
  fix d :: pb_msgdesc and i :: nat and m :: "pb_slot list" and s :: pb_istream and y z x wt x' t u p found j r v s'
  assume a: "(y, z) = pb_decode_tag s" "z = Ok x" "(wt, x') = x" "(t, u) = x'"
  then have l: "bytes_left u < bytes_left s" using left_tag [of s wt t u] by (metis snd_conv)
  {
    assume "decode_field (field_callback d) wt (field_info d ! j) (m ! j) u = Ok r" "(v, s') = r"
    then have "bytes_left s' \<le> bytes_left u" using left_field by metis
    then show "((d, j, m[j := v], s'), d, i, m, s) \<in> measure (\<lambda>(_, _, _, s). bytes_left s)" using l by simp
  }
qed

declare decode_loop.simps [simp del]

definition pb_decode_inner :: "pb_msgdesc \<Rightarrow> pb_slot list \<Rightarrow> pb_istream \<Rightarrow> (pb_slot list \<times> pb_istream) pb" where
  "pb_decode_inner d m s = decode_loop d 0 (pb_message_set_to_defaults m) s"

definition pb_decode :: "pb_msgdesc \<Rightarrow> pb_slot list \<Rightarrow> pb_istream \<Rightarrow> (pb_slot list \<times> pb_istream) pb" where
  "pb_decode d m s = pb_decode_inner d m s"

section \<open>Finding a field\<close>

lemma tag_le_largest: "f \<in> set fs \<Longrightarrow> tag f \<le> largest_tag fs"
  by (induction fs) (auto simp: largest_tag_def max_def intro: order_trans le_cases)

text \<open>The indices still to be visited.\<close>

definition to_visit :: "pb_field list \<Rightarrow> nat \<Rightarrow> nat \<Rightarrow> nat set" where
  "to_visit fs start i = (if i < start then {i<..start} else {i<..<length fs} \<union> {..start})"

lemma iter_find_loop_spec:
  assumes "start < length fs" "distinct (map tag fs)"
  shows "iter_find_loop fs start i t =
    (if \<exists>j\<in>to_visit fs start i. tag (fs ! j) = t then (True, THE j. j < length fs \<and> tag (fs ! j) = t) else (False, start))"
  using assms
proof (induction fs start i t rule: iter_find_loop.induct)
  case (1 fs start i t)
  define k where "k = advance_iterator fs i"
  have k: "k < length fs" "k \<in> to_visit fs start i" using 1(2) by (auto simp: k_def advance_iterator_def to_visit_def)
  have u: "(THE j. j < length fs \<and> tag (fs ! j) = t) = j" if "j < length fs" "tag (fs ! j) = t" for j
    using that 1(3) by (intro the_equality) (auto simp: distinct_conv_nth)
  show ?case
  proof (cases "tag (fs ! k) = t")
    case True
    then show ?thesis using 1(2) k u by (subst iter_find_loop.simps) (auto simp: k_def Let_def)
  next
    case False
    show ?thesis
    proof (cases "k = start")
      case True
      then have "\<not> (\<exists>j\<in>to_visit fs start i. tag (fs ! j) = t)"
        using False 1(2) by (auto simp: k_def advance_iterator_def to_visit_def split: if_splits) (metis le_antisym less_Suc_eq_le not_less_eq)+
      then show ?thesis using True False 1(2) by (subst iter_find_loop.simps) (auto simp: k_def Let_def)
    next
      case n: False
      have "to_visit fs start i = insert k (to_visit fs start k)"
        using 1(2) n by (auto simp: k_def advance_iterator_def to_visit_def split: if_splits)
      then have "(\<exists>j\<in>to_visit fs start i. tag (fs ! j) = t) = (\<exists>j\<in>to_visit fs start k. tag (fs ! j) = t)"
        using False by auto
      then show ?thesis using 1(1) [OF _ k_def False n] 1(2,3) False n
        by (subst iter_find_loop.simps) (simp add: k_def [symmetric] Let_def)
    qed
  qed
qed

lemma iter_find_hit:
  assumes "i < length fs" "sorted_wrt (<) (map tag fs)" and j: "j < length fs" "tag (fs ! j) = t"
  shows "pb_field_iter_find fs i t = (True, j)"
proof (cases "j = i")
  case False
  have dist: "distinct (map tag fs)" using assms(2) strict_sorted_iff by blast
  have mono: "tag (fs ! a) < tag (fs ! b)" if "a < b" "b < length fs" for a b
    using assms(2) that by (simp add: sorted_wrt_iff_nth_less)
  define p where "p = (if t < tag (fs ! i) then length fs else i)"
  have "t \<le> largest_tag fs" using tag_le_largest j by (metis nth_mem)
  moreover have "tag (fs ! i) \<noteq> t" using dist False j assms(1) by (auto simp: distinct_conv_nth)
  moreover have "j \<in> to_visit fs i p"
  proof (cases "t < tag (fs ! i)")
    case True
    have "j < i" using True j mono [of i j] False by (metis linorder_neqE_nat order_less_asym)
    then show ?thesis using True assms(1) by (simp add: p_def to_visit_def)
  qed (use j False in \<open>auto simp: p_def to_visit_def\<close>)
  moreover have "(THE j. j < length fs \<and> tag (fs ! j) = t) = j"
    using j dist by (intro the_equality) (auto simp: distinct_conv_nth)
  ultimately show ?thesis using iter_find_loop_spec [OF assms(1) dist, of p t] j(2)
    by (auto simp: pb_field_iter_find_def p_def [symmetric])
qed (use j assms(1) in \<open>simp add: pb_field_iter_find_def\<close>)

lemma iter_find_miss:
  assumes "i < length fs" "distinct (map tag fs)" "t \<notin> tag ` set fs"
  shows "pb_field_iter_find fs i t = (False, i)"
proof -
  define p where "p = (if t < tag (fs ! i) then length fs else i)"
  have n: "tag (fs ! j) \<noteq> t" if "j < length fs" for j using assms(3) that by force
  moreover have "to_visit fs i p \<subseteq> {..<length fs}" using assms(1) by (auto simp: to_visit_def p_def)
  ultimately have "\<not> (\<exists>j\<in>to_visit fs i p. tag (fs ! j) = t)" by blast
  then show ?thesis using iter_find_loop_spec [OF assms(1,2), of p t] assms(1) n
    by (auto simp: pb_field_iter_find_def p_def [symmetric])
qed

text \<open>C35.  Field lookup: on a descriptor with increasing tags, from whatever field the iterator stands on,
  the search that starts there and wraps around finds the field with the given tag if there is one
  and otherwise stays where it was.\<close>

theorem pb_field_iter_find_correct:
  assumes "i < length fs" "sorted_wrt (<) (map tag fs)"
  shows "(\<forall>j<length fs. tag (fs ! j) = t \<longrightarrow> pb_field_iter_find fs i t = (True, j)) \<and>
    (t \<notin> tag ` set fs \<longrightarrow> pb_field_iter_find fs i t = (False, i))"
  using iter_find_hit [OF assms] iter_find_miss [OF assms(1)] assms(2) strict_sorted_iff by blast

definition int32_field :: "u32 \<Rightarrow> pb_field" where
  "int32_field t = \<lparr>tag = t, atype = PB_ATYPE_STATIC, ltype = PB_LTYPE_VARINT, data_size = 4\<rparr>"

definition string_callback :: "u32 \<Rightarrow> pb_field" where
  "string_callback t = \<lparr>tag = t, atype = PB_ATYPE_CALLBACK, ltype = PB_LTYPE_STRING, data_size = 16\<rparr>"

theorem pb_field_iter_find_correct_witness:
  "pb_field_iter_find [int32_field 1, string_callback 2, string_callback 3] 2 1 = (True, 0)"
proof -
  let ?fs = "[int32_field 1, string_callback 2, string_callback 3]"
  have "2 < length ?fs" "sorted_wrt (<) (map tag ?fs)" "tag (?fs ! 0) = 1"
    by (simp_all add: int32_field_def string_callback_def)
  then show ?thesis using pb_field_iter_find_correct [of 2 ?fs 1] by simp
qed

section \<open>Messages round-trip\<close>

lemma all_less_two: "(\<forall>k<Suc (Suc 0). P k) \<longleftrightarrow> P 0 \<and> P 1"
  by (auto simp: less_Suc_eq)


lemma bit_le_value: "bit (le_value bs :: 'a::len word) n \<longleftrightarrow> n < LENGTH('a) \<and> n div 8 < length bs \<and> bit (bs ! (n div 8)) (n mod 8)"
proof (induction bs arbitrary: n)
  case (Cons b bs)
  show ?case
  proof (cases "n < 8")
    case True
    then show ?thesis by (simp only: le_value_step) simp
  next
    case False
    then have "n div 8 = Suc ((n - 8) div 8)" "n mod 8 = (n - 8) mod 8" by (simp_all add: le_div_geq le_mod_geq)
    then show ?thesis using False Cons [of "n - 8"] by (simp only: le_value_step) auto
  qed
qed simp

lemma store_le_value:
  assumes "length bs = n" "n \<le> 8" "\<And>k. k < 8 * n \<Longrightarrow> bit v k = bit (le_value bs :: u64) k"
  shows "store_le n v = bs"
proof (rule nth_equalityI)
  show "length (store_le n v) = length bs" using assms(1) by (simp add: store_le_def)
  fix i assume "i < length (store_le n v)"
  then have i: "i < n" by (simp add: store_le_def)
  have "bit (ucast (drop_bit (8 * i) v) :: u8) k = bit (bs ! i) k" if "k < 8" for k
  proof -
    have "8 * i + k < 8 * n" "8 * i + k < 64" "(8 * i + k) div 8 = i" "(8 * i + k) mod 8 = k" using that i assms(2) by auto
    then show ?thesis using that i assms(1,3) by (simp add: bit_simps bit_le_value)
  qed
  then have "ucast (drop_bit (8 * i) v) = bs ! i" by (intro bit_word_eqI) simp
  then show "store_le n v ! i = bs ! i" using i by (simp add: store_le_def)
qed

definition int32_value :: "u8 list \<Rightarrow> u64" where
  "int32_value bs = signed_take_bit 31 (le_value bs)"

lemma int32_encodes:
  assumes "ltype f = PB_LTYPE_VARINT" "data_size f = 4"
  shows "encodes (encode_basic_field f bs) (tag_bytes PB_WT_VARINT (tag f) @ leb (unat (int32_value bs)))"
proof -
  have "pb_enc_varint f bs = pb_encode_varint (int32_value bs)" using assms by (auto simp: pb_enc_varint_def int32_value_def)
  moreover have "pb_encode_tag_for_field f = pb_encode_tag PB_WT_VARINT (tag f)" using assms by (auto simp: pb_encode_tag_for_field_def)
  ultimately have "encode_basic_field f bs = (\<lambda>s. pb_bind (pb_encode_tag PB_WT_VARINT (tag f) s) (pb_encode_varint (int32_value bs)))"
    using assms(1) by (auto simp: encode_basic_field_def)
  then show ?thesis using encodes_bind [OF encodes_tag encodes_varint] by simp
qed

lemma int32_decodes:
  assumes "ltype f = PB_LTYPE_VARINT" "data_size f = 4" "length bs = 4"
  shows "decode_basic_field 0 f cs (stream_of (leb (unat (int32_value bs)) @ xs) rest) = Ok (bs, stream_of xs rest)"
proof -
  have "pb_decode_varint (stream_of (leb (unat (int32_value bs)) @ xs) rest) = Ok (int32_value bs, stream_of xs rest)"
    using pb_decode_varint_leb [of "unat (int32_value bs)"] unsigned_less [of "int32_value bs", where ?'a = nat] by simp
  moreover have "signed_take_bit 31 (int32_value bs) = int32_value bs" by (simp add: int32_value_def)
  moreover have "store_le 4 (int32_value bs) = bs"
    by (rule store_le_value) (use assms(3) in \<open>auto simp: int32_value_def bit_simps\<close>)
  ultimately show ?thesis using assms(1,2) by (simp add: decode_basic_field_def pb_dec_varint_def Let_def)
qed

text \<open>The bytes of a field in a message: nothing for a zero.\<close>

definition int32_bytes :: "pb_field \<Rightarrow> u8 list \<Rightarrow> u8 list" where
  "int32_bytes f bs = (if \<forall>b\<in>set bs. b = 0 then [] else tag_bytes PB_WT_VARINT (tag f) @ leb (unat (int32_value bs)))"

definition text_bytes :: "pb_field \<Rightarrow> u8 list \<Rightarrow> u8 list" where
  "text_bytes f x = tag_bytes PB_WT_STRING (tag f) @ string_bytes x"

text \<open>A field that the sender holds as \<open>v\<close>, that has the given bytes, and that the receiver, whose
  structure holds \<open>w\<close>, ends up with as \<open>w'\<close>.\<close>

inductive field_trip :: "pb_field \<Rightarrow> pb_slot \<Rightarrow> pb_slot \<Rightarrow> pb_slot \<Rightarrow> u8 list \<Rightarrow> bool" where
  trip_int32: "ltype f = PB_LTYPE_VARINT \<Longrightarrow> data_size f = 4 \<Longrightarrow> length bs = 4 \<Longrightarrow> length cs = 4 \<Longrightarrow>
    field_trip f (Data bs) (Data cs) (Data bs) (int32_bytes f bs)"
| trip_static_string: "ltype f = PB_LTYPE_STRING \<Longrightarrow> data_size f = length bs \<Longrightarrow> length cs = length bs \<Longrightarrow>
    bs = x @ 0 # pad \<Longrightarrow> 0 \<notin> set x \<Longrightarrow> length bs < 2 ^ 32 \<Longrightarrow>
    field_trip f (Data bs) (Data cs) (Data (x @ 0 # replicate (length pad) 0)) (if x = [] then [] else text_bytes f x)"
| trip_bytes: "ltype f = PB_LTYPE_BYTES \<Longrightarrow> data_size f = length bs \<Longrightarrow> length cs = length bs \<Longrightarrow>
    bs = [b0, b1] @ x @ pad \<Longrightarrow> unat (bytes_size bs) = length x \<Longrightarrow>
    field_trip f (Data bs) (Data cs) (Data ([b0, b1] @ x @ replicate (length pad) 0)) (if x = [] then [] else text_bytes f x)"
| trip_string: "encodes (e f arg) (text_bytes f x) \<Longrightarrow> length x < 2 ^ 32 \<Longrightarrow>
    (\<And>rest. g dest (stream_of x rest) = Ok (dest', stream_of [] rest)) \<Longrightarrow>
    field_trip f (Callback (Encode e) arg) (Callback (Decode g) dest) (Callback (Decode g) dest') (text_bytes f x)"

lemma string_decodes:
  assumes "length x < 2 ^ 32" "\<And>rest. g dest (stream_of x rest) = Ok (dest', stream_of [] rest)"
  shows "decode_callback_field True 2 (Decode g) dest (stream_of (string_bytes x @ xs) rest) = Ok (dest', stream_of xs rest)"
proof -
  have "callback_loop (Decode g) dest (stream_of x (xs @ rest)) = Ok (dest', stream_of [] (xs @ rest))"
    by (subst callback_loop.simps) (simp add: assms(2), simp add: stream_of_def)
  then show ?thesis using substream [OF assms(1), of xs rest] close_substream [of "x @ xs @ rest" xs "[]" rest]
    by (simp add: decode_callback_field_def)
qed

lemma encodes_callback:
  assumes "encodes (e f arg) bs"
  shows "encodes (encode_field True f (Callback (Encode e) arg)) bs"
proof -
  have "encode_field True f (Callback (Encode e) arg) s = e f arg s" if "ok_os s" "bytes_written s + length bs < 2 ^ 64" for s
    using assms that by (simp add: encodes_def encode_callback_field_def del: power_numeral)
  then show ?thesis using assms by (simp add: encodes_def del: encode_field.simps power_numeral)
qed

lemma decode_loop_field:
  assumes "sorted_wrt (<) (map tag (field_info d))" "i < length (field_info d)" "j < length (field_info d)"
    "j < length m" "unat (tag (field_info d ! j)) < 2 ^ 29" "tag (field_info d ! j) \<noteq> 0"
    "decode_field (field_callback d) (pb_wire_type_val wt) (field_info d ! j) (m ! j) (stream_of (bs @ xs) rest) = Ok (w', stream_of xs rest)"
  shows "decode_loop d i m (stream_of (tag_bytes wt (tag (field_info d ! j)) @ bs @ xs) rest) =
    decode_loop d j (m[j := w']) (stream_of xs rest)"
proof -
  have "tag_bytes wt t \<noteq> []" for t unfolding tag_bytes_def using leb_first by (metis list.distinct(1))
  then have "bytes_left (stream_of (tag_bytes wt (tag (field_info d ! j)) @ bs @ xs) rest) \<noteq> 0" by (simp add: stream_of_def)
  moreover note decode_tag [OF assms(5), of wt "bs @ xs" rest] iter_find_hit [OF assms(2,1,3) refl]
  ultimately show ?thesis using assms(4,6,7) by (subst decode_loop.simps) simp
qed

lemma encodes_fields:
  assumes "list_all2 (\<lambda>(f, v) bs. encodes (encode_field cb f v) bs) (zip fs vs) bss"
  shows "encodes (encode_fields cb fs vs) (concat bss)"
  using assms
proof (induction fs arbitrary: vs bss)
  case Nil
  have "encode_fields cb [] vs = Ok" by (intro ext) simp
  then show ?case using Nil encodes_Ok by simp
next
  case (Cons f fs)
  show ?case
  proof (cases vs)
    case Nil
    have "encode_fields cb (f # fs) [] = Ok" by (intro ext) simp
    then show ?thesis using Nil Cons.prems encodes_Ok by simp
  next
    case (Cons v ws)
    then obtain b cs where b: "bss = b # cs" "encodes (encode_field cb f v) b" "encodes (encode_fields cb fs ws) (concat cs)"
      using Cons.prems Cons.IH by (auto simp: list_all2_Cons1)
    moreover have "encode_fields cb (f # fs) (v # ws) = (\<lambda>s. pb_bind (encode_field cb f v s) (encode_fields cb fs ws))" by (intro ext) simp
    ultimately show ?thesis using Cons encodes_bind by auto
  qed
qed

definition field_bytes_ok :: "bool \<Rightarrow> pb_field \<Rightarrow> pb_slot \<Rightarrow> pb_slot \<Rightarrow> pb_slot \<Rightarrow> u8 list \<Rightarrow> bool" where
  "field_bytes_ok cb f v w w' bs \<longleftrightarrow> encodes (encode_field cb f v) bs \<and>
    (bs = [] \<and> w' = pb_field_set_to_default w \<or>
     (\<exists>wt cs. bs = tag_bytes wt (tag f) @ cs \<and>
       (\<forall>xs rest. decode_field cb (pb_wire_type_val wt) f (pb_field_set_to_default w) (stream_of (cs @ xs) rest) = Ok (w', stream_of xs rest))))"

lemma field_bytes_okI:
  "encodes (encode_field cb f v) (tag_bytes wt (tag f) @ cs) \<Longrightarrow>
   (\<And>xs rest. decode_field cb (pb_wire_type_val wt) f (pb_field_set_to_default w) (stream_of (cs @ xs) rest) = Ok (w', stream_of xs rest)) \<Longrightarrow>
   field_bytes_ok cb f v w w' (tag_bytes wt (tag f) @ cs)"
  unfolding field_bytes_ok_def by blast

lemma text_encodes:
  assumes "encode_basic_field f bs = (\<lambda>s. pb_bind (pb_encode_tag PB_WT_STRING (tag f) s) (pb_encode_string x))" "length x < 2 ^ 64"
    "\<not> pb_check_proto3_default_value f bs"
  shows "encodes (encode_field cb f (Data bs)) (text_bytes f x)"
proof -
  have "encode_field cb f (Data bs) = encode_basic_field f bs" using assms(3) by (intro ext) simp
  then show ?thesis using encodes_bind [OF encodes_tag encodes_string [OF assms(2)], of PB_WT_STRING "tag f"] assms(1)
    by (simp add: text_bytes_def)
qed

lemma varint32_string:
  assumes "length x < 2 ^ 32"
  shows "pb_decode_varint32 (stream_of (string_bytes x @ xs) rest) = Ok (of_nat (length x), stream_of (x @ xs) rest)"
  using pb_decode_varint32_leb [OF assms, of "x @ xs" rest] by (simp add: string_bytes_def)

lemma unat_of_nat_u32: "n < 2 ^ 32 \<Longrightarrow> unat (of_nat n :: u32) = n"
  by (simp only: unat_of_nat) simp

lemma static_string_ok:
  assumes "ltype f = PB_LTYPE_STRING" "data_size f = Suc (length x + length pad)" "length cs = Suc (length x + length pad)"
    "0 \<notin> set x" "Suc (length x + length pad) < 2 ^ 32"
  shows "field_bytes_ok cb f (Data (x @ 0 # pad)) (Data cs) (Data (x @ 0 # replicate (length pad) 0)) (if x = [] then [] else text_bytes f x)"
proof (cases "x = []")
  case True
  have "encode_field cb f (Data (0 # pad)) = Ok" using assms(1) by (intro ext) (simp add: pb_check_proto3_default_value_def)
  then show ?thesis using encodes_Ok assms(3) True by (simp add: field_bytes_ok_def)
next
  case False
  have "length x < 2 ^ 32" using assms(5) by simp
  note u = unat_of_nat_u32 [OF this]
  have "(of_nat (length x) :: u32) \<noteq> - 1"
  proof
    assume "(of_nat (length x) :: u32) = - 1"
    then have "length x = unat (- 1 :: u32)" using u by simp
    moreover have "unat (- 1 :: u32) = 2 ^ 32 - 1" by (simp add: unsigned_minus_1_eq_mask mask_eq_exp_minus_1)
    ultimately show False using assms(5) by simp
  qed
  then have n: "length x < 2 ^ 32" "length x < 2 ^ 64" "(of_nat (length x) :: u32) \<noteq> - 1" "unat (of_nat (length x) :: u32) = length x"
    using assms(5) u by simp_all
  have t: "takeWhile (\<lambda>c. c \<noteq> 0) (take (length x + length pad) (x @ 0 # pad)) = x"
    using assms(4) by (cases pad) (auto simp: takeWhile_tail)
  have e: "encodes (encode_field cb f (Data (x @ 0 # pad))) (text_bytes f x)"
  proof (rule text_encodes)
    have "pb_enc_string f (x @ 0 # pad) = pb_encode_string x" using assms(2) t by (intro ext) (simp add: pb_enc_string_def)
    then show "encode_basic_field f (x @ 0 # pad) = (\<lambda>s. pb_bind (pb_encode_tag PB_WT_STRING (tag f) s) (pb_encode_string x))"
      using assms(1) by (intro ext) (simp add: encode_basic_field_def pb_encode_tag_for_field_def)
    show "\<not> pb_check_proto3_default_value f (x @ 0 # pad)"
      using assms(1,4) False by (cases x) (simp_all add: pb_check_proto3_default_value_def)
  qed (rule n)
  have "decode_field cb 2 f (pb_field_set_to_default (Data cs)) (stream_of (string_bytes x @ xs) rest) =
      Ok (Data (x @ 0 # replicate (length pad) 0), stream_of xs rest)" for xs rest
    using assms(1-3) n varint32_string [OF n(1), of xs rest] pb_read_stream [of x xs rest]
    by (simp add: decode_basic_field_def pb_dec_string_def)
  then show ?thesis using field_bytes_okI [OF e [unfolded text_bytes_def], of "Data cs"] False
    by (simp add: text_bytes_def)
qed

lemma static_bytes_ok:
  assumes "ltype f = PB_LTYPE_BYTES" "data_size f = length x + length pad + 2" "length cs = length x + length pad + 2"
    "unat (bytes_size ([b0, b1] @ x @ pad)) = length x"
  shows "field_bytes_ok cb f (Data ([b0, b1] @ x @ pad)) (Data cs) (Data ([b0, b1] @ x @ replicate (length pad) 0)) (if x = [] then [] else text_bytes f x)"
proof -
  let ?bs = "[b0, b1] @ x @ pad" and ?n = "bytes_size ([b0, b1] @ x @ pad)"
  have l: "length x < 2 ^ 16" using unsigned_less [of ?n, where ?'a = nat] assms(4) by simp
  then have n: "length x < 2 ^ 32" "length x < 2 ^ 64" "length x \<le> 65535" by simp_all
  note u = unat_of_nat_u32 [OF n(1)]
  have c: "ucast (of_nat (length x) :: u32) = (of_nat (length x) :: u64)" using of_nat_unat u by metis
  have v: "?n = of_nat (length x)" using assms(4) by (metis of_nat_unat ucast_id)
  have s: "store_le 2 (of_nat (length x)) = [b0, b1]"
  proof (rule store_le_value)
    fix k :: nat assume "k < 8 * 2"
    moreover have "bit (of_nat (length x) :: u16) k = bit (le_value [b0, b1] :: u16) k" using v by (simp add: bytes_size_def)
    ultimately show "bit (of_nat (length x) :: u64) k = bit (le_value [b0, b1] :: u64) k"
      by (simp add: bit_le_value bit_of_nat_iff del: le_value.simps)
  qed simp_all
  show ?thesis
  proof (cases "x = []")
    case True
    then have "encode_field cb f (Data ?bs) = Ok" using assms(1) v by (intro ext) (simp add: pb_check_proto3_default_value_def)
    moreover have "[b0, b1] = [0, 0]" using s True by (simp add: store_le_def upt_rec)
    ultimately show ?thesis using encodes_Ok assms(3) True by (simp add: field_bytes_ok_def)
  next
    case False
    have e: "encodes (encode_field cb f (Data ?bs)) (text_bytes f x)"
    proof (rule text_encodes)
      have "pb_enc_bytes f ?bs = pb_encode_string x" using assms(2,4) by (intro ext) (simp add: pb_enc_bytes_def)
      then show "encode_basic_field f ?bs = (\<lambda>s. pb_bind (pb_encode_tag PB_WT_STRING (tag f) s) (pb_encode_string x))"
        using assms(1) by (intro ext) (simp add: encode_basic_field_def pb_encode_tag_for_field_def)
      show "\<not> pb_check_proto3_default_value f ?bs"
        using assms(1,4) False by (auto simp: pb_check_proto3_default_value_def)
    qed (rule n)
    have "decode_field cb 2 f (pb_field_set_to_default (Data cs)) (stream_of (string_bytes x @ xs) rest) =
        Ok (Data ([b0, b1] @ x @ replicate (length pad) 0), stream_of xs rest)" for xs rest
      using assms(1-3) n u c s varint32_string [OF n(1), of xs rest] pb_read_stream [of x xs rest]
      by (simp add: decode_basic_field_def pb_dec_bytes_def)
    then show ?thesis using field_bytes_okI [OF e [unfolded text_bytes_def], of "Data cs"] False
      by (simp add: text_bytes_def)
  qed
qed

lemma field_trip_ok: "field_trip f v w w' bs \<Longrightarrow> cb \<or> (\<exists>bs. v = Data bs) \<Longrightarrow> field_bytes_ok cb f v w w' bs"
proof (induction rule: field_trip.induct)
  case (trip_int32 f bs cs)
  show ?case
  proof (cases "\<forall>b\<in>set bs. b = 0")
    case True
    then have "bs = replicate (length cs) 0" using trip_int32 by (metis replicate_length_same)
    moreover have "encode_field cb f (Data bs) = Ok" using True trip_int32(1)
      by (intro ext) (simp add: pb_check_proto3_default_value_def)
    ultimately show ?thesis using encodes_Ok by (simp add: field_bytes_ok_def int32_bytes_def)
  next
    case False
    then have "encode_field cb f (Data bs) = encode_basic_field f bs"
      using trip_int32(1) by (intro ext) (auto simp: pb_check_proto3_default_value_def)
    then have "field_bytes_ok cb f (Data bs) (Data cs) (Data bs) (tag_bytes PB_WT_VARINT (tag f) @ leb (unat (int32_value bs)))"
      using int32_encodes [OF trip_int32(1,2)] int32_decodes [OF trip_int32(1-3)] by (intro field_bytes_okI) simp_all
    then show ?thesis unfolding int32_bytes_def by (simp only: if_not_P [OF False])
  qed
next
  case (trip_static_string f bs cs x pad)
  then show ?case using static_string_ok [of f x pad cs] by simp
next
  case (trip_bytes f bs cs b0 b1 x pad)
  then show ?case using static_bytes_ok [of f x pad cs b0 b1] by simp
next
  case (trip_string e f arg x g dest dest')
  have cb: cb using trip_string(4) by simp
  show ?case unfolding text_bytes_def eqTrueI [OF cb]
    by (rule field_bytes_okI [OF encodes_callback [of e f arg, OF trip_string(1) [unfolded text_bytes_def]]])
      (simp add: string_decodes [of x g dest dest', OF trip_string(2,3)])
qed

lemma decode_loop_message:
  assumes d: "sorted_wrt (<) (map tag (field_info d))"
    and t: "\<And>f. f \<in> set (field_info d) \<Longrightarrow> unat (tag f) < 2 ^ 29 \<and> tag f \<noteq> 0"
    and n: "length ws = length (field_info d)" "length ws' = length (field_info d)" "length bss = length (field_info d)" "length vs = length (field_info d)"
    and b: "\<And>k. k < length (field_info d) \<Longrightarrow> field_bytes_ok (field_callback d) (field_info d ! k) (vs ! k) (ws ! k) (ws' ! k) (bss ! k)"
    and i: "i < length (field_info d)" and k: "k \<le> length (field_info d)"
  shows "decode_loop d i (take k ws' @ map pb_field_set_to_default (drop k ws)) (stream_of (concat (drop k bss)) rest) = Ok (ws', stream_of [] rest)"
  using k i
proof (induction k arbitrary: i rule: inc_induct)
  case base
  then show ?case using n by (subst decode_loop.simps) (simp add: stream_of_def)
next
  case (step k)
  let ?m = "take k ws' @ map pb_field_set_to_default (drop k ws)"
  let ?f = "field_info d ! k"
  have k: "k < length (field_info d)" using step by simp
  have m: "?m[k := ws' ! k] = take (Suc k) ws' @ map pb_field_set_to_default (drop (Suc k) ws)"
    using k n by (simp add: take_Suc_conv_app_nth list_update_append Cons_nth_drop_Suc [symmetric])
  have mk: "?m ! k = pb_field_set_to_default (ws ! k)" using k n by (simp add: nth_append)
  have c: "concat (drop k bss) = bss ! k @ concat (drop (Suc k) bss)" using k n by (simp add: Cons_nth_drop_Suc [symmetric])
  consider "bss ! k = []" "ws' ! k = pb_field_set_to_default (ws ! k)"
    | wt cs where "bss ! k = tag_bytes wt (tag ?f) @ cs"
      "\<And>xs rest. decode_field (field_callback d) (pb_wire_type_val wt) ?f (?m ! k) (stream_of (cs @ xs) rest) = Ok (ws' ! k, stream_of xs rest)"
    using b [OF k] unfolding field_bytes_ok_def mk by blast
  then show ?case
  proof cases
    case 1
    then have "?m = take (Suc k) ws' @ map pb_field_set_to_default (drop (Suc k) ws)"
      using m mk by (metis list_update_id)
    then show ?thesis using step.IH [OF step.prems] 1 c by simp
  next
    case 2
    have "unat (tag ?f) < 2 ^ 29" "tag ?f \<noteq> 0" using t [of ?f] k by simp_all
    then have "decode_loop d i ?m (stream_of (tag_bytes wt (tag ?f) @ cs @ concat (drop (Suc k) bss)) rest) =
        decode_loop d k (?m[k := ws' ! k]) (stream_of (concat (drop (Suc k) bss)) rest)"
      using k n by (intro decode_loop_field [OF d step.prems k _ _ _ 2(2)]) simp_all
    also have "\<dots> = Ok (ws', stream_of [] rest)" unfolding m by (rule step.IH [OF k])
    finally show ?thesis using 2(1) c by simp
  qed
qed

lemma message_round_trip:
  assumes "sorted_wrt (<) (map tag (field_info d))" "field_callback d \<or> (\<forall>v\<in>set vs. \<exists>bs. v = Data bs)" "field_info d \<noteq> []"
    "\<forall>f\<in>set (field_info d). unat (tag f) < 2 ^ 29 \<and> tag f \<noteq> 0"
    "length vs = length (field_info d)" "length ws = length (field_info d)" "length ws' = length (field_info d)"
    "length bss = length (field_info d)"
    "\<forall>k<length (field_info d). field_trip (field_info d ! k) (vs ! k) (ws ! k) (ws' ! k) (bss ! k)"
  shows "encodes (pb_encode d vs) (concat bss)" "pb_decode d ws (stream_of (concat bss) rest) = Ok (ws', stream_of [] rest)"
proof -
  have b: "field_bytes_ok (field_callback d) (field_info d ! k) (vs ! k) (ws ! k) (ws' ! k) (bss ! k)" if "k < length (field_info d)" for k
    using assms(2,5,9) that field_trip_ok by (metis nth_mem)
  then have "list_all2 (\<lambda>(f, v) bs. encodes (encode_field (field_callback d) f v) bs) (zip (field_info d) vs) bss"
    using assms(5,8) by (auto simp: list_all2_conv_all_nth field_bytes_ok_def)
  moreover have "pb_encode d vs = encode_fields (field_callback d) (field_info d) vs" by (intro ext) (simp add: pb_encode_def)
  ultimately show "encodes (pb_encode d vs) (concat bss)" using encodes_fields by simp
  show "pb_decode d ws (stream_of (concat bss) rest) = Ok (ws', stream_of [] rest)"
    using decode_loop_message [OF assms(1) _ assms(6-8,5), of 0 0 rest] assms(3,4) b
    by (simp add: pb_decode_def pb_decode_inner_def pb_message_set_to_defaults_def)
qed

text \<open>C11.  Messages round-trip: when every field of a message is an \<open>int32\<close>, a static string or
  byte array, or a string written and read by callbacks, \<open>pb_encode\<close> appends the bytes of the fields, which \<open>pb_decode\<close> turns
  into the message again, zero and empty fields included (they are not written at all), up to the end
  of the stream; what follows the contents in the space of a static string or array is cleared.\<close>

theorem pb_message_round_trip:
  assumes "sorted_wrt (<) (map tag (field_info d))" "field_callback d \<or> (\<forall>v\<in>set vs. \<exists>bs. v = Data bs)" "field_info d \<noteq> []"
    "\<forall>f\<in>set (field_info d). unat (tag f) < 2 ^ 29 \<and> tag f \<noteq> 0"
    "length vs = length (field_info d)" "length ws = length (field_info d)" "length ws' = length (field_info d)"
    "length bss = length (field_info d)"
    "\<forall>k<length (field_info d). field_trip (field_info d ! k) (vs ! k) (ws ! k) (ws' ! k) (bss ! k)"
  shows "encodes (pb_encode d vs) (concat bss) \<and>
    (\<forall>rest. pb_decode d ws (stream_of (concat bss) rest) = Ok (ws', stream_of [] rest))"
  using message_round_trip [OF assms] by blast

definition pair_desc :: pb_msgdesc where
  "pair_desc = \<lparr>field_info = [int32_field 1, int32_field 2], field_callback = True\<rparr>"

theorem pb_message_round_trip_witness:
  "pb_decode pair_desc [Data [0, 0, 0, 0], Data [0, 0, 0, 0]] (stream_of [16, 128, 1] []) =
    Ok ([Data [0, 0, 0, 0], Data [128, 0, 0, 0]], stream_of [] [])"
proof -
  let ?d = "pair_desc"
  have v: "unat (int32_value [128, 0, 0, 0]) = 128" by (simp add: int32_value_def)
  have e: "leb 128 = [128, 1]" "leb 16 = [16]" by (simp_all add: leb.simps)
  have b: "concat [int32_bytes (int32_field 1) [0, 0, 0, 0], int32_bytes (int32_field 2) [128, 0, 0, 0]] = [16, 128, 1]"
    using v e by (simp add: int32_bytes_def tag_bytes_def int32_field_def)
  have "field_trip (int32_field t) (Data bs) (Data [0, 0, 0, 0]) (Data bs) (int32_bytes (int32_field t) bs)" if "length bs = 4" for t bs
    using that by (intro trip_int32) (simp_all add: int32_field_def)
  then show ?thesis
    using pb_message_round_trip [of ?d "[Data [0, 0, 0, 0], Data [128, 0, 0, 0]]" "[Data [0, 0, 0, 0], Data [0, 0, 0, 0]]"
      "[Data [0, 0, 0, 0], Data [128, 0, 0, 0]]" "[int32_bytes (int32_field 1) [0, 0, 0, 0], int32_bytes (int32_field 2) [128, 0, 0, 0]]"] b
    by (simp add: pair_desc_def all_less_two) (simp add: int32_field_def)
qed

end
