(* ===== verification/Pb_Apps.thy ===== *)
theory Pb_Apps
  imports Nanopb_Msg
begin

text \<open>
  The applications that talk protocol buffers: the command server of \<open>app/cmdserver\<close>, the test server
  of \<open>exp/pbserver\<close> and the server and sender of \<open>exp/raft1\<close>.

  A worker is the function of one accepted connection.  What the kernel does (the result and the data
  of \<open>tcp_read\<close>, the results of \<open>console_run_script\<close>, \<open>mu_eval\<close>, \<open>tcp_write\<close>) is an
  argument; the calls a worker makes are recorded in order.  Arrays on the stack that the code does
  not initialise are arguments, too.  Accesses outside an object are \<open>Work_fault\<close>.
\<close>

section \<open>Messages\<close>

definition CmdRequest_msg :: pb_msgdesc where
  "CmdRequest_msg = \<lparr>field_info = [int32_field 1, string_callback 2, string_callback 3], field_callback = True\<rparr>"

definition CmdResponse_msg :: pb_msgdesc where
  "CmdResponse_msg = \<lparr>field_info = [int32_field 1, string_callback 2], field_callback = True\<rparr>"

definition SimpleMessage_msg :: pb_msgdesc where
  "SimpleMessage_msg = \<lparr>field_info = [int32_field 1], field_callback = False\<rparr>"

definition AppendEntriesRequest_msg :: pb_msgdesc where
  "AppendEntriesRequest_msg = \<lparr>field_info = [string_callback 1, int32_field 2, int32_field 3, int32_field 4,
     string_callback 5, int32_field 6], field_callback = True\<rparr>"

section \<open>Callbacks\<close>

text \<open>\<open>get_cmdserver_data\<close> and \<open>get_string\<close>: a string of up to 1023 bytes, of which 30 bytes
  are stored.\<close>

definition get_cmdserver_data :: "u8 list \<Rightarrow> pb_istream \<Rightarrow> (u8 list \<times> pb_istream) pb" where
  "get_cmdserver_data arg s =
     (if bytes_left s > 1024 - 1 then Fail []
      else pb_bind (pb_read (bytes_left s) s) (\<lambda>(bs, s).
        if length arg < 30 then Fault
        else Ok (take 30 (bs @ replicate (1024 - length bs) 0) @ drop 30 arg, s)))"

definition get_string :: "u8 list \<Rightarrow> pb_istream \<Rightarrow> (u8 list \<times> pb_istream) pb" where
  "get_string arg s =
     (if bytes_left s > 1024 - 1 then Fail []
      else pb_bind (pb_read (bytes_left s) s) (\<lambda>(bs, s).
        if length arg < 30 then Fault
        else Ok (take 30 (bs @ replicate (1024 - length bs) 0) @ drop 30 arg, s)))"

definition set_cmdserver_data :: "pb_field \<Rightarrow> u8 list \<Rightarrow> pb_ostream \<Rightarrow> pb_ostream pb" where
  "set_cmdserver_data f arg s = pb_bind (pb_encode_tag_for_field f s) (\<lambda>s.
     case c_str arg of None \<Rightarrow> Fault | Some str \<Rightarrow> pb_encode_string str s)"

definition set_raftrequest_data :: "pb_field \<Rightarrow> u8 list \<Rightarrow> pb_ostream \<Rightarrow> pb_ostream pb" where
  "set_raftrequest_data f arg s = pb_bind (pb_encode_tag_for_field f s) (\<lambda>s.
     case c_str arg of None \<Rightarrow> Fault | Some str \<Rightarrow> pb_encode_string str s)"

section \<open>The end of a request\<close>

definition BUFSIZE :: nat where "BUFSIZE = 128"

text \<open>The buffer after \<open>memset(buffer, 0xff, BUFSIZE)\<close> and \<open>tcp_read\<close>, and the loop that looks
  for a zero byte: it increments \<open>i\<close> before it reads.\<close>

definition received :: "u8 list \<Rightarrow> u8 list" where
  "received bs = bs @ replicate (BUFSIZE - length bs) 0xFF"

function scan_zero :: "u8 list \<Rightarrow> nat \<Rightarrow> nat option" where
  "scan_zero buf i =
     (if i < BUFSIZE
      then if i + 1 < length buf then if buf ! (i + 1) = 0 then Some (i + 1) else scan_zero buf (i + 1) else None
      else Some i)"
  by pat_completeness auto
termination by (relation "measure (\<lambda>(buf, i). length buf - i)") auto

declare scan_zero.simps [simp del]

section \<open>The command server\<close>

datatype work_call = Printed_fn "u8 list" | Run_script "u8 list" | Tcp_write "u8 list" | Tcp_close
  | Printed_number u32 | Printed_entries "u8 list" "u8 list" "u32 list" | Printed_success bool
  | Acquire_mu_lock | New_scope | Mu_eval "u8 list" | Release_mu_lock
  | Thread_sleep nat | Udp_open nat | Udp_send "u8 list" | Udp_close

datatype work = Work_fault | Work_return int "work_call list"

fun work_bind :: "'a pb \<Rightarrow> work \<Rightarrow> ('a \<Rightarrow> work) \<Rightarrow> work" where
  "work_bind Fault w k = Work_fault"
| "work_bind (Fail e) w k = w"
| "work_bind (Ok x) w k = k x"

definition remote_ok :: "u8 list" where "remote_ok = bytes_of ''remote execution is successfull!''"
definition remote_failed :: "u8 list" where "remote_failed = bytes_of ''remote execution is failed!''"

definition cmdserver_response :: "u8 list \<Rightarrow> int \<Rightarrow> pb_slot list" where
  "cmdserver_response request_id cmd_result =
     [Data request_id, Callback (Encode set_cmdserver_data) ((if cmd_result = 0 then remote_ok else remote_failed) @ [0])]"

definition cmdserver_worker ::
  "u8 list \<Rightarrow> u8 list \<Rightarrow> (u8 list \<Rightarrow> int) \<Rightarrow> int \<Rightarrow> int + u8 list \<Rightarrow> work" where
  "cmdserver_worker fn_name request_data run_script write_err read = (case read of
     Inl err \<Rightarrow> Work_return 1 []
   | Inr bs \<Rightarrow> (case scan_zero (received bs) 0 of None \<Rightarrow> Work_fault
     | Some request_length \<Rightarrow>
       work_bind (pb_decode CmdRequest_msg
           [Data [0, 0, 0, 0], Callback (Decode get_cmdserver_data) fn_name, Callback (Decode get_cmdserver_data) request_data]
           (pb_istream_from_buffer (received bs) request_length))
         (Work_return 1 [])
         (\<lambda>(request, _). case request of
            [Data request_id, Callback _ fn_name, _] \<Rightarrow> (case c_str fn_name of None \<Rightarrow> Work_fault
            | Some fn \<Rightarrow>
              let cmd_result = run_script fn
              in work_bind (pb_encode CmdResponse_msg (cmdserver_response request_id cmd_result)
                  (pb_ostream_from_buffer (replicate BUFSIZE 0xFF) BUFSIZE))
                (Work_return 1 [Printed_fn fn, Run_script fn])
                (\<lambda>ostream. let sent = [Printed_fn fn, Run_script fn, Tcp_write (wrote ostream)]
                  in if write_err < 0 then Work_return 1 sent else Work_return 0 (sent @ [Tcp_close])))
          | _ \<Rightarrow> Work_fault)))"

section \<open>The test server\<close>

definition pbserver_worker :: "int + u8 list \<Rightarrow> work" where
  "pbserver_worker read = (case read of
     Inl err \<Rightarrow> Work_return 1 []
   | Inr bs \<Rightarrow> (case scan_zero (received bs) 0 of None \<Rightarrow> Work_fault
     | Some message_length \<Rightarrow>
       work_bind (pb_decode SimpleMessage_msg [Data [0, 0, 0, 0]] (pb_istream_from_buffer (received bs) message_length))
         (Work_return 1 [])
         (\<lambda>(message, _). case message of
            [Data lucky_number] \<Rightarrow> Work_return 0 [Printed_number (le_value lucky_number), Tcp_close]
          | _ \<Rightarrow> Work_fault)))"

section \<open>The Raft server\<close>

text \<open>\<open>eval\<close> is \<open>mu_eval\<close>: \<open>None\<close> when it leaves by \<open>longjmp\<close>, after which \<open>ret\<close>
  still has the contents of an uninitialised variable.\<close>

definition raftserver_worker ::
  "u8 list \<Rightarrow> u8 list \<Rightarrow> bool \<Rightarrow> u64 \<Rightarrow> (u8 list \<Rightarrow> u64 option) \<Rightarrow> int + u8 list \<Rightarrow> work" where
  "raftserver_worker msg_id entries scope_nil ret eval read = (case read of
     Inl err \<Rightarrow> Work_return 1 []
   | Inr bs \<Rightarrow> (case scan_zero (received bs) 0 of None \<Rightarrow> Work_fault
     | Some message_length \<Rightarrow>
       work_bind (pb_decode AppendEntriesRequest_msg
           [Callback (Decode get_string) msg_id, Data [0, 0, 0, 0], Data [0, 0, 0, 0], Data [0, 0, 0, 0],
            Callback (Decode get_string) entries, Data [0, 0, 0, 0]]
           (pb_istream_from_buffer (received bs) message_length))
         (Work_return 1 [])
         (\<lambda>(message, _). case message of
            [Callback _ msg_id, Data term, Data prevLogIndex, Data prevLogTerm, Callback _ entries, Data leaderCommit] \<Rightarrow>
              (case (c_str msg_id, c_str entries) of
                 (Some msg_id, Some entries) \<Rightarrow>
                   let ret = (case eval entries of Some r \<Rightarrow> r | None \<Rightarrow> ret)
                   in Work_return 0 ([Printed_entries msg_id entries
                         [le_value term, le_value prevLogIndex, le_value prevLogTerm, le_value leaderCommit], Acquire_mu_lock] @
                       (if scope_nil then [New_scope] else []) @
                       [Mu_eval entries, Printed_success (ret = 0), Release_mu_lock, Tcp_close])
               | _ \<Rightarrow> Work_fault)
          | _ \<Rightarrow> Work_fault)))"

section \<open>The Raft sender\<close>

text \<open>The loop that waits for the network, on the answers of \<open>minip_is_configured\<close>; \<open>None\<close>
  when it still waits after the given answers.\<close>

fun wait_configured :: "bool list \<Rightarrow> work_call list option" where
  "wait_configured [] = None"
| "wait_configured (c # cs) = (if c then Some [] else map_option ((#) (Thread_sleep 2000)) (wait_configured cs))"

definition raft_request :: "u8 list \<Rightarrow> u32 \<Rightarrow> pb_slot list" where
  "raft_request cmd term_arg =
     [Callback (Encode set_raftrequest_data) (bytes_of ''pus1'' @ [0]), Data (store_le 4 (ucast term_arg)),
      Data [0, 0, 0, 0], Data [0, 0, 0, 0], Callback (Encode set_raftrequest_data) cmd, Data [0, 0, 0, 0]]"

text \<open>A failed \<open>udp_open\<close> leaves \<open>sock\<close> uninitialised, and the code goes on with it.\<close>

definition raft_sender :: "int \<Rightarrow> bool list \<Rightarrow> u8 list \<Rightarrow> u32 \<Rightarrow> work option" where
  "raft_sender open_err polls cmd term_arg = map_option (\<lambda>sleeps.
     work_bind (pb_encode AppendEntriesRequest_msg (raft_request cmd term_arg)
         (pb_ostream_from_buffer (replicate 128 0xFF) 128))
       (Work_return 1 (sleeps @ [Udp_open 8811]))
       (\<lambda>ostream. if open_err < 0 then Work_fault
          else Work_return 0 (sleeps @ [Udp_open 8811, Udp_send (wrote ostream), Udp_close])))
     (wait_configured polls)"

text \<open>One round of the loop of \<open>raft_worker\<close>; a failed encoding returns from the thread.\<close>

definition raft_worker :: "int \<Rightarrow> bool list \<Rightarrow> work option" where
  "raft_worker open_err polls = map_option (\<lambda>sleeps.
     work_bind (pb_encode AppendEntriesRequest_msg (raft_request (bytes_of ''heartbeat'' @ [0]) 1000)
         (pb_ostream_from_buffer (replicate 128 0xFF) 128))
       (Work_return 1 (sleeps @ [Udp_open 8811]))
       (\<lambda>ostream. if open_err < 0 then Work_fault
          else Work_return 0 (sleeps @ [Udp_open 8811, Udp_send (wrote ostream), Thread_sleep 1200, Udp_close])))
     (wait_configured polls)"

section \<open>Requests without a zero byte\<close>

lemma u8_of_nat_pos:
  assumes "0 < n" "n < 256"
  shows "(of_nat n :: u8) \<noteq> 0"
proof -
  have "unat (of_nat n :: u8) = n" using assms(2) by (simp only: unat_of_nat) simp
  then show ?thesis using assms(1) by (metis unat_0 less_irrefl)
qed

lemma leb_no_zero: "0 < n \<Longrightarrow> 0 \<notin> set (leb n)"
proof (induction n rule: leb.induct)
  case (1 n)
  have m: "n mod 128 + 128 < 256" using mod_less_divisor [of 128 n] by simp
  show ?case
  proof (cases "n < 128")
    case True
    then have "(of_nat n :: u8) \<noteq> 0" using 1(2) u8_of_nat_pos by simp
    then show ?thesis using True leb.simps [of n] by simp
  next
    case False
    then have "0 < n div 128" by (simp add: div_greater_zero_iff)
    then have "0 \<notin> set (leb (n div 128))" using 1(1) False by simp
    moreover have "(of_nat (n mod 128 + 128) :: u8) \<noteq> 0" using u8_of_nat_pos [OF _ m] by simp
    ultimately show ?thesis using False leb.simps [of n] by (simp del: of_nat_add)
  qed
qed

lemma int32_value_zero: "length bs = 4 \<Longrightarrow> int32_value bs = 0 \<Longrightarrow> \<forall>b\<in>set bs. b = 0"
proof -
  assume a: "length bs = 4" "int32_value bs = 0"
  have "store_le 4 (int32_value bs) = bs"
    by (rule store_le_value) (use a(1) in \<open>auto simp: int32_value_def bit_simps\<close>)
  then show ?thesis unfolding a(2) by (auto simp: store_le_def)
qed

lemma tag_bytes_no_zero: "0 < unat n * 8 + pb_wire_type_val wt \<Longrightarrow> 0 \<notin> set (tag_bytes wt n)"
  unfolding tag_bytes_def by (intro leb_no_zero) simp

lemma int32_bytes_no_zero: "length bs = 4 \<Longrightarrow> 0 < unat (tag f) \<Longrightarrow> 0 \<notin> set (int32_bytes f bs)"
proof (cases "int32_value bs = 0")
  case False
  assume a: "length bs = 4" "0 < unat (tag f)"
  have "0 < unat (int32_value bs)" using False by (metis neq0_conv unat_eq_0)
  then show ?thesis using leb_no_zero tag_bytes_no_zero [of "tag f" PB_WT_VARINT] a
    by (simp add: int32_bytes_def)
qed (auto simp: int32_bytes_def dest: int32_value_zero)

lemma text_bytes_no_zero: "x \<noteq> [] \<Longrightarrow> 0 \<notin> set x \<Longrightarrow> 0 \<notin> set (text_bytes f x)"
  using leb_no_zero [of "length x"] tag_bytes_no_zero [of "tag f" PB_WT_STRING]
  by (simp add: text_bytes_def string_bytes_def)

lemma scan_zero_finds:
  assumes "i < j" "j < length buf" "length buf \<le> BUFSIZE" "buf ! j = 0" "\<And>k. i < k \<Longrightarrow> k < j \<Longrightarrow> buf ! k \<noteq> 0"
  shows "scan_zero buf i = Some j"
  using assms
proof (induction "j - i" arbitrary: i)
  case (Suc n)
  show ?case
  proof (cases "i + 1 = j")
    case True
    then show ?thesis using Suc by (subst scan_zero.simps) simp
  next
    case False
    then have "scan_zero buf (i + 1) = Some j" using Suc(2-) by (intro Suc(1)) auto
    moreover have "buf ! (i + 1) \<noteq> 0" using Suc(3-) False by simp
    ultimately show ?thesis using Suc(3-) by (subst scan_zero.simps) simp
  qed
qed simp

lemma scan_zero_request:
  assumes "e \<noteq> []" "0 \<notin> set e" "length (e @ 0 # rest) \<le> BUFSIZE"
  shows "scan_zero (received (e @ 0 # rest)) 0 = Some (length e)"
proof (rule scan_zero_finds)
  fix k assume "k < length e"
  then have "received (e @ 0 # rest) ! k = e ! k" by (simp add: received_def nth_append)
  then show "received (e @ 0 # rest) ! k \<noteq> 0" using assms(2) \<open>k < length e\<close> by (metis nth_mem)
qed (use assms in \<open>simp_all add: received_def nth_append\<close>)

lemma scan_zero_misses:
  assumes "length buf = BUFSIZE" "i < BUFSIZE" "\<And>k. i < k \<Longrightarrow> k < BUFSIZE \<Longrightarrow> buf ! k \<noteq> 0"
  shows "scan_zero buf i = None"
  using assms
proof (induction "BUFSIZE - i" arbitrary: i)
  case (Suc n)
  show ?case
  proof (cases "i + 1 = BUFSIZE")
    case True
    then show ?thesis using Suc by (subst scan_zero.simps) simp
  next
    case False
    then have "scan_zero buf (i + 1) = None" using Suc(2-) by (intro Suc(1)) auto
    moreover have "buf ! (i + 1) \<noteq> 0" using Suc(4-) False by simp
    ultimately show ?thesis using Suc(3-) by (subst scan_zero.simps) simp
  qed
qed simp

section \<open>A command is run\<close>

definition padded :: "u8 list \<Rightarrow> u8 list" where
  "padded x = x @ replicate (30 - length x) 0"

lemma get_data_reads:
  assumes "length arg = 30" "length x < 30"
  shows "get_cmdserver_data arg (stream_of x rest) = Ok (padded x, stream_of [] rest)"
    "get_string arg (stream_of x rest) = Ok (padded x, stream_of [] rest)"
  using assms pb_read_stream [of x "[]" rest]
  by (simp_all add: get_cmdserver_data_def get_string_def padded_def stream_of_def min_def)

lemma c_str_padded: "length x < 30 \<Longrightarrow> 0 \<notin> set x \<Longrightarrow> c_str (padded x) = Some x"
proof -
  assume "length x < 30" "0 \<notin> set x"
  moreover from this have "30 - length x = Suc (29 - length x)" by simp
  ultimately show ?thesis unfolding padded_def by (simp add: c_str_append)
qed

lemma set_data_encodes:
  assumes "c_str arg = Some x" "length x < 2 ^ 64" "ltype f = PB_LTYPE_STRING"
  shows "encodes (set_cmdserver_data f arg) (text_bytes f x)" "encodes (set_raftrequest_data f arg) (text_bytes f x)"
proof -
  have "set_cmdserver_data f arg = (\<lambda>s. pb_bind (pb_encode_tag PB_WT_STRING (tag f) s) (pb_encode_string x))"
    "set_raftrequest_data f arg = set_cmdserver_data f arg"
    using assms(1,3) by (auto simp: set_cmdserver_data_def set_raftrequest_data_def pb_encode_tag_for_field_def)
  then show "encodes (set_cmdserver_data f arg) (text_bytes f x)" "encodes (set_raftrequest_data f arg) (text_bytes f x)"
    using encodes_bind [OF encodes_tag encodes_string [OF assms(2)], of PB_WT_STRING "tag f"] by (simp_all add: text_bytes_def)
qed

definition cmd_request_bytes :: "u8 list \<Rightarrow> u8 list \<Rightarrow> u8 list \<Rightarrow> u8 list" where
  "cmd_request_bytes i fn dat =
     int32_bytes (int32_field 1) i @ text_bytes (string_callback 2) fn @ text_bytes (string_callback 3) dat"

definition cmd_response_bytes :: "u8 list \<Rightarrow> u8 list \<Rightarrow> u8 list" where
  "cmd_response_bytes i m = int32_bytes (int32_field 1) i @ text_bytes (string_callback 2) m"

lemmas message_defs = CmdRequest_msg_def CmdResponse_msg_def SimpleMessage_msg_def AppendEntriesRequest_msg_def
  int32_field_def string_callback_def

lemma int32_trip: "length bs = 4 \<Longrightarrow> length cs = 4 \<Longrightarrow>
    field_trip (int32_field n) (Data bs) (Data cs) (Data bs) (int32_bytes (int32_field n) bs)"
  by (rule trip_int32) (simp_all add: int32_field_def)

lemma tag_fields [simp]: "tag (int32_field n) = n" "tag (string_callback n) = n"
  by (simp_all add: int32_field_def string_callback_def)

lemma text_trip:
  assumes "length x < 30" "0 \<notin> set x" "length y = 30"
  shows "field_trip (string_callback n) (Callback (Encode set_cmdserver_data) (x @ [0])) (Callback (Decode get_cmdserver_data) y)
      (Callback (Decode get_cmdserver_data) (padded x)) (text_bytes (string_callback n) x)"
    "field_trip (string_callback n) (Callback (Encode set_raftrequest_data) (x @ [0])) (Callback (Decode get_string) y)
      (Callback (Decode get_string) (padded x)) (text_bytes (string_callback n) x)"
  using assms get_data_reads set_data_encodes [OF c_str_append] by (auto intro!: trip_string simp: string_callback_def)

lemma cmd_request_trip:
  assumes "length i = 4" "length fn < 30" "0 \<notin> set fn" "length dat < 30" "0 \<notin> set dat"
  shows cmd_request_encodes: "encodes (pb_encode CmdRequest_msg
      [Data i, Callback (Encode set_cmdserver_data) (fn @ [0]), Callback (Encode set_cmdserver_data) (dat @ [0])]) (cmd_request_bytes i fn dat)"
    and cmd_request_decodes: "length fn0 = 30 \<Longrightarrow> length dat0 = 30 \<Longrightarrow>
      pb_decode CmdRequest_msg [Data [0, 0, 0, 0], Callback (Decode get_cmdserver_data) fn0, Callback (Decode get_cmdserver_data) dat0]
        (stream_of (cmd_request_bytes i fn dat) rest) =
      Ok ([Data i, Callback (Decode get_cmdserver_data) (padded fn), Callback (Decode get_cmdserver_data) (padded dat)], stream_of [] rest)"
proof -
  have t: "\<forall>k<length (field_info CmdRequest_msg). field_trip (field_info CmdRequest_msg ! k)
      ([Data i, Callback (Encode set_cmdserver_data) (fn @ [0]), Callback (Encode set_cmdserver_data) (dat @ [0])] ! k)
      ([Data [0, 0, 0, 0], Callback (Decode get_cmdserver_data) fn0, Callback (Decode get_cmdserver_data) dat0] ! k)
      ([Data i, Callback (Decode get_cmdserver_data) (padded fn), Callback (Decode get_cmdserver_data) (padded dat)] ! k)
      ([int32_bytes (int32_field 1) i, text_bytes (string_callback 2) fn, text_bytes (string_callback 3) dat] ! k)"
    if "length fn0 = 30" "length dat0 = 30" for fn0 dat0
    using int32_trip [of i "[0, 0, 0, 0]" 1] text_trip(1) [OF assms(2,3) that(1), of 2] text_trip(1) [OF assms(4,5) that(2), of 3] assms(1)
    by (simp add: CmdRequest_msg_def All_less_Suc numeral_eq_Suc)
  show "encodes (pb_encode CmdRequest_msg
      [Data i, Callback (Encode set_cmdserver_data) (fn @ [0]), Callback (Encode set_cmdserver_data) (dat @ [0])]) (cmd_request_bytes i fn dat)"
    using message_round_trip(1) [OF _ _ _ _ _ _ _ _ t [of "replicate 30 0" "replicate 30 0"]]
    by (simp add: CmdRequest_msg_def cmd_request_bytes_def)
  assume "length fn0 = 30" "length dat0 = 30"
  from message_round_trip(2) [OF _ _ _ _ _ _ _ _ t [OF this]]
  show "pb_decode CmdRequest_msg [Data [0, 0, 0, 0], Callback (Decode get_cmdserver_data) fn0, Callback (Decode get_cmdserver_data) dat0]
        (stream_of (cmd_request_bytes i fn dat) rest) =
      Ok ([Data i, Callback (Decode get_cmdserver_data) (padded fn), Callback (Decode get_cmdserver_data) (padded dat)], stream_of [] rest)"
    by (simp add: CmdRequest_msg_def cmd_request_bytes_def)
qed

text \<open>A receiver of the response that keeps the string it reads.\<close>

definition read_all :: "u8 list \<Rightarrow> pb_istream \<Rightarrow> (u8 list \<times> pb_istream) pb" where
  "read_all arg s = pb_read (bytes_left s) s"

definition remote_message :: "int \<Rightarrow> u8 list" where
  "remote_message r = (if r = 0 then remote_ok else remote_failed)"

lemma remote_message_text: "0 \<notin> set (remote_message r)" "length (remote_message r) \<le> 32"
  by (simp_all add: remote_message_def remote_ok_def remote_failed_def bytes_of_def)

lemma cmd_response_trip:
  assumes "length i = 4"
  shows "encodes (pb_encode CmdResponse_msg (cmdserver_response i r)) (cmd_response_bytes i (remote_message r))"
    "pb_decode CmdResponse_msg [Data [0, 0, 0, 0], Callback (Decode read_all) []] (stream_of (cmd_response_bytes i (remote_message r)) rest) =
      Ok ([Data i, Callback (Decode read_all) (remote_message r)], stream_of [] rest)"
proof -
  let ?m = "remote_message r"
  have "length ?m < 2 ^ 32" "length ?m < 2 ^ 64" using remote_message_text(2) [of r] by simp_all
  then have "field_trip (string_callback 2) (Callback (Encode set_cmdserver_data) (?m @ [0])) (Callback (Decode read_all) [])
      (Callback (Decode read_all) ?m) (text_bytes (string_callback 2) ?m)"
    using pb_read_stream [of ?m "[]"] set_data_encodes(1) [OF c_str_append [OF remote_message_text(1)]]
    by (intro trip_string) (simp_all add: read_all_def string_callback_def, simp add: stream_of_def)
  then have t: "\<forall>k<length (field_info CmdResponse_msg). field_trip (field_info CmdResponse_msg ! k)
      ([Data i, Callback (Encode set_cmdserver_data) (?m @ [0])] ! k) ([Data [0, 0, 0, 0], Callback (Decode read_all) []] ! k)
      ([Data i, Callback (Decode read_all) ?m] ! k) ([int32_bytes (int32_field 1) i, text_bytes (string_callback 2) ?m] ! k)"
    using int32_trip [of i "[0, 0, 0, 0]" 1] assms by (simp add: CmdResponse_msg_def All_less_Suc)
  have r: "cmdserver_response i r = [Data i, Callback (Encode set_cmdserver_data) (?m @ [0])]"
    by (simp add: cmdserver_response_def remote_message_def)
  show "encodes (pb_encode CmdResponse_msg (cmdserver_response i r)) (cmd_response_bytes i ?m)"
    using message_round_trip(1) [OF _ _ _ _ _ _ _ _ t] by (simp add: r CmdResponse_msg_def cmd_response_bytes_def)
  show "pb_decode CmdResponse_msg [Data [0, 0, 0, 0], Callback (Decode read_all) []] (stream_of (cmd_response_bytes i ?m) rest) =
      Ok ([Data i, Callback (Decode read_all) ?m], stream_of [] rest)"
    using message_round_trip(2) [OF _ _ _ _ _ _ _ _ t] by (simp add: CmdResponse_msg_def cmd_response_bytes_def)
qed

lemma tag_bytes_one: "unat n < 16 \<Longrightarrow> length (tag_bytes wt n) = 1"
  using wire_type_small [of wt] by (simp add: tag_bytes_def leb.simps)

lemma cmd_response_short: "length (cmd_response_bytes i (remote_message r)) \<le> 45"
proof -
  have "length (int32_bytes (int32_field 1) i) \<le> 11"
    using leb_length_u64 [of "int32_value i"] tag_bytes_one [of 1 PB_WT_VARINT] by (simp add: int32_bytes_def)
  moreover have "length (text_bytes (string_callback 2) (remote_message r)) \<le> 34"
    using tag_bytes_one [of 2 PB_WT_STRING] remote_message_text(2) [of r] by (simp add: text_bytes_def string_bytes_def leb.simps)
  ultimately show ?thesis by (simp add: cmd_response_bytes_def)
qed

lemma encodes_fresh:
  assumes "encodes f bs" "length bs \<le> n" "n < 2 ^ 64"
  obtains os where "f (pb_ostream_from_buffer (replicate n c) n) = Ok os" "wrote os = bs"
proof -
  let ?s = "pb_ostream_from_buffer (replicate n c) n"
  have "ok_os ?s" "bytes_written ?s = 0" "max_size ?s = n" using assms(3) by (simp_all add: ok_os_def pb_ostream_from_buffer_def)
  moreover have "wrote ?s = []" by (simp add: wrote_def pb_ostream_from_buffer_def)
  ultimately have "f ?s = Ok (os_put bs ?s)" "wrote (os_put bs ?s) = bs"
    using assms wrote_put [of ?s bs] by (simp_all add: encodes_def)
  then show ?thesis by (rule that)
qed

lemma received_stream: "pb_istream_from_buffer (received (e @ xs)) (length e) = stream_of e (xs @ replicate (BUFSIZE - length (e @ xs)) 0xFF)"
  by (simp add: pb_istream_from_buffer_def stream_of_def received_def)

text \<open>C4.  A client of the command server gets what it asks for: for an identifier and nonempty
  strings of fewer than 30 characters, the request that \<open>pb_encode\<close> makes, sent with a zero byte
  behind it, makes the worker run exactly the script named in it, and the response the worker sends
  decodes to the client's identifier and the message that tells whether the script succeeded.\<close>

theorem cmdserver_runs_command:
  assumes "length i = 4" "fn \<noteq> []" "0 \<notin> set fn" "length fn < 30" "dat \<noteq> []" "0 \<notin> set dat" "length dat < 30"
    "length fn0 = 30" "length dat0 = 30" "length (cmd_request_bytes i fn dat @ 0 # rest) \<le> BUFSIZE" "0 \<le> write_err"
  shows "encodes (pb_encode CmdRequest_msg [Data i, Callback (Encode set_cmdserver_data) (fn @ [0]), Callback (Encode set_cmdserver_data) (dat @ [0])])
      (cmd_request_bytes i fn dat) \<and>
    (\<exists>response. cmdserver_worker fn0 dat0 run_script write_err (Inr (cmd_request_bytes i fn dat @ 0 # rest)) =
        Work_return 0 [Printed_fn fn, Run_script fn, Tcp_write response, Tcp_close] \<and>
      pb_decode CmdResponse_msg [Data [0, 0, 0, 0], Callback (Decode read_all) []] (stream_of response []) =
        Ok ([Data i, Callback (Decode read_all) (remote_message (run_script fn))], stream_of [] []))"
proof -
  let ?e = "cmd_request_bytes i fn dat"
  have "0 \<notin> set ?e"
    using int32_bytes_no_zero [OF assms(1), of "int32_field 1"] text_bytes_no_zero assms by (simp add: cmd_request_bytes_def)
  moreover have "?e \<noteq> []" by (simp add: cmd_request_bytes_def text_bytes_def tag_bytes_def leb.simps)
  ultimately have s: "scan_zero (received (?e @ 0 # rest)) 0 = Some (length ?e)" using scan_zero_request assms(10) by blast
  note d = cmd_request_decodes [OF assms(1,4,3,7,6,8,9)]
  obtain os where os: "pb_encode CmdResponse_msg (cmdserver_response i (run_script fn)) (pb_ostream_from_buffer (replicate BUFSIZE 0xFF) BUFSIZE) = Ok os"
    "wrote os = cmd_response_bytes i (remote_message (run_script fn))"
    using encodes_fresh [OF cmd_response_trip(1) [OF assms(1)], of "run_script fn" BUFSIZE "0xFF"] cmd_response_short [of i "run_script fn"]
    by (auto simp: BUFSIZE_def)
  have "cmdserver_worker fn0 dat0 run_script write_err (Inr (?e @ 0 # rest)) =
      Work_return 0 [Printed_fn fn, Run_script fn, Tcp_write (cmd_response_bytes i (remote_message (run_script fn))), Tcp_close]"
    using assms(3,4,11) by (simp add: cmdserver_worker_def s received_stream d c_str_padded os)
  then show ?thesis using cmd_response_trip(2) [OF assms(1)] cmd_request_encodes [OF assms(1,4,3,7,6)] by blast
qed

lemma systime_request:
  "cmd_request_bytes [89, 1, 0, 0] (bytes_of ''systime'') (bytes_of ''info'') =
    [8, 217, 2, 18, 7, 115, 121, 115, 116, 105, 109, 101, 26, 4, 105, 110, 102, 111]"
proof -
  have v: "unat (int32_value [89, 1, 0, 0]) = 345" by (simp add: int32_value_def)
  have "leb 345 = [217, 2]" by (simp add: leb.simps)
  then show ?thesis using v
    by (simp add: cmd_request_bytes_def int32_bytes_def text_bytes_def tag_bytes_def string_bytes_def leb.simps bytes_of_def)
qed

theorem cmdserver_runs_command_witness:
  "\<exists>response. cmdserver_worker (replicate 30 7) (replicate 30 7) (\<lambda>_. 0) 0
      (Inr [8, 217, 2, 18, 7, 115, 121, 115, 116, 105, 109, 101, 26, 4, 105, 110, 102, 111, 0]) =
      Work_return 0 [Printed_fn (bytes_of ''systime''), Run_script (bytes_of ''systime''), Tcp_write response, Tcp_close]"
  using cmdserver_runs_command [of "[89, 1, 0, 0]" "bytes_of ''systime''" "bytes_of ''info''" "replicate 30 7" "replicate 30 7" "[]" 0 "\<lambda>_. 0"]
  unfolding systime_request by (auto simp: bytes_of_def BUFSIZE_def)

text \<open>A request with an identifier and a name of 30 characters or more.\<close>

definition cmd_long_request :: "u8 list \<Rightarrow> u8 list \<Rightarrow> u8 list" where
  "cmd_long_request i fn = int32_bytes (int32_field 1) i @ text_bytes (string_callback 2) fn @ text_bytes (string_callback 3) [1]"

lemma get_data_long:
  assumes "length arg = 30" "30 \<le> length x" "length x < 1024"
  shows "get_cmdserver_data arg (stream_of x rest) = Ok (take 30 x, stream_of [] rest)"
  using assms pb_read_stream [of x "[]" rest]
  by (simp add: get_cmdserver_data_def stream_of_def)

lemma cmd_long_decodes:
  assumes "length i = 4" "0 \<notin> set fn" "30 \<le> length fn" "length fn < 1024" "length fn0 = 30" "length dat0 = 30"
  shows "pb_decode CmdRequest_msg [Data [0, 0, 0, 0], Callback (Decode get_cmdserver_data) fn0, Callback (Decode get_cmdserver_data) dat0]
        (stream_of (cmd_long_request i fn) rest) =
      Ok ([Data i, Callback (Decode get_cmdserver_data) (take 30 fn), Callback (Decode get_cmdserver_data) (padded [1])], stream_of [] rest)"
proof -
  have "field_trip (string_callback 2) (Callback (Encode set_cmdserver_data) (fn @ [0])) (Callback (Decode get_cmdserver_data) fn0)
      (Callback (Decode get_cmdserver_data) (take 30 fn)) (text_bytes (string_callback 2) fn)"
    using get_data_long [OF assms(5,3,4)] set_data_encodes(1) [OF c_str_append [OF assms(2)]] assms(4)
    by (intro trip_string) (simp_all add: string_callback_def)
  then have "\<forall>k<length (field_info CmdRequest_msg). field_trip (field_info CmdRequest_msg ! k)
      ([Data i, Callback (Encode set_cmdserver_data) (fn @ [0]), Callback (Encode set_cmdserver_data) ([1] @ [0])] ! k)
      ([Data [0, 0, 0, 0], Callback (Decode get_cmdserver_data) fn0, Callback (Decode get_cmdserver_data) dat0] ! k)
      ([Data i, Callback (Decode get_cmdserver_data) (take 30 fn), Callback (Decode get_cmdserver_data) (padded [1])] ! k)
      ([int32_bytes (int32_field 1) i, text_bytes (string_callback 2) fn, text_bytes (string_callback 3) [1]] ! k)"
    using int32_trip [of i "[0, 0, 0, 0]" 1] text_trip(1) [of "[1]", OF _ _ assms(6), of 3] assms(1)
    by (simp add: CmdRequest_msg_def All_less_Suc numeral_eq_Suc)
  from message_round_trip(2) [OF _ _ _ _ _ _ _ _ this] show ?thesis
    by (simp add: CmdRequest_msg_def cmd_long_request_def)
qed

lemma unterminated_overread:
  assumes "length bs \<le> BUFSIZE" "0 \<notin> set (drop 1 bs)"
  shows "scan_zero (received bs) 0 = None"
proof (rule scan_zero_misses)
  show "length (received bs) = BUFSIZE" using assms(1) by (simp add: received_def)
  fix k assume k: "0 < k" "k < BUFSIZE"
  show "received bs ! k \<noteq> 0"
  proof (cases "k < length bs")
    case True
    then have "received bs ! k = drop 1 bs ! (k - 1)" using k by (simp add: received_def nth_append)
    moreover have "drop 1 bs ! (k - 1) \<in> set (drop 1 bs)" using True k by (intro nth_mem) simp
    ultimately show ?thesis using assms(2) by metis
  qed (use k in \<open>simp add: received_def nth_append\<close>)
qed (simp add: BUFSIZE_def)

text \<open>C39.  The limits of the command server: a request of up to 128 bytes without a zero byte behind
  its first makes the worker read past its buffer, and a script name of 30 characters or more, which
  is copied without its end, makes it read past \<open>fn_name\<close>.\<close>

theorem cmdserver_overreads:
  "(length bs \<le> BUFSIZE \<and> 0 \<notin> set (drop 1 bs) \<longrightarrow>
      cmdserver_worker fn0 dat0 run_script write_err (Inr bs) = Work_fault) \<and>
   (length i = 4 \<and> 0 \<notin> set fn \<and> 30 \<le> length fn \<and> length fn0 = 30 \<and> length dat0 = 30 \<and>
      length (cmd_long_request i fn @ 0 # rest) \<le> BUFSIZE \<longrightarrow>
      cmdserver_worker fn0 dat0 run_script write_err (Inr (cmd_long_request i fn @ 0 # rest)) = Work_fault)"
proof (intro conjI impI; (elim conjE)?)
  assume "length bs \<le> BUFSIZE" "0 \<notin> set (drop 1 bs)"
  then show "cmdserver_worker fn0 dat0 run_script write_err (Inr bs) = Work_fault"
    using unterminated_overread [of bs] by (simp add: cmdserver_worker_def)
next
  assume a: "length i = 4" "0 \<notin> set fn" "30 \<le> length fn" "length fn0 = 30" "length dat0 = 30" "length (cmd_long_request i fn @ 0 # rest) \<le> BUFSIZE"
  let ?e = "cmd_long_request i fn"
  have n: "fn \<noteq> []" "length fn < 1024" using a(3,6) by (auto simp: cmd_long_request_def text_bytes_def string_bytes_def BUFSIZE_def)
  have "0 \<notin> set ?e"
    using int32_bytes_no_zero [OF a(1), of "int32_field 1"] text_bytes_no_zero a(2) n(1) by (simp add: cmd_long_request_def)
  moreover have "?e \<noteq> []" by (simp add: cmd_long_request_def text_bytes_def tag_bytes_def leb.simps)
  ultimately have s: "scan_zero (received (?e @ 0 # rest)) 0 = Some (length ?e)" using scan_zero_request a(6) by blast
  have "c_str (take 30 fn) = None" using a(2) by (auto simp: c_str_def dest: in_set_takeD)
  then show "cmdserver_worker fn0 dat0 run_script write_err (Inr (?e @ 0 # rest)) = Work_fault"
    using cmd_long_decodes [OF a(1-3) n(2) a(4,5)] by (simp add: cmdserver_worker_def s received_stream)
qed

theorem cmdserver_overreads_witness:
  "cmdserver_worker (replicate 30 7) (replicate 30 7) (\<lambda>_. 0) 0 (Inr [8, 217, 2]) = Work_fault \<and>
   cmdserver_worker (replicate 30 7) (replicate 30 7) (\<lambda>_. 0) 0 (Inr (cmd_long_request [0, 0, 0, 0] (replicate 30 97) @ [0])) = Work_fault"
proof -
  have "length (cmd_long_request [0, 0, 0, 0] (replicate 30 97) @ [0]) \<le> BUFSIZE"
    by (simp add: cmd_long_request_def int32_bytes_def text_bytes_def tag_bytes_def string_bytes_def leb.simps BUFSIZE_def)
  then show ?thesis
    using cmdserver_overreads [of "[8, 217, 2]" "replicate 30 7" "replicate 30 7" "\<lambda>_. 0" 0 "[0, 0, 0, 0]" "replicate 30 97" "[]"]
    by (simp add: BUFSIZE_def)
qed

section \<open>The test server prints the number\<close>

lemma le_value_store: "le_value (store_le 4 (ucast t)) = (t :: u32)"
proof (rule bit_word_eqI)
  fix k assume k: "k < LENGTH(32)"
  then have "k div 8 < 4" by (simp add: div_less_iff_less_mult)
  moreover have "8 * (k div 8) + k mod 8 = k" by simp
  ultimately show "bit (le_value (store_le 4 (ucast t)) :: u32) k = bit t k"
    using k by (simp add: bit_le_value store_le_def bit_simps del: le_value.simps)
qed

lemma le_value_zeros: "le_value (replicate 4 0) = (0 :: u32)"
  by (simp add: numeral_eq_Suc)

lemma simple_message_trip:
  assumes "length b = 4"
  shows "encodes (pb_encode SimpleMessage_msg [Data b]) (int32_bytes (int32_field 1) b)"
    "pb_decode SimpleMessage_msg [Data [0, 0, 0, 0]] (stream_of (int32_bytes (int32_field 1) b) rest) = Ok ([Data b], stream_of [] rest)"
proof -
  have "\<forall>k<length (field_info SimpleMessage_msg). field_trip (field_info SimpleMessage_msg ! k)
      ([Data b] ! k) ([Data [0, 0, 0, 0]] ! k) ([Data b] ! k) ([int32_bytes (int32_field 1) b] ! k)"
    using int32_trip [OF assms, of "[0, 0, 0, 0]" 1] by (simp add: SimpleMessage_msg_def)
  note t = message_round_trip [OF _ _ _ _ _ _ _ _ this]
  show "encodes (pb_encode SimpleMessage_msg [Data b]) (int32_bytes (int32_field 1) b)"
    using t(1) by (simp add: SimpleMessage_msg_def)
  show "pb_decode SimpleMessage_msg [Data [0, 0, 0, 0]] (stream_of (int32_bytes (int32_field 1) b) rest) = Ok ([Data b], stream_of [] rest)"
    using t(2) by (simp add: SimpleMessage_msg_def)
qed

lemma int32_bytes_short: "unat n < 16 \<Longrightarrow> length (int32_bytes (int32_field n) b) \<le> 11"
  using leb_length_u64 [of "int32_value b"] tag_bytes_one [of n PB_WT_VARINT] by (simp add: int32_bytes_def)

lemma int32_bytes_empty:
  assumes "length b = 4" "int32_bytes f b = []"
  shows "b = replicate 4 0"
proof -
  have "tag_bytes PB_WT_VARINT (tag f) \<noteq> []" unfolding tag_bytes_def using leb_first by (metis list.distinct(1))
  then have "\<forall>c\<in>set b. c = 0" using assms(2) unfolding int32_bytes_def by (metis append_is_Nil_conv)
  then show ?thesis using assms(1) by (metis replicate_length_same)
qed

lemma pbserver_prints:
  assumes "n \<noteq> 0" "b = store_le 4 (ucast n)" "e = int32_bytes (int32_field 1) b"
  shows "encodes (pb_encode SimpleMessage_msg [Data b]) e" "pbserver_worker (Inr (e @ [0])) = Work_return 0 [Printed_number n, Tcp_close]"
proof -
  have l: "length b = 4" by (simp add: assms(2) store_le_def)
  show "encodes (pb_encode SimpleMessage_msg [Data b]) e" using simple_message_trip(1) [OF l] assms(3) by simp
  have "e \<noteq> []" using int32_bytes_empty [OF l] assms le_value_store [of n] le_value_zeros by metis
  moreover have "0 \<notin> set e" using int32_bytes_no_zero [OF l, of "int32_field 1"] assms(3) by simp
  moreover have "length e \<le> 11" using int32_bytes_short [of 1 b] assms(3) by simp
  ultimately have s: "scan_zero (received (e @ [0])) 0 = Some (length e)" using scan_zero_request by (simp add: BUFSIZE_def)
  have "le_value b = n" using assms(2) le_value_store by simp
  then show "pbserver_worker (Inr (e @ [0])) = Work_return 0 [Printed_number n, Tcp_close]"
    using simple_message_trip(2) [OF l, folded assms(3)] by (simp add: pbserver_worker_def s received_stream)
qed

section \<open>The Raft sender and the Raft server\<close>

definition pus1 :: "u8 list" where "pus1 = bytes_of ''pus1''"

definition raft_bytes :: "u8 list \<Rightarrow> u32 \<Rightarrow> u8 list" where
  "raft_bytes cmd n = text_bytes (string_callback 1) pus1 @ int32_bytes (int32_field 2) (store_le 4 (ucast n)) @ text_bytes (string_callback 5) cmd"

lemma pus1_text: "0 \<notin> set pus1" "length pus1 = 4" "pus1 \<noteq> []"
  by (simp_all add: pus1_def bytes_of_def)

lemma raft_request_trip:
  assumes "length cmd < 30" "0 \<notin> set cmd"
  shows raft_encodes: "encodes (pb_encode AppendEntriesRequest_msg (raft_request (cmd @ [0]) n)) (raft_bytes cmd n)"
    and raft_decodes: "length id0 = 30 \<Longrightarrow> length entries0 = 30 \<Longrightarrow>
      pb_decode AppendEntriesRequest_msg [Callback (Decode get_string) id0, Data [0, 0, 0, 0], Data [0, 0, 0, 0], Data [0, 0, 0, 0],
            Callback (Decode get_string) entries0, Data [0, 0, 0, 0]] (stream_of (raft_bytes cmd n) rest) =
      Ok ([Callback (Decode get_string) (padded pus1), Data (store_le 4 (ucast n)), Data [0, 0, 0, 0], Data [0, 0, 0, 0],
            Callback (Decode get_string) (padded cmd), Data [0, 0, 0, 0]], stream_of [] rest)"
proof -
  let ?z = "[0, 0, 0, 0] :: u8 list" and ?n = "store_le 4 (ucast n)"
  have z: "int32_bytes f ?z = []" for f by (simp add: int32_bytes_def)
  have l: "length ?n = 4" "length ?z = 4" by (simp_all add: store_le_def)
  have t: "\<forall>k<length (field_info AppendEntriesRequest_msg). field_trip (field_info AppendEntriesRequest_msg ! k)
      (raft_request (cmd @ [0]) n ! k)
      ([Callback (Decode get_string) id0, Data ?z, Data ?z, Data ?z, Callback (Decode get_string) entries0, Data ?z] ! k)
      ([Callback (Decode get_string) (padded pus1), Data ?n, Data ?z, Data ?z, Callback (Decode get_string) (padded cmd), Data ?z] ! k)
      ([text_bytes (string_callback 1) pus1, int32_bytes (int32_field 2) ?n, [], [], text_bytes (string_callback 5) cmd, []] ! k)"
    if "length id0 = 30" "length entries0 = 30" for id0 entries0
    using text_trip(2) [OF _ pus1_text(1) that(1), of 1] text_trip(2) [OF assms that(2), of 5] pus1_text(2)
      int32_trip [OF l, of 2] int32_trip [OF l(2) l(2), of 3] int32_trip [OF l(2) l(2), of 4] int32_trip [OF l(2) l(2), of 6]
    by (simp add: AppendEntriesRequest_msg_def raft_request_def All_less_Suc numeral_eq_Suc z flip: pus1_def)
  show "encodes (pb_encode AppendEntriesRequest_msg (raft_request (cmd @ [0]) n)) (raft_bytes cmd n)"
    using message_round_trip(1) [OF _ _ _ _ _ _ _ _ t [of "replicate 30 0" "replicate 30 0"]]
    by (simp add: AppendEntriesRequest_msg_def raft_request_def raft_bytes_def)
  assume "length id0 = 30" "length entries0 = 30"
  from message_round_trip(2) [OF _ _ _ _ _ _ _ _ t [OF this]]
  show "pb_decode AppendEntriesRequest_msg [Callback (Decode get_string) id0, Data [0, 0, 0, 0], Data [0, 0, 0, 0], Data [0, 0, 0, 0],
            Callback (Decode get_string) entries0, Data [0, 0, 0, 0]] (stream_of (raft_bytes cmd n) rest) =
      Ok ([Callback (Decode get_string) (padded pus1), Data (store_le 4 (ucast n)), Data [0, 0, 0, 0], Data [0, 0, 0, 0],
            Callback (Decode get_string) (padded cmd), Data [0, 0, 0, 0]], stream_of [] rest)"
    by (simp add: AppendEntriesRequest_msg_def raft_request_def raft_bytes_def)
qed

lemma text_bytes_short: "unat n < 16 \<Longrightarrow> length x < 128 \<Longrightarrow> length (text_bytes (string_callback n) x) = length x + 2"
  using tag_bytes_one [of n PB_WT_STRING] by (simp add: text_bytes_def string_bytes_def leb.simps [of "length x"])

lemma raft_bytes_short: "length cmd < 30 \<Longrightarrow> length (raft_bytes cmd n) < 50"
  using text_bytes_short [of 1 pus1] text_bytes_short [of 5 cmd] int32_bytes_short [of 2 "store_le 4 (ucast n)"] pus1_text(2)
  by (simp add: raft_bytes_def)

lemma raft_bytes_no_zero:
  assumes "cmd \<noteq> []" "0 \<notin> set cmd"
  shows "0 \<notin> set (raft_bytes cmd n)" "raft_bytes cmd n \<noteq> []"
proof -
  have "length (store_le 4 (ucast n)) = 4" by (simp add: store_le_def)
  then show "0 \<notin> set (raft_bytes cmd n)"
    using int32_bytes_no_zero [of "store_le 4 (ucast n)" "int32_field 2"] text_bytes_no_zero pus1_text assms by (simp add: raft_bytes_def)
  show "raft_bytes cmd n \<noteq> []" using text_bytes_short [of 1 pus1] pus1_text(2) by (auto simp: raft_bytes_def)
qed

definition raft_calls :: "bool \<Rightarrow> u64 \<Rightarrow> u8 list \<Rightarrow> u32 \<Rightarrow> work_call list" where
  "raft_calls scope_nil ret cmd n = [Printed_entries pus1 cmd [n, 0, 0, 0], Acquire_mu_lock] @ (if scope_nil then [New_scope] else []) @
     [Mu_eval cmd, Printed_success (ret = 0), Release_mu_lock, Tcp_close]"

lemma raft_server_evaluates:
  assumes "cmd \<noteq> []" "0 \<notin> set cmd" "length cmd < 30" "length id0 = 30" "length entries0 = 30" "eval cmd = Some r"
  shows "raftserver_worker id0 entries0 scope_nil ret eval (Inr (raft_bytes cmd n @ [0])) = Work_return 0 (raft_calls scope_nil r cmd n)"
proof -
  have s: "scan_zero (received (raft_bytes cmd n @ [0])) 0 = Some (length (raft_bytes cmd n))"
    using scan_zero_request raft_bytes_no_zero [OF assms(1,2)] raft_bytes_short [OF assms(3), of n] by (simp add: BUFSIZE_def)
  have z: "le_value [0, 0, 0, 0] = (0 :: u32)" by simp
  have "c_str (padded pus1) = Some pus1" "c_str (padded cmd) = Some cmd" using c_str_padded assms pus1_text by simp_all
  then show ?thesis using assms(6)
    by (simp add: raftserver_worker_def raft_calls_def s received_stream raft_decodes [OF assms(3,2,4,5)] le_value_store z del: le_value.simps)
qed

text \<open>The Raft sender and the Raft server agree on the message, but not on its end: the request
  of \<open>raft_sender\<close>, and of a round of \<open>raft_worker\<close>, makes the server evaluate the sender's command
  and print its term when a zero byte is sent behind it; sent as the sender sends it, it makes the
  server read past its buffer.\<close>

theorem raft_sender_server:
  assumes "cmd \<noteq> []" "0 \<notin> set cmd" "length cmd < 30" "length id0 = 30" "length entries0 = 30" "eval cmd = Some r"
    "wait_configured polls = Some sleeps" "0 \<le> open_err"
  shows "\<exists>request. raft_sender open_err polls (cmd @ [0]) n = Some (Work_return 0 (sleeps @ [Udp_open 8811, Udp_send request, Udp_close])) \<and>
    (cmd = bytes_of ''heartbeat'' \<and> n = 1000 \<longrightarrow>
      raft_worker open_err polls = Some (Work_return 0 (sleeps @ [Udp_open 8811, Udp_send request, Thread_sleep 1200, Udp_close]))) \<and>
    raftserver_worker id0 entries0 scope_nil ret eval (Inr (request @ [0])) = Work_return 0 (raft_calls scope_nil r cmd n) \<and>
    raftserver_worker id0 entries0 scope_nil ret eval (Inr request) = Work_fault"
proof -
  obtain os where os: "pb_encode AppendEntriesRequest_msg (raft_request (cmd @ [0]) n) (pb_ostream_from_buffer (replicate 128 0xFF) 128) = Ok os"
    "wrote os = raft_bytes cmd n"
    using encodes_fresh [OF raft_encodes [OF assms(3,2)], of n 128 "0xFF"] raft_bytes_short [OF assms(3), of n] by auto
  have "0 \<notin> set (drop 1 (raft_bytes cmd n))" using raft_bytes_no_zero [OF assms(1,2), of n] by (metis in_set_dropD)
  then have "raftserver_worker id0 entries0 scope_nil ret eval (Inr (raft_bytes cmd n)) = Work_fault"
    using unterminated_overread [of "raft_bytes cmd n"] raft_bytes_short [OF assms(3), of n] by (simp add: raftserver_worker_def BUFSIZE_def)
  moreover have "raft_sender open_err polls (cmd @ [0]) n = Some (Work_return 0 (sleeps @ [Udp_open 8811, Udp_send (raft_bytes cmd n), Udp_close]))"
    using os assms(7,8) by (simp add: raft_sender_def)
  moreover have "raft_worker open_err polls = Some (Work_return 0 (sleeps @ [Udp_open 8811, Udp_send (raft_bytes cmd n), Thread_sleep 1200, Udp_close]))"
    if "cmd = bytes_of ''heartbeat'' \<and> n = 1000"
    using os assms(7,8) that by (simp add: raft_worker_def)
  ultimately show ?thesis using raft_server_evaluates [of cmd id0 entries0 eval r, OF assms(1-6)] by blast
qed

theorem raft_sender_server_witness:
  "\<exists>request. raft_sender 0 [False, True] (bytes_of ''heartbeat'' @ [0]) 1000 =
      Some (Work_return 0 [Thread_sleep 2000, Udp_open 8811, Udp_send request, Udp_close]) \<and>
    raftserver_worker (replicate 30 7) (replicate 30 7) True 5 (\<lambda>_. Some 0) (Inr (request @ [0])) =
      Work_return 0 (raft_calls True 0 (bytes_of ''heartbeat'') 1000)"
  using raft_sender_server [of "bytes_of ''heartbeat''" "replicate 30 7" "replicate 30 7" "\<lambda>_. Some 0" 0 "[False, True]" "[Thread_sleep 2000]" 0 1000 True 5]
  by (simp add: bytes_of_def) blast

end
