(* ===== verification/Binn.thy ===== *)
theory Binn
  imports Prelude
begin

unbundle bit_operations_syntax

text \<open>
  The serialisation library \<open>lib/binn\<close>: the types, the containers being written, and the functions
  that add values to them and write their header (\<open>binn.c\<close>).

  The machine is little-endian: an integer in memory is the list of its bytes, lowest first, and
  \<open>copy_be16\<close>, \<open>copy_be32\<close> and \<open>copy_be64\<close> reverse it.  A C \<open>int\<close> is an integer or, where it is
  a size, a natural number; an overflow is undefined behaviour and, like an access outside an object,
  the value \<open>None\<close>.  A boolean result comes with the structure after the call.  The allocator is
  an argument: \<open>mem n\<close> are the \<open>n\<close> bytes, of any contents, that \<open>malloc_fn(n)\<close> points at, or
  \<open>None\<close> when it returns \<open>NULL\<close>.
\<close>

section \<open>Types\<close>

definition BINN_STORAGE_NOBYTES :: int where "BINN_STORAGE_NOBYTES = 0x00"
definition BINN_STORAGE_BYTE :: int where "BINN_STORAGE_BYTE = 0x20"
definition BINN_STORAGE_WORD :: int where "BINN_STORAGE_WORD = 0x40"
definition BINN_STORAGE_DWORD :: int where "BINN_STORAGE_DWORD = 0x60"
definition BINN_STORAGE_QWORD :: int where "BINN_STORAGE_QWORD = 0x80"
definition BINN_STORAGE_STRING :: int where "BINN_STORAGE_STRING = 0xA0"
definition BINN_STORAGE_BLOB :: int where "BINN_STORAGE_BLOB = 0xC0"
definition BINN_STORAGE_CONTAINER :: int where "BINN_STORAGE_CONTAINER = 0xE0"

definition BINN_LIST :: int where "BINN_LIST = 0xE0"
definition BINN_MAP :: int where "BINN_MAP = 0xE1"
definition BINN_OBJECT :: int where "BINN_OBJECT = 0xE2"
definition BINN_TRUE :: int where "BINN_TRUE = 0x01"
definition BINN_FALSE :: int where "BINN_FALSE = 0x02"
definition BINN_UINT8 :: int where "BINN_UINT8 = 0x20"
definition BINN_INT8 :: int where "BINN_INT8 = 0x21"
definition BINN_UINT16 :: int where "BINN_UINT16 = 0x40"
definition BINN_INT16 :: int where "BINN_INT16 = 0x41"
definition BINN_UINT32 :: int where "BINN_UINT32 = 0x60"
definition BINN_INT32 :: int where "BINN_INT32 = 0x61"
definition BINN_UINT64 :: int where "BINN_UINT64 = 0x80"
definition BINN_INT64 :: int where "BINN_INT64 = 0x81"
definition BINN_BOOL :: int where "BINN_BOOL = 0x80061"

lemmas storage_defs = BINN_STORAGE_NOBYTES_def BINN_STORAGE_BYTE_def BINN_STORAGE_WORD_def BINN_STORAGE_DWORD_def
  BINN_STORAGE_QWORD_def BINN_STORAGE_STRING_def BINN_STORAGE_BLOB_def BINN_STORAGE_CONTAINER_def

lemmas int_type_defs = BINN_UINT8_def BINN_INT8_def BINN_UINT16_def BINN_INT16_def BINN_UINT32_def BINN_INT32_def
  BINN_UINT64_def BINN_INT64_def

lemmas container_defs = BINN_LIST_def BINN_MAP_def BINN_OBJECT_def

definition binn_create_type :: "int \<Rightarrow> int \<Rightarrow> int" where
  "binn_create_type storage_type data_type_index =
     (if data_type_index < 0 then - 1
      else if storage_type < BINN_STORAGE_NOBYTES \<or> storage_type > BINN_STORAGE_CONTAINER then - 1
      else if data_type_index < 16 then storage_type OR data_type_index
      else if data_type_index < 4096 then push_bit 8 (storage_type OR 0x10) OR drop_bit 4 data_type_index
      else - 1)"

text \<open>The result, the storage type and the extra type; a virtual type is masked and read again.\<close>

definition type_info16 :: "int \<Rightarrow> bool \<times> int \<times> int" where
  "type_info16 long_type =
     (if long_type \<le> 0xFF then (True, long_type AND 0xE0, long_type AND 0x0F)
      else (True, drop_bit 8 (long_type AND 0xE000), drop_bit 4 (long_type AND 0x0FFF)))"

definition binn_get_type_info :: "int \<Rightarrow> bool \<times> int \<times> int" where
  "binn_get_type_info long_type =
     (if long_type < 0 then (False, - 1, - 1)
      else if long_type \<le> 0xFFFF then type_info16 long_type
      else if long_type AND 0x80000 \<noteq> 0 then type_info16 (long_type AND 0xFFFF)
      else (False, - 1, - 1))"

definition binn_get_write_storage :: "int \<Rightarrow> int" where
  "binn_get_write_storage t =
     (if t \<in> {0xA6, 0xA7} then BINN_STORAGE_STRING
      else if t = BINN_BOOL then BINN_STORAGE_NOBYTES
      else fst (snd (binn_get_type_info t)))"

definition int_types :: "int list" where
  "int_types = [BINN_INT8, BINN_INT16, BINN_INT32, BINN_INT64, BINN_UINT8, BINN_UINT16, BINN_UINT32, BINN_UINT64]"

definition type_family :: "int \<Rightarrow> int" where
  "type_family t =
     (if t \<in> {BINN_LIST, BINN_MAP, BINN_OBJECT} then 0xF7
      else if t \<in> set int_types then 0xF2
      else if t \<in> {0x62, 0x82, 0xA6, 0xA7} then 0xF3
      else if t \<in> {0xA0, 0xB001, 0xB005, 0xB002, 0xB003, 0xB004} then 0xF4
      else if t \<in> {0xC0, 0xD001, 0xD002, 0xD003, 0xD004} then 0xF5
      else if t \<in> {0xA4, 0x83, 0xA2, 0xA3, 0xA1} then 0xF4
      else if t = BINN_BOOL then 0xF6
      else if t = 0x00 then 0xF1
      else 0x00)"

definition BINN_FAMILY_INT :: int where "BINN_FAMILY_INT = 0xF2"

section \<open>The structure of a container being written\<close>

definition MAX_BINN_HEADER :: nat where "MAX_BINN_HEADER = 9"
definition MIN_BINN_SIZE :: nat where "MIN_BINN_SIZE = 3"
definition CHUNK_SIZE :: nat where "CHUNK_SIZE = 256"

text \<open>\<open>ptr\<close> is the offset in \<open>pbuf\<close> that the pointer has once the header is written.\<close>

record binn =
  writable :: bool
  dirty :: bool
  pbuf :: "u8 list"
  pre_allocated :: bool
  alloc_size :: nat
  used_size :: nat
  btype :: int
  ptr :: nat
  bsize :: nat
  bcount :: nat
  disable_int_compression :: bool

text \<open>A caller's buffer is \<open>Some\<close> object.  \<open>None\<close> is the result \<open>FALSE\<close>, without a structure.\<close>

definition binn_create :: "(nat \<Rightarrow> u8 list option) \<Rightarrow> int \<Rightarrow> int \<Rightarrow> u8 list option \<Rightarrow> binn option" where
  "binn_create mem t sz pointer =
     (if t \<notin> {BINN_LIST, BINN_MAP, BINN_OBJECT} \<or> sz < 0 then None
      else if sz < int MIN_BINN_SIZE \<and> pointer \<noteq> None then None
      else let sz = (if sz < int MIN_BINN_SIZE then 0 else nat sz);
          item = \<lparr>writable = True, dirty = True, pbuf = [], pre_allocated = True, alloc_size = sz,
            used_size = MAX_BINN_HEADER, btype = t, ptr = 0, bsize = 0, bcount = 0, disable_int_compression = False\<rparr>
        in case pointer of Some b \<Rightarrow> Some (item\<lparr>pbuf := b\<rparr>)
          | None \<Rightarrow> let sz = (if sz = 0 then CHUNK_SIZE else sz)
            in map_option (\<lambda>b. item\<lparr>pbuf := b, pre_allocated := False, alloc_size := sz\<rparr>) (mem sz))"

text \<open>Sizes are kept below \<open>2^31\<close>; a size of zero would be doubled for ever.\<close>

definition INT_MAX :: nat where "INT_MAX = 2 ^ 31 - 1"

function CalcAllocation :: "nat \<Rightarrow> nat \<Rightarrow> nat option" where
  "CalcAllocation needed_size calc_size =
     (if calc_size < needed_size
      then if calc_size = 0 \<or> 2 * calc_size > INT_MAX then None else CalcAllocation needed_size (2 * calc_size)
      else Some calc_size)"
  by pat_completeness auto
termination by (relation "measure (\<lambda>(n, c). n - c)") auto

declare CalcAllocation.simps [simp del]

definition CheckAllocation :: "(nat \<Rightarrow> u8 list option) \<Rightarrow> binn \<Rightarrow> nat \<Rightarrow> (bool \<times> binn) option" where
  "CheckAllocation mem item add_size =
     (if used_size item + add_size > INT_MAX then None
      else if used_size item + add_size > alloc_size item
      then if pre_allocated item then Some (False, item)
        else do {
          alloc_size \<leftarrow> CalcAllocation (used_size item + add_size) (alloc_size item);
          case mem alloc_size of None \<Rightarrow> Some (False, item)
          | Some b \<Rightarrow> Some (True, item\<lparr>pbuf := take alloc_size (pbuf item) @ drop (length (pbuf item)) b, alloc_size := alloc_size\<rparr>)
        }
      else Some (True, item))"

section \<open>Integers\<close>

fun le_uint :: "u8 list \<Rightarrow> nat" where
  "le_uint [] = 0"
| "le_uint (b # bs) = unat b + 256 * le_uint bs"

definition le_sint :: "u8 list \<Rightarrow> int" where
  "le_sint bs = (if 2 * le_uint bs \<ge> 256 ^ length bs then int (le_uint bs) - 256 ^ length bs else int (le_uint bs))"

definition be32_bytes :: "nat \<Rightarrow> u8 list" where
  "be32_bytes n = [of_nat (n div 2 ^ 24), of_nat (n div 2 ^ 16), of_nat (n div 2 ^ 8), of_nat n]"

text \<open>Bytes of an integer type, and its value.\<close>

definition int_width :: "int \<Rightarrow> nat" where
  "int_width t = (if t \<in> {BINN_INT64, BINN_UINT64} then 8 else if t \<in> {BINN_INT32, BINN_UINT32} then 4
     else if t \<in> {BINN_INT16, BINN_UINT16} then 2 else 1)"

definition signed_type :: "int \<Rightarrow> bool" where
  "signed_type t \<longleftrightarrow> t \<in> {BINN_INT8, BINN_INT16, BINN_INT32, BINN_INT64}"

definition int_value :: "int \<Rightarrow> u8 list \<Rightarrow> int" where
  "int_value t bs = (let bs = take (int_width t) bs in if signed_type t then le_sint bs else int (le_uint bs))"

text \<open>The storage type and the type; the pointer does not move on a little-endian machine.\<close>

definition compress_int :: "int \<Rightarrow> int \<Rightarrow> u8 list \<Rightarrow> (int \<times> int) option" where
  "compress_int storage_type t psource =
     (if storage_type = BINN_STORAGE_BYTE then Some (storage_type, t)
      else if length psource < int_width t then None
      else let v = int_value t psource;
          type2 = (if v < 0
            then if v \<ge> - (2 ^ 7) then BINN_INT8 else if v \<ge> - (2 ^ 15) then BINN_INT16 else if v \<ge> - (2 ^ 31) then BINN_INT32 else 0
            else if v < 2 ^ 8 then BINN_UINT8 else if v < 2 ^ 16 then BINN_UINT16 else if v < 2 ^ 32 then BINN_UINT32 else 0)
        in Some (if type2 \<noteq> 0 \<and> type2 \<noteq> t then (binn_get_write_storage type2, type2) else (storage_type, t)))"

section \<open>Adding a value\<close>

text \<open>The value and its size: \<open>FALSE\<close> is \<open>None\<close>.\<close>

definition arg_size :: "int \<Rightarrow> cptr \<Rightarrow> int \<Rightarrow> (nat \<times> nat) option option" where
  "arg_size storage_type pvalue sz =
     (if storage_type = BINN_STORAGE_NOBYTES then Some (Some (0, 0))
      else if storage_type = BINN_STORAGE_BYTE then Some (Some (1, 1))
      else if storage_type = BINN_STORAGE_WORD then Some (Some (2, 2))
      else if storage_type = BINN_STORAGE_DWORD then Some (Some (4, 4))
      else if storage_type = BINN_STORAGE_QWORD then Some (Some (8, 8))
      else if storage_type = BINN_STORAGE_BLOB then Some (if sz < 0 then None else Some (nat sz, nat sz + 4))
      else if storage_type = BINN_STORAGE_STRING
      then if sz < 0 then Some None
        else if sz = 0
        then (case pvalue of None \<Rightarrow> Some (Some (0, 5)) | Some bs \<Rightarrow> map_option (\<lambda>s. Some (length s, length s + 5)) (c_str bs))
        else Some (Some (nat sz, nat sz + 5))
      else if storage_type = BINN_STORAGE_CONTAINER then Some (if sz \<le> 0 then None else Some (nat sz, nat sz))
      else Some None)"

definition type_bytes :: "int \<Rightarrow> int \<Rightarrow> u8 list" where
  "type_bytes storage_type t =
     (if storage_type = BINN_STORAGE_CONTAINER then []
      else if t > 255 then [of_int (t div 256), of_int t] else [of_int t])"

definition size_bytes :: "nat \<Rightarrow> u8 list" where
  "size_bytes n = (if n > 127 then be32_bytes (n + 2 ^ 31) else [of_nat n])"

definition data_bytes :: "int \<Rightarrow> u8 list \<Rightarrow> u8 list" where
  "data_bytes storage_type bs =
     (if storage_type = BINN_STORAGE_BLOB then size_bytes (length bs) @ bs
      else if storage_type = BINN_STORAGE_STRING then size_bytes (length bs) @ bs @ [0]
      else if storage_type = BINN_STORAGE_CONTAINER then bs
      else rev bs)"

definition AddValue :: "(nat \<Rightarrow> u8 list option) \<Rightarrow> binn \<Rightarrow> int \<Rightarrow> cptr \<Rightarrow> int \<Rightarrow> (bool \<times> binn) option" where
  "AddValue mem item t pvalue sz =
     (let storage_type = fst (snd (binn_get_type_info t))
      in if pvalue = None \<and> storage_type \<noteq> BINN_STORAGE_NOBYTES \<and>
          \<not> (storage_type \<in> {BINN_STORAGE_BLOB, BINN_STORAGE_STRING} \<and> sz = 0) then Some (False, item)
      else do {
        (storage_type, t) \<leftarrow> (if type_family t = BINN_FAMILY_INT \<and> \<not> disable_int_compression item
          then (case pvalue of None \<Rightarrow> None | Some bs \<Rightarrow> compress_int storage_type t bs) else Some (storage_type, t));
        arg \<leftarrow> arg_size storage_type pvalue sz;
        case arg of None \<Rightarrow> Some (False, item)
        | Some (sz, ArgSize) \<Rightarrow> do {
            (ok, item) \<leftarrow> CheckAllocation mem item (ArgSize + 2);
            if \<not> ok then Some (False, item)
            else do {
              bs \<leftarrow> memcpy_out pvalue sz;
              let bs = type_bytes storage_type t @ data_bytes storage_type bs;
              b \<leftarrow> memcpy_in (pbuf item) (used_size item) bs;
              Some (True, item\<lparr>pbuf := b, used_size := used_size item + length bs, dirty := True\<rparr>)
            }
          }
      })"

definition binn_list_add_raw :: "(nat \<Rightarrow> u8 list option) \<Rightarrow> binn \<Rightarrow> int \<Rightarrow> cptr \<Rightarrow> int \<Rightarrow> (bool \<times> binn) option" where
  "binn_list_add_raw mem item t pvalue sz =
     (if btype item \<noteq> BINN_LIST \<or> \<not> writable item then Some (False, item)
      else do {
        (ok, item) \<leftarrow> AddValue mem item t pvalue sz;
        Some (if ok then (True, item\<lparr>bcount := bcount item + 1\<rparr>) else (False, item))
      })"

section \<open>The header\<close>

text \<open>The count, the size and the type are written backwards from the end of the space that is kept
  for the header.\<close>

definition binn_save_header :: "binn \<Rightarrow> binn option" where
  "binn_save_header item =
     (let sz = used_size item - MAX_BINN_HEADER + 3 + (if bcount item > 127 then 3 else 0);
          cnt = size_bytes (bcount item);
          szb = (if sz > 127 then be32_bytes (sz + 3 + 2 ^ 31) else [of_nat sz]);
          sz = (if sz > 127 then sz + 3 else sz);
          hd = of_int (btype item) # szb @ cnt;
          p = MAX_BINN_HEADER - length hd
      in do {
        b \<leftarrow> memcpy_in (pbuf item) p hd;
        Some (item\<lparr>pbuf := b, ptr := p, bsize := sz, dirty := False\<rparr>)
      })"

section \<open>Walking through a container\<close>

text \<open>Pointers are offsets from the start of the container.  Four bytes are read big-endian; the mark of
  a long size is its highest bit.\<close>

definition get_be32 :: "u8 list \<Rightarrow> nat \<Rightarrow> nat option" where
  "get_be32 b p = map_option (\<lambda>bs. le_uint (rev bs)) (memcpy_out (Some (drop p b)) 4)"

text \<open>A returned null pointer is \<open>Some None\<close>.\<close>

definition AdvanceDataPos :: "u8 list \<Rightarrow> nat \<Rightarrow> nat \<Rightarrow> nat option option" where
  "AdvanceDataPos b p plimit =
     (if p > plimit then Some None
      else do {
        byte \<leftarrow> peek b p;
        let storage_type = uint (byte AND 0xE0);
        let p = (if byte AND 0x10 \<noteq> 0 then p + 2 else p + 1);
        r \<leftarrow> (if storage_type = BINN_STORAGE_NOBYTES then Some (Some p)
          else if storage_type = BINN_STORAGE_BYTE then Some (Some (p + 1))
          else if storage_type = BINN_STORAGE_WORD then Some (Some (p + 2))
          else if storage_type = BINN_STORAGE_DWORD then Some (Some (p + 4))
          else if storage_type = BINN_STORAGE_QWORD then Some (Some (p + 8))
          else if p > plimit then Some None
          else do {
            c \<leftarrow> peek b p;
            if c AND 0x80 \<noteq> 0
            then if p + 3 > plimit then Some None
              else do {
                n \<leftarrow> get_be32 b p;
                let n = n mod 2 ^ 31;
                Some (Some (if storage_type = BINN_STORAGE_CONTAINER then p + n - 1
                  else if storage_type = BINN_STORAGE_STRING then p + 4 + n + 1 else p + 4 + n))
              }
            else Some (Some (if storage_type = BINN_STORAGE_CONTAINER then p + unat c - 1
                else if storage_type = BINN_STORAGE_STRING then p + 1 + unat c + 1 else p + 1 + unat c))
          });
        Some (case r of None \<Rightarrow> None | Some p \<Rightarrow> if p > plimit then None else Some p)
      })"

text \<open>The identifier and the new position.  The masks of the first byte select its low bits, so the
  identifier is put together by arithmetic.\<close>

definition read_map_id :: "u8 list \<Rightarrow> nat \<Rightarrow> nat \<Rightarrow> (int \<times> nat) option" where
  "read_map_id b p plimit = do {
     c \<leftarrow> peek b p;
     let p = p + 1;
     let extra_bytes = unat (drop_bit 5 (c AND 0x60)) + 1;
     if c AND 0x80 \<noteq> 0 \<and> p + extra_bytes > plimit then Some (0, p + extra_bytes)
     else if c AND 0x80 = 0
     then Some ((if c AND 0x40 \<noteq> 0 then - int (unat (c AND 0x3F)) else int (unat (c AND 0x3F))), p)
     else do {
       bs \<leftarrow> memcpy_out (Some (drop p b)) extra_bytes;
       let ident = (if c AND 0xE0 = 0xE0 then le_sint (rev bs) else int (le_uint (rev bs @ [c AND 0x0F])));
       if c AND 0x10 \<noteq> 0 \<and> ident = - (2 ^ 31) then None
       else Some ((if c AND 0x10 \<noteq> 0 then - ident else ident), p + extra_bytes)
     }
   }"

fun SearchForID_loop :: "nat \<Rightarrow> u8 list \<Rightarrow> nat \<Rightarrow> nat \<Rightarrow> int \<Rightarrow> nat option option" where
  "SearchForID_loop 0 b p plimit ident = Some None"
| "SearchForID_loop (Suc n) b p plimit ident = do {
     (int32, p) \<leftarrow> read_map_id b p plimit;
     if p > plimit then Some None
     else if int32 = ident then Some (Some p)
     else do {
       r \<leftarrow> AdvanceDataPos b p plimit;
       case r of None \<Rightarrow> Some None | Some p \<Rightarrow> SearchForID_loop n b p plimit ident
     }
   }"

definition SearchForID :: "u8 list \<Rightarrow> nat \<Rightarrow> nat \<Rightarrow> nat \<Rightarrow> int \<Rightarrow> nat option option" where
  "SearchForID b header_size sz numitems ident = SearchForID_loop numitems b header_size (sz - 1) ident"

text \<open>\<open>strnicmp\<close> of the C library is an argument: it compares the first characters of two strings,
  ignoring case, and is zero when they agree.  The key is given without its terminator.\<close>

fun SearchForKey_loop :: "(u8 list \<Rightarrow> u8 list \<Rightarrow> nat \<Rightarrow> int) \<Rightarrow> nat \<Rightarrow> u8 list \<Rightarrow> nat \<Rightarrow> nat \<Rightarrow> u8 list \<Rightarrow> nat option option" where
  "SearchForKey_loop strnicmp 0 b p plimit key = Some None"
| "SearchForKey_loop strnicmp (Suc n) b p plimit key = do {
     l \<leftarrow> peek b p;
     let p = p + 1;
     let len = unat l;
     if p > plimit then Some None
     else if len = 0 \<and> key = [] then Some (Some p)
     else do {
       name \<leftarrow> memcpy_out (Some (drop p b)) len;
       if len > 0 \<and> strnicmp name (key @ [0]) len = 0 \<and> length key = len then Some (Some (p + len))
       else if p + len > plimit then Some None
       else do {
         r \<leftarrow> AdvanceDataPos b (p + len) plimit;
         case r of None \<Rightarrow> Some None | Some p \<Rightarrow> SearchForKey_loop strnicmp n b p plimit key
       }
     }
   }"

definition SearchForKey ::
  "(u8 list \<Rightarrow> u8 list \<Rightarrow> nat \<Rightarrow> int) \<Rightarrow> u8 list \<Rightarrow> nat \<Rightarrow> nat \<Rightarrow> nat \<Rightarrow> u8 list \<Rightarrow> nat option option" where
  "SearchForKey strnicmp b header_size sz numitems key = SearchForKey_loop strnicmp numitems b header_size (sz - 1) key"

section \<open>Maps and objects\<close>

text \<open>The bytes of an identifier.  The absolute value of \<open>INT_MIN\<close> does not fit.\<close>

definition map_id_bytes :: "int \<Rightarrow> u8 list option" where
  "map_id_bytes ident =
     (let s = (if ident < 0 then 1 else 0); a = nat \<bar>ident\<bar>
      in if ident = - (2 ^ 31) then None
      else Some (
        if a \<le> 0x3F then [of_nat (64 * s + a)]
        else if a \<le> 0xFFF then [of_nat (0x80 + 16 * s + a div 2 ^ 8), of_nat a]
        else if a \<le> 0xFFFFF then [of_nat (0xA0 + 16 * s + a div 2 ^ 16), of_nat (a div 2 ^ 8), of_nat a]
        else if a \<le> 0xFFFFFFF then [of_nat (0xC0 + 16 * s + a div 2 ^ 24), of_nat (a div 2 ^ 16), of_nat (a div 2 ^ 8), of_nat a]
        else 0xE0 # be32_bytes (nat (ident mod 2 ^ 32))))"

definition binn_map_set_raw ::
  "(nat \<Rightarrow> u8 list option) \<Rightarrow> binn \<Rightarrow> int \<Rightarrow> int \<Rightarrow> cptr \<Rightarrow> int \<Rightarrow> (bool \<times> binn) option" where
  "binn_map_set_raw mem item ident t pvalue sz =
     (if btype item \<noteq> BINN_MAP \<or> \<not> writable item then Some (False, item)
      else do {
        p \<leftarrow> SearchForID (pbuf item) MAX_BINN_HEADER (used_size item) (bcount item) ident;
        if p \<noteq> None then Some (False, item)
        else do {
          (ok, item) \<leftarrow> CheckAllocation mem item 5;
          if \<not> ok then Some (False, item)
          else do {
            bs \<leftarrow> map_id_bytes ident;
            b \<leftarrow> memcpy_in (pbuf item) (used_size item) bs;
            let item = item\<lparr>pbuf := b, used_size := used_size item + length bs\<rparr>;
            (ok, item) \<leftarrow> AddValue mem item t pvalue sz;
            Some (if ok then (True, item\<lparr>bcount := bcount item + 1\<rparr>)
              else (False, item\<lparr>used_size := used_size item - length bs\<rparr>))
          }
        }
      })"

text \<open>The key is the string it points at, or \<open>None\<close> for \<open>NULL\<close>.\<close>

definition binn_object_set_raw ::
  "(u8 list \<Rightarrow> u8 list \<Rightarrow> nat \<Rightarrow> int) \<Rightarrow> (nat \<Rightarrow> u8 list option) \<Rightarrow> binn \<Rightarrow> u8 list option \<Rightarrow> int \<Rightarrow> cptr \<Rightarrow> int \<Rightarrow> (bool \<times> binn) option" where
  "binn_object_set_raw strnicmp mem item key t pvalue sz =
     (if btype item \<noteq> BINN_OBJECT \<or> \<not> writable item then Some (False, item)
      else case key of None \<Rightarrow> Some (False, item)
      | Some key \<Rightarrow> if length key > 255 then Some (False, item)
      else do {
        p \<leftarrow> SearchForKey strnicmp (pbuf item) MAX_BINN_HEADER (used_size item) (bcount item) key;
        if p \<noteq> None then Some (False, item)
        else do {
          (ok, item) \<leftarrow> CheckAllocation mem item (1 + length key);
          if \<not> ok then Some (False, item)
          else do {
            let bs = of_nat (length key) # key;
            b \<leftarrow> memcpy_in (pbuf item) (used_size item) bs;
            let item = item\<lparr>pbuf := b, used_size := used_size item + length bs\<rparr>;
            (ok, item) \<leftarrow> AddValue mem item t pvalue sz;
            Some (if ok then (True, item\<lparr>bcount := bcount item + 1\<rparr>)
              else (False, item\<lparr>used_size := used_size item - length bs\<rparr>))
          }
        }
      })"

end
