(* ===== verification/Binn_Read.thy ===== *)
theory Binn_Read
  imports Binn
begin

unbundle bit_operations_syntax

text \<open>
  Reading containers of \<open>lib/binn\<close>: the header, values by position, identifier or key, iteration and
  the check of a whole container.  A container is the object that starts at its first byte; the
  functions take it after \<open>binn_ptr\<close>.
\<close>

section \<open>The header\<close>

text \<open>\<open>psize\<close> is the value behind the size pointer, or \<open>None\<close> for \<open>NULL\<close>.  The result is
  \<open>Some None\<close> for \<open>FALSE\<close>; otherwise the type, the count, the size found in the header and the size
  of the header.\<close>

definition read_size :: "u8 list \<Rightarrow> nat option \<Rightarrow> nat \<Rightarrow> (nat \<times> nat) option option" where
  "read_size b plimit p =
     (if (case plimit of None \<Rightarrow> False | Some l \<Rightarrow> p > l) then Some None
      else do {
        c \<leftarrow> peek b p;
        if c AND 0x80 \<noteq> 0
        then if (case plimit of None \<Rightarrow> False | Some l \<Rightarrow> p + 3 > l) then Some None
          else do { n \<leftarrow> get_be32 b p; Some (Some (n mod 2 ^ 31, p + 4)) }
        else Some (Some (unat c, p + 1))
      })"

definition IsValidBinnHeader :: "u8 list \<Rightarrow> nat option \<Rightarrow> (int \<times> nat \<times> nat \<times> nat) option option" where
  "IsValidBinnHeader b psize =
     (let plimit = (case psize of None \<Rightarrow> None | Some n \<Rightarrow> if n > 0 then Some (n - 1) else None)
      in do {
        byte \<leftarrow> peek b 0;
        if byte AND 0xE0 \<noteq> 0xE0 \<or> byte AND 0x10 \<noteq> 0 \<or> uint byte \<notin> {BINN_LIST, BINN_MAP, BINN_OBJECT} then Some None
        else do {
          s \<leftarrow> read_size b plimit 1;
          case s of None \<Rightarrow> Some None
          | Some (sz, p) \<Rightarrow> do {
              c \<leftarrow> read_size b plimit p;
              Some (case c of None \<Rightarrow> None
                | Some (cnt, p) \<Rightarrow> if sz < MIN_BINN_SIZE then None else Some (uint byte, cnt, sz, p))
            }
        }
      })"

section \<open>Values\<close>

text \<open>Where the pointer of a value points: nowhere, into the container, or at the value's own copy of
  the bytes.\<close>

datatype value_ptr = Null | At nat | Own "u8 list"

record bvalue =
  vtype :: int
  vptr :: value_ptr
  vsize :: nat
  vcount :: nat

definition read_own :: "u8 list \<Rightarrow> nat \<Rightarrow> nat \<Rightarrow> value_ptr option" where
  "read_own b p n = map_option (\<lambda>bs. Own (rev bs)) (memcpy_out (Some (drop p b)) n)"

definition GetValue :: "u8 list \<Rightarrow> nat \<Rightarrow> bvalue option option" where
  "GetValue b p = do {
     byte \<leftarrow> peek b p;
     let storage_type = uint (byte AND 0xE0);
     (data_type, q) \<leftarrow> (if byte AND 0x10 \<noteq> 0
       then map_option (\<lambda>c. (256 * uint byte + uint c, p + 2)) (peek b (p + 1)) else Some (uint byte, p + 1));
     let v = \<lparr>vtype = data_type, vptr = Null, vsize = 0, vcount = 0\<rparr>;
     r \<leftarrow> (if storage_type = BINN_STORAGE_NOBYTES then Some (Some v)
       else if storage_type = BINN_STORAGE_BYTE then map_option (\<lambda>_. Some (v\<lparr>vptr := At q\<rparr>)) (peek b q)
       else if storage_type = BINN_STORAGE_WORD then map_option (\<lambda>o'. Some (v\<lparr>vptr := o'\<rparr>)) (read_own b q 2)
       else if storage_type = BINN_STORAGE_DWORD then map_option (\<lambda>o'. Some (v\<lparr>vptr := o'\<rparr>)) (read_own b q 4)
       else if storage_type = BINN_STORAGE_QWORD then map_option (\<lambda>o'. Some (v\<lparr>vptr := o'\<rparr>)) (read_own b q 8)
       else if storage_type = BINN_STORAGE_CONTAINER
       then map_option (map_option (\<lambda>(_, cnt, n, _). v\<lparr>vptr := At p, vcount := cnt, vsize := n\<rparr>)) (IsValidBinnHeader (drop p b) (Some 0))
       else map_option (map_option (\<lambda>(n, q). v\<lparr>vptr := At q, vsize := n\<rparr>)) (read_size b None q));
     Some (map_option (\<lambda>v. if vtype v = BINN_TRUE then v\<lparr>vtype := BINN_BOOL, vptr := Own [1, 0, 0, 0]\<rparr>
       else if vtype v = BINN_FALSE then v\<lparr>vtype := BINN_BOOL, vptr := Own [0, 0, 0, 0]\<rparr> else v) r)
   }"

text \<open>The container that a structure holds: \<open>binn_ptr\<close> writes the header first.\<close>

definition binn_ptr :: "binn \<Rightarrow> (u8 list \<times> binn) option" where
  "binn_ptr item = do {
     item \<leftarrow> (if writable item \<and> dirty item then binn_save_header item else Some item);
     Some (drop (ptr item) (pbuf item), item)
   }"

section \<open>Reading by position, identifier and key\<close>

fun advance_n :: "nat \<Rightarrow> u8 list \<Rightarrow> nat \<Rightarrow> nat \<Rightarrow> nat option option" where
  "advance_n 0 b p plimit = Some (Some p)"
| "advance_n (Suc n) b p plimit = do {
     r \<leftarrow> AdvanceDataPos b p plimit;
     case r of None \<Rightarrow> Some None | Some p \<Rightarrow> advance_n n b p plimit
   }"

definition binn_list_get_value :: "u8 list \<Rightarrow> int \<Rightarrow> bvalue option option" where
  "binn_list_get_value b pos = do {
     h \<leftarrow> IsValidBinnHeader b (Some 0);
     case h of None \<Rightarrow> Some None
     | Some (t, cnt, sz, header_size) \<Rightarrow>
       if t \<noteq> BINN_LIST \<or> cnt = 0 \<or> pos \<le> 0 \<or> pos > int cnt then Some None
       else do {
         r \<leftarrow> advance_n (nat (pos - 1)) b header_size sz;
         case r of None \<Rightarrow> Some None | Some p \<Rightarrow> GetValue b p
       }
   }"

definition binn_map_get_value :: "u8 list \<Rightarrow> int \<Rightarrow> bvalue option option" where
  "binn_map_get_value b ident = do {
     h \<leftarrow> IsValidBinnHeader b (Some 0);
     case h of None \<Rightarrow> Some None
     | Some (t, cnt, sz, header_size) \<Rightarrow>
       if t \<noteq> BINN_MAP \<or> cnt = 0 then Some None
       else do {
         r \<leftarrow> SearchForID b header_size sz cnt ident;
         case r of None \<Rightarrow> Some None | Some p \<Rightarrow> GetValue b p
       }
   }"

definition binn_object_get_value :: "(u8 list \<Rightarrow> u8 list \<Rightarrow> nat \<Rightarrow> int) \<Rightarrow> u8 list \<Rightarrow> u8 list \<Rightarrow> bvalue option option" where
  "binn_object_get_value strnicmp b key = do {
     h \<leftarrow> IsValidBinnHeader b (Some 0);
     case h of None \<Rightarrow> Some None
     | Some (t, cnt, sz, header_size) \<Rightarrow>
       if t \<noteq> BINN_OBJECT \<or> cnt = 0 then Some None
       else do {
         r \<leftarrow> SearchForKey strnicmp b header_size sz cnt key;
         case r of None \<Rightarrow> Some None | Some p \<Rightarrow> GetValue b p
       }
   }"

section \<open>Iteration over a list\<close>

record binn_iter =
  pnext :: "nat option"
  it_plimit :: nat
  it_type :: int
  it_count :: nat
  current :: nat

definition binn_iter_init :: "u8 list \<Rightarrow> int \<Rightarrow> binn_iter option option" where
  "binn_iter_init b expected_type = do {
     h \<leftarrow> IsValidBinnHeader b (Some 0);
     Some (case h of None \<Rightarrow> None
     | Some (t, cnt, sz, header_size) \<Rightarrow>
       if t \<noteq> expected_type then None
       else Some \<lparr>pnext = Some header_size, it_plimit = sz - 1, it_type = t, it_count = cnt, current = 0\<rparr>)
   }"

definition binn_list_next :: "u8 list \<Rightarrow> binn_iter \<Rightarrow> (bvalue option \<times> binn_iter) option" where
  "binn_list_next b it = (case pnext it of None \<Rightarrow> Some (None, it)
   | Some pnow \<Rightarrow>
     if pnow > it_plimit it \<or> current it > it_count it \<or> it_type it \<noteq> BINN_LIST then Some (None, it)
     else let it = it\<lparr>current := current it + 1\<rparr>
       in if current it > it_count it then Some (None, it)
       else do {
         r \<leftarrow> AdvanceDataPos b pnow (it_plimit it);
         let it = it\<lparr>pnext := r\<rparr>;
         if (case r of None \<Rightarrow> False | Some p \<Rightarrow> p < pnow) then Some (None, it)
         else do { v \<leftarrow> GetValue b pnow; Some (v, it) }
       })"

section \<open>The check of a container\<close>

fun valid_items :: "nat \<Rightarrow> int \<Rightarrow> u8 list \<Rightarrow> nat \<Rightarrow> nat \<Rightarrow> bool option" where
  "valid_items 0 t b p plimit = Some True"
| "valid_items (Suc n) t b p plimit = do {
     p \<leftarrow> (if t = BINN_OBJECT then map_option (\<lambda>l. p + 1 + unat l) (peek b p)
       else if t = BINN_MAP then map_option snd (read_map_id b p plimit)
       else Some p);
     r \<leftarrow> AdvanceDataPos b p plimit;
     case r of None \<Rightarrow> Some False | Some p \<Rightarrow> valid_items n t b p plimit
   }"

text \<open>A type, count or size of 0 is to be filled in; any other is to be met.  The result has the three
  values behind the pointers.\<close>

definition binn_is_valid_ex :: "u8 list \<Rightarrow> int \<Rightarrow> nat \<Rightarrow> nat \<Rightarrow> (int \<times> nat \<times> nat) option option" where
  "binn_is_valid_ex b ptype pcount psize = do {
     h \<leftarrow> IsValidBinnHeader b (Some psize);
     case h of None \<Rightarrow> Some None
     | Some (t, cnt, sz, header_size) \<Rightarrow>
       let size' = (if psize > 0 then psize else sz)
       in if pcount > 0 \<and> cnt \<noteq> pcount then Some None
       else if ptype \<noteq> 0 \<and> t \<noteq> ptype then Some None
       else do {
         ok \<leftarrow> valid_items cnt t b header_size size';
         Some (if ok then Some (t, cnt, size') else None)
       }
   }"

definition binn_is_valid :: "u8 list \<Rightarrow> (int \<times> nat \<times> nat) option option" where
  "binn_is_valid b = binn_is_valid_ex b 0 0 0"

end
