(* ===== verification/Binn_Spec.thy ===== *)
theory Binn_Spec
  imports Binn_Read
begin

unbundle bit_operations_syntax

text \<open>
  What \<open>lib/binn\<close> promises: the bytes of a value, that reading finds what was written, integers
  that keep their value when they are stored in fewer bytes, and containers as lists and maps of
  values.
\<close>

section \<open>Bytes in an object\<close>

definition at :: "u8 list \<Rightarrow> nat \<Rightarrow> u8 list \<Rightarrow> bool" where
  "at b p xs \<longleftrightarrow> take (length xs) (drop p b) = xs"

lemma at_append: "at b p (xs @ ys) \<longleftrightarrow> at b p xs \<and> at b (p + length xs) ys"
proof -
  have "take (length xs + length ys) (drop p b) = take (length xs) (drop p b) @ take (length ys) (drop (p + length xs) b)"
    by (simp add: take_add add.commute)
  moreover have "take (length xs) (drop p b) @ take (length ys) (drop (p + length xs) b) = xs @ ys \<longleftrightarrow>
      take (length xs) (drop p b) = xs \<and> take (length ys) (drop (p + length xs) b) = ys"
    if "length xs \<le> length (drop p b)" using that by (intro append_eq_append_conv) simp
  moreover have "length xs \<le> length (drop p b)" if "take (length xs) (drop p b) = xs" using that by (metis length_take min.absorb_iff1 min.commute)
  moreover have "length xs \<le> length (drop p b)" if "take (length xs + length ys) (drop p b) = xs @ ys"
    using arg_cong [OF that, of length] by simp
  ultimately show ?thesis unfolding at_def by (metis length_append)
qed

lemma at_Cons: "at b p (x # xs) \<longleftrightarrow> peek b p = Some x \<and> at b (p + 1) xs"
proof -
  have "at b p [x] \<longleftrightarrow> peek b p = Some x"
    by (cases "p < length b") (auto simp: at_def peek_def take_Suc_conv_app_nth hd_drop_conv_nth take_Suc)
  then show ?thesis using at_append [of b p "[x]" xs] by simp
qed

lemma at_length: "at b p xs \<Longrightarrow> xs \<noteq> [] \<Longrightarrow> p + length xs \<le> length b"
proof -
  assume a: "at b p xs" "xs \<noteq> []"
  have "min (length b - p) (length xs) = length xs" using arg_cong [OF iffD1 [OF at_def a(1)], of length] by simp
  then have "length xs \<le> length b - p" by (metis min.cobounded1)
  moreover have "0 < length xs" using a(2) by simp
  ultimately show ?thesis by linarith
qed

lemma at_Nil [simp]: "at b p []"
  by (simp add: at_def)

lemma at_memcpy: "at b p xs \<Longrightarrow> length xs = n \<Longrightarrow> memcpy_out (Some (drop p b)) n = Some xs"
proof (cases "n = 0")
  case False
  assume a: "at b p xs" "length xs = n"
  then have "p + n \<le> length b" using at_length [of b p xs] False by fastforce
  then show ?thesis using a False by (simp add: memcpy_out_def at_def)
qed simp

lemma at_drop: "at (drop q b) p xs \<longleftrightarrow> at b (q + p) xs"
  by (simp add: at_def add.commute)

section \<open>Sizes\<close>

lemma unat_of_nat_u8 [simp]: "unat (of_nat n :: u8) = n mod 256"
  by (simp only: unat_of_nat) simp

lemma le_uint_less: "le_uint bs < 256 ^ length bs"
proof (induction bs)
  case (Cons b bs)
  have "unat b + 256 * le_uint bs < 256 + 256 * le_uint bs" by simp
  also have "\<dots> = 256 * (le_uint bs + 1)" by simp
  also have "\<dots> \<le> 256 * 256 ^ length bs" using Cons by (intro mult_le_mono) simp_all
  finally show ?case by simp
qed simp

lemma le_uint_inj: "length xs = length ys \<Longrightarrow> le_uint xs = le_uint ys \<Longrightarrow> xs = ys"
proof (induction xs ys rule: list_induct2)
  case (Cons x xs y ys)
  have "unat x = le_uint (x # xs) mod 256" "unat y = le_uint (y # ys) mod 256" by simp_all
  then have "unat x = unat y" using Cons.prems by metis
  then show ?case using Cons by (simp add: word_unat_eq_iff)
qed simp

lemma le_uint_be32: "n < 2 ^ 32 \<Longrightarrow> le_uint (rev (be32_bytes n)) = n"
proof -
  assume n: "n < 2 ^ 32"
  have "n = n mod 256 + 256 * (n div 256)" for n :: nat by simp
  have d: "n div 2 ^ 8 div 256 = n div 2 ^ 16" "n div 2 ^ 16 div 256 = n div 2 ^ 24" by (simp_all add: div_mult2_eq [symmetric])
  have "n div 2 ^ 24 < 256" using n by (intro less_mult_imp_div_less) simp
  then have "n div 2 ^ 24 mod 256 = n div 2 ^ 24" by simp
  then have "le_uint (rev (be32_bytes n)) = n mod 256 + 256 * (n div 2 ^ 8 mod 256 + 256 * (n div 2 ^ 16 mod 256 + 256 * (n div 2 ^ 24)))"
    unfolding be32_bytes_def by (simp del: power_numeral)
  also have "n div 2 ^ 16 mod 256 + 256 * (n div 2 ^ 24) = n div 2 ^ 16" using d(2) mod_mult_div_eq [of "n div 2 ^ 16" 256] by simp
  also have "n div 2 ^ 8 mod 256 + 256 * (n div 2 ^ 16) = n div 2 ^ 8" using d(1) mod_mult_div_eq [of "n div 2 ^ 8" 256] by simp
  also have "n mod 256 + 256 * (n div 2 ^ 8) = n" using mod_mult_div_eq [of n 256] by simp
  finally show ?thesis .
qed

lemma length_be32 [simp]: "length (be32_bytes n) = 4"
  by (simp add: be32_bytes_def)

lemma get_be32_at: "at b p (be32_bytes n) \<Longrightarrow> n < 2 ^ 32 \<Longrightarrow> get_be32 b p = Some n"
  using at_memcpy [of b p "be32_bytes n" 4] le_uint_be32 [of n] by (simp add: get_be32_def)

lemma size_bytes_first:
  assumes "n < 2 ^ 31"
  shows "\<exists>c cs. size_bytes n = c # cs \<and> (c AND 0x80 = 0 \<longleftrightarrow> n \<le> 127) \<and> (n \<le> 127 \<longrightarrow> unat c = n)"
proof (cases "n > 127")
  case True
  have "2 ^ 31 div 2 ^ 24 \<le> (n + 2 ^ 31) div 2 ^ 24" by (intro div_le_mono) simp
  moreover have "(n + 2 ^ 31) div 2 ^ 24 < 256" using assms by (intro less_mult_imp_div_less) simp
  ultimately have "128 \<le> unat (of_nat ((n + 2 ^ 31) div 2 ^ 24) :: u8)" by simp
  then show ?thesis using True u8_and_80 [of "of_nat ((n + 2 ^ 31) div 2 ^ 24)"] by (simp add: size_bytes_def be32_bytes_def)
next
  case False
  then show ?thesis using u8_and_80 [of "of_nat n"] by (simp add: size_bytes_def)
qed

lemma length_size_bytes: "length (size_bytes n) = (if n > 127 then 4 else 1)"
  by (simp add: size_bytes_def)

lemma get_size_at:
  assumes "at b p (size_bytes n)" "n < 2 ^ 31" "n > 127"
  shows "get_be32 b p = Some (n + 2 ^ 31)"
  using get_be32_at [of b p "n + 2 ^ 31"] assms by (simp add: size_bytes_def)

lemma read_size_at:
  assumes "at b p (size_bytes n)" "n < 2 ^ 31" "\<And>l. pl = Some l \<Longrightarrow> p + length (size_bytes n) \<le> l + 1"
  shows "read_size b pl p = Some (Some (n, p + length (size_bytes n)))"
proof -
  obtain c cs where c: "size_bytes n = c # cs" "c AND 0x80 = 0 \<longleftrightarrow> n \<le> 127" "n \<le> 127 \<longrightarrow> unat c = n"
    using size_bytes_first [OF assms(2)] by blast
  then have "peek b p = Some c" using assms(1) by (simp add: at_Cons)
  moreover have "\<not> (case pl of None \<Rightarrow> False | Some l \<Rightarrow> p > l) \<and> (n > 127 \<longrightarrow> \<not> (case pl of None \<Rightarrow> False | Some l \<Rightarrow> p + 3 > l))"
  proof (cases pl)
    case (Some l)
    then show ?thesis using assms(3) [OF Some] by (auto simp: length_size_bytes split: if_splits)
  qed simp
  moreover have "(n + 2 ^ 31) mod 2 ^ 31 = n" using assms(2) by simp
  moreover have "length (c # cs) = (if n > 127 then 4 else 1)" using c(1) length_size_bytes [of n] by simp
  ultimately show ?thesis using c get_size_at [OF assms(1,2)] by (cases "n > 127") (simp_all add: read_size_def del: power_numeral)
qed

section \<open>The bytes of a value\<close>

definition storage :: "int \<Rightarrow> int" where
  "storage t = fst (snd (binn_get_type_info t))"

text \<open>The types that can be stored: the mark of a second byte is set just for the types that have one.\<close>

definition type_ok :: "int \<Rightarrow> bool" where
  "type_ok t \<longleftrightarrow> 0 \<le> t \<and> (if t \<le> 255 then t AND 0x10 = 0 else t \<le> 0xFFFF \<and> (t div 256) AND 0x10 \<noteq> 0)"

lemma uint_of_int_u8: "0 \<le> x \<Longrightarrow> x \<le> 255 \<Longrightarrow> uint (of_int x :: u8) = x"
  by (simp add: unsigned_of_int take_bit_eq_mod)

lemma and_E0: "x AND 0xE0 = 32 * (x div 32 mod 8)" for x :: int
proof -
  have m: "(0xE0 :: int) = push_bit 5 (mask 3)" by (simp add: mask_eq_exp_minus_1)
  have "x AND 0xE0 = push_bit 5 (drop_bit 5 x AND mask 3)"
    unfolding m by (intro bit_eqI) (auto simp: bit_simps)
  then show ?thesis by (simp add: push_bit_eq_mult drop_bit_eq_div take_bit_eq_mod flip: take_bit_eq_mask)
qed

lemma storage_cases: "x AND 0xE0 \<in> {BINN_STORAGE_NOBYTES, BINN_STORAGE_BYTE, BINN_STORAGE_WORD, BINN_STORAGE_DWORD,
    BINN_STORAGE_QWORD, BINN_STORAGE_STRING, BINN_STORAGE_BLOB, BINN_STORAGE_CONTAINER}" for x :: int
proof -
  have "0 \<le> y mod 8 \<and> y mod 8 < 8 \<Longrightarrow> y mod 8 \<in> {0, 1, 2, 3, 4, 5, 6, 7}" for y :: int by auto
  then have "x div 32 mod 8 \<in> {0, 1, 2, 3, 4, 5, 6, 7}" by simp
  then show ?thesis unfolding and_E0 storage_defs by auto
qed

lemma type_first:
  assumes "type_ok t"
  defines "x \<equiv> (if t > 255 then t div 256 else t)"
  shows "0 \<le> x" "x \<le> 255" "storage t = x AND 0xE0" "x AND 0x10 \<noteq> 0 \<longleftrightarrow> t > 255"
proof -
  show x: "0 \<le> x" "x \<le> 255" using assms by (auto simp: type_ok_def split: if_splits)
  show "x AND 0x10 \<noteq> 0 \<longleftrightarrow> t > 255" using assms by (auto simp: type_ok_def split: if_splits)
  have "drop_bit 8 (t AND 0xE000) = drop_bit 8 t AND 0xE0" by (simp add: drop_bit_and)
  then show "storage t = x AND 0xE0"
    using assms by (auto simp: storage_def binn_get_type_info_def type_info16_def type_ok_def drop_bit_eq_div split: if_splits)
qed

lemma type_byte:
  assumes "type_ok t"
  defines "c \<equiv> of_int (if t > 255 then t div 256 else t) :: u8"
  shows "uint (c AND 0xE0) = storage t" "c AND 0x10 \<noteq> 0 \<longleftrightarrow> t > 255" "uint c = (if t > 255 then t div 256 else t)"
proof -
  show u: "uint c = (if t > 255 then t div 256 else t)" unfolding c_def using type_first(1,2) [OF assms(1)] by (intro uint_of_int_u8) simp_all
  show "uint (c AND 0xE0) = storage t" using type_first(3) [OF assms(1)] by (simp add: unsigned_and_eq u)
  have "c AND 0x10 = 0 \<longleftrightarrow> uint (c AND 0x10) = 0" by (metis uint_0_iff)
  also have "\<dots> \<longleftrightarrow> \<not> t > 255" using type_first(4) [OF assms(1)] by (simp add: unsigned_and_eq u split: if_splits)
  finally show "c AND 0x10 \<noteq> 0 \<longleftrightarrow> t > 255" by blast
qed

text \<open>A stored value is its type and its contents: the bytes of a number, the text of a string, the
  bytes of a blob, or a whole container whose header has its type and length.\<close>

type_synonym bval = "int \<times> u8 list"

definition container_ok :: "int \<Rightarrow> u8 list \<Rightarrow> bool" where
  "container_ok t c \<longleftrightarrow> (\<exists>cnt h. IsValidBinnHeader c (Some 0) = Some (Some (t, cnt, length c, h)))"

definition val_ok :: "bval \<Rightarrow> bool" where
  "val_ok v \<longleftrightarrow> (case v of (t, c) \<Rightarrow> type_ok t \<and>
     (if storage t = BINN_STORAGE_NOBYTES then c = []
      else if storage t = BINN_STORAGE_BYTE then length c = 1
      else if storage t = BINN_STORAGE_WORD then length c = 2
      else if storage t = BINN_STORAGE_DWORD then length c = 4
      else if storage t = BINN_STORAGE_QWORD then length c = 8
      else if storage t = BINN_STORAGE_CONTAINER then container_ok t c
      else length c < 2 ^ 31))"

definition enc :: "bval \<Rightarrow> u8 list" where
  "enc v = (case v of (t, c) \<Rightarrow> type_bytes (storage t) t @ data_bytes (storage t) c)"

lemma type_bytes_first:
  assumes "type_ok t" "storage t \<noteq> BINN_STORAGE_CONTAINER"
  shows "type_bytes (storage t) t = of_int (if t > 255 then t div 256 else t) # (if t > 255 then [of_int t] else [])"
  using assms by (simp add: type_bytes_def)

text \<open>What the first bytes of a container say.\<close>

lemma container_first:
  assumes "container_ok t c"
  obtains b cs n where "c = b # cs" "uint b = t" "b AND 0xE0 = 0xE0" "b AND 0x10 = 0" "t \<in> {BINN_LIST, BINN_MAP, BINN_OBJECT}"
    "read_size c None 1 = Some (Some (length c, n))"
proof -
  obtain cnt h where v: "IsValidBinnHeader c (Some 0) = Some (Some (t, cnt, length c, h))" using assms by (auto simp: container_ok_def)
  then obtain b where b: "peek c 0 = Some b" by (auto simp: IsValidBinnHeader_def bind_Some_iff)
  then have f: "b AND 0xE0 = 0xE0" "b AND 0x10 = 0" "uint b \<in> {BINN_LIST, BINN_MAP, BINN_OBJECT}"
    using v by (auto simp: IsValidBinnHeader_def bind_Some_iff split: if_splits)
  obtain r where r: "read_size c None 1 = Some r" using v b f by (auto simp: IsValidBinnHeader_def bind_Some_iff split: if_splits)
  then obtain sz p where sz: "r = Some (sz, p)" using v b f by (cases r) (auto simp: IsValidBinnHeader_def bind_Some_iff split: if_splits)
  then have "uint b = t" "sz = length c" using v b f r by (auto simp: IsValidBinnHeader_def bind_Some_iff split: if_splits option.splits)
  moreover obtain cs where "c = b # cs" using b by (cases c) (auto simp: peek_def split: if_splits)
  ultimately show thesis using that f r sz by blast
qed

lemma enc_text:
  assumes "storage t \<in> {BINN_STORAGE_BLOB, BINN_STORAGE_STRING}"
  shows "enc (t, c) = type_bytes (storage t) t @ size_bytes (length c) @ c @ (if storage t = BINN_STORAGE_STRING then [0] else [])"
  using assms by (auto simp: enc_def data_bytes_def storage_defs)

lemma enc_number:
  assumes "storage t \<notin> {BINN_STORAGE_BLOB, BINN_STORAGE_STRING, BINN_STORAGE_CONTAINER}"
  shows "enc (t, c) = type_bytes (storage t) t @ rev c"
  using assms by (auto simp: enc_def data_bytes_def)

lemma enc_container: "storage t = BINN_STORAGE_CONTAINER \<Longrightarrow> enc (t, c) = c"
  by (simp add: enc_def type_bytes_def data_bytes_def storage_defs)

lemma type_bytes_at:
  assumes "type_ok t" "storage t \<noteq> BINN_STORAGE_CONTAINER" "at b p (type_bytes (storage t) t @ xs)"
  obtains c where "peek b p = Some c" "uint (c AND 0xE0) = storage t" "c AND 0x10 \<noteq> 0 \<longleftrightarrow> t > 255"
    "(if t > 255 then 256 * uint c + t mod 256 else uint c) = t" "t > 255 \<Longrightarrow> peek b (p + 1) = Some (of_int t)"
    "at b (if c AND 0x10 \<noteq> 0 then p + 2 else p + 1) xs"
    "length (type_bytes (storage t) t) = (if c AND 0x10 \<noteq> 0 then 2 else 1)"
proof -
  let ?c = "of_int (if t > 255 then t div 256 else t) :: u8"
  note c = type_byte [OF assms(1)]
  have "peek b p = Some ?c" "t > 255 \<Longrightarrow> peek b (p + 1) = Some (of_int t)" "at b (if t > 255 then p + 2 else p + 1) xs"
    using assms(3) unfolding type_bytes_first [OF assms(1,2)] by (auto simp: at_Cons split: if_splits)
  moreover have "length (type_bytes (storage t) t) = (if t > 255 then 2 else 1)" using type_bytes_first [OF assms(1,2)] by simp
  moreover have "(if t > 255 then 256 * uint ?c + t mod 256 else uint ?c) = t" using c(3) mult_div_mod_eq [of 256 t] by (cases "t > 255") simp_all
  ultimately show thesis using c that [of ?c] by simp
qed

lemma advance_number:
  assumes "type_ok t" "storage t \<notin> {BINN_STORAGE_BLOB, BINN_STORAGE_STRING, BINN_STORAGE_CONTAINER}" "val_ok (t, c)" "at b p (enc (t, c))"
  shows "AdvanceDataPos b p l = Some (if p + length (enc (t, c)) \<le> l then Some (p + length (enc (t, c))) else None)"
proof -
  have n: "storage t \<noteq> BINN_STORAGE_CONTAINER" using assms(2) by auto
  obtain x where x: "peek b p = Some x" "uint (x AND 0xE0) = storage t" "length (type_bytes (storage t) t) = (if x AND 0x10 \<noteq> 0 then 2 else 1)"
    using type_bytes_at [OF assms(1) n] assms(4) unfolding enc_number [OF assms(2)] by metis
  have s: "storage t \<in> {BINN_STORAGE_NOBYTES, BINN_STORAGE_BYTE, BINN_STORAGE_WORD, BINN_STORAGE_DWORD, BINN_STORAGE_QWORD}"
    using assms(2) storage_cases [of "if t > 255 then t div 256 else t"] type_first(3) [OF assms(1)] by auto
  have e: "length (enc (t, c)) = (if x AND 0x10 \<noteq> 0 then 2 else 1) + length c" unfolding enc_number [OF assms(2)] using x(3) by simp
  show ?thesis
  proof (cases "p > l")
    case False
    then show ?thesis using s assms(3) x(1,2) unfolding e AdvanceDataPos_def val_ok_def storage_defs by (auto simp: Let_def)
  qed (simp add: AdvanceDataPos_def)
qed

lemma advance_text:
  assumes "type_ok t" "storage t \<in> {BINN_STORAGE_BLOB, BINN_STORAGE_STRING}" "length c < 2 ^ 31" "at b p (enc (t, c))"
  shows "AdvanceDataPos b p l = Some (if p + length (enc (t, c)) \<le> l then Some (p + length (enc (t, c))) else None)"
proof -
  let ?z = "if storage t = BINN_STORAGE_STRING then [0] else [] :: u8 list" and ?n = "length c"
  have n: "storage t \<noteq> BINN_STORAGE_CONTAINER" using assms(2) by (auto simp: storage_defs)
  obtain x where x: "peek b p = Some x" "uint (x AND 0xE0) = storage t" "length (type_bytes (storage t) t) = (if x AND 0x10 \<noteq> 0 then 2 else 1)"
    "at b (if x AND 0x10 \<noteq> 0 then p + 2 else p + 1) (size_bytes ?n @ c @ ?z)"
    using type_bytes_at [OF assms(1) n] assms(4) unfolding enc_text [OF assms(2)] by metis
  define q where "q = (if x AND 0x10 \<noteq> 0 then p + 2 else p + 1)"
  have e: "p + length (enc (t, c)) = q + length (size_bytes ?n) + ?n + length ?z" unfolding enc_text [OF assms(2)] q_def using x(3) by simp
  obtain d ds where d: "size_bytes ?n = d # ds" "d AND 0x80 = 0 \<longleftrightarrow> ?n \<le> 127" "?n \<le> 127 \<longrightarrow> unat d = ?n"
    using size_bytes_first [OF assms(3)] by blast
  have a: "at b q (size_bytes ?n)" using x(4) unfolding q_def at_append by blast
  then have pd: "peek b q = Some d" unfolding d(1) at_Cons by blast
  have g: "?n > 127 \<Longrightarrow> get_be32 b q = Some (?n + 2 ^ 31)" using get_size_at [OF a assms(3)] by blast
  have m: "(?n + 2 ^ 31) mod 2 ^ 31 = ?n" using assms(3) by simp
  have l: "length (size_bytes ?n) = (if ?n > 127 then 4 else 1)" by (rule length_size_bytes)
  have pq: "p < q" by (simp add: q_def)
  show ?thesis
  proof (cases "q \<le> l \<and> (?n > 127 \<longrightarrow> q + 3 \<le> l)")
    case True
    then show ?thesis unfolding e
      using assms(2) x(1,2) pd g m l d(2,3) pq by (cases "?n > 127") (auto simp: AdvanceDataPos_def storage_defs q_def [symmetric] simp del: power_numeral)
  next
    case False
    then have "\<not> p + length (enc (t, c)) \<le> l" unfolding e l by auto
    then show ?thesis using False assms(2) x(1,2) pd d(2) pq
      by (cases "?n > 127") (auto simp: AdvanceDataPos_def storage_defs q_def [symmetric])
  qed
qed

lemma at_peek: "at b p c \<Longrightarrow> peek c i = Some x \<Longrightarrow> peek b (p + i) = Some x"
proof -
  assume a: "at b p c" "peek c i = Some x"
  then have "i < length c" "c ! i = x" by (simp_all add: peek_Some_iff)
  then have "c = take i c @ x # drop (Suc i) c" using id_take_nth_drop by metis
  then have "at b p (take i c @ x # drop (Suc i) c)" using a(1) by simp
  then show ?thesis using \<open>i < length c\<close> unfolding at_append at_Cons by simp
qed

lemma at_memcpy_sub:
  assumes "at b p c" "memcpy_out (Some (drop i c)) n = Some xs"
  shows "memcpy_out (Some (drop (p + i) b)) n = Some xs"
proof (cases "n = 0")
  case False
  then have xs: "xs = take n (drop i c)" "n \<le> length c - i" using assms(2) by (auto simp: memcpy_out_def split: if_splits)
  then have "c = take i c @ xs @ drop n (drop i c)" by (metis append_take_drop_id)
  then have "at b p (take i c @ xs @ drop n (drop i c))" using assms(1) by simp
  moreover have "i \<le> length c" "length xs = n" using xs False by simp_all
  ultimately have "at b (p + i) xs" unfolding at_append by simp
  then show ?thesis using at_memcpy \<open>length xs = n\<close> by blast
qed (use assms in simp)

lemma get_be32_length: "get_be32 c i = Some n \<Longrightarrow> i + 4 \<le> length c"
  by (auto simp: get_be32_def memcpy_out_def split: if_splits)

lemma advance_container:
  assumes "container_ok t c" "at b p c"
  shows "AdvanceDataPos b p l = Some (if p + length c \<le> l then Some (p + length c) else None)"
proof -
  obtain x xs n where x: "c = x # xs" "x AND 0xE0 = 0xE0" "x AND 0x10 = 0" "read_size c None 1 = Some (Some (length c, n))"
    using container_first [OF assms(1)] by metis
  have "peek b p = Some x" using assms(2) unfolding x(1) at_Cons by blast
  moreover have "uint (x AND 0xE0) = BINN_STORAGE_CONTAINER" using x(2) by (simp add: storage_defs)
  moreover obtain d where d: "peek c 1 = Some d" using x(4) by (auto simp: read_size_def bind_Some_iff)
  moreover have "peek b (p + 1) = Some d" using at_peek [OF assms(2) d] .
  moreover have "2 \<le> length c" using d by (simp add: peek_Some_iff)
  ultimately show ?thesis
  proof (cases "d AND 0x80 = 0")
    case True
    then have "unat d = length c" using x(4) d by (auto simp: read_size_def)
    then show ?thesis using True x(3) \<open>peek b p = Some x\<close> \<open>uint (x AND 0xE0) = _\<close> \<open>peek b (p + 1) = Some d\<close> \<open>2 \<le> length c\<close>
      by (auto simp: AdvanceDataPos_def storage_defs)
  next
    case False
    then obtain m where m: "get_be32 c 1 = Some m" "m mod 2 ^ 31 = length c" using x(4) d by (auto simp: read_size_def bind_Some_iff)
    have "get_be32 b (p + 1) = Some m" using m(1) at_memcpy_sub [OF assms(2), of 1 4] unfolding get_be32_def by auto
    then show ?thesis using False x(3) m(2) get_be32_length [OF m(1)] \<open>peek b p = Some x\<close> \<open>uint (x AND 0xE0) = _\<close> \<open>peek b (p + 1) = Some d\<close>
      by (auto simp: AdvanceDataPos_def storage_defs simp del: power_numeral)
  qed
qed

lemma storage_split:
  assumes "val_ok (t, c)"
  obtains "storage t \<notin> {BINN_STORAGE_BLOB, BINN_STORAGE_STRING, BINN_STORAGE_CONTAINER}"
  | "storage t \<in> {BINN_STORAGE_BLOB, BINN_STORAGE_STRING}" "length c < 2 ^ 31"
  | "storage t = BINN_STORAGE_CONTAINER" "container_ok t c"
  using assms that by (auto simp: val_ok_def storage_defs split: if_splits)

lemma advance_at:
  assumes "val_ok v" "at b p (enc v)"
  shows "AdvanceDataPos b p l = Some (if p + length (enc v) \<le> l then Some (p + length (enc v)) else None)"
proof -
  obtain t c where v: "v = (t, c)" by (cases v)
  have t: "type_ok t" using assms(1) v by (simp add: val_ok_def)
  show ?thesis using assms unfolding v
    by (cases rule: storage_split [OF assms(1) [unfolded v]])
      (use advance_number [OF t] advance_text [OF t] advance_container enc_container in metis)+
qed

section \<open>Reading a value back\<close>

text \<open>The structure \<open>w\<close>, whose pointer may go into the container \<open>b\<close>, holds the value.\<close>

definition value_is :: "u8 list \<Rightarrow> bvalue \<Rightarrow> bval \<Rightarrow> bool" where
  "value_is b w v \<longleftrightarrow> (case v of (t, c) \<Rightarrow>
     if t = BINN_TRUE then vtype w = BINN_BOOL \<and> vptr w = Own [1, 0, 0, 0]
     else if t = BINN_FALSE then vtype w = BINN_BOOL \<and> vptr w = Own [0, 0, 0, 0]
     else vtype w = t \<and>
       (if storage t = BINN_STORAGE_NOBYTES then vptr w = Null
        else if storage t = BINN_STORAGE_BYTE then \<exists>q. vptr w = At q \<and> at b q c
        else if storage t \<in> {BINN_STORAGE_WORD, BINN_STORAGE_DWORD, BINN_STORAGE_QWORD} then vptr w = Own c
        else vsize w = length c \<and> (\<exists>q. vptr w = At q \<and> at b q (c @ (if storage t = BINN_STORAGE_STRING then [0] else [])))))"

lemma uint_mod_u8: "uint (of_int t :: u8) = t mod 256"
  by (simp add: unsigned_of_int take_bit_eq_mod)

text \<open>The type that \<open>GetValue\<close> finds.\<close>

lemma data_type_at:
  assumes "type_ok t" "storage t \<noteq> BINN_STORAGE_CONTAINER" "at b p (type_bytes (storage t) t @ xs)"
  obtains x q where "peek b p = Some x" "uint (x AND 0xE0) = storage t" "at b q xs"
    "(if x AND 0x10 \<noteq> 0 then map_option (\<lambda>c. (256 * uint x + uint c, p + 2)) (peek b (p + 1)) else Some (uint x, p + 1)) = Some (t, q)"
proof -
  obtain x where x: "peek b p = Some x" "uint (x AND 0xE0) = storage t" "x AND 0x10 \<noteq> 0 \<longleftrightarrow> t > 255"
    "(if t > 255 then 256 * uint x + t mod 256 else uint x) = t" "t > 255 \<Longrightarrow> peek b (p + 1) = Some (of_int t)"
    "at b (if x AND 0x10 \<noteq> 0 then p + 2 else p + 1) xs"
    using type_bytes_at [OF assms] by metis
  show thesis
    by (rule that [OF x(1,2,6)]) (use x(3-5) in \<open>auto simp: uint_mod_u8\<close>)
qed

lemma read_own_at: "at b q (rev c) \<Longrightarrow> length c = n \<Longrightarrow> read_own b q n = Some (Own c)"
  using at_memcpy [of b q "rev c" n] by (simp add: read_own_def)

lemma true_false_storage: "storage BINN_TRUE = BINN_STORAGE_NOBYTES" "storage BINN_FALSE = BINN_STORAGE_NOBYTES"
  by (simp_all add: storage_def binn_get_type_info_def type_info16_def BINN_TRUE_def BINN_FALSE_def storage_defs)

lemma get_number:
  assumes "storage t \<notin> {BINN_STORAGE_BLOB, BINN_STORAGE_STRING, BINN_STORAGE_CONTAINER}" "val_ok (t, c)" "at b p (enc (t, c))"
  shows "\<exists>w. GetValue b p = Some (Some w) \<and> value_is b w (t, c)"
proof -
  have n: "type_ok t" "storage t \<noteq> BINN_STORAGE_CONTAINER" using assms(1,2) by (auto simp: val_ok_def)
  have s: "storage t \<in> {BINN_STORAGE_NOBYTES, BINN_STORAGE_BYTE, BINN_STORAGE_WORD, BINN_STORAGE_DWORD, BINN_STORAGE_QWORD}"
    using assms(1) storage_cases [of "if t > 255 then t div 256 else t"] type_first(3) [OF n(1)] by auto
  obtain x q where x: "peek b p = Some x" "uint (x AND 0xE0) = storage t" "at b q (rev c)"
    "(if x AND 0x10 \<noteq> 0 then map_option (\<lambda>c. (256 * uint x + uint c, p + 2)) (peek b (p + 1)) else Some (uint x, p + 1)) = Some (t, q)"
    using data_type_at [OF n] assms(3) unfolding enc_number [OF assms(1)] by metis
  have tf: "t \<notin> {BINN_TRUE, BINN_FALSE}" if "storage t \<noteq> BINN_STORAGE_NOBYTES" using that true_false_storage by auto
  consider "storage t = BINN_STORAGE_NOBYTES" "c = []" | "storage t = BINN_STORAGE_BYTE" "length c = 1"
    | k where "(storage t, k) \<in> {(BINN_STORAGE_WORD, 2), (BINN_STORAGE_DWORD, 4), (BINN_STORAGE_QWORD, 8)}" "length c = k"
    using s assms(2) by (auto simp: val_ok_def storage_defs)
  then show ?thesis
  proof cases
    case 1
    then show ?thesis using x
      by (cases "t = BINN_TRUE"; cases "t = BINN_FALSE") (auto simp: GetValue_def value_is_def storage_defs BINN_TRUE_def BINN_FALSE_def)
  next
    case 2
    then obtain y where y: "c = [y]" by (auto simp: length_Suc_conv)
    then have "peek b q = Some y" "at b q c" using x(3) by (auto simp: at_Cons)
    then show ?thesis using 2 x tf by (auto simp: GetValue_def value_is_def storage_defs)
  next
    case 3
    then have "read_own b q k = Some (Own c)" using read_own_at [OF x(3)] by blast
    then show ?thesis using 3(1) x tf by (auto simp: GetValue_def value_is_def storage_defs)
  qed
qed

lemma get_text:
  assumes "type_ok t" "storage t \<in> {BINN_STORAGE_BLOB, BINN_STORAGE_STRING}" "length c < 2 ^ 31" "at b p (enc (t, c))"
  shows "\<exists>w. GetValue b p = Some (Some w) \<and> value_is b w (t, c)"
proof -
  have n: "storage t \<noteq> BINN_STORAGE_CONTAINER" "t \<notin> {BINN_TRUE, BINN_FALSE}" using assms(2) true_false_storage by (auto simp: storage_defs)
  let ?z = "if storage t = BINN_STORAGE_STRING then [0] else [] :: u8 list"
  obtain x q where x: "peek b p = Some x" "uint (x AND 0xE0) = storage t" "at b q (size_bytes (length c) @ c @ ?z)"
    "(if x AND 0x10 \<noteq> 0 then map_option (\<lambda>c. (256 * uint x + uint c, p + 2)) (peek b (p + 1)) else Some (uint x, p + 1)) = Some (t, q)"
    by (rule data_type_at [OF assms(1) n(1) assms(4) [unfolded enc_text [OF assms(2)]]])
  define r where "r = q + length (size_bytes (length c))"
  have "at b q (size_bytes (length c))" "at b r (c @ ?z)" using x(3) unfolding at_append r_def by simp_all
  then have r: "read_size b None q = Some (Some (length c, r))" "at b r (c @ ?z)"
    using read_size_at [OF _ assms(3), of b q None] by (simp_all add: r_def)
  let ?w = "\<lparr>vtype = t, vptr = At r, vsize = length c, vcount = 0\<rparr>"
  have "GetValue b p = Some (Some ?w)" using assms(2) x(1,2,4) n(2) r(1) by (auto simp: GetValue_def storage_defs)
  moreover have "value_is b ?w (t, c)" using assms(2) n(2) r(2) by (auto simp: value_is_def storage_defs)
  ultimately show ?thesis by blast
qed

lemma read_size_sub:
  assumes "at b p c" "read_size c None i = Some (Some (n, j))"
  shows "read_size (drop p b) None i = Some (Some (n, j))"
proof -
  obtain d where d: "peek c i = Some d" using assms(2) by (auto simp: read_size_def bind_Some_iff)
  have "peek (drop p b) i = Some d" using at_peek [OF assms(1) d] by (auto simp: peek_def split: if_splits)
  moreover have "get_be32 (drop p b) i = Some m" if "get_be32 c i = Some m" for m
    using that at_memcpy_sub [OF assms(1), of i 4] by (auto simp: get_be32_def add.commute)
  ultimately show ?thesis using assms(2) d by (auto simp: read_size_def bind_Some_iff split: if_splits)
qed

lemma get_container:
  assumes "storage t = BINN_STORAGE_CONTAINER" "container_ok t c" "at b p c"
  shows "\<exists>w. GetValue b p = Some (Some w) \<and> value_is b w (t, c)"
proof -
  obtain cnt h where v: "IsValidBinnHeader c (Some 0) = Some (Some (t, cnt, length c, h))" using assms(2) by (auto simp: container_ok_def)
  obtain x xs n where x: "c = x # xs" "uint x = t" "x AND 0xE0 = 0xE0" "x AND 0x10 = 0" "t \<in> {BINN_LIST, BINN_MAP, BINN_OBJECT}"
    "read_size c None 1 = Some (Some (length c, n))"
    using container_first [OF assms(2)] by metis
  have px: "peek b p = Some x" "peek (drop p b) 0 = Some x" "peek c 0 = Some x"
    using assms(3) unfolding x(1) at_Cons by (auto simp: peek_def split: if_splits)
  have r: "read_size c None n = Some (Some (cnt, h))" "\<not> length c < MIN_BINN_SIZE"
    using v px(3) x(2-6) by (auto simp: IsValidBinnHeader_def bind_Some_iff split: option.splits if_splits)
  have "IsValidBinnHeader (drop p b) (Some 0) = Some (Some (t, cnt, length c, h))"
    using px(2) x(2-5) read_size_sub [OF assms(3) x(6)] read_size_sub [OF assms(3) r(1)] r(2) by (simp add: IsValidBinnHeader_def)
  moreover have "uint (x AND 0xE0) = BINN_STORAGE_CONTAINER" using x(3) by (simp add: storage_defs)
  ultimately show ?thesis using assms(1,3) px(1) x(2,4,5)
    by (auto simp: GetValue_def value_is_def storage_defs BINN_TRUE_def BINN_FALSE_def container_defs)
qed

lemma get_value_at:
  assumes "val_ok v" "at b p (enc v)"
  shows "\<exists>w. GetValue b p = Some (Some w) \<and> value_is b w v"
proof -
  obtain t c where v: "v = (t, c)" by (cases v)
  have t: "type_ok t" using assms(1) v by (simp add: val_ok_def)
  show ?thesis using assms unfolding v
    by (cases rule: storage_split [OF assms(1) [unfolded v]])
      (use get_number get_text [OF t] get_container enc_container in metis)+
qed

section \<open>Integers in fewer bytes\<close>

lemma le_uint_take: "k \<le> length bs \<Longrightarrow> le_uint (take k bs) = le_uint bs mod 256 ^ k"
proof (induction bs arbitrary: k)
  case (Cons b bs)
  show ?case
  proof (cases k)
    case (Suc j)
    then have "le_uint (take j bs) = le_uint bs mod 256 ^ j" using Cons by simp
    moreover have "(unat b + 256 * le_uint bs) mod (256 * 256 ^ j) = unat b + 256 * (le_uint bs mod 256 ^ j)"
      by (subst mod_mult2_eq) (simp add: mult.commute)
    ultimately show ?thesis using Suc by simp
  qed simp
qed simp

lemma le_sint_mod: "le_sint bs mod 256 ^ length bs = int (le_uint bs)"
proof -
  have "int (le_uint bs) < int (256 ^ length bs)" by (subst of_nat_less_iff) (rule le_uint_less)
  then have "int (le_uint bs) mod 256 ^ length bs = int (le_uint bs)" by simp
  moreover have "(int (le_uint bs) - 256 ^ length bs) mod 256 ^ length bs = int (le_uint bs) mod 256 ^ length bs" by (rule minus_mod_self2)
  ultimately show ?thesis by (simp add: le_sint_def)
qed

lemma int_value_mod:
  assumes "k \<le> int_width t" "int_width t \<le> length bs"
  shows "int (le_uint (take k bs)) = int_value t bs mod 256 ^ k"
proof -
  let ?b = "take (int_width t) bs"
  have l: "length ?b = int_width t" using assms(2) by simp
  have "int (le_uint (take k bs)) = int (le_uint ?b) mod 256 ^ k"
    using le_uint_take [of k ?b] assms by (simp add: zmod_int)
  also have "\<dots> = int_value t bs mod 256 ^ k"
  proof (cases "signed_type t")
    case True
    have "int (le_uint ?b) mod 256 ^ k = le_sint ?b mod 256 ^ int_width t mod 256 ^ k" using le_sint_mod [of ?b] l by simp
    also have "\<dots> = le_sint ?b mod 256 ^ k" using assms(1) by (intro mod_mod_cancel le_imp_power_dvd)
    finally show ?thesis using True by (simp add: int_value_def)
  qed (simp add: int_value_def)
  finally show ?thesis .
qed

lemma le_sint_unique:
  assumes "int (le_uint xs) = v mod 256 ^ length xs" "- (256 ^ length xs) \<le> 2 * v" "2 * v < 256 ^ length xs"
  shows "le_sint xs = v"
proof -
  let ?m = "256 ^ length xs :: int"
  have m: "2 * le_uint xs \<ge> 256 ^ length xs \<longleftrightarrow> 2 * int (le_uint xs) \<ge> ?m"
    by (metis of_nat_le_iff of_nat_mult of_nat_numeral of_nat_power)
  show ?thesis
  proof (cases "v < 0")
    case True
    have "v mod ?m = (v + ?m) mod ?m" by simp
    also have "\<dots> = v + ?m" using True assms(2) by (intro mod_pos_pos_trivial) linarith+
    finally show ?thesis using assms(1,2) True m by (auto simp: le_sint_def)
  next
    case False
    then have "v mod ?m = v" using assms(3) by (intro mod_pos_pos_trivial) linarith+
    then show ?thesis using assms(1,3) m by (auto simp: le_sint_def)
  qed
qed

lemma int_value_range:
  assumes "int_width t \<le> length bs"
  shows "- (256 ^ int_width t) \<le> 2 * int_value t bs" "int_value t bs < 256 ^ int_width t"
    "signed_type t \<Longrightarrow> 2 * int_value t bs < 256 ^ int_width t" "\<not> signed_type t \<Longrightarrow> 0 \<le> int_value t bs"
proof -
  let ?b = "take (int_width t) bs"
  have l: "length ?b = int_width t" using assms by simp
  have "int (le_uint ?b) < int (256 ^ int_width t)" using le_uint_less [of ?b] unfolding l by (simp only: of_nat_less_iff)
  moreover define u M where "u = int (le_uint ?b)" and "M = (256 :: int) ^ int_width t"
  ultimately have u: "0 \<le> u" "u < M" by simp_all
  have "2 * le_uint ?b \<ge> 256 ^ int_width t \<longleftrightarrow> 2 * u \<ge> M"
    unfolding u_def M_def by (metis of_nat_le_iff of_nat_mult of_nat_numeral of_nat_power)
  then have "int_value t bs = (if signed_type t then if 2 * u \<ge> M then u - M else u else u)"
    using l by (simp add: int_value_def le_sint_def u_def M_def)
  then show "- (256 ^ int_width t) \<le> 2 * int_value t bs" "int_value t bs < 256 ^ int_width t"
    "signed_type t \<Longrightarrow> 2 * int_value t bs < 256 ^ int_width t" "\<not> signed_type t \<Longrightarrow> 0 \<le> int_value t bs"
    unfolding M_def [symmetric] using u by auto
qed

definition type_for :: "int \<Rightarrow> int" where
  "type_for v = (if v < 0
     then if v \<ge> - (2 ^ 7) then BINN_INT8 else if v \<ge> - (2 ^ 15) then BINN_INT16 else if v \<ge> - (2 ^ 31) then BINN_INT32 else 0
     else if v < 2 ^ 8 then BINN_UINT8 else if v < 2 ^ 16 then BINN_UINT16 else if v < 2 ^ 32 then BINN_UINT32 else 0)"

lemma compress_int_type_for:
  assumes "storage_type \<noteq> BINN_STORAGE_BYTE" "int_width t \<le> length bs"
  shows "compress_int storage_type t bs = (let type2 = type_for (int_value t bs)
    in Some (if type2 \<noteq> 0 \<and> type2 \<noteq> t then (binn_get_write_storage type2, type2) else (storage_type, t)))"
  using assms by (simp add: compress_int_def type_for_def Let_def)

lemma type_for_value:
  assumes "type_for (int_value t bs) = t2" "t2 \<noteq> 0" "int_width t2 \<le> int_width t" "int_width t \<le> length bs"
  shows "int_value t2 bs = int_value t bs"
proof -
  let ?v = "int_value t bs" and ?k = "int_width t2"
  have l: "length (take ?k bs) = ?k" using assms(3,4) by simp
  have m: "int (le_uint (take ?k bs)) = ?v mod 256 ^ ?k" using int_value_mod [OF assms(3,4)] .
  show ?thesis
  proof (cases "?v < 0")
    case True
    then have "signed_type t2" "- (256 ^ ?k) \<le> 2 * ?v"
      using assms(1,2) by (auto simp: type_for_def signed_type_def int_width_def int_type_defs split: if_splits)
    moreover have "2 * ?v < 256 ^ ?k" by (rule less_trans [of _ 0]) (use True in simp_all)
    ultimately show ?thesis using le_sint_unique [of "take ?k bs" ?v] m l by (simp add: int_value_def [of t2])
  next
    case False
    then have "\<not> signed_type t2" "?v < 256 ^ ?k"
      using assms(1,2) by (auto simp: type_for_def signed_type_def int_width_def int_type_defs split: if_splits)
    then show ?thesis using m l False by (simp add: int_value_def [of t2])
  qed
qed

lemma type_for_width:
  assumes "- (256 ^ w) \<le> 2 * v" "v < 256 ^ w" "w \<in> {1, 2, 4}"
  shows "type_for v \<noteq> 0" "int_width (type_for v) \<le> w"
  using assms by (auto simp: type_for_def int_width_def int_type_defs)

lemma type_for_int: "type_for v \<noteq> 0 \<Longrightarrow> type_for v \<in> set int_types \<and> binn_get_write_storage (type_for v) = storage (type_for v)"
  by (auto simp: type_for_def int_types_def int_type_defs binn_get_write_storage_def BINN_BOOL_def storage_def split: if_splits)

lemma int_type_width: "t \<in> set int_types \<Longrightarrow> int_width t \<in> {1, 2, 4, 8} \<and> (storage t = BINN_STORAGE_BYTE \<longleftrightarrow> int_width t = 1)"
  by (auto simp: int_types_def int_width_def int_type_defs storage_def binn_get_type_info_def type_info16_def storage_defs)

lemma compress_int_ok:
  assumes "t \<in> set int_types" "int_width t \<le> length bs"
  obtains t2 where "compress_int (storage t) t bs = Some (storage t2, t2)" "t2 \<in> set int_types" "int_width t2 \<le> int_width t"
    "int_value t2 bs = int_value t bs"
    "\<And>w. w \<in> {1, 2, 4} \<Longrightarrow> - (256 ^ w) \<le> 2 * int_value t bs \<Longrightarrow> int_value t bs < 256 ^ w \<Longrightarrow> int_width t2 \<le> w"
proof (cases "storage t = BINN_STORAGE_BYTE")
  case True
  then have "int_width t = 1" using int_type_width [OF assms(1)] by simp
  then have "int_width t \<le> w" if "w \<in> {1, 2, 4}" for w using that by auto
  then show thesis using that [of t] assms(1) True by (simp add: compress_int_def)
next
  case False
  let ?v = "int_value t bs"
  note c = compress_int_type_for [OF False assms(2)]
  note r = int_value_range [OF assms(2)]
  have w: "int_width t \<in> {2, 4, 8}" using int_type_width [OF assms(1)] False by auto
  show thesis
  proof (cases "type_for ?v = 0 \<or> type_for ?v = t")
    case True
    have "int_width t \<le> k" if "k \<in> {1, 2, 4}" "- (256 ^ k) \<le> 2 * ?v" "?v < 256 ^ k" for k
      using type_for_width [OF that(2,3,1)] True by auto
    then show thesis using that [of t] True assms(1) c by (auto simp: Let_def)
  next
    case False
    have le: "int_width (type_for ?v) \<le> k" if "k \<in> {1, 2, 4}" "- (256 ^ k) \<le> 2 * ?v" "?v < 256 ^ k" for k
      using type_for_width [OF that(2,3,1)] by auto
    have "int_width (type_for ?v) \<le> int_width t"
    proof (cases "int_width t = 8")
      case True
      then show ?thesis using type_for_int [of ?v] False int_type_width [of "type_for ?v"] by auto
    next
      case False
      then show ?thesis using le [of "int_width t"] r(1,2) w by auto
    qed
    moreover have "int_value (type_for ?v) bs = ?v" using type_for_value [OF refl _ calculation assms(2)] False by simp
    ultimately show thesis using that [of "type_for ?v"] False type_for_int [of ?v] c le by (auto simp: Let_def)
  qed
qed

text \<open>Storing an integer in fewer bytes keeps its value: for every integer type and value
  \<open>compress_int\<close> picks a type under which the same first bytes, read with that type's width and sign,
  are the same number, and no integer type that can hold the number is narrower.\<close>

theorem binn_compress_int:
  assumes "t \<in> set int_types" "int_width t \<le> length bs"
  shows "\<exists>t2. compress_int (storage t) t bs = Some (storage t2, t2) \<and> t2 \<in> set int_types \<and>
    int_value t2 (take (int_width t2) bs) = int_value t bs \<and>
    (\<forall>t3\<in>set int_types. \<forall>cs. length cs = int_width t3 \<and> int_value t3 cs = int_value t bs \<longrightarrow> int_width t2 \<le> int_width t3)"
proof -
  obtain t2 where t2: "compress_int (storage t) t bs = Some (storage t2, t2)" "t2 \<in> set int_types" "int_value t2 bs = int_value t bs"
    "\<And>w. w \<in> {1, 2, 4} \<Longrightarrow> - (256 ^ w) \<le> 2 * int_value t bs \<Longrightarrow> int_value t bs < 256 ^ w \<Longrightarrow> int_width t2 \<le> w"
    using compress_int_ok [OF assms] by metis
  have "int_width t2 \<le> int_width t3" if "t3 \<in> set int_types" "length cs = int_width t3" "int_value t3 cs = int_value t bs" for t3 cs
  proof (cases "int_width t3 = 8")
    case True
    then show ?thesis using int_type_width [OF t2(2)] by auto
  next
    case False
    then show ?thesis using int_type_width [OF that(1)] int_value_range(1,2) [of t3 cs] that(2,3) by (intro t2(4)) auto
  qed
  moreover have "int_value t2 (take (int_width t2) bs) = int_value t2 bs" by (simp add: int_value_def)
  ultimately show ?thesis using t2(1-3) by auto
qed

theorem binn_compress_int_witness:
  "\<exists>t2. compress_int (storage BINN_INT32) BINN_INT32 [0xFE, 0xFF, 0xFF, 0xFF] = Some (storage t2, t2) \<and>
    int_value t2 (take (int_width t2) [0xFE, 0xFF, 0xFF, 0xFF]) = - 2"
proof -
  have "int_value BINN_INT32 [0xFE, 0xFF, 0xFF, 0xFF] = - 2"
    by (simp add: int_value_def signed_type_def int_width_def le_sint_def int_type_defs)
  moreover have "BINN_INT32 \<in> set int_types" "int_width BINN_INT32 \<le> length [0xFE, 0xFF, 0xFF, 0xFF :: u8]"
    by (simp_all add: int_types_def int_width_def int_type_defs)
  ultimately show ?thesis using binn_compress_int [of BINN_INT32 "[0xFE, 0xFF, 0xFF, 0xFF]"] by metis
qed

section \<open>Identifiers of a map\<close>

lemma u8_and_exp: "c AND 2 ^ k = 0 \<longleftrightarrow> even (unat c div 2 ^ k)" for c :: u8
proof -
  have "bit c k \<longleftrightarrow> bit (unat c) k" by (auto simp: bit_unsigned_iff dest: bit_imp_le_length)
  then show ?thesis by (simp add: and_exp_eq_0_iff_not_bit bit_iff_odd)
qed

lemma u8_and_mask: "unat (c AND mask k) = unat c mod 2 ^ k" for c :: u8
  by (simp only: unsigned_take_bit_eq flip: take_bit_eq_mask) (simp add: take_bit_eq_mod)

lemma u8_fields:
  "c AND 0x40 = 0 \<longleftrightarrow> even (unat c div 64)" "c AND 0x10 = 0 \<longleftrightarrow> even (unat c div 16)"
  "unat (c AND 0x3F) = unat c mod 64" "unat (drop_bit 5 (c AND 0x60)) = unat c div 32 mod 4"
  "c AND 0xE0 = 0xE0 \<longleftrightarrow> unat c div 32 = 7" for c :: u8
proof -
  show "c AND 0x40 = 0 \<longleftrightarrow> even (unat c div 64)" using u8_and_exp [of c 6] by simp
  show "c AND 0x10 = 0 \<longleftrightarrow> even (unat c div 16)" using u8_and_exp [of c 4] by simp
  show "unat (c AND 0x3F) = unat c mod 64" using u8_and_mask [of c 6] by (simp add: mask_eq_exp_minus_1)
  have "drop_bit 5 (c AND 0x60) = drop_bit 5 c AND mask 2" by (simp add: drop_bit_and mask_eq_exp_minus_1)
  then show "unat (drop_bit 5 (c AND 0x60)) = unat c div 32 mod 4" using u8_and_mask [of "drop_bit 5 c" 2] by (simp add: unat_drop_bit)
  have "c AND 0xE0 = 0xE0 \<longleftrightarrow> drop_bit 5 c = mask 3"
  proof
    assume "c AND 0xE0 = 0xE0"
    from arg_cong [OF this, of "drop_bit 5"] have "drop_bit 5 c AND mask 3 = mask 3" by (simp add: drop_bit_and mask_eq_exp_minus_1)
    moreover have "drop_bit 5 c AND mask 3 = drop_bit 5 c"
      by (simp flip: take_bit_eq_mask) (rule bit_word_eqI, auto simp: bit_simps dest: bit_imp_le_length)
    ultimately show "drop_bit 5 c = mask 3" by simp
  next
    assume "drop_bit 5 c = mask 3"
    from arg_cong [OF this, of "push_bit 5"] have "push_bit 5 (drop_bit 5 c) = 0xE0" by (simp add: mask_eq_exp_minus_1)
    moreover have "c AND 0xE0 = push_bit 5 (drop_bit 5 c)"
    proof -
      have m: "(0xE0 :: u8) = NOT (mask 5)" by (simp add: mask_eq_exp_minus_1)
      show ?thesis unfolding m by (intro bit_word_eqI) (auto simp: bit_simps)
    qed
    ultimately show "c AND 0xE0 = 0xE0" by simp
  qed
  also have "\<dots> \<longleftrightarrow> unat c div 32 = 7" using unat_drop_bit [of 5 c] by (auto simp: word_unat_eq_iff mask_eq_exp_minus_1)
  finally show "c AND 0xE0 = 0xE0 \<longleftrightarrow> unat c div 32 = 7" .
qed

lemma le_uint_append: "le_uint (xs @ ys) = le_uint xs + 256 ^ length xs * le_uint ys"
  by (induction xs) (simp_all add: algebra_simps)

lemma le_uint_low:
  "le_uint [of_nat a] = a mod 2 ^ 8"
  "le_uint [of_nat a, of_nat (a div 2 ^ 8)] = a mod 2 ^ 16"
  "le_uint [of_nat a, of_nat (a div 2 ^ 8), of_nat (a div 2 ^ 16)] = a mod 2 ^ 24"
proof -
  have d: "a div 2 ^ 8 div 256 = a div 2 ^ 16" by (simp add: div_mult2_eq [symmetric])
  have m: "a mod 2 ^ 16 = 256 * (a div 2 ^ 8 mod 256) + a mod 256" "a mod 2 ^ 24 = 256 * (a div 2 ^ 8 mod 2 ^ 16) + a mod 256"
    "x mod 2 ^ 16 = 256 * (x div 256 mod 256) + x mod 256" for x :: nat
    using mod_mult2_eq [of a 256 256] mod_mult2_eq [of a 256 "2 ^ 16"] mod_mult2_eq [of x 256 256] by simp_all
  show "le_uint [of_nat a] = a mod 2 ^ 8" by simp
  show "le_uint [of_nat a, of_nat (a div 2 ^ 8)] = a mod 2 ^ 16" unfolding m(1) by (simp del: power_numeral)
  show "le_uint [of_nat a, of_nat (a div 2 ^ 8), of_nat (a div 2 ^ 16)] = a mod 2 ^ 24"
    unfolding m(2) m(3) [of "a div 2 ^ 8"] d by (simp del: power_numeral)
qed

lemma id_first_short:
  assumes "a \<le> 0x3F" "s \<le> 1"
  defines "c \<equiv> of_nat (64 * s + a) :: u8"
  shows "c AND 0x80 = 0" "c AND 0x40 = 0 \<longleftrightarrow> s = 0" "unat (c AND 0x3F) = a"
proof -
  have "64 * s + a < 128" using assms by linarith
  then have u: "unat c = 64 * s + a" unfolding c_def unat_of_nat_u8 by simp
  have "(64 * s + a) div 64 = s" "(64 * s + a) mod 64 = a" using assms(1) by simp_all
  then show "c AND 0x80 = 0" "c AND 0x40 = 0 \<longleftrightarrow> s = 0" "unat (c AND 0x3F) = a"
    using u assms(2) \<open>64 * s + a < 128\<close> unfolding u8_fields u8_and_80 by auto
qed

lemma id_first_long:
  assumes "h < 16" "s \<le> 1" "k < 4"
  defines "c \<equiv> of_nat (0x80 + 0x20 * k + 16 * s + h) :: u8"
  shows "c AND 0x80 \<noteq> 0" "c AND 0x10 = 0 \<longleftrightarrow> s = 0" "unat (c AND 0x0F) = h" "unat (drop_bit 5 (c AND 0x60)) = k"
    "c AND 0xE0 = 0xE0 \<longleftrightarrow> k = 3"
proof -
  let ?n = "0x80 + 0x20 * k + 16 * s + h"
  have "?n < 256" using assms by linarith
  then have u: "unat c = ?n" unfolding c_def unat_of_nat_u8 by simp
  have n: "?n = h + 16 * (8 + 2 * k + s)" "?n = (16 * s + h) + 32 * (4 + k)" by simp_all
  have "?n div 16 = 8 + 2 * k + s" "?n mod 16 = h" unfolding n(1) using assms(1) by (simp_all del: distrib_left_numeral)
  moreover have "?n div 32 = 4 + k" unfolding n(2) using assms(1,2) by (simp del: distrib_left_numeral)
  moreover have "even (8 + 2 * k + s) \<longleftrightarrow> s = 0" using assms(2) by (cases s) auto
  moreover have "(4 + k) mod 4 = k" using assms(3) by simp
  ultimately show "c AND 0x80 \<noteq> 0" "c AND 0x10 = 0 \<longleftrightarrow> s = 0" "unat (c AND 0x0F) = h" "unat (drop_bit 5 (c AND 0x60)) = k"
    "c AND 0xE0 = 0xE0 \<longleftrightarrow> k = 3"
    using u unfolding u8_fields u8_and_80 u8_lo_nibble by auto
qed

text \<open>An identifier in one byte, in two to four, and in five.\<close>

lemma read_id_short:
  assumes "a \<le> 0x3F" "at b p [of_nat (64 * (if neg then 1 else 0) + a)]"
  shows "read_map_id b p l = Some (if neg then - int a else int a, p + 1)"
  using assms(2) id_first_short(1,2) [OF assms(1), of "if neg then 1 else 0"]
    arg_cong [OF id_first_short(3) [OF assms(1), of "if neg then 1 else 0"], of int]
  by (auto simp: read_map_id_def at_Cons simp del: of_nat_add of_nat_mult)

lemma read_id_long:
  assumes "k < 3" "a < 16 * 256 ^ (k + 1)" "length bs = k + 1" "le_uint (rev bs) = a mod 256 ^ (k + 1)"
    "at b p (of_nat (0x80 + 0x20 * k + 16 * (if neg then 1 else 0) + a div 256 ^ (k + 1)) # bs)" "p + 1 + (k + 1) \<le> l"
  shows "read_map_id b p l = Some (if neg then - int a else int a, p + 1 + (k + 1))"
proof -
  let ?c = "of_nat (0x80 + 0x20 * k + 16 * (if neg then 1 else 0) + a div 256 ^ (k + 1)) :: u8"
  have h: "a div 256 ^ (k + 1) < 16" using assms(2) by (intro less_mult_imp_div_less)
  have kn: "k < 4" "k \<noteq> 3" using assms(1) by simp_all
  note c = id_first_long [OF h _ kn(1), of "if neg then 1 else 0"]
  have "peek b p = Some ?c" "memcpy_out (Some (drop (p + 1) b)) (k + 1) = Some bs"
    using assms(5) at_memcpy assms(3) by (auto simp: at_Cons simp del: of_nat_add of_nat_mult)
  moreover have "le_uint (rev bs @ [?c AND 0x0F]) = a"
    using assms(3,4) c(3) mod_mult_div_eq [of a "256 ^ (k + 1)"] by (simp add: le_uint_append del: of_nat_add of_nat_mult power_Suc)
  moreover have "int a \<noteq> - (2 ^ 31)" by simp
  ultimately show ?thesis using c(1,2,4,5) kn assms(6)
    by (simp add: read_map_id_def del: of_nat_add of_nat_mult power_Suc)
qed

lemma le_sint_be32:
  assumes "- (2 ^ 31) \<le> i" "i < 2 ^ 31"
  shows "le_sint (rev (be32_bytes (nat (i mod 2 ^ 32)))) = i"
proof (rule le_sint_unique)
  have "nat (i mod 2 ^ 32) < 2 ^ 32" by (simp add: nat_less_iff)
  then show "int (le_uint (rev (be32_bytes (nat (i mod 2 ^ 32))))) = i mod 256 ^ length (rev (be32_bytes (nat (i mod 2 ^ 32))))"
    using le_uint_be32 by simp
qed (use assms in simp_all)

lemma read_id_full:
  assumes "- (2 ^ 31) \<le> i" "i < 2 ^ 31" "at b p (0xE0 # be32_bytes (nat (i mod 2 ^ 32)))" "p + 5 \<le> l"
  shows "read_map_id b p l = Some (i, p + 5)"
proof -
  have "peek b p = Some 0xE0" "memcpy_out (Some (drop (p + 1) b)) 4 = Some (be32_bytes (nat (i mod 2 ^ 32)))"
    using assms(3) at_memcpy [of b "p + 1" _ 4] unfolding at_Cons by simp_all
  then show ?thesis using le_sint_be32 [OF assms(1,2)] assms(4) by (simp add: read_map_id_def)
qed

definition id_ok :: "int \<Rightarrow> bool" where
  "id_ok ident \<longleftrightarrow> - (2 ^ 31) < ident \<and> ident < 2 ^ 31"

definition id_bytes :: "int \<Rightarrow> u8 list" where
  "id_bytes ident = the (map_id_bytes ident)"

lemma map_id_bytes_Some: "id_ok ident \<Longrightarrow> map_id_bytes ident = Some (id_bytes ident)"
  by (simp add: id_ok_def id_bytes_def map_id_bytes_def Let_def)

lemma read_id_at:
  assumes "id_ok ident" "at b p (id_bytes ident)" "p + length (id_bytes ident) \<le> l"
  shows "read_map_id b p l = Some (ident, p + length (id_bytes ident))"
proof -
  define a where "a = nat \<bar>ident\<bar>"
  let ?s = "(if ident < 0 then 1 else 0) :: nat"
  have ne: "ident \<noteq> - (2 ^ 31)" using assms(1) by (simp add: id_ok_def)
  have i: "(if ident < 0 then - int a else int a) = ident" by (simp add: a_def)
  have e: "id_bytes ident = (if a \<le> 0x3F then [of_nat (64 * ?s + a)]
        else if a \<le> 0xFFF then [of_nat (0x80 + 16 * ?s + a div 2 ^ 8), of_nat a]
        else if a \<le> 0xFFFFF then [of_nat (0xA0 + 16 * ?s + a div 2 ^ 16), of_nat (a div 2 ^ 8), of_nat a]
        else if a \<le> 0xFFFFFFF then [of_nat (0xC0 + 16 * ?s + a div 2 ^ 24), of_nat (a div 2 ^ 16), of_nat (a div 2 ^ 8), of_nat a]
        else 0xE0 # be32_bytes (nat (ident mod 2 ^ 32)))"
    unfolding id_bytes_def map_id_bytes_def Let_def a_def by (simp only: option.sel if_not_P [OF ne])
  consider "a \<le> 0x3F" | "0x3F < a" "a \<le> 0xFFF" | "0xFFF < a" "a \<le> 0xFFFFF" | "0xFFFFF < a" "a \<le> 0xFFFFFFF" | "0xFFFFFFF < a" by linarith
  then show ?thesis
  proof cases
    case 1
    then show ?thesis using read_id_short [of a b p "ident < 0" l] assms(2) i e by (simp del: of_nat_add of_nat_mult)
  next
    case 2
    then show ?thesis using read_id_long [of 0 a "[of_nat a]" b p "ident < 0" l] le_uint_low(1) [of a] assms(2,3) i e
      by (simp del: of_nat_add of_nat_mult)
  next
    case 3
    then show ?thesis using read_id_long [of 1 a "[of_nat (a div 2 ^ 8), of_nat a]" b p "ident < 0" l] le_uint_low(2) [of a] assms(2,3) i e
      by (simp del: of_nat_add of_nat_mult le_uint.simps)
  next
    case 4
    then show ?thesis using read_id_long [of 2 a "[of_nat (a div 2 ^ 16), of_nat (a div 2 ^ 8), of_nat a]" b p "ident < 0" l]
        le_uint_low(3) [of a] assms(2,3) i e
      by (simp del: of_nat_add of_nat_mult le_uint.simps)
  next
    case 5
    then show ?thesis using read_id_full [of ident b p l] assms e by (simp add: id_ok_def)
  qed
qed

end
