(* ===== verification/Binn_Containers.thy ===== *)
theory Binn_Containers
  imports Binn_Spec
begin

unbundle bit_operations_syntax

text \<open>
  Containers of \<open>lib/binn\<close> as abstract data: a structure that is being written stands for a list of
  entries, every successful operation adds an entry at the end, and the read functions find the
  entries again in the bytes that \<open>binn_ptr\<close> returns.
\<close>

section \<open>The structure and its entries\<close>

text \<open>The header of a container with \<open>n\<close> entries in \<open>len\<close> bytes, and its whole size.\<close>

definition total_size :: "nat \<Rightarrow> nat \<Rightarrow> nat" where
  "total_size n len = (let s = len + 3 + (if n > 127 then 3 else 0) in if s > 127 then s + 3 else s)"

definition header_bytes :: "int \<Rightarrow> nat \<Rightarrow> nat \<Rightarrow> u8 list" where
  "header_bytes t n len = of_int t # size_bytes (total_size n len) @ size_bytes n"

lemma header_length: "length (header_bytes t n len) + len = total_size n len" "length (header_bytes t n len) \<le> MAX_BINN_HEADER"
  by (auto simp: header_bytes_def total_size_def length_size_bytes Let_def MAX_BINN_HEADER_def)

text \<open>\<open>in_buffer\<close>: the entries are in the buffer behind the space for the header.  \<open>rep\<close>: the header is
  there too, or will be written.\<close>

definition in_buffer :: "binn \<Rightarrow> int \<Rightarrow> u8 list \<Rightarrow> nat \<Rightarrow> bool" where
  "in_buffer item t body n \<longleftrightarrow> writable item \<and> btype item = t \<and> bcount item = n \<and>
     used_size item = MAX_BINN_HEADER + length body \<and> used_size item \<le> alloc_size item \<and> alloc_size item \<le> length (pbuf item) \<and>
     (\<not> pre_allocated item \<longrightarrow> alloc_size item = length (pbuf item)) \<and> at (pbuf item) MAX_BINN_HEADER body"

definition header_saved :: "binn \<Rightarrow> u8 list \<Rightarrow> bool" where
  "header_saved item h \<longleftrightarrow> ptr item = MAX_BINN_HEADER - length h \<and> at (pbuf item) (ptr item) h"

definition rep :: "binn \<Rightarrow> int \<Rightarrow> u8 list \<Rightarrow> nat \<Rightarrow> bool" where
  "rep item t body n \<longleftrightarrow> in_buffer item t body n \<and> (\<not> dirty item \<longrightarrow> header_saved item (header_bytes t n (length body)))"

text \<open>An allocator that always succeeds, and the space that is left.\<close>

definition mem_ok :: "(nat \<Rightarrow> u8 list option) \<Rightarrow> bool" where
  "mem_ok mem \<longleftrightarrow> (\<forall>n. \<exists>b. mem n = Some b \<and> length b = n)"

definition mem_sizes :: "(nat \<Rightarrow> u8 list option) \<Rightarrow> bool" where
  "mem_sizes mem \<longleftrightarrow> (\<forall>n b. mem n = Some b \<longrightarrow> length b = n)"

lemma mem_ok_sizes: "mem_ok mem \<Longrightarrow> mem_sizes mem"
  unfolding mem_ok_def mem_sizes_def by (metis option.inject)

definition room :: "binn \<Rightarrow> nat \<Rightarrow> bool" where
  "room item k \<longleftrightarrow> used_size item + k \<le> 2 ^ 30 \<and> (pre_allocated item \<longrightarrow> used_size item + k \<le> alloc_size item)"

section \<open>Allocation\<close>

lemma CalcAllocation_Some: "0 < c \<Longrightarrow> n \<le> 2 ^ 30 \<Longrightarrow> \<exists>m. CalcAllocation n c = Some m \<and> n \<le> m \<and> c \<le> m"
proof (induction n c rule: CalcAllocation.induct)
  case (1 n c)
  show ?case
  proof (cases "c < n")
    case True
    then have "\<not> 2 * c > INT_MAX" using 1(3) by (simp add: INT_MAX_def)
    then have "\<exists>m. CalcAllocation n (2 * c) = Some m \<and> n \<le> m \<and> 2 * c \<le> m" using 1 True by simp
    then show ?thesis using True 1(2) \<open>\<not> 2 * c > INT_MAX\<close> by (subst CalcAllocation.simps) auto
  qed (subst CalcAllocation.simps, simp)
qed

lemma CalcAllocation_ge: "CalcAllocation n c = Some m \<Longrightarrow> n \<le> m \<and> c \<le> m"
proof (induction n c rule: CalcAllocation.induct)
  case (1 n c)
  show ?case
  proof (cases "c < n")
    case True
    then have "\<not> (c = 0 \<or> 2 * c > INT_MAX)" "CalcAllocation n (2 * c) = Some m" using 1(2) by (auto simp: CalcAllocation.simps [of n c] split: if_splits)
    then show ?thesis using 1(1) True by auto
  qed (use 1(2) in \<open>simp add: CalcAllocation.simps [of n c]\<close>)
qed

text \<open>A structure whose buffer was replaced by one that agrees with it up to the used size.\<close>

definition grown :: "binn \<Rightarrow> binn \<Rightarrow> bool" where
  "grown item item' \<longleftrightarrow> (\<exists>b m. item' = item\<lparr>pbuf := b, alloc_size := m\<rparr> \<and> (\<forall>q xs. at (pbuf item) q xs \<longrightarrow> at b q xs))"

lemma grown_refl [simp]: "grown item item"
proof -
  have "item = item\<lparr>pbuf := pbuf item, alloc_size := alloc_size item\<rparr>" by simp
  then show ?thesis unfolding grown_def by metis
qed

lemma grown_simps:
  "grown item item' \<Longrightarrow> used_size item' = used_size item" "grown item item' \<Longrightarrow> bcount item' = bcount item"
  "grown item item' \<Longrightarrow> disable_int_compression item' = disable_int_compression item"
  "grown item item' \<Longrightarrow> header_saved item h \<Longrightarrow> header_saved item' h" "grown item item' \<Longrightarrow> dirty item' = dirty item"
  "grown item item' \<Longrightarrow> pre_allocated item' = pre_allocated item" "grown item item' \<Longrightarrow> btype item' = btype item"
  by (auto simp: grown_def header_saved_def)

lemma grow_holds:
  assumes "in_buffer item t body n" "mem_sizes mem" "CheckAllocation mem item k = Some (ok, item')"
  shows "in_buffer item' t body n" "grown item item'" "ok \<Longrightarrow> used_size item + k \<le> alloc_size item'"
    "pre_allocated item \<Longrightarrow> item' = item"
proof -
  have "in_buffer item' t body n \<and> grown item item' \<and> (ok \<longrightarrow> used_size item + k \<le> alloc_size item') \<and> (pre_allocated item \<longrightarrow> item' = item)"
  proof (cases "item' = item")
    case True
    have "used_size item + k \<le> alloc_size item" if "CalcAllocation (used_size item + k) (alloc_size item) = Some m" "item\<lparr>pbuf := b, alloc_size := m\<rparr> = item" for m b
      using CalcAllocation_ge [OF that(1)] arg_cong [OF that(2), of alloc_size] by simp
    then show ?thesis using assms True by (force simp: CheckAllocation_def bind_Some_iff split: if_splits option.splits)
  next
    case False
    then obtain m b where m: "\<not> pre_allocated item" "CalcAllocation (used_size item + k) (alloc_size item) = Some m" "mem m = Some b"
      "item' = item\<lparr>pbuf := take m (pbuf item) @ drop (length (pbuf item)) b, alloc_size := m\<rparr>"
      using assms(3) by (auto simp: CheckAllocation_def bind_Some_iff split: if_splits option.splits)
    have l: "length b = m" "length (pbuf item) = alloc_size item" "alloc_size item \<le> m" "used_size item + k \<le> m"
      using assms(1,2) m CalcAllocation_ge [OF m(2)] by (auto simp: mem_sizes_def in_buffer_def)
    have a: "at (take m (pbuf item) @ drop (length (pbuf item)) b) q xs" if "at (pbuf item) q xs" for q xs
      using that at_length [OF that] l(2,3) by (cases "xs = []") (simp_all add: at_def)
    show ?thesis using assms(1) a l m(1) unfolding m(4) in_buffer_def grown_def by auto
  qed
  then show "in_buffer item' t body n" "grown item item'" "ok \<Longrightarrow> used_size item + k \<le> alloc_size item'"
    "pre_allocated item \<Longrightarrow> item' = item" by auto
qed

lemma CheckAllocation_ok:
  assumes "in_buffer item t body n" "mem_ok mem" "room item k"
  shows "\<exists>item'. CheckAllocation mem item k = Some (True, item')"
proof (cases "used_size item + k > alloc_size item")
  case True
  then have p: "\<not> pre_allocated item" using assms(3) by (auto simp: room_def)
  have "0 < alloc_size item" using assms(1) by (auto simp: in_buffer_def MAX_BINN_HEADER_def)
  then obtain m where m: "CalcAllocation (used_size item + k) (alloc_size item) = Some m"
    using CalcAllocation_Some assms(3) unfolding room_def by blast
  obtain b where "mem m = Some b" using assms(2) by (auto simp: mem_ok_def)
  then show ?thesis using True p m assms(3) by (simp add: CheckAllocation_def room_def INT_MAX_def)
qed (use assms(3) in \<open>simp add: CheckAllocation_def room_def INT_MAX_def\<close>)

lemma room_mono: "room item k \<Longrightarrow> j \<le> k \<Longrightarrow> room item j"
  by (auto simp: room_def)

section \<open>Appending bytes\<close>

lemma at_memcpy_in:
  assumes "memcpy_in b p xs = Some b'"
  shows "at b' p xs" "q + length ys \<le> p \<Longrightarrow> at b q ys \<Longrightarrow> at b' q ys"
proof -
  have b: "b' = take p b @ xs @ drop (p + length xs) b" "p \<le> length b" using assms by (auto simp: memcpy_in_def split: if_splits)
  show "at b' p xs" using b by (simp add: at_def)
  assume q: "q + length ys \<le> p" "at b q ys"
  have "take (length ys) (drop q (take p b)) = take (length ys) (drop q b)" using q(1) by (simp add: drop_take min_def)
  then show "at b' q ys" using q b by (simp add: at_def)
qed

lemma at_memcpy_in_after:
  assumes "memcpy_in b p xs = Some b'" "p + length xs \<le> q" "at b q ys"
  shows "at b' q ys"
proof -
  have b: "b' = take p b @ xs @ drop (p + length xs) b" "p \<le> length b" using assms(1) by (auto simp: memcpy_in_def split: if_splits)
  then have "drop q b' = drop q b" using assms(2) by simp
  then show ?thesis using assms(3) by (simp add: at_def)
qed

lemma append_holds:
  assumes "in_buffer item t body n" "used_size item + length xs \<le> alloc_size item"
  obtains b where "memcpy_in (pbuf item) (used_size item) xs = Some b"
    "in_buffer (item\<lparr>pbuf := b, used_size := used_size item + length xs\<rparr>) t (body @ xs) n"
    "\<And>q ys. q + length ys \<le> used_size item \<Longrightarrow> at (pbuf item) q ys \<Longrightarrow> at b q ys"
proof -
  obtain b where b: "memcpy_in (pbuf item) (used_size item) xs = Some b" "length b = length (pbuf item)"
    using memcpy_in_ok [of "used_size item" xs "pbuf item"] assms by (auto simp: in_buffer_def)
  note a = at_memcpy_in [OF b(1)]
  have "at b MAX_BINN_HEADER body" using a(2) assms(1) by (simp add: in_buffer_def)
  then have "at b MAX_BINN_HEADER (body @ xs)" using a(1) assms(1) by (simp add: at_append in_buffer_def)
  then show thesis using that [OF b(1)] a(2) assms b(2) by (simp add: in_buffer_def)
qed

section \<open>Adding a value\<close>

text \<open>The value that a call stores, for arguments a caller may give; \<open>comp_on\<close> says whether integers are
  compressed.\<close>

definition number_width :: "int \<Rightarrow> nat option" where
  "number_width s = (if s = BINN_STORAGE_NOBYTES then Some 0 else if s = BINN_STORAGE_BYTE then Some 1
     else if s = BINN_STORAGE_WORD then Some 2 else if s = BINN_STORAGE_DWORD then Some 4
     else if s = BINN_STORAGE_QWORD then Some 8 else None)"

inductive stores :: "bool \<Rightarrow> int \<Rightarrow> cptr \<Rightarrow> int \<Rightarrow> bval \<Rightarrow> bool" where
  compressed: "t \<in> set int_types \<Longrightarrow> int_width t \<le> length bs \<Longrightarrow> compress_int (storage t) t bs = Some (s, t2) \<Longrightarrow>
    stores True t (Some bs) sz (t2, take (int_width t2) bs)"
| nobytes: "type_ok t \<Longrightarrow> storage t = BINN_STORAGE_NOBYTES \<Longrightarrow> stores comp_on t pvalue sz (t, [])"
| number: "type_ok t \<Longrightarrow> number_width (storage t) = Some w \<Longrightarrow> w \<le> length bs \<Longrightarrow> \<not> comp_on \<or> t \<notin> set int_types \<Longrightarrow>
    stores comp_on t (Some bs) sz (t, take w bs)"
| blob: "type_ok t \<Longrightarrow> storage t = BINN_STORAGE_BLOB \<Longrightarrow> n \<le> length bs \<Longrightarrow> n < 2 ^ 31 \<Longrightarrow>
    stores comp_on t (Some bs) (int n) (t, take n bs)"
| chars: "type_ok t \<Longrightarrow> storage t = BINN_STORAGE_STRING \<Longrightarrow> 0 < n \<Longrightarrow> n \<le> length bs \<Longrightarrow> n < 2 ^ 31 \<Longrightarrow>
    stores comp_on t (Some bs) (int n) (t, take n bs)"
| c_string: "type_ok t \<Longrightarrow> storage t = BINN_STORAGE_STRING \<Longrightarrow> c_str bs = Some s \<Longrightarrow> length s < 2 ^ 31 \<Longrightarrow>
    stores comp_on t (Some bs) 0 (t, s)"
| null: "type_ok t \<Longrightarrow> storage t \<in> {BINN_STORAGE_BLOB, BINN_STORAGE_STRING} \<Longrightarrow> stores comp_on t None 0 (t, [])"
| container: "type_ok t \<Longrightarrow> storage t = BINN_STORAGE_CONTAINER \<Longrightarrow> n \<le> length bs \<Longrightarrow> container_ok t (take n bs) \<Longrightarrow>
    stores comp_on t (Some bs) (int n) (t, take n bs)"

lemma family_int: "type_family t = BINN_FAMILY_INT \<longleftrightarrow> t \<in> set int_types"
  by (auto simp: type_family_def BINN_FAMILY_INT_def int_types_def int_type_defs container_defs)

lemma int_type_ok: "t \<in> set int_types \<Longrightarrow> type_ok t \<and> number_width (storage t) = Some (int_width t)"
  unfolding int_types_def list.set insert_iff empty_iff
  by (elim disjE)
    (simp_all add: int_type_defs type_ok_def storage_def binn_get_type_info_def type_info16_def number_width_def int_width_def storage_defs)

lemma container_length: "container_ok t c \<Longrightarrow> 3 \<le> length c \<and> length c < 2 ^ 31"
proof -
  assume a: "container_ok t c"
  obtain n where r: "read_size c None 1 = Some (Some (length c, n))" using container_first [OF a] by metis
  have "unat w < 2 ^ 31" for w :: u8 by (rule less_trans [of _ 256]) simp_all
  then have "length c < 2 ^ 31" if "unat w = length c" for w :: u8 using that by metis
  then have "length c < 2 ^ 31" using r by (auto simp: read_size_def bind_Some_iff split: if_splits)
  moreover have "3 \<le> length c"
  proof -
    obtain cnt h where "IsValidBinnHeader c (Some 0) = Some (Some (t, cnt, length c, h))" using a by (auto simp: container_ok_def)
    then have "\<not> length c < MIN_BINN_SIZE"
      using r by (auto simp: IsValidBinnHeader_def bind_Some_iff split: if_splits option.splits)
    then show ?thesis by (simp add: MIN_BINN_SIZE_def)
  qed
  ultimately show ?thesis by simp
qed

lemma length_enc: "type_ok t \<Longrightarrow> length (enc (t, c)) \<le> (if storage t = BINN_STORAGE_CONTAINER then length c
    else if storage t = BINN_STORAGE_BLOB then length c + 6 else if storage t = BINN_STORAGE_STRING then length c + 7 else length c + 2)"
  by (auto simp: enc_def type_bytes_def data_bytes_def length_size_bytes storage_defs)

text \<open>What a call with good arguments comes to, up to the allocation.\<close>

definition selected :: "bool \<Rightarrow> int \<Rightarrow> cptr \<Rightarrow> (int \<times> int) option" where
  "selected comp_on t pvalue = (if type_family t = BINN_FAMILY_INT \<and> comp_on
     then (case pvalue of None \<Rightarrow> None | Some bs \<Rightarrow> compress_int (storage t) t bs) else Some (storage t, t))"

definition no_value :: "int \<Rightarrow> cptr \<Rightarrow> int \<Rightarrow> bool" where
  "no_value t pvalue sz \<longleftrightarrow> pvalue = None \<and> storage t \<noteq> BINN_STORAGE_NOBYTES \<and>
     \<not> (storage t \<in> {BINN_STORAGE_BLOB, BINN_STORAGE_STRING} \<and> sz = 0)"

lemma AddValue_selected:
  "AddValue mem item t pvalue sz =
     (if no_value t pvalue sz then Some (False, item)
      else do {
        (storage_type, t) \<leftarrow> selected (\<not> disable_int_compression item) t pvalue;
        arg \<leftarrow> arg_size storage_type pvalue sz;
        case arg of None \<Rightarrow> Some (False, item)
        | Some (sz, ArgSize) \<Rightarrow> do {
            (ok, item) \<leftarrow> CheckAllocation mem item (ArgSize + 2);
            if \<not> ok then Some (False, item)
            else do {
              bs \<leftarrow> memcpy_out pvalue sz;
              let bs = type_bytes storage_type t @ data_bytes storage_type bs;
              b \<leftarrow> memcpy_in (pbuf item) (used_size item) bs;
              Some (True, item\<lparr>pbuf := b, used_size := used_size item + length bs, dirty := True\<rparr>)
            }
          }
      })"
  unfolding AddValue_def selected_def no_value_def storage_def Let_def by (rule refl)

lemma stores_selected:
  assumes "stores comp_on t pvalue sz v"
  obtains n a where "\<not> no_value t pvalue sz" "selected comp_on t pvalue = Some (storage (fst v), fst v)"
    "arg_size (storage (fst v)) pvalue sz = Some (Some (n, a))" "memcpy_out pvalue n = Some (snd v)"
    "length (enc v) \<le> a + 2" "a \<le> length (snd v) + 5" "val_ok v"
  using assms
proof cases
  case (compressed bs s t2)
  obtain t3 where t3: "compress_int (storage t) t bs = Some (storage t3, t3)" "t3 \<in> set int_types" "int_width t3 \<le> int_width t"
    using compress_int_ok [OF compressed(4,5)] by metis
  then have t2: "s = storage t2" "t2 = t3" using compressed(6) by simp_all
  have w: "type_ok t2" "number_width (storage t2) = Some (int_width t2)" "int_width t2 \<le> length bs"
    using int_type_ok [of t2] t3 t2 compressed(5) by auto
  then have "arg_size (storage t2) pvalue sz = Some (Some (int_width t2, int_width t2))" "val_ok v" "length (enc v) \<le> int_width t2 + 2"
    using compressed length_enc [OF w(1), of "take (int_width t2) bs"]
    by (auto simp: number_width_def arg_size_def val_ok_def storage_defs split: if_splits)
  then show ?thesis using that [of "int_width t2" "int_width t2"] compressed w t2
    by (simp add: no_value_def selected_def family_int memcpy_out_take)
next
  case nobytes
  then have "t \<notin> set int_types"
    using int_type_ok [of t] int_type_width [of t] by (auto simp: number_width_def)
  then show ?thesis using that [of 0 0] nobytes length_enc [of t "[]"]
    by (simp add: no_value_def selected_def family_int arg_size_def val_ok_def storage_defs)
next
  case (number w bs)
  then have "arg_size (storage t) pvalue sz = Some (Some (w, w))" "val_ok v" "length (enc v) \<le> w + 2"
    using length_enc [OF number(3), of "take w bs"]
    by (auto simp: number_width_def arg_size_def val_ok_def storage_defs split: if_splits)
  then show ?thesis using that [of w w] number by (auto simp: no_value_def selected_def family_int memcpy_out_take)
next
  case (blob n bs)
  then have "t \<notin> set int_types" by (auto dest: int_type_ok simp: number_width_def storage_defs)
  then show ?thesis using that [of n "n + 4"] blob length_enc [OF blob(4), of "take n bs"]
    by (simp add: no_value_def selected_def family_int arg_size_def val_ok_def memcpy_out_take storage_defs)
next
  case (chars n bs)
  then have "t \<notin> set int_types" by (auto dest: int_type_ok simp: number_width_def storage_defs)
  then show ?thesis using that [of n "n + 5"] chars length_enc [OF chars(4), of "take n bs"]
    by (simp add: no_value_def selected_def family_int arg_size_def val_ok_def memcpy_out_take storage_defs)
next
  case (c_string bs s)
  then have "t \<notin> set int_types" by (auto dest: int_type_ok simp: number_width_def storage_defs)
  moreover have "length s \<le> length bs" "take (length s) bs = s" using c_str_Some [OF c_string(6)] by auto
  ultimately show ?thesis using that [of "length s" "length s + 5"] c_string length_enc [OF c_string(4), of s]
    by (simp add: no_value_def selected_def family_int arg_size_def val_ok_def memcpy_out_take storage_defs)
next
  case null
  then have "t \<notin> set int_types" by (auto dest: int_type_ok simp: number_width_def storage_defs)
  then show ?thesis using that [of 0 "if storage t = BINN_STORAGE_BLOB then 4 else 5"] null length_enc [OF null(4), of "[]"]
    by (auto simp: no_value_def selected_def family_int arg_size_def val_ok_def storage_defs)
next
  case (container n bs)
  then have "t \<notin> set int_types" by (auto dest: int_type_ok simp: number_width_def storage_defs)
  moreover have "3 \<le> n" using container_length [OF container(7)] container(6) by simp
  ultimately show ?thesis using that [of n n] container length_enc [OF container(4), of "take n bs"]
    by (simp add: no_value_def selected_def family_int arg_size_def val_ok_def memcpy_out_take storage_defs)
qed

text \<open>A call with good arguments and enough room adds the bytes of its value at the end.\<close>

definition same_setup :: "binn \<Rightarrow> binn \<Rightarrow> bool" where
  "same_setup item item' \<longleftrightarrow> disable_int_compression item' = disable_int_compression item \<and>
     pre_allocated item' = pre_allocated item \<and> (pre_allocated item \<longrightarrow> alloc_size item' = alloc_size item)"

lemma same_setup_trans: "same_setup a b \<Longrightarrow> same_setup b c \<Longrightarrow> same_setup a c"
  by (auto simp: same_setup_def)

lemma AddValue_stores:
  assumes "in_buffer item t body n" "mem_ok mem" "stores (\<not> disable_int_compression item) ty pvalue sz v" "room item (length (snd v) + 7)"
  obtains item' where "AddValue mem item ty pvalue sz = Some (True, item')" "in_buffer item' t (body @ enc v) n" "dirty item'"
    "same_setup item item'"
proof -
  obtain k a where v: "\<not> no_value ty pvalue sz" "selected (\<not> disable_int_compression item) ty pvalue = Some (storage (fst v), fst v)"
    "arg_size (storage (fst v)) pvalue sz = Some (Some (k, a))" "memcpy_out pvalue k = Some (snd v)"
    "length (enc v) \<le> a + 2" "a \<le> length (snd v) + 5"
    using stores_selected [OF assms(3)] by metis
  have "room item (a + 2)" using room_mono [OF assms(4)] v(6) by simp
  then obtain item1 where i: "CheckAllocation mem item (a + 2) = Some (True, item1)" using CheckAllocation_ok [OF assms(1,2)] by blast
  note g = grow_holds [OF assms(1) mem_ok_sizes [OF assms(2)] i]
  have e: "type_bytes (storage (fst v)) (fst v) @ data_bytes (storage (fst v)) (snd v) = enc v" by (simp add: enc_def split: prod.split)
  have r: "used_size item1 + length (enc v) \<le> alloc_size item1" using g(3) v(5) grown_simps(1) [OF g(2)] by simp
  obtain b where b: "memcpy_in (pbuf item1) (used_size item1) (enc v) = Some b"
    "in_buffer (item1\<lparr>pbuf := b, used_size := used_size item1 + length (enc v)\<rparr>) t (body @ enc v) n"
    using append_holds [OF g(1) r] by metis
  have "AddValue mem item ty pvalue sz =
      Some (True, item1\<lparr>pbuf := b, used_size := used_size item1 + length (enc v), dirty := True\<rparr>)"
    using v i b(1) e by (simp add: AddValue_selected Let_def del: length_append)
  then show thesis using that b(2) grown_simps [OF g(2)] g(4) by (auto simp: in_buffer_def same_setup_def)
qed

lemma AddValue_fails:
  assumes "in_buffer item t body n" "mem_sizes mem" "AddValue mem item ty pvalue sz = Some (False, item')"
  shows "in_buffer item' t body n" "grown item item'"
proof -
  have "item' = item \<or> (\<exists>k. CheckAllocation mem item k = Some (False, item'))"
    using assms(3) by (auto simp: AddValue_selected bind_Some_iff split: if_splits option.splits)
  then have "in_buffer item' t body n \<and> grown item item'" using grow_holds [OF assms(1,2)] assms(1) by auto
  then show "in_buffer item' t body n" "grown item item'" by simp_all
qed

lemma list_add_stores:
  assumes "rep item BINN_LIST body n" "mem_ok mem" "stores (\<not> disable_int_compression item) ty pvalue sz v" "room item (length (snd v) + 7)"
  obtains item' where "binn_list_add_raw mem item ty pvalue sz = Some (True, item')" "rep item' BINN_LIST (body @ enc v) (n + 1)"
    "same_setup item item'"
proof -
  have h: "in_buffer item BINN_LIST body n" using assms(1) by (simp add: rep_def)
  obtain item' where "AddValue mem item ty pvalue sz = Some (True, item')" "in_buffer item' BINN_LIST (body @ enc v) n" "dirty item'" "same_setup item item'"
    using AddValue_stores [OF h assms(2-4)] by metis
  then show thesis using h that [of "item'\<lparr>bcount := bcount item' + 1\<rparr>"]
    by (simp add: binn_list_add_raw_def rep_def in_buffer_def same_setup_def)
qed

text \<open>A keyed entry: its key and its value are added, or neither.\<close>

lemma append_pair:
  assumes "rep item t body n" "mem_ok mem" "length kb \<le> k" "stores (\<not> disable_int_compression item) ty pvalue sz v"
    "room item (k + length (snd v) + 7)"
  obtains item1 b item' where "CheckAllocation mem item k = Some (True, item1)" "memcpy_in (pbuf item1) (used_size item1) kb = Some b"
    "AddValue mem (item1\<lparr>pbuf := b, used_size := used_size item1 + length kb\<rparr>) ty pvalue sz = Some (True, item')"
    "rep (item'\<lparr>bcount := bcount item' + 1\<rparr>) t (body @ kb @ enc v) (n + 1)" "same_setup item item'"
proof -
  have h: "in_buffer item t body n" using assms(1) by (simp add: rep_def)
  obtain item1 where i: "CheckAllocation mem item k = Some (True, item1)"
    using CheckAllocation_ok [OF h assms(2)] room_mono [OF assms(5), of k] by auto
  note g = grow_holds [OF h mem_ok_sizes [OF assms(2)] i]
  note gs = grown_simps [OF g(2)]
  have r: "used_size item1 + length kb \<le> alloc_size item1" using g(3) assms(3) gs(1) by simp
  obtain b where b: "memcpy_in (pbuf item1) (used_size item1) kb = Some b"
    "in_buffer (item1\<lparr>pbuf := b, used_size := used_size item1 + length kb\<rparr>) t (body @ kb) n"
    using append_holds [OF g(1) r] by metis
  let ?item = "item1\<lparr>pbuf := b, used_size := used_size item1 + length kb\<rparr>"
  have "same_setup item ?item" using gs g(4) by (auto simp: same_setup_def)
  moreover have r: "room ?item (length (snd v) + 7)" using assms(3,5) gs g(4) by (auto simp: room_def)
  moreover have s: "stores (\<not> disable_int_compression ?item) ty pvalue sz v" using assms(4) gs(3) by simp
  obtain item' where i': "AddValue mem ?item ty pvalue sz = Some (True, item')" "in_buffer item' t ((body @ kb) @ enc v) n" "dirty item'"
    "same_setup ?item item'"
    by (rule AddValue_stores [OF b(2) assms(2) s r])
  moreover have "rep (item'\<lparr>bcount := bcount item' + 1\<rparr>) t (body @ kb @ enc v) (n + 1)" using i'(2,3) by (simp add: rep_def in_buffer_def)
  ultimately show thesis using that [OF i b(1)] same_setup_trans by blast
qed

section \<open>The header\<close>

lemma save_header_bytes:
  assumes "used_size item = MAX_BINN_HEADER + len"
  shows "binn_save_header item = do {
     b \<leftarrow> memcpy_in (pbuf item) (MAX_BINN_HEADER - length (header_bytes (btype item) (bcount item) len)) (header_bytes (btype item) (bcount item) len);
     Some (item\<lparr>pbuf := b, ptr := MAX_BINN_HEADER - length (header_bytes (btype item) (bcount item) len),
       bsize := total_size (bcount item) len, dirty := False\<rparr>) }"
proof -
  let ?s = "used_size item - MAX_BINN_HEADER + 3 + (if bcount item > 127 then 3 else 0)"
  have "(if ?s > 127 then be32_bytes (?s + 3 + 2 ^ 31) else [of_nat ?s]) = size_bytes (total_size (bcount item) len)"
    "(if ?s > 127 then ?s + 3 else ?s) = total_size (bcount item) len"
    using assms by (simp_all add: total_size_def size_bytes_def Let_def)
  then show ?thesis unfolding binn_save_header_def Let_def header_bytes_def by simp
qed

lemma save_header_holds:
  assumes "in_buffer item t body n"
  obtains item' where "binn_save_header item = Some item'" "in_buffer item' t body n" "header_saved item' (header_bytes t n (length body))"
    "\<not> dirty item'" "same_setup item item'"
proof -
  let ?h = "header_bytes t n (length body)" and ?p = "MAX_BINN_HEADER - length (header_bytes t n (length body))"
  note hl = header_length(2) [of t n "length body"]
  have "?p + length ?h = MAX_BINN_HEADER" using hl by simp
  moreover have "MAX_BINN_HEADER \<le> length (pbuf item)" using assms by (simp add: in_buffer_def)
  ultimately obtain b where b: "memcpy_in (pbuf item) ?p ?h = Some b" "length b = length (pbuf item)"
    using memcpy_in_ok [of ?p ?h "pbuf item"] by auto
  have "at b MAX_BINN_HEADER body" using at_memcpy_in_after [OF b(1)] hl assms by (simp add: in_buffer_def)
  moreover have "at b ?p ?h" by (rule at_memcpy_in(1) [OF b(1)])
  moreover have "binn_save_header item = Some (item\<lparr>pbuf := b, ptr := ?p, bsize := total_size n (length body), dirty := False\<rparr>)"
    using save_header_bytes [of item "length body"] b(1) assms by (simp add: in_buffer_def)
  ultimately show thesis using that assms b(2) by (auto simp: in_buffer_def header_saved_def same_setup_def)
qed

text \<open>\<open>binn_ptr\<close> gives the header and the entries, and the structure can still be written.\<close>

lemma binn_ptr_rep:
  assumes "rep item t body n"
  obtains b item' where "binn_ptr item = Some (b, item')" "rep item' t body n" "at b 0 (header_bytes t n (length body) @ body)"
    "same_setup item item'"
proof -
  let ?h = "header_bytes t n (length body)"
  obtain item' where i: "(if writable item \<and> dirty item then binn_save_header item else Some item) = Some item'" "in_buffer item' t body n"
    "header_saved item' ?h" "same_setup item item'"
  proof (cases "dirty item")
    case True
    then show thesis using that save_header_holds [of item t body n] assms by (auto simp: rep_def in_buffer_def)
  next
    case False
    then show thesis using that [of item] assms by (simp add: rep_def same_setup_def)
  qed
  have "ptr item' + length ?h = MAX_BINN_HEADER" using i(3) header_length(2) [of t n "length body"] by (simp add: header_saved_def)
  moreover have "at (pbuf item') (ptr item') ?h" "at (pbuf item') MAX_BINN_HEADER body" using i(2,3) unfolding header_saved_def in_buffer_def by blast+
  ultimately have "at (pbuf item') (ptr item') (?h @ body)" by (simp add: at_append)
  then show thesis using that [of "drop (ptr item') (pbuf item')" item'] i by (simp add: binn_ptr_def rep_def at_drop)
qed

lemma container_byte: "t \<in> {BINN_LIST, BINN_MAP, BINN_OBJECT} \<Longrightarrow>
    uint (of_int t :: u8) = t \<and> of_int t AND (0xE0 :: u8) = 0xE0 \<and> of_int t AND (0x10 :: u8) = 0"
  by (auto simp: container_defs)

lemma header_valid:
  assumes "at b 0 (header_bytes t n len)" "t \<in> {BINN_LIST, BINN_MAP, BINN_OBJECT}" "total_size n len < 2 ^ 31" "n < 2 ^ 31"
    "psize = 0 \<or> length (header_bytes t n len) \<le> psize"
  shows "IsValidBinnHeader b (Some psize) = Some (Some (t, n, total_size n len, length (header_bytes t n len)))"
proof -
  let ?s = "size_bytes (total_size n len)" and ?l = "if psize > 0 then Some (psize - 1) else None"
  have p: "peek b 0 = Some (of_int t)" "at b 1 ?s" "at b (1 + length ?s) (size_bytes n)"
    using assms(1) by (simp_all add: header_bytes_def at_Cons at_append)
  have h: "length (header_bytes t n len) = 1 + length ?s + length (size_bytes n)" by (simp add: header_bytes_def)
  have "read_size b ?l 1 = Some (Some (total_size n len, 1 + length ?s))"
    by (rule read_size_at [OF p(2) assms(3)]) (use assms(5) h in \<open>auto split: if_splits\<close>)
  moreover have "read_size b ?l (1 + length ?s) = Some (Some (n, 1 + length ?s + length (size_bytes n)))"
    by (rule read_size_at [OF p(3) assms(4)]) (use assms(5) h in \<open>auto split: if_splits\<close>)
  moreover have "\<not> total_size n len < MIN_BINN_SIZE" by (simp add: total_size_def MIN_BINN_SIZE_def Let_def)
  ultimately show ?thesis using p(1) container_byte [OF assms(2)] assms(2) h by (cases "psize > 0") (auto simp: IsValidBinnHeader_def Let_def)
qed

section \<open>A call that fails\<close>

lemma rep_grown: "rep item t body n \<Longrightarrow> in_buffer item' t body n \<Longrightarrow> grown item item' \<Longrightarrow> rep item' t body n"
  by (simp add: rep_def grown_simps)

text \<open>When the value is refused after its key was written, taking the key's length back restores the
  container.\<close>

lemma refused_pair:
  assumes "rep item t body n" "mem_sizes mem" "CheckAllocation mem item k = Some (True, item1)" "length kb \<le> k"
    "memcpy_in (pbuf item1) (used_size item1) kb = Some b"
    "AddValue mem (item1\<lparr>pbuf := b, used_size := used_size item1 + length kb\<rparr>) ty pvalue sz = Some (False, item')"
  shows "rep (item'\<lparr>used_size := used_size item' - length kb\<rparr>) t body n"
proof -
  have h: "in_buffer item t body n" using assms(1) by (simp add: rep_def)
  note g = grow_holds [OF h assms(2,3)]
  note r = rep_grown [OF assms(1) g(1,2)]
  have u: "used_size item1 + length kb \<le> alloc_size item1" using g(3) assms(4) grown_simps(1) [OF g(2)] by simp
  obtain b' where b': "memcpy_in (pbuf item1) (used_size item1) kb = Some b'"
    "in_buffer (item1\<lparr>pbuf := b', used_size := used_size item1 + length kb\<rparr>) t (body @ kb) n"
    "\<And>q ys. q + length ys \<le> used_size item1 \<Longrightarrow> at (pbuf item1) q ys \<Longrightarrow> at b' q ys"
    by (rule append_holds [OF g(1) u]) blast
  then have b: "in_buffer (item1\<lparr>pbuf := b, used_size := used_size item1 + length kb\<rparr>) t (body @ kb) n"
    "\<And>q ys. q + length ys \<le> used_size item1 \<Longrightarrow> at (pbuf item1) q ys \<Longrightarrow> at b q ys" using assms(5) by simp_all
  note f = AddValue_fails [OF b(1) assms(2,6)]
  have "in_buffer (item'\<lparr>used_size := used_size item' - length kb\<rparr>) t body n" using f(1) by (simp add: in_buffer_def at_append)
  moreover have "header_saved (item1\<lparr>pbuf := b, used_size := used_size item1 + length kb\<rparr>) x" if "header_saved item1 x" "length x \<le> MAX_BINN_HEADER" for x
    using that b(2) [of "ptr item1" x] g(1) by (auto simp: header_saved_def in_buffer_def)
  then have "header_saved item' (header_bytes t n (length body))" if "\<not> dirty item'"
    using that r grown_simps(4,5) [OF f(2)] header_length(2) [of t n "length body"] by (simp add: rep_def)
  then have "\<not> dirty item' \<Longrightarrow> header_saved (item'\<lparr>used_size := used_size item' - length kb\<rparr>) (header_bytes t n (length body))"
    by (auto simp: header_saved_def)
  ultimately show ?thesis by (simp add: rep_def)
qed

lemma length_id_bytes: "map_id_bytes ident = Some bs \<Longrightarrow> length bs \<le> 5"
  by (auto simp: map_id_bytes_def Let_def split: if_splits)

lemma list_add_fails:
  assumes "rep item t body n" "mem_sizes mem" "binn_list_add_raw mem item ty pvalue sz = Some (False, item')"
  shows "rep item' t body n"
proof -
  have h: "in_buffer item t body n" using assms(1) by (simp add: rep_def)
  have "item' = item \<or> AddValue mem item ty pvalue sz = Some (False, item')"
    using assms(3) by (auto simp: binn_list_add_raw_def bind_Some_iff split: if_splits)
  then show ?thesis using assms(1) AddValue_fails [OF h assms(2)] rep_grown [OF assms(1)] by metis
qed

text \<open>The part that maps and objects have in common.\<close>

definition add_pair :: "(nat \<Rightarrow> u8 list option) \<Rightarrow> binn \<Rightarrow> nat \<Rightarrow> u8 list option \<Rightarrow> int \<Rightarrow> cptr \<Rightarrow> int \<Rightarrow> (bool \<times> binn) option" where
  "add_pair mem item k kb t pvalue sz = do {
     (ok, item) \<leftarrow> CheckAllocation mem item k;
     if \<not> ok then Some (False, item)
     else do {
       bs \<leftarrow> kb;
       b \<leftarrow> memcpy_in (pbuf item) (used_size item) bs;
       let item = item\<lparr>pbuf := b, used_size := used_size item + length bs\<rparr>;
       (ok, item) \<leftarrow> AddValue mem item t pvalue sz;
       Some (if ok then (True, item\<lparr>bcount := bcount item + 1\<rparr>) else (False, item\<lparr>used_size := used_size item - length bs\<rparr>))
     }
   }"

lemma map_set_pair:
  "binn_map_set_raw mem item ident t pvalue sz =
     (if btype item \<noteq> BINN_MAP \<or> \<not> writable item then Some (False, item)
      else do {
        p \<leftarrow> SearchForID (pbuf item) MAX_BINN_HEADER (used_size item) (bcount item) ident;
        if p \<noteq> None then Some (False, item) else add_pair mem item 5 (map_id_bytes ident) t pvalue sz
      })"
  unfolding binn_map_set_raw_def add_pair_def by (rule refl)

definition key_bytes :: "u8 list \<Rightarrow> u8 list" where
  "key_bytes key = of_nat (length key) # key"

lemma object_set_pair:
  "binn_object_set_raw strnicmp mem item (Some key) t pvalue sz =
     (if btype item \<noteq> BINN_OBJECT \<or> \<not> writable item \<or> length key > 255 then Some (False, item)
      else do {
        p \<leftarrow> SearchForKey strnicmp (pbuf item) MAX_BINN_HEADER (used_size item) (bcount item) key;
        if p \<noteq> None then Some (False, item) else add_pair mem item (1 + length key) (Some (key_bytes key)) t pvalue sz
      })"
  unfolding binn_object_set_raw_def add_pair_def key_bytes_def Let_def by (simp only: option.case bind.bind_lunit if_not_P de_Morgan_disj) simp

lemma add_pair_fails:
  assumes "rep item t body n" "mem_sizes mem" "\<And>bs. kb = Some bs \<Longrightarrow> length bs \<le> k"
    "add_pair mem item k kb ty pvalue sz = Some (False, item')"
  shows "rep item' t body n"
proof -
  have h: "in_buffer item t body n" using assms(1) by (simp add: rep_def)
  obtain ok item1 where c: "CheckAllocation mem item k = Some (ok, item1)" using assms(4) by (auto simp: add_pair_def bind_Some_iff)
  note g = grow_holds [OF h assms(2) c]
  show ?thesis
  proof (cases ok)
    case True
    then obtain bs b where b: "kb = Some bs" "memcpy_in (pbuf item1) (used_size item1) bs = Some b"
      using assms(4) c by (auto simp: add_pair_def bind_Some_iff)
    let ?item = "item1\<lparr>pbuf := b, used_size := used_size item1 + length bs\<rparr>"
    obtain ok2 item2 where a: "AddValue mem ?item ty pvalue sz = Some (ok2, item2)"
      using assms(4) c True b by (auto simp: add_pair_def bind_Some_iff Let_def)
    then have "\<not> ok2" "item' = item2\<lparr>used_size := used_size item2 - length bs\<rparr>"
      using assms(4) c True b by (auto simp: add_pair_def Let_def split: if_splits)
    then show ?thesis using refused_pair [OF assms(1,2) _ assms(3) [OF b(1)] b(2)] a c True by simp
  next
    case False
    then have "item' = item1" using assms(4) c by (simp add: add_pair_def)
    then show ?thesis using rep_grown [OF assms(1) g(1,2)] by simp
  qed
qed

lemma add_pair_stores:
  assumes "rep item t body n" "mem_ok mem" "length kb \<le> k" "stores (\<not> disable_int_compression item) ty pvalue sz v"
    "room item (k + length (snd v) + 7)"
  obtains item' where "add_pair mem item k (Some kb) ty pvalue sz = Some (True, item')" "rep item' t (body @ kb @ enc v) (n + 1)" "same_setup item item'"
proof -
  obtain item1 b item' where i: "CheckAllocation mem item k = Some (True, item1)" "memcpy_in (pbuf item1) (used_size item1) kb = Some b"
    "AddValue mem (item1\<lparr>pbuf := b, used_size := used_size item1 + length kb\<rparr>) ty pvalue sz = Some (True, item')"
    "rep (item'\<lparr>bcount := bcount item' + 1\<rparr>) t (body @ kb @ enc v) (n + 1)" "same_setup item item'"
    by (rule append_pair [OF assms])
  show thesis by (rule that [of "item'\<lparr>bcount := bcount item' + 1\<rparr>"]) (use i in \<open>simp_all add: add_pair_def same_setup_def\<close>)
qed

text \<open>C25.  A call that returns \<open>FALSE\<close> leaves the container as it was: when a value cannot be added to a
  list, or a pair to a map or an object (a wrong type, a taken key, a size that is not allowed, no memory
  or no room), the entries, their count and their bytes are the same, also when the key had been
  written before the value was refused.\<close>

theorem binn_failed_add_keeps:
  assumes "rep item t body n" "mem_sizes mem"
    "binn_list_add_raw mem item ty pvalue sz = Some (False, item') \<or> binn_map_set_raw mem item ident ty pvalue sz = Some (False, item') \<or>
     binn_object_set_raw strnicmp mem item key ty pvalue sz = Some (False, item')"
  shows "rep item' t body n"
  using assms(3)
proof (elim disjE)
  assume "binn_list_add_raw mem item ty pvalue sz = Some (False, item')"
  then show ?thesis using list_add_fails [OF assms(1,2)] by simp
next
  assume "binn_map_set_raw mem item ident ty pvalue sz = Some (False, item')"
  then have "item' = item \<or> add_pair mem item 5 (map_id_bytes ident) ty pvalue sz = Some (False, item')"
    by (auto simp: map_set_pair bind_Some_iff split: if_splits)
  then show ?thesis
  proof
    assume "add_pair mem item 5 (map_id_bytes ident) ty pvalue sz = Some (False, item')"
    then show ?thesis by (rule add_pair_fails [OF assms(1,2) length_id_bytes, rotated])
  qed (use assms(1) in simp)
next
  assume o: "binn_object_set_raw strnicmp mem item key ty pvalue sz = Some (False, item')"
  show ?thesis
  proof (cases key)
    case None
    then have "item' = item" using o by (auto simp: binn_object_set_raw_def split: if_splits)
    then show ?thesis using assms(1) by simp
  next
    case (Some k)
    then have "item' = item \<or> add_pair mem item (1 + length k) (Some (key_bytes k)) ty pvalue sz = Some (False, item')"
      using o by (auto simp: object_set_pair bind_Some_iff split: if_splits)
    then show ?thesis
    proof
      assume "add_pair mem item (1 + length k) (Some (key_bytes k)) ty pvalue sz = Some (False, item')"
      then show ?thesis by (rule add_pair_fails [OF assms(1,2), rotated]) (auto simp: key_bytes_def)
    qed (use assms(1) in simp)
  qed
qed

text \<open>A structure as \<open>binn_create\<close> leaves it.\<close>

lemma create_rep:
  assumes "t \<in> {BINN_LIST, BINN_MAP, BINN_OBJECT}" "mem_ok mem"
  obtains item where "binn_create mem t 0 None = Some item" "rep item t [] 0" "\<not> disable_int_compression item"
    "\<not> pre_allocated item" "used_size item = MAX_BINN_HEADER"
proof -
  obtain b where "mem CHUNK_SIZE = Some b" "length b = CHUNK_SIZE" using assms(2) by (auto simp: mem_ok_def)
  then show thesis using that assms(1)
    by (auto simp: binn_create_def Let_def rep_def in_buffer_def MIN_BINN_SIZE_def CHUNK_SIZE_def MAX_BINN_HEADER_def)
qed

definition small_map :: binn where
  "small_map = \<lparr>writable = True, dirty = True, pbuf = replicate 32 0, pre_allocated = True, alloc_size = 32,
     used_size = 9, btype = BINN_MAP, ptr = 0, bsize = 0, bcount = 0, disable_int_compression = False\<rparr>"

theorem binn_failed_add_keeps_witness:
  "binn_create (\<lambda>_. None) BINN_MAP 32 (Some (replicate 32 0)) = Some small_map \<and>
   (\<exists>item'. binn_map_set_raw (\<lambda>_. None) small_map 5 0xC0 (Some [1]) (- 1) = Some (False, item') \<and>
      pbuf item' \<noteq> pbuf small_map \<and> rep item' BINN_MAP [] 0)"
proof -
  have c: "binn_create (\<lambda>_. None) BINN_MAP 32 (Some (replicate 32 0)) = Some small_map"
    by (simp add: binn_create_def small_map_def MIN_BINN_SIZE_def MAX_BINN_HEADER_def Let_def)
  have r: "rep small_map BINN_MAP [] 0" by (simp add: rep_def in_buffer_def small_map_def MAX_BINN_HEADER_def)
  have s: "SearchForID (pbuf small_map) MAX_BINN_HEADER (used_size small_map) (bcount small_map) 5 = Some None"
    by (simp add: SearchForID_def small_map_def)
  have a: "AddValue (\<lambda>_. None) x 0xC0 (Some [1]) (- 1) = Some (False, x)" for x
    by (simp add: AddValue_def binn_get_type_info_def type_info16_def type_family_def BINN_FAMILY_INT_def int_types_def int_type_defs
        container_defs arg_size_def storage_defs)
  have m: "map_id_bytes 5 = Some [5]" by (simp add: map_id_bytes_def)
  let ?b = "replicate 9 0 @ [5] @ replicate 22 0"
  have "binn_map_set_raw (\<lambda>_. None) small_map 5 0xC0 (Some [1]) (- 1) = Some (False, small_map\<lparr>pbuf := ?b\<rparr>)"
    unfolding map_set_pair s add_pair_def m by (simp add: small_map_def CheckAllocation_def INT_MAX_def memcpy_in_def a)
  moreover have "rep (small_map\<lparr>pbuf := ?b\<rparr>) BINN_MAP [] 0"
    by (rule binn_failed_add_keeps [OF r, where mem = "\<lambda>_. None" and ty = "0xC0" and pvalue = "Some [1]" and sz = "- 1" and ident = "5"]) (use calculation in \<open>simp_all add: mem_sizes_def\<close>)
  moreover have "pbuf (small_map\<lparr>pbuf := ?b\<rparr>) ! 9 \<noteq> pbuf small_map ! 9" by (simp add: small_map_def nth_append)
  then have "pbuf (small_map\<lparr>pbuf := ?b\<rparr>) \<noteq> pbuf small_map" by (rule contrapos_nn) (simp only:)
  ultimately show ?thesis using c by blast
qed

text \<open>A caller's buffer of 3 to 8 bytes is accepted although the space that is kept for the header does not
  fit in it: taking the bytes of such a container writes the header outside the buffer.\<close>

theorem binn_small_buffer_overruns:
  assumes "t \<in> {BINN_LIST, BINN_MAP, BINN_OBJECT}" "int (length b) = sz" "int MIN_BINN_SIZE \<le> sz" "sz < int MAX_BINN_HEADER"
  shows "\<exists>item. binn_create mem t sz (Some b) = Some item \<and> binn_ptr item = None"
  using assms
  by (auto simp: binn_create_def Let_def MIN_BINN_SIZE_def MAX_BINN_HEADER_def binn_ptr_def binn_save_header_def size_bytes_def memcpy_in_def)

theorem binn_small_buffer_overruns_witness:
  "\<exists>item. binn_create (\<lambda>_. None) BINN_LIST 8 (Some (replicate 8 0)) = Some item \<and> binn_ptr item = None"
  by (rule binn_small_buffer_overruns) (simp_all add: MIN_BINN_SIZE_def MAX_BINN_HEADER_def)

end
