(* ===== verification/Binn_Maps.thy ===== *)
theory Binn_Maps
  imports Binn_Containers
begin

unbundle bit_operations_syntax

text \<open>
  Reading the containers of \<open>lib/binn\<close> back: a list is the sequence of the values that were added, a
  map and an object are finite maps in which the first value of a key is kept.
\<close>

section \<open>Entries with keys\<close>

text \<open>A list has the entries of a container whose keys take no bytes.\<close>

definition entries :: "('k \<Rightarrow> u8 list) \<Rightarrow> ('k \<times> bval) list \<Rightarrow> u8 list" where
  "entries kbytes es = concat (map (\<lambda>(k, v). kbytes k @ enc v) es)"

lemma entries_simps [simp]:
  "entries kbytes [] = []" "entries kbytes ((k, v) # es) = kbytes k @ enc v @ entries kbytes es"
  "entries kbytes (es @ fs) = entries kbytes es @ entries kbytes fs"
  by (simp_all add: entries_def)

lemma enc_nonempty: "val_ok v \<Longrightarrow> enc v \<noteq> []"
proof (cases v)
  case (Pair t c)
  assume a: "val_ok v"
  show ?thesis
  proof (cases "storage t = BINN_STORAGE_CONTAINER")
    case True
    then have "container_ok t c" using a Pair by (simp add: val_ok_def storage_defs)
    then show ?thesis using container_length [of t c] enc_container [OF True] Pair by auto
  next
    case False
    then show ?thesis using a Pair by (simp add: enc_def type_bytes_def)
  qed
qed

lemma entries_length: "list_all (\<lambda>(k, v). val_ok v) es \<Longrightarrow> length es \<le> length (entries kbytes es)"
proof (induction es)
  case (Cons e es)
  obtain k v where e: "e = (k, v)" by (cases e)
  have "Suc 0 \<le> length (enc v)" using Cons.prems enc_nonempty [of v] e by (simp add: Suc_le_eq)
  moreover have "length es \<le> length (entries kbytes es)" using Cons by simp
  ultimately show ?case using e by simp
qed simp

text \<open>Searching for a key: what the two search functions have in common.\<close>

locale keyed_search =
  fixes search :: "nat \<Rightarrow> u8 list \<Rightarrow> nat \<Rightarrow> nat \<Rightarrow> 'k \<Rightarrow> nat option option"
    and kbytes :: "'k \<Rightarrow> u8 list"
    and same :: "'k \<Rightarrow> 'k \<Rightarrow> bool"
    and kok :: "'k \<Rightarrow> bool"
  assumes search_none: "search 0 b p l key = Some None"
    and search_hit: "kok k \<Longrightarrow> kok key \<Longrightarrow> at b p (kbytes k) \<Longrightarrow> p + length (kbytes k) \<le> l \<Longrightarrow> same k key \<Longrightarrow>
      search (Suc n) b p l key = Some (Some (p + length (kbytes k)))"
    and search_miss: "kok k \<Longrightarrow> kok key \<Longrightarrow> at b p (kbytes k) \<Longrightarrow> p + length (kbytes k) \<le> l \<Longrightarrow> \<not> same k key \<Longrightarrow>
      search (Suc n) b p l key = do {
        r \<leftarrow> AdvanceDataPos b (p + length (kbytes k)) l;
        case r of None \<Rightarrow> Some None | Some q \<Rightarrow> search n b q l key
      }"
begin

lemma search_entries:
  assumes "list_all (\<lambda>(k, v). kok k \<and> val_ok v) es" "at b p (entries kbytes es)" "p + length (entries kbytes es) \<le> Suc l" "kok key"
  shows "(find (\<lambda>(k, v). same k key) es = None \<longrightarrow> search (length es) b p l key = Some None) \<and>
    (\<forall>k v. find (\<lambda>(k, v). same k key) es = Some (k, v) \<longrightarrow> (\<exists>q. search (length es) b p l key = Some (Some q) \<and> at b q (enc v)))"
  using assms(1-3)
proof (induction es arbitrary: p)
  case (Cons e es)
  obtain k v where e: "e = (k, v)" by (cases e)
  have kv: "kok k" "val_ok v" using Cons.prems(1) e by auto
  have a: "at b p (kbytes k)" "at b (p + length (kbytes k)) (enc v)" "at b (p + length (kbytes k) + length (enc v)) (entries kbytes es)"
    using Cons.prems(2) e by (simp_all add: at_append)
  have l: "p + length (kbytes k) + length (enc v) + length (entries kbytes es) \<le> Suc l" using Cons.prems(3) e by simp
  have "0 < length (enc v)" using enc_nonempty [OF kv(2)] by simp
  then have pl: "p + length (kbytes k) \<le> l" using l by linarith
  show ?case
  proof (cases "same k key")
    case True
    then show ?thesis using search_hit [OF kv(1) assms(4) a(1) pl True] a(2) e by auto
  next
    case False
    let ?q = "p + length (kbytes k) + length (enc v)"
    have s: "search (length (e # es)) b p l key = (if ?q \<le> l then search (length es) b ?q l key else Some None)"
      using search_miss [OF kv(1) assms(4) a(1) pl False] advance_at [OF kv(2) a(2)] by simp
    show ?thesis
    proof (cases "?q \<le> l")
      case True
      then show ?thesis using Cons.IH [OF _ a(3)] Cons.prems(1) l s e False by simp
    next
      case f: False
      have "list_all (\<lambda>(k, v). val_ok v) es" using Cons.prems(1) by (auto simp: list_all_iff)
      then have "length es \<le> length (entries kbytes es)" by (rule entries_length)
      then have "length es = 0" using f l by linarith
      then have "es = []" by simp
      then show ?thesis using f s e False by simp
    qed
  qed
qed (use search_none in simp)

end

interpretation id_search: keyed_search SearchForID_loop id_bytes "(=)" id_ok
proof unfold_locales
  fix k key :: int and b p l n
  assume a: "id_ok k" "id_ok key" "at b p (id_bytes k)" "p + length (id_bytes k) \<le> l"
  note r = read_id_at [OF a(1,3,4)]
  show "k = key \<Longrightarrow> SearchForID_loop (Suc n) b p l key = Some (Some (p + length (id_bytes k)))" using r a(4) by simp
  show "k \<noteq> key \<Longrightarrow> SearchForID_loop (Suc n) b p l key = do {
        r \<leftarrow> AdvanceDataPos b (p + length (id_bytes k)) l;
        case r of None \<Rightarrow> Some None | Some q \<Rightarrow> SearchForID_loop n b q l key }" using r a(4) by simp
qed simp

section \<open>Walking over all entries\<close>

text \<open>Where the key of an entry ends, as the check of a container finds it.\<close>

definition key_end :: "int \<Rightarrow> u8 list \<Rightarrow> nat \<Rightarrow> nat \<Rightarrow> nat option" where
  "key_end t b p plimit = (if t = BINN_OBJECT then map_option (\<lambda>l. p + 1 + unat l) (peek b p)
     else if t = BINN_MAP then map_option snd (read_map_id b p plimit) else Some p)"

lemma valid_entries:
  assumes "\<And>k p. kok k \<Longrightarrow> at b p (kbytes k) \<Longrightarrow> p + length (kbytes k) \<le> l \<Longrightarrow> key_end t b p l = Some (p + length (kbytes k))"
    "list_all (\<lambda>(k, v). kok k \<and> val_ok v) es" "at b p (entries kbytes es)" "p + length (entries kbytes es) \<le> l"
  shows "valid_items (length es) t b p l = Some True"
  using assms(2-4)
proof (induction es arbitrary: p)
  case (Cons e es)
  obtain k v where e: "e = (k, v)" by (cases e)
  have kv: "kok k" "val_ok v" using Cons.prems(1) e by auto
  have a: "at b p (kbytes k)" "at b (p + length (kbytes k)) (enc v)" "at b (p + length (kbytes k) + length (enc v)) (entries kbytes es)"
    using Cons.prems(2) e by (simp_all add: at_append)
  have l: "p + length (kbytes k) + length (enc v) + length (entries kbytes es) \<le> l" using Cons.prems(3) e by simp
  have "key_end t b p l = Some (p + length (kbytes k))" using assms(1) [OF kv(1) a(1)] l by simp
  then have "valid_items (length (e # es)) t b p l = valid_items (length es) t b (p + length (kbytes k) + length (enc v)) l"
    using advance_at [OF kv(2) a(2)] l by (simp add: key_end_def)
  then show ?case using Cons.IH [OF _ a(3)] Cons.prems(1) l by simp
qed simp

lemma container_valid:
  assumes "\<And>k p l. kok k \<Longrightarrow> at b p (kbytes k) \<Longrightarrow> p + length (kbytes k) \<le> l \<Longrightarrow> key_end t b p l = Some (p + length (kbytes k))"
    "list_all (\<lambda>(k, v). kok k \<and> val_ok v) es" "t \<in> {BINN_LIST, BINN_MAP, BINN_OBJECT}"
    "at b 0 (header_bytes t (length es) (length (entries kbytes es)) @ entries kbytes es)"
    "total_size (length es) (length (entries kbytes es)) < 2 ^ 31"
  shows "binn_is_valid b = Some (Some (t, length es, total_size (length es) (length (entries kbytes es))))"
    "IsValidBinnHeader b (Some 0) = Some (Some (t, length es, total_size (length es) (length (entries kbytes es)),
      length (header_bytes t (length es) (length (entries kbytes es)))))"
proof -
  let ?n = "length es" and ?l = "length (entries kbytes es)"
  let ?h = "header_bytes t ?n ?l" and ?s = "total_size ?n ?l"
  have a: "at b 0 ?h" "at b (length ?h) (entries kbytes es)" using assms(4) by (simp_all add: at_append)
  have "list_all (\<lambda>(k, v). val_ok v) es" using assms(2) by (auto simp: list_all_iff)
  then have "?n \<le> ?l" by (rule entries_length)
  also have "?l \<le> ?s" using header_length(1) [of t ?n ?l] by linarith
  finally have n: "?n < 2 ^ 31" using assms(5) by linarith
  show h: "IsValidBinnHeader b (Some 0) = Some (Some (t, ?n, ?s, length ?h))" using header_valid [OF a(1) assms(3,5) n, of 0] by simp
  have "valid_items ?n t b (length ?h) ?s = Some True"
    by (rule valid_entries [OF assms(1,2) a(2)]) (use header_length(1) [of t ?n ?l] in simp_all)
  then show "binn_is_valid b = Some (Some (t, ?n, ?s))" using h by (simp add: binn_is_valid_def binn_is_valid_ex_def)
qed

section \<open>Lists\<close>

definition list_bytes :: "bval list \<Rightarrow> u8 list" where
  "list_bytes vs = entries (\<lambda>_ :: unit. []) (map (Pair ()) vs)"

lemma list_bytes_simps [simp]: "list_bytes [] = []" "list_bytes (v # vs) = enc v @ list_bytes vs" "list_bytes (vs @ ws) = list_bytes vs @ list_bytes ws"
  by (simp_all add: list_bytes_def)

lemma advance_list:
  assumes "list_all val_ok vs" "at b p (list_bytes vs)" "p + length (list_bytes vs) \<le> l" "i < length vs"
  shows "\<exists>q. advance_n i b p l = Some (Some q) \<and> at b q (enc (vs ! i))"
  using assms
proof (induction vs arbitrary: p i)
  case (Cons v vs)
  have a: "val_ok v" "at b p (enc v)" "at b (p + length (enc v)) (list_bytes vs)" "p + length (enc v) + length (list_bytes vs) \<le> l"
    using Cons.prems by (simp_all add: at_append)
  show ?case
  proof (cases i)
    case (Suc j)
    then show ?thesis using Cons.IH [OF _ a(3,4), of j] Cons.prems(1,4) advance_at [OF a(1,2), of l] a(4) by simp
  qed (use a(2) in simp)
qed simp

text \<open>The calls of a client that stops at the first one that fails.\<close>

fun list_adds :: "(nat \<Rightarrow> u8 list option) \<Rightarrow> binn \<Rightarrow> (int \<times> cptr \<times> int) list \<Rightarrow> binn option" where
  "list_adds mem item [] = Some item"
| "list_adds mem item ((t, pvalue, sz) # cs) = do {
     (ok, item) \<leftarrow> binn_list_add_raw mem item t pvalue sz;
     if ok then list_adds mem item cs else None
   }"

definition cost :: "bval list \<Rightarrow> nat" where
  "cost vs = (\<Sum>v\<leftarrow>vs. length (snd v) + 7)"

lemma stores_val_ok: "stores c t pvalue sz v \<Longrightarrow> val_ok v \<and> length (enc v) \<le> length (snd v) + 7"
  by (rule stores_selected) auto

lemma room_after:
  assumes "same_setup item item'" "used_size item' \<le> used_size item + k" "room item (k + m)"
  shows "room item' m"
  using assms by (auto simp: room_def same_setup_def)

lemma list_adds_rep:
  assumes "mem_ok mem" "list_all2 (\<lambda>(t, pvalue, sz) v. stores (\<not> d) t pvalue sz v) calls vs" "disable_int_compression item = d"
    "room item (cost vs)" "rep item BINN_LIST (list_bytes us) (length us)"
  shows "\<exists>item'. list_adds mem item calls = Some item' \<and> rep item' BINN_LIST (list_bytes (us @ vs)) (length (us @ vs))"
  using assms(2-5)
proof (induction calls vs arbitrary: item us rule: list_all2_induct)
  case (Cons c cs v vs)
  obtain t pvalue sz where c: "c = (t, pvalue, sz)" by (cases c)
  have s: "stores (\<not> disable_int_compression item) t pvalue sz v" using Cons(1) Cons.prems(1) c by simp
  have r: "room item (length (snd v) + 7 + cost vs)" using Cons.prems(2) by (simp add: cost_def add_ac)
  obtain item1 where i: "binn_list_add_raw mem item t pvalue sz = Some (True, item1)" "rep item1 BINN_LIST (list_bytes us @ enc v) (length us + 1)"
    "same_setup item item1"
    using list_add_stores [OF Cons.prems(3) assms(1) s] room_mono [OF r] by auto
  have "used_size item1 \<le> used_size item + (length (snd v) + 7)"
    using i(2) Cons.prems(3) stores_val_ok [OF s] by (simp add: rep_def in_buffer_def)
  then have "room item1 (cost vs)" using room_after [OF i(3) _ r] by simp
  moreover have "rep item1 BINN_LIST (list_bytes (us @ [v])) (length (us @ [v]))" using i(2) by simp
  moreover have "disable_int_compression item1 = d" using i(3) Cons.prems(1) by (simp add: same_setup_def)
  ultimately show ?case using Cons.IH [of item1 "us @ [v]"] i(1) c by simp
qed simp

lemma total_size_bound: "len \<le> 2 ^ 30 \<Longrightarrow> total_size n len < 2 ^ 31"
  by (simp add: total_size_def Let_def)

lemma list_bytes_cost: "list_all2 (\<lambda>(t, pvalue, sz) v. stores c t pvalue sz v) calls vs \<Longrightarrow> list_all val_ok vs \<and> length (list_bytes vs) \<le> cost vs"
  by (induction calls vs rule: list_all2_induct) (auto simp: cost_def dest!: stores_val_ok)

lemma read_list:
  assumes "list_all val_ok vs" "at b 0 (header_bytes BINN_LIST (length vs) (length (list_bytes vs)) @ list_bytes vs)" "length (list_bytes vs) \<le> 2 ^ 30"
  defines "s \<equiv> total_size (length vs) (length (list_bytes vs))"
  shows "binn_is_valid b = Some (Some (BINN_LIST, length vs, s))"
    "1 \<le> pos \<Longrightarrow> pos \<le> int (length vs) \<Longrightarrow> \<exists>w. binn_list_get_value b pos = Some (Some w) \<and> value_is b w (vs ! nat (pos - 1))"
    "\<not> (1 \<le> pos \<and> pos \<le> int (length vs)) \<Longrightarrow> binn_list_get_value b pos = Some None"
proof -
  let ?es = "map (Pair ()) vs" and ?h = "header_bytes BINN_LIST (length vs) (length (list_bytes vs))"
  have k: "key_end BINN_LIST b p l = Some (p + length ([] :: u8 list))" for p l by (simp add: key_end_def container_defs)
  have e: "list_all (\<lambda>(k, v). True \<and> val_ok v) ?es" using assms(1) by (simp add: list_all_iff)
  have t: "BINN_LIST \<in> {BINN_LIST, BINN_MAP, BINN_OBJECT}" by simp
  note c = container_valid [where kok = "\<lambda>_. True" and kbytes = "\<lambda>_ :: unit. []" and es = ?es and t = BINN_LIST, OF k e t,
      folded list_bytes_def, unfolded length_map, OF assms(2) total_size_bound [OF assms(3)]]
  show "binn_is_valid b = Some (Some (BINN_LIST, length vs, s))" unfolding s_def by (rule c(1))
  have v: "IsValidBinnHeader b (Some 0) = Some (Some (BINN_LIST, length vs, s, length ?h))" unfolding s_def by (rule c(2))
  show "binn_list_get_value b pos = Some None" if "\<not> (1 \<le> pos \<and> pos \<le> int (length vs))"
    using v that by (auto simp: binn_list_get_value_def)
  assume p: "1 \<le> pos" "pos \<le> int (length vs)"
  have "at b (length ?h) (list_bytes vs)" using assms(2) by (simp add: at_append)
  moreover have "length ?h + length (list_bytes vs) \<le> s" using header_length(1) unfolding s_def by simp
  moreover have i: "nat (pos - 1) < length vs" using p by (simp add: nat_less_iff)
  ultimately obtain q where q: "advance_n (nat (pos - 1)) b (length ?h) s = Some (Some q)" "at b q (enc (vs ! nat (pos - 1)))"
    using advance_list [OF assms(1)] by blast
  have "val_ok (vs ! nat (pos - 1))" using assms(1) i by (simp add: list_all_length)
  then show "\<exists>w. binn_list_get_value b pos = Some (Some w) \<and> value_is b w (vs ! nat (pos - 1))"
    using get_value_at [OF _ q(2)] q(1) v p by (auto simp: binn_list_get_value_def)
qed

text \<open>C7.  A list comes back as it was written: a client creates a list, adds values of any kind (numbers,
  which are stored in as few bytes as they fit in, strings, blobs, other containers), and takes the
  bytes.  Reading position \<open>1\<close> to \<open>n\<close> of the bytes gives the values in their order, any other position
  is refused, the check of the container accepts it, and no access leaves an object.\<close>

theorem binn_list_roundtrip:
  assumes "mem_ok mem" "list_all2 (\<lambda>(t, pvalue, sz) v. stores True t pvalue sz v) calls vs" "cost vs \<le> 2 ^ 30 - 9"
  shows "\<exists>item0 item b item'. binn_create mem BINN_LIST 0 None = Some item0 \<and> list_adds mem item0 calls = Some item \<and>
    binn_ptr item = Some (b, item') \<and> (\<exists>s. binn_is_valid b = Some (Some (BINN_LIST, length vs, s))) \<and>
    (\<forall>pos. if 1 \<le> pos \<and> pos \<le> int (length vs)
       then \<exists>w. binn_list_get_value b pos = Some (Some w) \<and> value_is b w (vs ! nat (pos - 1)) else binn_list_get_value b pos = Some None)"
proof -
  obtain item0 where c: "binn_create mem BINN_LIST 0 None = Some item0" "rep item0 BINN_LIST [] 0" "\<not> disable_int_compression item0"
    "\<not> pre_allocated item0" "used_size item0 = MAX_BINN_HEADER"
    using create_rep [OF _ assms(1), of BINN_LIST] by auto
  have "room item0 (cost vs)" using c(4,5) assms(3) by (simp add: room_def MAX_BINN_HEADER_def)
  then obtain item where i: "list_adds mem item0 calls = Some item" "rep item BINN_LIST (list_bytes vs) (length vs)"
    using list_adds_rep [OF assms(1), of False calls vs item0 "[]"] assms(2) c(2,3) by auto
  obtain b item' where b: "binn_ptr item = Some (b, item')" "at b 0 (header_bytes BINN_LIST (length vs) (length (list_bytes vs)) @ list_bytes vs)"
    using binn_ptr_rep [OF i(2)] by metis
  have "list_all val_ok vs" "length (list_bytes vs) \<le> 2 ^ 30" using list_bytes_cost [OF assms(2)] assms(3) by auto
  note r = read_list [OF this(1) b(2) this(2)]
  show ?thesis using c(1) i(1) b(1) r by auto
qed

definition zeros :: "nat \<Rightarrow> u8 list option" where
  "zeros n = Some (replicate n 0)"

lemma mem_ok_zeros: "mem_ok zeros"
  by (simp add: mem_ok_def zeros_def)

lemma stores_examples:
  "stores True BINN_INT32 (Some [0xFE, 0xFF, 0xFF, 0xFF]) 0 (BINN_INT8, [0xFE])"
  "stores True 0xA0 (Some [0x68, 0x69, 0]) 0 (0xA0, [0x68, 0x69])"
proof -
  have "int_value BINN_INT32 [0xFE, 0xFF, 0xFF, 0xFF] = - 2" by (simp add: int_value_def signed_type_def int_width_def le_sint_def int_type_defs)
  then have "compress_int (storage BINN_INT32) BINN_INT32 [0xFE, 0xFF, 0xFF, 0xFF] = Some (BINN_STORAGE_BYTE, BINN_INT8)"
    by (simp add: compress_int_def int_width_def int_type_defs storage_def binn_get_type_info_def type_info16_def binn_get_write_storage_def
        BINN_BOOL_def storage_defs)
  then have "stores True BINN_INT32 (Some [0xFE, 0xFF, 0xFF, 0xFF]) 0 (BINN_INT8, take (int_width BINN_INT8) [0xFE, 0xFF, 0xFF, 0xFF])"
    by (rule compressed [rotated 2]) (simp_all add: int_types_def int_width_def int_type_defs)
  then show "stores True BINN_INT32 (Some [0xFE, 0xFF, 0xFF, 0xFF]) 0 (BINN_INT8, [0xFE])" by (simp add: int_width_def int_type_defs)
  show "stores True 0xA0 (Some [0x68, 0x69, 0]) 0 (0xA0, [0x68, 0x69])"
    by (rule c_string) (simp_all add: type_ok_def storage_def binn_get_type_info_def type_info16_def storage_defs c_str_def)
qed

theorem binn_list_roundtrip_witness:
  "\<exists>item0 item b item'. binn_create zeros BINN_LIST 0 None = Some item0 \<and>
    list_adds zeros item0 [(BINN_INT32, Some [0xFE, 0xFF, 0xFF, 0xFF], 0), (0xA0, Some [0x68, 0x69, 0], 0)] = Some item \<and>
    binn_ptr item = Some (b, item') \<and> binn_list_get_value b 3 = Some None \<and>
    (\<exists>w. binn_list_get_value b 1 = Some (Some w) \<and> value_is b w (BINN_INT8, [0xFE])) \<and>
    (\<exists>w. binn_list_get_value b 2 = Some (Some w) \<and> value_is b w (0xA0, [0x68, 0x69]))"
proof -
  let ?vs = "[(BINN_INT8, [0xFE]), (0xA0, [0x68, 0x69])] :: bval list"
  let ?calls = "[(BINN_INT32, Some [0xFE, 0xFF, 0xFF, 0xFF], 0), (0xA0, Some [0x68, 0x69, 0], 0)]"
  have "list_all2 (\<lambda>(t, pvalue, sz) v. stores True t pvalue sz v) ?calls ?vs" using stores_examples by simp
  moreover have "cost ?vs \<le> 2 ^ 30 - 9" by (simp add: cost_def)
  ultimately obtain item0 item b item' where r: "binn_create zeros BINN_LIST 0 None = Some item0" "list_adds zeros item0 ?calls = Some item"
    "binn_ptr item = Some (b, item')"
    "\<And>pos. if 1 \<le> pos \<and> pos \<le> int (length ?vs) then \<exists>w. binn_list_get_value b pos = Some (Some w) \<and> value_is b w (?vs ! nat (pos - 1))
      else binn_list_get_value b pos = Some None"
    using binn_list_roundtrip [OF mem_ok_zeros, of ?calls ?vs] by blast
  have "\<exists>w. binn_list_get_value b 1 = Some (Some w) \<and> value_is b w (?vs ! 0)" "\<exists>w. binn_list_get_value b 2 = Some (Some w) \<and> value_is b w (?vs ! 1)"
    "binn_list_get_value b 3 = Some None"
    using r(4) [of 1] r(4) [of 2] r(4) [of 3] by simp_all
  then show ?thesis using r(1-3) by auto
qed

section \<open>Maps and objects\<close>

fun firsts :: "('k \<Rightarrow> 'n) \<Rightarrow> ('k \<times> 'v) list \<Rightarrow> ('k \<times> 'v) list" where
  "firsts f [] = []"
| "firsts f ((k, v) # es) = (k, v) # filter (\<lambda>e. f (fst e) \<noteq> f k) (firsts f es)"

lemma length_firsts: "length (firsts f es) \<le> length es"
  by (induction f es rule: firsts.induct) (auto intro: le_trans [OF length_filter_le])

fun set_all :: "(binn \<Rightarrow> 'k \<Rightarrow> int \<Rightarrow> cptr \<Rightarrow> int \<Rightarrow> (bool \<times> binn) option) \<Rightarrow> binn \<Rightarrow> ('k \<times> int \<times> cptr \<times> int) list \<Rightarrow> binn option" where
  "set_all put item [] = Some item"
| "set_all put item ((k, t, pvalue, sz) # cs) = do {
     (_, item) \<leftarrow> put item k t pvalue sz;
     set_all put item cs
   }"

text \<open>A container with keys: its type, the function that adds a pair, the one that reads by key, and what
  makes two keys the same.\<close>

locale keyed_container = keyed_search search kbytes same kok
  for search :: "nat \<Rightarrow> u8 list \<Rightarrow> nat \<Rightarrow> nat \<Rightarrow> 'k \<Rightarrow> nat option option" and kbytes :: "'k \<Rightarrow> u8 list"
    and same :: "'k \<Rightarrow> 'k \<Rightarrow> bool" and kok :: "'k \<Rightarrow> bool" +
  fixes t :: int
    and norm :: "'k \<Rightarrow> 'n"
    and ksize :: "'k \<Rightarrow> nat"
    and put :: "(nat \<Rightarrow> u8 list option) \<Rightarrow> binn \<Rightarrow> 'k \<Rightarrow> int \<Rightarrow> cptr \<Rightarrow> int \<Rightarrow> (bool \<times> binn) option"
    and get :: "u8 list \<Rightarrow> 'k \<Rightarrow> bvalue option option"
  assumes type: "t \<in> {BINN_LIST, BINN_MAP, BINN_OBJECT}"
    and same_norm: "same k key \<longleftrightarrow> norm k = norm key"
    and key_size: "kok k \<Longrightarrow> length (kbytes k) \<le> ksize k"
    and key_at: "kok k \<Longrightarrow> at b p (kbytes k) \<Longrightarrow> p + length (kbytes k) \<le> l \<Longrightarrow> key_end t b p l = Some (p + length (kbytes k))"
    and put_pair: "btype item = t \<Longrightarrow> writable item \<Longrightarrow> kok k \<Longrightarrow> put mem item k ty pvalue sz = do {
        p \<leftarrow> search (bcount item) (pbuf item) MAX_BINN_HEADER (used_size item - 1) k;
        if p \<noteq> None then Some (False, item) else add_pair mem item (ksize k) (Some (kbytes k)) ty pvalue sz
      }"
    and get_pair: "IsValidBinnHeader b (Some 0) = Some (Some (t, cnt, s, h)) \<Longrightarrow> cnt > 0 \<Longrightarrow> kok k \<Longrightarrow> get b k = do {
        r \<leftarrow> search cnt b h (s - 1) k;
        case r of None \<Rightarrow> Some None | Some p \<Rightarrow> GetValue b p
      }"
    and get_empty: "IsValidBinnHeader b (Some 0) = Some (Some (t, 0, s, h)) \<Longrightarrow> get b k = Some None"
begin

definition lookup :: "('k \<times> bval) list \<Rightarrow> 'k \<Rightarrow> bval option" where
  "lookup es key = map_of (map (\<lambda>(k, v). (norm k, v)) es) (norm key)"

definition contents :: "binn \<Rightarrow> ('k \<times> bval) list \<Rightarrow> bool" where
  "contents item es \<longleftrightarrow> rep item t (entries kbytes es) (length es) \<and> list_all (\<lambda>(k, v). kok k \<and> val_ok v) es \<and>
     distinct (map (\<lambda>(k, v). norm k) es)"

lemma find_lookup: "map_option snd (find (\<lambda>(k, v). same k key) es) = lookup es key"
proof (induction es)
  case (Cons e es)
  obtain k v where e: "e = (k, v)" by (cases e)
  show ?case
  proof (cases "norm k = norm key")
    case True
    then show ?thesis unfolding e lookup_def by (simp add: same_norm)
  next
    case False
    then have "\<not> same k key" by (simp add: same_norm)
    then show ?thesis using Cons False unfolding e lookup_def by simp
  qed
qed (simp add: lookup_def)

lemma search_lookup:
  assumes "list_all (\<lambda>(k, v). kok k \<and> val_ok v) es" "at b p (entries kbytes es)" "p + length (entries kbytes es) \<le> Suc l" "kok key"
  shows "lookup es key = None \<Longrightarrow> search (length es) b p l key = Some None"
    "lookup es key = Some v \<Longrightarrow> \<exists>q. search (length es) b p l key = Some (Some q) \<and> at b q (enc v)"
proof -
  note s = search_entries [OF assms]
  show "search (length es) b p l key = Some None" if "lookup es key = None"
  proof -
    have "map_option snd (find (\<lambda>(k, v). same k key) es) = None" unfolding find_lookup by (rule that)
    then have "find (\<lambda>(k, v). same k key) es = None" by (rule option.map_disc_iff [THEN iffD1])
    then show ?thesis by (rule mp [OF conjunct1 [OF s]])
  qed
  show "\<exists>q. search (length es) b p l key = Some (Some q) \<and> at b q (enc v)" if "lookup es key = Some v"
  proof -
    have "map_option snd (find (\<lambda>(k, v). same k key) es) = Some v" unfolding find_lookup by (rule that)
    then obtain e where e: "find (\<lambda>(k, v). same k key) es = Some e" "v = snd e" unfolding map_option_eq_Some by blast
    have "find (\<lambda>(k, v). same k key) es = Some (fst e, snd e)" unfolding e(1) by simp
    then show ?thesis unfolding e(2) using conjunct2 [OF s] by (elim allE [of _ "fst e"] allE [of _ "snd e"] impE)
  qed
qed

lemma put_new:
  assumes "contents item es" "mem_ok mem" "kok k" "lookup es k = None" "stores (\<not> disable_int_compression item) ty pvalue sz v"
    "room item (ksize k + length (snd v) + 7)"
  obtains item' where "put mem item k ty pvalue sz = Some (True, item')" "contents item' (es @ [(k, v)])" "same_setup item item'"
proof -
  have r: "rep item t (entries kbytes es) (length es)" "in_buffer item t (entries kbytes es) (length es)"
    using assms(1) by (simp_all add: contents_def rep_def)
  have e: "list_all (\<lambda>(k, v). kok k \<and> val_ok v) es" using assms(1) by (simp add: contents_def)
  have h: "at (pbuf item) MAX_BINN_HEADER (entries kbytes es)" "MAX_BINN_HEADER + length (entries kbytes es) \<le> Suc (used_size item - 1)"
    "bcount item = length es" "btype item = t" "writable item"
    using r(2) by (simp_all add: in_buffer_def MAX_BINN_HEADER_def)
  have "search (length es) (pbuf item) MAX_BINN_HEADER (used_size item - 1) k = Some None"
    using search_lookup(1) [OF e h(1,2) assms(3,4)] .
  then have p: "put mem item k ty pvalue sz = add_pair mem item (ksize k) (Some (kbytes k)) ty pvalue sz"
    using put_pair [OF h(4,5) assms(3)] h(3) by simp
  obtain item' where i: "add_pair mem item (ksize k) (Some (kbytes k)) ty pvalue sz = Some (True, item')"
    "rep item' t (entries kbytes es @ kbytes k @ enc v) (length es + 1)" "same_setup item item'"
    by (rule add_pair_stores [OF r(1) assms(2) key_size [OF assms(3)] assms(5,6)])
  have "norm k \<notin> set (map (\<lambda>(k, v). norm k) es)" using assms(4) unfolding lookup_def map_of_eq_None_iff by (force simp: image_iff)
  then have "contents item' (es @ [(k, v)])" using i(2) assms(1,3) stores_val_ok [OF assms(5)] by (simp add: contents_def)
  then show thesis using that p i(1,3) by simp
qed

lemma put_taken:
  assumes "contents item es" "kok k" "lookup es k = Some v"
  shows "put mem item k ty pvalue sz = Some (False, item)"
proof -
  have r: "in_buffer item t (entries kbytes es) (length es)" "list_all (\<lambda>(k, v). kok k \<and> val_ok v) es"
    using assms(1) by (simp_all add: contents_def rep_def)
  have h: "at (pbuf item) MAX_BINN_HEADER (entries kbytes es)" "MAX_BINN_HEADER + length (entries kbytes es) \<le> Suc (used_size item - 1)"
    "bcount item = length es" "btype item = t" "writable item"
    using r(1) by (simp_all add: in_buffer_def MAX_BINN_HEADER_def)
  show ?thesis using search_lookup(2) [OF r(2) h(1,2) assms(2,3)] put_pair [OF h(4,5) assms(2)] h(3) by auto
qed

lemma set_all_contents:
  assumes "mem_ok mem" "list_all2 (\<lambda>(k, ty, pvalue, sz) (k', v). k' = k \<and> kok k \<and> stores (\<not> d) ty pvalue sz v) calls es"
    "disable_int_compression item = d" "room item (\<Sum>(k, v)\<leftarrow>es. ksize k + length (snd v) + 7)" "contents item fs"
  shows "\<exists>item' gs. set_all (put mem) item calls = Some item' \<and> contents item' gs \<and> (\<forall>key. lookup gs key = lookup (fs @ es) key) \<and>
    length (entries kbytes gs) \<le> length (entries kbytes fs) + (\<Sum>(k, v)\<leftarrow>es. ksize k + length (snd v) + 7) \<and>
    gs = fs @ filter (\<lambda>e. lookup fs (fst e) = None) (firsts norm es)"
  using assms(2-5)
proof (induction calls es arbitrary: item fs rule: list_all2_induct)
  case Nil
  then show ?case by auto
next
  case (Cons c cs e es)
  obtain k ty pvalue sz where c: "c = (k, ty, pvalue, sz)" by (cases c)
  obtain v where e: "e = (k, v)" and s: "kok k" "stores (\<not> d) ty pvalue sz v" using Cons(1) c by (cases e) auto
  let ?n = "ksize k + length (snd v) + 7" and ?m = "\<Sum>(k, v)\<leftarrow>es. ksize k + length (snd v) + 7"
  have r: "room item (?n + ?m)" using Cons.prems(2) e by simp
  show ?case
  proof (cases "lookup fs k")
    case None
    obtain item1 where i: "put mem item k ty pvalue sz = Some (True, item1)" "contents item1 (fs @ [(k, v)])" "same_setup item item1"
      using put_new [OF Cons.prems(3) assms(1) s(1) None, of ty pvalue sz v] s(2) Cons.prems(1) room_mono [OF r] by auto
    have l: "length (kbytes k) + length (enc v) \<le> ?n" using stores_val_ok [OF s(2)] key_size [OF s(1)] by simp
    then have "used_size item1 \<le> used_size item + ?n" using i(2) Cons.prems(3) by (simp add: contents_def rep_def in_buffer_def)
    then have "room item1 ?m" by (rule room_after [OF i(3) _ r])
    moreover have "disable_int_compression item1 = d" using i(3) Cons.prems(1) by (simp add: same_setup_def)
    ultimately obtain item' gs where g: "set_all (put mem) item1 cs = Some item'" "contents item' gs"
      "\<forall>key. lookup gs key = lookup ((fs @ [(k, v)]) @ es) key" "length (entries kbytes gs) \<le> length (entries kbytes (fs @ [(k, v)])) + ?m"
      "gs = (fs @ [(k, v)]) @ filter (\<lambda>e. lookup (fs @ [(k, v)]) (fst e) = None) (firsts norm es)"
      using Cons.IH [OF _ _ i(2)] by blast
    have "lookup (fs @ [(k, v)]) j = None \<longleftrightarrow> norm j \<noteq> norm k \<and> lookup fs j = None" for j
      by (auto simp: lookup_def map_add_def split: option.splits)
    then have "gs = fs @ filter (\<lambda>e. lookup fs (fst e) = None) (firsts norm (e # es))" using g(5) None e by (simp add: conj_commute)
    then show ?thesis
      using g(1-4) i(1) l c e by (intro exI [of _ item'] exI [of _ gs]) simp
  next
    case (Some u)
    have "lookup (fs @ e # es) key = lookup (fs @ es) key" for key
      using Some e by (auto simp: lookup_def map_add_def split: option.splits)
    moreover have "put mem item k ty pvalue sz = Some (False, item)" by (rule put_taken [OF Cons.prems(3) s(1) Some])
    moreover have "lookup fs j = None \<Longrightarrow> norm j \<noteq> norm k" for j using Some by (auto simp: lookup_def)
    then have "filter (\<lambda>e. lookup fs (fst e) = None) (firsts norm (e # es)) = filter (\<lambda>e. lookup fs (fst e) = None) (firsts norm es)"
      using Some e by (auto intro!: filter_cong)
    moreover obtain item' gs where "set_all (put mem) item cs = Some item'" "contents item' gs" "\<forall>key. lookup gs key = lookup (fs @ es) key"
      "length (entries kbytes gs) \<le> length (entries kbytes fs) + ?m" "gs = fs @ filter (\<lambda>e. lookup fs (fst e) = None) (firsts norm es)"
      using Cons.IH [OF Cons.prems(1) _ Cons.prems(3)] room_mono [OF r] by auto
    ultimately show ?thesis using c e by (intro exI [of _ item'] exI [of _ gs]) simp
  qed
qed

lemma read_contents:
  assumes "contents item es" "length (entries kbytes es) \<le> 2 ^ 30"
  obtains b item' where "binn_ptr item = Some (b, item')" "contents item' es" "\<exists>s. binn_is_valid b = Some (Some (t, length es, s))"
    "\<And>k. kok k \<Longrightarrow> lookup es k = None \<Longrightarrow> get b k = Some None"
    "\<And>k v. kok k \<Longrightarrow> lookup es k = Some v \<Longrightarrow> \<exists>w. get b k = Some (Some w) \<and> value_is b w v"
proof -
  have r: "rep item t (entries kbytes es) (length es)" and e: "list_all (\<lambda>(k, v). kok k \<and> val_ok v) es"
    using assms(1) by (simp_all add: contents_def)
  let ?n = "length es" and ?l = "length (entries kbytes es)"
  let ?h = "header_bytes t ?n ?l" and ?s = "total_size ?n ?l"
  obtain b item' where b: "binn_ptr item = Some (b, item')" "rep item' t (entries kbytes es) ?n" "at b 0 (?h @ entries kbytes es)"
    using binn_ptr_rep [OF r] by metis
  note c = container_valid [OF key_at e type b(3) total_size_bound [OF assms(2)]]
  have a: "at b (length ?h) (entries kbytes es)" "length ?h + ?l \<le> Suc (?s - 1)" using b(3) header_length(1) [of t ?n ?l] by (simp_all add: at_append)
  note s = search_lookup [OF e a]
  have "get b k = Some None" if "kok k" "lookup es k = None" for k
  proof (cases "es = []")
    case True
    then show ?thesis using get_empty c(2) by simp
  next
    case False
    then show ?thesis using get_pair [OF c(2) _ that(1)] s(1) [OF that] by simp
  qed
  moreover have "\<exists>w. get b k = Some (Some w) \<and> value_is b w v" if k: "kok k" "lookup es k = Some v" for k v
  proof -
    obtain q where q: "search ?n b (length ?h) (?s - 1) k = Some (Some q)" "at b q (enc v)" using s(2) [OF k] by blast
    have "(norm k, v) \<in> set (map (\<lambda>(k, v). (norm k, v)) es)" using k(2) unfolding lookup_def by (rule map_of_SomeD)
    then have "val_ok v" "0 < ?n" using e by (auto simp: list_all_iff)
    then show ?thesis using get_pair [OF c(2) _ k(1)] q get_value_at by fastforce
  qed
  moreover have "contents item' es" using assms(1) b(2) by (simp add: contents_def)
  ultimately show thesis using that b(1) c(1) by blast
qed

lemma lookup_card:
  assumes "\<forall>key. lookup gs key = lookup es key" "distinct (map (\<lambda>(k, v). norm k) gs)"
  shows "length gs = card ((\<lambda>(k, v). norm k) ` set es)"
proof -
  have n: "norm k \<in> (\<lambda>(k, v). norm k) ` set xs \<longleftrightarrow> lookup xs k \<noteq> None" for k xs
    unfolding lookup_def map_of_eq_None_iff by (simp add: image_image case_prod_beta)
  have sub: "(\<lambda>(k, v). norm k) ` set xs \<subseteq> (\<lambda>(k, v). norm k) ` set ys" if "\<And>k. lookup xs k = lookup ys k" for xs ys
  proof
    fix x assume x: "x \<in> (\<lambda>(k, v). norm k) ` set xs"
    then obtain k where "x = norm k" by auto
    then show "x \<in> (\<lambda>(k, v). norm k) ` set ys" using x n that by metis
  qed
  have "length gs = card (set (map (\<lambda>(k, v). norm k) gs))" using distinct_card [OF assms(2)] by simp
  also have "set (map (\<lambda>(k, v). norm k) gs) = (\<lambda>(k, v). norm k) ` set es"
    unfolding set_map by (intro equalityI sub) (simp_all add: assms(1))
  finally show ?thesis .
qed

lemma sets_contents:
  assumes "mem_ok mem" "list_all2 (\<lambda>(k, ty, pvalue, sz) (k', v). k' = k \<and> kok k \<and> stores True ty pvalue sz v) calls es"
    "(\<Sum>(k, v)\<leftarrow>es. ksize k + length (snd v) + 7) \<le> 2 ^ 30 - 9"
  obtains item0 item where "binn_create mem t 0 None = Some item0" "set_all (put mem) item0 calls = Some item"
    "contents item (firsts norm es)" "\<forall>key. lookup (firsts norm es) key = lookup es key" "length (entries kbytes (firsts norm es)) \<le> 2 ^ 30"
proof -
  let ?m = "\<Sum>(k, v)\<leftarrow>es. ksize k + length (snd v) + 7"
  obtain item0 where c: "binn_create mem t 0 None = Some item0" "rep item0 t [] 0" "\<not> disable_int_compression item0"
    "\<not> pre_allocated item0" "used_size item0 = MAX_BINN_HEADER"
    by (rule create_rep [OF type assms(1)])
  have "room item0 ?m" using c(4,5) assms(3) by (simp add: room_def MAX_BINN_HEADER_def)
  moreover have "contents item0 []" using c(2) by (simp add: contents_def)
  moreover have "lookup [] k = None" for k by (simp add: lookup_def)
  ultimately obtain item where "set_all (put mem) item0 calls = Some item" "contents item (firsts norm es)"
    "\<forall>key. lookup (firsts norm es) key = lookup es key" "length (entries kbytes (firsts norm es)) \<le> ?m"
    using set_all_contents [OF assms(1), of False calls es item0 "[]"] assms(2) c(3) by auto
  then show thesis using that [OF c(1)] assms(3) by (meson le_trans diff_le_self)
qed

lemma first_wins:
  assumes "mem_ok mem" "list_all2 (\<lambda>(k, ty, pvalue, sz) (k', v). k' = k \<and> kok k \<and> stores True ty pvalue sz v) calls es"
    "(\<Sum>(k, v)\<leftarrow>es. ksize k + length (snd v) + 7) \<le> 2 ^ 30 - 9"
  shows "\<exists>item0 item b item'. binn_create mem t 0 None = Some item0 \<and> set_all (put mem) item0 calls = Some item \<and>
    binn_ptr item = Some (b, item') \<and> (\<exists>s. binn_is_valid b = Some (Some (t, card ((\<lambda>(k, v). norm k) ` set es), s))) \<and>
    (\<forall>k. kok k \<longrightarrow> (case lookup es k of None \<Rightarrow> get b k = Some None | Some v \<Rightarrow> \<exists>w. get b k = Some (Some w) \<and> value_is b w v))"
proof -
  let ?gs = "firsts norm es"
  obtain item0 item where i: "binn_create mem t 0 None = Some item0" "set_all (put mem) item0 calls = Some item" "contents item ?gs"
    "\<forall>key. lookup ?gs key = lookup es key" "length (entries kbytes ?gs) \<le> 2 ^ 30"
    by (rule sets_contents [OF assms])
  obtain b item' where b: "binn_ptr item = Some (b, item')" "\<exists>s. binn_is_valid b = Some (Some (t, length ?gs, s))"
    "\<And>k. kok k \<Longrightarrow> lookup ?gs k = None \<Longrightarrow> get b k = Some None"
    "\<And>k v. kok k \<Longrightarrow> lookup ?gs k = Some v \<Longrightarrow> \<exists>w. get b k = Some (Some w) \<and> value_is b w v"
    by (rule read_contents [OF i(3,5)]) blast
  have "length ?gs = card ((\<lambda>(k, v). norm k) ` set es)" using lookup_card [OF i(4)] i(3) unfolding contents_def by blast
  then show ?thesis using i(1,2,4) b by (auto split: option.split)
qed

end

interpretation id_map: keyed_container SearchForID_loop id_bytes "(=)" id_ok BINN_MAP "\<lambda>k. k" "\<lambda>_. 5" binn_map_set_raw binn_map_get_value
proof unfold_locales
  fix k :: int and b p l assume a: "id_ok k"
  show "length (id_bytes k) \<le> 5" using length_id_bytes [OF map_id_bytes_Some [OF a]] .
  assume "at b p (id_bytes k)" "p + length (id_bytes k) \<le> l"
  then show "key_end BINN_MAP b p l = Some (p + length (id_bytes k))" using read_id_at [OF a] by (simp add: key_end_def container_defs)
next
  fix item :: binn and k mem ty pvalue sz assume a: "btype item = BINN_MAP" "writable item" "id_ok k"
  then show "binn_map_set_raw mem item k ty pvalue sz = do {
        p \<leftarrow> SearchForID_loop (bcount item) (pbuf item) MAX_BINN_HEADER (used_size item - 1) k;
        if p \<noteq> None then Some (False, item) else add_pair mem item 5 (Some (id_bytes k)) ty pvalue sz }"
    unfolding map_set_pair SearchForID_def map_id_bytes_Some [OF a(3)] by simp
qed (simp_all add: binn_map_get_value_def SearchForID_def)

text \<open>C6.  A map keeps the first value of each identifier: a client creates a map, sets any sequence of
  identifiers to values, ignoring the answers, and takes the bytes.  Reading an identifier gives the value
  of the first call that used it, an identifier no call used is refused, the count in the header is the number of
  different identifiers, the check of the container accepts it, and no access leaves an object.\<close>

theorem binn_map_first_wins:
  assumes "mem_ok mem" "list_all2 (\<lambda>(k, ty, pvalue, sz) (k', v). k' = k \<and> id_ok k \<and> stores True ty pvalue sz v) calls es"
    "(\<Sum>(k, v)\<leftarrow>es. 5 + length (snd v) + 7) \<le> 2 ^ 30 - 9"
  shows "\<exists>item0 item b item'. binn_create mem BINN_MAP 0 None = Some item0 \<and> set_all (binn_map_set_raw mem) item0 calls = Some item \<and>
    binn_ptr item = Some (b, item') \<and> (\<exists>s. binn_is_valid b = Some (Some (BINN_MAP, card (fst ` set es), s))) \<and>
    (\<forall>k. id_ok k \<longrightarrow> (case map_of es k of None \<Rightarrow> binn_map_get_value b k = Some None
      | Some v \<Rightarrow> \<exists>w. binn_map_get_value b k = Some (Some w) \<and> value_is b w v))"
proof -
  have "(\<lambda>(k :: int, v :: bval). k) = fst" "(\<lambda>(k :: int, v :: bval). (k, v)) = id" by (auto simp: fun_eq_iff)
  then show ?thesis using id_map.first_wins [OF assms] unfolding id_map.lookup_def by (simp only: list.map_id)
qed

section \<open>Keys of an object\<close>

definition lower :: "u8 \<Rightarrow> u8" where
  "lower c = (if 0x41 \<le> c \<and> c \<le> 0x5A then c + 0x20 else c)"

text \<open>What the C library says of \<open>strnicmp\<close>.\<close>

definition strnicmp_ok :: "(u8 list \<Rightarrow> u8 list \<Rightarrow> nat \<Rightarrow> int) \<Rightarrow> bool" where
  "strnicmp_ok f \<longleftrightarrow> (\<forall>xs ys. length xs = length ys \<and> 0 \<notin> set xs \<and> 0 \<notin> set ys \<longrightarrow>
     (f xs (ys @ [0]) (length xs) = 0 \<longleftrightarrow> map lower xs = map lower ys))"

definition key_ok :: "u8 list \<Rightarrow> bool" where
  "key_ok k \<longleftrightarrow> length k \<le> 255 \<and> 0 \<notin> set k"

lemma key_read:
  assumes "key_ok k" "at b p (key_bytes k)"
  shows "peek b p = Some (of_nat (length k))" "unat (of_nat (length k) :: u8) = length k" "memcpy_out (Some (drop (p + 1) b)) (length k) = Some k"
  using assms at_memcpy [of b "p + 1" k] by (simp_all add: key_bytes_def at_Cons key_ok_def)

lemma key_same:
  assumes "strnicmp_ok f" "key_ok k" "key_ok key"
  shows "(length k = 0 \<and> key = []) \<or> (length k > 0 \<and> f k (key @ [0]) (length k) = 0 \<and> length key = length k) \<longleftrightarrow>
    map lower k = map lower key"
proof (cases "length k = length key")
  case True
  then show ?thesis using assms unfolding strnicmp_ok_def key_ok_def by (cases "k = []") auto
next
  case False
  then have "map lower k \<noteq> map lower key" by (metis length_map)
  then show ?thesis using False by auto
qed

lemma key_search:
  assumes "strnicmp_ok f"
  shows "keyed_search (SearchForKey_loop f) key_bytes (\<lambda>k key. map lower k = map lower key) key_ok"
proof
  fix k key b p l n
  assume a: "key_ok k" "key_ok key" "at b p (key_bytes k)" "p + length (key_bytes k) \<le> l"
  note r = key_read [OF a(1,3)] and s = key_same [OF assms a(1,2)]
  have l: "p + 1 + length k \<le> l" "length (key_bytes k) = 1 + length k" using a(4) by (simp_all add: key_bytes_def)
  show "map lower k = map lower key \<Longrightarrow> SearchForKey_loop f (Suc n) b p l key = Some (Some (p + length (key_bytes k)))"
    using r s l by auto
  show "map lower k \<noteq> map lower key \<Longrightarrow> SearchForKey_loop f (Suc n) b p l key = do {
        r \<leftarrow> AdvanceDataPos b (p + length (key_bytes k)) l;
        case r of None \<Rightarrow> Some None | Some q \<Rightarrow> SearchForKey_loop f n b q l key }"
    using r s l by auto
qed simp

lemma object_container:
  assumes "strnicmp_ok f"
  shows "keyed_container (SearchForKey_loop f) key_bytes (\<lambda>k key. map lower k = map lower key) key_ok BINN_OBJECT (map lower)
    (\<lambda>k. 1 + length k) (\<lambda>mem item k. binn_object_set_raw f mem item (Some k)) (binn_object_get_value f)"
proof (intro keyed_container.intro keyed_container_axioms.intro key_search [OF assms])
  fix k b p l assume a: "key_ok k"
  show "length (key_bytes k) \<le> 1 + length k" by (simp add: key_bytes_def)
  assume "at b p (key_bytes k)"
  then show "key_end BINN_OBJECT b p l = Some (p + length (key_bytes k))" using key_read [OF a] by (simp add: key_end_def key_bytes_def)
next
  fix item :: binn and k mem ty pvalue sz assume "btype item = BINN_OBJECT" "writable item" "key_ok k"
  then show "binn_object_set_raw f mem item (Some k) ty pvalue sz = do {
        p \<leftarrow> SearchForKey_loop f (bcount item) (pbuf item) MAX_BINN_HEADER (used_size item - 1) k;
        if p \<noteq> None then Some (False, item) else add_pair mem item (1 + length k) (Some (key_bytes k)) ty pvalue sz }"
    by (simp add: object_set_pair SearchForKey_def key_ok_def)
qed (simp_all add: binn_object_get_value_def SearchForKey_def)

text \<open>C8.  An object keeps the first value of each key, and keys that differ only in the case of their
  letters are one key: a client creates an object, sets any sequence of keys to values, ignoring
  the answers, and takes the bytes.  Reading a key gives the value of the first call whose key agrees with it up
  to case, a key no call used is refused, the count in the header is the number of different keys, the check of the
  container accepts it, and no access leaves an object.  \<open>strnicmp\<close> is the C library's.\<close>

theorem binn_object_first_wins:
  assumes "strnicmp_ok strnicmp" "mem_ok mem"
    "list_all2 (\<lambda>(k, ty, pvalue, sz) (k', v). k' = k \<and> key_ok k \<and> stores True ty pvalue sz v) calls es"
    "(\<Sum>(k, v)\<leftarrow>es. 1 + length k + length (snd v) + 7) \<le> 2 ^ 30 - 9"
  shows "\<exists>item0 item b item'. binn_create mem BINN_OBJECT 0 None = Some item0 \<and>
    set_all (\<lambda>item k. binn_object_set_raw strnicmp mem item (Some k)) item0 calls = Some item \<and>
    binn_ptr item = Some (b, item') \<and> (\<exists>s. binn_is_valid b = Some (Some (BINN_OBJECT, card ((\<lambda>(k, v). map lower k) ` set es), s))) \<and>
    (\<forall>k. key_ok k \<longrightarrow> (case map_of (map (\<lambda>(k, v). (map lower k, v)) es) (map lower k) of None \<Rightarrow> binn_object_get_value strnicmp b k = Some None
      | Some v \<Rightarrow> \<exists>w. binn_object_get_value strnicmp b k = Some (Some w) \<and> value_is b w v))"
  using keyed_container.first_wins [OF object_container [OF assms(1)] assms(2-4)]
  unfolding keyed_container.lookup_def [OF object_container [OF assms(1)]] .

text \<open>Concrete calls: a second value for a key is dropped.\<close>

theorem binn_map_first_wins_witness:
  "\<exists>item0 item b item'. binn_create zeros BINN_MAP 0 None = Some item0 \<and>
    set_all (binn_map_set_raw zeros) item0 [(- 100000, BINN_INT32, Some [0xFE, 0xFF, 0xFF, 0xFF], 0), (- 100000, 0xA0, Some [0x68, 0x69, 0], 0)] = Some item \<and>
    binn_ptr item = Some (b, item') \<and> binn_map_get_value b 7 = Some None \<and>
    (\<exists>w. binn_map_get_value b (- 100000) = Some (Some w) \<and> value_is b w (BINN_INT8, [0xFE]))"
proof -
  let ?es = "[(- 100000, BINN_INT8, [0xFE]), (- 100000, 0xA0, [0x68, 0x69])] :: (int \<times> bval) list"
  let ?calls = "[(- 100000, BINN_INT32, Some [0xFE, 0xFF, 0xFF, 0xFF], 0), (- 100000, 0xA0, Some [0x68, 0x69, 0], 0)] :: (int \<times> int \<times> cptr \<times> int) list"
  have "list_all2 (\<lambda>(k, ty, pvalue, sz) (k', v). k' = k \<and> id_ok k \<and> stores True ty pvalue sz v) ?calls ?es"
    using stores_examples by (simp add: id_ok_def)
  moreover have "(\<Sum>(k, v)\<leftarrow>?es. 5 + length (snd v) + 7) \<le> 2 ^ 30 - 9" by simp
  ultimately obtain item0 item b item' where r: "binn_create zeros BINN_MAP 0 None = Some item0" "set_all (binn_map_set_raw zeros) item0 ?calls = Some item"
    "binn_ptr item = Some (b, item')"
    "\<And>k. id_ok k \<Longrightarrow> (case map_of ?es k of None \<Rightarrow> binn_map_get_value b k = Some None
      | Some v \<Rightarrow> \<exists>w. binn_map_get_value b k = Some (Some w) \<and> value_is b w v)"
    using binn_map_first_wins [OF mem_ok_zeros, of ?calls ?es] by blast
  have "binn_map_get_value b 7 = Some None" "\<exists>w. binn_map_get_value b (- 100000) = Some (Some w) \<and> value_is b w (BINN_INT8, [0xFE])"
    using r(4) [of 7] r(4) [of "- 100000"] by (simp_all add: id_ok_def)
  then show ?thesis using r(1-3) by blast
qed

definition strnicmp_model :: "u8 list \<Rightarrow> u8 list \<Rightarrow> nat \<Rightarrow> int" where
  "strnicmp_model xs ys n = (if map lower (take n xs) = map lower (take n ys) then 0 else 1)"

lemma strnicmp_model_ok: "strnicmp_ok strnicmp_model"
  by (simp add: strnicmp_ok_def strnicmp_model_def)

theorem binn_object_first_wins_witness:
  "\<exists>item0 item b item'. binn_create zeros BINN_OBJECT 0 None = Some item0 \<and>
    set_all (\<lambda>item k. binn_object_set_raw strnicmp_model zeros item (Some k)) item0
      [([0x49, 0x64], BINN_INT32, Some [0xFE, 0xFF, 0xFF, 0xFF], 0), ([0x69, 0x64], 0xA0, Some [0x68, 0x69, 0], 0)] = Some item \<and>
    binn_ptr item = Some (b, item') \<and> binn_object_get_value strnicmp_model b [0x69] = Some None \<and>
    (\<exists>w. binn_object_get_value strnicmp_model b [0x69, 0x44] = Some (Some w) \<and> value_is b w (BINN_INT8, [0xFE]))"
proof -
  let ?es = "[([0x49, 0x64], BINN_INT8, [0xFE]), ([0x69, 0x64], 0xA0, [0x68, 0x69])] :: (u8 list \<times> bval) list"
  let ?calls = "[([0x49, 0x64], BINN_INT32, Some [0xFE, 0xFF, 0xFF, 0xFF], 0), ([0x69, 0x64], 0xA0, Some [0x68, 0x69, 0], 0)] :: (u8 list \<times> int \<times> cptr \<times> int) list"
  have "list_all2 (\<lambda>(k, ty, pvalue, sz) (k', v). k' = k \<and> key_ok k \<and> stores True ty pvalue sz v) ?calls ?es"
    using stores_examples by (simp add: key_ok_def)
  moreover have "(\<Sum>(k, v)\<leftarrow>?es. 1 + length k + length (snd v) + 7) \<le> 2 ^ 30 - 9" by simp
  ultimately obtain item0 item b item' where r: "binn_create zeros BINN_OBJECT 0 None = Some item0"
    "set_all (\<lambda>item k. binn_object_set_raw strnicmp_model zeros item (Some k)) item0 ?calls = Some item" "binn_ptr item = Some (b, item')"
    "\<And>k. key_ok k \<Longrightarrow> (case map_of (map (\<lambda>(k, v). (map lower k, v)) ?es) (map lower k) of None \<Rightarrow> binn_object_get_value strnicmp_model b k = Some None
      | Some v \<Rightarrow> \<exists>w. binn_object_get_value strnicmp_model b k = Some (Some w) \<and> value_is b w v)"
    using binn_object_first_wins [OF strnicmp_model_ok mem_ok_zeros, of ?calls ?es] by blast
  have "binn_object_get_value strnicmp_model b [0x69] = Some None"
    "\<exists>w. binn_object_get_value strnicmp_model b [0x69, 0x44] = Some (Some w) \<and> value_is b w (BINN_INT8, [0xFE])"
    using r(4) [of "[0x69]"] r(4) [of "[0x69, 0x44]"] by (simp_all add: key_ok_def lower_def)
  then show ?thesis using r(1-3) by blast
qed

end
