(* ===== verification/Binn_Convert.thy ===== *)
theory Binn_Convert
  imports Binn_Maps
begin

unbundle bit_operations_syntax

text \<open>
  The extended interface of \<open>lib/binn\<close>: values are converted when they are written and when they
  are read, so that a client need not know in which type a number was stored; and the functions that read
  the pairs of maps and objects one by one.  The machine's conversions between \<open>float\<close> and \<open>double\<close>
  are arguments.
\<close>

section \<open>Conversions\<close>

definition BINN_NULL :: int where "BINN_NULL = 0x00"
definition BINN_STRING :: int where "BINN_STRING = 0xA0"
definition BINN_BLOB :: int where "BINN_BLOB = 0xC0"
definition BINN_FLOAT32 :: int where "BINN_FLOAT32 = 0x62"
definition BINN_FLOAT64 :: int where "BINN_FLOAT64 = 0x82"
definition BINN_FAMILY_FLOAT :: int where "BINN_FAMILY_FLOAT = 0xF3"
definition BINN_SIGNED_INT :: int where "BINN_SIGNED_INT = 11"
definition BINN_UNSIGNED_INT :: int where "BINN_UNSIGNED_INT = 22"

definition binn_get_read_storage :: "int \<Rightarrow> int" where
  "binn_get_read_storage t =
     (if t \<in> {BINN_BOOL, BINN_TRUE, BINN_FALSE} then BINN_STORAGE_DWORD else fst (snd (binn_get_type_info t)))"

text \<open>The result and the type; pointer and size are not changed.\<close>

definition GetWriteConvertedData :: "int \<Rightarrow> cptr \<Rightarrow> int \<Rightarrow> (bool \<times> int) option" where
  "GetWriteConvertedData t pvalue sz =
     (if pvalue = None \<and> t \<notin> {BINN_NULL, BINN_TRUE, BINN_FALSE} \<and> \<not> (t \<in> {BINN_STRING, BINN_BLOB} \<and> sz = 0) then Some (False, t)
      else if t = BINN_BOOL
      then map_option (\<lambda>bs. (True, if le_uint bs = 0 then BINN_FALSE else BINN_TRUE)) (memcpy_out pvalue 4)
      else Some (True, t))"

definition int_type :: "int \<Rightarrow> int" where
  "int_type t =
     (if t \<in> {BINN_INT8, BINN_INT16, BINN_INT32, BINN_INT64} then BINN_SIGNED_INT
      else if t \<in> {BINN_UINT8, BINN_UINT16, BINN_UINT32, BINN_UINT64} then BINN_UNSIGNED_INT
      else 0)"

text \<open>What is written behind the caller's pointer: nothing, a number, or a pointer.\<close>

datatype dest = Untouched | Number "u8 list" | Pointer value_ptr

text \<open>Bytes behind the pointer of a value that was read from the container \<open>b\<close>.\<close>

definition value_bytes :: "u8 list \<Rightarrow> value_ptr \<Rightarrow> nat \<Rightarrow> u8 list option" where
  "value_bytes b p n = memcpy_out (case p of Null \<Rightarrow> None | At q \<Rightarrow> Some (drop q b) | Own bs \<Rightarrow> Some bs) n"

definition copy_raw_value :: "u8 list \<Rightarrow> value_ptr \<Rightarrow> int \<Rightarrow> dest option option" where
  "copy_raw_value b psource data_store =
     (if data_store = BINN_STORAGE_NOBYTES then Some (Some Untouched)
      else if data_store = BINN_STORAGE_BYTE then map_option (\<lambda>bs. Some (Number bs)) (value_bytes b psource 1)
      else if data_store = BINN_STORAGE_WORD then map_option (\<lambda>bs. Some (Number bs)) (value_bytes b psource 2)
      else if data_store = BINN_STORAGE_DWORD then map_option (\<lambda>bs. Some (Number bs)) (value_bytes b psource 4)
      else if data_store = BINN_STORAGE_QWORD then map_option (\<lambda>bs. Some (Number bs)) (value_bytes b psource 8)
      else if data_store \<in> {BINN_STORAGE_BLOB, BINN_STORAGE_STRING, BINN_STORAGE_CONTAINER} then Some (Some (Pointer psource))
      else Some None)"

text \<open>An integer as its bytes, lowest first.\<close>

fun int_bytes :: "nat \<Rightarrow> int \<Rightarrow> u8 list" where
  "int_bytes 0 v = []"
| "int_bytes (Suc n) v = of_int v # int_bytes n (v div 256)"

definition copy_int_value :: "u8 list \<Rightarrow> value_ptr \<Rightarrow> int \<Rightarrow> int \<Rightarrow> dest option option" where
  "copy_int_value b psource source_type dest_type =
     (if source_type \<notin> set int_types then Some None
      else do {
        bs \<leftarrow> value_bytes b psource (int_width source_type);
        let v = int_value source_type bs;
        Some (
          if int_type source_type = BINN_UNSIGNED_INT \<and> int_type dest_type = BINN_SIGNED_INT \<and> v > 2 ^ 63 - 1 then None
          else if int_type source_type = BINN_SIGNED_INT \<and> int_type dest_type = BINN_UNSIGNED_INT \<and> v < 0 then None
          else if dest_type = BINN_INT8 then if v < - (2 ^ 7) \<or> v > 2 ^ 7 - 1 then None else Some (Number (int_bytes 1 v))
          else if dest_type = BINN_INT16 then if v < - (2 ^ 15) \<or> v > 2 ^ 15 - 1 then None else Some (Number (int_bytes 2 v))
          else if dest_type = BINN_INT32 then if v < - (2 ^ 31) \<or> v > 2 ^ 31 - 1 then None else Some (Number (int_bytes 4 v))
          else if dest_type = BINN_INT64 then Some (Number (int_bytes 8 v))
          else if dest_type = BINN_UINT8 then if v > 2 ^ 8 - 1 then None else Some (Number (int_bytes 1 v))
          else if dest_type = BINN_UINT16 then if v > 2 ^ 16 - 1 then None else Some (Number (int_bytes 2 v))
          else if dest_type = BINN_UINT32 then if v > 2 ^ 32 - 1 then None else Some (Number (int_bytes 4 v))
          else if dest_type = BINN_UINT64 then Some (Number (int_bytes 8 v))
          else None)
      })"

definition copy_float_value :: "(u8 list \<Rightarrow> u8 list) \<Rightarrow> (u8 list \<Rightarrow> u8 list) \<Rightarrow> u8 list \<Rightarrow> value_ptr \<Rightarrow> int \<Rightarrow> dest option option" where
  "copy_float_value to_double to_float b psource source_type =
     (if source_type = BINN_FLOAT32 then map_option (\<lambda>bs. Some (Number (to_double bs))) (value_bytes b psource 4)
      else if source_type = BINN_FLOAT64 then map_option (\<lambda>bs. Some (Number (to_float bs))) (value_bytes b psource 8)
      else Some None)"

definition zero_value :: "int \<Rightarrow> dest" where
  "zero_value t =
     (let s = binn_get_read_storage t
      in if s = BINN_STORAGE_BYTE then Number (replicate 1 0)
      else if s = BINN_STORAGE_WORD then Number (replicate 2 0)
      else if s = BINN_STORAGE_DWORD then Number (replicate 4 0)
      else if s = BINN_STORAGE_QWORD then Number (replicate 8 0)
      else if s \<in> {BINN_STORAGE_BLOB, BINN_STORAGE_STRING, BINN_STORAGE_CONTAINER} then Pointer Null
      else Untouched)"

definition copy_value ::
  "(u8 list \<Rightarrow> u8 list) \<Rightarrow> (u8 list \<Rightarrow> u8 list) \<Rightarrow> u8 list \<Rightarrow> value_ptr \<Rightarrow> int \<Rightarrow> int \<Rightarrow> int \<Rightarrow> dest option option" where
  "copy_value to_double to_float b psource source_type dest_type data_store =
     (if type_family source_type \<noteq> type_family dest_type then Some None
      else if type_family source_type = BINN_FAMILY_INT \<and> source_type \<noteq> dest_type then copy_int_value b psource source_type dest_type
      else if type_family source_type = BINN_FAMILY_FLOAT \<and> source_type \<noteq> dest_type then copy_float_value to_double to_float b psource source_type
      else copy_raw_value b psource data_store)"

section \<open>The write functions\<close>

definition binn_list_add :: "(nat \<Rightarrow> u8 list option) \<Rightarrow> binn \<Rightarrow> int \<Rightarrow> cptr \<Rightarrow> int \<Rightarrow> (bool \<times> binn) option" where
  "binn_list_add mem item t pvalue sz = do {
     (ok, t) \<leftarrow> GetWriteConvertedData t pvalue sz;
     if \<not> ok then Some (False, item) else binn_list_add_raw mem item t pvalue sz
   }"

definition binn_map_set :: "(nat \<Rightarrow> u8 list option) \<Rightarrow> binn \<Rightarrow> int \<Rightarrow> int \<Rightarrow> cptr \<Rightarrow> int \<Rightarrow> (bool \<times> binn) option" where
  "binn_map_set mem item ident t pvalue sz = do {
     (ok, t) \<leftarrow> GetWriteConvertedData t pvalue sz;
     if \<not> ok then Some (False, item) else binn_map_set_raw mem item ident t pvalue sz
   }"

definition binn_object_set ::
  "(u8 list \<Rightarrow> u8 list \<Rightarrow> nat \<Rightarrow> int) \<Rightarrow> (nat \<Rightarrow> u8 list option) \<Rightarrow> binn \<Rightarrow> u8 list option \<Rightarrow> int \<Rightarrow> cptr \<Rightarrow> int \<Rightarrow> (bool \<times> binn) option" where
  "binn_object_set strnicmp mem item key t pvalue sz = do {
     (ok, t) \<leftarrow> GetWriteConvertedData t pvalue sz;
     if \<not> ok then Some (False, item) else binn_object_set_raw strnicmp mem item key t pvalue sz
   }"

definition binn_add_value ::
  "(u8 list \<Rightarrow> u8 list \<Rightarrow> nat \<Rightarrow> int) \<Rightarrow> (nat \<Rightarrow> u8 list option) \<Rightarrow> binn \<Rightarrow> int \<Rightarrow> int \<Rightarrow> u8 list option \<Rightarrow> int \<Rightarrow> cptr \<Rightarrow> int \<Rightarrow> (bool \<times> binn) option" where
  "binn_add_value strnicmp mem item binn_type ident name t pvalue sz =
     (if binn_type = BINN_LIST then binn_list_add mem item t pvalue sz
      else if binn_type = BINN_MAP then binn_map_set mem item ident t pvalue sz
      else if binn_type = BINN_OBJECT then binn_object_set strnicmp mem item name t pvalue sz
      else Some (False, item))"

section \<open>The read functions\<close>

text \<open>The result, what is behind \<open>pvalue\<close> (which is not \<open>NULL\<close>) and the size, when it is stored.  The functions
  differ only in how they find the value.\<close>

definition get_converted ::
  "(u8 list \<Rightarrow> u8 list) \<Rightarrow> (u8 list \<Rightarrow> u8 list) \<Rightarrow> u8 list \<Rightarrow> bvalue option option \<Rightarrow> int \<Rightarrow> (bool \<times> dest \<times> nat option) option" where
  "get_converted to_double to_float b found t = do {
     v \<leftarrow> found;
     case v of None \<Rightarrow> Some (False, zero_value t, None)
     | Some w \<Rightarrow> do {
         r \<leftarrow> copy_value to_double to_float b (vptr w) (vtype w) t (binn_get_read_storage t);
         Some (case r of None \<Rightarrow> (False, zero_value t, None) | Some d \<Rightarrow> (True, d, Some (vsize w)))
       }
   }"

definition binn_list_get ::
  "(u8 list \<Rightarrow> u8 list) \<Rightarrow> (u8 list \<Rightarrow> u8 list) \<Rightarrow> u8 list \<Rightarrow> int \<Rightarrow> int \<Rightarrow> (bool \<times> dest \<times> nat option) option" where
  "binn_list_get to_double to_float b pos t = get_converted to_double to_float b (binn_list_get_value b pos) t"

definition binn_map_get ::
  "(u8 list \<Rightarrow> u8 list) \<Rightarrow> (u8 list \<Rightarrow> u8 list) \<Rightarrow> u8 list \<Rightarrow> int \<Rightarrow> int \<Rightarrow> (bool \<times> dest \<times> nat option) option" where
  "binn_map_get to_double to_float b ident t = get_converted to_double to_float b (binn_map_get_value b ident) t"

definition binn_object_get ::
  "(u8 list \<Rightarrow> u8 list) \<Rightarrow> (u8 list \<Rightarrow> u8 list) \<Rightarrow> (u8 list \<Rightarrow> u8 list \<Rightarrow> nat \<Rightarrow> int) \<Rightarrow> u8 list \<Rightarrow> u8 list \<Rightarrow> int \<Rightarrow> (bool \<times> dest \<times> nat option) option" where
  "binn_object_get to_double to_float strnicmp b key t = get_converted to_double to_float b (binn_object_get_value strnicmp b key) t"

text \<open>The functions that return the value (\<open>binn_list_int8\<close> to \<open>binn_list_object\<close> and so on) pass the type of their
  name and return what is then in their variable, whether the call succeeded or not; those for null return the result.\<close>

definition binn_list_typed :: "(u8 list \<Rightarrow> u8 list) \<Rightarrow> (u8 list \<Rightarrow> u8 list) \<Rightarrow> u8 list \<Rightarrow> int \<Rightarrow> int \<Rightarrow> dest option" where
  "binn_list_typed to_double to_float b pos t = map_option (\<lambda>(ok, d, sz). d) (binn_list_get to_double to_float b pos t)"

definition binn_map_typed :: "(u8 list \<Rightarrow> u8 list) \<Rightarrow> (u8 list \<Rightarrow> u8 list) \<Rightarrow> u8 list \<Rightarrow> int \<Rightarrow> int \<Rightarrow> dest option" where
  "binn_map_typed to_double to_float b ident t = map_option (\<lambda>(ok, d, sz). d) (binn_map_get to_double to_float b ident t)"

definition binn_object_typed ::
  "(u8 list \<Rightarrow> u8 list) \<Rightarrow> (u8 list \<Rightarrow> u8 list) \<Rightarrow> (u8 list \<Rightarrow> u8 list \<Rightarrow> nat \<Rightarrow> int) \<Rightarrow> u8 list \<Rightarrow> u8 list \<Rightarrow> int \<Rightarrow> dest option" where
  "binn_object_typed to_double to_float strnicmp b key t = map_option (\<lambda>(ok, d, sz). d) (binn_object_get to_double to_float strnicmp b key t)"

definition binn_list_null :: "u8 list \<Rightarrow> int \<Rightarrow> bool option" where
  "binn_list_null b pos = map_option fst (binn_list_get id id b pos BINN_NULL)"

definition binn_map_null :: "u8 list \<Rightarrow> int \<Rightarrow> bool option" where
  "binn_map_null b ident = map_option fst (binn_map_get id id b ident BINN_NULL)"

definition binn_object_null :: "(u8 list \<Rightarrow> u8 list \<Rightarrow> nat \<Rightarrow> int) \<Rightarrow> u8 list \<Rightarrow> u8 list \<Rightarrow> bool option" where
  "binn_object_null strnicmp b key = map_option fst (binn_object_get id id strnicmp b key BINN_NULL)"

text \<open>The size, for a structure and for a buffer.\<close>

definition binn_size_struct :: "binn \<Rightarrow> (nat \<times> binn) option" where
  "binn_size_struct item = do {
     item \<leftarrow> (if writable item \<and> dirty item then binn_save_header item else Some item);
     Some (bsize item, item)
   }"

definition binn_buf_size :: "u8 list \<Rightarrow> nat option" where
  "binn_buf_size b = map_option (\<lambda>h. case h of None \<Rightarrow> 0 | Some (_, _, sz, _) \<Rightarrow> sz) (IsValidBinnHeader b (Some 0))"

section \<open>Pairs by position\<close>

datatype pair_key = Ident int | Name "u8 list"

fun read_pair_loop :: "nat \<Rightarrow> int \<Rightarrow> u8 list \<Rightarrow> nat \<Rightarrow> nat \<Rightarrow> nat \<Rightarrow> (pair_key \<times> nat) option option" where
  "read_pair_loop 0 t b p plimit n = Some None"
| "read_pair_loop (Suc cnt) t b p plimit n = do {
     r \<leftarrow> (if t = BINN_MAP
       then map_option (\<lambda>(ident, p). if p > plimit then None else Some (Ident ident, p)) (read_map_id b p plimit)
       else do {
         l \<leftarrow> peek b p;
         let len = unat l;
         if p + 1 > plimit \<or> p + 1 + len > plimit then Some None
         else map_option (\<lambda>key. Some (Name key, p + 1 + len)) (memcpy_out (Some (drop (p + 1) b)) len)
       });
     case r of None \<Rightarrow> Some None
     | Some (k, p) \<Rightarrow>
       if n = 1 then Some (Some (k, p))
       else do {
         q \<leftarrow> AdvanceDataPos b p plimit;
         case q of None \<Rightarrow> Some None | Some p \<Rightarrow> read_pair_loop cnt t b p plimit (n - 1)
       }
   }"

definition binn_read_pair :: "int \<Rightarrow> u8 list \<Rightarrow> int \<Rightarrow> (pair_key \<times> bvalue) option option" where
  "binn_read_pair expected_type b pos = do {
     h \<leftarrow> IsValidBinnHeader b (Some 0);
     case h of None \<Rightarrow> Some None
     | Some (t, cnt, sz, header_size) \<Rightarrow>
       if t \<noteq> expected_type \<or> cnt = 0 \<or> pos < 1 \<or> pos > int cnt then Some None
       else do {
         r \<leftarrow> read_pair_loop cnt t b header_size (sz - 1) (nat pos);
         case r of None \<Rightarrow> Some None | Some (k, p) \<Rightarrow> map_option (map_option (Pair k)) (GetValue b p)
       }
   }"

text \<open>Iteration.  The key is stored before the value is read, so it is returned even when the value is refused.\<close>

definition binn_read_next_pair :: "int \<Rightarrow> u8 list \<Rightarrow> binn_iter \<Rightarrow> (pair_key option \<times> bvalue option \<times> binn_iter) option" where
  "binn_read_next_pair expected_type b it = (case pnext it of None \<Rightarrow> Some (None, None, it)
   | Some p \<Rightarrow>
     if p > it_plimit it \<or> current it > it_count it \<or> it_type it \<noteq> expected_type then Some (None, None, it)
     else let it = it\<lparr>current := current it + 1\<rparr>
       in if current it > it_count it then Some (None, None, it)
       else do {
         r \<leftarrow> (if expected_type = BINN_MAP
           then map_option (\<lambda>(ident, p). if p > it_plimit it then None else Some (Ident ident, p)) (read_map_id b p (it_plimit it))
           else do {
             l \<leftarrow> peek b p;
             let len = unat l;
             if p + 1 + len > it_plimit it then Some None
             else map_option (\<lambda>key. Some (Name key, p + 1 + len)) (memcpy_out (Some (drop (p + 1) b)) len)
           });
         case r of None \<Rightarrow> Some (None, None, it)
         | Some (k, p) \<Rightarrow> do {
             q \<leftarrow> AdvanceDataPos b p (it_plimit it);
             let it = it\<lparr>pnext := q\<rparr>;
             if (case q of None \<Rightarrow> False | Some p' \<Rightarrow> p' < p) then Some (Some k, None, it)
             else do { v \<leftarrow> GetValue b p; Some (Some k, v, it) }
           }
       })"

section \<open>Integers are read in any type they fit\<close>

definition fits :: "int \<Rightarrow> int \<Rightarrow> bool" where
  "fits t v \<longleftrightarrow> (if signed_type t then - (256 ^ int_width t) \<le> 2 * v \<and> 2 * v < 256 ^ int_width t else 0 \<le> v \<and> v < 256 ^ int_width t)"

lemma length_le_bytes [simp]: "length (int_bytes n v) = n"
  by (induction n arbitrary: v) simp_all

lemma le_uint_le_bytes: "int (le_uint (int_bytes n v)) = v mod 256 ^ n"
proof (induction n arbitrary: v)
  case (Suc n)
  have "int (unat (of_int v :: u8)) = v mod 256" using uint_mod_u8 [of v] by simp
  then have "int (le_uint (int_bytes (Suc n) v)) = v mod 256 + 256 * (v div 256 mod 256 ^ n)" using Suc [of "v div 256"] by simp
  also have "\<dots> = v mod (256 * 256 ^ n)" using zmod_zmult2_eq [of "256 ^ n" v 256] by simp
  finally show ?case by simp
qed simp

lemma int_value_le_bytes: "fits t v \<Longrightarrow> int_value t (int_bytes (int_width t) v) = v"
proof (cases "signed_type t")
  case True
  assume "fits t v"
  then show ?thesis using True le_sint_unique [of "int_bytes (int_width t) v" v] le_uint_le_bytes [of "int_width t" v] by (simp add: int_value_def fits_def)
next
  case False
  assume "fits t v"
  then show ?thesis using False le_uint_le_bytes [of "int_width t" v] by (simp add: int_value_def fits_def)
qed

lemma fits_own: "length bs = int_width t \<Longrightarrow> fits t (int_value t bs) \<and> int_bytes (int_width t) (int_value t bs) = bs"
proof -
  assume l: "length bs = int_width t"
  have f: "fits t (int_value t bs)" using int_value_range [of t bs] l by (auto simp: fits_def)
  have "int (le_uint (int_bytes (int_width t) (int_value t bs))) = int (le_uint bs)"
    using le_uint_le_bytes [of "int_width t" "int_value t bs"] int_value_mod [of "int_width t" t bs] l by simp
  then have "int_bytes (int_width t) (int_value t bs) = bs" using l by (intro le_uint_inj) simp_all
  then show ?thesis using f by simp
qed

lemma int_type_signed:
  assumes "t \<in> set int_types"
  shows "int_type t = (if signed_type t then BINN_SIGNED_INT else BINN_UNSIGNED_INT)" "int_width t \<le> 8"
  using assms by (auto simp: int_types_def int_type_def signed_type_def int_width_def int_type_defs)

lemma int_value_64:
  assumes "t \<in> set int_types" "length bs = int_width t"
  shows "signed_type t \<Longrightarrow> - (2 ^ 63) \<le> int_value t bs \<and> int_value t bs < 2 ^ 63" "\<not> signed_type t \<Longrightarrow> 0 \<le> int_value t bs \<and> int_value t bs < 2 ^ 64"
proof -
  have "(256 :: int) ^ int_width t \<le> 256 ^ 8" using int_type_signed(2) [OF assms(1)] by (intro power_increasing) simp_all
  then have m: "(256 :: int) ^ int_width t \<le> 2 ^ 64" by simp
  have f: "fits t (int_value t bs)" using fits_own [OF assms(2)] by simp
  show "- (2 ^ 63) \<le> int_value t bs \<and> int_value t bs < 2 ^ 63" if "signed_type t" using f that m unfolding fits_def by auto
  show "0 \<le> int_value t bs \<and> int_value t bs < 2 ^ 64" if "\<not> signed_type t" using f that m unfolding fits_def by auto
qed

lemma copy_int_fits:
  assumes "t \<in> set int_types" "t3 \<in> set int_types" "value_bytes b p (int_width t) = Some bs"
  shows "copy_int_value b p t t3 = Some (if fits t3 (int_value t bs) then Some (Number (int_bytes (int_width t3) (int_value t bs))) else None)"
proof -
  have l: "length bs = int_width t" using assms(3) memcpy_out_length unfolding value_bytes_def by blast
  define v where "v = int_value t bs"
  have r: "signed_type t \<Longrightarrow> - (2 ^ 63) \<le> v \<and> v < 2 ^ 63" "\<not> signed_type t \<Longrightarrow> 0 \<le> v \<and> v < 2 ^ 64"
    using int_value_64 [OF assms(1) l] unfolding v_def by blast+
  have sg: "signed_type t \<Longrightarrow> int_type t = BINN_SIGNED_INT" "\<not> signed_type t \<Longrightarrow> int_type t = BINN_UNSIGNED_INT"
    using int_type_signed(1) [OF assms(1)] by simp_all
  have c: "copy_int_value b p t t3 = Some (
          if int_type t = BINN_UNSIGNED_INT \<and> int_type t3 = BINN_SIGNED_INT \<and> v > 2 ^ 63 - 1 then None
          else if int_type t = BINN_SIGNED_INT \<and> int_type t3 = BINN_UNSIGNED_INT \<and> v < 0 then None
          else if t3 = BINN_INT8 then if v < - (2 ^ 7) \<or> v > 2 ^ 7 - 1 then None else Some (Number (int_bytes 1 v))
          else if t3 = BINN_INT16 then if v < - (2 ^ 15) \<or> v > 2 ^ 15 - 1 then None else Some (Number (int_bytes 2 v))
          else if t3 = BINN_INT32 then if v < - (2 ^ 31) \<or> v > 2 ^ 31 - 1 then None else Some (Number (int_bytes 4 v))
          else if t3 = BINN_INT64 then Some (Number (int_bytes 8 v))
          else if t3 = BINN_UINT8 then if v > 2 ^ 8 - 1 then None else Some (Number (int_bytes 1 v))
          else if t3 = BINN_UINT16 then if v > 2 ^ 16 - 1 then None else Some (Number (int_bytes 2 v))
          else if t3 = BINN_UINT32 then if v > 2 ^ 32 - 1 then None else Some (Number (int_bytes 4 v))
          else if t3 = BINN_UINT64 then Some (Number (int_bytes 8 v))
          else None)"
    unfolding copy_int_value_def assms(3) Let_def v_def using assms(1) by simp
  have "t3 \<in> {BINN_INT8, BINN_INT16, BINN_INT32, BINN_INT64, BINN_UINT8, BINN_UINT16, BINN_UINT32, BINN_UINT64}" using assms(2) by (simp add: int_types_def)
  then show ?thesis unfolding c v_def [symmetric] using r sg
    by (cases "signed_type t")
      (elim insertE emptyE; simp add: fits_def int_type_def signed_type_def int_width_def int_type_defs BINN_SIGNED_INT_def BINN_UNSIGNED_INT_def;
        linarith)+
qed

lemma int_families: "t \<in> set int_types \<Longrightarrow> type_family t = BINN_FAMILY_INT \<and> binn_get_read_storage t = storage t \<and> t \<notin> {BINN_TRUE, BINN_FALSE, BINN_BOOL}"
  by (auto simp: family_int binn_get_read_storage_def storage_def)
    (auto simp: int_types_def int_type_defs BINN_BOOL_def BINN_TRUE_def BINN_FALSE_def)

lemma value_is_bytes:
  assumes "t \<in> set int_types" "val_ok (t, c)" "value_is b w (t, c)"
  shows "vtype w = t" "value_bytes b (vptr w) (int_width t) = Some c" "length c = int_width t"
proof -
  have s: "number_width (storage t) = Some (int_width t)" "storage t \<noteq> BINN_STORAGE_NOBYTES" "t \<notin> {BINN_TRUE, BINN_FALSE}"
    using int_type_ok [OF assms(1)] int_type_width [OF assms(1)] int_families [OF assms(1)] by (auto simp: number_width_def split: if_splits)
  show l: "length c = int_width t" using s(1) assms(2) by (auto simp: number_width_def val_ok_def storage_defs split: if_splits)
  show "vtype w = t" using assms(3) s(3) by (simp add: value_is_def)
  have "(\<exists>q. vptr w = At q \<and> at b q c) \<or> vptr w = Own c"
    using s assms(3) by (auto simp: number_width_def value_is_def storage_defs split: if_splits)
  then show "value_bytes b (vptr w) (int_width t) = Some c" using l at_memcpy by (auto simp: value_bytes_def memcpy_out_take)
qed

lemma copy_raw_number:
  assumes "t \<in> set int_types" "value_bytes b p (int_width t) = Some c"
  shows "copy_raw_value b p (storage t) = Some (Some (Number c))"
proof -
  have "number_width (storage t) = Some (int_width t)" "storage t \<noteq> BINN_STORAGE_NOBYTES"
    using int_type_ok [OF assms(1)] int_type_width [OF assms(1)] by (auto simp: number_width_def)
  then show ?thesis using assms(2) by (auto simp: number_width_def copy_raw_value_def split: if_splits)
qed

lemma zero_number: "t \<in> set int_types \<Longrightarrow> zero_value t = Number (replicate (int_width t) 0)"
proof -
  assume t: "t \<in> set int_types"
  have "number_width (storage t) = Some (int_width t)" "storage t \<noteq> BINN_STORAGE_NOBYTES"
    using int_type_ok [OF t] int_type_width [OF t] by (auto simp: number_width_def)
  then show ?thesis using int_families [OF t] by (auto simp: number_width_def zero_value_def split: if_splits)
qed

lemma get_converted_int:
  assumes "t \<in> set int_types" "val_ok (t, c)" "value_is b w (t, c)" "t3 \<in> set int_types"
  shows "get_converted to_double to_float b (Some (Some w)) t3 =
    Some (if fits t3 (int_value t c) then (True, Number (int_bytes (int_width t3) (int_value t c)), Some (vsize w))
      else (False, Number (replicate (int_width t3) 0), None))"
proof -
  note w = value_is_bytes [OF assms(1-3)]
  have "copy_value to_double to_float b (vptr w) (vtype w) t3 (binn_get_read_storage t3) =
      Some (if fits t3 (int_value t c) then Some (Number (int_bytes (int_width t3) (int_value t c))) else None)"
  proof (cases "t = t3")
    case True
    then show ?thesis using fits_own [OF w(3)] copy_raw_number [OF assms(1) w(2)] int_families [OF assms(1)] w(1)
      by (simp add: copy_value_def BINN_FAMILY_INT_def BINN_FAMILY_FLOAT_def)
  next
    case False
    then show ?thesis using copy_int_fits [OF assms(1,4) w(2)] int_families [OF assms(1)] int_families [OF assms(4)] w(1)
      by (simp add: copy_value_def)
  qed
  then show ?thesis using zero_number [OF assms(4)] by (simp add: get_converted_def)
qed

text \<open>A client that adds integers of any type.\<close>

fun int_adds :: "(nat \<Rightarrow> u8 list option) \<Rightarrow> binn \<Rightarrow> (int \<times> u8 list) list \<Rightarrow> binn option" where
  "int_adds mem item [] = Some item"
| "int_adds mem item ((t, bs) # cs) = do {
     (ok, item) \<leftarrow> binn_list_add mem item t (Some bs) 0;
     if ok then int_adds mem item cs else None
   }"

lemma int_adds_raw: "list_all (\<lambda>(t, bs). t \<in> set int_types) cs \<Longrightarrow> int_adds mem item cs = list_adds mem item (map (\<lambda>(t, bs). (t, Some bs, 0)) cs)"
proof (induction cs arbitrary: item)
  case (Cons c cs)
  obtain t bs where c: "c = (t, bs)" by (cases c)
  have "GetWriteConvertedData t (Some bs) 0 = Some (True, t)" using Cons.prems int_families [of t] c by (simp add: GetWriteConvertedData_def)
  then have "binn_list_add mem item t (Some bs) 0 = binn_list_add_raw mem item t (Some bs) 0" by (simp add: binn_list_add_def)
  then show ?case using Cons c by (simp cong: if_cong)
qed simp

definition int_stored :: "int \<times> u8 list \<Rightarrow> bval \<Rightarrow> bool" where
  "int_stored c v \<longleftrightarrow> fst v \<in> set int_types \<and> int_value (fst v) (snd v) = int_value (fst c) (snd c) \<and> length (snd v) \<le> 8"

lemma int_stores:
  assumes "list_all (\<lambda>(t, bs). t \<in> set int_types \<and> int_width t \<le> length bs) cs"
  shows "\<exists>vs. list_all2 (\<lambda>(t, pvalue, sz) v. stores True t pvalue sz v) (map (\<lambda>(t, bs). (t, Some bs, 0)) cs) vs \<and> list_all2 int_stored cs vs"
  using assms
proof (induction cs)
  case (Cons c cs)
  obtain t bs where c: "c = (t, bs)" by (cases c)
  have t: "t \<in> set int_types" "int_width t \<le> length bs" using Cons.prems c by simp_all
  obtain t2 where t2: "compress_int (storage t) t bs = Some (storage t2, t2)" "t2 \<in> set int_types" "int_value t2 bs = int_value t bs"
    using compress_int_ok [OF t] by metis
  have "stores True t (Some bs) 0 (t2, take (int_width t2) bs)" by (rule compressed [OF t t2(1)])
  moreover have "int_stored c (t2, take (int_width t2) bs)" using t2 c int_type_signed(2) [OF t2(2)] by (simp add: int_stored_def int_value_def)
  moreover obtain vs where "list_all2 (\<lambda>(t, pvalue, sz) v. stores True t pvalue sz v) (map (\<lambda>(t, bs). (t, Some bs, 0)) cs) vs" "list_all2 int_stored cs vs"
    using Cons by auto
  ultimately show ?case using c by (intro exI [of _ "(t2, take (int_width t2) bs) # vs"]) simp
qed simp

lemma int_cost: "list_all2 int_stored cs vs \<Longrightarrow> cost vs \<le> 15 * length cs"
  by (induction cs vs rule: list_all2_induct) (auto simp: cost_def int_stored_def)

text \<open>C9.  An integer is read back in every type that can hold it: a client adds integers of any width and sign
  to a list and later asks for each in a type of its own choice.  The call succeeds exactly when the
  number fits that type and then stores the same number; otherwise it returns \<open>FALSE\<close> and leaves zero.
  The type in which the number was stored, which need not be the one it was given in, does not show.\<close>

theorem binn_integer_any_type:
  assumes "mem_ok mem" "list_all (\<lambda>(t, bs). t \<in> set int_types \<and> int_width t \<le> length bs) cs" "15 * length cs \<le> 2 ^ 30 - 9"
  shows "\<exists>item0 item b item'. binn_create mem BINN_LIST 0 None = Some item0 \<and> int_adds mem item0 cs = Some item \<and>
    binn_ptr item = Some (b, item') \<and>
    (\<forall>i<length cs. \<forall>t3\<in>set int_types. let v = int_value (fst (cs ! i)) (snd (cs ! i)) in
      if fits t3 v
      then \<exists>bs sz. binn_list_get to_double to_float b (int i + 1) t3 = Some (True, Number bs, sz) \<and> length bs = int_width t3 \<and> int_value t3 bs = v
      else binn_list_get to_double to_float b (int i + 1) t3 = Some (False, Number (replicate (int_width t3) 0), None))"
proof -
  obtain vs where vs: "list_all2 (\<lambda>(t, pvalue, sz) v. stores True t pvalue sz v) (map (\<lambda>(t, bs). (t, Some bs, 0)) cs) vs" "list_all2 int_stored cs vs"
    using int_stores [OF assms(2)] by blast
  have c: "cost vs \<le> 2 ^ 30 - 9" using int_cost [OF vs(2)] assms(3) by linarith
  obtain item0 where i: "binn_create mem BINN_LIST 0 None = Some item0" "rep item0 BINN_LIST [] 0" "\<not> disable_int_compression item0"
    "\<not> pre_allocated item0" "used_size item0 = MAX_BINN_HEADER"
    using create_rep [OF _ assms(1), of BINN_LIST] by auto
  have "room item0 (cost vs)" using i(4,5) c by (simp add: room_def MAX_BINN_HEADER_def)
  then obtain item where a: "list_adds mem item0 (map (\<lambda>(t, bs). (t, Some bs, 0)) cs) = Some item" "rep item BINN_LIST (list_bytes vs) (length vs)"
    using list_adds_rep [OF assms(1), of False "map (\<lambda>(t, bs). (t, Some bs, 0)) cs" vs item0 "[]"] vs(1) i(2,3) by auto
  obtain b item' where b: "binn_ptr item = Some (b, item')" "at b 0 (header_bytes BINN_LIST (length vs) (length (list_bytes vs)) @ list_bytes vs)"
    using binn_ptr_rep [OF a(2)] by metis
  have ok: "list_all val_ok vs" "length (list_bytes vs) \<le> 2 ^ 30" using list_bytes_cost [OF vs(1)] c by auto
  have "list_all (\<lambda>(t, bs). t \<in> set int_types) cs" using assms(2) by (auto simp: list_all_iff)
  then have ia: "int_adds mem item0 cs = Some item" using a(1) int_adds_raw by simp
  have "let v = int_value (fst (cs ! k)) (snd (cs ! k)) in
      if fits t3 v
      then \<exists>bs sz. binn_list_get to_double to_float b (int k + 1) t3 = Some (True, Number bs, sz) \<and> length bs = int_width t3 \<and> int_value t3 bs = v
      else binn_list_get to_double to_float b (int k + 1) t3 = Some (False, Number (replicate (int_width t3) 0), None)"
    if k: "k < length cs" and t3: "t3 \<in> set int_types" for k t3
  proof -
    have kv: "k < length vs" "int_stored (cs ! k) (vs ! k)" using vs(2) k by (auto simp: list_all2_conv_all_nth)
    obtain t u where u: "vs ! k = (t, u)" by (cases "vs ! k")
    have t: "t \<in> set int_types" "int_value t u = int_value (fst (cs ! k)) (snd (cs ! k))" "val_ok (t, u)"
      using kv u ok(1) by (auto simp: int_stored_def list_all_length)
    obtain w where w: "binn_list_get_value b (int k + 1) = Some (Some w)" "value_is b w (t, u)"
      using read_list(2) [OF ok(1) b(2) ok(2), of "int k + 1"] kv(1) u by auto
    show ?thesis unfolding binn_list_get_def w(1) get_converted_int [OF t(1,3) w(2) t3] t(2) Let_def
      by (simp add: int_value_le_bytes)
  qed
  then show ?thesis using i(1) ia b(1) by blast
qed

theorem binn_integer_any_type_witness:
  "\<exists>item0 item b item'. binn_create zeros BINN_LIST 0 None = Some item0 \<and> int_adds zeros item0 [(BINN_INT64, [0x2C, 1, 0, 0, 0, 0, 0, 0])] = Some item \<and>
    binn_ptr item = Some (b, item') \<and> binn_list_get id id b 1 BINN_UINT8 = Some (False, Number [0], None) \<and>
    (\<exists>bs sz. binn_list_get id id b 1 BINN_INT32 = Some (True, Number bs, sz) \<and> length bs = 4 \<and> int_value BINN_INT32 bs = 300)"
proof -
  let ?cs = "[(BINN_INT64, [0x2C, 1, 0, 0, 0, 0, 0, 0])] :: (int \<times> u8 list) list"
  have v: "int_value BINN_INT64 [0x2C, 1, 0, 0, 0, 0, 0, 0] = 300" by (simp add: int_value_def signed_type_def int_width_def le_sint_def int_type_defs)
  have c: "list_all (\<lambda>(t, bs). t \<in> set int_types \<and> int_width t \<le> length bs) ?cs" "15 * length ?cs \<le> 2 ^ 30 - 9"
    by (simp_all add: int_types_def int_width_def int_type_defs)
  obtain item0 item b item' where r: "binn_create zeros BINN_LIST 0 None = Some item0" "int_adds zeros item0 ?cs = Some item" "binn_ptr item = Some (b, item')"
    "\<forall>i<length ?cs. \<forall>t3\<in>set int_types. let v = int_value (fst (?cs ! i)) (snd (?cs ! i)) in
      if fits t3 v
      then \<exists>bs sz. binn_list_get id id b (int i + 1) t3 = Some (True, Number bs, sz) \<and> length bs = int_width t3 \<and> int_value t3 bs = v
      else binn_list_get id id b (int i + 1) t3 = Some (False, Number (replicate (int_width t3) 0), None)"
    using binn_integer_any_type [OF mem_ok_zeros c] by blast
  have "BINN_UINT8 \<in> set int_types" "BINN_INT32 \<in> set int_types" by (simp_all add: int_types_def)
  moreover have "\<not> fits BINN_UINT8 300" "fits BINN_INT32 300" "int_width BINN_UINT8 = 1" "int_width BINN_INT32 = 4"
    by (simp_all add: fits_def signed_type_def int_width_def int_type_defs)
  ultimately have "binn_list_get id id b 1 BINN_UINT8 = Some (False, Number [0], None)"
    "\<exists>bs sz. binn_list_get id id b 1 BINN_INT32 = Some (True, Number bs, sz) \<and> length bs = 4 \<and> int_value BINN_INT32 bs = 300"
    using r(4) [rule_format, of 0 BINN_UINT8] r(4) [rule_format, of 0 BINN_INT32] v by simp_all
  then show ?thesis using r(1-3) by blast
qed

section \<open>Iterating over a map\<close>

text \<open>Calls of \<open>binn_map_next\<close> until it returns \<open>FALSE\<close>, at most \<open>n\<close> of them.\<close>

fun map_pairs :: "nat \<Rightarrow> u8 list \<Rightarrow> binn_iter \<Rightarrow> (pair_key \<times> bvalue) list option" where
  "map_pairs 0 b it = Some []"
| "map_pairs (Suc n) b it = do {
     (k, v, it) \<leftarrow> binn_read_next_pair BINN_MAP b it;
     case (k, v) of (Some k, Some v) \<Rightarrow> map_option (Cons (k, v)) (map_pairs n b it) | _ \<Rightarrow> Some []
   }"

lemma next_pair_at:
  assumes "pnext it = Some p" "it_type it = BINN_MAP" "current it < it_count it" "id_ok k" "val_ok v" "at b p (id_bytes k @ enc v)"
    "p + length (id_bytes k @ enc v) \<le> Suc (it_plimit it)"
  obtains w where "value_is b w v" "binn_read_next_pair BINN_MAP b it = Some (Some (Ident k), Some w,
    it\<lparr>current := current it + 1, pnext := (if p + length (id_bytes k @ enc v) \<le> it_plimit it then Some (p + length (id_bytes k @ enc v)) else None)\<rparr>)"
proof -
  have a: "at b p (id_bytes k)" "at b (p + length (id_bytes k)) (enc v)" using assms(6) by (simp_all add: at_append)
  have "Suc 0 \<le> length (enc v)" using enc_nonempty [OF assms(5)] by (simp add: Suc_le_eq)
  then have l: "p + length (id_bytes k) \<le> it_plimit it" using assms(7) by simp
  obtain w where w: "GetValue b (p + length (id_bytes k)) = Some (Some w)" "value_is b w v" using get_value_at [OF assms(5) a(2)] by blast
  show thesis
    by (rule that [OF w(2)])
      (use assms(1-3) l w(1) read_id_at [OF assms(4) a(1) l] advance_at [OF assms(5) a(2)] in \<open>simp add: binn_read_next_pair_def Let_def add.assoc\<close>)
qed

lemma map_pairs_entries:
  assumes "list_all (\<lambda>(k, v). id_ok k \<and> val_ok v) es" "at b p (entries id_bytes es)" "p + length (entries id_bytes es) \<le> Suc (it_plimit it)"
    "pnext it = Some p \<or> es = []" "it_type it = BINN_MAP" "it_count it = current it + length es" "length es \<le> n"
  shows "\<exists>ws. map_pairs n b it = Some ws \<and> list_all2 (\<lambda>(k, w) (i, v). k = Ident i \<and> value_is b w v) ws es"
  using assms
proof (induction es arbitrary: p it n)
  case Nil
  have "binn_read_next_pair BINN_MAP b it \<in> {Some (None, None, it), Some (None, None, it\<lparr>current := current it + 1\<rparr>)}"
    using Nil by (auto simp: binn_read_next_pair_def Let_def split: option.split)
  then show ?case by (cases n) auto
next
  case (Cons e es)
  obtain k v where e: "e = (k, v)" by (cases e)
  obtain m where n: "n = Suc m" using Cons.prems(7) by (cases n) auto
  let ?q = "p + length (id_bytes k @ enc v)"
  have kv: "id_ok k" "val_ok v" "list_all (\<lambda>(k, v). id_ok k \<and> val_ok v) es" using Cons.prems(1) e by simp_all
  have a: "at b p (id_bytes k @ enc v)" "at b ?q (entries id_bytes es)" "?q + length (entries id_bytes es) \<le> Suc (it_plimit it)"
    using Cons.prems(2,3) e by (simp_all add: at_append add.assoc)
  let ?it = "it\<lparr>current := current it + 1, pnext := (if ?q \<le> it_plimit it then Some ?q else None)\<rparr>"
  obtain w where w: "value_is b w v" "binn_read_next_pair BINN_MAP b it = Some (Some (Ident k), Some w, ?it)"
    by (rule next_pair_at [OF _ Cons.prems(5) _ kv(1,2) a(1)]) (use Cons.prems(4,6) a(3) in auto)
  have "pnext ?it = Some ?q \<or> es = []"
  proof (cases "?q \<le> it_plimit it")
    case False
    have "list_all (\<lambda>(k, v). val_ok v) es" using kv(3) by (auto simp: list_all_iff)
    then have "length es \<le> length (entries id_bytes es)" by (rule entries_length)
    then have "length es = 0" using False a(3) by linarith
    then show ?thesis by simp
  qed simp
  then obtain ws where "map_pairs m b ?it = Some ws" "list_all2 (\<lambda>(k, w) (i, v). k = Ident i \<and> value_is b w v) ws es"
    using Cons.IH [OF kv(3) a(2), of ?it m] a(3) Cons.prems(5-7) n by auto
  then show ?case using w e n by auto
qed

lemma map_iterates:
  assumes "rep item BINN_MAP (entries id_bytes es) (length es)" "list_all (\<lambda>(k, v). id_ok k \<and> val_ok v) es"
    "length (entries id_bytes es) \<le> 2 ^ 30" "length es \<le> n"
  shows "\<exists>b item' it ws. binn_ptr item = Some (b, item') \<and> binn_iter_init b BINN_MAP = Some (Some it) \<and>
    map_pairs n b it = Some ws \<and> list_all2 (\<lambda>(k, w) (i, v). k = Ident i \<and> value_is b w v) ws es"
proof -
  let ?n = "length es" and ?l = "length (entries id_bytes es)"
  let ?h = "header_bytes BINN_MAP ?n ?l" and ?s = "total_size ?n ?l"
  obtain b item' where b: "binn_ptr item = Some (b, item')" "at b 0 (?h @ entries id_bytes es)" using binn_ptr_rep [OF assms(1)] by metis
  note c = container_valid(2) [OF id_map.key_at assms(2) id_map.type b(2) total_size_bound [OF assms(3)]]
  let ?it = "\<lparr>pnext = Some (length ?h), it_plimit = ?s - 1, it_type = BINN_MAP, it_count = ?n, current = 0\<rparr>"
  have "binn_iter_init b BINN_MAP = Some (Some ?it)" using c by (simp add: binn_iter_init_def)
  moreover have "\<exists>ws. map_pairs n b ?it = Some ws \<and> list_all2 (\<lambda>(k, w) (i, v). k = Ident i \<and> value_is b w v) ws es"
    by (rule map_pairs_entries [OF assms(2), where p = "length ?h"])
      (use b(2) assms(4) header_length(1) [of BINN_MAP ?n ?l] in \<open>simp_all add: at_append\<close>)
  ultimately show ?thesis using b(1) by blast
qed

text \<open>C27.  Iteration visits every pair of a map once and in the order in which the pairs were added: a client
  creates a map, sets any sequence of identifiers to values, ignoring the answers, and takes the bytes; then
  \<open>binn_iter_init\<close> and repeated calls of \<open>binn_map_next\<close> give the identifiers in the order in which they were
  first used, each once and with the value of the first call that used it, and then \<open>FALSE\<close>.  The values are storable ones
  (\<open>stores\<close>), no identifier is \<open>INT_MIN\<close>, and together they need less than \<open>2 ^ 30\<close> bytes.\<close>

theorem binn_map_iterates:
  assumes "mem_ok mem" "list_all2 (\<lambda>(k, ty, pvalue, sz) (k', v). k' = k \<and> id_ok k \<and> stores True ty pvalue sz v) calls es"
    "(\<Sum>(k, v)\<leftarrow>es. 5 + length (snd v) + 7) \<le> 2 ^ 30 - 9" "length es \<le> n"
  shows "\<exists>item0 item b item' it ws. binn_create mem BINN_MAP 0 None = Some item0 \<and> set_all (binn_map_set_raw mem) item0 calls = Some item \<and>
    binn_ptr item = Some (b, item') \<and> binn_iter_init b BINN_MAP = Some (Some it) \<and> map_pairs n b it = Some ws \<and>
    list_all2 (\<lambda>(k, w) (i, v). k = Ident i \<and> value_is b w v) ws (firsts (\<lambda>k. k) es)"
proof -
  let ?gs = "firsts (\<lambda>k. k) es"
  obtain item0 item where i: "binn_create mem BINN_MAP 0 None = Some item0" "set_all (binn_map_set_raw mem) item0 calls = Some item"
    "id_map.contents item ?gs" "length (entries id_bytes ?gs) \<le> 2 ^ 30"
    by (rule id_map.sets_contents [OF assms(1-3)])
  have "length ?gs \<le> n" using length_firsts [of "\<lambda>k. k" es] assms(4) by simp
  then show ?thesis using map_iterates [of item ?gs n] i by (auto simp: id_map.contents_def)
qed

theorem binn_map_iterates_witness:
  "\<exists>item0 item b item' it w u. binn_create zeros BINN_MAP 0 None = Some item0 \<and>
    set_all (binn_map_set_raw zeros) item0 [(9, 0xA0, Some [0x68, 0x69, 0], 0), (- 4, BINN_INT32, Some [0xFE, 0xFF, 0xFF, 0xFF], 0),
      (9, BINN_INT32, Some [0xFE, 0xFF, 0xFF, 0xFF], 0)] = Some item \<and>
    binn_ptr item = Some (b, item') \<and> binn_iter_init b BINN_MAP = Some (Some it) \<and>
    map_pairs 5 b it = Some [(Ident 9, w), (Ident (- 4), u)] \<and> value_is b w (0xA0, [0x68, 0x69]) \<and> value_is b u (BINN_INT8, [0xFE])"
proof -
  let ?es = "[(9, 0xA0, [0x68, 0x69]), (- 4, BINN_INT8, [0xFE]), (9, BINN_INT8, [0xFE])] :: (int \<times> bval) list"
  let ?calls = "[(9, 0xA0, Some [0x68, 0x69, 0], 0), (- 4, BINN_INT32, Some [0xFE, 0xFF, 0xFF, 0xFF], 0),
    (9, BINN_INT32, Some [0xFE, 0xFF, 0xFF, 0xFF], 0)] :: (int \<times> int \<times> cptr \<times> int) list"
  have "list_all2 (\<lambda>(k, ty, pvalue, sz) (k', v). k' = k \<and> id_ok k \<and> stores True ty pvalue sz v) ?calls ?es"
    using stores_examples by (simp add: id_ok_def)
  moreover have "(\<Sum>(k, v)\<leftarrow>?es. 5 + length (snd v) + 7) \<le> 2 ^ 30 - 9" "length ?es \<le> 5" by simp_all
  ultimately obtain item0 item b item' it ws where r: "binn_create zeros BINN_MAP 0 None = Some item0"
    "set_all (binn_map_set_raw zeros) item0 ?calls = Some item" "binn_ptr item = Some (b, item')" "binn_iter_init b BINN_MAP = Some (Some it)"
    "map_pairs 5 b it = Some ws" "list_all2 (\<lambda>(k, w) (i, v). k = Ident i \<and> value_is b w v) ws (firsts (\<lambda>k. k) ?es)"
    using binn_map_iterates [OF mem_ok_zeros, of ?calls ?es 5] by blast
  have "firsts (\<lambda>k. k) ?es = [(9, 0xA0, [0x68, 0x69]), (- 4, BINN_INT8, [0xFE])]" by simp
  then obtain w u where "ws = [(Ident 9, w), (Ident (- 4), u)]" "value_is b w (0xA0, [0x68, 0x69])" "value_is b u (BINN_INT8, [0xFE])"
    using r(6) by (auto simp: list_all2_Cons2)
  then show ?thesis using r(1-5) by blast
qed

end
