(* ===== verification/Clib.thy ===== *)
theory Clib
  imports Prelude "HOL-Library.Signed_Division"
begin

text \<open>
  What the interpreters share: outcomes of code that may be undefined or run for ever, the arithmetic of
  an \<open>int\<close>, and \<open>atoi\<close>.
\<close>

section \<open>Outcomes\<close>

datatype 'a outcome = Undef | No_fuel | Ret 'a

fun bindo :: "'a outcome \<Rightarrow> ('a \<Rightarrow> 'b outcome) \<Rightarrow> 'b outcome" where
  "bindo Undef f = Undef"
| "bindo No_fuel f = No_fuel"
| "bindo (Ret x) f = f x"

definition opt :: "'a option \<Rightarrow> 'a outcome" where
  "opt m = (case m of None \<Rightarrow> Undef | Some x \<Rightarrow> Ret x)"

lemma opt_simps [simp]: "opt (Some x) = Ret x" "opt None = Undef"
  by (simp_all add: opt_def)

section \<open>Numbers\<close>

text \<open>An \<open>int\<close> result; an overflow is undefined.\<close>

definition c_int :: "int \<Rightarrow> int option" where
  "c_int v = (if - (2 ^ 31) \<le> v \<and> v < 2 ^ 31 then Some v else None)"

definition isdigit :: "u8 \<Rightarrow> bool" where
  "isdigit c \<longleftrightarrow> 0x30 \<le> c \<and> c \<le> 0x39"

text \<open>\<open>atoi\<close> skips white space and reads a sign and digits.\<close>

fun digits_value :: "u8 list \<Rightarrow> nat \<Rightarrow> nat" where
  "digits_value [] n = n"
| "digits_value (c # cs) n = (if isdigit c then digits_value cs (10 * n + unat (c - 0x30)) else n)"

definition atoi :: "u8 list \<Rightarrow> int option" where
  "atoi b = do {
     str \<leftarrow> c_str b;
     let str = dropWhile (\<lambda>c. c \<in> {0x20, 9, 10, 11, 12, 13}) str;
     let neg = (str \<noteq> [] \<and> hd str = 0x2D);
     let str = (if str \<noteq> [] \<and> hd str \<in> {0x2B, 0x2D} then tl str else str);
     let v = (if neg then - int (digits_value str 0) else int (digits_value str 0));
     if - (2 ^ 31) \<le> v \<and> v < 2 ^ 31 then Some v else None
   }"

section \<open>Reading a text\<close>

lemma peek_drop: "drop p b = xs @ ys \<Longrightarrow> i < length xs \<Longrightarrow> peek b (p + i) = Some (xs ! i)"
proof -
  assume a: "drop p b = xs @ ys" "i < length xs"
  then have "p + i < length b" by (metis add.commute le_add1 length_append length_drop less_diff_conv order_less_le_trans)
  moreover have "b ! (p + i) = xs ! i" using a by (metis nth_append nth_drop calculation le_add1 le_less_trans less_imp_le)
  ultimately show ?thesis by (simp add: peek_def)
qed

lemma peek_hd: "drop p b = c # ys \<Longrightarrow> peek b p = Some c"
  using peek_drop [of p b "[c]" ys 0] by simp

lemma drop_tail: "drop p b = c # ys \<Longrightarrow> drop (Suc p) b = ys"
  by (metis drop_Suc list.sel(3) tl_drop)

lemma peek_end: "drop p b = [] \<Longrightarrow> peek b p = None"
  by (simp add: peek_def)

section \<open>Digits\<close>

lemma dec_nat_digits: "dec_nat k \<noteq> []" "list_all isdigit (dec_nat k)"
proof -
  have d: "isdigit (of_nat (48 + j))" if "j < 10" for j
  proof -
    have "list_all (\<lambda>j. isdigit (of_nat (48 + j))) [0..<10]" by code_simp
    then show ?thesis using that by (simp add: list_all_iff del: of_nat_add)
  qed
  show "dec_nat k \<noteq> []" by (subst dec_nat.simps) simp
  show "list_all isdigit (dec_nat k)"
  proof (induction k rule: dec_nat.induct)
    case (1 n)
    then show ?case using d [of n] d [of "n mod 10"] by (subst dec_nat.simps) (simp del: of_nat_add)
  qed
qed

lemma digits_value_dec: "digits_value (dec_nat k @ xs) n = digits_value xs (n * 10 ^ length (dec_nat k) + k)"
proof (induction k arbitrary: xs n rule: dec_nat.induct)
  case (1 k)
  have d: "unat (of_nat (48 + j) - 0x30 :: u8) = j" "isdigit (of_nat (48 + j))" if "j < 10" for j
  proof -
    have "list_all (\<lambda>j. unat (of_nat (48 + j) - 0x30 :: u8) = j \<and> isdigit (of_nat (48 + j))) [0..<10]" by code_simp
    then show "unat (of_nat (48 + j) - 0x30 :: u8) = j" "isdigit (of_nat (48 + j))" using that by (simp_all add: list_all_iff del: of_nat_add)
  qed
  show ?case
  proof (cases "k < 10")
    case True
    then have "dec_nat k = [of_nat (48 + k)]" by (subst dec_nat.simps) simp
    then show ?thesis using d [OF True] by (simp add: mult.commute del: of_nat_add)
  next
    case False
    then have e: "dec_nat k = dec_nat (k div 10) @ [of_nat (48 + k mod 10)]" by (subst dec_nat.simps) simp
    have "k mod 10 < 10" by simp
    note d' = d [OF this]
    have "digits_value (dec_nat k @ xs) n = digits_value (of_nat (48 + k mod 10) # xs) (n * 10 ^ length (dec_nat (k div 10)) + k div 10)"
      using 1 [OF False, of "of_nat (48 + k mod 10) # xs" n] e by simp
    also have "\<dots> = digits_value xs (10 * (n * 10 ^ length (dec_nat (k div 10)) + k div 10) + k mod 10)" using d' by (simp del: of_nat_add)
    also have "10 * (n * 10 ^ length (dec_nat (k div 10)) + k div 10) + k mod 10 = n * 10 ^ length (dec_nat k) + k"
      using e by (simp add: algebra_simps)
    finally show ?thesis .
  qed
qed

lemma atoi_dec_int: "- (2 ^ 31) \<le> v \<Longrightarrow> v < 2 ^ 31 \<Longrightarrow> atoi (dec_int v @ 0 # ys) = Some v"
proof -
  assume v: "- (2 ^ 31) \<le> v" "v < 2 ^ 31"
  obtain c cs where c: "dec_nat (nat \<bar>v\<bar>) = c # cs" "isdigit c" using dec_nat_digits [of "nat \<bar>v\<bar>"] by (cases "dec_nat (nat \<bar>v\<bar>)") auto
  have z: "\<not> isdigit 0" "\<not> isdigit 0x20" "\<not> isdigit 9" "\<not> isdigit 10" "\<not> isdigit 11" "\<not> isdigit 12" "\<not> isdigit 13" "\<not> isdigit 0x2B" "\<not> isdigit 0x2D" by (simp_all add: isdigit_def)
  have n: "c \<noteq> 0x20" "c \<noteq> 9" "c \<noteq> 10" "c \<noteq> 11" "c \<noteq> 12" "c \<noteq> 13" "c \<noteq> 0x2B" "c \<noteq> 0x2D" using c(2) z by metis+
  have "0 \<notin> set (dec_nat (nat \<bar>v\<bar>))" using dec_nat_digits(2) [of "nat \<bar>v\<bar>"] z(1) by (auto simp: list_all_iff)
  then have 0: "0 \<notin> set (dec_int v)" by (auto simp: dec_int_def split: if_splits)
  have "digits_value (c # cs) 0 = nat \<bar>v\<bar>" using digits_value_dec [of "nat \<bar>v\<bar>" "[]" 0] c(1) by simp
  moreover have "dec_int v = (if v < 0 then [0x2D] else []) @ c # cs" using c(1) by (auto simp: dec_int_def)
  ultimately show ?thesis using v n c_str_append [OF 0] by (simp add: atoi_def Let_def) linarith
qed

end
