(* ===== verification/Ubasic.thy ===== *)
theory Ubasic
  imports Clib
begin

unbundle bit_operations_syntax

text \<open>
  The BASIC interpreter of \<open>exp/lkbasic\<close>: the tokenizer (\<open>tokenizer.c\<close>), expressions, statements and
  the command that runs the program (\<open>ubasic.c\<close>, \<open>lkbasic.c\<close>).

  The program is the object that holds its text and the terminating zero, and pointers into it are
  offsets.  \<open>VARIABLE_TYPE\<close> is \<open>char\<close>, which is unsigned on this machine.  Accesses outside an object, a
  division by zero and an overflow of an \<open>int\<close> are undefined.  Several loops of the interpreter can run for
  ever, so its functions take the number of nested calls and rounds they may make.  Memory for the
  line index is taken to be available.
\<close>

section \<open>The tokenizer\<close>

datatype token =
    TOKENIZER_ERROR | TOKENIZER_ENDOFINPUT | TOKENIZER_NUMBER | TOKENIZER_STRING | TOKENIZER_VARIABLE
  | TOKENIZER_LET | TOKENIZER_PRINT | TOKENIZER_IF | TOKENIZER_THEN | TOKENIZER_ELSE | TOKENIZER_FOR | TOKENIZER_TO
  | TOKENIZER_NEXT | TOKENIZER_GOTO | TOKENIZER_GOSUB | TOKENIZER_RETURN | TOKENIZER_CALL | TOKENIZER_REM
  | TOKENIZER_PEEK | TOKENIZER_POKE | TOKENIZER_END | TOKENIZER_COMMA | TOKENIZER_SEMICOLON | TOKENIZER_PLUS
  | TOKENIZER_MINUS | TOKENIZER_AND | TOKENIZER_OR | TOKENIZER_ASTR | TOKENIZER_SLASH | TOKENIZER_MOD | TOKENIZER_HASH
  | TOKENIZER_LEFTPAREN | TOKENIZER_RIGHTPAREN | TOKENIZER_LT | TOKENIZER_GT | TOKENIZER_EQ | TOKENIZER_CR

definition MAX_NUMLEN :: nat where "MAX_NUMLEN = 6"

definition keyword_tokens :: "(string \<times> token) list" where
  "keyword_tokens = [(''let'', TOKENIZER_LET), (''print'', TOKENIZER_PRINT), (''if'', TOKENIZER_IF), (''then'', TOKENIZER_THEN),
     (''else'', TOKENIZER_ELSE), (''for'', TOKENIZER_FOR), (''to'', TOKENIZER_TO), (''next'', TOKENIZER_NEXT),
     (''goto'', TOKENIZER_GOTO), (''gosub'', TOKENIZER_GOSUB), (''return'', TOKENIZER_RETURN), (''call'', TOKENIZER_CALL),
     (''rem'', TOKENIZER_REM), (''peek'', TOKENIZER_PEEK), (''poke'', TOKENIZER_POKE), (''end'', TOKENIZER_END)]"

definition singlechar :: "u8 \<Rightarrow> token option" where
  "singlechar c = map_of
     [(10, TOKENIZER_CR), (0x2C, TOKENIZER_COMMA), (0x3B, TOKENIZER_SEMICOLON), (0x2B, TOKENIZER_PLUS), (0x2D, TOKENIZER_MINUS),
      (0x26, TOKENIZER_AND), (0x7C, TOKENIZER_OR), (0x2A, TOKENIZER_ASTR), (0x2F, TOKENIZER_SLASH), (0x25, TOKENIZER_MOD),
      (0x28, TOKENIZER_LEFTPAREN), (0x23, TOKENIZER_HASH), (0x29, TOKENIZER_RIGHTPAREN), (0x3C, TOKENIZER_LT),
      (0x3E, TOKENIZER_GT), (0x3D, TOKENIZER_EQ)] c"

text \<open>The end of a number that has at most five digits.\<close>

fun number_end :: "nat \<Rightarrow> u8 list \<Rightarrow> nat \<Rightarrow> nat \<Rightarrow> nat option option" where
  "number_end 0 b p i = Some None"
| "number_end (Suc k) b p i = do {
     c \<leftarrow> peek b (p + i);
     if \<not> isdigit c then Some (if i > 0 then Some (p + i) else None) else number_end k b p (i + 1)
   }"

text \<open>The first place of a character; the search does not stop at the end of the text.\<close>

function find_char :: "u8 \<Rightarrow> u8 list \<Rightarrow> nat \<Rightarrow> nat option" where
  "find_char c b i = do { x \<leftarrow> peek b i; if x = c then Some i else find_char c b (i + 1) }"
  by pat_completeness auto
termination by (relation "measure (\<lambda>(c, b, i). length b - i)") (auto simp: peek_Some_iff)

declare find_char.simps [simp del]

fun strncmp_keyword :: "u8 list \<Rightarrow> nat \<Rightarrow> u8 list \<Rightarrow> bool option" where
  "strncmp_keyword b p [] = Some True"
| "strncmp_keyword b p (c # cs) = do { x \<leftarrow> peek b p; if x = c then strncmp_keyword b (p + 1) cs else Some False }"

fun find_keyword :: "u8 list \<Rightarrow> nat \<Rightarrow> (string \<times> token) list \<Rightarrow> (token \<times> nat) option option" where
  "find_keyword b p [] = Some None"
| "find_keyword b p ((k, t) # ks) = do {
     m \<leftarrow> strncmp_keyword b p (bytes_of k);
     if m then Some (Some (t, p + length k)) else find_keyword b p ks
   }"

text \<open>The token at \<open>p\<close> and the new \<open>nextptr\<close>, which an error and the end of the text leave as it was.\<close>

definition get_next_token :: "u8 list \<Rightarrow> nat \<Rightarrow> nat \<Rightarrow> (token \<times> nat) option" where
  "get_next_token b p nextptr = do {
     c \<leftarrow> peek b p;
     if c = 0 then Some (TOKENIZER_ENDOFINPUT, nextptr)
     else if isdigit c
     then map_option (\<lambda>e. case e of None \<Rightarrow> (TOKENIZER_ERROR, nextptr) | Some q \<Rightarrow> (TOKENIZER_NUMBER, q)) (number_end MAX_NUMLEN b p 0)
     else case singlechar c of Some t \<Rightarrow> Some (t, p + 1)
     | None \<Rightarrow>
       if c = 0x22 then map_option (\<lambda>q. (TOKENIZER_STRING, q + 1)) (find_char 0x22 b (p + 1))
       else do {
         k \<leftarrow> find_keyword b p keyword_tokens;
         Some (case k of Some r \<Rightarrow> r
           | None \<Rightarrow> if 0x61 \<le> c \<and> c \<le> 0x7A then (TOKENIZER_VARIABLE, p + 1) else (TOKENIZER_ERROR, nextptr))
       }
   }"

section \<open>The state of the interpreter\<close>

definition MAX_STRINGLEN :: nat where "MAX_STRINGLEN = 40"
definition MAX_GOSUB_STACK_DEPTH :: nat where "MAX_GOSUB_STACK_DEPTH = 10"
definition MAX_FOR_STACK_DEPTH :: nat where "MAX_FOR_STACK_DEPTH = 4"
definition MAX_VARNUM :: int where "MAX_VARNUM = 26"

record for_state =
  line_after_for :: int
  for_variable :: int
  for_to :: int

text \<open>The console output is kept, and so are the values that were poked.\<close>

record ubasic =
  prog :: "u8 list"
  ptr :: nat
  nextptr :: nat
  current_token :: token
  strbuf :: "u8 list"
  gosub_stack :: "int list"
  gosub_stack_ptr :: nat
  for_stack :: "for_state list"
  for_stack_ptr :: nat
  line_index :: "(int \<times> nat) list"
  variables :: "u8 list"
  ended :: bool
  printed :: "u8 list"
  pokes :: "(u8 \<times> u8) list"

definition tokenizer_goto :: "nat \<Rightarrow> ubasic \<Rightarrow> ubasic option" where
  "tokenizer_goto p s = map_option (\<lambda>(t, q). s\<lparr>ptr := p, current_token := t, nextptr := q\<rparr>) (get_next_token (prog s) p (nextptr s))"

definition tokenizer_init :: "ubasic \<Rightarrow> ubasic option" where
  "tokenizer_init s = do {
     s \<leftarrow> tokenizer_goto 0 s;
     (t, q) \<leftarrow> get_next_token (prog s) (ptr s) (nextptr s);
     Some (s\<lparr>current_token := t, nextptr := q\<rparr>)
   }"

definition tokenizer_finished :: "ubasic \<Rightarrow> bool option" where
  "tokenizer_finished s = map_option (\<lambda>c. c = 0 \<or> current_token s = TOKENIZER_ENDOFINPUT) (peek (prog s) (ptr s))"

function skip_spaces :: "u8 list \<Rightarrow> nat \<Rightarrow> nat option" where
  "skip_spaces b i = do { x \<leftarrow> peek b i; if x = 0x20 then skip_spaces b (i + 1) else Some i }"
  by pat_completeness auto
termination by (relation "measure (\<lambda>(b, i). length b - i)") (auto simp: peek_Some_iff)

declare skip_spaces.simps [simp del]

lemma skip_spaces_ge: "skip_spaces b i = Some j \<Longrightarrow> i \<le> j"
proof (induction b i rule: skip_spaces.induct)
  case (1 b i)
  then show ?case by (subst (asm) (2) skip_spaces.simps) (fastforce simp: bind_Some_iff split: if_splits)
qed

lemma find_char_ge: "find_char c b i = Some j \<Longrightarrow> i \<le> j \<and> j < length b"
proof (induction c b i rule: find_char.induct)
  case (1 c b i)
  then show ?case by (subst (asm) (2) find_char.simps) (fastforce simp: bind_Some_iff peek_Some_iff split: if_splits)
qed

lemma find_keyword_ge: "find_keyword b p ks = Some (Some (t, q)) \<Longrightarrow> p \<le> q"
  by (induction b p ks rule: find_keyword.induct) (auto simp: bind_Some_iff split: if_splits)

text \<open>The token behind \<open>n\<close>: its place, the new \<open>nextptr\<close> and the token.  A remark is skipped with its newline; the
  search for the newline does not stop at the end of the text, because \<open>tokenizer_finished\<close> looks at
  the start of the remark.\<close>

lemma get_next_token_rem:
  assumes "get_next_token b p n = Some (TOKENIZER_REM, q)"
  shows "p \<le> q"
proof -
  obtain c where c: "peek b p = Some c" using assms by (auto simp: get_next_token_def bind_Some_iff)
  have "singlechar c \<noteq> Some TOKENIZER_REM" by (auto simp: singlechar_def split: if_splits)
  then have "find_keyword b p keyword_tokens = Some (Some (TOKENIZER_REM, q))"
    using assms c by (auto simp: get_next_token_def bind_Some_iff split: if_splits option.splits)
  then show ?thesis by (rule find_keyword_ge)
qed

function next_token :: "u8 list \<Rightarrow> nat \<Rightarrow> (nat \<times> nat \<times> token) option" where
  "next_token b n = do {
     p \<leftarrow> skip_spaces b n;
     (t, q) \<leftarrow> get_next_token b p n;
     if t = TOKENIZER_REM then do { e \<leftarrow> find_char 10 b q; next_token b (e + 1) } else Some (p, q, t)
   }"
  by pat_completeness auto
termination
proof (relation "measure (\<lambda>(b, n). length b - n)")
  fix b n p r t q e
  assume "skip_spaces b n = Some p" "get_next_token b p n = Some r" "(t, q) = r" "t = TOKENIZER_REM" "find_char 10 b q = Some e"
  then show "((b, e + 1), b, n) \<in> measure (\<lambda>(b, n). length b - n)"
    using skip_spaces_ge [of b n p] get_next_token_rem [of b p n q] find_char_ge [of 10 b q e] by auto
qed simp

declare next_token.simps [simp del]

definition tokenizer_next :: "ubasic \<Rightarrow> ubasic option" where
  "tokenizer_next s = do {
     fin \<leftarrow> tokenizer_finished s;
     if fin then Some s
     else map_option (\<lambda>(p, q, t). s\<lparr>ptr := p, nextptr := q, current_token := t\<rparr>) (next_token (prog s) (nextptr s))
   }"

definition tokenizer_num :: "ubasic \<Rightarrow> u8 option" where
  "tokenizer_num s = map_option of_int (atoi (drop (ptr s) (prog s)))"

text \<open>A string that is too long is cut at \<open>len\<close>, and the terminator goes behind that.\<close>

definition tokenizer_string :: "ubasic \<Rightarrow> ubasic option" where
  "tokenizer_string s =
     (if current_token s \<noteq> TOKENIZER_STRING then Some s
      else do {
        str \<leftarrow> c_str (drop (ptr s + 1) (prog s));
        if 0x22 \<notin> set str then Some s
        else do {
          let text = take MAX_STRINGLEN (takeWhile (\<lambda>c. c \<noteq> 0x22) str);
          b \<leftarrow> memcpy_in (strbuf s) 0 text;
          b \<leftarrow> poke b (length text) 0;
          Some (s\<lparr>strbuf := b\<rparr>)
        }
      })"

definition tokenizer_variable_num :: "ubasic \<Rightarrow> int option" where
  "tokenizer_variable_num s = map_option (\<lambda>c. int (unat c) - 0x61) (peek (prog s) (ptr s))"

section \<open>Expressions\<close>

definition accept :: "token \<Rightarrow> ubasic \<Rightarrow> ubasic option" where
  "accept t s = (if t \<noteq> current_token s then Some s else tokenizer_next s)"

definition ubasic_set_variable :: "int \<Rightarrow> u8 \<Rightarrow> ubasic \<Rightarrow> ubasic option" where
  "ubasic_set_variable varnum v s =
     (if varnum \<ge> 0 \<and> varnum \<le> MAX_VARNUM then map_option (\<lambda>vs. s\<lparr>variables := vs\<rparr>) (poke (variables s) (nat varnum) v) else Some s)"

definition ubasic_get_variable :: "int \<Rightarrow> ubasic \<Rightarrow> u8 option" where
  "ubasic_get_variable varnum s = (if varnum \<ge> 0 \<and> varnum \<le> MAX_VARNUM then peek (variables s) (nat varnum) else Some 0)"

definition varfactor :: "ubasic \<Rightarrow> (int \<times> ubasic) option" where
  "varfactor s = do {
     k \<leftarrow> tokenizer_variable_num s;
     r \<leftarrow> ubasic_get_variable k s;
     s \<leftarrow> accept TOKENIZER_VARIABLE s;
     Some (uint r, s)
   }"

definition term_op :: "token \<Rightarrow> int \<Rightarrow> int \<Rightarrow> int option" where
  "term_op op f1 f2 =
     (if op = TOKENIZER_ASTR then c_int (f1 * f2)
      else if f2 = 0 then None
      else if op = TOKENIZER_SLASH then c_int (f1 sdiv f2)
      else c_int (f1 smod f2))"

definition expr_op :: "token \<Rightarrow> int \<Rightarrow> int \<Rightarrow> int option" where
  "expr_op op t1 t2 =
     (if op = TOKENIZER_PLUS then c_int (t1 + t2)
      else if op = TOKENIZER_MINUS then c_int (t1 - t2)
      else if op = TOKENIZER_AND then Some (t1 AND t2)
      else Some (t1 OR t2))"

definition relation_op :: "token \<Rightarrow> int \<Rightarrow> int \<Rightarrow> int" where
  "relation_op op r1 r2 =
     (if op = TOKENIZER_LT then of_bool (r1 < r2) else if op = TOKENIZER_GT then of_bool (r1 > r2) else of_bool (r1 = r2))"

text \<open>\<open>expr\<close> returns a \<open>char\<close>.\<close>

fun factor :: "nat \<Rightarrow> ubasic \<Rightarrow> (int \<times> ubasic) outcome"
  and term_loop :: "nat \<Rightarrow> int \<Rightarrow> ubasic \<Rightarrow> (int \<times> ubasic) outcome"
  and expr_term :: "nat \<Rightarrow> ubasic \<Rightarrow> (int \<times> ubasic) outcome"
  and expr_loop :: "nat \<Rightarrow> int \<Rightarrow> ubasic \<Rightarrow> (int \<times> ubasic) outcome"
  and expr :: "nat \<Rightarrow> ubasic \<Rightarrow> (u8 \<times> ubasic) outcome" where
  "factor 0 s = No_fuel"
| "factor (Suc n) s =
     (if current_token s = TOKENIZER_NUMBER
      then bindo (opt (tokenizer_num s)) (\<lambda>r. bindo (opt (accept TOKENIZER_NUMBER s)) (\<lambda>s. Ret (uint r, s)))
      else if current_token s = TOKENIZER_LEFTPAREN
      then bindo (opt (accept TOKENIZER_LEFTPAREN s)) (\<lambda>s. bindo (expr n s) (\<lambda>(r, s).
        bindo (opt (accept TOKENIZER_RIGHTPAREN s)) (\<lambda>s. Ret (uint r, s))))
      else opt (varfactor s))"
| "term_loop 0 f1 s = No_fuel"
| "term_loop (Suc n) f1 s =
     (let op = current_token s
      in if op \<in> {TOKENIZER_ASTR, TOKENIZER_SLASH, TOKENIZER_MOD}
      then bindo (opt (tokenizer_next s)) (\<lambda>s. bindo (factor n s) (\<lambda>(f2, s). bindo (opt (term_op op f1 f2)) (\<lambda>f1. term_loop n f1 s)))
      else Ret (f1, s))"
| "expr_term 0 s = No_fuel"
| "expr_term (Suc n) s = bindo (factor n s) (\<lambda>(f1, s). term_loop n f1 s)"
| "expr_loop 0 t1 s = No_fuel"
| "expr_loop (Suc n) t1 s =
     (let op = current_token s
      in if op \<in> {TOKENIZER_PLUS, TOKENIZER_MINUS, TOKENIZER_AND, TOKENIZER_OR}
      then bindo (opt (tokenizer_next s)) (\<lambda>s. bindo (expr_term n s) (\<lambda>(t2, s). bindo (opt (expr_op op t1 t2)) (\<lambda>t1. expr_loop n t1 s)))
      else Ret (t1, s))"
| "expr 0 s = No_fuel"
| "expr (Suc n) s = bindo (expr_term n s) (\<lambda>(t1, s). bindo (expr_loop n t1 s) (\<lambda>(t1, s). Ret (of_int t1, s)))"

fun relation_loop :: "nat \<Rightarrow> int \<Rightarrow> ubasic \<Rightarrow> (int \<times> ubasic) outcome" where
  "relation_loop 0 r1 s = No_fuel"
| "relation_loop (Suc n) r1 s =
     (let op = current_token s
      in if op \<in> {TOKENIZER_LT, TOKENIZER_GT, TOKENIZER_EQ}
      then bindo (opt (tokenizer_next s)) (\<lambda>s. bindo (expr n s) (\<lambda>(r2, s). relation_loop n (relation_op op r1 (uint r2)) s))
      else Ret (r1, s))"

definition relation :: "nat \<Rightarrow> ubasic \<Rightarrow> (int \<times> ubasic) outcome" where
  "relation n s = bindo (expr n s) (\<lambda>(r1, s). relation_loop n (uint r1) s)"

section \<open>The line index\<close>

definition index_free :: "ubasic \<Rightarrow> ubasic" where
  "index_free s = s\<lparr>line_index := []\<rparr>"

definition index_find :: "int \<Rightarrow> ubasic \<Rightarrow> nat option" where
  "index_find linenum s = map_of (line_index s) linenum"

definition index_add :: "int \<Rightarrow> nat \<Rightarrow> ubasic \<Rightarrow> ubasic" where
  "index_add linenum sourcepos s = (if index_find linenum s \<noteq> None then s else s\<lparr>line_index := line_index s @ [(linenum, sourcepos)]\<rparr>)"

text \<open>The loops of \<open>jump_linenum_slow\<close>, from the innermost.\<close>

fun jump_token :: "nat \<Rightarrow> ubasic \<Rightarrow> ubasic outcome" where
  "jump_token 0 s = No_fuel"
| "jump_token (Suc n) s = bindo (opt (tokenizer_next s)) (\<lambda>s.
     if current_token s \<notin> {TOKENIZER_CR, TOKENIZER_ENDOFINPUT} then jump_token n s else Ret s)"

fun jump_line :: "nat \<Rightarrow> ubasic \<Rightarrow> ubasic outcome" where
  "jump_line 0 s = No_fuel"
| "jump_line (Suc n) s = bindo (jump_token n s) (\<lambda>s.
     bindo (if current_token s = TOKENIZER_CR then opt (tokenizer_next s) else Ret s) (\<lambda>s.
     if current_token s \<noteq> TOKENIZER_NUMBER then jump_line n s else Ret s))"

fun jump_find :: "nat \<Rightarrow> int \<Rightarrow> ubasic \<Rightarrow> ubasic outcome" where
  "jump_find 0 linenum s = No_fuel"
| "jump_find (Suc n) linenum s = bindo (opt (tokenizer_num s)) (\<lambda>k.
     if uint k \<noteq> linenum then bindo (jump_line n s) (jump_find n linenum) else Ret s)"

definition jump_linenum_slow :: "nat \<Rightarrow> int \<Rightarrow> ubasic \<Rightarrow> ubasic outcome" where
  "jump_linenum_slow n linenum s = bindo (opt (tokenizer_init s)) (jump_find n linenum)"

definition jump_linenum :: "nat \<Rightarrow> int \<Rightarrow> ubasic \<Rightarrow> ubasic outcome" where
  "jump_linenum n linenum s = (case index_find linenum s of Some pos \<Rightarrow> opt (tokenizer_goto pos s)
     | None \<Rightarrow> jump_linenum_slow n linenum s)"

section \<open>Statements\<close>

definition printf :: "u8 list \<Rightarrow> ubasic \<Rightarrow> ubasic" where
  "printf bs s = s\<lparr>printed := printed s @ bs\<rparr>"

definition goto_statement :: "nat \<Rightarrow> ubasic \<Rightarrow> ubasic outcome" where
  "goto_statement n s = bindo (opt (accept TOKENIZER_GOTO s)) (\<lambda>s. bindo (opt (tokenizer_num s)) (\<lambda>k. jump_linenum n (uint k) s))"

fun print_loop :: "nat \<Rightarrow> ubasic \<Rightarrow> ubasic outcome" where
  "print_loop 0 s = No_fuel"
| "print_loop (Suc n) s =
     (let again = (\<lambda>s. if current_token s \<notin> {TOKENIZER_CR, TOKENIZER_ENDOFINPUT} then print_loop n s else Ret s)
      in if current_token s = TOKENIZER_STRING
      then bindo (opt (do {
          s \<leftarrow> tokenizer_string s;
          str \<leftarrow> c_str (strbuf s);
          tokenizer_next (printf str s)
        })) again
      else if current_token s = TOKENIZER_COMMA then bindo (opt (tokenizer_next (printf [0x20] s))) again
      else if current_token s = TOKENIZER_SEMICOLON then bindo (opt (tokenizer_next s)) again
      else if current_token s \<in> {TOKENIZER_VARIABLE, TOKENIZER_NUMBER}
      then bindo (expr n s) (\<lambda>(v, s). again (printf (dec_nat (unat v)) s))
      else Ret s)"

definition print_stmt :: "nat \<Rightarrow> ubasic \<Rightarrow> ubasic outcome" where
  "print_stmt n s = bindo (opt (accept TOKENIZER_PRINT s)) (\<lambda>s. bindo (print_loop n s) (\<lambda>s. opt (tokenizer_next (printf [10] s))))"

definition let_statement :: "nat \<Rightarrow> ubasic \<Rightarrow> ubasic outcome" where
  "let_statement n s =
     bindo (opt (do { var \<leftarrow> tokenizer_variable_num s; s \<leftarrow> accept TOKENIZER_VARIABLE s; s \<leftarrow> accept TOKENIZER_EQ s; Some (var, s) })) (\<lambda>(var, s).
     bindo (expr n s) (\<lambda>(v, s).
     opt (do { s \<leftarrow> ubasic_set_variable var v s; accept TOKENIZER_CR s })))"

definition gosub_statement :: "nat \<Rightarrow> ubasic \<Rightarrow> ubasic outcome" where
  "gosub_statement n s =
     bindo (opt (do {
       s \<leftarrow> accept TOKENIZER_GOSUB s; k \<leftarrow> tokenizer_num s; s \<leftarrow> accept TOKENIZER_NUMBER s; s \<leftarrow> accept TOKENIZER_CR s; Some (k, s)
     })) (\<lambda>(k, s).
     if gosub_stack_ptr s < MAX_GOSUB_STACK_DEPTH
     then bindo (opt (do {
         r \<leftarrow> tokenizer_num s;
         st \<leftarrow> poke (gosub_stack s) (gosub_stack_ptr s) (uint r);
         Some (s\<lparr>gosub_stack := st, gosub_stack_ptr := gosub_stack_ptr s + 1\<rparr>)
       })) (jump_linenum n (uint k))
     else Ret s)"

definition return_statement :: "nat \<Rightarrow> ubasic \<Rightarrow> ubasic outcome" where
  "return_statement n s =
     bindo (opt (accept TOKENIZER_RETURN s)) (\<lambda>s.
     if gosub_stack_ptr s > 0
     then let s = s\<lparr>gosub_stack_ptr := gosub_stack_ptr s - 1\<rparr>
       in bindo (opt (peek (gosub_stack s) (gosub_stack_ptr s))) (\<lambda>k. jump_linenum n k s)
     else Ret s)"

definition next_statement :: "nat \<Rightarrow> ubasic \<Rightarrow> ubasic outcome" where
  "next_statement n s =
     bindo (opt (do { s \<leftarrow> accept TOKENIZER_NEXT s; var \<leftarrow> tokenizer_variable_num s; s \<leftarrow> accept TOKENIZER_VARIABLE s; Some (var, s) })) (\<lambda>(var, s).
     bindo (opt (if for_stack_ptr s > 0 then map_option Some (peek (for_stack s) (for_stack_ptr s - 1)) else Some None)) (\<lambda>f.
     case f of None \<Rightarrow> opt (accept TOKENIZER_CR s)
     | Some f \<Rightarrow>
       if var = for_variable f
       then bindo (opt (do {
           v \<leftarrow> ubasic_get_variable var s;
           s \<leftarrow> ubasic_set_variable var (v + 1) s;
           v \<leftarrow> ubasic_get_variable var s;
           Some (v, s)
         })) (\<lambda>(v, s).
         if uint v \<le> for_to f then jump_linenum n (line_after_for f) s
         else opt (accept TOKENIZER_CR (s\<lparr>for_stack_ptr := for_stack_ptr s - 1\<rparr>)))
       else opt (accept TOKENIZER_CR s)))"

definition for_statement :: "nat \<Rightarrow> ubasic \<Rightarrow> ubasic outcome" where
  "for_statement n s =
     bindo (opt (do {
       s \<leftarrow> accept TOKENIZER_FOR s; var \<leftarrow> tokenizer_variable_num s;
       s \<leftarrow> accept TOKENIZER_VARIABLE s; s \<leftarrow> accept TOKENIZER_EQ s; Some (var, s)
     })) (\<lambda>(var, s).
     bindo (expr n s) (\<lambda>(v, s).
     bindo (opt (do { s \<leftarrow> ubasic_set_variable var v s; accept TOKENIZER_TO s })) (\<lambda>s.
     bindo (expr n s) (\<lambda>(to, s).
     opt (do {
       s \<leftarrow> accept TOKENIZER_CR s;
       if for_stack_ptr s < MAX_FOR_STACK_DEPTH
       then do {
         k \<leftarrow> tokenizer_num s;
         st \<leftarrow> poke (for_stack s) (for_stack_ptr s) \<lparr>line_after_for = uint k, for_variable = var, for_to = uint to\<rparr>;
         Some (s\<lparr>for_stack := st, for_stack_ptr := for_stack_ptr s + 1\<rparr>)
       }
       else Some s
     })))))"

text \<open>The functions given to \<open>ubasic_init_peek_poke\<close>; after \<open>ubasic_init\<close> alone they are \<open>NULL\<close>.\<close>

definition peek_statement :: "(u8 \<Rightarrow> u8) option \<Rightarrow> nat \<Rightarrow> ubasic \<Rightarrow> ubasic outcome" where
  "peek_statement peek_function n s =
     bindo (opt (accept TOKENIZER_PEEK s)) (\<lambda>s.
     bindo (expr n s) (\<lambda>(addr, s).
     opt (do {
       s \<leftarrow> accept TOKENIZER_COMMA s;
       var \<leftarrow> tokenizer_variable_num s;
       s \<leftarrow> accept TOKENIZER_VARIABLE s;
       s \<leftarrow> accept TOKENIZER_CR s;
       f \<leftarrow> peek_function;
       ubasic_set_variable var (f addr) s
     })))"

definition poke_statement :: "bool \<Rightarrow> nat \<Rightarrow> ubasic \<Rightarrow> ubasic outcome" where
  "poke_statement has_poke n s =
     bindo (opt (accept TOKENIZER_POKE s)) (\<lambda>s.
     bindo (expr n s) (\<lambda>(addr, s).
     bindo (opt (accept TOKENIZER_COMMA s)) (\<lambda>s.
     bindo (expr n s) (\<lambda>(v, s).
     opt (do { s \<leftarrow> accept TOKENIZER_CR s; if has_poke then Some (s\<lparr>pokes := pokes s @ [(addr, v)]\<rparr>) else None })))))"

definition end_statement :: "ubasic \<Rightarrow> ubasic outcome" where
  "end_statement s = bindo (opt (accept TOKENIZER_END s)) (\<lambda>s. Ret (s\<lparr>ended := True\<rparr>))"

fun skip_branch :: "nat \<Rightarrow> ubasic \<Rightarrow> ubasic outcome" where
  "skip_branch 0 s = No_fuel"
| "skip_branch (Suc n) s = bindo (opt (tokenizer_next s)) (\<lambda>s.
     if current_token s \<notin> {TOKENIZER_ELSE, TOKENIZER_CR, TOKENIZER_ENDOFINPUT} then skip_branch n s else Ret s)"

fun statement :: "(u8 \<Rightarrow> u8) option \<Rightarrow> nat \<Rightarrow> ubasic \<Rightarrow> ubasic outcome"
  and if_statement :: "(u8 \<Rightarrow> u8) option \<Rightarrow> nat \<Rightarrow> ubasic \<Rightarrow> ubasic outcome" where
  "statement pf 0 s = No_fuel"
| "statement pf (Suc n) s = (case current_token s of
     TOKENIZER_PRINT \<Rightarrow> print_stmt n s
   | TOKENIZER_IF \<Rightarrow> if_statement pf n s
   | TOKENIZER_GOTO \<Rightarrow> goto_statement n s
   | TOKENIZER_GOSUB \<Rightarrow> gosub_statement n s
   | TOKENIZER_RETURN \<Rightarrow> return_statement n s
   | TOKENIZER_FOR \<Rightarrow> for_statement n s
   | TOKENIZER_PEEK \<Rightarrow> peek_statement pf n s
   | TOKENIZER_POKE \<Rightarrow> poke_statement (pf \<noteq> None) n s
   | TOKENIZER_NEXT \<Rightarrow> next_statement n s
   | TOKENIZER_END \<Rightarrow> end_statement s
   | TOKENIZER_LET \<Rightarrow> bindo (opt (accept TOKENIZER_LET s)) (let_statement n)
   | TOKENIZER_VARIABLE \<Rightarrow> let_statement n s
   | _ \<Rightarrow> Ret s)"
| "if_statement pf 0 s = No_fuel"
| "if_statement pf (Suc n) s =
     bindo (opt (accept TOKENIZER_IF s)) (\<lambda>s.
     bindo (relation n s) (\<lambda>(r, s).
     bindo (opt (accept TOKENIZER_THEN s)) (\<lambda>s.
     if r \<noteq> 0 then statement pf n s
     else bindo (skip_branch n s) (\<lambda>s.
       if current_token s = TOKENIZER_ELSE then bindo (opt (tokenizer_next s)) (statement pf n)
       else if current_token s = TOKENIZER_CR then opt (tokenizer_next s)
       else Ret s))))"

section \<open>Running a program\<close>

definition line_statement :: "(u8 \<Rightarrow> u8) option \<Rightarrow> nat \<Rightarrow> ubasic \<Rightarrow> ubasic outcome" where
  "line_statement pf n s =
     bindo (opt (do { k \<leftarrow> tokenizer_num s; accept TOKENIZER_NUMBER (index_add (uint k) (ptr s) s) })) (statement pf n)"

definition ubasic_init :: "u8 list \<Rightarrow> ubasic \<Rightarrow> ubasic option" where
  "ubasic_init program s = map_option (\<lambda>s. s\<lparr>ended := False\<rparr>)
     (tokenizer_init (index_free (s\<lparr>prog := program, for_stack_ptr := 0, gosub_stack_ptr := 0\<rparr>)))"

definition ubasic_run :: "(u8 \<Rightarrow> u8) option \<Rightarrow> nat \<Rightarrow> ubasic \<Rightarrow> ubasic outcome" where
  "ubasic_run pf n s = bindo (opt (tokenizer_finished s)) (\<lambda>fin. if fin then Ret s else line_statement pf n s)"

definition ubasic_finished :: "ubasic \<Rightarrow> bool option" where
  "ubasic_finished s = (if ended s then Some True else tokenizer_finished s)"

text \<open>\<open>lkbasic\<close> runs lines until the program has finished; no peek and poke functions are set.\<close>

fun lkbasic_loop :: "nat \<Rightarrow> nat \<Rightarrow> ubasic \<Rightarrow> ubasic outcome" where
  "lkbasic_loop 0 m s = No_fuel"
| "lkbasic_loop (Suc n) m s = bindo (ubasic_run None m s) (\<lambda>s.
     bindo (opt (ubasic_finished s)) (\<lambda>fin. if fin then Ret s else lkbasic_loop n m s))"

definition lkbasic :: "nat \<Rightarrow> nat \<Rightarrow> u8 list \<Rightarrow> ubasic \<Rightarrow> ubasic outcome" where
  "lkbasic n m program s = bindo (opt (ubasic_init program s)) (lkbasic_loop n m)"

definition basic_program :: "u8 list" where
  "basic_program = bytes_of ''10 gosub 100'' @ [10] @ bytes_of ''20 for i = 1 to 10'' @ [10] @ bytes_of ''30 print i*10'' @ [10] @
     bytes_of ''40 next i'' @ [10] @ bytes_of ''50 print '' @ [0x22] @ bytes_of ''end'' @ [0x22, 10] @ bytes_of ''60 end'' @ [10] @
     bytes_of ''100 print '' @ [0x22] @ bytes_of ''subroutine'' @ [0x22, 10] @ bytes_of ''110 return'' @ [10, 0]"

end
