(* ===== verification/Ubasic_Expr.thy ===== *)
theory Ubasic_Expr
  imports Ubasic
begin

unbundle bit_operations_syntax

text \<open>
  Expressions of the BASIC interpreter: the tokens of a text, the syntax trees of expressions, and that
  the interpreter, which evaluates while it reads, computes the value of the tree.
\<close>

section \<open>Tokens of a text\<close>

text \<open>A token with what the interpreter reads from it.\<close>

datatype tk = K token | N nat | V nat | S "u8 list"

fun tok_of :: "tk \<Rightarrow> token" where
  "tok_of (K t) = t"
| "tok_of (N k) = TOKENIZER_NUMBER"
| "tok_of (V v) = TOKENIZER_VARIABLE"
| "tok_of (S x) = TOKENIZER_STRING"

text \<open>The token \<open>t\<close> is at \<open>p\<close>, and the text goes on at \<open>q\<close>.\<close>

definition payload :: "u8 list \<Rightarrow> nat \<Rightarrow> tk \<Rightarrow> bool" where
  "payload b p t = (case t of K k \<Rightarrow> k \<notin> {TOKENIZER_ERROR, TOKENIZER_NUMBER, TOKENIZER_VARIABLE, TOKENIZER_STRING, TOKENIZER_REM}
     | N k \<Rightarrow> atoi (drop p b) = Some (int k)
     | V v \<Rightarrow> peek b p = Some (of_nat (0x61 + v)) \<and> v < 26
     | S x \<Rightarrow> (case c_str (drop (p + 1) b) of None \<Rightarrow> False
         | Some str \<Rightarrow> 0x22 \<in> set str \<and> takeWhile (\<lambda>c. c \<noteq> 0x22) str = x))"

definition stands :: "u8 list \<Rightarrow> nat \<Rightarrow> nat \<Rightarrow> tk \<Rightarrow> bool" where
  "stands b p q t \<longleftrightarrow> get_next_token b p q = Some (tok_of t, q) \<and> payload b p t"

abbreviation tk_end :: tk where "tk_end \<equiv> K TOKENIZER_ENDOFINPUT"
abbreviation tk_cr :: tk where "tk_cr \<equiv> K TOKENIZER_CR"

text \<open>The tokens that follow \<open>n\<close>, up to the end of the text.\<close>

fun stream :: "u8 list \<Rightarrow> nat \<Rightarrow> tk list \<Rightarrow> bool" where
  "stream b n [] = False"
| "stream b n (t # ts) = (case next_token b n of None \<Rightarrow> False
     | Some (p, q, k) \<Rightarrow> k = tok_of t \<and> stands b p q t \<and> (if t = tk_end then ts = [] else stream b q ts))"

definition at_toks :: "ubasic \<Rightarrow> tk list \<Rightarrow> bool" where
  "at_toks s ts = (case ts of [] \<Rightarrow> False
     | t # ts \<Rightarrow> current_token s = tok_of t \<and> stands (prog s) (ptr s) (nextptr s) t \<and>
         (if t = tk_end then ts = [] else stream (prog s) (nextptr s) ts))"

lemma get_next_token_stable:
  assumes "get_next_token b p n = Some (t, q)" "t \<notin> {TOKENIZER_ENDOFINPUT, TOKENIZER_ERROR}"
  shows "get_next_token b p m = Some (t, q)" "\<exists>c. peek b p = Some c \<and> c \<noteq> 0"
proof -
  obtain c where c: "peek b p = Some c" using assms(1) by (auto simp: get_next_token_def bind_Some_iff)
  moreover have "c \<noteq> 0" using assms c by (auto simp: get_next_token_def)
  ultimately show "\<exists>c. peek b p = Some c \<and> c \<noteq> 0" by simp
  show "get_next_token b p m = Some (t, q)"
    using assms c \<open>c \<noteq> 0\<close> by (auto simp: get_next_token_def bind_Some_iff split: if_splits option.splits)
qed

lemma payload_not_error: "payload b p t \<Longrightarrow> tok_of t \<noteq> TOKENIZER_ERROR"
  by (cases t) (auto simp: payload_def)

lemma tok_of_end: "payload b p t \<Longrightarrow> tok_of t = TOKENIZER_ENDOFINPUT \<longleftrightarrow> t = tk_end"
  by (cases t) auto

text \<open>Only the tokenizer has moved.\<close>

definition moved :: "ubasic \<Rightarrow> ubasic \<Rightarrow> bool" where
  "moved s s' \<longleftrightarrow> s' = s\<lparr>ptr := ptr s', nextptr := nextptr s', current_token := current_token s'\<rparr>"

lemma moved_refl [simp]: "moved s s"
  by (simp add: moved_def)

lemma moved_simps:
  assumes "moved s s'"
  shows "prog s' = prog s" "strbuf s' = strbuf s" "gosub_stack s' = gosub_stack s" "gosub_stack_ptr s' = gosub_stack_ptr s"
    "for_stack s' = for_stack s" "for_stack_ptr s' = for_stack_ptr s" "line_index s' = line_index s" "variables s' = variables s"
    "ended s' = ended s" "printed s' = printed s" "pokes s' = pokes s"
  using assms unfolding moved_def by (metis (lifting) ubasic.select_convs ubasic.surjective ubasic.update_convs)+

lemma moved_trans: "moved s s' \<Longrightarrow> moved s' s'' \<Longrightarrow> moved s s''"
  unfolding moved_def by (cases s; cases s'; cases s'') simp

lemma next_at:
  assumes "at_toks s (t # ts)" "t \<noteq> tk_end"
  obtains s' where "tokenizer_next s = Some s'" "at_toks s' ts" "moved s s'"
proof -
  have a: "current_token s = tok_of t" "get_next_token (prog s) (ptr s) (nextptr s) = Some (tok_of t, nextptr s)" "payload (prog s) (ptr s) t"
    "stream (prog s) (nextptr s) ts"
    using assms by (auto simp: at_toks_def stands_def)
  have k: "tok_of t \<notin> {TOKENIZER_ENDOFINPUT, TOKENIZER_ERROR}" using payload_not_error [OF a(3)] tok_of_end [OF a(3)] assms(2) by simp
  have "tokenizer_finished s = Some False" using get_next_token_stable(2) [OF a(2) k] a(1) k by (auto simp: tokenizer_finished_def)
  moreover obtain u us where ts: "ts = u # us" using a(4) by (cases ts) auto
  obtain p q where n: "next_token (prog s) (nextptr s) = Some (p, q, tok_of u)" "stands (prog s) p q u" "if u = tk_end then us = [] else stream (prog s) q us"
    using a(4) ts by (auto split: option.splits)
  ultimately show thesis
    using that [of "s\<lparr>ptr := p, nextptr := q, current_token := tok_of u\<rparr>"] ts by (simp add: tokenizer_next_def at_toks_def moved_def)
qed

lemma at_current: "at_toks s (t # ts) \<Longrightarrow> current_token s = tok_of t"
  by (simp add: at_toks_def)

lemma accept_at:
  assumes "at_toks s (t # ts)" "t \<noteq> tk_end" "tok_of t = k"
  obtains s' where "accept k s = Some s'" "at_toks s' ts" "moved s s'"
proof -
  have "current_token s = k" using assms(1,3) by (simp add: at_toks_def)
  then show thesis using next_at [OF assms(1,2)] that by (auto simp: accept_def)
qed

lemma num_at: "at_toks s (N k # ts) \<Longrightarrow> tokenizer_num s = Some (of_nat k)"
  by (simp add: at_toks_def stands_def payload_def tokenizer_num_def)

lemma var_at: "at_toks s (V v # ts) \<Longrightarrow> tokenizer_variable_num s = Some (int v) \<and> v < 26"
proof -
  assume "at_toks s (V v # ts)"
  then have v: "peek (prog s) (ptr s) = Some (of_nat (0x61 + v))" "v < 26" by (simp_all add: at_toks_def stands_def payload_def)
  have "unat (of_nat (0x61 + v) :: u8) = 0x61 + v" using v(2) by (simp only: unat_of_nat) simp
  from arg_cong [OF this, of int] have "uint (of_nat (0x61 + v) :: u8) = 0x61 + int v" by simp
  then show ?thesis using v unfolding tokenizer_variable_num_def by (simp del: of_nat_add)
qed

section \<open>Expressions\<close>

text \<open>The operators associate to the left.\<close>

datatype mulop = Times | Divide | Modulo
datatype addop = Plus | Minus | BitAnd | BitOr
datatype relop = Less | Greater | Equal

datatype fac = Num nat | Var nat | Paren ex
  and tm = Fac fac | Mul tm mulop fac
  and ex = Tm tm | Add ex addop tm

fun mul_tok :: "mulop \<Rightarrow> token" where
  "mul_tok Times = TOKENIZER_ASTR" | "mul_tok Divide = TOKENIZER_SLASH" | "mul_tok Modulo = TOKENIZER_MOD"

fun add_tok :: "addop \<Rightarrow> token" where
  "add_tok Plus = TOKENIZER_PLUS" | "add_tok Minus = TOKENIZER_MINUS" | "add_tok BitAnd = TOKENIZER_AND" | "add_tok BitOr = TOKENIZER_OR"

fun fac_toks :: "fac \<Rightarrow> tk list" and tm_toks :: "tm \<Rightarrow> tk list" and ex_toks :: "ex \<Rightarrow> tk list" where
  "fac_toks (Num k) = [N k]"
| "fac_toks (Var v) = [V v]"
| "fac_toks (Paren e) = K TOKENIZER_LEFTPAREN # ex_toks e @ [K TOKENIZER_RIGHTPAREN]"
| "tm_toks (Fac f) = fac_toks f"
| "tm_toks (Mul t m f) = tm_toks t @ K (mul_tok m) # fac_toks f"
| "ex_toks (Tm t) = tm_toks t"
| "ex_toks (Add e a t) = ex_toks e @ K (add_tok a) # tm_toks t"

text \<open>Values: the arithmetic is that of an \<open>int\<close>, and numbers, variables and parentheses are bytes.\<close>

fun mul_value :: "mulop \<Rightarrow> int \<Rightarrow> int \<Rightarrow> int option" where
  "mul_value Times a b = c_int (a * b)"
| "mul_value Divide a b = (if b = 0 then None else c_int (a div b))"
| "mul_value Modulo a b = (if b = 0 then None else c_int (a mod b))"

fun add_value :: "addop \<Rightarrow> int \<Rightarrow> int \<Rightarrow> int option" where
  "add_value Plus a b = c_int (a + b)"
| "add_value Minus a b = c_int (a - b)"
| "add_value BitAnd a b = Some (a AND b)"
| "add_value BitOr a b = Some (a OR b)"

fun fac_value :: "u8 list \<Rightarrow> fac \<Rightarrow> int option" and tm_value :: "u8 list \<Rightarrow> tm \<Rightarrow> int option" and ex_value :: "u8 list \<Rightarrow> ex \<Rightarrow> int option" where
  "fac_value vs (Num k) = Some (int k mod 256)"
| "fac_value vs (Var v) = map_option uint (peek vs v)"
| "fac_value vs (Paren e) = map_option (\<lambda>x. x mod 256) (ex_value vs e)"
| "tm_value vs (Fac f) = fac_value vs f"
| "tm_value vs (Mul t m f) = do { a \<leftarrow> tm_value vs t; b \<leftarrow> fac_value vs f; mul_value m a b }"
| "ex_value vs (Tm t) = tm_value vs t"
| "ex_value vs (Add e a t) = do { x \<leftarrow> ex_value vs e; y \<leftarrow> tm_value vs t; add_value a x y }"

text \<open>Fuel: one for every operator and parenthesis, and some for the calls between.\<close>

fun fac_fuel :: "fac \<Rightarrow> nat" and tm_fuel :: "tm \<Rightarrow> nat" and ex_fuel :: "ex \<Rightarrow> nat" where
  "fac_fuel (Num k) = 1"
| "fac_fuel (Var v) = 1"
| "fac_fuel (Paren e) = ex_fuel e + 2"
| "tm_fuel (Fac f) = fac_fuel f"
| "tm_fuel (Mul t m f) = tm_fuel t + fac_fuel f + 1"
| "ex_fuel (Tm t) = tm_fuel t + 1"
| "ex_fuel (Add e a t) = ex_fuel e + tm_fuel t + 2"

fun tm_ops :: "tm \<Rightarrow> nat" where "tm_ops (Fac f) = 0" | "tm_ops (Mul t m f) = tm_ops t + 1"
fun ex_ops :: "ex \<Rightarrow> nat" where "ex_ops (Tm t) = 0" | "ex_ops (Add e a t) = ex_ops e + 1"

lemma fuel_ops: "0 < fac_fuel f" "tm_ops t < tm_fuel t" "ex_ops e < ex_fuel e"
  by (induction f and t and e) auto

lemma tm_value_nonneg: "fac_value vs f = Some x \<Longrightarrow> 0 \<le> x" "tm_value vs t = Some y \<Longrightarrow> 0 \<le> y" "ex_value vs e = ex_value vs e"
proof (induction f and t and e arbitrary: x and y)
  case (Var v)
  then show ?case by auto
next
  case (Mul t m f)
  then obtain a b where "tm_value vs t = Some a" "fac_value vs f = Some b" "mul_value m a b = Some y" by (auto simp: bind_Some_iff)
  moreover have "0 \<le> a" "0 \<le> b" using Mul.IH calculation by auto
  ultimately show ?case by (cases m) (auto simp: c_int_def pos_imp_zdiv_nonneg_iff split: if_splits)
qed auto

lemma term_op_value: "0 \<le> a \<Longrightarrow> 0 \<le> b \<Longrightarrow> term_op (mul_tok m) a b = mul_value m a b"
  by (cases m) (auto simp: term_op_def signed_divide_int_def signed_modulo_int_def sgn_if)

lemma expr_op_value: "expr_op (add_tok a) x y = add_value a x y"
  by (cases a) (auto simp: expr_op_def)

section \<open>The interpreter computes the value\<close>

lemma get_variable_at: "v < 26 \<Longrightarrow> ubasic_get_variable (int v) s = peek (variables s) v"
  by (simp add: ubasic_get_variable_def MAX_VARNUM_def)

lemma uint_of_int_mod: "uint (of_int x :: u8) = x mod 256"
  by (simp add: unsigned_of_int take_bit_eq_mod)

lemma mul_toks: "mul_tok m \<in> {TOKENIZER_ASTR, TOKENIZER_SLASH, TOKENIZER_MOD}" "K (mul_tok m) \<noteq> tk_end"
  by (cases m; simp)+

lemma add_toks: "add_tok a \<in> {TOKENIZER_PLUS, TOKENIZER_MINUS, TOKENIZER_AND, TOKENIZER_OR}" "K (add_tok a) \<noteq> tk_end"
  "add_tok a \<notin> {TOKENIZER_ASTR, TOKENIZER_SLASH, TOKENIZER_MOD}"
  by (cases a; simp)+

text \<open>What may follow an expression.\<close>

definition no_op :: "tk list \<Rightarrow> bool" where
  "no_op ts \<longleftrightarrow> ts \<noteq> [] \<and> tok_of (hd ts) \<notin> {TOKENIZER_ASTR, TOKENIZER_SLASH, TOKENIZER_MOD, TOKENIZER_PLUS, TOKENIZER_MINUS, TOKENIZER_AND, TOKENIZER_OR}"

lemma term_loop_stop:
  assumes "at_toks s (t # ts)" "tok_of t \<notin> {TOKENIZER_ASTR, TOKENIZER_SLASH, TOKENIZER_MOD}" "0 < n"
  shows "term_loop n f1 s = Ret (f1, s)"
  using assms at_current [OF assms(1)] by (cases n) (auto simp: Let_def)

lemma expr_loop_stop:
  assumes "at_toks s ts" "no_op ts" "0 < n"
  shows "expr_loop n t1 s = Ret (t1, s)"
proof -
  obtain t us where "ts = t # us" "tok_of t \<notin> {TOKENIZER_PLUS, TOKENIZER_MINUS, TOKENIZER_AND, TOKENIZER_OR}"
    using assms(2) by (cases ts) (auto simp: no_op_def)
  then show ?thesis using assms(1,3) at_current [of s t us] by (cases n) (auto simp: Let_def)
qed

text \<open>The recursive steps: parentheses, a factor more and a term more.\<close>

lemma factor_paren:
  assumes "at_toks s (K TOKENIZER_LEFTPAREN # ex_toks e @ K TOKENIZER_RIGHTPAREN # ts)" "ex_fuel e \<le> m"
    and inner: "\<And>s1. at_toks s1 (ex_toks e @ K TOKENIZER_RIGHTPAREN # ts) \<Longrightarrow> variables s1 = variables s \<Longrightarrow>
      \<exists>s2. bindo (expr_term m s1) (\<lambda>(t1, s). expr_loop m t1 s) = expr_loop (m - ex_ops e) z s2 \<and> at_toks s2 (K TOKENIZER_RIGHTPAREN # ts) \<and> moved s1 s2"
  shows "\<exists>s'. factor (Suc (Suc m)) s = Ret (z mod 256, s') \<and> at_toks s' ts \<and> moved s s'"
proof -
  obtain s1 where s1: "accept TOKENIZER_LEFTPAREN s = Some s1" "at_toks s1 (ex_toks e @ K TOKENIZER_RIGHTPAREN # ts)" "moved s s1"
    by (rule accept_at [OF assms(1)]) auto
  obtain s2 where s2: "bindo (expr_term m s1) (\<lambda>(t1, s). expr_loop m t1 s) = expr_loop (m - ex_ops e) z s2"
    "at_toks s2 (K TOKENIZER_RIGHTPAREN # ts)" "moved s1 s2"
    using inner [OF s1(2) moved_simps(8) [OF s1(3)]] by blast
  have "0 < m - ex_ops e" using fuel_ops(3) [of e] assms(2) by linarith
  then have "expr_loop (m - ex_ops e) z s2 = Ret (z, s2)" using expr_loop_stop [OF s2(2), of "m - ex_ops e"] by (simp add: no_op_def)
  then have e: "expr (Suc m) s1 = Ret (of_int z, s2)" using s2(1) by (cases "expr_term m s1") auto
  obtain s3 where s3: "accept TOKENIZER_RIGHTPAREN s2 = Some s3" "at_toks s3 ts" "moved s2 s3" by (rule accept_at [OF s2(2)]) auto
  have "factor (Suc (Suc m)) s = Ret (z mod 256, s3)" using at_current [OF assms(1)] s1(1) e s3(1) uint_of_int_mod [of z] by (simp del: expr.simps)
  then show ?thesis using s3(2) moved_trans [OF moved_trans [OF s1(3) s2(3)] s3(3)] by blast
qed

lemma term_loop_more:
  assumes "at_toks s (K (mul_tok m) # fac_toks f @ ts)" "mul_value m a b = Some y" "0 \<le> a" "0 \<le> b"
    and factor: "\<And>s1. at_toks s1 (fac_toks f @ ts) \<Longrightarrow> variables s1 = variables s \<Longrightarrow> \<exists>s2. factor k s1 = Ret (b, s2) \<and> at_toks s2 ts \<and> moved s1 s2"
  shows "\<exists>s'. term_loop (Suc k) a s = term_loop k y s' \<and> at_toks s' ts \<and> moved s s'"
proof -
  obtain s1 where s1: "tokenizer_next s = Some s1" "at_toks s1 (fac_toks f @ ts)" "moved s s1" by (rule next_at [OF assms(1) mul_toks(2)])
  obtain s2 where s2: "factor k s1 = Ret (b, s2)" "at_toks s2 ts" "moved s1 s2" using factor [OF s1(2) moved_simps(8) [OF s1(3)]] by blast
  have "term_op (mul_tok m) a b = Some y" using term_op_value [OF assms(3,4), of m] assms(2) by simp
  then have "term_loop (Suc k) a s = term_loop k y s2" using at_current [OF assms(1)] mul_toks(1) [of m] s1(1) s2(1) by (simp add: Let_def)
  then show ?thesis using s2(2) moved_trans [OF s1(3) s2(3)] by blast
qed

lemma expr_term_at:
  assumes "at_toks s (tm_toks t @ ts)" "tm_fuel t \<le> m" "hd ts \<notin> K ` {TOKENIZER_ASTR, TOKENIZER_SLASH, TOKENIZER_MOD}"
    and terms: "\<exists>s'. bindo (factor m s) (\<lambda>(f1, s). term_loop m f1 s) = term_loop (m - tm_ops t) y s' \<and> at_toks s' ts \<and> moved s s'"
  shows "\<exists>s'. expr_term (Suc m) s = Ret (y, s') \<and> at_toks s' ts \<and> moved s s'"
proof -
  obtain s' where s': "bindo (factor m s) (\<lambda>(f1, s). term_loop m f1 s) = term_loop (m - tm_ops t) y s'" "at_toks s' ts" "moved s s'" using terms by blast
  obtain u us where u: "ts = u # us" using s'(2) by (cases ts) (auto simp: at_toks_def)
  have "0 < m - tm_ops t" using fuel_ops(2) [of t] assms(2) by linarith
  then have "term_loop (m - tm_ops t) y s' = Ret (y, s')" using term_loop_stop [OF s'(2) [unfolded u]] assms(3) u by (cases u) auto
  then show ?thesis using s' by simp
qed

lemma expr_loop_more:
  assumes "at_toks s (K (add_tok a) # tm_toks t @ ts)" "add_value a x y = Some z"
    and next_term: "\<And>s1. at_toks s1 (tm_toks t @ ts) \<Longrightarrow> variables s1 = variables s \<Longrightarrow> \<exists>s2. expr_term k s1 = Ret (y, s2) \<and> at_toks s2 ts \<and> moved s1 s2"
  shows "\<exists>s'. expr_loop (Suc k) x s = expr_loop k z s' \<and> at_toks s' ts \<and> moved s s'"
proof -
  obtain s1 where s1: "tokenizer_next s = Some s1" "at_toks s1 (tm_toks t @ ts)" "moved s s1" by (rule next_at [OF assms(1) add_toks(2)])
  obtain s2 where s2: "expr_term k s1 = Ret (y, s2)" "at_toks s2 ts" "moved s1 s2" using next_term [OF s1(2) moved_simps(8) [OF s1(3)]] by blast
  have "expr_loop (Suc k) x s = expr_loop k z s2"
    using at_current [OF assms(1)] add_toks(1) [of a] s1(1) s2(1) assms(2) by (simp add: Let_def expr_op_value del: expr_term.simps)
  then show ?thesis using s2(2) moved_trans [OF s1(3) s2(3)] by blast
qed

lemma eval_correct:
  "at_toks s (fac_toks f @ ts) \<Longrightarrow> fac_value (variables s) f = Some x \<Longrightarrow> fac_fuel f \<le> n \<Longrightarrow>
     \<exists>s'. factor n s = Ret (x, s') \<and> at_toks s' ts \<and> moved s s'"
  "at_toks s (tm_toks t @ ts) \<Longrightarrow> tm_value (variables s) t = Some y \<Longrightarrow> tm_fuel t \<le> n \<Longrightarrow>
     \<exists>s'. bindo (factor n s) (\<lambda>(f1, s). term_loop n f1 s) = term_loop (n - tm_ops t) y s' \<and> at_toks s' ts \<and> moved s s'"
  "at_toks s (ex_toks e @ ts) \<Longrightarrow> ex_value (variables s) e = Some z \<Longrightarrow> ex_fuel e \<le> n \<Longrightarrow> hd ts \<notin> K ` {TOKENIZER_ASTR, TOKENIZER_SLASH, TOKENIZER_MOD} \<Longrightarrow>
     \<exists>s'. bindo (expr_term n s) (\<lambda>(t1, s). expr_loop n t1 s) = expr_loop (n - ex_ops e) z s' \<and> at_toks s' ts \<and> moved s s'"
proof (induction f and t and e arbitrary: s ts x n and s ts y n and s ts z n)
  case (Num k)
  obtain m where n: "n = Suc m" using Num.prems(3) by (cases n) auto
  have a: "at_toks s (N k # ts)" using Num.prems(1) by simp
  obtain s' where "accept TOKENIZER_NUMBER s = Some s'" "at_toks s' ts" "moved s s'" by (rule accept_at [OF a]) auto
  moreover have "uint (of_nat k :: u8) = int k mod 256" using uint_of_int_mod [of "int k"] by simp
  ultimately show ?case using num_at [OF a] at_current [OF a] Num.prems(2) n by simp
next
  case (Var v)
  obtain m where n: "n = Suc m" using Var.prems(3) by (cases n) auto
  have a: "at_toks s (V v # ts)" using Var.prems(1) by simp
  obtain s' where "accept TOKENIZER_VARIABLE s = Some s'" "at_toks s' ts" "moved s s'" by (rule accept_at [OF a]) auto
  moreover obtain r where "peek (variables s) v = Some r" "x = uint r" using Var.prems(2) by auto
  ultimately show ?case using var_at [OF a] at_current [OF a] n get_variable_at [of v s] by (simp add: varfactor_def)
next
  case (Paren e)
  obtain m where n: "n = Suc (Suc m)" "ex_fuel e \<le> m" using Paren.prems(3) by (cases n; cases "n - 1") auto
  obtain z where z: "ex_value (variables s) e = Some z" "x = z mod 256" using Paren.prems(2) by auto
  show ?case unfolding n(1) z(2) by (rule factor_paren [OF _ n(2)]) (use Paren.prems(1) Paren.IH [OF _ _ n(2), of _ _ z] z(1) in auto)
next
  case (Fac f)
  obtain s' where "factor n s = Ret (y, s')" "at_toks s' ts" "moved s s'" using Fac.IH [of s ts y n] Fac.prems by auto
  then show ?case by auto
next
  case (Mul t m f)
  obtain a b where v: "tm_value (variables s) t = Some a" "fac_value (variables s) f = Some b" "mul_value m a b = Some y"
    using Mul.prems(2) by (auto simp: bind_Some_iff)
  have l: "tm_fuel t \<le> n" using Mul.prems(3) by simp
  obtain s1 where s1: "bindo (factor n s) (\<lambda>(f1, s). term_loop n f1 s) = term_loop (n - tm_ops t) a s1" "at_toks s1 (K (mul_tok m) # fac_toks f @ ts)" "moved s s1"
    using Mul.IH(1) [OF _ v(1) l, of "K (mul_tok m) # fac_toks f @ ts"] Mul.prems(1) by auto
  obtain k where k: "n - tm_ops t = Suc k" "fac_fuel f \<le> k" "k = n - tm_ops (Mul t m f)"
    using fuel_ops(2) [of t] Mul.prems(3) that [of "n - tm_ops t - 1"] by simp
  have "\<exists>s'. term_loop (Suc k) a s1 = term_loop k y s' \<and> at_toks s' ts \<and> moved s1 s'"
    by (rule term_loop_more [OF s1(2) v(3) tm_value_nonneg(2) [OF v(1)] tm_value_nonneg(1) [OF v(2)]])
      (rule Mul.IH(2) [OF _ _ k(2)], simp_all add: v(2) moved_simps(8) [OF s1(3)])
  then show ?case unfolding s1(1) k(1) k(3) [symmetric] using moved_trans [OF s1(3)] by blast
next
  case (Tm t)
  obtain m where n: "n = Suc m" "tm_fuel t \<le> m" using Tm.prems(3) by (cases n) auto
  have a: "at_toks s (tm_toks t @ ts)" using Tm.prems(1) by simp
  obtain s' where "expr_term n s = Ret (z, s')" "at_toks s' ts" "moved s s'"
    using expr_term_at [OF a n(2) Tm.prems(4) Tm.IH [OF a _ n(2)], of z] Tm.prems(2) n(1) by auto
  then show ?case by (intro exI [of _ s']) simp
next
  case (Add e a t)
  obtain x y where v: "ex_value (variables s) e = Some x" "tm_value (variables s) t = Some y" "add_value a x y = Some z"
    using Add.prems(2) by (auto simp: bind_Some_iff)
  have l: "ex_fuel e \<le> n" using Add.prems(3) by simp
  obtain s1 where s1: "bindo (expr_term n s) (\<lambda>(t1, s). expr_loop n t1 s) = expr_loop (n - ex_ops e) x s1"
    "at_toks s1 (K (add_tok a) # tm_toks t @ ts)" "moved s s1"
    using Add.IH(1) [OF _ v(1) l, of "K (add_tok a) # tm_toks t @ ts"] Add.prems(1) add_toks(3) [of a] by auto
  obtain k where k: "n - ex_ops e = Suc (Suc k)" "tm_fuel t \<le> k" "Suc k = n - ex_ops (Add e a t)"
    using fuel_ops(3) [of e] Add.prems(3) that [of "n - ex_ops e - 2"] by simp
  have "\<exists>s'. expr_loop (Suc (Suc k)) x s1 = expr_loop (Suc k) z s' \<and> at_toks s' ts \<and> moved s1 s'"
  proof (rule expr_loop_more [OF s1(2) v(3)])
    fix s2 assume s2: "at_toks s2 (tm_toks t @ ts)" "variables s2 = variables s1"
    then have "tm_value (variables s2) t = Some y" using v(2) moved_simps(8) [OF s1(3)] by simp
    then show "\<exists>s3. expr_term (Suc k) s2 = Ret (y, s3) \<and> at_toks s3 ts \<and> moved s2 s3"
      by (rule expr_term_at [OF s2(1) k(2) Add.prems(4) Add.IH(2) [OF s2(1) _ k(2)]])
  qed
  then show ?case unfolding s1(1) k(1) k(3) [symmetric] using moved_trans [OF s1(3)] by blast
qed

lemma expr_at:
  assumes "at_toks s (ex_toks e @ ts)" "ex_value (variables s) e = Some z" "no_op ts" "ex_fuel e < n"
  obtains s' where "expr n s = Ret (of_int z, s')" "at_toks s' ts" "moved s s'"
proof -
  obtain m where n: "n = Suc m" "ex_fuel e \<le> m" using assms(4) by (cases n) auto
  have h: "hd ts \<notin> K ` {TOKENIZER_ASTR, TOKENIZER_SLASH, TOKENIZER_MOD}" using assms(3) by (auto simp: no_op_def)
  obtain s' where s': "bindo (expr_term m s) (\<lambda>(t1, s). expr_loop m t1 s) = expr_loop (m - ex_ops e) z s'" "at_toks s' ts" "moved s s'"
    using eval_correct(3) [OF assms(1,2) n(2) h] by blast
  have "0 < m - ex_ops e" using fuel_ops(3) [of e] n(2) by linarith
  then have "expr_loop (m - ex_ops e) z s' = Ret (z, s')" using expr_loop_stop [OF s'(2) assms(3)] by blast
  then have "expr n s = Ret (of_int z, s')" using s'(1) n(1) by (cases "expr_term m s") auto
  then show thesis using that s'(2,3) by blast
qed

section \<open>Comparisons\<close>

datatype rel = Rel ex | Cmp rel relop ex

fun rel_tok :: "relop \<Rightarrow> token" where
  "rel_tok Less = TOKENIZER_LT" | "rel_tok Greater = TOKENIZER_GT" | "rel_tok Equal = TOKENIZER_EQ"

fun rel_toks :: "rel \<Rightarrow> tk list" where
  "rel_toks (Rel e) = ex_toks e"
| "rel_toks (Cmp r c e) = rel_toks r @ K (rel_tok c) # ex_toks e"

fun cmp_value :: "relop \<Rightarrow> int \<Rightarrow> int \<Rightarrow> int" where
  "cmp_value Less a b = of_bool (a < b)" | "cmp_value Greater a b = of_bool (a > b)" | "cmp_value Equal a b = of_bool (a = b)"

fun rel_value :: "u8 list \<Rightarrow> rel \<Rightarrow> int option" where
  "rel_value vs (Rel e) = map_option (\<lambda>x. x mod 256) (ex_value vs e)"
| "rel_value vs (Cmp r c e) = do { a \<leftarrow> rel_value vs r; b \<leftarrow> ex_value vs e; Some (cmp_value c a (b mod 256)) }"

fun rel_fuel :: "rel \<Rightarrow> nat" where
  "rel_fuel (Rel e) = ex_fuel e + 1"
| "rel_fuel (Cmp r c e) = rel_fuel r + ex_fuel e + 2"

fun rel_ops :: "rel \<Rightarrow> nat" where "rel_ops (Rel e) = 0" | "rel_ops (Cmp r c e) = rel_ops r + 1"

lemma rel_ops_fuel: "rel_ops r < rel_fuel r"
  by (induction r) auto

lemma rel_toks_op: "rel_tok c \<in> {TOKENIZER_LT, TOKENIZER_GT, TOKENIZER_EQ}" "K (rel_tok c) \<noteq> tk_end" "no_op (K (rel_tok c) # ts)"
  by (cases c; simp add: no_op_def)+

lemma relation_op_value: "relation_op (rel_tok c) a b = cmp_value c a b"
  by (cases c) (auto simp: relation_op_def)

definition no_rel :: "tk list \<Rightarrow> bool" where
  "no_rel ts \<longleftrightarrow> no_op ts \<and> tok_of (hd ts) \<notin> {TOKENIZER_LT, TOKENIZER_GT, TOKENIZER_EQ}"

lemma relation_prefix:
  assumes "at_toks s (rel_toks r @ ts)" "rel_value (variables s) r = Some z" "rel_fuel r \<le> n" "no_op ts"
  shows "\<exists>s'. relation n s = relation_loop (n - rel_ops r) z s' \<and> at_toks s' ts \<and> moved s s'"
  using assms
proof (induction r arbitrary: ts z)
  case (Rel e)
  obtain x where x: "ex_value (variables s) e = Some x" "z = x mod 256" using Rel.prems(2) by auto
  have "at_toks s (ex_toks e @ ts)" "ex_fuel e < n" using Rel.prems(1,3) by simp_all
  then obtain s' where "expr n s = Ret (of_int x, s')" "at_toks s' ts" "moved s s'" using expr_at [OF _ x(1) Rel.prems(4)] by metis
  then show ?case using x(2) uint_of_int_mod [of x] by (auto simp: relation_def)
next
  case (Cmp r c e)
  obtain a b where v: "rel_value (variables s) r = Some a" "ex_value (variables s) e = Some b" "z = cmp_value c a (b mod 256)"
    using Cmp.prems(2) by (auto simp: bind_Some_iff)
  have l: "rel_fuel r \<le> n" using Cmp.prems(3) by simp
  obtain s1 where s1: "relation n s = relation_loop (n - rel_ops r) a s1" "at_toks s1 (K (rel_tok c) # ex_toks e @ ts)" "moved s s1"
    using Cmp.IH [OF _ v(1) l rel_toks_op(3), of c "ex_toks e @ ts"] Cmp.prems(1) by auto
  obtain k where k: "n - rel_ops r = Suc k" "ex_fuel e < k" "k = n - rel_ops (Cmp r c e)"
    using rel_ops_fuel [of r] Cmp.prems(3) that [of "n - rel_ops r - 1"] by simp
  obtain s2 where s2: "tokenizer_next s1 = Some s2" "at_toks s2 (ex_toks e @ ts)" "moved s1 s2" by (rule next_at [OF s1(2) rel_toks_op(2)])
  have "ex_value (variables s2) e = Some b" using v(2) moved_simps(8) [OF moved_trans [OF s1(3) s2(3)]] by simp
  then obtain s3 where s3: "expr k s2 = Ret (of_int b, s3)" "at_toks s3 ts" "moved s2 s3" using expr_at [OF s2(2) _ Cmp.prems(4) k(2)] by metis
  have "relation_loop (Suc k) a s1 = relation_loop k z s3"
    using at_current [OF s1(2)] rel_toks_op(1) [of c] s2(1) s3(1) v(3) uint_of_int_mod [of b] by (simp add: Let_def relation_op_value)
  then have "relation n s = relation_loop (n - rel_ops (Cmp r c e)) z s3" unfolding s1(1) k(1) k(3) [symmetric] .
  then show ?case using s3(2) moved_trans [OF moved_trans [OF s1(3) s2(3)] s3(3)] by blast
qed

lemma relation_at:
  assumes "at_toks s (rel_toks r @ ts)" "rel_value (variables s) r = Some z" "rel_fuel r \<le> n" "no_rel ts"
  obtains s' where "relation n s = Ret (z, s')" "at_toks s' ts" "moved s s'"
proof -
  have o: "no_op ts" using assms(4) by (simp add: no_rel_def)
  obtain s' where s': "relation n s = relation_loop (n - rel_ops r) z s'" "at_toks s' ts" "moved s s'"
    using relation_prefix [OF assms(1-3) o] by blast
  obtain k where k: "n - rel_ops r = Suc k" using rel_ops_fuel [of r] assms(3) that [of "n - rel_ops r - 1"] by simp
  obtain u us where u: "ts = u # us" using o by (cases ts) (auto simp: no_op_def)
  have "relation_loop (Suc k) z s' = Ret (z, s')" using at_current [OF s'(2) [unfolded u]] assms(4) u by (auto simp: no_rel_def Let_def)
  then show thesis using that s' k by simp
qed

end
