(* ===== verification/Ubasic_Stmt.thy ===== *)
theory Ubasic_Stmt
  imports Ubasic_Expr
begin

unbundle bit_operations_syntax

text \<open>
  Programs of the BASIC interpreter: their syntax trees, an abstract machine that runs the lines of a
  program, the relation between its states and those of the interpreter, and the statements that jump, assign and loop.
\<close>

section \<open>Programs\<close>

datatype item = Text "u8 list" | Comma | Semicolon | Value ex

datatype stmt = Print "item list" | If rel stmt | If_else rel stmt stmt | Goto nat | Gosub nat | Return
  | For nat ex ex | Next nat | Let bool nat ex | End

fun item_toks :: "item \<Rightarrow> tk list" where
  "item_toks (Text x) = [S x]"
| "item_toks Comma = [K TOKENIZER_COMMA]"
| "item_toks Semicolon = [K TOKENIZER_SEMICOLON]"
| "item_toks (Value e) = ex_toks e"

fun stmt_toks :: "stmt \<Rightarrow> tk list" where
  "stmt_toks (Print is) = K TOKENIZER_PRINT # concat (map item_toks is)"
| "stmt_toks (If r st) = K TOKENIZER_IF # rel_toks r @ K TOKENIZER_THEN # stmt_toks st"
| "stmt_toks (If_else r st st') = K TOKENIZER_IF # rel_toks r @ K TOKENIZER_THEN # stmt_toks st @ K TOKENIZER_ELSE # stmt_toks st'"
| "stmt_toks (Goto k) = [K TOKENIZER_GOTO, N k]"
| "stmt_toks (Gosub k) = [K TOKENIZER_GOSUB, N k]"
| "stmt_toks Return = [K TOKENIZER_RETURN]"
| "stmt_toks (For v e e') = K TOKENIZER_FOR # V v # K TOKENIZER_EQ # ex_toks e @ K TOKENIZER_TO # ex_toks e'"
| "stmt_toks (Next v) = [K TOKENIZER_NEXT, V v]"
| "stmt_toks (Let kw v e) = (if kw then [K TOKENIZER_LET] else []) @ V v # K TOKENIZER_EQ # ex_toks e"
| "stmt_toks End = [K TOKENIZER_END]"

type_synonym basic = "(nat \<times> stmt) list"

definition line_toks :: "nat \<times> stmt \<Rightarrow> tk list" where
  "line_toks l = N (fst l) # stmt_toks (snd l) @ [tk_cr]"

definition prog_toks :: "basic \<Rightarrow> tk list" where
  "prog_toks P = concat (map line_toks P) @ [tk_end]"

text \<open>An expression to be printed starts with a number or a variable; a string fits the interpreter's buffer; a branch
  before \<open>else\<close> leaves the line.\<close>

fun item_ok :: "item \<Rightarrow> bool" where
  "item_ok (Text x) = (length x < MAX_STRINGLEN)"
| "item_ok (Value e) = (tok_of (hd (ex_toks e)) \<noteq> TOKENIZER_LEFTPAREN)"
| "item_ok _ = True"

fun leaves :: "stmt \<Rightarrow> bool" where
  "leaves (Goto k) = True" | "leaves Return = True" | "leaves End = True" | "leaves _ = False"

fun no_else :: "stmt \<Rightarrow> bool" where
  "no_else (If r st) = no_else st" | "no_else (If_else r st st') = False" | "no_else _ = True"

fun stmt_ok :: "stmt \<Rightarrow> bool" where
  "stmt_ok (Print is) = list_all item_ok is"
| "stmt_ok (If r st) = (no_else st \<and> stmt_ok st)"
| "stmt_ok (If_else r st st') = (leaves st \<and> stmt_ok st')"
| "stmt_ok (For v e e') = (v < 26)"
| "stmt_ok (Next v) = (v < 26)"
| "stmt_ok (Let kw v e) = (v < 26)"
| "stmt_ok _ = True"

text \<open>Line numbers are read as a \<open>char\<close>, so they have to be different modulo 256.\<close>

definition prog_ok :: "basic \<Rightarrow> bool" where
  "prog_ok P \<longleftrightarrow> P \<noteq> [] \<and> distinct (map (\<lambda>l. fst l mod 256) P) \<and> list_all (\<lambda>l. stmt_ok (snd l)) P"

section \<open>The abstract machine\<close>

record machine =
  pc :: nat
  vars :: "u8 list"
  returns :: "int list"
  fors :: "for_state list"
  screen :: "u8 list"
  halted :: bool

fun item_text :: "u8 list \<Rightarrow> item \<Rightarrow> u8 list option" where
  "item_text vs (Text x) = Some x"
| "item_text vs Comma = Some [0x20]"
| "item_text vs Semicolon = Some []"
| "item_text vs (Value e) = map_option (\<lambda>z. dec_nat (nat (z mod 256))) (ex_value vs e)"

fun items_text :: "u8 list \<Rightarrow> item list \<Rightarrow> u8 list option" where
  "items_text vs [] = Some []"
| "items_text vs (i # is) = do { x \<leftarrow> item_text vs i; y \<leftarrow> items_text vs is; Some (x @ y) }"

definition line_of :: "basic \<Rightarrow> int \<Rightarrow> nat option" where
  "line_of P k = map_of (zip (map (\<lambda>l. int (fst l mod 256)) P) [0..<length P]) k"

definition jump :: "basic \<Rightarrow> int \<Rightarrow> machine \<Rightarrow> machine option" where
  "jump P k a = map_option (\<lambda>j. a\<lparr>pc := j\<rparr>) (line_of P k)"

text \<open>The number of the line behind the current one.\<close>

definition number_after :: "basic \<Rightarrow> nat \<Rightarrow> int" where
  "number_after P i = (if i + 1 < length P then int (fst (P ! (i + 1)) mod 256) else 0)"

text \<open>A step is undefined where the interpreter's arithmetic is, where it would never return (a jump to a line that
  is not there) and for a return without a gosub.\<close>

fun exec :: "basic \<Rightarrow> stmt \<Rightarrow> machine \<Rightarrow> machine option" where
  "exec P (Print is) a = map_option (\<lambda>x. a\<lparr>screen := screen a @ x @ [10], pc := pc a + 1\<rparr>) (items_text (vars a) is)"
| "exec P (If r st) a = do { v \<leftarrow> rel_value (vars a) r; if v \<noteq> 0 then exec P st a else Some (a\<lparr>pc := pc a + 1\<rparr>) }"
| "exec P (If_else r st st') a = do { v \<leftarrow> rel_value (vars a) r; if v \<noteq> 0 then exec P st a else exec P st' a }"
| "exec P (Goto k) a = jump P (int (k mod 256)) a"
| "exec P (Gosub k) a =
     (if length (returns a) < MAX_GOSUB_STACK_DEPTH
      then jump P (int (k mod 256)) (a\<lparr>returns := returns a @ [number_after P (pc a)]\<rparr>) else Some (a\<lparr>pc := pc a + 1\<rparr>))"
| "exec P Return a = (if returns a = [] then None else jump P (last (returns a)) (a\<lparr>returns := butlast (returns a)\<rparr>))"
| "exec P (For v e e') a = do {
     x \<leftarrow> ex_value (vars a) e;
     let a = a\<lparr>vars := (vars a)[v := of_int x]\<rparr>;
     y \<leftarrow> ex_value (vars a) e';
     let a = (if length (fors a) < MAX_FOR_STACK_DEPTH
       then a\<lparr>fors := fors a @ [\<lparr>line_after_for = number_after P (pc a), for_variable = int v, for_to = y mod 256\<rparr>]\<rparr> else a);
     Some (a\<lparr>pc := pc a + 1\<rparr>)
   }"
| "exec P (Next v) a =
     (if fors a \<noteq> [] \<and> for_variable (last (fors a)) = int v
      then let x = vars a ! v + 1; a = a\<lparr>vars := (vars a)[v := x]\<rparr>
        in if uint x \<le> for_to (last (fors a)) then jump P (line_after_for (last (fors a))) a
        else Some (a\<lparr>fors := butlast (fors a), pc := pc a + 1\<rparr>)
      else Some (a\<lparr>pc := pc a + 1\<rparr>))"
| "exec P (Let kw v e) a = map_option (\<lambda>x. a\<lparr>vars := (vars a)[v := of_int x], pc := pc a + 1\<rparr>) (ex_value (vars a) e)"
| "exec P End a = Some (a\<lparr>halted := True\<rparr>)"

definition running :: "basic \<Rightarrow> machine \<Rightarrow> bool" where
  "running P a \<longleftrightarrow> \<not> halted a \<and> pc a < length P"

text \<open>Steps until the machine stops.\<close>

fun run_basic :: "nat \<Rightarrow> basic \<Rightarrow> machine \<Rightarrow> machine option" where
  "run_basic 0 P a = (if running P a then None else Some a)"
| "run_basic (Suc n) P a = (if running P a then do { a \<leftarrow> exec P (snd (P ! pc a)) a; run_basic n P a } else Some a)"

section \<open>The interpreter's state\<close>

text \<open>The text \<open>b\<close> is the program \<open>P\<close>.\<close>

definition text_of :: "u8 list \<Rightarrow> basic \<Rightarrow> bool" where
  "text_of b P \<longleftrightarrow> (\<exists>q. stands b 0 q (hd (prog_toks P)) \<and> stream b q (tl (prog_toks P)))"

definition index_ok :: "basic \<Rightarrow> ubasic \<Rightarrow> bool" where
  "index_ok P s \<longleftrightarrow> (\<forall>(k, p) \<in> set (line_index s). \<exists>i q. line_of P k = Some i \<and> stands (prog s) p q (N (fst (P ! i))) \<and>
     stream (prog s) q (tl (prog_toks (drop i P))))"

text \<open>The parts of the state that a line may change, against the machine.\<close>

definition data_ok :: "basic \<Rightarrow> ubasic \<Rightarrow> machine \<Rightarrow> bool" where
  "data_ok P s a \<longleftrightarrow> text_of (prog s) P \<and> index_ok P s \<and> variables s = vars a \<and> length (vars a) = 26 \<and> length (strbuf s) = MAX_STRINGLEN \<and>
     length (gosub_stack s) = MAX_GOSUB_STACK_DEPTH \<and> gosub_stack_ptr s = length (returns a) \<and> length (returns a) \<le> MAX_GOSUB_STACK_DEPTH \<and>
     take (length (returns a)) (gosub_stack s) = returns a \<and>
     length (for_stack s) = MAX_FOR_STACK_DEPTH \<and> for_stack_ptr s = length (fors a) \<and> length (fors a) \<le> MAX_FOR_STACK_DEPTH \<and>
     take (length (fors a)) (for_stack s) = fors a \<and> printed s = screen a \<and> ended s = halted a"

definition matches :: "basic \<Rightarrow> ubasic \<Rightarrow> machine \<Rightarrow> bool" where
  "matches P s a \<longleftrightarrow> data_ok P s a \<and> (\<not> halted a \<longrightarrow> pc a \<le> length P \<and> at_toks s (prog_toks (drop (pc a) P)))"

lemma data_moved: "data_ok P s a \<Longrightarrow> moved s s' \<Longrightarrow> data_ok P s' a"
  by (simp add: data_ok_def index_ok_def moved_simps)

lemma prog_toks_drop:
  "i < length P \<Longrightarrow> prog_toks (drop i P) = N (fst (P ! i)) # stmt_toks (snd (P ! i)) @ tk_cr # prog_toks (drop (i + 1) P)"
  by (simp add: prog_toks_def line_toks_def Cons_nth_drop_Suc [symmetric])

lemma prog_toks_end: "prog_toks (drop (length P) P) = [tk_end]"
  by (simp add: prog_toks_def)

lemma at_tk_end_num: "at_toks s [tk_end] \<Longrightarrow> tokenizer_num s = Some 0"
proof -
  assume a: "at_toks s [tk_end]"
  then have "get_next_token (prog s) (ptr s) (nextptr s) = Some (TOKENIZER_ENDOFINPUT, nextptr s)" by (simp add: at_toks_def stands_def)
  then obtain c where c: "peek (prog s) (ptr s) = Some c" "c = 0"
    by (auto simp: get_next_token_def bind_Some_iff singlechar_def keyword_tokens_def split: if_splits option.splits)
  then have "drop (ptr s) (prog s) = 0 # drop (Suc (ptr s)) (prog s)" using Cons_nth_drop_Suc [of "ptr s" "prog s"] by (simp add: peek_Some_iff)
  then show ?thesis by (simp add: tokenizer_num_def atoi_def c_str_def)
qed

text \<open>The number that is read at the start of a line, or at the end of the program.\<close>

lemma number_after_at:
  assumes "at_toks s (prog_toks (drop (i + 1) P))" "i < length P"
  shows "\<exists>k. tokenizer_num s = Some k \<and> uint k = number_after P i"
proof (cases "i + 1 < length P")
  case True
  then have "tokenizer_num s = Some (of_nat (fst (P ! (i + 1))))" using assms(1) num_at prog_toks_drop by metis
  moreover have "uint (of_nat x :: u8) = int (x mod 256)" for x using uint_of_int_mod [of "int x"] by (simp add: zmod_int)
  ultimately show ?thesis using True by (auto simp: number_after_def)
next
  case False
  then have "i + 1 = length P" using assms(2) by simp
  then have "tokenizer_num s = Some 0" using at_tk_end_num assms(1) prog_toks_end by metis
  then show ?thesis using False by (simp add: number_after_def)
qed

section \<open>Jumps\<close>

lemma start_at:
  assumes "text_of (prog s) P" "P \<noteq> []"
  obtains s' where "tokenizer_init s = Some s'" "at_toks s' (prog_toks P)" "moved s s'"
proof -
  obtain k st Q where P: "P = (k, st) # Q" using assms(2) by (metis list.exhaust prod.exhaust)
  then have t: "hd (prog_toks P) = N k" "prog_toks P = N k # tl (prog_toks P)" by (simp_all add: prog_toks_def line_toks_def)
  obtain q where q: "stands (prog s) 0 q (N k)" "stream (prog s) q (tl (prog_toks P))" using assms(1) t(1) by (auto simp: text_of_def)
  then have g: "get_next_token (prog s) 0 m = Some (TOKENIZER_NUMBER, q)" for m
    using get_next_token_stable(1) [of "prog s" 0 q TOKENIZER_NUMBER q m] by (simp add: stands_def)
  let ?s = "s\<lparr>ptr := 0, current_token := TOKENIZER_NUMBER, nextptr := q\<rparr>"
  have "tokenizer_init s = Some ?s" by (simp add: tokenizer_init_def tokenizer_goto_def g)
  moreover have "at_toks ?s (N k # tl (prog_toks P))" using q by (simp add: at_toks_def)
  ultimately show thesis using that [of ?s] t(2) by (simp add: moved_def)
qed

lemma line_of_Some:
  assumes "line_of P k = Some i"
  shows "i < length P" "k = int (fst (P ! i) mod 256)"
proof -
  have "(k, i) \<in> set (zip (map (\<lambda>l. int (fst l mod 256)) P) [0..<length P])" using map_of_SomeD [OF assms [unfolded line_of_def]] .
  then show "i < length P" "k = int (fst (P ! i) mod 256)" by (auto simp: set_zip)
qed

lemma line_of_index:
  assumes "prog_ok P" "i < length P"
  shows "line_of P (int (fst (P ! i) mod 256)) = Some i"
proof -
  have "distinct (map (\<lambda>l. int (fst l mod 256)) P)" using assms(1) by (auto simp: prog_ok_def distinct_map inj_on_def)
  then show ?thesis using assms(2) unfolding line_of_def by (intro map_of_is_SomeI) (auto simp: set_zip intro!: exI [of _ i])
qed

text \<open>Tokens inside a line.\<close>

definition inside :: "tk list \<Rightarrow> bool" where
  "inside ts \<longleftrightarrow> list_all (\<lambda>t. t \<noteq> tk_end \<and> tok_of t \<notin> {TOKENIZER_CR, TOKENIZER_ENDOFINPUT}) ts"

lemma inside_simps [simp]: "inside []" "inside (ts @ us) \<longleftrightarrow> inside ts \<and> inside us"
  "inside (t # ts) \<longleftrightarrow> tok_of t \<notin> {TOKENIZER_CR, TOKENIZER_ENDOFINPUT} \<and> inside ts"
  by (auto simp: inside_def)

lemma expr_inside: "inside (fac_toks f)" "inside (tm_toks t)" "inside (ex_toks e)"
proof (induction f and t and e)
  case (Mul t m f)
  then show ?case by (cases m) auto
next
  case (Add e a t)
  then show ?case by (cases a) auto
qed auto

lemma rel_inside: "inside (rel_toks r)"
proof (induction r)
  case (Cmp r c e)
  then show ?case using expr_inside(3) [of e] by (cases c) auto
qed (simp add: expr_inside)

lemma item_inside: "inside (item_toks i)"
  by (cases i) (auto simp: expr_inside)

lemma items_inside: "inside (concat (map item_toks is))"
  by (induction "is") (auto simp: item_inside)

lemma stmt_inside: "inside (stmt_toks st)"
  by (induction st) (auto simp: items_inside rel_inside expr_inside)

lemma jump_token_at:
  assumes "at_toks s (t # ts @ tk_cr # us)" "inside (t # ts)" "length ts < n"
  shows "\<exists>s'. jump_token n s = Ret s' \<and> at_toks s' (tk_cr # us) \<and> moved s s'"
  using assms
proof (induction ts arbitrary: s t n)
  case Nil
  obtain m where n: "n = Suc m" using Nil.prems(3) by (cases n) auto
  have "t \<noteq> tk_end" using Nil.prems(2) by auto
  then obtain s' where s': "tokenizer_next s = Some s'" "at_toks s' (tk_cr # us)" "moved s s'" using next_at [of s t "tk_cr # us"] Nil.prems(1) by auto
  then show ?case using n at_current [OF s'(2)] by simp
next
  case (Cons u ts)
  obtain m where n: "n = Suc m" "length ts < m" using Cons.prems(3) by (cases n) auto
  have "t \<noteq> tk_end" using Cons.prems(2) by auto
  then obtain s' where s': "tokenizer_next s = Some s'" "at_toks s' (u # ts @ tk_cr # us)" "moved s s'"
    using next_at [of s t "u # ts @ tk_cr # us"] Cons.prems(1) by auto
  obtain s'' where "jump_token m s' = Ret s''" "at_toks s'' (tk_cr # us)" "moved s' s''"
    using Cons.IH [OF s'(2) _ n(2)] Cons.prems(2) by auto
  then show ?case using n(1) s' at_current [OF s'(2)] Cons.prems(2) moved_trans by auto
qed

lemma jump_line_at:
  assumes "at_toks s (prog_toks (drop i P))" "i + 1 < length P" "length (stmt_toks (snd (P ! i))) + 2 \<le> n"
  shows "\<exists>s'. jump_line n s = Ret s' \<and> at_toks s' (prog_toks (drop (i + 1) P)) \<and> moved s s'"
proof -
  obtain m where n: "n = Suc m" "length (stmt_toks (snd (P ! i))) < m" using assms(3) by (cases n) auto
  have a: "at_toks s (N (fst (P ! i)) # stmt_toks (snd (P ! i)) @ tk_cr # prog_toks (drop (i + 1) P))"
    using assms(1,2) prog_toks_drop [of i P] by simp
  obtain s1 where s1: "jump_token m s = Ret s1" "at_toks s1 (tk_cr # prog_toks (drop (i + 1) P))" "moved s s1"
    using jump_token_at [OF a _ n(2)] stmt_inside by auto
  obtain s2 where s2: "tokenizer_next s1 = Some s2" "at_toks s2 (prog_toks (drop (i + 1) P))" "moved s1 s2" by (rule next_at [OF s1(2)]) simp
  have "current_token s2 = TOKENIZER_NUMBER" using at_current s2(2) prog_toks_drop [OF assms(2)] by (metis tok_of.simps(2))
  then show ?thesis using s1 s2 n(1) at_current [OF s1(2)] moved_trans by auto
qed

lemma jump_find_at:
  assumes "prog_ok P" "line_of P k = Some j" "i \<le> j" "at_toks s (prog_toks (drop i P))" "length (prog_toks (drop i P)) \<le> n"
  shows "\<exists>s'. jump_find n k s = Ret s' \<and> at_toks s' (prog_toks (drop j P)) \<and> moved s s'"
  using assms(3-5)
proof (induction "j - i" arbitrary: i s n)
  case 0
  have j: "j < length P" "k = int (fst (P ! j) mod 256)" using line_of_Some [OF assms(2)] by auto
  have i: "i = j" using 0 by simp
  obtain m where n: "n = Suc m" using 0 j(1) i prog_toks_drop [OF j(1)] by (cases n) auto
  have "tokenizer_num s = Some (of_nat (fst (P ! j)))" using num_at 0(3) i prog_toks_drop [OF j(1)] by metis
  moreover have "uint (of_nat x :: u8) = int (x mod 256)" for x using uint_of_int_mod [of "int x"] by (simp add: zmod_int)
  ultimately show ?case using n i 0(3) j(2) by simp
next
  case (Suc d)
  have j: "j < length P" "k = int (fst (P ! j) mod 256)" using line_of_Some [OF assms(2)] by auto
  have i: "i < j" "d = j - (i + 1)" "i < length P" "i + 1 < length P" using Suc(2) j(1) by auto
  have t: "prog_toks (drop i P) = N (fst (P ! i)) # stmt_toks (snd (P ! i)) @ tk_cr # prog_toks (drop (i + 1) P)" by (rule prog_toks_drop [OF i(3)])
  obtain m where n: "n = Suc m" "length (stmt_toks (snd (P ! i))) + 2 \<le> m" "length (prog_toks (drop (i + 1) P)) \<le> m"
    using Suc.prems(3) t prog_toks_drop [OF i(4)] by (cases n) auto
  have "tokenizer_num s = Some (of_nat (fst (P ! i)))" using num_at Suc.prems(2) t by metis
  moreover have "uint (of_nat x :: u8) = int (x mod 256)" for x using uint_of_int_mod [of "int x"] by (simp add: zmod_int)
  moreover have "k \<noteq> int (fst (P ! i) mod 256)" using line_of_index [OF assms(1) i(3)] assms(2) i(1) by auto
  moreover obtain s1 where s1: "jump_line m s = Ret s1" "at_toks s1 (prog_toks (drop (i + 1) P))" "moved s s1"
    using jump_line_at [OF Suc.prems(2) i(4) n(2)] by blast
  moreover obtain s2 where "jump_find m k s1 = Ret s2" "at_toks s2 (prog_toks (drop j P))" "moved s1 s2"
    using Suc.hyps(1) [OF i(2) _ s1(2) n(3)] i(1) by auto
  ultimately show ?case using n(1) moved_trans by auto
qed

lemma jump_at:
  assumes "prog_ok P" "text_of (prog s) P" "index_ok P s" "line_of P k = Some j" "length (prog_toks P) \<le> n"
  obtains s' where "jump_linenum n k s = Ret s'" "at_toks s' (prog_toks (drop j P))" "moved s s'"
proof (cases "index_find k s")
  case None
  have "P \<noteq> []" using assms(1) by (simp add: prog_ok_def)
  then obtain s1 where s1: "tokenizer_init s = Some s1" "at_toks s1 (prog_toks P)" "moved s s1" using start_at [OF assms(2)] by metis
  then obtain s2 where "jump_find n k s1 = Ret s2" "at_toks s2 (prog_toks (drop j P))" "moved s1 s2"
    using jump_find_at [OF assms(1,4), of 0 s1 n] assms(5) by auto
  then show thesis using that s1(1,3) None moved_trans by (auto simp: jump_linenum_def jump_linenum_slow_def)
next
  case (Some p)
  then have "(k, p) \<in> set (line_index s)" by (simp add: index_find_def map_of_SomeD)
  then obtain i q where i: "line_of P k = Some i" "stands (prog s) p q (N (fst (P ! i)))" "stream (prog s) q (tl (prog_toks (drop i P)))"
    using assms(3) by (auto simp: index_ok_def)
  have ij: "i = j" "j < length P" using i(1) assms(4) line_of_Some(1) by auto
  have "get_next_token (prog s) p m = Some (TOKENIZER_NUMBER, q)" for m
    using get_next_token_stable(1) [of "prog s" p q TOKENIZER_NUMBER q m] i(2) by (simp add: stands_def)
  moreover let ?s = "s\<lparr>ptr := p, current_token := TOKENIZER_NUMBER, nextptr := q\<rparr>"
  have "at_toks ?s (prog_toks (drop j P))" using i(2,3) prog_toks_drop [OF ij(2)] ij(1) by (simp add: at_toks_def)
  ultimately show thesis using that [of ?s] Some by (simp add: jump_linenum_def tokenizer_goto_def moved_def)
qed

section \<open>Statements\<close>

lemma data_pc [simp]: "data_ok P s (a\<lparr>pc := j\<rparr>) \<longleftrightarrow> data_ok P s a"
  by (simp add: data_ok_def)

lemma at_nonempty: "at_toks s ts \<Longrightarrow> ts \<noteq> []"
  by (auto simp: at_toks_def)

text \<open>A jump of the machine is a jump of the interpreter.\<close>

lemma jump_matches:
  assumes "prog_ok P" "data_ok P s a" "\<not> halted a" "jump P k a = Some a'" "length (prog_toks P) \<le> n"
  shows "\<exists>s'. jump_linenum n k s = Ret s' \<and> matches P s' a'"
proof -
  obtain j where j: "line_of P k = Some j" "a' = a\<lparr>pc := j\<rparr>" using assms(4) by (auto simp: jump_def)
  have d: "text_of (prog s) P" "index_ok P s" using assms(2) by (simp_all add: data_ok_def)
  obtain s' where "jump_linenum n k s = Ret s'" "at_toks s' (prog_toks (drop j P))" "moved s s'" by (rule jump_at [OF assms(1) d j(1) assms(5)])
  then show ?thesis using data_moved [OF assms(2)] j(2) line_of_Some(1) [OF j(1)] by (auto simp: matches_def)
qed

lemma uint_of_nat_mod: "uint (of_nat x :: u8) = int (x mod 256)"
  using uint_of_int_mod [of "int x"] by (simp add: zmod_int)

lemma goto_correct:
  assumes "prog_ok P" "data_ok P s a" "\<not> halted a" "at_toks s (stmt_toks (Goto k) @ ts)" "exec P (Goto k) a = Some a'" "length (prog_toks P) \<le> n"
  shows "\<exists>s'. statement pf (Suc n) s = Ret s' \<and> matches P s' a'"
proof -
  have a: "at_toks s (K TOKENIZER_GOTO # N k # ts)" using assms(4) by simp
  obtain s1 where s1: "accept TOKENIZER_GOTO s = Some s1" "at_toks s1 (N k # ts)" "moved s s1" by (rule accept_at [OF a]) auto
  show ?thesis using jump_matches [OF assms(1) data_moved [OF assms(2) s1(3)] assms(3), of "int (k mod 256)"] assms(5,6)
      at_current [OF a] s1(1) num_at [OF s1(2)] by (simp add: goto_statement_def uint_of_nat_mod)
qed

lemma take_butlast_last:
  assumes "take (length xs) ys = xs" "xs \<noteq> []" "length xs \<le> length ys"
  shows "take (length xs - 1) ys = butlast xs" "peek ys (length xs - 1) = Some (last xs)"
proof -
  show "take (length xs - 1) ys = butlast xs" using assms(1) by (metis butlast_take assms(3))
  have "ys ! (length xs - 1) = xs ! (length xs - 1)" using assms(1,2) by (metis diff_less length_greater_0_conv less_one nth_take)
  moreover have "length xs - 1 < length ys" using assms(2,3) by (metis One_nat_def Suc_pred length_greater_0_conv less_eq_Suc_le)
  ultimately show "peek ys (length xs - 1) = Some (last xs)" using assms(2) by (simp add: peek_def last_conv_nth)
qed

lemma return_correct:
  assumes "prog_ok P" "data_ok P s a" "\<not> halted a" "at_toks s (stmt_toks Return @ ts)" "exec P Return a = Some a'" "length (prog_toks P) \<le> n"
  shows "\<exists>s'. statement pf (Suc n) s = Ret s' \<and> matches P s' a'"
proof -
  have a: "at_toks s (K TOKENIZER_RETURN # ts)" using assms(4) by simp
  obtain s1 where s1: "accept TOKENIZER_RETURN s = Some s1" "at_toks s1 ts" "moved s s1" by (rule accept_at [OF a]) auto
  note d1 = data_moved [OF assms(2) s1(3)]
  have r: "returns a \<noteq> []" "jump P (last (returns a)) (a\<lparr>returns := butlast (returns a)\<rparr>) = Some a'" using assms(5) by (auto split: if_splits)
  have g: "gosub_stack_ptr s1 = length (returns a)" "take (length (returns a)) (gosub_stack s1) = returns a" "length (returns a) \<le> length (gosub_stack s1)"
    using d1 by (simp_all add: data_ok_def)
  let ?s = "s1\<lparr>gosub_stack_ptr := gosub_stack_ptr s1 - 1\<rparr>"
  have "data_ok P ?s (a\<lparr>returns := butlast (returns a)\<rparr>)"
    using d1 take_butlast_last(1) [OF g(2) r(1) g(3)] by (auto simp: data_ok_def index_ok_def)
  then show ?thesis using jump_matches [OF assms(1) _ _ r(2) assms(6), of ?s] assms(3) take_butlast_last(2) [OF g(2) r(1) g(3)] g(1) r(1)
      at_current [OF a] s1(1) by (simp add: return_statement_def Let_def)
qed

lemma end_correct:
  assumes "data_ok P s a" "at_toks s (stmt_toks End @ ts)" "exec P End a = Some a'"
  shows "\<exists>s'. statement pf (Suc n) s = Ret s' \<and> matches P s' a'"
proof -
  have a: "at_toks s (K TOKENIZER_END # ts)" using assms(2) by simp
  obtain s1 where s1: "accept TOKENIZER_END s = Some s1" "at_toks s1 ts" "moved s s1" by (rule accept_at [OF a]) auto
  have "matches P (s1\<lparr>ended := True\<rparr>) a'"
    using data_moved [OF assms(1) s1(3)] assms(3) by (auto simp: matches_def data_ok_def index_ok_def)
  then show ?thesis using at_current [OF a] s1(1) by (simp add: end_statement_def)
qed

lemma leave_correct:
  assumes "leaves st" "prog_ok P" "data_ok P s a" "\<not> halted a" "at_toks s (stmt_toks st @ ts)" "exec P st a = Some a'" "length (prog_toks P) < n"
  shows "\<exists>s'. statement pf n s = Ret s' \<and> matches P s' a'"
proof -
  obtain m where n: "n = Suc m" "length (prog_toks P) \<le> m" using assms(7) by (cases n) auto
  show ?thesis
  proof (cases st)
    case (Goto k)
    then show ?thesis using goto_correct [OF assms(2-4) _ _ n(2), of k ts a'] assms(5,6) n(1) by auto
  next
    case Return
    then show ?thesis using return_correct [OF assms(2-4) _ _ n(2), of ts a'] assms(5,6) n(1) by auto
  next
    case End
    then show ?thesis using end_correct [OF assms(3), of ts a' pf m] assms(5,6) n(1) by auto
  qed (use assms(1) in simp_all)
qed

text \<open>Statements that go on with the next line: their state behind the newline.\<close>

definition next_line :: "basic \<Rightarrow> machine \<Rightarrow> tk list" where
  "next_line P a = prog_toks (drop (pc a + 1) P)"

lemma next_matches:
  assumes "data_ok P s a'" "at_toks s (next_line P a)" "pc a < length P" "pc a' = pc a + 1"
  shows "matches P s a'"
  using assms by (simp add: matches_def next_line_def)

lemma set_variable_data:
  assumes "data_ok P s a" "v < 26"
  shows "\<exists>s'. ubasic_set_variable (int v) x s = Some s' \<and> data_ok P s' (a\<lparr>vars := (vars a)[v := x]\<rparr>) \<and> s' = s\<lparr>variables := (vars a)[v := x]\<rparr>"
  using assms by (auto simp: ubasic_set_variable_def MAX_VARNUM_def data_ok_def poke_def index_ok_def)

lemma at_updates [simp]:
  "at_toks (s\<lparr>variables := vs\<rparr>) ts \<longleftrightarrow> at_toks s ts" "at_toks (s\<lparr>printed := x\<rparr>) ts \<longleftrightarrow> at_toks s ts"
  "at_toks (s\<lparr>strbuf := x\<rparr>) ts \<longleftrightarrow> at_toks s ts" "at_toks (s\<lparr>line_index := l\<rparr>) ts \<longleftrightarrow> at_toks s ts"
  "at_toks (s\<lparr>gosub_stack := g, gosub_stack_ptr := k\<rparr>) ts \<longleftrightarrow> at_toks s ts"
  "at_toks (s\<lparr>for_stack := f, for_stack_ptr := k\<rparr>) ts \<longleftrightarrow> at_toks s ts" "at_toks (s\<lparr>for_stack_ptr := k\<rparr>) ts \<longleftrightarrow> at_toks s ts"
  "at_toks (s\<lparr>for_stack := f\<rparr>) ts \<longleftrightarrow> at_toks s ts" "at_toks (s\<lparr>gosub_stack := g\<rparr>) ts \<longleftrightarrow> at_toks s ts"
  by (cases ts; simp add: at_toks_def)+

lemma no_op_cr: "no_op (tk_cr # ts)" "no_op (K TOKENIZER_TO # ts)" "no_rel (K TOKENIZER_THEN # ts)"
  by (simp_all add: no_op_def no_rel_def)

lemma let_correct:
  assumes "data_ok P s a" "at_toks s (stmt_toks (Let kw v e) @ tk_cr # next_line P a)" "exec P (Let kw v e) a = Some a'" "v < 26" "ex_fuel e < n" "pc a < length P"
  shows "\<exists>s'. statement pf (Suc n) s = Ret s' \<and> matches P s' a'"
proof -
  obtain x where x: "ex_value (vars a) e = Some x" "a' = a\<lparr>vars := (vars a)[v := of_int x], pc := pc a + 1\<rparr>" using assms(3) by auto
  obtain s0 where s0: "(if kw then accept TOKENIZER_LET s else Some s) = Some s0" "at_toks s0 (V v # K TOKENIZER_EQ # ex_toks e @ tk_cr # next_line P a)" "moved s s0"
  proof (cases kw)
    case True
    then show thesis using that assms(2) accept_at [of s "K TOKENIZER_LET" "V v # K TOKENIZER_EQ # ex_toks e @ tk_cr # next_line P a"] by auto
  qed (use that [of s] assms(2) in simp)
  obtain s1 where s1: "accept TOKENIZER_VARIABLE s0 = Some s1" "at_toks s1 (K TOKENIZER_EQ # ex_toks e @ tk_cr # next_line P a)" "moved s0 s1"
    by (rule accept_at [OF s0(2)]) auto
  obtain s2 where s2: "accept TOKENIZER_EQ s1 = Some s2" "at_toks s2 (ex_toks e @ tk_cr # next_line P a)" "moved s1 s2" by (rule accept_at [OF s1(2)]) auto
  have d2: "data_ok P s2 a" using data_moved assms(1) s0(3) s1(3) s2(3) by blast
  then have "ex_value (variables s2) e = Some x" using x(1) by (simp add: data_ok_def)
  then obtain s3 where s3: "expr n s2 = Ret (of_int x, s3)" "at_toks s3 (tk_cr # next_line P a)" "moved s2 s3"
    using expr_at [OF s2(2) _ no_op_cr(1) assms(5)] by metis
  obtain s4 where s4: "ubasic_set_variable (int v) (of_int x) s3 = Some s4" "data_ok P s4 (a\<lparr>vars := (vars a)[v := of_int x]\<rparr>)" "at_toks s4 (tk_cr # next_line P a)"
    using set_variable_data [OF data_moved [OF d2 s3(3)] assms(4), of "of_int x"] s3(2) by auto
  obtain s5 where s5: "accept TOKENIZER_CR s4 = Some s5" "at_toks s5 (next_line P a)" "moved s4 s5" by (rule accept_at [OF s4(3)]) auto
  have "let_statement n s0 = Ret s5" using var_at [OF s0(2)] s1(1) s2(1) s3(1) s4(1) s5(1) by (simp add: let_statement_def)
  then have "statement pf (Suc n) s = Ret s5" using s0(1) assms(2) at_current [OF s0(2)] by (cases kw) (auto simp: at_toks_def)
  moreover have "matches P s5 a'" by (rule next_matches [OF _ s5(2) assms(6)]) (use data_moved [OF s4(2) s5(3)] x(2) in simp_all)
  ultimately show ?thesis by blast
qed

text \<open>Pushing onto the stacks.\<close>

lemma take_push: "length xs < length ys \<Longrightarrow> take (length xs) ys = xs \<Longrightarrow> take (Suc (length xs)) (ys[length xs := x]) = xs @ [x]"
  by (simp add: take_Suc_conv_app_nth)

lemma gosub_correct:
  assumes "prog_ok P" "data_ok P s a" "\<not> halted a" "at_toks s (stmt_toks (Gosub k) @ tk_cr # next_line P a)" "exec P (Gosub k) a = Some a'"
    "length (prog_toks P) \<le> n" "pc a < length P"
  shows "\<exists>s'. statement pf (Suc n) s = Ret s' \<and> matches P s' a'"
proof -
  have a: "at_toks s (K TOKENIZER_GOSUB # N k # tk_cr # next_line P a)" using assms(4) by simp
  obtain s1 where s1: "accept TOKENIZER_GOSUB s = Some s1" "at_toks s1 (N k # tk_cr # next_line P a)" "moved s s1" by (rule accept_at [OF a]) auto
  obtain s2 where s2: "accept TOKENIZER_NUMBER s1 = Some s2" "at_toks s2 (tk_cr # next_line P a)" "moved s1 s2" by (rule accept_at [OF s1(2)]) auto
  obtain s3 where s3: "accept TOKENIZER_CR s2 = Some s3" "at_toks s3 (next_line P a)" "moved s2 s3" by (rule accept_at [OF s2(2)]) auto
  have d3: "data_ok P s3 a" using data_moved assms(2) s1(3) s2(3) s3(3) by blast
  then have g: "gosub_stack_ptr s3 = length (returns a)" "length (gosub_stack s3) = MAX_GOSUB_STACK_DEPTH" "take (length (returns a)) (gosub_stack s3) = returns a"
    by (simp_all add: data_ok_def)
  have st: "statement pf (Suc n) s = (if gosub_stack_ptr s3 < MAX_GOSUB_STACK_DEPTH
     then bindo (opt (do {
         r \<leftarrow> tokenizer_num s3;
         st \<leftarrow> poke (gosub_stack s3) (gosub_stack_ptr s3) (uint r);
         Some (s3\<lparr>gosub_stack := st, gosub_stack_ptr := gosub_stack_ptr s3 + 1\<rparr>)
       })) (jump_linenum n (int (k mod 256)))
     else Ret s3)"
    using at_current [OF a] s1(1) num_at [OF s1(2)] s2(1) s3(1) by (simp add: gosub_statement_def uint_of_nat_mod)
  show ?thesis
  proof (cases "length (returns a) < MAX_GOSUB_STACK_DEPTH")
    case True
    obtain r where r: "tokenizer_num s3 = Some r" "uint r = number_after P (pc a)" using number_after_at [OF s3(2) [unfolded next_line_def] assms(7)] by blast
    let ?s = "s3\<lparr>gosub_stack := (gosub_stack s3)[length (returns a) := uint r], gosub_stack_ptr := gosub_stack_ptr s3 + 1\<rparr>"
    have "data_ok P ?s (a\<lparr>returns := returns a @ [number_after P (pc a)]\<rparr>)"
      using d3 True g take_push [of "returns a" "gosub_stack s3" "uint r"] r(2) by (auto simp: data_ok_def index_ok_def)
    then show ?thesis using jump_matches [OF assms(1) _ _ _ assms(6), of ?s] assms(3,5) True g r st by (simp add: poke_def)
  next
    case False
    then have "a' = a\<lparr>pc := pc a + 1\<rparr>" using assms(5) by simp
    then show ?thesis using st g(1) False next_matches [OF _ s3(2) assms(7), of a'] d3 by simp
  qed
qed

lemma for_correct:
  assumes "data_ok P s a" "at_toks s (stmt_toks (For v e e') @ tk_cr # next_line P a)" "exec P (For v e e') a = Some a'" "v < 26"
    "ex_fuel e < n" "ex_fuel e' < n" "pc a < length P"
  shows "\<exists>s'. statement pf (Suc n) s = Ret s' \<and> matches P s' a'"
proof -
  let ?r = "tk_cr # next_line P a"
  obtain x y where x: "ex_value (vars a) e = Some x" and y: "ex_value ((vars a)[v := of_int x]) e' = Some y" using assms(3) by (auto simp: bind_Some_iff Let_def)
  define a1 where "a1 = a\<lparr>vars := (vars a)[v := of_int x]\<rparr>"
  have a: "at_toks s (K TOKENIZER_FOR # V v # K TOKENIZER_EQ # ex_toks e @ K TOKENIZER_TO # ex_toks e' @ ?r)" using assms(2) by simp
  obtain s1 where s1: "accept TOKENIZER_FOR s = Some s1" "at_toks s1 (V v # K TOKENIZER_EQ # ex_toks e @ K TOKENIZER_TO # ex_toks e' @ ?r)" "moved s s1"
    by (rule accept_at [OF a]) auto
  obtain s2 where s2: "accept TOKENIZER_VARIABLE s1 = Some s2" "at_toks s2 (K TOKENIZER_EQ # ex_toks e @ K TOKENIZER_TO # ex_toks e' @ ?r)" "moved s1 s2"
    by (rule accept_at [OF s1(2)]) auto
  obtain s3 where s3: "accept TOKENIZER_EQ s2 = Some s3" "at_toks s3 (ex_toks e @ K TOKENIZER_TO # ex_toks e' @ ?r)" "moved s2 s3"
    by (rule accept_at [OF s2(2)]) auto
  have d3: "data_ok P s3 a" using data_moved assms(1) s1(3) s2(3) s3(3) by blast
  then have "ex_value (variables s3) e = Some x" using x by (simp add: data_ok_def)
  then obtain s4 where s4: "expr n s3 = Ret (of_int x, s4)" "at_toks s4 (K TOKENIZER_TO # ex_toks e' @ ?r)" "moved s3 s4"
    using expr_at [OF s3(2) _ no_op_cr(2) assms(5)] by metis
  obtain s5 where s5: "ubasic_set_variable (int v) (of_int x) s4 = Some s5" "data_ok P s5 a1" "at_toks s5 (K TOKENIZER_TO # ex_toks e' @ ?r)"
    using set_variable_data [OF data_moved [OF d3 s4(3)] assms(4), of "of_int x"] s4(2) unfolding a1_def by auto
  obtain s6 where s6: "accept TOKENIZER_TO s5 = Some s6" "at_toks s6 (ex_toks e' @ ?r)" "moved s5 s6" by (rule accept_at [OF s5(3)]) auto
  have d6: "data_ok P s6 a1" by (rule data_moved [OF s5(2) s6(3)])
  then have "ex_value (variables s6) e' = Some y" using y by (simp add: data_ok_def a1_def)
  then obtain s7 where s7: "expr n s6 = Ret (of_int y, s7)" "at_toks s7 ?r" "moved s6 s7" using expr_at [OF s6(2) _ no_op_cr(1) assms(6)] by metis
  obtain s8 where s8: "accept TOKENIZER_CR s7 = Some s8" "at_toks s8 (next_line P a)" "moved s7 s8" by (rule accept_at [OF s7(2)]) auto
  have d8: "data_ok P s8 a1" using data_moved d6 s7(3) s8(3) by blast
  then have g: "for_stack_ptr s8 = length (fors a)" "length (for_stack s8) = MAX_FOR_STACK_DEPTH" "take (length (fors a)) (for_stack s8) = fors a"
    by (simp_all add: data_ok_def a1_def)
  obtain k where k: "tokenizer_num s8 = Some k" "uint k = number_after P (pc a)" using number_after_at [OF s8(2) [unfolded next_line_def] assms(7)] by blast
  have st: "statement pf (Suc n) s = opt (if for_stack_ptr s8 < MAX_FOR_STACK_DEPTH
       then do {
         st \<leftarrow> poke (for_stack s8) (for_stack_ptr s8) \<lparr>line_after_for = uint k, for_variable = int v, for_to = uint (of_int y :: u8)\<rparr>;
         Some (s8\<lparr>for_stack := st, for_stack_ptr := for_stack_ptr s8 + 1\<rparr>)
       } else Some s8)"
    using at_current [OF a] s1(1) var_at [OF s1(2)] s2(1) s3(1) s4(1) s5(1) s6(1) s7(1) s8(1) k(1) by (simp add: for_statement_def)
  show ?thesis
  proof (cases "length (fors a) < MAX_FOR_STACK_DEPTH")
    case True
    let ?f = "\<lparr>line_after_for = uint k, for_variable = int v, for_to = uint (of_int y :: u8)\<rparr>"
    let ?s = "s8\<lparr>for_stack := (for_stack s8)[length (fors a) := ?f], for_stack_ptr := for_stack_ptr s8 + 1\<rparr>"
    have "data_ok P ?s (a1\<lparr>fors := fors a @ [?f]\<rparr>)"
      using d8 True g take_push [of "fors a" "for_stack s8" ?f] by (auto simp: data_ok_def index_ok_def a1_def)
    moreover have "a' = a1\<lparr>fors := fors a @ [?f], pc := pc a + 1\<rparr>"
      using assms(3) x y True k(2) uint_of_int_mod [of y] by (simp add: a1_def Let_def)
    ultimately have "matches P ?s a'" using next_matches [of P ?s a' a] s8(2) assms(7) by simp
    then show ?thesis using st g True by (auto simp: poke_def)
  next
    case False
    then have "a' = a1\<lparr>pc := pc a + 1\<rparr>" using assms(3) x y by (simp add: a1_def Let_def)
    then show ?thesis using st g(1) False next_matches [OF _ s8(2) assms(7), of a'] d8 by simp
  qed
qed

lemma skip_newline:
  assumes "at_toks s (tk_cr # next_line P a)" "data_ok P s b" "pc a < length P"
  shows "\<exists>s'. accept TOKENIZER_CR s = Some s' \<and> matches P s' (b\<lparr>pc := pc a + 1\<rparr>)"
proof -
  obtain s' where s': "accept TOKENIZER_CR s = Some s'" "at_toks s' (next_line P a)" "moved s s'" by (rule accept_at [OF assms(1)]) auto
  then show ?thesis using next_matches [OF _ s'(2) assms(3), of "b\<lparr>pc := pc a + 1\<rparr>"] data_moved [OF assms(2) s'(3)] by auto
qed

lemma next_correct:
  assumes "prog_ok P" "data_ok P s a" "\<not> halted a" "at_toks s (stmt_toks (Next v) @ tk_cr # next_line P a)" "exec P (Next v) a = Some a'"
    "v < 26" "length (prog_toks P) \<le> n" "pc a < length P"
  shows "\<exists>s'. statement pf (Suc n) s = Ret s' \<and> matches P s' a'"
proof -
  have a: "at_toks s (K TOKENIZER_NEXT # V v # tk_cr # next_line P a)" using assms(4) by simp
  obtain s1 where s1: "accept TOKENIZER_NEXT s = Some s1" "at_toks s1 (V v # tk_cr # next_line P a)" "moved s s1" by (rule accept_at [OF a]) auto
  obtain s2 where s2: "accept TOKENIZER_VARIABLE s1 = Some s2" "at_toks s2 (tk_cr # next_line P a)" "moved s1 s2" by (rule accept_at [OF s1(2)]) auto
  have d2: "data_ok P s2 a" using data_moved assms(2) s1(3) s2(3) by blast
  have g: "for_stack_ptr s2 = length (fors a)" "take (length (fors a)) (for_stack s2) = fors a" "length (fors a) \<le> length (for_stack s2)"
    "variables s2 = vars a" "length (vars a) = 26"
    using d2 by (simp_all add: data_ok_def)
  have st: "statement pf (Suc n) s = bindo (opt (if for_stack_ptr s2 > 0 then map_option Some (peek (for_stack s2) (for_stack_ptr s2 - 1)) else Some None)) (\<lambda>f.
     case f of None \<Rightarrow> opt (accept TOKENIZER_CR s2)
     | Some f \<Rightarrow>
       if int v = for_variable f
       then bindo (opt (do { x \<leftarrow> ubasic_get_variable (int v) s2; s \<leftarrow> ubasic_set_variable (int v) (x + 1) s2; x \<leftarrow> ubasic_get_variable (int v) s; Some (x, s) })) (\<lambda>(x, s).
         if uint x \<le> for_to f then jump_linenum n (line_after_for f) s
         else opt (accept TOKENIZER_CR (s\<lparr>for_stack_ptr := for_stack_ptr s - 1\<rparr>)))
       else opt (accept TOKENIZER_CR s2))"
    using at_current [OF a] s1(1) var_at [OF s1(2)] s2(1) by (simp add: next_statement_def)
  show ?thesis
  proof (cases "fors a \<noteq> [] \<and> for_variable (last (fors a)) = int v")
    case False
    then have "a' = a\<lparr>pc := pc a + 1\<rparr>" using assms(5) by (auto split: if_splits)
    moreover have "statement pf (Suc n) s = opt (accept TOKENIZER_CR s2)"
      using False st g(1) take_butlast_last(2) [OF g(2) _ g(3)] by (cases "fors a = []") auto
    ultimately show ?thesis using skip_newline [OF s2(2) d2 assms(8)] by auto
  next
    case True
    let ?x = "vars a ! v + 1" let ?f = "last (fors a)"
    obtain s3 where s3: "ubasic_set_variable (int v) ?x s2 = Some s3" "data_ok P s3 (a\<lparr>vars := (vars a)[v := ?x]\<rparr>)" "s3 = s2\<lparr>variables := (vars a)[v := ?x]\<rparr>"
      using set_variable_data [OF d2 assms(6), of ?x] by auto
    have "ubasic_get_variable (int v) s3 = Some ?x" using get_variable_at [OF assms(6), of s3] s3(3) g(5) assms(6) by (simp add: peek_def)
    then have st: "statement pf (Suc n) s = (if uint ?x \<le> for_to ?f then jump_linenum n (line_after_for ?f) s3
        else opt (accept TOKENIZER_CR (s3\<lparr>for_stack_ptr := for_stack_ptr s3 - 1\<rparr>)))"
      using True st g(1,4,5) take_butlast_last(2) [OF g(2) _ g(3)] s3(1) get_variable_at [OF assms(6), of s2] assms(6) by (simp add: peek_def)
    show ?thesis
    proof (cases "uint ?x \<le> for_to ?f")
      case le: True
      then show ?thesis using jump_matches [OF assms(1) s3(2) _ _ assms(7), of "line_after_for ?f" a'] assms(3,5) True st by (auto simp: Let_def)
    next
      case gt: False
      let ?b = "a\<lparr>vars := (vars a)[v := ?x], fors := butlast (fors a)\<rparr>"
      have "data_ok P (s3\<lparr>for_stack_ptr := for_stack_ptr s3 - 1\<rparr>) ?b"
        using s3(2,3) g(1) take_butlast_last(1) [OF g(2) _ g(3)] True by (auto simp: data_ok_def index_ok_def)
      moreover have "at_toks (s3\<lparr>for_stack_ptr := for_stack_ptr s3 - 1\<rparr>) (tk_cr # next_line P a)" using s2(2) s3(3) by simp
      moreover have "a' = ?b\<lparr>pc := pc a + 1\<rparr>" using assms(5) True gt by (simp add: Let_def)
      ultimately show ?thesis using skip_newline [OF _ _ assms(8), of "s3\<lparr>for_stack_ptr := for_stack_ptr s3 - 1\<rparr>" ?b] st gt by auto
    qed
  qed
qed

end
