(* ===== verification/Ubasic_Run.thy ===== *)
theory Ubasic_Run
  imports Ubasic_Stmt
begin

unbundle bit_operations_syntax

text \<open>
  Running a BASIC program: printing and branches, and that the interpreter, which works on the text,
  does what the abstract machine does on the lines.
\<close>

section \<open>Printing and branches\<close>

text \<open>Printing.\<close>

fun item_fuel :: "item \<Rightarrow> nat" where
  "item_fuel (Value e) = ex_fuel e + 1" | "item_fuel _ = 1"

definition items_fuel :: "item list \<Rightarrow> nat" where
  "items_fuel is = sum_list (map item_fuel is) + 1"

lemma hd_ex_toks: "fac_toks f \<noteq> [] \<and> tok_of (hd (fac_toks f)) \<in> {TOKENIZER_NUMBER, TOKENIZER_VARIABLE, TOKENIZER_LEFTPAREN}"
  "tm_toks t \<noteq> [] \<and> tok_of (hd (tm_toks t)) \<in> {TOKENIZER_NUMBER, TOKENIZER_VARIABLE, TOKENIZER_LEFTPAREN}"
  "ex_toks e \<noteq> [] \<and> tok_of (hd (ex_toks e)) \<in> {TOKENIZER_NUMBER, TOKENIZER_VARIABLE, TOKENIZER_LEFTPAREN}"
  by (induction f and t and e) auto

lemma no_op_items: "list_all item_ok is \<Longrightarrow> no_op (concat (map item_toks is) @ tk_cr # ts)"
proof (cases "is")
  case (Cons i js)
  have "no_op (ex_toks e @ us)" for e us using hd_ex_toks(3) [of e] by (auto simp: no_op_def)
  then show ?thesis using Cons by (cases i) (auto simp: no_op_def)
qed (simp add: no_op_def)

lemma string_at:
  assumes "at_toks s (S x # ts)" "length x < MAX_STRINGLEN" "length (strbuf s) = MAX_STRINGLEN"
  obtains b where "tokenizer_string s = Some (s\<lparr>strbuf := b\<rparr>)" "c_str b = Some x" "length b = MAX_STRINGLEN"
proof -
  obtain str where str: "c_str (drop (ptr s + 1) (prog s)) = Some str" "0x22 \<in> set str" "takeWhile (\<lambda>c. c \<noteq> 0x22) str = x"
    using assms(1) by (auto simp: at_toks_def stands_def payload_def split: option.splits)
  have x0: "0 \<notin> set x" using c_str_Some [OF str(1)] str(3) set_takeWhileD by metis
  have t: "take MAX_STRINGLEN (takeWhile (\<lambda>c. c \<noteq> 0x22) str) = x" using str(3) assms(2) by simp
  let ?b = "(x @ 0 # drop (length x + 1) (strbuf s))"
  have "memcpy_in (strbuf s) 0 (x @ [0]) = Some ?b" using assms(2,3) by (simp add: memcpy_in_def)
  then have "do { b \<leftarrow> memcpy_in (strbuf s) 0 x; poke b (length x) 0 } = Some ?b"
    using memcpy_in_append [of "strbuf s" 0 x "[0]"] by (simp add: poke_memcpy)
  then have "tokenizer_string s = Some (s\<lparr>strbuf := ?b\<rparr>)"
    using at_current [OF assms(1)] str(1,2) t by (auto simp: tokenizer_string_def Let_def bind_Some_iff)
  then show thesis using that c_str_append [OF x0] assms(2,3) by simp
qed

text \<open>What printing changes.\<close>

definition printed_more :: "u8 list \<Rightarrow> ubasic \<Rightarrow> ubasic \<Rightarrow> bool" where
  "printed_more x s s' \<longleftrightarrow> (\<exists>b. length b = length (strbuf s) \<and> moved (printf x (s\<lparr>strbuf := b\<rparr>)) s')"

lemma printed_more_simps:
  assumes "printed_more x s s'"
  shows "prog s' = prog s" "length (strbuf s') = length (strbuf s)" "gosub_stack s' = gosub_stack s" "gosub_stack_ptr s' = gosub_stack_ptr s"
    "for_stack s' = for_stack s" "for_stack_ptr s' = for_stack_ptr s" "line_index s' = line_index s" "variables s' = variables s"
    "ended s' = ended s" "printed s' = printed s @ x" "pokes s' = pokes s"
proof -
  obtain b where b: "length b = length (strbuf s)" "moved (printf x (s\<lparr>strbuf := b\<rparr>)) s'" using assms by (auto simp: printed_more_def)
  show "prog s' = prog s" "length (strbuf s') = length (strbuf s)" "gosub_stack s' = gosub_stack s" "gosub_stack_ptr s' = gosub_stack_ptr s"
    "for_stack s' = for_stack s" "for_stack_ptr s' = for_stack_ptr s" "line_index s' = line_index s" "variables s' = variables s"
    "ended s' = ended s" "printed s' = printed s @ x" "pokes s' = pokes s"
    using moved_simps [OF b(2)] b(1) by (simp_all add: printf_def)
qed

lemma printed_more_data: "data_ok P s a \<Longrightarrow> printed_more x s s' \<Longrightarrow> data_ok P s' (a\<lparr>screen := screen a @ x\<rparr>)"
  by (simp add: printed_more_simps data_ok_def index_ok_def)

lemma printed_more_trans:
  assumes "printed_more x s s'" "printed_more y s' s''"
  shows "printed_more (x @ y) s s''"
proof -
  obtain b where b: "length b = length (strbuf s)" "moved (printf x (s\<lparr>strbuf := b\<rparr>)) s'" using assms(1) by (auto simp: printed_more_def)
  obtain c where c: "length c = length (strbuf s')" "moved (printf y (s'\<lparr>strbuf := c\<rparr>)) s''" using assms(2) by (auto simp: printed_more_def)
  have "moved (printf (x @ y) (s\<lparr>strbuf := c\<rparr>)) (printf y (s'\<lparr>strbuf := c\<rparr>))"
    using b(2) unfolding moved_def printf_def by (cases s; cases s') simp
  then show ?thesis using moved_trans c printed_more_simps(2) [OF assms(1)] unfolding printed_more_def by auto
qed

lemma print_loop_step:
  assumes "0 < n"
  shows "print_loop (Suc n) s =
     (if current_token s = TOKENIZER_STRING
      then bindo (opt (do { s \<leftarrow> tokenizer_string s; str \<leftarrow> c_str (strbuf s); tokenizer_next (printf str s) })) (print_loop n)
      else if current_token s = TOKENIZER_COMMA then bindo (opt (tokenizer_next (printf [0x20] s))) (print_loop n)
      else if current_token s = TOKENIZER_SEMICOLON then bindo (opt (tokenizer_next s)) (print_loop n)
      else if current_token s \<in> {TOKENIZER_VARIABLE, TOKENIZER_NUMBER}
      then bindo (expr n s) (\<lambda>(v, s). print_loop n (printf (dec_nat (unat v)) s))
      else Ret s)"
proof -
  have "(if current_token s \<notin> {TOKENIZER_CR, TOKENIZER_ENDOFINPUT} then print_loop n s else Ret s) = print_loop n s" for s
    using assms by (cases n) (auto simp: Let_def)
  then show ?thesis by (simp only: print_loop.simps Let_def)
qed

lemma printed_moreI: "length b = length (strbuf s) \<Longrightarrow> moved (printf x (s\<lparr>strbuf := b\<rparr>)) s' \<Longrightarrow> printed_more x s s'"
  by (auto simp: printed_more_def)

lemma printf_same: "printf x (s\<lparr>strbuf := strbuf s\<rparr>) = printf x s" "printf [] s = s"
  by (cases s; simp add: printf_def)+

lemma at_printf [simp]: "at_toks (printf x s) ts \<longleftrightarrow> at_toks s ts"
  by (simp add: printf_def)

lemma print_item:
  assumes "at_toks s (item_toks i @ ts)" "item_ok i" "item_text (variables s) i = Some x" "no_op ts" "item_fuel i \<le> n" "length (strbuf s) = MAX_STRINGLEN"
  shows "\<exists>s'. print_loop (Suc n) s = print_loop n s' \<and> at_toks s' ts \<and> printed_more x s s'"
proof -
  have "0 < n" using assms(5) by (cases i) auto
  note step = print_loop_step [OF this, of s]
  show ?thesis
proof (cases i)
  case (Text y)
  then have a: "at_toks s (S y # ts)" using assms(1) by simp
  obtain b where b: "tokenizer_string s = Some (s\<lparr>strbuf := b\<rparr>)" "c_str b = Some y" "length b = MAX_STRINGLEN"
    using string_at [OF a _ assms(6)] assms(2) Text by auto
  have "at_toks (printf y (s\<lparr>strbuf := b\<rparr>)) (S y # ts)" using a by simp
  then obtain s' where s': "tokenizer_next (printf y (s\<lparr>strbuf := b\<rparr>)) = Some s'" "at_toks s' ts" "moved (printf y (s\<lparr>strbuf := b\<rparr>)) s'" by (rule next_at) auto
  then have "print_loop (Suc n) s = print_loop n s'" using at_current [OF a] b by (simp add: step del: print_loop.simps)
  then show ?thesis using s' printed_moreI [OF _ s'(3)] b(3) assms(3,6) Text by auto
next
  case Comma
  then have a: "at_toks s (K TOKENIZER_COMMA # ts)" using assms(1) by simp
  then have "at_toks (printf [0x20] s) (K TOKENIZER_COMMA # ts)" by simp
  then obtain s' where s': "tokenizer_next (printf [0x20] s) = Some s'" "at_toks s' ts" "moved (printf [0x20] s) s'" by (rule next_at) auto
  then have "print_loop (Suc n) s = print_loop n s'" using at_current [OF a] by (simp add: step del: print_loop.simps)
  then show ?thesis using s' printed_moreI [of "strbuf s" s "[0x20]" s'] assms(3) Comma by (auto simp: printf_same)
next
  case Semicolon
  then have a: "at_toks s (K TOKENIZER_SEMICOLON # ts)" using assms(1) by simp
  obtain s' where s': "tokenizer_next s = Some s'" "at_toks s' ts" "moved s s'" by (rule next_at [OF a]) auto
  then have "print_loop (Suc n) s = print_loop n s'" using at_current [OF a] by (simp add: step del: print_loop.simps)
  then show ?thesis using s' printed_moreI [of "strbuf s" s "[]" s'] assms(3) Semicolon by (auto simp: printf_same)
next
  case (Value e)
  then have a: "at_toks s (ex_toks e @ ts)" using assms(1) by simp
  obtain z where z: "ex_value (variables s) e = Some z" "x = dec_nat (nat (z mod 256))" using assms(3) Value by auto
  have c: "current_token s \<in> {TOKENIZER_NUMBER, TOKENIZER_VARIABLE}"
    using hd_ex_toks(3) [of e] assms(2) Value a at_current [of s "hd (ex_toks e)" "tl (ex_toks e) @ ts"] by (cases "ex_toks e") auto
  have f: "ex_fuel e < n" using assms(5) Value by simp
  obtain s' where s': "expr n s = Ret (of_int z, s')" "at_toks s' ts" "moved s s'" using expr_at [OF a z(1) assms(4) f] by metis
  have "unat (of_int z :: u8) = nat (z mod 256)" using uint_of_int_mod [of z] by (simp add: unat_eq_nat_uint)
  then have l: "print_loop (Suc n) s = print_loop n (printf x s')" using c s'(1) z(2) by (auto simp: step simp del: print_loop.simps)
  have "moved (printf x s) (printf x s')" using s'(3) unfolding moved_def printf_def by (cases s; cases s') simp
  then have "printed_more x s (printf x s')" using printed_moreI [of "strbuf s" s x] by (simp add: printf_same)
  then show ?thesis using l s'(2) by (intro exI [of _ "printf x s'"]) simp
qed
qed

lemma print_items:
  assumes "at_toks s (concat (map item_toks is) @ tk_cr # ts)" "list_all item_ok is" "items_text (variables s) is = Some x" "items_fuel is \<le> n"
    "length (strbuf s) = MAX_STRINGLEN"
  shows "\<exists>s'. print_loop n s = Ret s' \<and> at_toks s' (tk_cr # ts) \<and> printed_more x s s'"
  using assms
proof (induction "is" arbitrary: s x n)
  case Nil
  obtain m where n: "n = Suc m" using Nil.prems(4) by (cases n) (auto simp: items_fuel_def)
  have "printed_more [] s s" using printed_moreI [of "strbuf s" s "[]" s] by (simp add: printf_same)
  then show ?case using Nil.prems at_current [of s tk_cr ts] n by (simp add: Let_def)
next
  case (Cons i "is")
  obtain y z where y: "item_text (variables s) i = Some y" "items_text (variables s) is = Some z" "x = y @ z" using Cons.prems(3) by (auto simp: bind_Some_iff)
  have "0 < item_fuel i" by (cases i) auto
  then obtain m where n: "n = Suc m" "item_fuel i \<le> m" "items_fuel is \<le> m" using Cons.prems(4) by (cases n) (auto simp: items_fuel_def)
  have a: "at_toks s (item_toks i @ concat (map item_toks is) @ tk_cr # ts)" and o: "item_ok i" "list_all item_ok is" using Cons.prems(1,2) by auto
  obtain s1 where s1: "print_loop (Suc m) s = print_loop m s1" "at_toks s1 (concat (map item_toks is) @ tk_cr # ts)" "printed_more y s s1"
    using print_item [OF a o(1) y(1) no_op_items [OF o(2)] n(2) Cons.prems(5)] by blast
  have v: "variables s1 = variables s" "length (strbuf s1) = MAX_STRINGLEN"
    using printed_more_simps [OF s1(3)] Cons.prems(5) by simp_all
  obtain s2 where s2: "print_loop m s1 = Ret s2" "at_toks s2 (tk_cr # ts)" "printed_more z s1 s2"
    using Cons.IH [OF s1(2) o(2) _ n(3) v(2)] y(2) v(1) by auto
  show ?case using n(1) s1(1) s2 printed_more_trans [OF s1(3) s2(3)] y(3) by auto
qed

lemma print_correct:
  assumes "data_ok P s a" "at_toks s (stmt_toks (Print is) @ tk_cr # next_line P a)" "exec P (Print is) a = Some a'" "list_all item_ok is" "items_fuel is \<le> n"
    "pc a < length P"
  shows "\<exists>s'. statement pf (Suc n) s = Ret s' \<and> matches P s' a'"
proof -
  obtain x where x: "items_text (vars a) is = Some x" "a' = a\<lparr>screen := screen a @ x @ [10], pc := pc a + 1\<rparr>" using assms(3) by auto
  have a: "at_toks s (K TOKENIZER_PRINT # concat (map item_toks is) @ tk_cr # next_line P a)" using assms(2) by simp
  obtain s1 where s1: "accept TOKENIZER_PRINT s = Some s1" "at_toks s1 (concat (map item_toks is) @ tk_cr # next_line P a)" "moved s s1"
    by (rule accept_at [OF a]) auto
  note d1 = data_moved [OF assms(1) s1(3)]
  obtain s2 where s2: "print_loop n s1 = Ret s2" "at_toks s2 (tk_cr # next_line P a)" "printed_more x s1 s2"
    using print_items [OF s1(2) assms(4) _ assms(5), of x] d1 x(1) by (auto simp: data_ok_def)
  have "at_toks (printf [10] s2) (tk_cr # next_line P a)" using s2(2) by simp
  then obtain s3 where s3: "tokenizer_next (printf [10] s2) = Some s3" "at_toks s3 (next_line P a)" "moved (printf [10] s2) s3" by (rule next_at) auto
  have "printed_more [10] s2 s3" using printed_moreI [of "strbuf s2" s2 "[10]" s3] s3(3) by (simp add: printf_same)
  then have "data_ok P s3 (a\<lparr>screen := screen a @ x @ [10]\<rparr>)" using printed_more_data [OF d1 printed_more_trans [OF s2(3)]] by simp
  then have "matches P s3 a'" using next_matches [OF _ s3(2) assms(6), of a'] x(2) by simp
  then show ?thesis using at_current [OF a] s1(1) s2(1) s3(1) by (simp add: print_stmt_def)
qed

text \<open>Branches.\<close>

lemma ex_no_else: "K TOKENIZER_ELSE \<notin> set (fac_toks f)" "K TOKENIZER_ELSE \<notin> set (tm_toks t)" "K TOKENIZER_ELSE \<notin> set (ex_toks e)"
proof (induction f and t and e)
  case (Mul t m f)
  then show ?case by (cases m) auto
next
  case (Add e a t)
  then show ?case by (cases a) auto
qed auto

lemma rel_no_else: "K TOKENIZER_ELSE \<notin> set (rel_toks r)"
proof (induction r)
  case (Cmp r c e)
  then show ?case using ex_no_else(3) [of e] by (cases c) auto
qed (simp add: ex_no_else)

lemma item_no_else: "K TOKENIZER_ELSE \<notin> set (item_toks i)"
  by (cases i) (simp_all add: ex_no_else)

lemma stmt_no_else: "no_else st \<Longrightarrow> K TOKENIZER_ELSE \<notin> set (stmt_toks st)"
  by (induction st) (auto simp: item_no_else rel_no_else ex_no_else)

lemma stmt_toks_Cons: "\<exists>t ts. stmt_toks st = t # ts"
  by (cases st) auto

lemma leaves_no_else: "leaves st \<Longrightarrow> no_else st"
  by (cases st) auto

lemma skip_branch_at:
  assumes "at_toks s (t # ts @ u # us)" "inside (t # ts)" "K TOKENIZER_ELSE \<notin> set (t # ts)" "tok_of u \<in> {TOKENIZER_ELSE, TOKENIZER_CR}" "length ts < n"
  shows "\<exists>s'. skip_branch n s = Ret s' \<and> at_toks s' (u # us) \<and> moved s s'"
  using assms
proof (induction ts arbitrary: s t n)
  case Nil
  obtain m where n: "n = Suc m" using Nil.prems(5) by (cases n) auto
  have "t \<noteq> tk_end" using Nil.prems(2) by auto
  then obtain s' where s': "tokenizer_next s = Some s'" "at_toks s' (u # us)" "moved s s'" using next_at [of s t "u # us"] Nil.prems(1) by auto
  then show ?case using n at_current [OF s'(2)] Nil.prems(4) by auto
next
  case (Cons v ts)
  obtain m where n: "n = Suc m" "length ts < m" using Cons.prems(5) by (cases n) auto
  have "t \<noteq> tk_end" using Cons.prems(2) by auto
  then obtain s' where s': "tokenizer_next s = Some s'" "at_toks s' (v # ts @ u # us)" "moved s s'"
    using next_at [of s t "v # ts @ u # us"] Cons.prems(1) by auto
  have "tok_of v \<noteq> TOKENIZER_ELSE" using Cons.prems(3) by (cases v) auto
  moreover obtain s'' where "skip_branch m s' = Ret s''" "at_toks s'' (u # us)" "moved s' s''"
    using Cons.IH [OF s'(2) _ _ Cons.prems(4) n(2)] Cons.prems(2,3) by auto
  ultimately show ?case using n(1) s' at_current [OF s'(2)] Cons.prems(2) moved_trans by auto
qed

lemma skip_stmt:
  assumes "at_toks s (stmt_toks st @ u # us)" "no_else st" "tok_of u \<in> {TOKENIZER_ELSE, TOKENIZER_CR}" "length (stmt_toks st) \<le> n"
  shows "\<exists>s'. skip_branch n s = Ret s' \<and> at_toks s' (u # us) \<and> moved s s'"
proof -
  obtain t ts where "stmt_toks st = t # ts" using stmt_toks_Cons by blast
  then show ?thesis using skip_branch_at [of s t ts u us n] assms stmt_inside [of st] stmt_no_else [OF assms(2)] by auto
qed

lemma if_at:
  assumes "data_ok P s a" "at_toks s (K TOKENIZER_IF # rel_toks r @ K TOKENIZER_THEN # ts)" "rel_value (vars a) r = Some v" "rel_fuel r \<le> n"
  obtains s' where "statement pf (Suc (Suc n)) s = (if v \<noteq> 0 then statement pf n s'
      else bindo (skip_branch n s') (\<lambda>s.
        if current_token s = TOKENIZER_ELSE then bindo (opt (tokenizer_next s)) (statement pf n)
        else if current_token s = TOKENIZER_CR then opt (tokenizer_next s) else Ret s))"
    "data_ok P s' a" "at_toks s' ts"
proof -
  obtain s1 where s1: "accept TOKENIZER_IF s = Some s1" "at_toks s1 (rel_toks r @ K TOKENIZER_THEN # ts)" "moved s s1" by (rule accept_at [OF assms(2)]) auto
  have "rel_value (variables s1) r = Some v" using assms(1,3) moved_simps(8) [OF s1(3)] by (simp add: data_ok_def)
  then obtain s2 where s2: "relation n s1 = Ret (v, s2)" "at_toks s2 (K TOKENIZER_THEN # ts)" "moved s1 s2"
    using relation_at [OF s1(2) _ assms(4) no_op_cr(3)] by metis
  obtain s3 where s3: "accept TOKENIZER_THEN s2 = Some s3" "at_toks s3 ts" "moved s2 s3" by (rule accept_at [OF s2(2)]) auto
  show thesis by (rule that [OF _ _ s3(2)]) (use data_moved [OF data_moved [OF data_moved [OF assms(1) s1(3)] s2(3)] s3(3)] s1 s2 s3 at_current [OF assms(2)] in auto)
qed

fun stmt_fuel :: "stmt \<Rightarrow> nat" where
  "stmt_fuel (Print is) = items_fuel is"
| "stmt_fuel (If r st) = rel_fuel r + stmt_fuel st + length (stmt_toks st) + 3"
| "stmt_fuel (If_else r st st') = rel_fuel r + stmt_fuel st' + length (stmt_toks st) + 3"
| "stmt_fuel (For v e e') = ex_fuel e + ex_fuel e' + 1"
| "stmt_fuel (Let kw v e) = ex_fuel e + 1"
| "stmt_fuel _ = 1"

lemma if_correct:
  assumes "data_ok P s a" "pc a < length P" "no_else st" "at_toks s (stmt_toks (If r st) @ tk_cr # next_line P a)" "exec P (If r st) a = Some a'"
    "rel_fuel r \<le> n" "length (stmt_toks st) \<le> n"
    and then_branch: "\<And>s. data_ok P s a \<Longrightarrow> at_toks s (stmt_toks st @ tk_cr # next_line P a) \<Longrightarrow> exec P st a = Some a' \<Longrightarrow>
      \<exists>s'. statement pf n s = Ret s' \<and> matches P s' a'"
  shows "\<exists>s'. statement pf (Suc (Suc n)) s = Ret s' \<and> matches P s' a'"
proof -
  obtain v where v: "rel_value (vars a) r = Some v" using assms(5) by (auto simp: bind_Some_iff)
  have a: "at_toks s (K TOKENIZER_IF # rel_toks r @ K TOKENIZER_THEN # stmt_toks st @ tk_cr # next_line P a)" using assms(4) by simp
  obtain s1 where s1: "statement pf (Suc (Suc n)) s = (if v \<noteq> 0 then statement pf n s1
      else bindo (skip_branch n s1) (\<lambda>s.
        if current_token s = TOKENIZER_ELSE then bindo (opt (tokenizer_next s)) (statement pf n)
        else if current_token s = TOKENIZER_CR then opt (tokenizer_next s) else Ret s))"
    "data_ok P s1 a" "at_toks s1 (stmt_toks st @ tk_cr # next_line P a)" by (rule if_at [OF assms(1) a v assms(6)])
  show ?thesis
  proof (cases "v = 0")
    case False
    then have "exec P st a = Some a'" using assms(5) v by simp
    then show ?thesis unfolding s1(1) using False then_branch [OF s1(2,3)] by simp
  next
    case True
    obtain s2 where s2: "skip_branch n s1 = Ret s2" "at_toks s2 (tk_cr # next_line P a)" "moved s1 s2" using skip_stmt [OF s1(3) assms(3) _ assms(7)] by auto
    obtain s3 where s3: "tokenizer_next s2 = Some s3" "at_toks s3 (next_line P a)" "moved s2 s3" by (rule next_at [OF s2(2)]) auto
    have "a' = a\<lparr>pc := pc a + 1\<rparr>" using assms(5) v True by simp
    moreover have "data_ok P s3 a" by (rule data_moved [OF data_moved [OF s1(2) s2(3)] s3(3)])
    ultimately have "matches P s3 a'" using next_matches [OF _ s3(2) assms(2), of a'] by simp
    then show ?thesis unfolding s1(1) using True s2(1) s3(1) at_current [OF s2(2)] by simp
  qed
qed

lemma if_else_correct:
  assumes "data_ok P s a" "pc a < length P" "no_else st" "at_toks s (stmt_toks (If_else r st st') @ tk_cr # next_line P a)" "exec P (If_else r st st') a = Some a'"
    "rel_fuel r \<le> n" "length (stmt_toks st) \<le> n"
    and then_branch: "\<And>s ts. data_ok P s a \<Longrightarrow> at_toks s (stmt_toks st @ ts) \<Longrightarrow> exec P st a = Some a' \<Longrightarrow>
      \<exists>s'. statement pf n s = Ret s' \<and> matches P s' a'"
    and else_branch: "\<And>s. data_ok P s a \<Longrightarrow> at_toks s (stmt_toks st' @ tk_cr # next_line P a) \<Longrightarrow> exec P st' a = Some a' \<Longrightarrow>
      \<exists>s'. statement pf n s = Ret s' \<and> matches P s' a'"
  shows "\<exists>s'. statement pf (Suc (Suc n)) s = Ret s' \<and> matches P s' a'"
proof -
  let ?r = "K TOKENIZER_ELSE # stmt_toks st' @ tk_cr # next_line P a"
  obtain v where v: "rel_value (vars a) r = Some v" using assms(5) by (auto simp: bind_Some_iff)
  have a: "at_toks s (K TOKENIZER_IF # rel_toks r @ K TOKENIZER_THEN # stmt_toks st @ ?r)" using assms(4) by simp
  obtain s1 where s1: "statement pf (Suc (Suc n)) s = (if v \<noteq> 0 then statement pf n s1
      else bindo (skip_branch n s1) (\<lambda>s.
        if current_token s = TOKENIZER_ELSE then bindo (opt (tokenizer_next s)) (statement pf n)
        else if current_token s = TOKENIZER_CR then opt (tokenizer_next s) else Ret s))"
    "data_ok P s1 a" "at_toks s1 (stmt_toks st @ ?r)" by (rule if_at [OF assms(1) a v assms(6)])
  show ?thesis
  proof (cases "v = 0")
    case False
    then have "exec P st a = Some a'" using assms(5) v by simp
    then show ?thesis unfolding s1(1) using False then_branch [OF s1(2,3)] by simp
  next
    case True
    obtain s2 where s2: "skip_branch n s1 = Ret s2" "at_toks s2 ?r" "moved s1 s2" using skip_stmt [OF s1(3) assms(3) _ assms(7)] by auto
    obtain s3 where s3: "tokenizer_next s2 = Some s3" "at_toks s3 (stmt_toks st' @ tk_cr # next_line P a)" "moved s2 s3" by (rule next_at [OF s2(2)]) auto
    have "exec P st' a = Some a'" using assms(5) v True by simp
    then show ?thesis unfolding s1(1) using else_branch [OF data_moved [OF data_moved [OF s1(2) s2(3)] s3(3)] s3(2)] True s2(1) s3(1) at_current [OF s2(2)] by simp
  qed
qed

lemma statement_correct:
  assumes "prog_ok P" "stmt_ok st" "data_ok P s a" "\<not> halted a" "pc a < length P" "at_toks s (stmt_toks st @ tk_cr # next_line P a)" "exec P st a = Some a'"
    "stmt_fuel st + length (prog_toks P) < n"
  shows "\<exists>s'. statement pf n s = Ret s' \<and> matches P s' a'"
  using assms(2-8)
proof (induction st arbitrary: s n)
  case (If r st)
  obtain m where n: "n = Suc (Suc m)" "rel_fuel r \<le> m" "stmt_fuel st + length (prog_toks P) < m" "length (stmt_toks st) \<le> m"
    using If.prems(7) that [of "n - 2"] by simp
  have ok: "no_else st" "stmt_ok st" using If.prems(1) by auto
  show ?case unfolding n(1) by (rule if_correct [OF If.prems(2,4) ok(1) If.prems(5,6) n(2,4)]) (rule If.IH [OF ok(2) _ If.prems(3,4) _ _ n(3)])
next
  case (If_else r st st')
  obtain m where n: "n = Suc (Suc m)" "rel_fuel r \<le> m" "stmt_fuel st' + length (prog_toks P) < m" "length (stmt_toks st) \<le> m" "length (prog_toks P) < m"
    using If_else.prems(7) that [of "n - 2"] by simp
  have ok: "leaves st" "stmt_ok st'" using If_else.prems(1) by auto
  show ?case unfolding n(1)
    by (rule if_else_correct [OF If_else.prems(2,4) leaves_no_else [OF ok(1)] If_else.prems(5,6) n(2,4)])
      (rule leave_correct [OF ok(1) assms(1) _ If_else.prems(3) _ _ n(5)] If_else.IH(2) [OF ok(2) _ If_else.prems(3,4) _ _ n(3)]; assumption)+
next
  case (Print "is")
  then obtain m where "n = Suc m" "items_fuel is \<le> m" "list_all item_ok is" by (cases n) auto
  then show ?case using print_correct [OF Print.prems(2,5,6) _ _ Print.prems(4)] by blast
next
  case (Goto k)
  then obtain m where "n = Suc m" "length (prog_toks P) \<le> m" by (cases n) auto
  then show ?case using goto_correct [OF assms(1) Goto.prems(2,3,5,6)] by blast
next
  case (Gosub k)
  then obtain m where "n = Suc m" "length (prog_toks P) \<le> m" by (cases n) auto
  then show ?case using gosub_correct [OF assms(1) Gosub.prems(2,3,5,6) _ Gosub.prems(4)] by blast
next
  case Return
  then obtain m where "n = Suc m" "length (prog_toks P) \<le> m" by (cases n) auto
  then show ?case using return_correct [OF assms(1) Return.prems(2,3,5,6)] by blast
next
  case (For v e e')
  then obtain m where "n = Suc m" "ex_fuel e < m" "ex_fuel e' < m" "v < 26" by (cases n) auto
  then show ?case using for_correct [OF For.prems(2,5,6) _ _ _ For.prems(4)] by blast
next
  case (Next v)
  then obtain m where "n = Suc m" "length (prog_toks P) \<le> m" "v < 26" by (cases n) auto
  then show ?case using next_correct [OF assms(1) Next.prems(2,3,5,6) _ _ Next.prems(4)] by blast
next
  case (Let kw v e)
  then obtain m where "n = Suc m" "ex_fuel e < m" "v < 26" by (cases n) auto
  then show ?case using let_correct [OF Let.prems(2,5,6) _ _ Let.prems(4)] by blast
next
  case End
  then obtain m where "n = Suc m" by (cases n) auto
  then show ?case using end_correct [OF End.prems(2,5,6)] by blast
qed

section \<open>Running a program\<close>

text \<open>Fuel for one line.\<close>

definition prog_fuel :: "basic \<Rightarrow> nat" where
  "prog_fuel P = sum_list (map (\<lambda>l. stmt_fuel (snd l)) P) + length (prog_toks P) + 1"

lemma prog_fuel_line: "i < length P \<Longrightarrow> stmt_fuel (snd (P ! i)) + length (prog_toks P) < prog_fuel P"
  using member_le_sum_list [of "stmt_fuel (snd (P ! i))" "map (\<lambda>l. stmt_fuel (snd l)) P"] by (force simp: prog_fuel_def)

lemma index_add_data:
  assumes "prog_ok P" "data_ok P s a" "i < length P" "at_toks s (prog_toks (drop i P))"
  shows "data_ok P (index_add (int (fst (P ! i) mod 256)) (ptr s) s) a"
proof -
  have "stands (prog s) (ptr s) (nextptr s) (N (fst (P ! i)))" "stream (prog s) (nextptr s) (tl (prog_toks (drop i P)))"
    using assms(4) prog_toks_drop [OF assms(3)] by (simp_all add: at_toks_def)
  then have "index_ok P (index_add (int (fst (P ! i) mod 256)) (ptr s) s)"
    using assms(2) line_of_index [OF assms(1,3)] by (auto simp: data_ok_def index_ok_def index_add_def)
  then show ?thesis using assms(2) by (simp add: data_ok_def index_add_def)
qed

lemma run_step:
  assumes "prog_ok P" "matches P s a" "running P a" "exec P (snd (P ! pc a)) a = Some a'" "prog_fuel P \<le> n"
  shows "\<exists>s'. ubasic_run pf n s = Ret s' \<and> matches P s' a'"
proof -
  let ?k = "fst (P ! pc a)" let ?st = "snd (P ! pc a)"
  have r: "\<not> halted a" "pc a < length P" using assms(3) by (auto simp: running_def)
  have d: "data_ok P s a" "at_toks s (prog_toks (drop (pc a) P))" using assms(2) r(1) by (auto simp: matches_def)
  have a: "at_toks s (N ?k # stmt_toks ?st @ tk_cr # next_line P a)" using d(2) prog_toks_drop [OF r(2)] by (simp add: next_line_def)
  let ?s = "index_add (int (?k mod 256)) (ptr s) s"
  have d1: "data_ok P ?s a" by (rule index_add_data [OF assms(1) d(1) r(2) d(2)])
  have "at_toks ?s (N ?k # stmt_toks ?st @ tk_cr # next_line P a)" using a by (simp add: index_add_def)
  then obtain s1 where s1: "accept TOKENIZER_NUMBER ?s = Some s1" "at_toks s1 (stmt_toks ?st @ tk_cr # next_line P a)" "moved ?s s1" by (rule accept_at) auto
  have ok: "stmt_ok ?st" using assms(1) r(2) by (auto simp: prog_ok_def list_all_length)
  have "stmt_fuel ?st + length (prog_toks P) < n" using prog_fuel_line [OF r(2)] assms(5) by linarith
  then obtain s2 where s2: "statement pf n s1 = Ret s2" "matches P s2 a'"
    using statement_correct [OF assms(1) ok data_moved [OF d1 s1(3)] r s1(2) assms(4)] by blast
  have "get_next_token (prog s) (ptr s) (nextptr s) = Some (TOKENIZER_NUMBER, nextptr s)" using a by (simp add: at_toks_def stands_def)
  then have "tokenizer_finished s = Some False"
    using get_next_token_stable(2) [of "prog s" "ptr s"] at_current [OF a] by (fastforce simp: tokenizer_finished_def)
  then show ?thesis using num_at [OF a] s1(1) s2 by (auto simp: ubasic_run_def line_statement_def uint_of_nat_mod)
qed

lemma finished_running:
  assumes "matches P s a"
  shows "ubasic_finished s = Some (\<not> running P a)"
proof (cases "halted a")
  case True
  then show ?thesis using assms by (simp add: ubasic_finished_def running_def matches_def data_ok_def)
next
  case False
  then have h: "\<not> ended s" "pc a \<le> length P" "at_toks s (prog_toks (drop (pc a) P))" using assms by (simp_all add: matches_def data_ok_def)
  show ?thesis
  proof (cases "pc a = length P")
    case True
    then have "at_toks s [tk_end]" using h(3) prog_toks_end by metis
    then have "current_token s = TOKENIZER_ENDOFINPUT" "\<exists>c. peek (prog s) (ptr s) = Some c"
      by (auto simp: at_toks_def stands_def get_next_token_def bind_Some_iff)
    then show ?thesis using True h(1) by (auto simp: ubasic_finished_def tokenizer_finished_def running_def)
  next
    case i: False
    then have a: "at_toks s (N (fst (P ! pc a)) # stmt_toks (snd (P ! pc a)) @ tk_cr # prog_toks (drop (pc a + 1) P))"
      using h(2,3) prog_toks_drop [of "pc a" P] by simp
    then have "get_next_token (prog s) (ptr s) (nextptr s) = Some (TOKENIZER_NUMBER, nextptr s)" by (simp add: at_toks_def stands_def)
    then show ?thesis using get_next_token_stable(2) [of "prog s" "ptr s"] at_current [OF a] h i False
      by (fastforce simp: ubasic_finished_def tokenizer_finished_def running_def)
  qed
qed

lemma loop_runs:
  assumes "prog_ok P" "matches P s a" "running P a" "run_basic n P a = Some a'" "prog_fuel P \<le> m"
  shows "\<exists>s'. lkbasic_loop n m s = Ret s' \<and> matches P s' a'"
  using assms(2-4)
proof (induction n arbitrary: s a)
  case (Suc n)
  obtain b where b: "exec P (snd (P ! pc a)) a = Some b" "run_basic n P b = Some a'" using Suc.prems(2,3) by (auto simp: bind_Some_iff)
  obtain s1 where s1: "ubasic_run None m s = Ret s1" "matches P s1 b" using run_step [OF assms(1) Suc.prems(1,2) b(1) assms(5)] by blast
  show ?case
  proof (cases "running P b")
    case True
    then show ?thesis using Suc.IH [OF s1(2) True b(2)] s1 finished_running [OF s1(2)] by auto
  next
    case False
    then have "b = a'" using b(2) by (cases n) auto
    then show ?thesis using s1 finished_running [OF s1(2)] False by auto
  qed
qed simp

text \<open>The arrays of the interpreter, whatever they hold.\<close>

definition arrays_ok :: "ubasic \<Rightarrow> bool" where
  "arrays_ok s \<longleftrightarrow> length (variables s) = 26 \<and> length (strbuf s) = MAX_STRINGLEN \<and> length (gosub_stack s) = MAX_GOSUB_STACK_DEPTH \<and>
     length (for_stack s) = MAX_FOR_STACK_DEPTH"

definition start :: "ubasic \<Rightarrow> machine" where
  "start s = \<lparr>pc = 0, vars = variables s, returns = [], fors = [], screen = printed s, halted = False\<rparr>"

lemma init_matches:
  assumes "prog_ok P" "text_of b P" "arrays_ok s"
  shows "\<exists>s'. ubasic_init b s = Some s' \<and> matches P s' (start s)"
proof -
  let ?s = "index_free (s\<lparr>prog := b, for_stack_ptr := 0, gosub_stack_ptr := 0\<rparr>)"
  have "text_of (prog ?s) P" "P \<noteq> []" using assms(1,2) by (simp_all add: index_free_def prog_ok_def)
  then obtain s' where s': "tokenizer_init ?s = Some s'" "at_toks s' (prog_toks P)" "moved ?s s'" by (rule start_at)
  have "at_toks (s'\<lparr>ended := False\<rparr>) (prog_toks P)" using s'(2) by (cases "prog_toks P") (simp_all add: at_toks_def)
  moreover have "data_ok P (s'\<lparr>ended := False\<rparr>) (start s)"
    using assms(2,3) moved_simps [OF s'(3)] by (simp add: data_ok_def arrays_ok_def start_def index_free_def index_ok_def)
  ultimately show ?thesis using s'(1) by (simp add: ubasic_init_def matches_def start_def)
qed

lemma lkbasic_runs:
  assumes "prog_ok P" "text_of b P" "arrays_ok s" "run_basic n P (start s) = Some a" "prog_fuel P \<le> m"
  shows "\<exists>s'. lkbasic n m b s = Ret s' \<and> matches P s' a"
proof -
  obtain s1 where s1: "ubasic_init b s = Some s1" "matches P s1 (start s)" using init_matches [OF assms(1-3)] by blast
  have "running P (start s)" using assms(1) by (simp add: running_def start_def prog_ok_def)
  then show ?thesis using loop_runs [OF assms(1) s1(2) _ assms(4,5)] s1(1) by (simp add: lkbasic_def)
qed

end
