(* ===== verification/Ubasic_Text.thy ===== *)
theory Ubasic_Text
  imports Ubasic_Run
begin

unbundle bit_operations_syntax

text \<open>
  The text of a BASIC program: every program can be written, the tokenizer reads back its tokens, and
  the interpreter runs the text as the abstract machine runs the program.
\<close>

section \<open>Texts\<close>

fun token_text :: "token \<Rightarrow> u8 list" where
  "token_text TOKENIZER_LET = bytes_of ''let''" | "token_text TOKENIZER_PRINT = bytes_of ''print''" | "token_text TOKENIZER_IF = bytes_of ''if''"
| "token_text TOKENIZER_THEN = bytes_of ''then''" | "token_text TOKENIZER_ELSE = bytes_of ''else''" | "token_text TOKENIZER_FOR = bytes_of ''for''"
| "token_text TOKENIZER_TO = bytes_of ''to''" | "token_text TOKENIZER_NEXT = bytes_of ''next''" | "token_text TOKENIZER_GOTO = bytes_of ''goto''"
| "token_text TOKENIZER_GOSUB = bytes_of ''gosub''" | "token_text TOKENIZER_RETURN = bytes_of ''return''" | "token_text TOKENIZER_END = bytes_of ''end''"
| "token_text TOKENIZER_COMMA = [0x2C]" | "token_text TOKENIZER_SEMICOLON = [0x3B]" | "token_text TOKENIZER_PLUS = [0x2B]" | "token_text TOKENIZER_MINUS = [0x2D]"
| "token_text TOKENIZER_AND = [0x26]" | "token_text TOKENIZER_OR = [0x7C]" | "token_text TOKENIZER_ASTR = [0x2A]" | "token_text TOKENIZER_SLASH = [0x2F]"
| "token_text TOKENIZER_MOD = [0x25]" | "token_text TOKENIZER_LEFTPAREN = [0x28]" | "token_text TOKENIZER_RIGHTPAREN = [0x29]"
| "token_text TOKENIZER_LT = [0x3C]" | "token_text TOKENIZER_GT = [0x3E]" | "token_text TOKENIZER_EQ = [0x3D]" | "token_text TOKENIZER_CR = [10]"
| "token_text _ = []"

fun tk_text :: "tk \<Rightarrow> u8 list" where
  "tk_text (K t) = token_text t"
| "tk_text (N k) = dec_nat k"
| "tk_text (V v) = [of_nat (0x61 + v)]"
| "tk_text (S x) = 0x22 # x @ [0x22]"

text \<open>Numbers have at most five digits.\<close>

fun tk_ok :: "tk \<Rightarrow> bool" where
  "tk_ok (K t) = (token_text t \<noteq> [])"
| "tk_ok (N k) = (length (dec_nat k) < MAX_NUMLEN)"
| "tk_ok (V v) = (v < 26)"
| "tk_ok (S x) = (0 \<notin> set x \<and> 0x22 \<notin> set x)"

text \<open>A layout gives the number of spaces behind every token.\<close>

type_synonym layout = "(tk \<times> nat) list"

fun layout_text :: "layout \<Rightarrow> u8 list" where
  "layout_text [] = []"
| "layout_text ((t, k) # l) = (if t = tk_end then [0] else tk_text t @ replicate k 0x20 @ layout_text l)"

text \<open>The byte behind a token with \<open>k\<close> spaces; a number must not run into a digit, and a variable must not run into a letter.\<close>

definition next_byte :: "nat \<Rightarrow> layout \<Rightarrow> u8" where
  "next_byte k l = (if k > 0 then 0x20 else case l of [] \<Rightarrow> 0 | (t, j) # l \<Rightarrow> if t = tk_end then 0 else hd (tk_text t))"

fun follows :: "tk \<Rightarrow> u8 \<Rightarrow> bool" where
  "follows (N k) c = (\<not> isdigit c \<and> c \<noteq> 0)"
| "follows (V v) c = (\<not> (0x61 \<le> c \<and> c \<le> 0x7A))"
| "follows _ c = True"

fun layout_ok :: "layout \<Rightarrow> bool" where
  "layout_ok [] = False"
| "layout_ok ((t, k) # l) = (if t = tk_end then l = [] else tk_ok t \<and> follows t (next_byte k l) \<and> layout_ok l)"

section \<open>Reading back a token\<close>

fun prefix_match :: "u8 list \<Rightarrow> u8 list \<Rightarrow> bool option" where
  "prefix_match xs [] = Some True"
| "prefix_match [] (c # cs) = None"
| "prefix_match (x # xs) (c # cs) = (if x = c then prefix_match xs cs else Some False)"

lemma strncmp_drop: "strncmp_keyword b p cs = prefix_match (drop p b) cs"
proof (induction cs arbitrary: p)
  case (Cons c cs)
  show ?case
  proof (cases "drop p b")
    case Nil
    then show ?thesis by (simp add: peek_end)
  next
    case (Cons x xs)
    then show ?thesis using Cons.IH [of "Suc p"] by (simp add: peek_hd drop_tail)
  qed
qed simp

lemma find_char_drop: "drop i b = xs @ c # ys \<Longrightarrow> c \<notin> set xs \<Longrightarrow> find_char c b i = Some (i + length xs)"
proof (induction xs arbitrary: i)
  case Nil
  then show ?case by (subst find_char.simps) (simp add: peek_hd)
next
  case (Cons x xs)
  then show ?case by (subst find_char.simps) (auto simp: peek_hd drop_tail)
qed

lemma skip_spaces_drop: "drop i b = xs @ c # ys \<Longrightarrow> set xs \<subseteq> {0x20} \<Longrightarrow> c \<noteq> 0x20 \<Longrightarrow> skip_spaces b i = Some (i + length xs)"
proof (induction xs arbitrary: i)
  case Nil
  then show ?case by (subst skip_spaces.simps) (simp add: peek_hd)
next
  case (Cons x xs)
  then show ?case by (subst skip_spaces.simps) (simp add: peek_hd drop_tail)
qed

lemma number_end_drop:
  assumes "drop p b = ds @ c # ys" "list_all isdigit ds" "\<not> isdigit c" "ds \<noteq> []" "i \<le> length ds" "length ds < i + m"
  shows "number_end m b p i = Some (Some (p + length ds))"
  using assms(5,6)
proof (induction m arbitrary: i)
  case (Suc m)
  have d: "drop p b = (ds @ [c]) @ ys" using assms(1) by simp
  show ?case
  proof (cases "i = length ds")
    case True
    then show ?thesis using peek_drop [OF d, of i] assms(3,4) by simp
  next
    case False
    then have "i < length ds" using Suc.prems(1) by simp
    then have "peek b (p + i) = Some (ds ! i)" "isdigit (ds ! i)" using peek_drop [OF d, of i] assms(2) by (simp_all add: nth_append list_all_length)
    then show ?thesis using Suc.IH [of "Suc i"] \<open>i < length ds\<close> Suc.prems(2) by simp
  qed
qed simp

lemma keyword_at:
  assumes "drop p b = bytes_of k @ ys" "(k, t) \<in> set keyword_tokens"
  shows "find_keyword b p keyword_tokens = Some (Some (t, p + length k))"
  using assms(2,1) unfolding keyword_tokens_def by (auto simp: strncmp_drop bytes_of_def)

lemma keyword_letter:
  assumes "(k, t) \<in> set keyword_tokens"
  obtains c cs where "bytes_of k = c # cs" "c \<noteq> 0" "\<not> isdigit c" "singlechar c = None" "c \<noteq> 0x22"
proof -
  have "list_all (\<lambda>(k, t). case bytes_of k of [] \<Rightarrow> False | c # cs \<Rightarrow> c \<noteq> 0 \<and> \<not> isdigit c \<and> singlechar c = None \<and> c \<noteq> 0x22) keyword_tokens"
    by code_simp
  then have "case bytes_of k of [] \<Rightarrow> False | c # cs \<Rightarrow> c \<noteq> 0 \<and> \<not> isdigit c \<and> singlechar c = None \<and> c \<noteq> 0x22"
    using assms by (auto simp: list_all_iff)
  then show thesis using that by (cases "bytes_of k") auto
qed

lemma get_keyword:
  assumes "drop p b = bytes_of k @ ys" "(k, t) \<in> set keyword_tokens"
  shows "get_next_token b p n = Some (t, p + length (bytes_of k))"
proof -
  obtain c cs where c: "bytes_of k = c # cs" "c \<noteq> 0" "\<not> isdigit c" "singlechar c = None" "c \<noteq> 0x22" by (rule keyword_letter [OF assms(2)])
  then have "peek b p = Some c" using assms(1) peek_hd by simp
  moreover have "length (bytes_of k) = length k" by (simp add: bytes_of_def)
  ultimately show ?thesis using c keyword_at [OF assms] by (simp add: get_next_token_def)
qed

lemma get_single:
  assumes "drop p b = c # ys" "singlechar c = Some t" "c \<noteq> 0" "\<not> isdigit c"
  shows "get_next_token b p n = Some (t, Suc p)"
  using assms peek_hd [OF assms(1)] by (simp add: get_next_token_def)

lemma get_variable:
  assumes "drop p b = of_nat (0x61 + v) # d # ys" "v < 26" "\<not> (0x61 \<le> d \<and> d \<le> 0x7A)"
  shows "get_next_token b p n = Some (TOKENIZER_VARIABLE, Suc p)"
proof -
  let ?c = "of_nat (0x61 + v) :: u8"
  have "list_all (\<lambda>v. let c = of_nat (0x61 + v) :: u8 in c \<noteq> 0 \<and> \<not> isdigit c \<and> singlechar c = None \<and> c \<noteq> 0x22 \<and> 0x61 \<le> c \<and> c \<le> 0x7A) [0..<26]" by code_simp
  then have c: "?c \<noteq> 0" "\<not> isdigit ?c" "singlechar ?c = None" "?c \<noteq> 0x22" "0x61 \<le> ?c" "?c \<le> 0x7A"
    using assms(2) by (simp_all add: list_all_iff Let_def del: of_nat_add)
  have "find_keyword b p keyword_tokens = Some None"
    using assms(1,3) unfolding keyword_tokens_def by (auto simp: strncmp_drop bytes_of_def simp del: of_nat_add)
  then show ?thesis using c peek_hd [OF assms(1)] by (simp add: get_next_token_def del: of_nat_add)
qed

lemma get_digits:
  assumes "drop p b = dec_nat k @ d # ys" "length (dec_nat k) < MAX_NUMLEN" "\<not> isdigit d"
  shows "get_next_token b p n = Some (TOKENIZER_NUMBER, p + length (dec_nat k))"
proof -
  obtain c cs where c: "dec_nat k = c # cs" using dec_nat_digits(1) by (cases "dec_nat k") auto
  then have d: "isdigit c" "peek b p = Some c" using dec_nat_digits(2) [of k] assms(1) peek_hd by auto
  then have "c \<noteq> 0" by (auto simp: isdigit_def)
  moreover have "number_end MAX_NUMLEN b p 0 = Some (Some (p + length (dec_nat k)))"
    using number_end_drop [OF assms(1) dec_nat_digits(2) assms(3) dec_nat_digits(1), of 0 MAX_NUMLEN] assms(2) by simp
  ultimately show ?thesis using d by (simp add: get_next_token_def)
qed

lemma c_str_prefix: "0 \<notin> set xs \<Longrightarrow> c \<noteq> 0 \<Longrightarrow> 0 \<in> set ys \<Longrightarrow> \<exists>zs. c_str (xs @ c # ys) = Some (xs @ c # zs)"
  by (induction xs) (auto simp: c_str_def)

lemma atoi_dec:
  assumes "drop p b = dec_nat k @ d # ys" "length (dec_nat k) < MAX_NUMLEN" "\<not> isdigit d" "d \<noteq> 0" "0 \<in> set ys"
  shows "atoi (drop p b) = Some (int k)"
proof -
  obtain c cs where c: "dec_nat k = c # cs" using dec_nat_digits(1) by (cases "dec_nat k") auto
  have dg: "isdigit c" "list_all isdigit (dec_nat k)" using dec_nat_digits(2) [of k] c by auto
  then have z: "0 \<notin> set (dec_nat k)" by (auto simp: list_all_iff isdigit_def)
  obtain zs where "c_str (drop p b) = Some (dec_nat k @ d # zs)" using c_str_prefix [OF z assms(4,5)] assms(1) by auto
  moreover have "c \<notin> {0x20, 9, 10, 11, 12, 13}" "c \<notin> {0x2B, 0x2D}" using dg(1) by (auto simp: isdigit_def)
  moreover have "digits_value (dec_nat k @ d # zs) 0 = k" using digits_value_dec [of k "d # zs" 0] assms(3) by simp
  moreover have "k < 10 ^ 5" using dec_nat_length [of k 5] assms(2) by (simp add: MAX_NUMLEN_def)
  ultimately show ?thesis using c by (simp add: atoi_def Let_def)
qed

lemma get_string:
  assumes "drop p b = 0x22 # x @ 0x22 # ys" "0x22 \<notin> set x"
  shows "get_next_token b p n = Some (TOKENIZER_STRING, p + length x + 2)"
proof -
  have "find_char 0x22 b (Suc p) = Some (Suc p + length x)" by (rule find_char_drop [OF drop_tail [OF assms(1)] assms(2)])
  then show ?thesis using peek_hd [OF assms(1)] by (simp add: get_next_token_def isdigit_def singlechar_def)
qed

lemma payload_string:
  assumes "drop p b = 0x22 # x @ 0x22 # ys" "0x22 \<notin> set x" "0 \<notin> set x" "0 \<in> set ys"
  shows "payload b p (S x)"
proof -
  obtain zs where "c_str (drop (p + 1) b) = Some (x @ 0x22 # zs)" using c_str_prefix [OF assms(3) _ assms(4), of "0x22"] drop_tail [OF assms(1)] by auto
  moreover have "takeWhile (\<lambda>c. c \<noteq> 0x22) (x @ 0x22 # zs) = x" using assms(2) by (simp add: takeWhile_append takeWhile_eq_all_conv)
  ultimately show ?thesis by (simp add: payload_def)
qed

lemma token_text_cases:
  assumes "token_text k \<noteq> []"
  obtains (keyword) w where "(w, k) \<in> set keyword_tokens" "token_text k = bytes_of w" "k \<noteq> TOKENIZER_REM"
  | (single) c where "token_text k = [c]" "singlechar c = Some k" "c \<noteq> 0" "\<not> isdigit c" "c \<noteq> 0x20"
  using assms by (cases k) (auto simp: keyword_tokens_def singlechar_def isdigit_def)

lemma tk_stands:
  assumes "drop p b = tk_text t @ ys" "tk_ok t" "follows t (hd ys)" "0 \<in> set ys"
  shows "get_next_token b p n = Some (tok_of t, p + length (tk_text t)) \<and> payload b p t"
proof (cases t)
  case (K k)
  then have "token_text k \<noteq> []" using assms(2) by simp
  then show ?thesis
  proof (cases rule: token_text_cases)
    case (keyword w)
    then have d: "drop p b = bytes_of w @ ys" using assms(1) K by simp
    show ?thesis using get_keyword [OF d keyword(1)] keyword K assms(2) by (auto simp: payload_def)
  next
    case (single c)
    then have "drop p b = c # ys" using assms(1) K by simp
    then show ?thesis using get_single [OF _ single(2-4)] single(1) K assms(2) by (auto simp: payload_def)
  qed
next
  case (N k)
  obtain d zs where ys: "ys = d # zs" "\<not> isdigit d" "d \<noteq> 0" using assms(3,4) N by (cases ys) auto
  then have "drop p b = dec_nat k @ d # zs" "0 \<in> set zs" using assms(1,4) N by auto
  then show ?thesis using get_digits [of p b k d zs n] atoi_dec [of p b k d zs] ys assms(2) N by (simp add: payload_def)
next
  case (V v)
  obtain d zs where ys: "ys = d # zs" "\<not> (0x61 \<le> d \<and> d \<le> 0x7A)" using assms(3,4) V by (cases ys) auto
  then have d: "drop p b = of_nat (0x61 + v) # d # zs" "v < 26" using assms(1,2) V by simp_all
  then show ?thesis using V get_variable [OF d ys(2)] peek_hd [OF d(1)] by (simp add: payload_def del: of_nat_add)
next
  case (S x)
  then have d: "drop p b = 0x22 # x @ 0x22 # ys" using assms(1) by simp
  then show ?thesis using S get_string [OF d] payload_string [OF d _ _ assms(4)] assms(2) by simp
qed

section \<open>Reading back a program\<close>

lemma tk_text_Cons:
  assumes "tk_ok t"
  obtains c cs where "tk_text t = c # cs" "c \<noteq> 0x20"
proof (cases t)
  case (K k)
  then have "token_text k \<noteq> []" using assms by simp
  then show thesis
  proof (cases rule: token_text_cases)
    case (keyword w)
    have "list_all (\<lambda>(k, t). case bytes_of k of [] \<Rightarrow> False | c # cs \<Rightarrow> c \<noteq> 0x20) keyword_tokens" by code_simp
    then show thesis using keyword K that by (auto simp: list_all_iff split: list.splits)
  qed (use K that in auto)
next
  case (N k)
  obtain c cs where "dec_nat k = c # cs" "isdigit c" using dec_nat_digits [of k] by (cases "dec_nat k") auto
  moreover from this have "c \<noteq> 0x20" by (auto simp: isdigit_def)
  ultimately show thesis using that N by simp
next
  case (V v)
  have "list_all (\<lambda>v. of_nat (0x61 + v) \<noteq> (0x20 :: u8)) [0..<26]" by code_simp
  then show thesis using assms V that by (simp add: list_all_iff del: of_nat_add)
qed (use that in simp)

lemma tk_end_not_ok: "tk_ok t \<Longrightarrow> t \<noteq> tk_end" "tok_of t = TOKENIZER_REM \<Longrightarrow> \<not> tk_ok t"
  by (cases t; auto)+

lemma layout_text_zero: "layout_ok l \<Longrightarrow> 0 \<in> set (layout_text l)"
  by (induction l rule: layout_text.induct) (auto split: if_splits)

lemma next_byte_hd: "layout_ok l \<Longrightarrow> next_byte k l = hd (replicate k 0x20 @ layout_text l)"
proof (induction l rule: layout_ok.induct)
  case (2 t j l)
  have "tk_text t \<noteq> []" if "tk_ok t" by (rule tk_text_Cons [OF that]) simp
  then show ?case using 2(2) by (cases k) (auto simp: next_byte_def)
qed simp

lemma stream_text: "layout_ok l \<Longrightarrow> drop n b = replicate k 0x20 @ layout_text l \<Longrightarrow> stream b n (map fst l)"
proof (induction l arbitrary: n k)
  case (Cons tj l)
  obtain t j where tj: "tj = (t, j)" by (cases tj)
  have sp: "set (replicate k (0x20 :: u8)) \<subseteq> {0x20}" by auto
  let ?p = "n + k"
  have dp: "drop ?p b = layout_text ((t, j) # l)" using Cons.prems(2) tj by (metis append_eq_conv_conj add.commute drop_drop length_replicate)
  show ?case
  proof (cases "t = tk_end")
    case True
    then have d: "drop n b = replicate k 0x20 @ [0]" "drop ?p b = [0]" "l = []" using Cons.prems tj dp by simp_all
    then have "get_next_token b ?p n = Some (TOKENIZER_ENDOFINPUT, n)" by (simp add: get_next_token_def peek_hd)
    moreover have "skip_spaces b n = Some ?p" using skip_spaces_drop [OF d(1) sp] by simp
    ultimately show ?thesis using True d(3) tj by (simp add: next_token.simps [of b n] stands_def payload_def)
  next
    case False
    let ?r = "replicate j 0x20 @ layout_text l" let ?q = "?p + length (tk_text t)"
    have ok: "tk_ok t" "follows t (hd ?r)" "layout_ok l" using Cons.prems(1) tj False next_byte_hd [of l j] by simp_all
    obtain c cs where c: "tk_text t = c # cs" "c \<noteq> 0x20" by (rule tk_text_Cons [OF ok(1)])
    have dr: "drop ?p b = tk_text t @ ?r" using dp False by simp
    then have dq: "drop ?q b = ?r" by (metis append_eq_conv_conj add.commute drop_drop)
    have "0 \<in> set ?r" using layout_text_zero [OF ok(3)] by simp
    then have g: "get_next_token b ?p m = Some (tok_of t, ?q)" "payload b ?p t" for m using tk_stands [OF dr ok(1,2)] by auto
    have "drop n b = replicate k 0x20 @ c # cs @ ?r" using Cons.prems(2) tj False c(1) by simp
    then have "skip_spaces b n = Some ?p" using skip_spaces_drop [OF _ sp c(2)] by simp
    then have "next_token b n = Some (?p, ?q, tok_of t)" using g(1) tk_end_not_ok(2) ok(1) by (auto simp: next_token.simps [of b n])
    moreover have "stream b ?q (map fst l)" by (rule Cons.IH [OF ok(3) dq])
    ultimately show ?thesis using g False tj by (simp add: stands_def)
  qed
qed simp

lemma layout_text_of:
  assumes "prog_ok P" "layout_ok l" "map fst l = prog_toks P"
  shows "text_of (layout_text l) P"
proof -
  obtain k ts where t: "prog_toks P = N k # ts" using assms(1) by (cases P) (auto simp: prog_ok_def prog_toks_def line_toks_def)
  then obtain j l' where l: "l = (N k, j) # l'" "map fst l' = ts" using assms(3) by (cases l) auto
  let ?r = "replicate j 0x20 @ layout_text l'"
  have ok: "tk_ok (N k)" "follows (N k) (hd ?r)" "layout_ok l'" using assms(2) l(1) next_byte_hd [of l' j] by simp_all
  have d: "drop 0 (layout_text l) = tk_text (N k) @ ?r" "drop (length (tk_text (N k))) (layout_text l) = ?r" using l(1) by simp_all
  have "0 \<in> set ?r" using layout_text_zero [OF ok(3)] by simp
  then have "stands (layout_text l) 0 (length (tk_text (N k))) (N k)" using tk_stands [OF d(1) ok(1,2)] by (simp add: stands_def)
  then show ?thesis using stream_text [OF ok(3) d(2)] t l(2) unfolding text_of_def by auto
qed

end
