(* ===== verification/Ubasic_Props.thy ===== *)
theory Ubasic_Props
  imports Ubasic_Text
begin

unbundle bit_operations_syntax

text \<open>
  Properties of the BASIC interpreter: it runs the text of a program as the abstract machine does, every
  program has a text, a jump to a line that is not there never returns, and a taken branch runs into its \<open>else\<close>.
\<close>

section \<open>The program of \<open>program.h\<close>\<close>

definition basic_lines :: basic where
  "basic_lines =
     [(10, Gosub 100), (20, For 8 (Tm (Fac (Num 1))) (Tm (Fac (Num 10)))), (30, Print [Value (Tm (Mul (Fac (Var 8)) Times (Num 10)))]),
      (40, Next 8), (50, Print [Text (bytes_of ''end'')]), (60, End), (100, Print [Text (bytes_of ''subroutine'')]), (110, Return)]"

definition zero_state :: ubasic where
  "zero_state = \<lparr>prog = [], ptr = 0, nextptr = 0, current_token = TOKENIZER_ERROR, strbuf = replicate 40 0, gosub_stack = replicate 10 0,
     gosub_stack_ptr = 0, for_stack = replicate 4 \<lparr>line_after_for = 0, for_variable = 0, for_to = 0\<rparr>, for_stack_ptr = 0,
     line_index = [], variables = replicate 26 0, ended = False, printed = [], pokes = []\<rparr>"

definition basic_layout :: layout where
  "basic_layout = zip (prog_toks basic_lines)
     ([1, 1, 0, 0] @ [1, 1, 1, 1, 1, 1, 0, 0] @ [1, 1, 0, 0, 0, 0] @ [1, 1, 0, 0] @ [1, 1, 0, 0] @ [1, 0, 0] @ [1, 1, 0, 0] @ [1, 0, 0] @ [0])"

lemma basic_layout_text: "layout_text basic_layout = basic_program"
  by code_simp

lemma basic_layout_ok: "layout_ok basic_layout" "map fst basic_layout = prog_toks basic_lines"
  by code_simp+

lemma basic_lines_ok: "prog_ok basic_lines" "arrays_ok zero_state" "prog_fuel basic_lines \<le> 60"
  by code_simp+

lemma basic_lines_text: "text_of basic_program basic_lines"
  using layout_text_of [OF basic_lines_ok(1) basic_layout_ok] basic_layout_text by simp

definition demo_output :: "u8 list" where
  "demo_output = bytes_of ''subroutine'' @ [10] @ concat (map (\<lambda>i. dec_nat (10 * i) @ [10]) [1..<11]) @ bytes_of ''end'' @ [10]"

lemma basic_lines_run: "map_option screen (run_basic 40 basic_lines (start zero_state)) = Some demo_output"
  by code_simp

section \<open>The interpreter runs the program\<close>

text \<open>C1. The interpreter runs the text of a well-formed program as the abstract machine runs its lines.  Well-formed programs
  have line numbers that differ modulo 256, strings of fewer than 40 bytes, no expression to be printed that starts with a parenthesis, and before an
  \<open>ELSE\<close> only a statement that leaves the line (\<open>ubasic_else_runs_both\<close> shows what happens otherwise).  When the
  machine stops after some number of steps, the command returns after as many lines, and the
  console output and the variables are the machine's.  The machine keeps statements as trees; the
  interpreter finds lines, expressions and the ends of statements in the text while it goes.\<close>

theorem ubasic_runs_program:
  assumes "prog_ok P" "text_of b P" "arrays_ok s" "run_basic n P (start s) = Some a" "prog_fuel P \<le> m"
  shows "\<exists>s'. lkbasic n m b s = Ret s' \<and> printed s' = screen a \<and> variables s' = vars a"
  using lkbasic_runs [OF assms] by (auto simp: matches_def data_ok_def)

text \<open>The program of \<open>program.h\<close> prints the line of its subroutine, the multiples of ten up to one hundred and its last line.\<close>

theorem ubasic_runs_program_witness: "\<exists>s'. lkbasic 40 60 basic_program zero_state = Ret s' \<and> printed s' = demo_output"
proof -
  obtain a where a: "run_basic 40 basic_lines (start zero_state) = Some a" "screen a = demo_output" using basic_lines_run by auto
  show ?thesis using ubasic_runs_program [OF basic_lines_ok(1) basic_lines_text basic_lines_ok(2) a(1) basic_lines_ok(3)] a(2) by auto
qed

text \<open>C15. Reading back: a program whose numbers have at most five digits and whose strings hold no quote and no zero can be
  written as a text with any number of spaces between the tokens, none included where two tokens do not run together, and the
  tokenizer reads its lines back from it: keywords, variables, numbers, strings and operators.\<close>

theorem ubasic_text_roundtrip:
  assumes "prog_ok P" "layout_ok l" "map fst l = prog_toks P"
  shows "text_of (layout_text l) P"
  by (rule layout_text_of [OF assms])

theorem ubasic_text_roundtrip_witness: "text_of basic_program basic_lines"
  using ubasic_text_roundtrip [OF basic_lines_ok(1) basic_layout_ok] basic_layout_text by simp

section \<open>Expressions\<close>

text \<open>C17. Expressions: the recursive descent, which evaluates while it reads, gives the value of the expression's tree, with
  operators of one level taken from the left, products before sums, and every parenthesis cut to a byte.  It stops behind the
  expression and changes nothing but the place in the text.\<close>

theorem ubasic_expr_value:
  assumes "at_toks s (ex_toks e @ ts)" "no_op ts" "ex_value (variables s) e = Some z" "ex_fuel e < n"
  shows "\<exists>s'. expr n s = Ret (of_int z, s') \<and> at_toks s' ts \<and> moved s s'"
  by (rule expr_at [OF assms(1,3,2,4)]) blast

definition expr_tree :: ex where
  "expr_tree = Add (Add (Tm (Fac (Num 9))) Minus (Fac (Num 3))) Minus (Mul (Fac (Num 2)) Times (Paren (Add (Tm (Fac (Num 250))) Plus (Fac (Num 7)))))"

definition expr_state :: ubasic where
  "expr_state = zero_state\<lparr>prog := bytes_of ''9-3 - 2*(250+7)'' @ [10, 0], nextptr := 1, current_token := TOKENIZER_NUMBER\<rparr>"

theorem ubasic_expr_value_witness: "\<exists>s'. expr 30 expr_state = Ret (4, s') \<and> at_toks s' [tk_cr, tk_end]"
proof -
  have "at_toks expr_state (ex_toks expr_tree @ [tk_cr, tk_end])" "no_op [tk_cr, tk_end]" "ex_value (variables expr_state) expr_tree = Some 4" "ex_fuel expr_tree < 30"
    by code_simp+
  from ubasic_expr_value [OF this] show ?thesis by auto
qed

section \<open>Jumps to lines that are not there\<close>

lemma jump_token_any:
  assumes "at_toks s (t # ts @ tk_cr # us)" "inside (t # ts)"
  shows "jump_token n s = No_fuel \<or> (\<exists>s'. jump_token n s = Ret s' \<and> at_toks s' (tk_cr # us) \<and> moved s s')"
  using assms
proof (induction n arbitrary: s t ts)
  case (Suc n)
  have "t \<noteq> tk_end" using Suc.prems(2) by auto
  then obtain s' where s': "tokenizer_next s = Some s'" "at_toks s' (ts @ tk_cr # us)" "moved s s'" using next_at [of s t "ts @ tk_cr # us"] Suc.prems(1) by auto
  show ?case
  proof (cases ts)
    case Nil
    then show ?thesis using s' at_current [of s' tk_cr us] by auto
  next
    case (Cons u vs)
    then have a: "at_toks s' (u # vs @ tk_cr # us)" "inside (u # vs)" using s'(2) Suc.prems(2) by auto
    then show ?thesis using Suc.IH [OF a] s'(1,3) at_current [OF a(1)] moved_trans by auto
  qed
qed simp

lemma jump_line_end:
  assumes "current_token s = TOKENIZER_ENDOFINPUT" "tokenizer_finished s = Some True"
  shows "jump_line n s = No_fuel"
proof (induction n)
  case (Suc n)
  have "jump_token n s = No_fuel \<or> jump_token n s = Ret s" using assms by (cases n) (auto simp: tokenizer_next_def)
  then show ?case using Suc assms(1) by auto
qed simp

lemma end_finished: "at_toks s [tk_end] \<Longrightarrow> current_token s = TOKENIZER_ENDOFINPUT \<and> tokenizer_finished s = Some True"
  by (auto simp: at_toks_def stands_def get_next_token_def bind_Some_iff tokenizer_finished_def)

lemma jump_line_any:
  assumes "at_toks s (prog_toks (drop i P))" "i < length P"
  shows "jump_line n s = No_fuel \<or> (i + 1 < length P \<and> (\<exists>s'. jump_line n s = Ret s' \<and> at_toks s' (prog_toks (drop (i + 1) P)) \<and> moved s s'))"
proof (cases n)
  case (Suc m)
  have a: "at_toks s (N (fst (P ! i)) # stmt_toks (snd (P ! i)) @ tk_cr # prog_toks (drop (i + 1) P))" using assms prog_toks_drop [of i P] by simp
  consider "jump_token m s = No_fuel" | s1 where "jump_token m s = Ret s1" "at_toks s1 (tk_cr # prog_toks (drop (i + 1) P))" "moved s s1"
    using jump_token_any [OF a] stmt_inside by auto
  then show ?thesis
  proof cases
    case (2 s1)
    obtain s2 where s2: "tokenizer_next s1 = Some s2" "at_toks s2 (prog_toks (drop (i + 1) P))" "moved s1 s2" by (rule next_at [OF 2(2)]) simp
    show ?thesis
    proof (cases "i + 1 < length P")
      case True
      then have "current_token s2 = TOKENIZER_NUMBER" using at_current s2(2) prog_toks_drop by (metis tok_of.simps(2))
      then show ?thesis using Suc 2 s2 True at_current [OF 2(2)] moved_trans by auto
    next
      case False
      then have "i + 1 = length P" using assms(2) by simp
      then have "at_toks s2 [tk_end]" using s2(2) prog_toks_end by metis
      then show ?thesis using Suc 2 s2 at_current [OF 2(2)] end_finished jump_line_end [of s2] by auto
    qed
  qed (use Suc in simp)
qed simp

lemma line_of_None: "line_of P k = None \<Longrightarrow> i < length P \<Longrightarrow> k \<noteq> int (fst (P ! i) mod 256)"
proof
  assume "line_of P k = None" "i < length P" "k = int (fst (P ! i) mod 256)"
  moreover have "k \<in> set (map (\<lambda>l. int (fst l mod 256)) P)" using calculation(2,3) nth_mem [of i P] by (auto simp del: zmod_int of_nat_mod)
  ultimately show False by (simp add: line_of_def map_of_zip_is_None)
qed

lemma jump_find_missing:
  assumes "line_of P k = None" "at_toks s (prog_toks (drop i P))" "i < length P"
  shows "jump_find n k s = No_fuel"
  using assms(2,3)
proof (induction n arbitrary: i s)
  case (Suc n)
  have "tokenizer_num s = Some (of_nat (fst (P ! i)))" using num_at Suc.prems prog_toks_drop by metis
  then show ?case using jump_line_any [OF Suc.prems, of n] Suc.IH line_of_None [OF assms(1) Suc.prems(2)] by (auto simp: uint_of_nat_mod)
qed simp

lemma jump_missing:
  assumes "P \<noteq> []" "text_of (prog s) P" "index_ok P s" "line_of P k = None"
  shows "jump_linenum n k s = No_fuel"
proof -
  obtain s1 where s1: "tokenizer_init s = Some s1" "at_toks s1 (prog_toks P)" by (rule start_at [OF assms(2,1)])
  have "index_find k s = None" using assms(3,4) by (fastforce simp: index_ok_def index_find_def map_of_eq_None_iff)
  then show ?thesis using s1 jump_find_missing [OF assms(4), of s1 0 n] assms(1) by (simp add: jump_linenum_def jump_linenum_slow_def)
qed

text \<open>C34. In a well-formed program, a jump to a number to which no line is equal modulo 256 never returns: the search stays at the end of the text, and no
  number of rounds is enough.  Numbers are kept in a \<open>char\<close>, so a jump to 266 finds line 10.\<close>

theorem ubasic_missing_line_hangs:
  assumes "matches P s a" "running P a" "snd (P ! pc a) = Goto k" "prog_ok P" "line_of P (int (k mod 256)) = None"
  shows "ubasic_run pf n s = No_fuel"
proof -
  let ?k = "fst (P ! pc a)" let ?s = "index_add (int (?k mod 256)) (ptr s) s"
  have r: "\<not> halted a" "pc a < length P" using assms(2) by (auto simp: running_def)
  have d: "data_ok P s a" "at_toks s (prog_toks (drop (pc a) P))" using assms(1) r(1) by (auto simp: matches_def)
  have a: "at_toks s (N ?k # K TOKENIZER_GOTO # N k # tk_cr # next_line P a)" using d(2) prog_toks_drop [OF r(2)] assms(3) by (simp add: next_line_def)
  have d1: "data_ok P ?s a" by (rule index_add_data [OF assms(4) d(1) r(2) d(2)])
  have "at_toks ?s (N ?k # K TOKENIZER_GOTO # N k # tk_cr # next_line P a)" using a by (simp add: index_add_def)
  then obtain s1 where s1: "accept TOKENIZER_NUMBER ?s = Some s1" "at_toks s1 (K TOKENIZER_GOTO # N k # tk_cr # next_line P a)" "moved ?s s1" by (rule accept_at) auto
  obtain s2 where s2: "accept TOKENIZER_GOTO s1 = Some s2" "at_toks s2 (N k # tk_cr # next_line P a)" "moved s1 s2" by (rule accept_at [OF s1(2)]) auto
  have "data_ok P s2 a" by (rule data_moved [OF data_moved [OF d1 s1(3)] s2(3)])
  then have j: "jump_linenum i (int (k mod 256)) s2 = No_fuel" for i
    using jump_missing [OF _ _ _ assms(5)] assms(4) by (simp add: data_ok_def prog_ok_def)
  have "statement pf n s1 = No_fuel" using j s2(1) num_at [OF s2(2)] at_current [OF s1(2)] by (cases n) (simp_all add: goto_statement_def uint_of_nat_mod)
  moreover have "tokenizer_finished s = Some False" using finished_running [OF assms(1)] d(1) r(1) assms(2) by (simp add: ubasic_finished_def data_ok_def)
  ultimately show ?thesis using num_at [OF a] s1(1) by (simp add: ubasic_run_def line_statement_def uint_of_nat_mod)
qed

definition goto_lines :: basic where
  "goto_lines = [(10, Goto 20)]"

definition goto_layout :: layout where
  "goto_layout = map (\<lambda>t. (t, 1)) (prog_toks goto_lines)"

theorem ubasic_missing_line_hangs_witness: "\<exists>s. ubasic_init (layout_text goto_layout) zero_state = Some s \<and> (\<forall>n. ubasic_run None n s = No_fuel)"
proof -
  have ok: "prog_ok goto_lines" "line_of goto_lines (int (20 mod 256)) = None" "layout_ok goto_layout" "map fst goto_layout = prog_toks goto_lines"
    by code_simp+
  obtain s where s: "ubasic_init (layout_text goto_layout) zero_state = Some s" "matches goto_lines s (start zero_state)"
    using init_matches [OF ok(1) layout_text_of [OF ok(1,3,4)] basic_lines_ok(2)] by blast
  have "running goto_lines (start zero_state)" "snd (goto_lines ! pc (start zero_state)) = Goto 20" by (simp_all add: running_def start_def goto_lines_def)
  then show ?thesis using ubasic_missing_line_hangs [OF s(2) _ _ ok(1,2)] s(1) by blast
qed

section \<open>Branches with \<open>else\<close>\<close>

definition else_text :: "u8 list" where
  "else_text = bytes_of ''1 if 1 then print 2 else print 3'' @ [10, 0]"

text \<open>A taken branch that does not leave its line runs into its \<open>else\<close>: both branches print, although the
  condition holds.\<close>

theorem ubasic_else_runs_both:
  "\<exists>s. lkbasic 3 20 else_text zero_state = Ret s \<and> printed s = bytes_of ''2'' @ [10] @ bytes_of ''3'' @ [10]"
proof -
  have "(case lkbasic 3 20 else_text zero_state of Ret s \<Rightarrow> printed s = bytes_of ''2'' @ [10] @ bytes_of ''3'' @ [10] | _ \<Rightarrow> False)" by code_simp
  then show ?thesis by (auto split: outcome.splits)
qed

end
