(* ===== verification/Kforth.thy ===== *)
theory Kforth
  imports Clib
begin

text \<open>
  The Forth of \<open>exp/kforth\<close>: tokens, the compiler to word lists and the inner interpreter (\<open>kforth.c\<close>), the primitive
  words (\<open>dictionary_1.c\<close>) and the processing of a line (\<open>main.c\<close>).

  Dictionary entries are named by numbers that stand for their addresses: the primitives have the first
  ones, and every word that is defined takes a new one.  The two stacks are arrays with an index; the dictionary
  is the list of its entries from the newest on.  An \<open>int\<close> that is used as the address of an entry, and the other way round,
  goes through the functions of \<open>kenv\<close>.  Accesses outside an array, to a freed entry and through a null
  pointer are undefined, and so is an overflow of an \<open>int\<close>.  Memory for new words is taken to be available.
\<close>

section \<open>Words\<close>

datatype prim = Bye | Reset | Load | Save | List_names | List_full | Dot | Dot_s | Dot_sl | Increment | Mul | Plus_f | Plus | Minus | Get | Store
  | Roll | Pick | Tuck | Over | Rot | Swap | Drop | Dup | Max | Greater_than | Not_equal | Greater_than_equal | Less_than | Equal
  | Endif | Elif | If | Cr | While | Do | For_i | For_a | Loop | For_loop | For | Write | Read

text \<open>\<open>dictionary_1\<close>, from its head.\<close>

definition primitives :: "(string \<times> prim) list" where
  "primitives =
     [(''bye'', Bye), (''reset'', Reset), (''load'', Load), (''save'', Save), (''?'', List_names), (''??'', List_full), (''.'', Dot), (''.s'', Dot_s),
      (''.sl'', Dot_sl), (''1+'', Increment), (''*'', Mul), (''f+'', Plus_f), (''+'', Plus), (''-'', Minus), (''get'', Get), (''store'', Store),
      (''roll'', Roll), (''pick'', Pick), (''tuck'', Tuck), (''over'', Over), (''rot'', Rot), (''swap'', Swap), (''drop'', Drop), (''dup'', Dup),
      (''max'', Max), (''>'', Greater_than), (''!='', Not_equal), (''>='', Greater_than_equal), (''<'', Less_than), (''='', Equal),
      (''endif'', Endif), (''elif'', Elif), (''if'', If), (''cr'', Cr), (''while'', While), (''do'', Do), (''I'', For_i), (''A'', For_a),
      (''loop'', Loop), (''forloop'', For_loop), (''for'', For), (''write'', Write), (''read'', Read)]"

text \<open>The data of a literal: a number, the address of an entry, the null pointer, or the address of the local variable that holds
  a floating-point number while it is compiled.\<close>

datatype data = D_int int | D_word nat | D_null | D_frame

text \<open>A string is followed by the items its characters take up; \<open>Raw\<close> keeps the byte that stands where the type would be.\<close>

datatype code_item = Literal data | Word nat | Str "u8 list" | Raw u8 | Label | Branch int | Recursive | End | Unset

datatype word_fn = Null | Prim prim | Wild

record kword =
  name :: "u8 list"
  word_fn :: word_fn
  word_list :: "code_item list"

section \<open>The context\<close>

definition MAX_COMPILE_WORDS :: nat where "MAX_COMPILE_WORDS = 100"

text \<open>The context with the static variables: the word list that is compiled, the flag that \<open>bye\<close> sets, and the console.\<close>

record kctx =
  stack :: "int list"
  stack_ptr :: nat
  loop_stack :: "int list"
  loop_stack_ptr :: nat
  entries :: "nat \<Rightarrow> kword option"
  dictionary :: "nat list"
  saved_dictionary :: "nat list"
  next_entry :: nat
  new_word_list :: "code_item list"
  exit_flag :: bool
  output_text :: "u8 list"

text \<open>Addresses as \<open>int\<close>s, whether the memory that \<open>malloc\<close> returns for a word is zero at \<open>word_fn\<close>, and the listing of the
  addresses of the dictionary.\<close>

record kenv =
  entry_addr :: "nat \<Rightarrow> int"
  cell_entry :: "int \<Rightarrow> nat option"
  frame_addr :: int
  zero_fn :: "nat \<Rightarrow> bool"
  listing :: "u8 list"

definition puts :: "u8 list \<Rightarrow> kctx \<Rightarrow> kctx" where
  "puts bs s = s\<lparr>output_text := output_text s @ bs\<rparr>"

definition cr_lf :: "u8 list" where
  "cr_lf = [13, 10]"

text \<open>\<open>stack_ptr[i]\<close>.\<close>

definition at_ptr :: "int list \<Rightarrow> nat \<Rightarrow> int \<Rightarrow> int option" where
  "at_ptr xs p i = (if 0 \<le> int p + i then peek xs (nat (int p + i)) else None)"

definition set_ptr :: "int list \<Rightarrow> nat \<Rightarrow> int \<Rightarrow> int \<Rightarrow> int list option" where
  "set_ptr xs p i v = (if 0 \<le> int p + i then poke xs (nat (int p + i)) v else None)"

definition stk :: "int \<Rightarrow> kctx \<Rightarrow> int option" where
  "stk i s = at_ptr (stack s) (stack_ptr s) i"

definition set_stk :: "int \<Rightarrow> int \<Rightarrow> kctx \<Rightarrow> kctx option" where
  "set_stk i v s = map_option (\<lambda>xs. s\<lparr>stack := xs\<rparr>) (set_ptr (stack s) (stack_ptr s) i v)"

definition drop_stk :: "nat \<Rightarrow> kctx \<Rightarrow> kctx option" where
  "drop_stk k s = (if k \<le> stack_ptr s then Some (s\<lparr>stack_ptr := stack_ptr s - k\<rparr>) else None)"

definition push_int :: "int \<Rightarrow> kctx \<Rightarrow> kctx option" where
  "push_int v s = map_option (\<lambda>s. s\<lparr>stack_ptr := stack_ptr s + 1\<rparr>) (set_stk 0 v s)"

definition pop_int :: "kctx \<Rightarrow> (int \<times> kctx) option" where
  "pop_int s = do { s \<leftarrow> drop_stk 1 s; v \<leftarrow> stk 0 s; Some (v, s) }"

definition lstk :: "int \<Rightarrow> kctx \<Rightarrow> int option" where
  "lstk i s = at_ptr (loop_stack s) (loop_stack_ptr s) i"

definition set_lstk :: "int \<Rightarrow> int \<Rightarrow> kctx \<Rightarrow> kctx option" where
  "set_lstk i v s = map_option (\<lambda>xs. s\<lparr>loop_stack := xs\<rparr>) (set_ptr (loop_stack s) (loop_stack_ptr s) i v)"

definition drop_lstk :: "nat \<Rightarrow> kctx \<Rightarrow> kctx option" where
  "drop_lstk k s = (if k \<le> loop_stack_ptr s then Some (s\<lparr>loop_stack_ptr := loop_stack_ptr s - k\<rparr>) else None)"

definition LOOP_STACK_PUSH :: "int \<Rightarrow> kctx \<Rightarrow> kctx option" where
  "LOOP_STACK_PUSH v s = map_option (\<lambda>s. s\<lparr>loop_stack_ptr := loop_stack_ptr s + 1\<rparr>) (set_lstk 0 v s)"

definition kforth_init_context :: "kctx \<Rightarrow> kctx" where
  "kforth_init_context s = s\<lparr>stack_ptr := 0, loop_stack_ptr := 0, dictionary := [0..<length primitives], saved_dictionary := [0..<length primitives]\<rparr>"

section \<open>Primitive words\<close>

text \<open>Every primitive returns the number of items that are skipped.\<close>

type_synonym fn = "kctx \<Rightarrow> (int \<times> kctx) option"

fun hex_nat :: "nat \<Rightarrow> u8 list" where
  "hex_nat n = (if n < 10 then [of_nat (48 + n)] else if n < 16 then [of_nat (55 + n)] else hex_nat (n div 16) @ hex_nat (n mod 16))"

declare hex_nat.simps [simp del]

text \<open>\<open>%X\<close> of an \<open>int\<close>, and with eight digits.\<close>

definition hex :: "int \<Rightarrow> u8 list" where
  "hex v = hex_nat (nat (v mod 2 ^ 32))"

definition hex08 :: "int \<Rightarrow> u8 list" where
  "hex08 v = (let h = hex v in replicate (8 - length h) 48 @ h)"

definition finish :: "kctx \<Rightarrow> (int \<times> kctx) option" where
  "finish s = Some (0, s)"

definition fn_bye :: fn where
  "fn_bye s = finish (s\<lparr>exit_flag := True\<rparr>)"

definition fn_write :: fn where
  "fn_write s = do {
     a \<leftarrow> stk (-1) s;
     b \<leftarrow> stk (-2) s;
     s \<leftarrow> drop_stk 2 (puts (bytes_of ''Writing 0x'' @ hex a @ bytes_of '' to 0x'' @ hex08 b @ cr_lf) s);
     finish s
   }"

definition fn_read :: fn where
  "fn_read s = do {
     a \<leftarrow> stk (-1) s;
     (_, s) \<leftarrow> pop_int (puts (bytes_of ''Reading From 0x'' @ hex08 a @ cr_lf) s);
     s \<leftarrow> push_int 0 s;
     finish s
   }"

definition fn_print_top :: fn where
  "fn_print_top s =
     (if stack_ptr s = 0 then finish (puts (bytes_of ''EOS'' @ cr_lf) s)
      else do { a \<leftarrow> stk (-1) s; s \<leftarrow> drop_stk 1 (puts (dec_int a @ bytes_of '' '') s); finish s })"

definition print_cells :: "int list \<Rightarrow> u8 list" where
  "print_cells xs = concat (map (\<lambda>x. dec_int x @ bytes_of '' '') xs) @ cr_lf"

definition fn_print_stack :: fn where
  "fn_print_stack s = (if stack_ptr s \<le> length (stack s) then finish (puts (print_cells (take (stack_ptr s) (stack s))) s) else None)"

definition fn_print_loop_stack :: fn where
  "fn_print_loop_stack s =
     (if loop_stack_ptr s \<le> length (loop_stack s) then finish (puts (print_cells (take (loop_stack_ptr s) (loop_stack s))) s) else None)"

text \<open>The words that replace the two upper cells by a result.\<close>

definition binary_fn :: "(int \<Rightarrow> int \<Rightarrow> int option) \<Rightarrow> fn" where
  "binary_fn f s = do { a \<leftarrow> stk (-2) s; b \<leftarrow> stk (-1) s; v \<leftarrow> f a b; s \<leftarrow> set_stk (-2) v s; s \<leftarrow> drop_stk 1 s; finish s }"

definition forth_flag :: "bool \<Rightarrow> int" where
  "forth_flag b = (if b then -1 else 0)"

definition fn_plus :: fn where "fn_plus = binary_fn (\<lambda>a b. c_int (a + b))"
definition fn_mul :: fn where "fn_mul = binary_fn (\<lambda>a b. c_int (a * b))"
definition fn_minus :: fn where "fn_minus = binary_fn (\<lambda>a b. c_int (a - b))"
definition fn_mod :: fn where
  "fn_mod = binary_fn (\<lambda>a b. if b = 0 \<or> (a = - (2 ^ 31) \<and> b = -1) then None else Some (a smod b))"
definition fn_not_equal :: fn where "fn_not_equal = binary_fn (\<lambda>a b. Some (forth_flag (a \<noteq> b)))"
definition fn_greater_than :: fn where "fn_greater_than = binary_fn (\<lambda>a b. Some (forth_flag (a > b)))"
definition fn_less_than :: fn where "fn_less_than = binary_fn (\<lambda>a b. Some (forth_flag (a < b)))"
definition fn_greater_than_equal :: fn where "fn_greater_than_equal = binary_fn (\<lambda>a b. Some (forth_flag (a \<ge> b)))"
definition fn_equal :: fn where "fn_equal = binary_fn (\<lambda>a b. Some (forth_flag (a = b)))"

definition fn_increment :: fn where
  "fn_increment s = do { a \<leftarrow> stk (-1) s; v \<leftarrow> c_int (a + 1); s \<leftarrow> set_stk (-1) v s; finish s }"

text \<open>Copying between cells.\<close>

definition move_stk :: "int \<Rightarrow> int \<Rightarrow> kctx \<Rightarrow> kctx option" where
  "move_stk i j s = do { v \<leftarrow> stk j s; set_stk i v s }"

definition fn_rot :: fn where
  "fn_rot s = do { s \<leftarrow> move_stk 0 (-3) s; s \<leftarrow> move_stk (-3) (-2) s; s \<leftarrow> move_stk (-2) (-1) s; s \<leftarrow> move_stk (-1) 0 s; finish s }"

definition inc_ptr :: "kctx \<Rightarrow> kctx" where
  "inc_ptr s = s\<lparr>stack_ptr := stack_ptr s + 1\<rparr>"

definition fn_over :: fn where
  "fn_over s = do { s \<leftarrow> move_stk 0 (-2) s; finish (inc_ptr s) }"

definition fn_tuck :: fn where
  "fn_tuck s = do { s \<leftarrow> move_stk 0 (-1) s; s \<leftarrow> move_stk (-1) (-2) s; s \<leftarrow> move_stk (-2) 0 s; finish (inc_ptr s) }"

definition fn_max :: fn where
  "fn_max s = do {
     a \<leftarrow> stk (-1) s;
     b \<leftarrow> stk (-2) s;
     s \<leftarrow> (if a > b then set_stk (-2) a s else Some s);
     s \<leftarrow> drop_stk 1 s;
     finish s
   }"

definition fn_dup :: fn where
  "fn_dup s = do { s \<leftarrow> move_stk 0 (-1) s; finish (inc_ptr s) }"

definition fn_drop :: fn where
  "fn_drop s = (if stack_ptr s \<noteq> 0 then do { s \<leftarrow> drop_stk 1 s; finish s } else finish s)"

definition fn_swap :: fn where
  "fn_swap s = do { s \<leftarrow> move_stk 0 (-2) s; s \<leftarrow> move_stk (-2) (-1) s; s \<leftarrow> move_stk (-1) 0 s; finish s }"

definition fn_pick :: fn where
  "fn_pick s = do { n \<leftarrow> stk (-1) s; i \<leftarrow> c_int (- 2 - n); s \<leftarrow> move_stk (-1) i s; finish s }"

fun roll_loop :: "nat \<Rightarrow> kctx \<Rightarrow> kctx option" where
  "roll_loop 0 s = Some s"
| "roll_loop (Suc k) s = do { s \<leftarrow> move_stk (- 2 - int (Suc k)) (- 2 - int k) s; roll_loop k s }"

definition fn_roll :: fn where
  "fn_roll s = do {
     n \<leftarrow> stk (-1) s;
     i \<leftarrow> c_int (- 2 - n);
     s \<leftarrow> move_stk 0 i s;
     s \<leftarrow> roll_loop (nat n) s;
     s \<leftarrow> move_stk (-2) 0 s;
     s \<leftarrow> drop_stk 1 s;
     finish s
   }"

definition fn_for_i :: fn where
  "fn_for_i s = do { v \<leftarrow> lstk (-2) s; s \<leftarrow> push_int v s; finish s }"

definition fn_do :: fn where
  "fn_do s = do {
     a \<leftarrow> stk (-1) s;
     s \<leftarrow> LOOP_STACK_PUSH a s;
     b \<leftarrow> stk (-2) s;
     s \<leftarrow> LOOP_STACK_PUSH b s;
     s \<leftarrow> drop_stk 2 s;
     finish s
   }"

definition fn_loop :: fn where
  "fn_loop s = do {
     s \<leftarrow> drop_lstk 1 s;
     i \<leftarrow> lstk (-2) s;
     i \<leftarrow> c_int (i + 1);
     s \<leftarrow> set_lstk (-2) i s;
     limit \<leftarrow> lstk (-1) s;
     if i \<ge> limit then do { s \<leftarrow> drop_lstk 3 s; finish s }
     else do { l1 \<leftarrow> lstk (-3) s; l2 \<leftarrow> lstk 0 s; k \<leftarrow> c_int (l1 - l2); Some (k, s) }
   }"

definition fn_for :: fn where
  "fn_for s = do {
     (c, s) \<leftarrow> pop_int s;
     s \<leftarrow> LOOP_STACK_PUSH c s;
     (b, s) \<leftarrow> pop_int s;
     s \<leftarrow> LOOP_STACK_PUSH b s;
     (a, s) \<leftarrow> pop_int s;
     s \<leftarrow> LOOP_STACK_PUSH a s;
     finish s
   }"

definition fn_for_loop :: fn where
  "fn_for_loop s = do {
     s \<leftarrow> drop_lstk 1 s;
     a \<leftarrow> lstk (-1) s;
     b \<leftarrow> lstk (-2) s;
     c \<leftarrow> lstk (-3) s;
     v \<leftarrow> c_int (a + c);
     if (a \<le> b \<and> v \<ge> b) \<or> (a \<ge> b \<and> v \<le> b) then do { s \<leftarrow> drop_lstk 4 s; finish s }
     else do {
       s \<leftarrow> set_lstk (-1) v s;
       l1 \<leftarrow> lstk (-4) s;
       l2 \<leftarrow> lstk 0 s;
       k \<leftarrow> c_int (l1 - l2);
       Some (k, s)
     }
   }"

definition fn_for_a :: fn where
  "fn_for_a s = do { v \<leftarrow> lstk (-1) s; s \<leftarrow> push_int v s; finish s }"

definition fn_while :: fn where
  "fn_while s = do {
     s \<leftarrow> drop_lstk 1 s;
     (c, s) \<leftarrow> pop_int s;
     if c = -1 then do { l1 \<leftarrow> lstk (-1) s; l2 \<leftarrow> lstk 0 s; k \<leftarrow> c_int (l1 - l2); Some (k, s) }
     else do { s \<leftarrow> drop_lstk 1 s; finish s }
   }"

definition fn_elif :: fn where
  "fn_elif = pop_int"

definition fn_if :: fn where
  "fn_if s = do {
     s \<leftarrow> drop_stk 2 s;
     c \<leftarrow> stk 0 s;
     if c = -1 then finish s else do { k \<leftarrow> stk 1 s; Some (k, s) }
   }"

text \<open>The names of the dictionary; an entry that has been freed cannot be read.\<close>

fun dict_names :: "(nat \<Rightarrow> kword option) \<Rightarrow> nat list \<Rightarrow> u8 list list option" where
  "dict_names es [] = Some []"
| "dict_names es (w # ws) = do { e \<leftarrow> es w; ns \<leftarrow> dict_names es ws; Some (name e # ns) }"

text \<open>Ten names on a line, each but the last padded to the longest and two more.\<close>

fun print_names :: "nat \<Rightarrow> nat \<Rightarrow> u8 list list \<Rightarrow> u8 list" where
  "print_names width i [] = []"
| "print_names width i (n # ns) =
     (if i mod 10 = 0 then n @ cr_lf else n @ replicate (width - length n) 32) @ print_names width (i + 1) ns"

definition fn_print_dictionary :: fn where
  "fn_print_dictionary s = do {
     ns \<leftarrow> dict_names (entries s) (dictionary s);
     let width = foldr (\<lambda>n m. max (length n) m) ns 0 + 2;
     finish (puts (bytes_of ''Print Dictionary'' @ cr_lf @ print_names width 1 ns @ cr_lf @ cr_lf) s)
   }"

definition fn_cr :: fn where
  "fn_cr s = finish (puts cr_lf s)"

text \<open>Reading and writing the \<open>data\<close> of an item.  The address of a word must not be overwritten by a number.\<close>

definition data_int :: "kenv \<Rightarrow> data \<Rightarrow> int" where
  "data_int env d = (case d of D_int v \<Rightarrow> v | D_word w \<Rightarrow> entry_addr env w | D_null \<Rightarrow> 0 | D_frame \<Rightarrow> frame_addr env)"

definition item_data :: "kenv \<Rightarrow> code_item \<Rightarrow> int option" where
  "item_data env it = (case it of Literal d \<Rightarrow> Some (data_int env d) | Branch v \<Rightarrow> Some v | Word w \<Rightarrow> Some (entry_addr env w) | _ \<Rightarrow> None)"

definition set_data :: "int \<Rightarrow> code_item \<Rightarrow> code_item option" where
  "set_data v it = (case it of Literal d \<Rightarrow> Some (Literal (D_int v)) | Branch w \<Rightarrow> Some (Branch v) | Word w \<Rightarrow> None | Raw c \<Rightarrow> None | _ \<Rightarrow> Some it)"

definition fn_store :: "kenv \<Rightarrow> fn" where
  "fn_store env s = do {
     a \<leftarrow> stk (-2) s;
     w \<leftarrow> cell_entry env a;
     e \<leftarrow> entries s w;
     it \<leftarrow> peek (word_list e) 0;
     v \<leftarrow> stk (-1) s;
     it \<leftarrow> set_data v it;
     s \<leftarrow> drop_stk 2 (s\<lparr>entries := (entries s)(w \<mapsto> e\<lparr>word_list := (word_list e)[0 := it]\<rparr>)\<rparr>);
     finish s
   }"

definition fn_get :: "kenv \<Rightarrow> fn" where
  "fn_get env s = do {
     a \<leftarrow> stk (-1) s;
     w \<leftarrow> cell_entry env a;
     e \<leftarrow> entries s w;
     it \<leftarrow> peek (word_list e) 0;
     v \<leftarrow> item_data env it;
     s \<leftarrow> set_stk (-1) v s;
     finish s
   }"

text \<open>Calling a primitive.  \<open>f+\<close> is a function that returns a \<open>double\<close>, and calling it as one that returns an \<open>int\<close> is
  undefined.\<close>

definition call_fn :: "kenv \<Rightarrow> prim \<Rightarrow> fn" where
  "call_fn env p = (case p of
     Bye \<Rightarrow> fn_bye | Reset \<Rightarrow> finish | Load \<Rightarrow> finish | Save \<Rightarrow> finish | List_names \<Rightarrow> fn_print_dictionary
   | List_full \<Rightarrow> (\<lambda>s. finish (puts (listing env) s)) | Dot \<Rightarrow> fn_print_top | Dot_s \<Rightarrow> fn_print_stack | Dot_sl \<Rightarrow> fn_print_loop_stack
   | Increment \<Rightarrow> fn_increment | Mul \<Rightarrow> fn_mul | Plus_f \<Rightarrow> (\<lambda>s. None) | Plus \<Rightarrow> fn_plus | Minus \<Rightarrow> fn_minus
   | Get \<Rightarrow> fn_get env | Store \<Rightarrow> fn_store env | Roll \<Rightarrow> fn_roll | Pick \<Rightarrow> fn_pick | Tuck \<Rightarrow> fn_tuck | Over \<Rightarrow> fn_over | Rot \<Rightarrow> fn_rot
   | Swap \<Rightarrow> fn_swap | Drop \<Rightarrow> fn_drop | Dup \<Rightarrow> fn_dup | Max \<Rightarrow> fn_max | Greater_than \<Rightarrow> fn_greater_than | Not_equal \<Rightarrow> fn_not_equal
   | Greater_than_equal \<Rightarrow> fn_greater_than_equal | Less_than \<Rightarrow> fn_less_than | Equal \<Rightarrow> fn_equal | Endif \<Rightarrow> finish | Elif \<Rightarrow> fn_elif | If \<Rightarrow> fn_if
   | Cr \<Rightarrow> fn_cr | While \<Rightarrow> fn_while | Do \<Rightarrow> fn_do | For_i \<Rightarrow> fn_for_i | For_a \<Rightarrow> fn_for_a | Loop \<Rightarrow> fn_loop | For_loop \<Rightarrow> fn_for_loop
   | For \<Rightarrow> fn_for | Write \<Rightarrow> fn_write | Read \<Rightarrow> fn_read)"

end
