(* ===== verification/Kforth_Int.thy ===== *)
theory Kforth_Int
  imports Kforth
begin

text \<open>
  The compiler and the inner interpreter of \<open>kforth.c\<close>: tokens of a line, word lists, running a word,
  the dictionary, and the processing of a statement.
\<close>

section \<open>Tokens\<close>

text \<open>The closing quote of a string, the first that no backslash stands before, or the end of the text.\<close>

function close_quote :: "u8 list \<Rightarrow> nat \<Rightarrow> nat option" where
  "close_quote b i = do {
     c \<leftarrow> peek b i;
     if c = 0 then Some i
     else do { d \<leftarrow> peek b (i - 1); if c = 0x22 \<and> d \<noteq> 0x5C then Some i else close_quote b (i + 1) }
   }"
  by pat_completeness auto
termination by (relation "measure (\<lambda>(b, i). length b - i)") (auto simp: peek_Some_iff)

declare close_quote.simps [simp del]

text \<open>The end of a plain token.\<close>

function token_end :: "u8 list \<Rightarrow> nat \<Rightarrow> nat option" where
  "token_end b i = do { c \<leftarrow> peek b i; if c = 0 \<or> c = 0x20 then Some i else token_end b (i + 1) }"
  by pat_completeness auto
termination by (relation "measure (\<lambda>(b, i). length b - i)") (auto simp: peek_Some_iff)

declare token_end.simps [simp del]

lemma close_quote_ge: "close_quote b i = Some j \<Longrightarrow> i \<le> j \<and> j < length b"
proof (induction b i rule: close_quote.induct)
  case (1 b i)
  then show ?case by (subst (asm) (2) close_quote.simps) (fastforce simp: bind_Some_iff peek_Some_iff split: if_splits)
qed

lemma token_end_ge: "token_end b i = Some j \<Longrightarrow> i \<le> j \<and> j < length b"
proof (induction b i rule: token_end.induct)
  case (1 b i)
  then show ?case by (subst (asm) (2) token_end.simps) (fastforce simp: bind_Some_iff peek_Some_iff split: if_splits)
qed

text \<open>\<open>get_token\<close> with the static pointer \<open>p2\<close>: the place of the token, if there is one, whether a quote is open, the line, in which the token
  is ended by a zero, and the new \<open>p2\<close>.\<close>

type_synonym token_result = "nat option \<times> bool \<times> u8 list \<times> nat"

definition quoted_token :: "u8 list \<Rightarrow> nat \<Rightarrow> token_result option" where
  "quoted_token b p = do {
     q \<leftarrow> close_quote b (p + 1);
     c \<leftarrow> peek b q;
     if c = 0 then Some (None, True, b, q)
     else do {
       b \<leftarrow> poke b q 0;
       d \<leftarrow> peek b (q + 1);
       if d = 0 then Some (Some p, False, b, q + 1) else do { b \<leftarrow> poke b (q + 1) 0; Some (Some p, False, b, q + 2) }
     }
   }"

definition plain_token :: "u8 list \<Rightarrow> nat \<Rightarrow> token_result option" where
  "plain_token b p = do {
     q \<leftarrow> token_end b p;
     d \<leftarrow> peek b q;
     if d = 0x20 then do { b \<leftarrow> poke b q 0; Some (Some p, False, b, q + 1) } else Some (Some p, False, b, q)
   }"

definition get_token :: "u8 list \<Rightarrow> nat \<Rightarrow> token_result option" where
  "get_token b p = do {
     c \<leftarrow> peek b p;
     if c = 0 then Some (None, False, b, p) else if c = 0x22 then quoted_token b p else plain_token b p
   }"

lemma quoted_token_step:
  assumes "quoted_token b p = Some (Some t, e, b', p')"
  shows "p < p'" "length b' = length b"
proof -
  obtain q where q: "close_quote b (p + 1) = Some q" using assms by (auto simp: quoted_token_def bind_Some_iff)
  then have "p < q" using close_quote_ge [OF q] by simp
  moreover have "p' = q + 1 \<or> p' = q + 2" "length b' = length b"
    using assms q by (auto simp: quoted_token_def bind_Some_iff poke_def split: if_splits)
  ultimately show "p < p'" "length b' = length b" by auto
qed

lemma plain_token_step:
  assumes "plain_token b p = Some (Some t, e, b', p')" "peek b p = Some c" "c \<noteq> 0"
  shows "p < p'" "length b' = length b"
proof -
  obtain q d where q: "token_end b p = Some q" "peek b q = Some d" using assms(1) by (auto simp: plain_token_def bind_Some_iff)
  then have r: "p' = (if d = 0x20 then q + 1 else q)" "length b' = length b"
    using assms(1) by (auto simp: plain_token_def poke_def bind_Some_iff split: if_splits)
  then show "length b' = length b" by simp
  have "p \<le> q" using token_end_ge [OF q(1)] by simp
  moreover have "p \<noteq> q \<or> d = 0x20" using q assms(2,3) token_end_ge [of b "p + 1" q] by (auto simp: token_end.simps [of b p] split: if_splits)
  ultimately show "p < p'" using r(1) by auto
qed

lemma get_token_step:
  assumes "get_token b p = Some (Some t, e, b', p')"
  shows "p < p'" "p < length b" "length b' = length b"
proof -
  obtain c where c: "peek b p = Some c" "c \<noteq> 0" using assms by (auto simp: get_token_def bind_Some_iff split: if_splits)
  then show "p < length b" by (simp add: peek_Some_iff)
  have "quoted_token b p = Some (Some t, e, b', p') \<or> plain_token b p = Some (Some t, e, b', p')" using assms c by (auto simp: get_token_def split: if_splits)
  then show "p < p'" "length b' = length b" using quoted_token_step plain_token_step [OF _ c] by blast+
qed

text \<open>All tokens from \<open>p\<close> on, with whether a quote stayed open.\<close>

function get_tokens :: "u8 list \<Rightarrow> nat \<Rightarrow> (u8 list list \<times> bool \<times> u8 list) option" where
  "get_tokens b p = (case get_token b p of None \<Rightarrow> None
     | Some (None, e, b', p') \<Rightarrow> Some ([], e, b')
     | Some (Some t, e, b', p') \<Rightarrow> do { w \<leftarrow> c_str (drop t b'); (ts, e, b'') \<leftarrow> get_tokens b' p'; Some (w # ts, e, b'') })"
  by pat_completeness auto
termination
proof (relation "measure (\<lambda>(b, p). length b - p)")
  fix b p r t u e v b' p' w
  assume "get_token b p = Some r" "(t, u) = r" "(e, v) = u" "(b', p') = v" "t = Some w"
  then have "get_token b p = Some (Some w, e, b', p')" by simp
  from get_token_step [OF this] show "((b', p'), b, p) \<in> measure (\<lambda>(b, p). length b - p)" by auto
qed simp

declare get_tokens.simps [simp del]

definition is_int :: "u8 list \<Rightarrow> bool" where
  "is_int t = list_all isdigit (if t \<noteq> [] \<and> hd t = 0x2D then tl t else t)"

definition is_float :: "u8 list \<Rightarrow> bool" where
  "is_float t \<longleftrightarrow> 0x2E \<in> set t"

definition is_str :: "u8 list \<Rightarrow> bool" where
  "is_str t \<longleftrightarrow> t \<noteq> [] \<and> hd t = 0x22"

section \<open>The compiler\<close>

fun find_word :: "(nat \<Rightarrow> kword option) \<Rightarrow> u8 list \<Rightarrow> nat list \<Rightarrow> nat option option" where
  "find_word es nm [] = Some None"
| "find_word es nm (w # ws) = do { e \<leftarrow> es w; if name e = nm then Some (Some w) else find_word es nm ws }"

definition get_word_by_name :: "kctx \<Rightarrow> u8 list \<Rightarrow> nat option option" where
  "get_word_by_name s nm = find_word (entries s) nm (dictionary s)"

text \<open>The next item of the list that is compiled.\<close>

definition emit :: "code_item \<Rightarrow> kctx \<times> nat \<Rightarrow> (kctx \<times> nat) option" where
  "emit it = (\<lambda>(s, i). map_option (\<lambda>l. (s\<lparr>new_word_list := l\<rparr>, i + 1)) (poke (new_word_list s) i it))"

text \<open>The items a string takes up, which have 16 bytes each.\<close>

definition str_items :: "u8 list \<Rightarrow> nat" where
  "str_items x = (length x + 16) div 16"

definition raw_items :: "u8 list \<Rightarrow> code_item list" where
  "raw_items x = map (\<lambda>k. Raw ((x @ [0]) ! (16 * k))) [0..<str_items x]"

fun emit_all :: "code_item list \<Rightarrow> kctx \<times> nat \<Rightarrow> (kctx \<times> nat) option" where
  "emit_all [] c = Some c"
| "emit_all (it # its) c = do { c \<leftarrow> emit it c; emit_all its c }"

text \<open>Filling in a branch.  An index that does not stand at an item whose data may be set would overwrite other data.\<close>

definition back_fill :: "int \<Rightarrow> int \<Rightarrow> kctx \<Rightarrow> kctx option" where
  "back_fill i v s =
     (if 0 \<le> i then do {
        it \<leftarrow> peek (new_word_list s) (nat i);
        it \<leftarrow> set_data v it;
        Some (s\<lparr>new_word_list := (new_word_list s)[nat i := it]\<rparr>)
      } else None)"

text \<open>What is added before the word itself: labels, and branches, whose places are kept on the stack.\<close>

definition compile_control :: "u8 list \<Rightarrow> kctx \<times> nat \<Rightarrow> (kctx \<times> nat) option" where
  "compile_control t = (\<lambda>(s, i).
     if t \<in> {bytes_of ''for'', bytes_of ''forloop'', bytes_of ''loop'', bytes_of ''do'', bytes_of ''while''} then emit Label (s, i)
     else if t = bytes_of ''if'' then do { (s, j) \<leftarrow> emit (Branch 0) (s, i); s \<leftarrow> push_int (int i) s; Some (s, j) }
     else if t = bytes_of ''elif'' then do {
       (k, s) \<leftarrow> pop_int s;
       s \<leftarrow> back_fill k (int i - k) s;
       (s, j) \<leftarrow> emit (Branch 0) (s, i);
       s \<leftarrow> push_int (int i) s;
       Some (s, j)
     }
     else if t = bytes_of ''endif'' then do { (k, s) \<leftarrow> pop_int s; s \<leftarrow> back_fill k (int i - k - 2) s; Some (s, i) }
     else Some (s, i))"

text \<open>A word, a number or a string.\<close>

definition compile_plain :: "u8 list \<Rightarrow> kctx \<times> nat \<Rightarrow> (kctx \<times> nat) option" where
  "compile_plain t = (\<lambda>(s, i). do {
     w \<leftarrow> get_word_by_name s t;
     if i < MAX_COMPILE_WORDS then
       case w of Some w \<Rightarrow> emit (Word w) (s, i)
       | None \<Rightarrow>
         if is_int t then do { v \<leftarrow> atoi (t @ [0]); emit (Literal (D_int v)) (s, i) }
         else if is_float t then emit (Literal D_frame) (s, i)
         else if is_str t then emit_all (Str (tl t) # raw_items (tl t)) (s, i)
         else Some (puts (bytes_of ''<<ERROR unknown word '' @ [0x27] @ t @ [0x27] @ bytes_of ''>>'' @ cr_lf) s, i)
     else None
   })"

text \<open>Compiling the tokens of a word: its name is a call of itself, and \<open>&\<close> takes the address of the next word.\<close>

fun compile_tokens :: "u8 list \<Rightarrow> u8 list list \<Rightarrow> kctx \<times> nat \<Rightarrow> (kctx \<times> nat) option" where
  "compile_tokens nm [] c = Some c"
| "compile_tokens nm (t # ts) c = do {
     c \<leftarrow> compile_control t c;
     if t = nm then do { c \<leftarrow> emit Recursive c; compile_tokens nm ts c }
     else if t = bytes_of ''&'' then (case ts of [] \<Rightarrow> None
       | u # us \<Rightarrow> do {
           w \<leftarrow> get_word_by_name (fst c) u;
           c \<leftarrow> emit (Literal (case w of None \<Rightarrow> D_null | Some w \<Rightarrow> D_word w)) c;
           compile_tokens nm us c
         })
     else if t = bytes_of '';'' then compile_tokens nm ts c
     else do { c \<leftarrow> compile_plain t c; compile_tokens nm ts c }
   }"

text \<open>\<open>kforth_compile_word\<close>: the state, with the list in \<open>new_word_list\<close>, its length and the line.\<close>

definition kforth_compile_word :: "u8 list \<Rightarrow> u8 list \<Rightarrow> nat \<Rightarrow> kctx \<Rightarrow> (kctx \<times> nat) option" where
  "kforth_compile_word nm b p s = do {
     (ts, open_quote, b) \<leftarrow> get_tokens b p;
     (s, i) \<leftarrow> compile_tokens nm ts (s, 0);
     emit End (if open_quote then puts (bytes_of ''<<ERROR: found open quote with no close quote>>'' @ cr_lf) s else s, i)
   }"

section \<open>Running words\<close>

text \<open>The word that has been compiled last, or an entry of the dictionary.\<close>

datatype entry = Temp | Entry nat

definition entry_fn :: "entry \<Rightarrow> kctx \<Rightarrow> word_fn option" where
  "entry_fn e s = (case e of Temp \<Rightarrow> Some Null | Entry w \<Rightarrow> map_option word_fn (entries s w))"

definition entry_items :: "entry \<Rightarrow> kctx \<Rightarrow> code_item list option" where
  "entry_items e s = (case e of Temp \<Rightarrow> Some (new_word_list s) | Entry w \<Rightarrow> map_option word_list (entries s w))"

definition entry_name :: "entry \<Rightarrow> kctx \<Rightarrow> u8 list option" where
  "entry_name e s = (case e of Temp \<Rightarrow> None | Entry w \<Rightarrow> map_option name (entries s w))"

definition item_at :: "entry \<Rightarrow> int \<Rightarrow> kctx \<Rightarrow> code_item option" where
  "item_at e i s = (if 0 \<le> i then do { its \<leftarrow> entry_items e s; peek its (nat i) } else None)"

text \<open>\<open>execute_word\<close> and its loop over the items from position \<open>i\<close> on; the fuel bounds calls and items.\<close>

fun execute_word :: "kenv \<Rightarrow> nat \<Rightarrow> entry \<Rightarrow> kctx \<Rightarrow> (int \<times> kctx) outcome"
  and execute_items :: "kenv \<Rightarrow> nat \<Rightarrow> entry \<Rightarrow> int \<Rightarrow> kctx \<Rightarrow> (int \<times> kctx) outcome" where
  "execute_word env 0 e s = No_fuel"
| "execute_word env (Suc n) e s = bindo (opt (entry_fn e s)) (\<lambda>f. case f of
     Wild \<Rightarrow> Undef | Prim p \<Rightarrow> opt (call_fn env p s) | Null \<Rightarrow> execute_items env n e 0 s)"
| "execute_items env 0 e i s = No_fuel"
| "execute_items env (Suc n) e i s =
     (if exit_flag s then Ret (0, s)
      else bindo (opt (item_at e i s)) (\<lambda>it. case it of
        End \<Rightarrow> Ret (0, s)
      | Literal d \<Rightarrow> bindo (opt (push_int (data_int env d) s)) (execute_items env n e (i + 1))
      | Word w \<Rightarrow> bindo (execute_word env n (Entry w) s) (\<lambda>(k, s). execute_items env n e (i + k + 1) s)
      | Str x \<Rightarrow> execute_items env n e (i + int (str_items x) + 1) (puts x s)
      | Label \<Rightarrow> bindo (opt (LOOP_STACK_PUSH i s)) (execute_items env n e (i + 1))
      | Branch v \<Rightarrow> bindo (opt (push_int v s)) (execute_items env n e (i + 1))
      | Recursive \<Rightarrow> bindo (execute_word env n e s) (\<lambda>(k, s). execute_items env n e (i + k + 1) s)
      | Unset \<Rightarrow> bindo (opt (entry_name e s)) (\<lambda>nm.
          Ret (-3, puts (bytes_of ''<<ERROR Failed to execute word '' @ [0x27] @ nm @ [0x27] @ bytes_of '', data type = 0>>'' @ cr_lf) s))
      | Raw c \<Rightarrow> Undef))"

definition kforth_execute_word :: "kenv \<Rightarrow> nat \<Rightarrow> u8 list \<Rightarrow> kctx \<Rightarrow> (int \<times> kctx) outcome" where
  "kforth_execute_word env n nm s =
     bindo (opt (get_word_by_name s nm)) (\<lambda>w. case w of None \<Rightarrow> Ret (-3, s) | Some w \<Rightarrow> execute_word env n (Entry w) s)"

section \<open>The dictionary\<close>

text \<open>References to \<open>old\<close> become references to \<open>new\<close>, up to the first item whose type byte is that of the end.  Bytes of a string that look like
  a reference are compared as addresses.\<close>

fun redirect :: "nat \<Rightarrow> nat \<Rightarrow> code_item list \<Rightarrow> code_item list option" where
  "redirect old new [] = None"
| "redirect old new (it # its) = (case it of
     End \<Rightarrow> Some (it # its)
   | Raw c \<Rightarrow> if c = 0x12 then Some (it # its) else if c = 0x14 then None else map_option ((#) it) (redirect old new its)
   | Word w \<Rightarrow> map_option ((#) (Word (if w = old then new else w))) (redirect old new its)
   | _ \<Rightarrow> map_option ((#) it) (redirect old new its))"

fun redirect_all :: "nat \<Rightarrow> nat \<Rightarrow> nat list \<Rightarrow> (nat \<Rightarrow> kword option) \<Rightarrow> (nat \<Rightarrow> kword option) option" where
  "redirect_all old new [] es = Some es"
| "redirect_all old new (w # ws) es = do {
     e \<leftarrow> es w;
     if word_fn e = Null then do {
       its \<leftarrow> redirect old new (word_list e);
       redirect_all old new ws (es(w \<mapsto> e\<lparr>word_list := its\<rparr>))
     }
     else redirect_all old new ws es
   }"

text \<open>A word that is defined again replaces the old one in all lists, and the old one is freed unless it is a primitive.
  The field \<open>word_fn\<close> of the new word is not set.\<close>

definition replace_word :: "nat \<Rightarrow> nat \<Rightarrow> kctx \<Rightarrow> kctx option" where
  "replace_word old new s = do {
     es \<leftarrow> redirect_all old new (dictionary s) (entries s);
     e \<leftarrow> es old;
     Some (if word_fn e = Null then s\<lparr>entries := es(old := None), dictionary := remove1 old (dictionary s)\<rparr> else s\<lparr>entries := es\<rparr>)
   }"

definition store_word :: "kenv \<Rightarrow> u8 list \<Rightarrow> nat \<Rightarrow> kctx \<Rightarrow> kctx option" where
  "store_word env nm len s = do {
     let new = next_entry s;
     old \<leftarrow> get_word_by_name s nm;
     s \<leftarrow> (case old of None \<Rightarrow> Some s | Some old \<Rightarrow> replace_word old new s);
     let e = \<lparr>name = nm, word_fn = (if zero_fn env new then Null else Wild), word_list = take len (new_word_list s)\<rparr>;
     Some (s\<lparr>entries := (entries s)(new \<mapsto> e), dictionary := new # dictionary s, next_entry := new + 1\<rparr>)
   }"

text \<open>\<open>see\<close>.\<close>

fun see_items :: "kctx \<Rightarrow> kenv \<Rightarrow> u8 list \<Rightarrow> nat \<Rightarrow> code_item list \<Rightarrow> u8 list option" where
  "see_items s env nm skip [] = None"
| "see_items s env nm (Suc skip) (it # its) = see_items s env nm skip its"
| "see_items s env nm 0 (it # its) = (case it of
     End \<Rightarrow> Some []
   | Literal d \<Rightarrow> map_option (\<lambda>x. dec_int (data_int env d) @ bytes_of '' '' @ x) (see_items s env nm 0 its)
   | Word w \<Rightarrow> do {
       ns \<leftarrow> dict_names (entries s) (takeWhile (\<lambda>v. v \<noteq> w) (dictionary s));
       n \<leftarrow> (if w \<in> set (dictionary s) then map_option name (entries s w) else Some (bytes_of ''<<ERRROR WORD NOT FOUND>> ''));
       x \<leftarrow> see_items s env nm 0 its;
       Some (n @ bytes_of '' '' @ x)
     }
   | Str y \<Rightarrow> map_option (\<lambda>x. [0x22] @ y @ [0x22, 0x20] @ x) (see_items s env nm (str_items y) its)
   | Label \<Rightarrow> see_items s env nm 0 its
   | Branch v \<Rightarrow> see_items s env nm 0 its
   | Recursive \<Rightarrow> map_option (\<lambda>x. nm @ bytes_of '' '' @ x) (see_items s env nm 0 its)
   | Unset \<Rightarrow> map_option (\<lambda>x. bytes_of ''UNKNOWN TYPE 0 '' @ x) (see_items s env nm 0 its)
   | Raw c \<Rightarrow> None)"

definition kforth_see :: "kenv \<Rightarrow> u8 list \<Rightarrow> kctx \<Rightarrow> kctx option" where
  "kforth_see env nm s = do {
     w \<leftarrow> get_word_by_name s nm;
     x \<leftarrow> (case w of None \<Rightarrow> Some []
       | Some w \<Rightarrow> do {
           e \<leftarrow> entries s w;
           if word_fn e \<noteq> Null then Some (bytes_of ''PRIMITIVE'' @ cr_lf) else see_items s env (name e) 0 (word_list e)
         });
     Some (puts (x @ cr_lf) s)
   }"

text \<open>The words in front of the first primitive are freed.\<close>

fun free_words :: "nat list \<Rightarrow> (nat \<Rightarrow> kword option) \<Rightarrow> (nat \<Rightarrow> kword option) option" where
  "free_words [] es = Some es"
| "free_words (w # ws) es = do { e \<leftarrow> es w; if word_fn e = Null then free_words ws (es(w := None)) else Some es }"

definition kforth_reset :: "kctx \<Rightarrow> kctx option" where
  "kforth_reset s = map_option (\<lambda>es. s\<lparr>entries := es, dictionary := saved_dictionary s\<rparr>) (free_words (dictionary s) (entries s))"

section \<open>Statements\<close>

fun starts_with :: "u8 list \<Rightarrow> u8 list \<Rightarrow> bool option" where
  "starts_with b [] = Some True"
| "starts_with [] (c # cs) = None"
| "starts_with (x # b) (c # cs) = (if x = c then starts_with b cs else Some False)"

text \<open>\<open>: name body\<close>.  The body starts behind the zero that ends the name, whatever stands there.\<close>

definition define_statement :: "kenv \<Rightarrow> u8 list \<Rightarrow> kctx \<Rightarrow> kctx option" where
  "define_statement env b s = do {
     (_, _, b, p) \<leftarrow> get_token b 0;
     (t, e, b, p) \<leftarrow> get_token b p;
     t \<leftarrow> t;
     nm \<leftarrow> c_str (drop t b);
     (s, len) \<leftarrow> kforth_compile_word nm b (t + length nm + 1) s;
     s \<leftarrow> store_word env nm len s;
     Some (puts (bytes_of ''compiled '' @ nm @ cr_lf) s)
   }"

definition kforth_execute_statement :: "kenv \<Rightarrow> nat \<Rightarrow> u8 list \<Rightarrow> kctx \<Rightarrow> (bool \<times> kctx) outcome" where
  "kforth_execute_statement env n b s =
     bindo (opt (starts_with b (bytes_of '': ''))) (\<lambda>define.
     if define then bindo (opt (define_statement env b s)) (\<lambda>s. Ret (False, s))
     else bindo (opt (starts_with b (bytes_of ''see ''))) (\<lambda>see.
     if see then bindo (opt (c_str (drop 4 b))) (\<lambda>nm. bindo (opt (kforth_see env nm s)) (\<lambda>s. Ret (False, s)))
     else bindo (opt (starts_with b (bytes_of ''reset''))) (\<lambda>reset.
     if reset then bindo (opt (kforth_reset s)) (\<lambda>s. Ret (exit_flag s, s))
     else bindo (opt (kforth_compile_word [] b 0 s)) (\<lambda>(s, len). bindo (execute_word env n Temp s) (\<lambda>(k, s). Ret (exit_flag s, s))))))"

text \<open>\<open>process_buffer\<close> of \<open>main.c\<close>: whether the command ends.\<close>

definition process_line :: "kenv \<Rightarrow> nat \<Rightarrow> u8 list \<Rightarrow> kctx \<Rightarrow> (bool \<times> kctx) outcome" where
  "process_line env n b s = bindo (kforth_execute_statement env n b s) (\<lambda>(ended, s).
     Ret (ended, if ended then s else puts (bytes_of ''ok'' @ cr_lf) s))"

definition prim_entries :: "nat \<Rightarrow> kword option" where
  "prim_entries i = (if i < length primitives then Some \<lparr>name = bytes_of (fst (primitives ! i)), word_fn = Prim (snd (primitives ! i)), word_list = []\<rparr> else None)"

end
