(* ===== verification/Kforth_Src.thy ===== *)
theory Kforth_Src
  imports Kforth_Int
begin

text \<open>
  Structured programs of the Forth: their word lists, an abstract machine with lists as stacks that runs them, and
  the relation between its states and contexts.
\<close>

section \<open>Programs\<close>

text \<open>\<open>Count\<close> is \<open>do \<dots> loop\<close> and \<open>Step\<close> is \<open>for \<dots> forloop\<close>.  A call of the word that is defined is recursion.\<close>

datatype src = Num int | Call "u8 list" | Say "u8 list" | If_then "src list" | If_else "src list" "src list" | Count "src list" | Step "src list"

abbreviation tok :: "string \<Rightarrow> u8 list" where "tok \<equiv> bytes_of"

fun src_toks :: "src \<Rightarrow> u8 list list" where
  "src_toks (Num v) = [dec_int v]"
| "src_toks (Call x) = [x]"
| "src_toks (Say x) = [0x22 # x]"
| "src_toks (If_then b) = [tok ''if''] @ concat (map src_toks b) @ [tok ''endif'']"
| "src_toks (If_else b c) = [tok ''if''] @ concat (map src_toks b) @ [tok ''elif''] @ concat (map src_toks c) @ [tok ''endif'']"
| "src_toks (Count b) = [tok ''do''] @ concat (map src_toks b) @ [tok ''loop'']"
| "src_toks (Step b) = [tok ''for''] @ concat (map src_toks b) @ [tok ''forloop'']"

text \<open>The items of a program, given the entries of the names: branches are relative, so the place does not matter.\<close>

fun code :: "(u8 list \<Rightarrow> nat) \<Rightarrow> u8 list \<Rightarrow> src \<Rightarrow> code_item list" where
  "code wd nm (Num v) = [Literal (D_int v)]"
| "code wd nm (Call x) = [if x = nm then Recursive else Word (wd x)]"
| "code wd nm (Say x) = Str x # raw_items x"
| "code wd nm (If_then b) =
     (let cb = concat (map (code wd nm) b)
      in [Branch (int (length cb)), Word (wd (tok ''if''))] @ cb @ [Word (wd (tok ''endif''))])"
| "code wd nm (If_else b c) =
     (let cb = concat (map (code wd nm) b); cc = concat (map (code wd nm) c)
      in [Branch (int (length cb) + 2), Word (wd (tok ''if''))] @ cb @
         [Branch (int (length cc)), Word (wd (tok ''elif''))] @ cc @ [Word (wd (tok ''endif''))])"
| "code wd nm (Count b) = [Label, Word (wd (tok ''do''))] @ concat (map (code wd nm) b) @ [Label, Word (wd (tok ''loop''))]"
| "code wd nm (Step b) = [Label, Word (wd (tok ''for''))] @ concat (map (code wd nm) b) @ [Label, Word (wd (tok ''forloop''))]"

definition codes :: "(u8 list \<Rightarrow> nat) \<Rightarrow> u8 list \<Rightarrow> src list \<Rightarrow> code_item list" where
  "codes wd nm xs = concat (map (code wd nm) xs)"

section \<open>The abstract machine\<close>

text \<open>What runs inside a loop: the counter and the limit, or the counter, the limit and the step.\<close>

datatype frame = Do_frame int int | For_frame int int int

record amachine =
  cells :: "int list"
  frames :: "frame list"
  shown :: "u8 list"
  ended :: bool

definition STACK_SIZE :: nat where "STACK_SIZE = 1000"
definition LOOP_STACK_SIZE :: nat where "LOOP_STACK_SIZE = 100"

datatype meaning = M_prim prim | M_word "src list"

type_synonym names = "u8 list \<rightharpoonup> meaning"

fun frame_size :: "frame \<Rightarrow> nat" where
  "frame_size (Do_frame i l) = 3" | "frame_size (For_frame a b c) = 4"

definition frames_size :: "frame list \<Rightarrow> nat" where
  "frames_size fs = sum_list (map frame_size fs)"

definition stack_room :: "amachine \<Rightarrow> bool" where
  "stack_room a \<longleftrightarrow> length (cells a) < STACK_SIZE"

definition apush :: "int \<Rightarrow> amachine \<Rightarrow> amachine option" where
  "apush v a = (if stack_room a then Some (a\<lparr>cells := v # cells a\<rparr>) else None)"

text \<open>Words on the two upper cells.\<close>

definition abinary :: "(int \<Rightarrow> int \<Rightarrow> int option) \<Rightarrow> amachine \<Rightarrow> amachine option" where
  "abinary f a = (case cells a of y # x # cs \<Rightarrow> map_option (\<lambda>v. a\<lparr>cells := v # cs\<rparr>) (f x y) | _ \<Rightarrow> None)"

text \<open>Words that only move cells, with the free cell they need.\<close>

definition ashuffle :: "(int list \<Rightarrow> int list option) \<Rightarrow> amachine \<Rightarrow> amachine option" where
  "ashuffle f a = (if stack_room a then map_option (\<lambda>cs. a\<lparr>cells := cs\<rparr>) (f (cells a)) else None)"

fun swap_cells :: "int list \<Rightarrow> int list option" where "swap_cells (y # x # cs) = Some (x # y # cs)" | "swap_cells _ = None"
fun rot_cells :: "int list \<Rightarrow> int list option" where "rot_cells (z # y # x # cs) = Some (x # z # y # cs)" | "rot_cells _ = None"
fun over_cells :: "int list \<Rightarrow> int list option" where "over_cells (y # x # cs) = Some (x # y # x # cs)" | "over_cells _ = None"
fun tuck_cells :: "int list \<Rightarrow> int list option" where "tuck_cells (y # x # cs) = Some (y # x # y # cs)" | "tuck_cells _ = None"
fun dup_cells :: "int list \<Rightarrow> int list option" where "dup_cells (x # cs) = Some (x # x # cs)" | "dup_cells _ = None"

definition aprint :: "u8 list \<Rightarrow> amachine \<Rightarrow> amachine" where
  "aprint x a = a\<lparr>shown := shown a @ x\<rparr>"

text \<open>The primitives that programs use on their own.\<close>

fun aprim :: "prim \<Rightarrow> amachine \<Rightarrow> amachine option" where
  "aprim Bye a = Some (a\<lparr>ended := True\<rparr>)"
| "aprim Dot a = (case cells a of [] \<Rightarrow> Some (aprint (tok ''EOS'' @ cr_lf) a) | x # cs \<Rightarrow> Some (aprint (dec_int x @ tok '' '') (a\<lparr>cells := cs\<rparr>)))"
| "aprim Dot_s a = Some (aprint (print_cells (rev (cells a))) a)"
| "aprim Increment a = (case cells a of [] \<Rightarrow> None | x # cs \<Rightarrow> map_option (\<lambda>v. a\<lparr>cells := v # cs\<rparr>) (c_int (x + 1)))"
| "aprim Mul a = abinary (\<lambda>x y. c_int (x * y)) a"
| "aprim Plus a = abinary (\<lambda>x y. c_int (x + y)) a"
| "aprim Minus a = abinary (\<lambda>x y. c_int (x - y)) a"
| "aprim Max a = abinary (\<lambda>x y. Some (max x y)) a"
| "aprim Greater_than a = abinary (\<lambda>x y. Some (forth_flag (x > y))) a"
| "aprim Not_equal a = abinary (\<lambda>x y. Some (forth_flag (x \<noteq> y))) a"
| "aprim Greater_than_equal a = abinary (\<lambda>x y. Some (forth_flag (x \<ge> y))) a"
| "aprim Less_than a = abinary (\<lambda>x y. Some (forth_flag (x < y))) a"
| "aprim Equal a = abinary (\<lambda>x y. Some (forth_flag (x = y))) a"
| "aprim Tuck a = ashuffle tuck_cells a"
| "aprim Over a = ashuffle over_cells a"
| "aprim Rot a = ashuffle rot_cells a"
| "aprim Swap a = ashuffle swap_cells a"
| "aprim Dup a = ashuffle dup_cells a"
| "aprim Drop a = Some (a\<lparr>cells := tl (cells a)\<rparr>)"
| "aprim Cr a = Some (aprint cr_lf a)"
| "aprim For_i a = (case frames a of Do_frame i l # fs \<Rightarrow> apush i a | _ \<Rightarrow> None)"
| "aprim For_a a = (case frames a of For_frame x y z # fs \<Rightarrow> apush x a | _ \<Rightarrow> None)"
| "aprim _ a = None"

text \<open>Running a program in the word \<open>nm\<close> with the body \<open>body\<close>.  A program stops when \<open>bye\<close> has been run.\<close>

fun run_srcs :: "nat \<Rightarrow> names \<Rightarrow> u8 list \<Rightarrow> src list \<Rightarrow> src list \<Rightarrow> amachine \<Rightarrow> amachine option"
  and run_src :: "nat \<Rightarrow> names \<Rightarrow> u8 list \<Rightarrow> src list \<Rightarrow> src \<Rightarrow> amachine \<Rightarrow> amachine option"
  and run_loop :: "nat \<Rightarrow> names \<Rightarrow> u8 list \<Rightarrow> src list \<Rightarrow> src list \<Rightarrow> amachine \<Rightarrow> amachine option" where
  "run_srcs 0 D nm body xs a = None"
| "run_srcs (Suc n) D nm body [] a = Some a"
| "run_srcs (Suc n) D nm body (x # xs) a = (if ended a then Some a else do { a \<leftarrow> run_src n D nm body x a; run_srcs n D nm body xs a })"
| "run_src 0 D nm body x a = None"
| "run_src (Suc n) D nm body (Num v) a = apush v a"
| "run_src (Suc n) D nm body (Call x) a =
     (if x = nm then run_srcs n D nm body body a
      else case D x of None \<Rightarrow> None | Some (M_prim p) \<Rightarrow> aprim p a | Some (M_word b) \<Rightarrow> run_srcs n D x b b a)"
| "run_src (Suc n) D nm body (Say x) a = Some (aprint x a)"
| "run_src (Suc n) D nm body (If_then b) a =
     (case cells a of [] \<Rightarrow> None
      | v # cs \<Rightarrow> if \<not> stack_room a then None else if v = -1 then run_srcs n D nm body b (a\<lparr>cells := cs\<rparr>) else Some (a\<lparr>cells := cs\<rparr>))"
| "run_src (Suc n) D nm body (If_else b c) a =
     (case cells a of [] \<Rightarrow> None
      | v # cs \<Rightarrow>
        if \<not> stack_room a then None
        else if v = -1 then do { a \<leftarrow> run_srcs n D nm body b (a\<lparr>cells := cs\<rparr>); if ended a \<or> stack_room a then Some a else None }
        else run_srcs n D nm body c (a\<lparr>cells := cs\<rparr>))"
| "run_src (Suc n) D nm body (Count b) a =
     (case cells a of i # l # cs \<Rightarrow>
        if frames_size (frames a) + 4 \<le> LOOP_STACK_SIZE then run_loop n D nm body b (a\<lparr>cells := cs, frames := Do_frame i l # frames a\<rparr>) else None
      | _ \<Rightarrow> None)"
| "run_src (Suc n) D nm body (Step b) a =
     (case cells a of z # y # x # cs \<Rightarrow>
        if frames_size (frames a) + 5 \<le> LOOP_STACK_SIZE then run_loop n D nm body b (a\<lparr>cells := cs, frames := For_frame x y z # frames a\<rparr>) else None
      | _ \<Rightarrow> None)"
| "run_loop 0 D nm body b a = None"
| "run_loop (Suc n) D nm body b a = do {
     a \<leftarrow> run_srcs n D nm body b a;
     if ended a then Some a
     else case frames a of [] \<Rightarrow> None
     | Do_frame i l # fs \<Rightarrow> do {
         i \<leftarrow> c_int (i + 1);
         if i \<ge> l then Some (a\<lparr>frames := fs\<rparr>) else run_loop n D nm body b (a\<lparr>frames := Do_frame i l # fs\<rparr>)
       }
     | For_frame x y z # fs \<Rightarrow> do {
         v \<leftarrow> c_int (x + z);
         if (x \<le> y \<and> v \<ge> y) \<or> (x \<ge> y \<and> v \<le> y) then Some (a\<lparr>frames := fs\<rparr>) else run_loop n D nm body b (a\<lparr>frames := For_frame v y z # fs\<rparr>)
       }
   }"

section \<open>Contexts and the machine\<close>

text \<open>Frames with their labels, as they lie on the loop stack, from the top.\<close>

fun frame_cells :: "int \<times> frame \<Rightarrow> int list" where
  "frame_cells (l, Do_frame i k) = [k, i, l]"
| "frame_cells (l, For_frame x y z) = [x, y, z, l]"

definition loop_cells :: "(int \<times> frame) list \<Rightarrow> int list" where
  "loop_cells F = concat (map frame_cells F)"

text \<open>A context with the given cells on its stacks, from the top, and what the arrays hold above them.\<close>

definition stacks :: "kctx \<Rightarrow> int list \<Rightarrow> int list \<Rightarrow> int list \<Rightarrow> int list \<Rightarrow> kctx" where
  "stacks s cs r zs q = s\<lparr>stack := rev cs @ r, stack_ptr := length cs, loop_stack := rev zs @ q, loop_stack_ptr := length zs\<rparr>"

definition represents :: "(int \<times> frame) list \<Rightarrow> kctx \<Rightarrow> amachine \<Rightarrow> bool" where
  "represents F s a \<longleftrightarrow> (\<exists>r q. s = stacks s (cells a) r (loop_cells F) q \<and> length (cells a) + length r = STACK_SIZE \<and>
     length (loop_cells F) + length q = LOOP_STACK_SIZE) \<and> map snd F = frames a \<and> output_text s = shown a \<and> exit_flag s = ended a"

text \<open>Running a word leaves the dictionary and the compiled list alone.\<close>

definition same_dict :: "kctx \<Rightarrow> kctx \<Rightarrow> bool" where
  "same_dict s s' \<longleftrightarrow> entries s' = entries s \<and> dictionary s' = dictionary s \<and> saved_dictionary s' = saved_dictionary s \<and>
     next_entry s' = next_entry s \<and> new_word_list s' = new_word_list s"

lemma same_dict_refl [simp]: "same_dict s s"
  by (simp add: same_dict_def)

lemma same_dict_trans [trans]: "same_dict s s' \<Longrightarrow> same_dict s' s'' \<Longrightarrow> same_dict s s''"
  by (simp add: same_dict_def)

lemma same_dict_stacks [simp]: "same_dict s (stacks t cs r zs q) \<longleftrightarrow> same_dict s t" "same_dict s (puts x t) \<longleftrightarrow> same_dict s t"
  by (simp_all add: same_dict_def stacks_def puts_def)

lemma loop_cells_simps [simp]: "loop_cells [] = []" "loop_cells (lf # F) = frame_cells lf @ loop_cells F"
  by (simp_all add: loop_cells_def)

lemma length_frame_cells: "length (frame_cells (l, f)) = frame_size f"
  by (cases f) auto

lemma length_loop_cells: "length (loop_cells F) = frames_size (map snd F)"
proof (induction F)
  case (Cons lf F)
  then show ?case by (cases lf) (simp add: frames_size_def length_frame_cells)
qed (simp add: frames_size_def)

section \<open>The stacks\<close>

lemma stacks_sel [simp]:
  "stacks (stacks s cs r zs q) cs' r' zs' q' = stacks s cs' r' zs' q'" "output_text (stacks s cs r zs q) = output_text s"
  "exit_flag (stacks s cs r zs q) = exit_flag s" "stack_ptr (stacks s cs r zs q) = length cs" "loop_stack_ptr (stacks s cs r zs q) = length zs"
  "puts x (stacks s cs r zs q) = stacks (puts x s) cs r zs q" "stack (stacks s cs r zs q) = rev cs @ r"
  "loop_stack (stacks s cs r zs q) = rev zs @ q" "(stacks s cs r zs q)\<lparr>exit_flag := b\<rparr> = stacks (s\<lparr>exit_flag := b\<rparr>) cs r zs q"
  by (simp_all add: stacks_def puts_def)

lemma at_ptr_rev:
  "i < 0 \<Longrightarrow> nat (- i) \<le> length cs \<Longrightarrow> at_ptr (rev cs @ r) (length cs) i = Some (cs ! (nat (- i) - 1))"
  "0 \<le> i \<Longrightarrow> nat i < length r \<Longrightarrow> at_ptr (rev cs @ r) (length cs) i = Some (r ! nat i)"
proof -
  assume a: "i < 0" "nat (- i) \<le> length cs"
  then have "nat (int (length cs) + i) = length cs - nat (- i)" "length cs - nat (- i) < length cs" by linarith+
  moreover have "length cs - Suc (length cs - nat (- i)) = nat (- i) - 1" using a by linarith
  ultimately show "at_ptr (rev cs @ r) (length cs) i = Some (cs ! (nat (- i) - 1))" using a
    by (simp add: at_ptr_def peek_def nth_append rev_nth)
next
  assume a: "0 \<le> i" "nat i < length r"
  then have "nat (int (length cs) + i) = length cs + nat i" by linarith
  then show "at_ptr (rev cs @ r) (length cs) i = Some (r ! nat i)" using a by (simp add: at_ptr_def peek_def nth_append)
qed

lemma set_ptr_rev:
  "i < 0 \<Longrightarrow> nat (- i) \<le> length cs \<Longrightarrow> set_ptr (rev cs @ r) (length cs) i v = Some (rev (cs[nat (- i) - 1 := v]) @ r)"
  "0 \<le> i \<Longrightarrow> nat i < length r \<Longrightarrow> set_ptr (rev cs @ r) (length cs) i v = Some (rev cs @ r[nat i := v])"
proof -
  assume a: "i < 0" "nat (- i) \<le> length cs"
  then have "nat (int (length cs) + i) = length cs - nat (- i)" "length cs - nat (- i) < length cs" by linarith+
  moreover have "rev (cs[nat (- i) - 1 := v]) = (rev cs)[length cs - nat (- i) := v]"
  proof -
    have "nat (- i) - 1 < length cs" "length cs - (nat (- i) - 1) - 1 = length cs - nat (- i)" using a by linarith+
    then show ?thesis by (simp only: rev_update)
  qed
  ultimately show "set_ptr (rev cs @ r) (length cs) i v = Some (rev (cs[nat (- i) - 1 := v]) @ r)" using a
    by (simp add: set_ptr_def poke_def list_update_append)
next
  assume a: "0 \<le> i" "nat i < length r"
  then have "nat (int (length cs) + i) = length cs + nat i" by linarith
  then show "set_ptr (rev cs @ r) (length cs) i v = Some (rev cs @ r[nat i := v])" using a by (simp add: set_ptr_def poke_def list_update_append)
qed

text \<open>Reading and writing a context of the form \<open>stacks\<close>.\<close>

lemma stacks_stk [simp]:
  "stk (-1) (stacks s (x # cs) r zs q) = Some x" "stk (-2) (stacks s (x # y # cs) r zs q) = Some y"
  "stk (-3) (stacks s (x # y # z # cs) r zs q) = Some z"
  "stk 0 (stacks s cs (u # r) zs q) = Some u" "stk 1 (stacks s cs (u # v # r) zs q) = Some v"
  "lstk (-1) (stacks s cs r (x # zs) q) = Some x" "lstk (-2) (stacks s cs r (x # y # zs) q) = Some y"
  "lstk (-3) (stacks s cs r (x # y # z # zs) q) = Some z" "lstk (-4) (stacks s cs r (x # y # z # w # zs) q) = Some w"
  "lstk 0 (stacks s cs r zs (u # q)) = Some u"
  by (simp_all only: stk_def lstk_def stacks_sel) (subst at_ptr_rev, simp, simp, simp)+

lemma stacks_set_stk [simp]:
  "set_stk (-1) v (stacks s (x # cs) r zs q) = Some (stacks s (v # cs) r zs q)"
  "set_stk (-2) v (stacks s (x # y # cs) r zs q) = Some (stacks s (x # v # cs) r zs q)"
  "set_stk (-3) v (stacks s (x # y # z # cs) r zs q) = Some (stacks s (x # y # v # cs) r zs q)"
  "set_stk 0 v (stacks s cs (u # r) zs q) = Some (stacks s cs (v # r) zs q)"
  "set_lstk (-1) v (stacks s cs r (x # zs) q) = Some (stacks s cs r (v # zs) q)"
  "set_lstk (-2) v (stacks s cs r (x # y # zs) q) = Some (stacks s cs r (x # v # zs) q)"
  "set_lstk 0 v (stacks s cs r zs (u # q)) = Some (stacks s cs r zs (v # q))"
  by (simp_all only: set_stk_def set_lstk_def stacks_sel) (subst set_ptr_rev, simp, simp, simp add: stacks_def)+

lemma stacks_drop [simp]:
  "drop_stk (Suc 0) (stacks s (x # cs) r zs q) = Some (stacks s cs (x # r) zs q)"
  "drop_stk 2 (stacks s (x # y # cs) r zs q) = Some (stacks s cs (y # x # r) zs q)"
  "drop_lstk (Suc 0) (stacks s cs r (x # zs) q) = Some (stacks s cs r zs (x # q))"
  "drop_lstk 3 (stacks s cs r (x # y # z # zs) q) = Some (stacks s cs r zs (z # y # x # q))"
  "drop_lstk 4 (stacks s cs r (x # y # z # w # zs) q) = Some (stacks s cs r zs (w # z # y # x # q))"
  "inc_ptr (stacks s cs (u # r) zs q) = stacks s (u # cs) r zs q"
  "push_int v (stacks s cs (u # r) zs q) = Some (stacks s (v # cs) r zs q)"
  "LOOP_STACK_PUSH v (stacks s cs r zs (u # q)) = Some (stacks s cs r (v # zs) q)"
  by (simp_all add: drop_stk_def drop_lstk_def inc_ptr_def push_int_def LOOP_STACK_PUSH_def)
    (simp_all add: stacks_def)

lemma stacks_pop [simp]: "pop_int (stacks s (x # cs) r zs q) = Some (x, stacks s cs (x # r) zs q)"
  by (simp add: pop_int_def)

lemma stacks_move [simp]: "stk j (stacks s cs r zs q) = Some v \<Longrightarrow> move_stk i j (stacks s cs r zs q) = set_stk i v (stacks s cs r zs q)"
  by (simp add: move_stk_def)

end
