(* ===== verification/Kforth_Prims.thy ===== *)
theory Kforth_Prims
  imports Kforth_Src
begin

text \<open>
  Every primitive does on the stacks of a context what the abstract machine says.
\<close>

lemma same_dict_stacks_left [simp]: "same_dict (stacks t cs r zs q) s \<longleftrightarrow> same_dict t s"
  by (simp add: same_dict_def stacks_def)

lemma same_dict_exit [simp]: "same_dict s (s\<lparr>exit_flag := b\<rparr>)"
  by (simp add: same_dict_def)

lemma puts_sel [simp]: "output_text (puts x s) = output_text s @ x" "exit_flag (puts x s) = exit_flag s"
  by (simp_all add: puts_def)

lemma repr_cases:
  assumes "represents F s a"
  obtains t r q where "s = stacks t (cells a) r (loop_cells F) q" "length (cells a) + length r = STACK_SIZE"
    "length (loop_cells F) + length q = LOOP_STACK_SIZE" "map snd F = frames a" "output_text t = shown a" "exit_flag t = ended a"
  using assms unfolding represents_def by (metis stacks_sel(2,3))

lemma repr_stacks:
  assumes "zs = loop_cells F" "length cs + length r = STACK_SIZE" "length zs + length q = LOOP_STACK_SIZE"
  shows "represents F (stacks t cs r zs q) a \<longleftrightarrow> cs = cells a \<and> map snd F = frames a \<and> output_text t = shown a \<and> exit_flag t = ended a"
proof
  assume "represents F (stacks t cs r zs q) a"
  then obtain r' q' where "stacks t cs r zs q = stacks t (cells a) r' (loop_cells F) q'" "map snd F = frames a" "output_text t = shown a"
    "exit_flag t = ended a" unfolding represents_def by auto
  moreover from this(1) have "stack_ptr (stacks t cs r zs q) = stack_ptr (stacks t (cells a) r' (loop_cells F) q')"
    "stack (stacks t cs r zs q) = stack (stacks t (cells a) r' (loop_cells F) q')" by simp_all
  then have "cs = cells a" by simp
  ultimately show "cs = cells a \<and> map snd F = frames a \<and> output_text t = shown a \<and> exit_flag t = ended a" by simp
qed (use assms in \<open>auto simp: represents_def\<close>)

definition implements :: "(kctx \<Rightarrow> (int \<times> kctx) option) \<Rightarrow> (amachine \<Rightarrow> amachine option) \<Rightarrow> bool" where
  "implements f g \<longleftrightarrow> (\<forall>F s a a'. represents F s a \<longrightarrow> g a = Some a' \<longrightarrow> (\<exists>s'. f s = Some (0, s') \<and> represents F s' a' \<and> same_dict s s'))"

lemma implementsI:
  assumes "\<And>F t r q a a'. \<lbrakk>g a = Some a'; length (cells a) + length r = STACK_SIZE; length (loop_cells F) + length q = LOOP_STACK_SIZE;
      map snd F = frames a; output_text t = shown a; exit_flag t = ended a\<rbrakk>
    \<Longrightarrow> \<exists>s'. f (stacks t (cells a) r (loop_cells F) q) = Some (0, s') \<and> represents F s' a' \<and> same_dict t s'"
  shows "implements f g"
  unfolding implements_def
proof (intro allI impI)
  fix F s a a' assume "represents F s a" and g: "g a = Some a'"
  from this(1) show "\<exists>s'. f s = Some (0, s') \<and> represents F s' a' \<and> same_dict s s'"
  proof (rule repr_cases)
    fix t r q assume h: "s = stacks t (cells a) r (loop_cells F) q" "length (cells a) + length r = STACK_SIZE"
      "length (loop_cells F) + length q = LOOP_STACK_SIZE" "map snd F = frames a" "output_text t = shown a" "exit_flag t = ended a"
    from assms [OF g h(2-)] show "\<exists>s'. f s = Some (0, s') \<and> represents F s' a' \<and> same_dict s s'" unfolding h(1) by simp
  qed
qed

lemma implements_binary: "implements (binary_fn f) (abinary f)"
  by (rule implementsI) (auto simp: abinary_def binary_fn_def finish_def repr_stacks split: list.splits)

lemma nonempty_room: "stack_room a \<Longrightarrow> length (cells a) + length r = STACK_SIZE \<Longrightarrow> \<exists>u r'. r = u # r'"
  by (cases r) (auto simp: stack_room_def)

lemmas shuffle_defs = fn_swap_def fn_rot_def fn_over_def fn_tuck_def fn_dup_def

lemma implements_shuffle:
  "implements fn_swap (ashuffle swap_cells)" "implements fn_rot (ashuffle rot_cells)" "implements fn_over (ashuffle over_cells)"
  "implements fn_tuck (ashuffle tuck_cells)" "implements fn_dup (ashuffle dup_cells)"
  by (rule implementsI; frule nonempty_room [rotated];
      auto simp: ashuffle_def shuffle_defs finish_def repr_stacks split: if_splits
        elim!: swap_cells.elims rot_cells.elims over_cells.elims tuck_cells.elims dup_cells.elims)+

lemma implements_print:
  "implements fn_print_top (aprim Dot)" "implements fn_print_stack (aprim Dot_s)" "implements fn_cr (aprim Cr)"
  by (rule implementsI; auto simp: fn_print_top_def fn_print_stack_def fn_cr_def aprint_def finish_def repr_stacks split: list.splits)+

lemma implements_simple:
  "implements fn_bye (aprim Bye)" "implements fn_drop (aprim Drop)" "implements fn_increment (aprim Increment)" "implements fn_max (aprim Max)"
proof -
  show "implements fn_bye (aprim Bye)" by (rule implementsI) (auto simp: fn_bye_def finish_def repr_stacks)
  show "implements fn_drop (aprim Drop)"
  proof (rule implementsI)
    fix F a a' and t :: kctx and r q :: "int list"
    assume "aprim Drop a = Some a'" "length (cells a) + length r = STACK_SIZE" "length (loop_cells F) + length q = LOOP_STACK_SIZE"
      "map snd F = frames a" "output_text t = shown a" "exit_flag t = ended a"
    then show "\<exists>s'. fn_drop (stacks t (cells a) r (loop_cells F) q) = Some (0, s') \<and> represents F s' a' \<and> same_dict t s'"
      by (cases "cells a") (auto simp: fn_drop_def finish_def repr_stacks)
  qed
  show "implements fn_increment (aprim Increment)"
    by (rule implementsI) (auto simp: fn_increment_def finish_def repr_stacks split: list.splits)
  show "implements fn_max (aprim Max)"
    by (rule implementsI) (auto simp: fn_max_def abinary_def finish_def repr_stacks max_def split: list.splits)
qed

lemma implements_counter: "implements fn_for_i (aprim For_i)" "implements fn_for_a (aprim For_a)"
  by (rule implementsI; frule nonempty_room [rotated];
      auto simp: apush_def fn_for_i_def fn_for_a_def finish_def repr_stacks split: if_splits list.splits frame.splits)+

lemma implements_nothing: "(\<And>a. g a = None) \<Longrightarrow> implements f g"
  by (simp add: implements_def)

lemma implements_cong: "implements f g \<Longrightarrow> (\<And>a. h a = g a) \<Longrightarrow> implements f h"
  by (simp add: implements_def)

lemmas binary_defs = fn_plus_def fn_mul_def fn_minus_def fn_greater_than_def fn_not_equal_def fn_greater_than_equal_def fn_less_than_def fn_equal_def

lemma prim_implements: "implements (call_fn env p) (aprim p)"
  by (cases p)
    (simp_all add: call_fn_def implements_print implements_simple implements_counter implements_nothing binary_defs
      implements_cong [OF implements_binary] implements_cong [OF implements_shuffle(1)] implements_cong [OF implements_shuffle(2)]
      implements_cong [OF implements_shuffle(3)] implements_cong [OF implements_shuffle(4)] implements_cong [OF implements_shuffle(5)])

section \<open>Branches and loops\<close>

lemma nonempty_loop: "length zs < LOOP_STACK_SIZE \<Longrightarrow> length zs + length q = LOOP_STACK_SIZE \<Longrightarrow> \<exists>u q'. q = u # q'"
  by (cases q) auto

text \<open>\<open>Branch\<close> and \<open>if\<close>.\<close>

lemma branch_if:
  assumes "represents F s a" "cells a = c # cs" "stack_room a"
  shows "\<exists>s1 s2. push_int v s = Some s1 \<and> fn_if s1 = Some (if c = -1 then 0 else v, s2) \<and> represents F s2 (a\<lparr>cells := cs\<rparr>) \<and> same_dict s s1 \<and> same_dict s1 s2
    \<and> exit_flag s1 = ended a"
  using assms(1)
proof (rule repr_cases)
  fix t r q
  assume h: "s = stacks t (cells a) r (loop_cells F) q" "length (cells a) + length r = STACK_SIZE" "length (loop_cells F) + length q = LOOP_STACK_SIZE"
    "map snd F = frames a" "output_text t = shown a" "exit_flag t = ended a"
  obtain u r' where "r = u # r'" using nonempty_room [OF assms(3) h(2)] by blast
  then show ?thesis using h assms(2) by (auto simp: fn_if_def finish_def repr_stacks)
qed

text \<open>\<open>Branch\<close> and \<open>elif\<close>, which skips as the branch says.\<close>

lemma branch_elif:
  assumes "represents F s a" "stack_room a"
  shows "\<exists>s1 s2. push_int v s = Some s1 \<and> fn_elif s1 = Some (v, s2) \<and> represents F s2 a \<and> same_dict s s1 \<and> same_dict s1 s2 \<and> exit_flag s1 = ended a"
  using assms(1)
proof (rule repr_cases)
  fix t r q
  assume h: "s = stacks t (cells a) r (loop_cells F) q" "length (cells a) + length r = STACK_SIZE" "length (loop_cells F) + length q = LOOP_STACK_SIZE"
    "map snd F = frames a" "output_text t = shown a" "exit_flag t = ended a"
  obtain u r' where "r = u # r'" using nonempty_room [OF assms(2) h(2)] by blast
  then show ?thesis using h by (auto simp: fn_elif_def repr_stacks)
qed

lemma label_do:
  assumes "represents F s a" "cells a = i # k # cs" "frames_size (frames a) + 4 \<le> LOOP_STACK_SIZE"
  shows "\<exists>s1 s2. LOOP_STACK_PUSH l s = Some s1 \<and> fn_do s1 = Some (0, s2) \<and> represents ((l, Do_frame i k) # F) s2 (a\<lparr>cells := cs, frames := Do_frame i k # frames a\<rparr>)
    \<and> same_dict s s1 \<and> same_dict s1 s2 \<and> exit_flag s1 = ended a"
  using assms(1)
proof (rule repr_cases)
  fix t r q
  assume h: "s = stacks t (cells a) r (loop_cells F) q" "length (cells a) + length r = STACK_SIZE" "length (loop_cells F) + length q = LOOP_STACK_SIZE"
    "map snd F = frames a" "output_text t = shown a" "exit_flag t = ended a"
  then have "length q \<ge> 3" using assms(3) length_loop_cells [of F] by simp
  then obtain u v w q' where "q = u # v # w # q'" by (auto simp: numeral_3_eq_3 Suc_le_length_iff)
  then show ?thesis using h assms(2) by (auto simp: fn_do_def finish_def repr_stacks)
qed

lemma label_for:
  assumes "represents F s a" "cells a = z # y # x # cs" "frames_size (frames a) + 5 \<le> LOOP_STACK_SIZE"
  shows "\<exists>s1 s2. LOOP_STACK_PUSH l s = Some s1 \<and> fn_for s1 = Some (0, s2) \<and> represents ((l, For_frame x y z) # F) s2 (a\<lparr>cells := cs, frames := For_frame x y z # frames a\<rparr>)
    \<and> same_dict s s1 \<and> same_dict s1 s2 \<and> exit_flag s1 = ended a"
  using assms(1)
proof (rule repr_cases)
  fix t r q
  assume h: "s = stacks t (cells a) r (loop_cells F) q" "length (cells a) + length r = STACK_SIZE" "length (loop_cells F) + length q = LOOP_STACK_SIZE"
    "map snd F = frames a" "output_text t = shown a" "exit_flag t = ended a"
  then have "length q \<ge> Suc 3" using assms(3) length_loop_cells [of F] by simp
  then obtain o' u v w q' where "q = o' # u # v # w # q'" by (auto simp: numeral_3_eq_3 Suc_le_length_iff)
  then show ?thesis using h assms(2) by (auto simp: fn_for_def finish_def repr_stacks)
qed

text \<open>The end of a loop: its label is replaced by the distance back to the first one, or the frame is dropped.\<close>

lemma label_loop:
  assumes "represents ((l, Do_frame i k) # F) s a" "frames_size (frames a) < LOOP_STACK_SIZE" "c_int (i + 1) = Some j" "c_int (l - m) = Some d"
  shows "\<exists>s1 s2. LOOP_STACK_PUSH m s = Some s1 \<and> same_dict s s1 \<and> same_dict s1 s2 \<and> exit_flag s1 = ended a \<and>
    (if j \<ge> k then fn_loop s1 = Some (0, s2) \<and> represents F s2 (a\<lparr>frames := tl (frames a)\<rparr>)
     else fn_loop s1 = Some (d, s2) \<and> represents ((l, Do_frame j k) # F) s2 (a\<lparr>frames := Do_frame j k # tl (frames a)\<rparr>))"
  using assms(1)
proof (rule repr_cases)
  fix t r q
  assume h: "s = stacks t (cells a) r (loop_cells ((l, Do_frame i k) # F)) q" "length (cells a) + length r = STACK_SIZE"
    "length (loop_cells ((l, Do_frame i k) # F)) + length q = LOOP_STACK_SIZE"
    "map snd ((l, Do_frame i k) # F) = frames a" "output_text t = shown a" "exit_flag t = ended a"
  have "length (loop_cells ((l, Do_frame i k) # F)) < LOOP_STACK_SIZE" using assms(2) h(4) length_loop_cells [of "(l, Do_frame i k) # F"] by simp
  then obtain u q' where "q = u # q'" using nonempty_loop h(3) by blast
  then show ?thesis using h(1-3,5,6) h(4) [symmetric] assms(3,4) by (cases "k \<le> j") (simp_all add: fn_loop_def finish_def repr_stacks)
qed

lemma label_forloop:
  assumes "represents ((l, For_frame x y z) # F) s a" "frames_size (frames a) < LOOP_STACK_SIZE" "c_int (x + z) = Some v" "c_int (l - m) = Some d"
  shows "\<exists>s1 s2. LOOP_STACK_PUSH m s = Some s1 \<and> same_dict s s1 \<and> same_dict s1 s2 \<and> exit_flag s1 = ended a \<and>
    (if (x \<le> y \<and> v \<ge> y) \<or> (x \<ge> y \<and> v \<le> y) then fn_for_loop s1 = Some (0, s2) \<and> represents F s2 (a\<lparr>frames := tl (frames a)\<rparr>)
     else fn_for_loop s1 = Some (d, s2) \<and> represents ((l, For_frame v y z) # F) s2 (a\<lparr>frames := For_frame v y z # tl (frames a)\<rparr>))"
  using assms(1)
proof (rule repr_cases)
  fix t r q
  assume h: "s = stacks t (cells a) r (loop_cells ((l, For_frame x y z) # F)) q" "length (cells a) + length r = STACK_SIZE"
    "length (loop_cells ((l, For_frame x y z) # F)) + length q = LOOP_STACK_SIZE"
    "map snd ((l, For_frame x y z) # F) = frames a" "output_text t = shown a" "exit_flag t = ended a"
  have "length (loop_cells ((l, For_frame x y z) # F)) < LOOP_STACK_SIZE" using assms(2) h(4) length_loop_cells [of "(l, For_frame x y z) # F"] by simp
  then obtain u q' where "q = u # q'" using nonempty_loop h(3) by blast
  then show ?thesis using h(1-3,5,6) h(4) [symmetric] assms(3,4)
    by (cases "(x \<le> y \<and> v \<ge> y) \<or> (x \<ge> y \<and> v \<le> y)") (simp_all add: fn_for_loop_def finish_def repr_stacks, blast)
qed

end
