(* ===== verification/Kforth_Correct.thy ===== *)
theory Kforth_Correct
  imports Kforth_Prims
begin

text \<open>
  The inner interpreter runs the word lists of structured programs as the abstract machine runs the programs.
\<close>

section \<open>Reaching an item\<close>

text \<open>With enough fuel the interpreter goes on from one place and state as it does from another.\<close>

definition reaches :: "kenv \<Rightarrow> entry \<Rightarrow> nat \<Rightarrow> kctx \<Rightarrow> nat \<Rightarrow> kctx \<Rightarrow> bool" where
  "reaches env e p s q s' \<longleftrightarrow> (\<exists>j k. \<forall>n\<ge>k. execute_items env (n + j) e (int p) s = execute_items env n e (int q) s')"

definition word_returns :: "kenv \<Rightarrow> entry \<Rightarrow> kctx \<Rightarrow> int \<Rightarrow> kctx \<Rightarrow> bool" where
  "word_returns env e s k s' \<longleftrightarrow> (\<exists>N. \<forall>n\<ge>N. execute_word env n e s = Ret (k, s'))"

lemma reaches_refl [simp]: "reaches env e p s p s"
  unfolding reaches_def by (rule exI [of _ 0]) simp

lemma reaches_trans [trans]: "reaches env e p s q s' \<Longrightarrow> reaches env e q s' r s'' \<Longrightarrow> reaches env e p s r s''"
proof -
  assume "reaches env e p s q s'" "reaches env e q s' r s''"
  then obtain j k j' k' where 1: "\<forall>n\<ge>k. execute_items env (n + j) e (int p) s = execute_items env n e (int q) s'"
    and 2: "\<forall>n\<ge>k'. execute_items env (n + j') e (int q) s' = execute_items env n e (int r) s''" unfolding reaches_def by blast
  have "execute_items env (n + (j' + j)) e (int p) s = execute_items env n e (int r) s''" if "n \<ge> max k k'" for n
    using 1 2 that by (simp flip: add.assoc)
  then show ?thesis unfolding reaches_def by blast
qed

text \<open>Once \<open>bye\<close> has been run, every place is the same.\<close>

lemma execute_items_exit: "exit_flag s \<Longrightarrow> 0 < n \<Longrightarrow> execute_items env n e i s = Ret (0, s)"
  by (cases n) simp_all

lemma reaches_exit: "exit_flag s \<Longrightarrow> reaches env e p s q s"
  unfolding reaches_def by (intro exI [of _ 0] exI [of _ 1]) (simp add: execute_items_exit)

lemma reaches_step:
  assumes "\<And>n. execute_items env (Suc n) e (int p) s = execute_items env n e (int q) s'"
  shows "reaches env e p s q s'"
  unfolding reaches_def using assms by (intro exI [of _ 1] exI [of _ 0]) simp

lemma word_returns_Suc: "word_returns env e s k s' \<Longrightarrow> (\<And>n. execute_word env n e s = Ret (k, s') \<Longrightarrow> P n) \<Longrightarrow> \<exists>N. \<forall>n\<ge>N. P n"
  unfolding word_returns_def by blast

section \<open>The items of an entry\<close>

definition code_at :: "entry \<Rightarrow> kctx \<Rightarrow> nat \<Rightarrow> code_item list \<Rightarrow> bool" where
  "code_at e s p its \<longleftrightarrow> (\<exists>L. entry_items e s = Some L \<and> length L < 2 ^ 31 \<and> p + length its \<le> length L \<and> take (length its) (drop p L) = its)"

lemma code_at_append: "code_at e s p (xs @ ys) \<longleftrightarrow> code_at e s p xs \<and> code_at e s (p + length xs) ys"
  unfolding code_at_def by (auto simp: take_add add.commute)

lemma code_at_two: "code_at e s p (x # y # ys) \<longleftrightarrow> code_at e s p [x] \<and> code_at e s (p + 1) (y # ys)"
  using code_at_append [of e s p "[x]" "y # ys"] by simp

lemma code_at_item: "code_at e s p [x] \<Longrightarrow> item_at e (int p) s = Some x"
  unfolding code_at_def item_at_def by (auto simp: peek_def take_Suc_conv_app_nth)

lemma code_at_less: "code_at e s p [x] \<Longrightarrow> int p < 2 ^ 31"
  unfolding code_at_def by auto

lemma code_at_same: "same_dict s s' \<Longrightarrow> code_at e s' p its \<longleftrightarrow> code_at e s p its"
  by (simp add: code_at_def entry_items_def same_dict_def split: entry.split)

lemma entry_fn_same: "same_dict s s' \<Longrightarrow> entry_fn e s' = entry_fn e s"
  by (simp add: entry_fn_def same_dict_def split: entry.split)

section \<open>Steps\<close>

lemma step_word:
  assumes "\<not> exit_flag s" "code_at e s p [Word w]" "word_returns env (Entry w) s k s'" "int q = int p + k + 1"
  shows "reaches env e p s q s'"
proof -
  obtain N where "\<forall>n\<ge>N. execute_word env n (Entry w) s = Ret (k, s')" using assms(3) by (auto simp: word_returns_def)
  then have "\<forall>n\<ge>N. execute_items env (n + 1) e (int p) s = execute_items env n e (int q) s'"
    using assms(1,4) code_at_item [OF assms(2)] by simp
  then show ?thesis unfolding reaches_def by blast
qed

lemma step_recursive:
  assumes "\<not> exit_flag s" "code_at e s p [Recursive]" "word_returns env e s 0 s'"
  shows "reaches env e p s (p + 1) s'"
proof -
  obtain N where "\<forall>n\<ge>N. execute_word env n e s = Ret (0, s')" using assms(3) by (auto simp: word_returns_def)
  then have "\<forall>n\<ge>N. execute_items env (n + 1) e (int p) s = execute_items env n e (int (p + 1)) s'"
    using assms(1) code_at_item [OF assms(2)] by (simp add: add.commute)
  then show ?thesis unfolding reaches_def by blast
qed

lemma prim_returns:
  assumes "entry_fn (Entry w) s = Some (Prim p)" "call_fn env p s = Some (k, s')"
  shows "word_returns env (Entry w) s k s'"
proof -
  have "execute_word env n (Entry w) s = Ret (k, s')" if "n \<ge> 1" for n using assms that by (cases n) simp_all
  then show ?thesis unfolding word_returns_def by blast
qed

lemma step_prim:
  assumes "\<not> exit_flag s" "code_at e s p [Word w]" "entry_fn (Entry w) s = Some (Prim f)" "call_fn env f s = Some (k, s')" "int q = int p + k + 1"
  shows "reaches env e p s q s'"
  using step_word [OF assms(1,2) prim_returns [OF assms(3,4)] assms(5)] .

lemma step_literal:
  assumes "\<not> exit_flag s" "code_at e s p [Literal (D_int v)]" "push_int v s = Some s'"
  shows "reaches env e p s (p + 1) s'"
  by (rule reaches_step) (use assms code_at_item [OF assms(2)] in \<open>simp add: data_int_def add.commute\<close>)

lemma step_branch:
  assumes "\<not> exit_flag s" "code_at e s p [Branch v]" "push_int v s = Some s'"
  shows "reaches env e p s (p + 1) s'"
  by (rule reaches_step) (use assms code_at_item [OF assms(2)] in \<open>simp add: add.commute\<close>)

lemma step_label:
  assumes "\<not> exit_flag s" "code_at e s p [Label]" "LOOP_STACK_PUSH (int p) s = Some s'"
  shows "reaches env e p s (p + 1) s'"
  by (rule reaches_step) (use assms code_at_item [OF assms(2)] in \<open>simp add: add.commute\<close>)

lemma step_str:
  assumes "\<not> exit_flag s" "code_at e s p [Str x]"
  shows "reaches env e p s (p + str_items x + 1) (puts x s)"
  by (rule reaches_step) (use assms code_at_item [OF assms(2)] in \<open>simp add: algebra_simps\<close>)

text \<open>A word with a list returns when its list is run to the end.\<close>

lemma list_returns:
  assumes "entry_fn e s = Some Null" "reaches env e 0 s q s'" "exit_flag s' \<or> code_at e s' q [End]"
  shows "word_returns env e s 0 s'"
proof -
  obtain j k where r: "\<forall>n\<ge>k. execute_items env (n + j) e 0 s = execute_items env n e (int q) s'" using assms(2) by (auto simp: reaches_def)
  have "execute_items env n e (int q) s' = Ret (0, s')" if "n \<ge> 1" for n
    using that assms(3) code_at_item [of e s' q End] by (cases n) auto
  then have *: "execute_items env (n + j) e 0 s = Ret (0, s')" if "n \<ge> max k 1" for n using r that by simp
  have "execute_word env n e s = Ret (0, s')" if "n \<ge> max k 1 + j + 1" for n
  proof -
    have "n = Suc (n - j - 1 + j)" "n - j - 1 \<ge> max k 1" using that by linarith+
    then show ?thesis using assms(1) * [of "n - j - 1"] by (metis (no_types, lifting) bindo.simps(3) execute_word.simps(2) opt_simps(1) word_fn.simps(8))
  qed
  then show ?thesis unfolding word_returns_def by blast
qed

section \<open>The dictionary of a program\<close>

definition control_words :: "(string \<times> prim) list" where
  "control_words = [(''if'', If), (''elif'', Elif), (''endif'', Endif), (''do'', Do), (''loop'', Loop), (''for'', For), (''forloop'', For_loop)]"

definition control_ok :: "names \<Rightarrow> bool" where
  "control_ok D \<longleftrightarrow> (\<forall>(x, p)\<in>set control_words. D (tok x) = Some (M_prim p))"

text \<open>The names with the entries they stand for.\<close>

fun meaning_ok :: "(u8 list \<Rightarrow> nat) \<Rightarrow> u8 list \<Rightarrow> meaning \<Rightarrow> kword \<Rightarrow> bool" where
  "meaning_ok wd x (M_prim p) e \<longleftrightarrow> word_fn e = Prim p"
| "meaning_ok wd x (M_word b) e \<longleftrightarrow> word_fn e = Null \<and> word_list e = codes wd x b @ [End] \<and> length (word_list e) < 2 ^ 31"

definition dict_ok :: "names \<Rightarrow> (u8 list \<Rightarrow> nat) \<Rightarrow> kctx \<Rightarrow> bool" where
  "dict_ok D wd s \<longleftrightarrow> control_ok D \<and> (\<forall>x m. D x = Some m \<longrightarrow> (\<exists>e. entries s (wd x) = Some e \<and> meaning_ok wd x m e))"

definition hosts :: "(u8 list \<Rightarrow> nat) \<Rightarrow> entry \<Rightarrow> u8 list \<Rightarrow> src list \<Rightarrow> kctx \<Rightarrow> bool" where
  "hosts wd e nm body s \<longleftrightarrow> entry_fn e s = Some Null \<and> code_at e s 0 (codes wd nm body @ [End])"

lemma dict_ok_same: "same_dict s s' \<Longrightarrow> dict_ok D wd s' \<longleftrightarrow> dict_ok D wd s"
  by (simp add: dict_ok_def same_dict_def)

lemma hosts_same: "same_dict s s' \<Longrightarrow> hosts wd e nm body s' \<longleftrightarrow> hosts wd e nm body s"
  by (simp add: hosts_def code_at_same entry_fn_same)

lemma dict_ok_prim: "dict_ok D wd s \<Longrightarrow> D x = Some (M_prim p) \<Longrightarrow> entry_fn (Entry (wd x)) s = Some (Prim p)"
  by (fastforce simp: dict_ok_def entry_fn_def)

lemma dict_ok_control:
  assumes "dict_ok D wd s"
  shows "entry_fn (Entry (wd (tok ''if''))) s = Some (Prim If)" "entry_fn (Entry (wd (tok ''elif''))) s = Some (Prim Elif)"
    "entry_fn (Entry (wd (tok ''endif''))) s = Some (Prim Endif)" "entry_fn (Entry (wd (tok ''do''))) s = Some (Prim Do)"
    "entry_fn (Entry (wd (tok ''loop''))) s = Some (Prim Loop)" "entry_fn (Entry (wd (tok ''for''))) s = Some (Prim For)"
    "entry_fn (Entry (wd (tok ''forloop''))) s = Some (Prim For_loop)"
  using assms dict_ok_prim [OF assms] by (simp_all add: dict_ok_def control_ok_def control_words_def)

lemma dict_ok_hosts: "dict_ok D wd s \<Longrightarrow> D x = Some (M_word b) \<Longrightarrow> hosts wd (Entry (wd x)) x b s"
  by (fastforce simp: dict_ok_def hosts_def entry_fn_def code_at_def entry_items_def)

section \<open>Control words\<close>

text \<open>An item that pushes, followed by a primitive: the shape of every branch and loop.\<close>

lemma two_steps:
  assumes "reaches env e p s (p + 1) s1" "same_dict s s1" "\<not> exit_flag s1" "code_at e s (p + 1) [Word w]" "entry_fn (Entry w) s = Some (Prim f)"
    "call_fn env f s1 = Some (k, s2)" "int q = int p + 2 + k"
  shows "reaches env e p s q s2"
proof -
  have "reaches env e (p + 1) s1 q s2"
    by (rule step_prim [where w = w and f = f and k = k]) (use assms in \<open>simp_all add: code_at_same [OF assms(2)] entry_fn_same [OF assms(2)]\<close>)
  with assms(1) show ?thesis by (rule reaches_trans)
qed

lemma repr_exit: "represents F s a \<Longrightarrow> exit_flag s = ended a"
  by (simp add: represents_def)

lemma run_if:
  assumes "dict_ok D wd s" "code_at e s p [Branch v, Word (wd (tok ''if''))]" "represents F s a" "\<not> ended a" "cells a = c # cs" "stack_room a"
    "int q = int p + 2 + (if c = -1 then 0 else v)"
  shows "\<exists>s'. reaches env e p s q s' \<and> represents F s' (a\<lparr>cells := cs\<rparr>) \<and> same_dict s s'"
proof -
  obtain s1 s2 where b: "push_int v s = Some s1" "fn_if s1 = Some (if c = -1 then 0 else v, s2)" "represents F s2 (a\<lparr>cells := cs\<rparr>)" "same_dict s s1" "same_dict s1 s2"
    "exit_flag s1 = ended a" using branch_if [OF assms(3,5,6)] by blast
  have c: "code_at e s p [Branch v]" "code_at e s (p + 1) [Word (wd (tok ''if''))]" using assms(2) by (simp_all add: code_at_two)
  have "reaches env e p s (p + 1) s1" using step_branch [OF _ c(1) b(1)] assms(4) repr_exit [OF assms(3)] by simp
  then have "reaches env e p s q s2"
    by (rule two_steps [OF _ b(4) _ c(2) dict_ok_control(1) [OF assms(1)]]) (use b(2,6) assms(4,7) in \<open>simp_all add: call_fn_def\<close>)
  then show ?thesis using b same_dict_trans by blast
qed

lemma run_elif:
  assumes "dict_ok D wd s" "code_at e s p [Branch v, Word (wd (tok ''elif''))]" "represents F s a" "\<not> ended a" "stack_room a" "int q = int p + 2 + v"
  shows "\<exists>s'. reaches env e p s q s' \<and> represents F s' a \<and> same_dict s s'"
proof -
  obtain s1 s2 where b: "push_int v s = Some s1" "fn_elif s1 = Some (v, s2)" "represents F s2 a" "same_dict s s1" "same_dict s1 s2"
    "exit_flag s1 = ended a" using branch_elif [OF assms(3,5)] by blast
  have c: "code_at e s p [Branch v]" "code_at e s (p + 1) [Word (wd (tok ''elif''))]" using assms(2) by (simp_all add: code_at_two)
  have "reaches env e p s (p + 1) s1" using step_branch [OF _ c(1) b(1)] assms(4) repr_exit [OF assms(3)] by simp
  then have "reaches env e p s q s2"
    by (rule two_steps [OF _ b(4) _ c(2) dict_ok_control(2) [OF assms(1)]]) (use b(2,6) assms(4,6) in \<open>simp_all add: call_fn_def\<close>)
  then show ?thesis using b same_dict_trans by blast
qed

text \<open>\<open>endif\<close> does nothing.\<close>

lemma run_endif:
  assumes "dict_ok D wd s" "code_at e s p [Word (wd (tok ''endif''))]"
  shows "reaches env e p s (p + 1) s"
proof (cases "exit_flag s")
  case False
  show ?thesis by (rule step_prim [OF False assms(2) dict_ok_control(3) [OF assms(1)], of _ 0]) (simp_all add: call_fn_def finish_def)
qed (rule reaches_exit)

lemma run_do:
  assumes "dict_ok D wd s" "code_at e s p [Label, Word (wd (tok ''do''))]" "represents F s a" "\<not> ended a" "cells a = i # k # cs"
    "frames_size (frames a) + 4 \<le> LOOP_STACK_SIZE"
  shows "\<exists>s'. reaches env e p s (p + 2) s' \<and> represents ((int p, Do_frame i k) # F) s' (a\<lparr>cells := cs, frames := Do_frame i k # frames a\<rparr>) \<and> same_dict s s'"
proof -
  obtain s1 s2 where b: "LOOP_STACK_PUSH (int p) s = Some s1" "fn_do s1 = Some (0, s2)"
    "represents ((int p, Do_frame i k) # F) s2 (a\<lparr>cells := cs, frames := Do_frame i k # frames a\<rparr>)" "same_dict s s1" "same_dict s1 s2"
    "exit_flag s1 = ended a" using label_do [OF assms(3,5,6)] by blast
  have c: "code_at e s p [Label]" "code_at e s (p + 1) [Word (wd (tok ''do''))]" using assms(2) by (simp_all add: code_at_two)
  have "reaches env e p s (p + 1) s1" using step_label [OF _ c(1) b(1)] assms(4) repr_exit [OF assms(3)] by simp
  then have "reaches env e p s (p + 2) s2"
    by (rule two_steps [OF _ b(4) _ c(2) dict_ok_control(4) [OF assms(1)]]) (use b(2,6) assms(4) in \<open>simp_all add: call_fn_def\<close>)
  then show ?thesis using b same_dict_trans by blast
qed

lemma run_for:
  assumes "dict_ok D wd s" "code_at e s p [Label, Word (wd (tok ''for''))]" "represents F s a" "\<not> ended a" "cells a = z # y # x # cs"
    "frames_size (frames a) + 5 \<le> LOOP_STACK_SIZE"
  shows "\<exists>s'. reaches env e p s (p + 2) s' \<and> represents ((int p, For_frame x y z) # F) s' (a\<lparr>cells := cs, frames := For_frame x y z # frames a\<rparr>) \<and> same_dict s s'"
proof -
  obtain s1 s2 where b: "LOOP_STACK_PUSH (int p) s = Some s1" "fn_for s1 = Some (0, s2)"
    "represents ((int p, For_frame x y z) # F) s2 (a\<lparr>cells := cs, frames := For_frame x y z # frames a\<rparr>)" "same_dict s s1" "same_dict s1 s2"
    "exit_flag s1 = ended a" using label_for [OF assms(3,5,6)] by blast
  have c: "code_at e s p [Label]" "code_at e s (p + 1) [Word (wd (tok ''for''))]" using assms(2) by (simp_all add: code_at_two)
  have "reaches env e p s (p + 1) s1" using step_label [OF _ c(1) b(1)] assms(4) repr_exit [OF assms(3)] by simp
  then have "reaches env e p s (p + 2) s2"
    by (rule two_steps [OF _ b(4) _ c(2) dict_ok_control(6) [OF assms(1)]]) (use b(2,6) assms(4) in \<open>simp_all add: call_fn_def\<close>)
  then show ?thesis using b same_dict_trans by blast
qed

text \<open>The end of a loop whose first label stands at \<open>l\<close>.\<close>

lemma label_distance: "code_at e s p [x] \<Longrightarrow> code_at e s l [y] \<Longrightarrow> c_int (int l - int p) = Some (int l - int p)"
  using code_at_less [of e s p x] code_at_less [of e s l y] by (simp add: c_int_def)

lemma run_loop_end:
  assumes "dict_ok D wd s" "code_at e s p [Label, Word (wd (tok ''loop''))]" "code_at e s l [x]" "represents ((int l, Do_frame i k) # F) s a" "\<not> ended a"
    "frames_size (frames a) < LOOP_STACK_SIZE" "c_int (i + 1) = Some j"
  shows "\<exists>s'. same_dict s s' \<and> (if j \<ge> k then reaches env e p s (p + 2) s' \<and> represents F s' (a\<lparr>frames := tl (frames a)\<rparr>)
    else reaches env e p s (l + 2) s' \<and> represents ((int l, Do_frame j k) # F) s' (a\<lparr>frames := Do_frame j k # tl (frames a)\<rparr>))"
proof -
  have c: "code_at e s p [Label]" "code_at e s (p + 1) [Word (wd (tok ''loop''))]" using assms(2) by (simp_all add: code_at_two)
  obtain s1 s2 where b: "LOOP_STACK_PUSH (int p) s = Some s1" "same_dict s s1" "same_dict s1 s2" "exit_flag s1 = ended a"
    "if j \<ge> k then fn_loop s1 = Some (0, s2) \<and> represents F s2 (a\<lparr>frames := tl (frames a)\<rparr>)
     else fn_loop s1 = Some (int l - int p, s2) \<and> represents ((int l, Do_frame j k) # F) s2 (a\<lparr>frames := Do_frame j k # tl (frames a)\<rparr>)"
    using label_loop [OF assms(4,6,7) label_distance [OF c(1) assms(3)]] by blast
  have r: "reaches env e p s (p + 1) s1" using step_label [OF _ c(1) b(1)] assms(5) repr_exit [OF assms(4)] by simp
  have "reaches env e p s (if j \<ge> k then p + 2 else l + 2) s2"
    by (rule two_steps [OF r b(2) _ c(2) dict_ok_control(5) [OF assms(1)], of "if j \<ge> k then 0 else int l - int p"])
      (use b(4,5) assms(5) in \<open>simp_all add: call_fn_def split: if_splits\<close>)
  then show ?thesis using b(5) same_dict_trans [OF b(2,3)] by (intro exI [of _ s2]) (simp split: if_splits)
qed

lemma run_forloop_end:
  assumes "dict_ok D wd s" "code_at e s p [Label, Word (wd (tok ''forloop''))]" "code_at e s l [c]" "represents ((int l, For_frame x y z) # F) s a" "\<not> ended a"
    "frames_size (frames a) < LOOP_STACK_SIZE" "c_int (x + z) = Some v"
  shows "\<exists>s'. same_dict s s' \<and> (if (x \<le> y \<and> v \<ge> y) \<or> (x \<ge> y \<and> v \<le> y) then reaches env e p s (p + 2) s' \<and> represents F s' (a\<lparr>frames := tl (frames a)\<rparr>)
    else reaches env e p s (l + 2) s' \<and> represents ((int l, For_frame v y z) # F) s' (a\<lparr>frames := For_frame v y z # tl (frames a)\<rparr>))"
proof -
  define over where "over \<longleftrightarrow> (x \<le> y \<and> v \<ge> y) \<or> (x \<ge> y \<and> v \<le> y)"
  have c: "code_at e s p [Label]" "code_at e s (p + 1) [Word (wd (tok ''forloop''))]" using assms(2) by (simp_all add: code_at_two)
  obtain s1 s2 where b: "LOOP_STACK_PUSH (int p) s = Some s1" "same_dict s s1" "same_dict s1 s2" "exit_flag s1 = ended a"
    "if over then fn_for_loop s1 = Some (0, s2) \<and> represents F s2 (a\<lparr>frames := tl (frames a)\<rparr>)
     else fn_for_loop s1 = Some (int l - int p, s2) \<and> represents ((int l, For_frame v y z) # F) s2 (a\<lparr>frames := For_frame v y z # tl (frames a)\<rparr>)"
    using label_forloop [OF assms(4,6,7) label_distance [OF c(1) assms(3)]] unfolding over_def by blast
  have r: "reaches env e p s (p + 1) s1" using step_label [OF _ c(1) b(1)] assms(5) repr_exit [OF assms(4)] by simp
  have "reaches env e p s (if over then p + 2 else l + 2) s2"
    by (rule two_steps [OF r b(2) _ c(2) dict_ok_control(7) [OF assms(1)], of "if over then 0 else int l - int p"])
      (use b(4,5) assms(5) in \<open>simp_all add: call_fn_def split: if_splits\<close>)
  then show ?thesis using b(5) same_dict_trans [OF b(2,3)] unfolding over_def [symmetric] by (intro exI [of _ s2]) (simp split: if_splits)
qed

end
