(* ===== verification/Kforth_Sim.thy ===== *)
theory Kforth_Sim
  imports Kforth_Correct
begin

text \<open>
  The simulation: a run of the abstract machine is a run of the inner interpreter over the items of the program.
\<close>

text \<open>The interpreter gets from one item to another and to a state of the machine, with the frames it started with unless \<open>bye\<close> was run.\<close>

definition goes :: "kenv \<Rightarrow> entry \<Rightarrow> nat \<Rightarrow> kctx \<Rightarrow> (int \<times> frame) list \<Rightarrow> nat \<Rightarrow> amachine \<Rightarrow> bool" where
  "goes env e p s F q a \<longleftrightarrow> (\<exists>F' s'. reaches env e p s q s' \<and> represents F' s' a \<and> same_dict s s' \<and> (\<not> ended a \<longrightarrow> F' = F))"

lemma goesI: "reaches env e p s q s' \<Longrightarrow> represents F s' a \<Longrightarrow> same_dict s s' \<Longrightarrow> goes env e p s F q a"
  unfolding goes_def by blast

lemma goes_refl: "represents F s a \<Longrightarrow> goes env e p s F p a"
  by (rule goesI [OF reaches_refl]) simp_all

lemma goes_step: "reaches env e p s q s' \<Longrightarrow> same_dict s s' \<Longrightarrow> goes env e q s' F r a \<Longrightarrow> goes env e p s F r a"
  unfolding goes_def using reaches_trans same_dict_trans by blast

lemma goes_ended: "goes env e p s F q a \<Longrightarrow> ended a \<Longrightarrow> goes env e p s F' r a"
  unfolding goes_def by (metis reaches_exit reaches_trans repr_exit)

lemma goes_trans:
  assumes "goes env e p s F q a" "\<And>s'. represents F s' a \<Longrightarrow> same_dict s s' \<Longrightarrow> \<not> ended a \<Longrightarrow> goes env e q s' F' r a'" "ended a \<Longrightarrow> a' = a"
  shows "goes env e p s F' r a'"
proof (cases "ended a")
  case True then show ?thesis using goes_ended [OF assms(1)] assms(3) by simp
next
  case False
  then obtain s' where "reaches env e p s q s'" "represents F s' a" "same_dict s s'" using assms(1) unfolding goes_def by blast
  then show ?thesis using goes_step assms(2) False by blast
qed

text \<open>A word whose list is run returns.\<close>

lemma goes_returns:
  assumes "hosts wd e nm body s" "goes env e 0 s F (length (codes wd nm body)) a"
  shows "\<exists>F' s'. word_returns env e s 0 s' \<and> represents F' s' a \<and> same_dict s s' \<and> (\<not> ended a \<longrightarrow> F' = F)"
proof -
  obtain F' s' where g: "reaches env e 0 s (length (codes wd nm body)) s'" "represents F' s' a" "same_dict s s'" "\<not> ended a \<longrightarrow> F' = F"
    using assms(2) unfolding goes_def by blast
  have "code_at e s' (length (codes wd nm body)) [End]" using assms(1) g(3) by (simp add: hosts_def code_at_append code_at_same)
  then have "word_returns env e s 0 s'" using list_returns [OF _ g(1)] assms(1) by (simp add: hosts_def)
  then show ?thesis using g by blast
qed

lemma codes_simps [simp]: "codes wd nm [] = []" "codes wd nm (x # xs) = code wd nm x @ codes wd nm xs"
  by (simp_all add: codes_def)

lemma goes_num:
  assumes "code_at e s p (code wd nm (Num v))" "represents F s a" "\<not> ended a" "apush v a = Some a'"
  shows "goes env e p s F (p + 1) a'"
  using assms(2)
proof (rule repr_cases)
  fix t r q
  assume h: "s = stacks t (cells a) r (loop_cells F) q" "length (cells a) + length r = STACK_SIZE" "length (loop_cells F) + length q = LOOP_STACK_SIZE"
    "map snd F = frames a" "output_text t = shown a" "exit_flag t = ended a"
  have "stack_room a" using assms(4) by (simp add: apush_def split: if_splits)
  then obtain u r' where r: "r = u # r'" using nonempty_room [OF _ h(2)] by blast
  have "push_int v s = Some (stacks t (v # cells a) r' (loop_cells F) q)" using h r by simp
  then have "reaches env e p s (p + 1) (stacks t (v # cells a) r' (loop_cells F) q)"
    using step_literal [of s e p v] assms(1-3) repr_exit [OF assms(2)] by simp
  then show ?thesis by (rule goesI) (use assms(4) h r in \<open>auto simp: repr_stacks apush_def split: if_splits\<close>)
qed

lemma repr_puts: "represents F s a \<Longrightarrow> represents F (puts x s) (aprint x a)"
  by (erule repr_cases) (auto simp: repr_stacks aprint_def)

lemma length_raw_items [simp]: "length (raw_items x) = str_items x"
  by (simp add: raw_items_def)

lemma goes_say:
  assumes "code_at e s p (code wd nm (Say x))" "represents F s a" "\<not> ended a"
  shows "goes env e p s F (p + length (code wd nm (Say x))) (aprint x a)"
proof -
  have "code_at e s p [Str x]" using assms(1) code_at_append [of e s p "[Str x]" "raw_items x"] by simp
  then have "reaches env e p s (p + str_items x + 1) (puts x s)" using step_str assms(3) repr_exit [OF assms(2)] by simp
  then show ?thesis using goesI repr_puts [OF assms(2)] by simp
qed

text \<open>Calls of a primitive, of another word and of the word itself.\<close>

lemma goes_prim:
  assumes "code_at e s p [Word (wd x)]" "dict_ok D wd s" "D x = Some (M_prim f)" "represents F s a" "\<not> ended a" "aprim f a = Some a'"
  shows "goes env e p s F (p + 1) a'"
proof -
  obtain s' where s': "call_fn env f s = Some (0, s')" "represents F s' a'" "same_dict s s'" using prim_implements [of env f] assms(4,6) unfolding implements_def by blast
  have "reaches env e p s (p + 1) s'"
    by (rule step_prim [OF _ assms(1) dict_ok_prim [OF assms(2,3)] s'(1)]) (use assms(5) repr_exit [OF assms(4)] in simp_all)
  then show ?thesis using s' goesI by blast
qed

lemma goes_word:
  assumes "code_at e s p [Word w]" "represents F s a" "\<not> ended a" "hosts wd (Entry w) x b s" "goes env (Entry w) 0 s F (length (codes wd x b)) a'"
  shows "goes env e p s F (p + 1) a'"
proof -
  obtain F' s' where w: "word_returns env (Entry w) s 0 s'" "represents F' s' a'" "same_dict s s'" "\<not> ended a' \<longrightarrow> F' = F"
    using goes_returns [OF assms(4,5)] by blast
  have "reaches env e p s (p + 1) s'" by (rule step_word [OF _ assms(1) w(1)]) (use assms(3) repr_exit [OF assms(2)] in simp_all)
  then show ?thesis using w unfolding goes_def by blast
qed

lemma goes_recursive:
  assumes "code_at e s p [Recursive]" "represents F s a" "\<not> ended a" "hosts wd e nm body s" "goes env e 0 s F (length (codes wd nm body)) a'"
  shows "goes env e p s F (p + 1) a'"
proof -
  obtain F' s' where w: "word_returns env e s 0 s'" "represents F' s' a'" "same_dict s s'" "\<not> ended a' \<longrightarrow> F' = F"
    using goes_returns [OF assms(4,5)] by blast
  have "reaches env e p s (p + 1) s'" by (rule step_recursive [OF _ assms(1) w(1)]) (use assms(3) repr_exit [OF assms(2)] in simp)
  then show ?thesis using w unfolding goes_def by blast
qed

lemma goes_endif: "goes env e p s F q a \<Longrightarrow> dict_ok D wd s \<Longrightarrow> code_at e s q [Word (wd (tok ''endif''))] \<Longrightarrow> goes env e p s F (q + 1) a"
proof -
  assume g: "goes env e p s F q a" "dict_ok D wd s" "code_at e s q [Word (wd (tok ''endif''))]"
  from g(1) obtain F' s' where r: "reaches env e p s q s'" "represents F' s' a" "same_dict s s'" "\<not> ended a \<longrightarrow> F' = F" unfolding goes_def by blast
  have "reaches env e q s' (q + 1) s'" by (rule run_endif) (use g(2,3) r(3) in \<open>simp_all add: dict_ok_same code_at_same\<close>)
  with r(1) have "reaches env e p s (q + 1) s'" by (rule reaches_trans)
  then show ?thesis unfolding goes_def using r by blast
qed

text \<open>What the cases of the simulation share.\<close>

definition sim_srcs :: "kenv \<Rightarrow> (u8 list \<Rightarrow> nat) \<Rightarrow> names \<Rightarrow> u8 list \<Rightarrow> src list \<Rightarrow> src list \<Rightarrow> amachine \<Rightarrow> amachine \<Rightarrow> bool" where
  "sim_srcs env wd D nm body xs a a' \<longleftrightarrow> (\<forall>F s p e. dict_ok D wd s \<longrightarrow> hosts wd e nm body s \<longrightarrow> represents F s a \<longrightarrow>
     code_at e s p (codes wd nm xs) \<longrightarrow> goes env e p s F (p + length (codes wd nm xs)) a')"

definition sim_src :: "kenv \<Rightarrow> (u8 list \<Rightarrow> nat) \<Rightarrow> names \<Rightarrow> u8 list \<Rightarrow> src list \<Rightarrow> src \<Rightarrow> amachine \<Rightarrow> amachine \<Rightarrow> bool" where
  "sim_src env wd D nm body x a a' \<longleftrightarrow> (\<forall>F s p e. dict_ok D wd s \<longrightarrow> hosts wd e nm body s \<longrightarrow> represents F s a \<longrightarrow> \<not> ended a \<longrightarrow>
     code_at e s p (code wd nm x) \<longrightarrow> goes env e p s F (p + length (code wd nm x)) a')"

fun loop_src :: "frame \<Rightarrow> src list \<Rightarrow> src" where
  "loop_src (Do_frame i k) b = Count b" | "loop_src (For_frame x y z) b = Step b"

definition sim_loop :: "kenv \<Rightarrow> (u8 list \<Rightarrow> nat) \<Rightarrow> names \<Rightarrow> u8 list \<Rightarrow> src list \<Rightarrow> src list \<Rightarrow> amachine \<Rightarrow> amachine \<Rightarrow> bool" where
  "sim_loop env wd D nm body b a a' \<longleftrightarrow> (\<forall>f F s p e. dict_ok D wd s \<longrightarrow> hosts wd e nm body s \<longrightarrow> represents ((int p, f) # F) s a \<longrightarrow>
     frames_size (frames a) < LOOP_STACK_SIZE \<longrightarrow> code_at e s p (code wd nm (loop_src f b)) \<longrightarrow>
     goes env e (p + 2) s F (p + length (code wd nm (loop_src f b))) a')"

lemma sim_srcs_same:
  assumes "sim_srcs env wd D nm body xs a a'" "same_dict s0 s" "dict_ok D wd s0" "hosts wd e nm body s0" "represents F s a" "code_at e s0 p (codes wd nm xs)"
  shows "goes env e p s F (p + length (codes wd nm xs)) a'"
  using assms unfolding sim_srcs_def by (simp add: dict_ok_same hosts_same code_at_same)

text \<open>Branches.\<close>

lemma code_shapes:
  "code wd nm (If_then b) = [Branch (int (length (codes wd nm b))), Word (wd (tok ''if''))] @ codes wd nm b @ [Word (wd (tok ''endif''))]"
  "code wd nm (If_else b c) = [Branch (int (length (codes wd nm b)) + 2), Word (wd (tok ''if''))] @ codes wd nm b @
     [Branch (int (length (codes wd nm c))), Word (wd (tok ''elif''))] @ codes wd nm c @ [Word (wd (tok ''endif''))]"
  "code wd nm (Count b) = [Label, Word (wd (tok ''do''))] @ codes wd nm b @ [Label, Word (wd (tok ''loop''))]"
  "code wd nm (Step b) = [Label, Word (wd (tok ''for''))] @ codes wd nm b @ [Label, Word (wd (tok ''forloop''))]"
  by (simp_all add: Let_def codes_def)

lemma sim_if_then:
  assumes "cells a = v # cs" "stack_room a" "if v = -1 then sim_srcs env wd D nm body b (a\<lparr>cells := cs\<rparr>) a' else a' = a\<lparr>cells := cs\<rparr>"
  shows "sim_src env wd D nm body (If_then b) a a'"
  unfolding sim_src_def
proof (intro allI impI)
  fix F s p e
  assume h: "dict_ok D wd s" "hosts wd e nm body s" "represents F s a" "\<not> ended a" "code_at e s p (code wd nm (If_then b))"
  let ?n = "length (codes wd nm b)"
  have c: "code_at e s p [Branch (int ?n), Word (wd (tok ''if''))]" "code_at e s (p + 2) (codes wd nm b)" "code_at e s (p + 2 + ?n) [Word (wd (tok ''endif''))]"
    using h(5) unfolding code_shapes code_at_append by simp_all
  have q: "int (if v = -1 then p + 2 else p + 2 + ?n) = int p + 2 + (if v = -1 then 0 else int ?n)" by simp
  obtain s' where r: "reaches env e p s (if v = -1 then p + 2 else p + 2 + ?n) s'" "represents F s' (a\<lparr>cells := cs\<rparr>)" "same_dict s s'"
    using run_if [OF h(1) c(1) h(3,4) assms(1,2) q] by blast
  have "goes env e p s F (p + 2 + ?n) a'"
  proof (rule goes_step [OF r(1,3)])
    show "goes env e (if v = - 1 then p + 2 else p + 2 + ?n) s' F (p + 2 + ?n) a'"
      using assms(3) sim_srcs_same [OF _ r(3) h(1,2) r(2) c(2)] goes_refl [OF r(2)] by (simp split: if_splits)
  qed
  from goes_endif [OF this h(1) c(3)] show "goes env e p s F (p + length (code wd nm (If_then b))) a'" by (simp add: code_shapes del: code.simps)
qed

lemma sim_if_else:
  assumes "cells a = v # cs" "stack_room a" "if v = -1 then sim_srcs env wd D nm body b (a\<lparr>cells := cs\<rparr>) a' \<and> (ended a' \<or> stack_room a') else sim_srcs env wd D nm body c (a\<lparr>cells := cs\<rparr>) a'"
  shows "sim_src env wd D nm body (If_else b c) a a'"
  unfolding sim_src_def
proof (intro allI impI)
  fix F s p e
  assume h: "dict_ok D wd s" "hosts wd e nm body s" "represents F s a" "\<not> ended a" "code_at e s p (code wd nm (If_else b c))"
  let ?n = "length (codes wd nm b)" let ?m = "length (codes wd nm c)"
  have code: "code_at e s p [Branch (int ?n + 2), Word (wd (tok ''if''))]" "code_at e s (p + 2) (codes wd nm b)"
    "code_at e s (p + 2 + ?n) [Branch (int ?m), Word (wd (tok ''elif''))]" "code_at e s (p + 2 + ?n + 2) (codes wd nm c)"
    "code_at e s (p + 2 + ?n + 2 + ?m) [Word (wd (tok ''endif''))]"
    using h(5) unfolding code_shapes code_at_append by simp_all
  have q: "int (if v = -1 then p + 2 else p + 2 + ?n + 2) = int p + 2 + (if v = -1 then 0 else int ?n + 2)" by simp
  obtain s' where r: "reaches env e p s (if v = -1 then p + 2 else p + 2 + ?n + 2) s'" "represents F s' (a\<lparr>cells := cs\<rparr>)" "same_dict s s'"
    using run_if [OF h(1) code(1) h(3,4) assms(1,2) q] by blast
  have "goes env e p s F (p + 2 + ?n + 2 + ?m) a'"
  proof (rule goes_step [OF r(1,3)])
    show "goes env e (if v = - 1 then p + 2 else p + 2 + ?n + 2) s' F (p + 2 + ?n + 2 + ?m) a'"
    proof (cases "v = -1")
      case True
      then have b: "goes env e (p + 2) s' F (p + 2 + ?n) a'" using assms(3) sim_srcs_same [OF _ r(3) h(1,2) r(2) code(2)] by simp
      have "goes env e (p + 2 + ?n) s1 F (p + 2 + ?n + 2 + ?m) a'" if s1: "represents F s1 a'" "same_dict s' s1" "\<not> ended a'" for s1
      proof -
        have d: "same_dict s s1" using r(3) s1(2) same_dict_trans by blast
        have ok: "dict_ok D wd s1" "code_at e s1 (p + 2 + ?n) [Branch (int ?m), Word (wd (tok ''elif''))]" using h(1) code(3) dict_ok_same [OF d] code_at_same [OF d] by simp_all
        have "stack_room a'" using True assms(3) s1(3) by simp
        moreover have "int (p + 2 + ?n + 2 + ?m) = int (p + 2 + ?n) + 2 + int ?m" by simp
        ultimately show ?thesis using run_elif [OF ok s1(1,3)] goesI by blast
      qed
      then show ?thesis using goes_trans [OF b] True by simp
    next
      case False
      then show ?thesis using assms(3) sim_srcs_same [OF _ r(3) h(1,2) r(2) code(4)] by simp
    qed
  qed
  from goes_endif [OF this h(1) code(5)] show "goes env e p s F (p + length (code wd nm (If_else b c))) a'" by (simp add: code_shapes add.assoc del: code.simps)
qed

text \<open>Loops: one run of the body, then the end of the loop.\<close>

definition next_round :: "frame \<Rightarrow> (frame \<times> bool) option" where
  "next_round f = (case f of
     Do_frame i k \<Rightarrow> map_option (\<lambda>j. (Do_frame j k, j \<ge> k)) (c_int (i + 1))
   | For_frame x y z \<Rightarrow> map_option (\<lambda>v. (For_frame v y z, (x \<le> y \<and> v \<ge> y) \<or> (x \<ge> y \<and> v \<le> y))) (c_int (x + z)))"

definition loop_word :: "frame \<Rightarrow> u8 list" where
  "loop_word f = (case f of Do_frame i k \<Rightarrow> tok ''loop'' | For_frame x y z \<Rightarrow> tok ''forloop'')"

definition open_word :: "frame \<Rightarrow> u8 list" where
  "open_word f = (case f of Do_frame i k \<Rightarrow> tok ''do'' | For_frame x y z \<Rightarrow> tok ''for'')"

lemma code_loop_src: "code wd nm (loop_src f b) = [Label] @ [Word (wd (open_word f))] @ codes wd nm b @ [Label, Word (wd (loop_word f))]"
  by (cases f) (simp_all add: loop_word_def open_word_def code_shapes del: code.simps)

lemma run_round:
  assumes "dict_ok D wd s" "code_at e s p [Label, Word (wd (loop_word f))]" "code_at e s l [x]" "represents ((int l, f) # F) s a" "\<not> ended a"
    "frames_size (frames a) < LOOP_STACK_SIZE" "next_round f = Some (f', over)"
  shows "\<exists>s'. same_dict s s' \<and> (if over then reaches env e p s (p + 2) s' \<and> represents F s' (a\<lparr>frames := tl (frames a)\<rparr>)
    else reaches env e p s (l + 2) s' \<and> represents ((int l, f') # F) s' (a\<lparr>frames := f' # tl (frames a)\<rparr>))"
proof (cases f)
  case (Do_frame i k)
  then obtain j where j: "c_int (i + 1) = Some j" "f' = Do_frame j k" "over \<longleftrightarrow> j \<ge> k" using assms(7) by (auto simp: next_round_def)
  have "code_at e s p [Label, Word (wd (tok ''loop''))]" "represents ((int l, Do_frame i k) # F) s a" using assms(2,4) Do_frame by (simp_all add: loop_word_def)
  from run_loop_end [OF assms(1) this(1) assms(3) this(2) assms(5,6) j(1)] show ?thesis unfolding j(2,3) by blast
next
  case (For_frame u y z)
  then obtain v where v: "c_int (u + z) = Some v" "f' = For_frame v y z" "over \<longleftrightarrow> (u \<le> y \<and> v \<ge> y) \<or> (u \<ge> y \<and> v \<le> y)"
    using assms(7) by (auto simp: next_round_def)
  have "code_at e s p [Label, Word (wd (tok ''forloop''))]" "represents ((int l, For_frame u y z) # F) s a" using assms(2,4) For_frame by (simp_all add: loop_word_def)
  from run_forloop_end [OF assms(1) this(1) assms(3) this(2) assms(5,6) v(1)] show ?thesis unfolding v(2,3) by blast
qed

lemma repr_frames: "represents F s a \<Longrightarrow> frames a = map snd F"
  by (simp add: represents_def)

lemma sim_loop_step:
  assumes "sim_srcs env wd D nm body b a a1" "ended a1 \<Longrightarrow> a' = a1"
    "\<And>f fs. \<not> ended a1 \<Longrightarrow> frames a1 = f # fs \<Longrightarrow> \<exists>f' over. next_round f = Some (f', over) \<and>
       (if over then a' = a1\<lparr>frames := fs\<rparr> else sim_loop env wd D nm body b (a1\<lparr>frames := f' # fs\<rparr>) a')"
  shows "sim_loop env wd D nm body b a a'"
  unfolding sim_loop_def
proof (intro allI impI)
  fix f F s p e
  assume h: "dict_ok D wd s" "hosts wd e nm body s" "represents ((int p, f) # F) s a" "frames_size (frames a) < LOOP_STACK_SIZE"
    "code_at e s p (code wd nm (loop_src f b))"
  let ?n = "length (codes wd nm b)"
  have c: "code_at e s p [Label]" "code_at e s (p + 2) (codes wd nm b)" "code_at e s (p + 2 + ?n) [Label, Word (wd (loop_word f))]"
    using h(5) unfolding code_loop_src code_at_append by simp_all
  have "goes env e (p + 2) s ((int p, f) # F) (p + 2 + ?n) a1" using assms(1) h c(2) unfolding sim_srcs_def by blast
  then show "goes env e (p + 2) s F (p + length (code wd nm (loop_src f b))) a'"
  proof (rule goes_trans)
    fix s1 assume r: "represents ((int p, f) # F) s1 a1" "same_dict s s1" "\<not> ended a1"
    obtain fs where fs: "frames a1 = f # fs" "frames a = f # fs" using repr_frames [OF r(1)] repr_frames [OF h(3)] by simp
    obtain f' over where n: "next_round f = Some (f', over)"
      "if over then a' = a1\<lparr>frames := fs\<rparr> else sim_loop env wd D nm body b (a1\<lparr>frames := f' # fs\<rparr>) a'" using assms(3) [OF r(3) fs(1)] by blast
    have ok: "dict_ok D wd s1" "code_at e s1 (p + 2 + ?n) [Label, Word (wd (loop_word f))]" "code_at e s1 p [Label]" "frames_size (frames a1) < LOOP_STACK_SIZE"
      using h(1,4) c fs by (simp_all add: dict_ok_same [OF r(2)] code_at_same [OF r(2)])
    obtain s2 where s2: "same_dict s1 s2"
      "if over then reaches env e (p + 2 + ?n) s1 (p + 2 + ?n + 2) s2 \<and> represents F s2 (a1\<lparr>frames := tl (frames a1)\<rparr>)
       else reaches env e (p + 2 + ?n) s1 (p + 2) s2 \<and> represents ((int p, f') # F) s2 (a1\<lparr>frames := f' # tl (frames a1)\<rparr>)"
      using run_round [OF ok(1-3) r(1,3) ok(4) n(1)] by blast
    show "goes env e (p + 2 + ?n) s1 F (p + length (code wd nm (loop_src f b))) a'"
    proof (cases over)
      case True
      then show ?thesis using s2 n(2) fs(1) by (auto intro!: goesI [of env e _ s1 _ s2] simp: code_loop_src)
    next
      case False
      have same: "loop_src f' b = loop_src f b" "frame_size f' = frame_size f" using n(1) by (auto simp: next_round_def split: frame.splits)
      have d: "same_dict s s2" using r(2) s2(1) same_dict_trans by blast
      have "frames_size (frames (a1\<lparr>frames := f' # fs\<rparr>)) < LOOP_STACK_SIZE" using ok(4) fs same(2) by (simp add: frames_size_def)
      moreover have "dict_ok D wd s2" "hosts wd e nm body s2" "code_at e s2 p (code wd nm (loop_src f' b))"
        using h(1,2,5) same(1) by (simp_all add: dict_ok_same [OF d] hosts_same [OF d] code_at_same [OF d])
      ultimately have "goes env e (p + 2) s2 F (p + length (code wd nm (loop_src f b))) a'"
        using n(2) False s2(2) fs(1) same(1) unfolding sim_loop_def by (metis list.sel(3))
      then show ?thesis using goes_step s2 False by (meson)
    qed
  qed (use assms(2) in simp)
qed

lemma sim_count:
  assumes "cells a = i # k # cs" "frames_size (frames a) + 4 \<le> LOOP_STACK_SIZE"
    "sim_loop env wd D nm body b (a\<lparr>cells := cs, frames := Do_frame i k # frames a\<rparr>) a'"
  shows "sim_src env wd D nm body (Count b) a a'"
  unfolding sim_src_def
proof (intro allI impI)
  fix F s p e
  assume h: "dict_ok D wd s" "hosts wd e nm body s" "represents F s a" "\<not> ended a" "code_at e s p (code wd nm (Count b))"
  have "code_at e s p [Label, Word (wd (tok ''do''))]" using h(5) unfolding code_shapes code_at_append by simp
  then obtain s' where r: "reaches env e p s (p + 2) s'"
    "represents ((int p, Do_frame i k) # F) s' (a\<lparr>cells := cs, frames := Do_frame i k # frames a\<rparr>)" "same_dict s s'"
    using run_do [OF h(1) _ h(3,4) assms(1,2)] by blast
  have "dict_ok D wd s'" "hosts wd e nm body s'" "code_at e s' p (code wd nm (loop_src (Do_frame i k) b))"
    "frames_size (frames (a\<lparr>cells := cs, frames := Do_frame i k # frames a\<rparr>)) < LOOP_STACK_SIZE"
    using h(1,2,5) assms(2) by (simp_all add: dict_ok_same [OF r(3)] hosts_same [OF r(3)] code_at_same [OF r(3)] frames_size_def del: code.simps)
  then have "goes env e (p + 2) s' F (p + length (code wd nm (loop_src (Do_frame i k) b))) a'" using assms(3) r(2) unfolding sim_loop_def by blast
  then show "goes env e p s F (p + length (code wd nm (Count b))) a'" using goes_step [OF r(1,3)] by simp
qed

lemma sim_fuel_step:
  assumes "cells a = z # y # x # cs" "frames_size (frames a) + 5 \<le> LOOP_STACK_SIZE"
    "sim_loop env wd D nm body b (a\<lparr>cells := cs, frames := For_frame x y z # frames a\<rparr>) a'"
  shows "sim_src env wd D nm body (Step b) a a'"
  unfolding sim_src_def
proof (intro allI impI)
  fix F s p e
  assume h: "dict_ok D wd s" "hosts wd e nm body s" "represents F s a" "\<not> ended a" "code_at e s p (code wd nm (Step b))"
  have "code_at e s p [Label, Word (wd (tok ''for''))]" using h(5) unfolding code_shapes code_at_append by simp
  then obtain s' where r: "reaches env e p s (p + 2) s'"
    "represents ((int p, For_frame x y z) # F) s' (a\<lparr>cells := cs, frames := For_frame x y z # frames a\<rparr>)" "same_dict s s'"
    using run_for [OF h(1) _ h(3,4) assms(1,2)] by blast
  have "dict_ok D wd s'" "hosts wd e nm body s'" "code_at e s' p (code wd nm (loop_src (For_frame x y z) b))"
    "frames_size (frames (a\<lparr>cells := cs, frames := For_frame x y z # frames a\<rparr>)) < LOOP_STACK_SIZE"
    using h(1,2,5) assms(2) by (simp_all add: dict_ok_same [OF r(3)] hosts_same [OF r(3)] code_at_same [OF r(3)] frames_size_def del: code.simps)
  then have "goes env e (p + 2) s' F (p + length (code wd nm (loop_src (For_frame x y z) b))) a'" using assms(3) r(2) unfolding sim_loop_def by blast
  then show "goes env e p s F (p + length (code wd nm (Step b))) a'" using goes_step [OF r(1,3)] by simp
qed

section \<open>The simulation\<close>

lemma sim_srcs_Nil: "sim_srcs env wd D nm body [] a a"
  by (simp add: sim_srcs_def goes_refl)

lemma sim_srcs_ended: "ended a \<Longrightarrow> sim_srcs env wd D nm body xs a a"
  unfolding sim_srcs_def using goes_ended goes_refl by blast

lemma sim_srcs_Cons:
  assumes "\<not> ended a" "sim_src env wd D nm body x a a1" "sim_srcs env wd D nm body xs a1 a'" "ended a1 \<Longrightarrow> a' = a1"
  shows "sim_srcs env wd D nm body (x # xs) a a'"
  unfolding sim_srcs_def
proof (intro allI impI)
  fix F s p e
  assume h: "dict_ok D wd s" "hosts wd e nm body s" "represents F s a" "code_at e s p (codes wd nm (x # xs))"
  then have c: "code_at e s p (code wd nm x)" "code_at e s (p + length (code wd nm x)) (codes wd nm xs)" by (simp_all add: code_at_append)
  have "goes env e p s F (p + length (code wd nm x)) a1" using assms(1,2) h c(1) unfolding sim_src_def by blast
  then have "goes env e p s F (p + length (code wd nm x) + length (codes wd nm xs)) a'"
  proof (rule goes_trans)
    fix s' assume "represents F s' a1" "same_dict s s'" "\<not> ended a1"
    then show "goes env e (p + length (code wd nm x)) s' F (p + length (code wd nm x) + length (codes wd nm xs)) a'"
      using sim_srcs_same [OF assms(3) _ h(1,2) _ c(2)] by blast
  qed (use assms(4) in simp)
  then show "goes env e p s F (p + length (codes wd nm (x # xs))) a'" by (simp add: add.assoc)
qed

lemma sim_num: "apush v a = Some a' \<Longrightarrow> sim_src env wd D nm body (Num v) a a'"
  unfolding sim_src_def using goes_num by fastforce

lemma sim_say: "sim_src env wd D nm body (Say x) a (aprint x a)"
  unfolding sim_src_def using goes_say by blast

lemma sim_prim: "x \<noteq> nm \<Longrightarrow> D x = Some (M_prim f) \<Longrightarrow> aprim f a = Some a' \<Longrightarrow> sim_src env wd D nm body (Call x) a a'"
  unfolding sim_src_def using goes_prim by fastforce

lemma sim_call:
  assumes "x \<noteq> nm" "D x = Some (M_word b)" "sim_srcs env wd D x b b a a'"
  shows "sim_src env wd D nm body (Call x) a a'"
  unfolding sim_src_def
proof (intro allI impI)
  fix F s p e
  assume h: "dict_ok D wd s" "hosts wd e nm body s" "represents F s a" "\<not> ended a" "code_at e s p (code wd nm (Call x))"
  have w: "hosts wd (Entry (wd x)) x b s" using dict_ok_hosts [OF h(1) assms(2)] .
  then have "code_at (Entry (wd x)) s 0 (codes wd x b)" by (simp add: hosts_def code_at_append)
  then have "goes env (Entry (wd x)) 0 s F (length (codes wd x b)) a'" using assms(3) h(1,3) w unfolding sim_srcs_def by (metis add_0)
  then show "goes env e p s F (p + length (code wd nm (Call x))) a'" using goes_word [OF _ h(3,4) w] h(5) assms(1) by simp
qed

lemma sim_self:
  assumes "sim_srcs env wd D nm body body a a'"
  shows "sim_src env wd D nm body (Call nm) a a'"
  unfolding sim_src_def
proof (intro allI impI)
  fix F s p e
  assume h: "dict_ok D wd s" "hosts wd e nm body s" "represents F s a" "\<not> ended a" "code_at e s p (code wd nm (Call nm))"
  then have "code_at e s 0 (codes wd nm body)" by (simp add: hosts_def code_at_append)
  then have "goes env e 0 s F (length (codes wd nm body)) a'" using assms h(1-3) unfolding sim_srcs_def by (metis add_0)
  then show "goes env e p s F (p + length (code wd nm (Call nm))) a'" using goes_recursive [OF _ h(3,4,2)] h(5) by simp
qed

lemma run_srcs_ended: "run_srcs n D nm body xs a = Some a' \<Longrightarrow> ended a \<Longrightarrow> a' = a"
  by (cases n; cases xs) auto

text \<open>The end of one round of \<open>run_loop\<close>, in terms of \<open>next_round\<close>.\<close>

lemma run_loop_round:
  assumes "run_loop (Suc n) D nm body b a = Some a'"
  obtains a1 where "run_srcs n D nm body b a = Some a1" "ended a1 \<Longrightarrow> a' = a1"
    "\<And>f fs. \<not> ended a1 \<Longrightarrow> frames a1 = f # fs \<Longrightarrow> \<exists>f' over. next_round f = Some (f', over) \<and>
       (if over then a' = a1\<lparr>frames := fs\<rparr> else run_loop n D nm body b (a1\<lparr>frames := f' # fs\<rparr>) = Some a')"
proof -
  obtain a1 where 1: "run_srcs n D nm body b a = Some a1" using assms by (auto simp: bind_Some_iff)
  have 2: "ended a1 \<Longrightarrow> a' = a1" using assms 1 by simp
  have 3: "\<exists>f' over. next_round f = Some (f', over) \<and>
       (if over then a' = a1\<lparr>frames := fs\<rparr> else run_loop n D nm body b (a1\<lparr>frames := f' # fs\<rparr>) = Some a')"
    if h: "\<not> ended a1" "frames a1 = f # fs" for f fs
  proof (cases f)
    case (Do_frame i l)
    then obtain j where "c_int (i + 1) = Some j" using assms 1 h by (auto simp: bind_Some_iff)
    then show ?thesis using assms 1 h Do_frame by (auto simp: next_round_def split: if_splits)
  next
    case (For_frame x y z)
    then obtain v where "c_int (x + z) = Some v" using assms 1 h by (auto simp: bind_Some_iff)
    then show ?thesis using assms 1 h For_frame by (auto simp: next_round_def split: if_splits)
  qed
  show ?thesis using that 1 2 3 by blast
qed

lemma simulation:
  shows "run_srcs n D nm body xs a = Some a1 \<Longrightarrow> sim_srcs env wd D nm body xs a a1"
    and "run_src n D nm body x a = Some a2 \<Longrightarrow> sim_src env wd D nm body x a a2"
    and "run_loop n D nm body b a = Some a3 \<Longrightarrow> sim_loop env wd D nm body b a a3"
proof (induction n arbitrary: nm body xs a a1 x a2 b a3)
  case 0
  { case 1 then show ?case by simp } { case 2 then show ?case by simp } { case 3 then show ?case by simp }
next
  case (Suc n)
  { case 1
    show ?case
    proof (cases xs)
      case Nil then show ?thesis using 1 by (simp add: sim_srcs_Nil)
    next
      case (Cons y ys)
      show ?thesis
      proof (cases "ended a")
        case True then show ?thesis using 1 Cons by (simp add: sim_srcs_ended)
      next
        case False
        then obtain a' where a': "run_src n D nm body y a = Some a'" "run_srcs n D nm body ys a' = Some a1" using 1 Cons by (auto simp: bind_Some_iff)
        show ?thesis unfolding Cons by (rule sim_srcs_Cons [OF False Suc.IH(2) [OF a'(1)] Suc.IH(1) [OF a'(2)] run_srcs_ended [OF a'(2)]])
      qed
    qed }
  { case 2
    show ?case
    proof (cases x)
      case (Num v) then show ?thesis using 2 by (simp add: sim_num)
    next
      case (Call y)
      show ?thesis
      proof (cases "y = nm")
        case True then show ?thesis using 2 Call sim_self Suc.IH(1) by simp
      next
        case False
        then show ?thesis using 2 Call sim_prim [OF False] sim_call [OF False] Suc.IH(1) by (simp split: option.splits meaning.splits)
      qed
    next
      case (Say y)
      then have "a2 = aprint y a" using 2 by simp
      then show ?thesis using Say sim_say by simp
    next
      case (If_then c)
      then obtain v cs where "cells a = v # cs" using 2 by (auto split: list.splits)
      moreover from this have "stack_room a" "if v = -1 then run_srcs n D nm body c (a\<lparr>cells := cs\<rparr>) = Some a2 else a2 = a\<lparr>cells := cs\<rparr>"
        using 2 If_then by (auto split: if_splits)
      ultimately show ?thesis unfolding If_then using sim_if_then Suc.IH(1) by presburger
    next
      case (If_else c d)
      then obtain v cs where "cells a = v # cs" using 2 by (auto split: list.splits)
      moreover from this have "stack_room a"
        "if v = -1 then run_srcs n D nm body c (a\<lparr>cells := cs\<rparr>) = Some a2 \<and> (ended a2 \<or> stack_room a2) else run_srcs n D nm body d (a\<lparr>cells := cs\<rparr>) = Some a2"
        using 2 If_else by (auto simp: bind_Some_iff split: if_splits)
      ultimately show ?thesis unfolding If_else using sim_if_else Suc.IH(1) by presburger
    next
      case (Count c)
      then obtain i k cs where "cells a = i # k # cs" using 2 by (auto split: list.splits)
      then show ?thesis using 2 Count sim_count Suc.IH(3) by (simp split: if_splits)
    next
      case (Step c)
      then obtain z y' x' cs where "cells a = z # y' # x' # cs" using 2 by (auto split: list.splits)
      then show ?thesis using 2 Step sim_fuel_step Suc.IH(3) by (simp split: if_splits)
    qed }
  { case 3
    then show ?case
    proof (rule run_loop_round)
      fix a' assume r: "run_srcs n D nm body b a = Some a'" "ended a' \<Longrightarrow> a3 = a'"
        "\<And>f fs. \<not> ended a' \<Longrightarrow> frames a' = f # fs \<Longrightarrow> \<exists>f' over. next_round f = Some (f', over) \<and>
          (if over then a3 = a'\<lparr>frames := fs\<rparr> else run_loop n D nm body b (a'\<lparr>frames := f' # fs\<rparr>) = Some a3)"
      show ?thesis
      proof (rule sim_loop_step [OF Suc.IH(1) [OF r(1)] r(2)])
        fix f fs assume "\<not> ended a'" "frames a' = f # fs"
        from r(3) [OF this] obtain f' over where "next_round f = Some (f', over)"
          "if over then a3 = a'\<lparr>frames := fs\<rparr> else run_loop n D nm body b (a'\<lparr>frames := f' # fs\<rparr>) = Some a3" by blast
        then show "\<exists>f' over. next_round f = Some (f', over) \<and>
            (if over then a3 = a'\<lparr>frames := fs\<rparr> else sim_loop env wd D nm body b (a'\<lparr>frames := f' # fs\<rparr>) a3)"
          using Suc.IH(3) by (intro exI [of _ f'] exI [of _ over]) simp
      qed
    qed }
qed

end
