(* ===== verification/Kforth_Comp.thy ===== *)
theory Kforth_Comp
  imports Kforth_Sim
begin

text \<open>
  The compiler writes the items of a structured program: branches are filled in with the distances that
  \<open>code\<close> gives, and the places of open branches lie on the stack only while it compiles.
\<close>

section \<open>The list that is compiled\<close>

definition write_at :: "nat \<Rightarrow> code_item list \<Rightarrow> code_item list \<Rightarrow> code_item list" where
  "write_at i its L = take i L @ its @ drop (i + length its) L"

lemma length_write_at [simp]: "i + length its \<le> length L \<Longrightarrow> length (write_at i its L) = length L"
  by (simp add: write_at_def)

lemma write_at_Nil [simp]: "write_at i [] L = L"
  by (simp add: write_at_def)

lemma write_at_append: "i + length xs + length ys \<le> length L \<Longrightarrow> write_at (i + length xs) ys (write_at i xs L) = write_at i (xs @ ys) L"
  by (cases xs) (auto simp: write_at_def min_def add_ac)

lemma write_at_one: "i < length L \<Longrightarrow> L[i := x] = write_at i [x] L"
  by (simp add: write_at_def upd_conv_take_nth_drop)

lemma write_at_first: "i + length its < length L \<Longrightarrow> (write_at i (x # its) L)[i := y] = write_at i (y # its) L"
  by (simp add: write_at_def list_update_append)

lemma write_at_nth: "i + length its \<le> length L \<Longrightarrow> k < length its \<Longrightarrow> write_at i its L ! (i + k) = its ! k"
  by (simp add: write_at_def nth_append)

text \<open>The state of the compiler: the machine's cells, with the list.\<close>

definition compiled :: "(int \<times> frame) list \<Rightarrow> amachine \<Rightarrow> kctx \<Rightarrow> kctx \<Rightarrow> code_item list \<Rightarrow> bool" where
  "compiled F a s s' L \<longleftrightarrow> represents F s' a \<and> same_dict (s\<lparr>new_word_list := L\<rparr>) s'"

lemma compiled_lookup: "compiled F a s s' L \<Longrightarrow> get_word_by_name s' x = get_word_by_name s x"
  by (simp add: compiled_def same_dict_def get_word_by_name_def)

lemma compiled_list: "compiled F a s s' L \<Longrightarrow> new_word_list s' = L"
  by (simp add: compiled_def same_dict_def)

lemma compiled_trans: "compiled F a s s' L \<Longrightarrow> compiled F' a' s' s'' L' \<Longrightarrow> compiled F' a' s s'' L'"
  by (simp add: compiled_def same_dict_def)

lemma compiled_refl: "represents F s a \<Longrightarrow> compiled F a s s (new_word_list s)"
  by (simp add: compiled_def same_dict_def)

lemma stacks_list: "(stacks t cs r zs q)\<lparr>new_word_list := L\<rparr> = stacks (t\<lparr>new_word_list := L\<rparr>) cs r zs q"
  by (simp add: stacks_def)

lemma repr_list: "represents F s a \<Longrightarrow> represents F (s\<lparr>new_word_list := L\<rparr>) a"
  by (erule repr_cases) (simp add: stacks_list repr_stacks)

lemma emit_compiled:
  assumes "compiled F a s s' L" "i < length L"
  shows "\<exists>s2. emit it (s', i) = Some (s2, i + 1) \<and> compiled F a s s2 (write_at i [it] L)"
proof -
  have "emit it (s', i) = Some (s'\<lparr>new_word_list := write_at i [it] L\<rparr>, i + 1)"
    using assms(2) compiled_list [OF assms(1)] by (simp add: emit_def poke_def write_at_one)
  moreover have "compiled F a s (s'\<lparr>new_word_list := write_at i [it] L\<rparr>) (write_at i [it] L)" using assms(1) repr_list by (auto simp: compiled_def same_dict_def)
  ultimately show ?thesis by blast
qed

lemma emit_all_compiled:
  assumes "compiled F a s s' L" "i + length its \<le> length L"
  shows "\<exists>s2. emit_all its (s', i) = Some (s2, i + length its) \<and> compiled F a s s2 (write_at i its L)"
  using assms
proof (induction its arbitrary: s' i L)
  case (Cons it its)
  then obtain s1 where s1: "emit it (s', i) = Some (s1, i + 1)" "compiled F a s s1 (write_at i [it] L)" using emit_compiled [OF Cons.prems(1), of i it] by auto
  from Cons.IH [OF s1(2), of "i + 1"] Cons.prems(2)
  obtain s2 where "emit_all its (s1, i + 1) = Some (s2, i + 1 + length its)" "compiled F a s s2 (write_at (i + 1) its (write_at i [it] L))" by auto
  then show ?case using s1(1) Cons.prems(2) write_at_append [of i "[it]" its L] by auto
qed auto

lemma push_compiled:
  assumes "compiled F a s s' L" "stack_room a"
  shows "\<exists>s2. push_int v s' = Some s2 \<and> compiled F (a\<lparr>cells := v # cells a\<rparr>) s s2 L"
proof -
  have "represents F s' a" using assms(1) by (simp add: compiled_def)
  then show ?thesis
  proof (rule repr_cases)
    fix t r q
    assume h: "s' = stacks t (cells a) r (loop_cells F) q" "length (cells a) + length r = STACK_SIZE" "length (loop_cells F) + length q = LOOP_STACK_SIZE"
      "map snd F = frames a" "output_text t = shown a" "exit_flag t = ended a"
    obtain u r' where r: "r = u # r'" using nonempty_room [OF assms(2) h(2)] by blast
    have "push_int v s' = Some (stacks t (v # cells a) r' (loop_cells F) q)" using h r by simp
    moreover have "compiled F (a\<lparr>cells := v # cells a\<rparr>) s (stacks t (v # cells a) r' (loop_cells F) q) L"
      using assms(1) h r by (simp add: compiled_def repr_stacks)
    ultimately show ?thesis by blast
  qed
qed

lemma pop_compiled:
  assumes "compiled F (a\<lparr>cells := v # cells a\<rparr>) s s' L"
  shows "\<exists>s2. pop_int s' = Some (v, s2) \<and> compiled F a s s2 L"
proof -
  have "represents F s' (a\<lparr>cells := v # cells a\<rparr>)" using assms(1) by (simp add: compiled_def)
  then show ?thesis
  proof (rule repr_cases)
    fix t r q
    assume h: "s' = stacks t (cells (a\<lparr>cells := v # cells a\<rparr>)) r (loop_cells F) q" "length (cells (a\<lparr>cells := v # cells a\<rparr>)) + length r = STACK_SIZE"
      "length (loop_cells F) + length q = LOOP_STACK_SIZE" "map snd F = frames (a\<lparr>cells := v # cells a\<rparr>)" "output_text t = shown (a\<lparr>cells := v # cells a\<rparr>)"
      "exit_flag t = ended (a\<lparr>cells := v # cells a\<rparr>)"
    have "pop_int s' = Some (v, stacks t (cells a) (v # r) (loop_cells F) q)" using h by simp
    moreover have "compiled F a s (stacks t (cells a) (v # r) (loop_cells F) q) L" using assms(1) h by (simp add: compiled_def repr_stacks)
    ultimately show ?thesis by blast
  qed
qed

lemma back_fill_compiled:
  assumes "compiled F a s s' (write_at i (Branch w # its) L)" "i + length its < length L"
  shows "\<exists>s2. back_fill (int i) v s' = Some s2 \<and> compiled F a s s2 (write_at i (Branch v # its) L)"
proof -
  have "write_at i (Branch w # its) L ! i = Branch w" using write_at_nth [of i "Branch w # its" L 0] assms(2) by simp
  then have "back_fill (int i) v s' = Some (s'\<lparr>new_word_list := write_at i (Branch v # its) L\<rparr>)"
    using assms(2) compiled_list [OF assms(1)] by (simp add: back_fill_def peek_def set_data_def write_at_first)
  moreover have "compiled F a s (s'\<lparr>new_word_list := write_at i (Branch v # its) L\<rparr>) (write_at i (Branch v # its) L)"
    using assms(1) repr_list by (auto simp: compiled_def same_dict_def)
  ultimately show ?thesis by blast
qed

section \<open>Programs that can be compiled\<close>

definition control_toks :: "u8 list set" where
  "control_toks = {tok ''for'', tok ''forloop'', tok ''loop'', tok ''do'', tok ''while'', tok ''if'', tok ''elif'', tok ''endif''}"

definition special_toks :: "u8 list set" where
  "special_toks = {tok ''&'', tok '';''}"

text \<open>A name that stands for an entry, and a token that is no name.\<close>

definition known :: "(u8 list \<Rightarrow> nat) \<Rightarrow> u8 list \<Rightarrow> kctx \<Rightarrow> u8 list \<Rightarrow> bool" where
  "known wd nm s x \<longleftrightarrow> x \<notin> control_toks \<union> special_toks \<and> (x = nm \<or> get_word_by_name s x = Some (Some (wd x)))"

definition unknown :: "u8 list \<Rightarrow> kctx \<Rightarrow> u8 list \<Rightarrow> bool" where
  "unknown nm s t \<longleftrightarrow> t \<noteq> nm \<and> get_word_by_name s t = Some None"

fun src_ok :: "(u8 list \<Rightarrow> nat) \<Rightarrow> u8 list \<Rightarrow> kctx \<Rightarrow> src \<Rightarrow> bool" where
  "src_ok wd nm s (Num v) \<longleftrightarrow> - (2 ^ 31) \<le> v \<and> v < 2 ^ 31 \<and> unknown nm s (dec_int v)"
| "src_ok wd nm s (Call x) \<longleftrightarrow> known wd nm s x"
| "src_ok wd nm s (Say x) \<longleftrightarrow> 0x2E \<notin> set x \<and> unknown nm s (0x22 # x)"
| "src_ok wd nm s (If_then b) \<longleftrightarrow> (\<forall>x\<in>set b. src_ok wd nm s x)"
| "src_ok wd nm s (If_else b c) \<longleftrightarrow> (\<forall>x\<in>set b. src_ok wd nm s x) \<and> (\<forall>x\<in>set c. src_ok wd nm s x)"
| "src_ok wd nm s (Count b) \<longleftrightarrow> (\<forall>x\<in>set b. src_ok wd nm s x)"
| "src_ok wd nm s (Step b) \<longleftrightarrow> (\<forall>x\<in>set b. src_ok wd nm s x)"

definition controls_known :: "(u8 list \<Rightarrow> nat) \<Rightarrow> u8 list \<Rightarrow> kctx \<Rightarrow> bool" where
  "controls_known wd nm s \<longleftrightarrow> nm \<notin> control_toks \<union> special_toks \<and> (\<forall>(x, p)\<in>set control_words. get_word_by_name s (tok x) = Some (Some (wd (tok x))))"

section \<open>Tokens\<close>

lemma control_special: "x \<in> special_toks \<Longrightarrow> x \<notin> control_toks"
  by (auto simp: special_toks_def control_toks_def bytes_of_def)

lemma is_int_dec_int: "is_int (dec_int v)"
proof -
  obtain c cs where "dec_nat (nat v) = c # cs" "isdigit c" using dec_nat_digits [of "nat v"] by (cases "dec_nat (nat v)") auto
  then show ?thesis using dec_nat_digits(2) [of "nat v"] dec_nat_digits(2) [of "nat (- v)"] by (auto simp: is_int_def dec_int_def isdigit_def)
qed

lemma int_plain: "is_int t \<Longrightarrow> t \<notin> control_toks \<union> special_toks"
  by (auto simp: control_toks_def special_toks_def bytes_of_def is_int_def isdigit_def)

lemma str_plain: "is_str t \<Longrightarrow> t \<notin> control_toks \<union> special_toks"
  by (auto simp: control_toks_def special_toks_def bytes_of_def is_str_def)

lemma compile_control_plain: "t \<notin> control_toks \<Longrightarrow> compile_control t c = Some c"
  by (auto simp: compile_control_def control_toks_def split: prod.split)

lemma compile_plain_tok:
  assumes "t \<notin> control_toks \<union> special_toks" "t \<noteq> nm"
  shows "compile_tokens nm (t # ts) c = Option.bind (compile_plain t c) (compile_tokens nm ts)"
  using assms by (simp add: compile_control_plain special_toks_def)

section \<open>Compiling a program\<close>

definition comp_src :: "(u8 list \<Rightarrow> nat) \<Rightarrow> u8 list \<Rightarrow> kctx \<Rightarrow> u8 list list \<Rightarrow> code_item list \<Rightarrow> bool" where
  "comp_src wd nm s toks its \<longleftrightarrow> (\<forall>F a s' L i ts. compiled F a s s' L \<longrightarrow> length L = MAX_COMPILE_WORDS \<longrightarrow> i + length its < MAX_COMPILE_WORDS \<longrightarrow>
     length (cells a) + length its \<le> STACK_SIZE \<longrightarrow>
     (\<exists>s2. compile_tokens nm (toks @ ts) (s', i) = compile_tokens nm ts (s2, i + length its) \<and> compiled F a s s2 (write_at i its L)))"

lemma comp_Nil: "comp_src wd nm s [] []"
  by (auto simp: comp_src_def)

lemma comp_append:
  assumes "comp_src wd nm s t1 c1" "comp_src wd nm s t2 c2"
  shows "comp_src wd nm s (t1 @ t2) (c1 @ c2)"
  unfolding comp_src_def
proof (intro allI impI)
  fix F a s' L i ts
  assume h: "compiled F a s s' L" "length L = MAX_COMPILE_WORDS" "i + length (c1 @ c2) < MAX_COMPILE_WORDS" "length (cells a) + length (c1 @ c2) \<le> STACK_SIZE"
  then obtain s1 where s1: "compile_tokens nm (t1 @ t2 @ ts) (s', i) = compile_tokens nm (t2 @ ts) (s1, i + length c1)" "compiled F a s s1 (write_at i c1 L)"
    using assms(1) unfolding comp_src_def by (metis add.assoc add_lessD1 length_append add_leD1)
  have "length (write_at i c1 L) = MAX_COMPILE_WORDS" "i + length c1 + length c2 < MAX_COMPILE_WORDS" "length (cells a) + length c2 \<le> STACK_SIZE" using h(2-4) by simp_all
  then obtain s2 where s2: "compile_tokens nm (t2 @ ts) (s1, i + length c1) = compile_tokens nm ts (s2, i + length c1 + length c2)"
    "compiled F a s s2 (write_at (i + length c1) c2 (write_at i c1 L))" using assms(2) s1(2) unfolding comp_src_def by blast
  then show "\<exists>s2. compile_tokens nm ((t1 @ t2) @ ts) (s', i) = compile_tokens nm ts (s2, i + length (c1 @ c2)) \<and> compiled F a s s2 (write_at i (c1 @ c2) L)"
    using s1(1) write_at_append [of i c1 c2 L] h(2,3) by (auto simp: add.assoc)
qed

lemma comp_concat:
  assumes "\<And>x. x \<in> set xs \<Longrightarrow> comp_src wd nm s (src_toks x) (code wd nm x)"
  shows "comp_src wd nm s (concat (map src_toks xs)) (concat (map (code wd nm) xs))"
  using assms by (induction xs) (simp_all add: comp_Nil comp_append)

lemma comp_one:
  assumes "t \<notin> control_toks \<union> special_toks" "t \<noteq> nm"
    "\<And>F a s' L i. compiled F a s s' L \<Longrightarrow> length L = MAX_COMPILE_WORDS \<Longrightarrow> i + length its < MAX_COMPILE_WORDS \<Longrightarrow>
       \<exists>s2. compile_plain t (s', i) = Some (s2, i + length its) \<and> compiled F a s s2 (write_at i its L)"
  shows "comp_src wd nm s [t] its"
  unfolding comp_src_def
proof (intro allI impI)
  fix F a s' L i ts
  assume "compiled F a s s' L" "length L = MAX_COMPILE_WORDS" "i + length its < MAX_COMPILE_WORDS"
  from assms(3) [OF this] obtain s2 where "compile_plain t (s', i) = Some (s2, i + length its)" "compiled F a s s2 (write_at i its L)" by blast
  then show "\<exists>s2. compile_tokens nm ([t] @ ts) (s', i) = compile_tokens nm ts (s2, i + length its) \<and> compiled F a s s2 (write_at i its L)"
    using compile_plain_tok [OF assms(1,2), of ts] by auto
qed

lemma comp_num: "src_ok wd nm s (Num v) \<Longrightarrow> comp_src wd nm s (src_toks (Num v)) (code wd nm (Num v))"
proof -
  assume h: "src_ok wd nm s (Num v)"
  show ?thesis unfolding src_toks.simps code.simps
  proof (rule comp_one)
    show "dec_int v \<notin> control_toks \<union> special_toks" by (rule int_plain [OF is_int_dec_int])
    show "dec_int v \<noteq> nm" using h by (simp add: unknown_def)
    fix F a s' L i assume c: "compiled F a s s' L" "length L = MAX_COMPILE_WORDS" "i + length [Literal (D_int v)] < MAX_COMPILE_WORDS"
    have "get_word_by_name s' (dec_int v) = Some None" "atoi (dec_int v @ [0]) = Some v" using h compiled_lookup [OF c(1)] atoi_dec_int by (simp_all add: unknown_def)
    then have "compile_plain (dec_int v) (s', i) = emit (Literal (D_int v)) (s', i)" using c(3) is_int_dec_int by (simp add: compile_plain_def)
    then show "\<exists>s2. compile_plain (dec_int v) (s', i) = Some (s2, i + length [Literal (D_int v)]) \<and> compiled F a s s2 (write_at i [Literal (D_int v)] L)"
      using emit_compiled [OF c(1), of i] c(2,3) by simp
  qed
qed

lemma comp_say: "src_ok wd nm s (Say x) \<Longrightarrow> comp_src wd nm s (src_toks (Say x)) (code wd nm (Say x))"
proof -
  assume h: "src_ok wd nm s (Say x)"
  show ?thesis unfolding src_toks.simps code.simps
  proof (rule comp_one)
    show "0x22 # x \<notin> control_toks \<union> special_toks" by (rule str_plain) (simp add: is_str_def)
    show "0x22 # x \<noteq> nm" using h by (simp add: unknown_def)
    fix F a s' L i assume c: "compiled F a s s' L" "length L = MAX_COMPILE_WORDS" "i + length (Str x # raw_items x) < MAX_COMPILE_WORDS"
    have "get_word_by_name s' (0x22 # x) = Some None" using h compiled_lookup [OF c(1)] by (simp add: unknown_def)
    moreover have "\<not> is_int (0x22 # x)" "\<not> is_float (0x22 # x)" using h by (simp_all add: is_int_def is_float_def isdigit_def)
    ultimately have "compile_plain (0x22 # x) (s', i) = emit_all (Str x # raw_items x) (s', i)" using c(3) by (simp add: compile_plain_def is_str_def)
    then show "\<exists>s2. compile_plain (0x22 # x) (s', i) = Some (s2, i + length (Str x # raw_items x)) \<and> compiled F a s s2 (write_at i (Str x # raw_items x) L)"
      using emit_all_compiled [OF c(1), of i "Str x # raw_items x"] c(2,3) by simp
  qed
qed

lemma plain_word:
  assumes "compiled F a s s' L" "length L = MAX_COMPILE_WORDS" "i < MAX_COMPILE_WORDS" "get_word_by_name s x = Some (Some w)"
  shows "\<exists>s2. compile_plain x (s', i) = Some (s2, i + 1) \<and> compiled F a s s2 (write_at i [Word w] L)"
proof -
  have "compile_plain x (s', i) = emit (Word w) (s', i)" using assms(3,4) compiled_lookup [OF assms(1)] by (simp add: compile_plain_def)
  then show ?thesis using emit_compiled [OF assms(1), of i] assms(2,3) by simp
qed

lemma comp_call: "src_ok wd nm s (Call x) \<Longrightarrow> comp_src wd nm s (src_toks (Call x)) (code wd nm (Call x))"
proof (cases "x = nm")
  case True
  assume "src_ok wd nm s (Call x)"
  then have x: "nm \<notin> control_toks" using True by (simp add: known_def)
  show ?thesis unfolding comp_src_def
  proof (intro allI impI)
    fix F a s' L i ts assume c: "compiled F a s s' L" "length L = MAX_COMPILE_WORDS" "i + length (code wd nm (Call x)) < MAX_COMPILE_WORDS"
    obtain s2 where "emit Recursive (s', i) = Some (s2, i + 1)" "compiled F a s s2 (write_at i [Recursive] L)" using emit_compiled [OF c(1), of i Recursive] c(2,3) by auto
    then show "\<exists>s2. compile_tokens nm (src_toks (Call x) @ ts) (s', i) = compile_tokens nm ts (s2, i + length (code wd nm (Call x))) \<and>
        compiled F a s s2 (write_at i (code wd nm (Call x)) L)" using True x by (auto simp: compile_control_plain)
  qed
next
  case False
  assume "src_ok wd nm s (Call x)"
  then have "x \<notin> control_toks \<union> special_toks" "get_word_by_name s x = Some (Some (wd x))" using False by (simp_all add: known_def)
  then show ?thesis using False plain_word comp_one [of x nm s "[Word (wd x)]"] by simp
qed

text \<open>Loop words are a label and a call.\<close>

lemma controls_known_word:
  assumes "controls_known wd nm s" "x \<in> {''if'', ''elif'', ''endif'', ''do'', ''loop'', ''for'', ''forloop''}"
  shows "get_word_by_name s (tok x) = Some (Some (wd (tok x)))" "tok x \<noteq> nm" "tok x \<notin> special_toks"
proof -
  have "tok x \<in> control_toks" using assms(2) by (auto simp: control_toks_def)
  then show "tok x \<notin> special_toks" "tok x \<noteq> nm" using control_special assms(1) by (auto simp: controls_known_def)
  show "get_word_by_name s (tok x) = Some (Some (wd (tok x)))" using assms by (auto simp: controls_known_def control_words_def)
qed

lemma compile_word_tok:
  assumes "controls_known wd nm s" "x \<in> {''if'', ''elif'', ''endif'', ''do'', ''loop'', ''for'', ''forloop''}"
    "compile_control (tok x) c = Some (s', i)" "compiled F a s s' L" "length L = MAX_COMPILE_WORDS" "i < MAX_COMPILE_WORDS"
  shows "\<exists>s2. compile_tokens nm (tok x # ts) c = compile_tokens nm ts (s2, i + 1) \<and> compiled F a s s2 (write_at i [Word (wd (tok x))] L)"
proof -
  obtain s2 where "compile_plain (tok x) (s', i) = Some (s2, i + 1)" "compiled F a s s2 (write_at i [Word (wd (tok x))] L)"
    using plain_word [OF assms(4-6) controls_known_word(1) [OF assms(1,2)]] by blast
  then show ?thesis using assms(3) controls_known_word(2,3) [OF assms(1,2)] by (auto simp: special_toks_def)
qed

lemma comp_label:
  assumes "controls_known wd nm s" "x \<in> {''do'', ''loop'', ''for'', ''forloop''}"
  shows "comp_src wd nm s [tok x] [Label, Word (wd (tok x))]"
  unfolding comp_src_def
proof (intro allI impI)
  fix F a s' L i ts
  assume c: "compiled F a s s' L" "length L = MAX_COMPILE_WORDS" "i + length [Label, Word (wd (tok x))] < MAX_COMPILE_WORDS"
  obtain s1 where s1: "emit Label (s', i) = Some (s1, i + 1)" "compiled F a s s1 (write_at i [Label] L)" using emit_compiled [OF c(1), of i Label] c(2,3) by auto
  have "compile_control (tok x) (s', i) = Some (s1, i + 1)" using assms(2) s1(1) by (auto simp: compile_control_def)
  from compile_word_tok [OF assms(1) _ this s1(2)] assms(2) c(2,3)
  obtain s2 where "compile_tokens nm (tok x # ts) (s', i) = compile_tokens nm ts (s2, i + 1 + 1)"
    "compiled F a s s2 (write_at (i + 1) [Word (wd (tok x))] (write_at i [Label] L))" by auto
  then show "\<exists>s2. compile_tokens nm ([tok x] @ ts) (s', i) = compile_tokens nm ts (s2, i + length [Label, Word (wd (tok x))]) \<and>
      compiled F a s s2 (write_at i [Label, Word (wd (tok x))] L)" using write_at_append [of i "[Label]" "[Word (wd (tok x))]" L] c(2,3) by auto
qed

text \<open>\<open>if\<close>, \<open>elif\<close> and \<open>endif\<close>: the place of the open branch is on the stack.\<close>

abbreviation with_top :: "int \<Rightarrow> amachine \<Rightarrow> amachine" where "with_top v a \<equiv> a\<lparr>cells := v # cells a\<rparr>"

lemma toks_differ: "tok ''if'' \<noteq> tok ''elif''" "tok ''if'' \<noteq> tok ''endif''" "tok ''elif'' \<noteq> tok ''endif''"
  "\<forall>x\<in>{''for'', ''forloop'', ''loop'', ''do'', ''while''}. tok x \<noteq> tok ''if'' \<and> tok x \<noteq> tok ''elif'' \<and> tok x \<noteq> tok ''endif''"
  by (simp_all add: bytes_of_def)

lemma tokens_if:
  assumes "controls_known wd nm s" "compiled F a s s' L" "length L = MAX_COMPILE_WORDS" "i + 2 < MAX_COMPILE_WORDS" "stack_room a"
  shows "\<exists>s2. compile_tokens nm (tok ''if'' # ts) (s', i) = compile_tokens nm ts (s2, i + 2) \<and>
    compiled F (with_top (int i) a) s s2 (write_at i [Branch 0, Word (wd (tok ''if''))] L)"
proof -
  obtain s1 where s1: "emit (Branch 0) (s', i) = Some (s1, i + 1)" "compiled F a s s1 (write_at i [Branch 0] L)"
    using emit_compiled [OF assms(2), of i "Branch 0"] assms(3,4) by auto
  obtain s2 where s2: "push_int (int i) s1 = Some s2" "compiled F (with_top (int i) a) s s2 (write_at i [Branch 0] L)" using push_compiled [OF s1(2) assms(5)] by blast
  have "compile_control (tok ''if'') (s', i) = Some (s2, i + 1)" using s1(1) s2(1) toks_differ by (auto simp: compile_control_def)
  from compile_word_tok [OF assms(1) _ this s2(2), of ts] assms(3,4)
  obtain s3 where "compile_tokens nm (tok ''if'' # ts) (s', i) = compile_tokens nm ts (s3, i + 1 + 1)"
    "compiled F (with_top (int i) a) s s3 (write_at (i + 1) [Word (wd (tok ''if''))] (write_at i [Branch 0] L))" by auto
  then show ?thesis using write_at_append [of i "[Branch 0]" "[Word (wd (tok ''if''))]" L] assms(3,4) by auto
qed

lemma tokens_elif:
  assumes "controls_known wd nm s" "compiled F (with_top (int i) a) s s' (write_at i (Branch w # its) L)" "length L = MAX_COMPILE_WORDS"
    "j = i + 1 + length its" "j + 2 < MAX_COMPILE_WORDS" "stack_room a"
  shows "\<exists>s2. compile_tokens nm (tok ''elif'' # ts) (s', j) = compile_tokens nm ts (s2, j + 2) \<and>
    compiled F (with_top (int j) a) s s2 (write_at j [Branch 0, Word (wd (tok ''elif''))] (write_at i (Branch (int j - int i) # its) L))"
proof -
  let ?L = "write_at i (Branch (int j - int i) # its) L"
  have l: "length ?L = MAX_COMPILE_WORDS" using assms(3-5) by simp
  obtain s1 where s1: "pop_int s' = Some (int i, s1)" "compiled F a s s1 (write_at i (Branch w # its) L)" using pop_compiled [OF assms(2)] by blast
  have "i + length its < length L" using assms(3-5) by simp
  from back_fill_compiled [OF s1(2) this] obtain s2 where s2: "back_fill (int i) (int j - int i) s1 = Some s2" "compiled F a s s2 ?L" by blast
  obtain s3 where s3: "emit (Branch 0) (s2, j) = Some (s3, j + 1)" "compiled F a s s3 (write_at j [Branch 0] ?L)"
    using emit_compiled [OF s2(2), of j "Branch 0"] l assms(5) by auto
  obtain s4 where s4: "push_int (int j) s3 = Some s4" "compiled F (with_top (int j) a) s s4 (write_at j [Branch 0] ?L)" using push_compiled [OF s3(2) assms(6)] by blast
  have "compile_control (tok ''elif'') (s', j) = Some (s4, j + 1)" using s1(1) s2(1) s3(1) s4(1) toks_differ by (auto simp: compile_control_def)
  from compile_word_tok [OF assms(1) _ this s4(2), of ts] l assms(5)
  obtain s5 where "compile_tokens nm (tok ''elif'' # ts) (s', j) = compile_tokens nm ts (s5, j + 1 + 1)"
    "compiled F (with_top (int j) a) s s5 (write_at (j + 1) [Word (wd (tok ''elif''))] (write_at j [Branch 0] ?L))" by auto
  then show ?thesis using write_at_append [of j "[Branch 0]" "[Word (wd (tok ''elif''))]" ?L] l assms(5) by auto
qed

lemma tokens_endif:
  assumes "controls_known wd nm s" "compiled F (with_top (int i) a) s s' (write_at i (Branch w # its) L)" "length L = MAX_COMPILE_WORDS"
    "j = i + 1 + length its" "j + 1 < MAX_COMPILE_WORDS"
  shows "\<exists>s2. compile_tokens nm (tok ''endif'' # ts) (s', j) = compile_tokens nm ts (s2, j + 1) \<and>
    compiled F a s s2 (write_at i (Branch (int (length its) - 1) # its @ [Word (wd (tok ''endif''))]) L)"
proof -
  let ?L = "write_at i (Branch (int j - int i - 2) # its) L"
  have l: "length ?L = MAX_COMPILE_WORDS" using assms(3-5) by simp
  obtain s1 where s1: "pop_int s' = Some (int i, s1)" "compiled F a s s1 (write_at i (Branch w # its) L)" using pop_compiled [OF assms(2)] by blast
  have "i + length its < length L" using assms(3-5) by simp
  from back_fill_compiled [OF s1(2) this] obtain s2 where s2: "back_fill (int i) (int j - int i - 2) s1 = Some s2" "compiled F a s s2 ?L" by blast
  have "compile_control (tok ''endif'') (s', j) = Some (s2, j)" using s1(1) s2(1) toks_differ by (auto simp: compile_control_def)
  from compile_word_tok [OF assms(1) _ this s2(2), of ts] l assms(5)
  obtain s3 where "compile_tokens nm (tok ''endif'' # ts) (s', j) = compile_tokens nm ts (s3, j + 1)"
    "compiled F a s s3 (write_at j [Word (wd (tok ''endif''))] ?L)" by auto
  moreover have "write_at j [Word (wd (tok ''endif''))] ?L = write_at i (Branch (int j - int i - 2) # its @ [Word (wd (tok ''endif''))]) L"
    using write_at_append [of i "Branch (int j - int i - 2) # its" "[Word (wd (tok ''endif''))]" L] assms(3-5) by simp
  moreover have "int j - int i - 2 = int (length its) - 1" using assms(4) by simp
  ultimately show ?thesis by metis
qed

declare compile_tokens.simps(2) [simp del]

lemma comp_srcD:
  assumes "comp_src wd nm s toks its" "compiled F a s s' L" "length L = MAX_COMPILE_WORDS" "i + length its < MAX_COMPILE_WORDS" "length (cells a) + length its \<le> STACK_SIZE"
  shows "\<exists>s2. compile_tokens nm (toks @ ts) (s', i) = compile_tokens nm ts (s2, i + length its) \<and> compiled F a s s2 (write_at i its L)"
  using assms unfolding comp_src_def by blast

lemma comp_if_then:
  assumes ck: "controls_known wd nm s" and b: "comp_src wd nm s bt bc"
  shows "comp_src wd nm s ([tok ''if''] @ bt @ [tok ''endif'']) ([Branch (int (length bc)), Word (wd (tok ''if''))] @ bc @ [Word (wd (tok ''endif''))])"
  unfolding comp_src_def
proof (intro allI impI)
  fix F a s' L i ts
  let ?c = "[Branch (int (length bc)), Word (wd (tok ''if''))] @ bc @ [Word (wd (tok ''endif''))]"
  let ?its = "Word (wd (tok ''if'')) # bc"
  assume h: "compiled F a s s' L" "length L = MAX_COMPILE_WORDS" "i + length ?c < MAX_COMPILE_WORDS" "length (cells a) + length ?c \<le> STACK_SIZE"
  have "stack_room a" using h(4) by (simp add: stack_room_def)
  obtain s1 where s1: "compile_tokens nm (tok ''if'' # bt @ tok ''endif'' # ts) (s', i) = compile_tokens nm (bt @ tok ''endif'' # ts) (s1, i + 2)"
    "compiled F (with_top (int i) a) s s1 (write_at i [Branch 0, Word (wd (tok ''if''))] L)"
    using tokens_if [OF ck h(1,2) _ \<open>stack_room a\<close>, of i] h(3) by auto
  obtain s2 where s2: "compile_tokens nm (bt @ tok ''endif'' # ts) (s1, i + 2) = compile_tokens nm (tok ''endif'' # ts) (s2, i + 2 + length bc)"
    "compiled F (with_top (int i) a) s s2 (write_at (i + 2) bc (write_at i [Branch 0, Word (wd (tok ''if''))] L))"
    using comp_srcD [OF b s1(2), of "i + 2" "tok ''endif'' # ts"] h(2-4) by auto
  have "write_at (i + 2) bc (write_at i [Branch 0, Word (wd (tok ''if''))] L) = write_at i (Branch 0 # ?its) L"
    using write_at_append [of i "[Branch 0, Word (wd (tok ''if''))]" bc L] h(2,3) by simp
  with s2(2) have "compiled F (with_top (int i) a) s s2 (write_at i (Branch 0 # ?its) L)" by simp
  from tokens_endif [OF ck this h(2), of "i + 2 + length bc" ts] h(3)
  obtain s3 where "compile_tokens nm (tok ''endif'' # ts) (s2, i + 2 + length bc) = compile_tokens nm ts (s3, i + 2 + length bc + 1)"
    "compiled F a s s3 (write_at i (Branch (int (length ?its) - 1) # ?its @ [Word (wd (tok ''endif''))]) L)" by auto
  then show "\<exists>s2. compile_tokens nm (([tok ''if''] @ bt @ [tok ''endif'']) @ ts) (s', i) = compile_tokens nm ts (s2, i + length ?c) \<and> compiled F a s s2 (write_at i ?c L)"
    using s1(1) s2(1) by auto
qed

lemma comp_if_else:
  assumes ck: "controls_known wd nm s" and b: "comp_src wd nm s bt bc" and e: "comp_src wd nm s et ec"
  shows "comp_src wd nm s ([tok ''if''] @ bt @ [tok ''elif''] @ et @ [tok ''endif''])
    ([Branch (int (length bc) + 2), Word (wd (tok ''if''))] @ bc @ [Branch (int (length ec)), Word (wd (tok ''elif''))] @ ec @ [Word (wd (tok ''endif''))])"
  unfolding comp_src_def
proof (intro allI impI)
  fix F a s' L i ts
  let ?c = "[Branch (int (length bc) + 2), Word (wd (tok ''if''))] @ bc @ [Branch (int (length ec)), Word (wd (tok ''elif''))] @ ec @ [Word (wd (tok ''endif''))]"
  let ?its = "Word (wd (tok ''if'')) # bc" let ?eits = "Word (wd (tok ''elif'')) # ec"
  let ?j = "i + 2 + length bc" let ?M = "write_at i (Branch (int ?j - int i) # ?its) L"
  assume h: "compiled F a s s' L" "length L = MAX_COMPILE_WORDS" "i + length ?c < MAX_COMPILE_WORDS" "length (cells a) + length ?c \<le> STACK_SIZE"
  have "stack_room a" using h(4) by (simp add: stack_room_def)
  let ?rest = "et @ tok ''endif'' # ts"
  obtain s1 where s1: "compile_tokens nm (tok ''if'' # bt @ tok ''elif'' # ?rest) (s', i) = compile_tokens nm (bt @ tok ''elif'' # ?rest) (s1, i + 2)"
    "compiled F (with_top (int i) a) s s1 (write_at i [Branch 0, Word (wd (tok ''if''))] L)"
    using tokens_if [OF ck h(1,2) _ \<open>stack_room a\<close>, of i] h(3) by auto
  obtain s2 where s2: "compile_tokens nm (bt @ tok ''elif'' # ?rest) (s1, i + 2) = compile_tokens nm (tok ''elif'' # ?rest) (s2, ?j)"
    "compiled F (with_top (int i) a) s s2 (write_at (i + 2) bc (write_at i [Branch 0, Word (wd (tok ''if''))] L))"
    using comp_srcD [OF b s1(2), of "i + 2" "tok ''elif'' # ?rest"] h(2-4) by auto
  have "write_at (i + 2) bc (write_at i [Branch 0, Word (wd (tok ''if''))] L) = write_at i (Branch 0 # ?its) L"
    using write_at_append [of i "[Branch 0, Word (wd (tok ''if''))]" bc L] h(2,3) by simp
  with s2(2) have "compiled F (with_top (int i) a) s s2 (write_at i (Branch 0 # ?its) L)" by simp
  from tokens_elif [OF ck this h(2) _ _ \<open>stack_room a\<close>, of ?j ?rest] h(3)
  obtain s3 where s3: "compile_tokens nm (tok ''elif'' # ?rest) (s2, ?j) = compile_tokens nm ?rest (s3, ?j + 2)"
    "compiled F (with_top (int ?j) a) s s3 (write_at ?j [Branch 0, Word (wd (tok ''elif''))] ?M)" by auto
  have M: "length ?M = MAX_COMPILE_WORDS" using h(2,3) by simp
  obtain s4 where s4: "compile_tokens nm ?rest (s3, ?j + 2) = compile_tokens nm (tok ''endif'' # ts) (s4, ?j + 2 + length ec)"
    "compiled F (with_top (int ?j) a) s s4 (write_at (?j + 2) ec (write_at ?j [Branch 0, Word (wd (tok ''elif''))] ?M))"
    using comp_srcD [OF e s3(2), of "?j + 2" "tok ''endif'' # ts"] M h(3,4) by auto
  have "write_at (?j + 2) ec (write_at ?j [Branch 0, Word (wd (tok ''elif''))] ?M) = write_at ?j (Branch 0 # ?eits) ?M"
    using write_at_append [of ?j "[Branch 0, Word (wd (tok ''elif''))]" ec ?M] M h(3) by simp
  with s4(2) have "compiled F (with_top (int ?j) a) s s4 (write_at ?j (Branch 0 # ?eits) ?M)" by simp
  from tokens_endif [OF ck this M, of "?j + 2 + length ec" ts] h(3)
  obtain s5 where s5: "compile_tokens nm (tok ''endif'' # ts) (s4, ?j + 2 + length ec) = compile_tokens nm ts (s5, ?j + 2 + length ec + 1)"
    "compiled F a s s5 (write_at ?j (Branch (int (length ?eits) - 1) # ?eits @ [Word (wd (tok ''endif''))]) ?M)" by auto
  have "write_at ?j (Branch (int (length ?eits) - 1) # ?eits @ [Word (wd (tok ''endif''))]) ?M = write_at i ?c L"
    using write_at_append [of i "Branch (int ?j - int i) # ?its" "Branch (int (length ?eits) - 1) # ?eits @ [Word (wd (tok ''endif''))]" L] h(2,3) by (simp add: add.commute)
  then show "\<exists>s2. compile_tokens nm (([tok ''if''] @ bt @ [tok ''elif''] @ et @ [tok ''endif'']) @ ts) (s', i) = compile_tokens nm ts (s2, i + length ?c) \<and>
      compiled F a s s2 (write_at i ?c L)" using s1(1) s2(1) s3(1) s4(1) s5 by (auto simp: add.assoc)
qed

lemma compile_src: "controls_known wd nm s \<Longrightarrow> src_ok wd nm s x \<Longrightarrow> comp_src wd nm s (src_toks x) (code wd nm x)"
proof (induction x)
  case (If_then b)
  have "comp_src wd nm s (concat (map src_toks b)) (concat (map (code wd nm) b))" by (rule comp_concat) (use If_then in auto)
  from comp_if_then [OF If_then.prems(1) this] show ?case by (simp add: Let_def)
next
  case (If_else b c)
  have "comp_src wd nm s (concat (map src_toks b)) (concat (map (code wd nm) b))" by (rule comp_concat) (use If_else in auto)
  moreover have "comp_src wd nm s (concat (map src_toks c)) (concat (map (code wd nm) c))" by (rule comp_concat) (use If_else in auto)
  ultimately show ?case using comp_if_else [OF If_else.prems(1)] by (simp add: Let_def)
next
  case (Count b)
  have "comp_src wd nm s (concat (map src_toks b)) (concat (map (code wd nm) b))" by (rule comp_concat) (use Count in auto)
  then show ?case using comp_append [OF comp_label [OF Count.prems(1), of "''do''"] comp_append [OF _ comp_label [OF Count.prems(1), of "''loop''"]]] by simp
next
  case (Step b)
  have "comp_src wd nm s (concat (map src_toks b)) (concat (map (code wd nm) b))" by (rule comp_concat) (use Step in auto)
  then show ?case using comp_append [OF comp_label [OF Step.prems(1), of "''for''"] comp_append [OF _ comp_label [OF Step.prems(1), of "''forloop''"]]] by simp
qed (use comp_num comp_call comp_say in blast)+

definition srcs_toks :: "src list \<Rightarrow> u8 list list" where
  "srcs_toks xs = concat (map src_toks xs)"

text \<open>\<open>compile_tokens\<close> writes the items of the program from the start of the list on.\<close>

lemma compile_program:
  assumes "controls_known wd nm s" "\<forall>x\<in>set xs. src_ok wd nm s x" "represents F s a" "length (new_word_list s) = MAX_COMPILE_WORDS"
    "length (codes wd nm xs) < MAX_COMPILE_WORDS" "length (cells a) + length (codes wd nm xs) \<le> STACK_SIZE"
  shows "\<exists>s'. compile_tokens nm (srcs_toks xs) (s, 0) = Some (s', length (codes wd nm xs)) \<and> compiled F a s s' (write_at 0 (codes wd nm xs) (new_word_list s))"
proof -
  have "comp_src wd nm s (srcs_toks xs) (codes wd nm xs)" unfolding srcs_toks_def codes_def by (rule comp_concat) (use compile_src assms(1,2) in blast)
  from comp_srcD [OF this compiled_refl [OF assms(3)] assms(4), of 0 "[]"] assms(5,6) show ?thesis by simp
qed

end
