(* ===== verification/Kforth_Text.thy ===== *)
theory Kforth_Text
  imports Kforth_Comp
begin

text \<open>
  The text of a line: its tokens stand one space apart, strings in quotes, and \<open>get_token\<close> reads them back.
\<close>

definition tok_text :: "u8 list \<Rightarrow> u8 list" where
  "tok_text t = (if is_str t then t @ [0x22] else t)"

fun line_text :: "u8 list list \<Rightarrow> u8 list" where
  "line_text [] = []"
| "line_text [t] = tok_text t"
| "line_text (t # u # ts) = tok_text t @ 0x20 # line_text (u # ts)"

definition tok_ok :: "u8 list \<Rightarrow> bool" where
  "tok_ok t \<longleftrightarrow> t \<noteq> [] \<and> 0 \<notin> set t \<and> (if hd t = 0x22 then 0x22 \<notin> set (tl t) \<and> (tl t = [] \<or> last t \<noteq> 0x5C) else 0x20 \<notin> set t)"

lemma token_end_at:
  assumes "drop p b = t @ c # r" "0 \<notin> set t" "0x20 \<notin> set t" "c = 0 \<or> c = 0x20"
  shows "token_end b p = Some (p + length t)"
  using assms
proof (induction t arbitrary: p)
  case Nil
  then show ?case using peek_hd [of p b c r] by (subst token_end.simps) auto
next
  case (Cons x t)
  then have "token_end b (Suc p) = Some (Suc p + length t)" using drop_tail [of p b x "t @ c # r"] by simp
  then show ?case using Cons.prems peek_hd [of p b x "t @ c # r"] by (subst token_end.simps) auto
qed

lemma close_quote_at:
  assumes "drop p b = y # x @ 0x22 # r" "0 \<notin> set x" "0x22 \<notin> set x" "last (y # x) \<noteq> 0x5C"
  shows "close_quote b (Suc p) = Some (Suc p + length x)"
  using assms
proof (induction x arbitrary: p y)
  case Nil
  then have d: "drop p b = y # 0x22 # r" by simp
  have "peek b p = Some y" "peek b (Suc p) = Some 0x22" using peek_hd [OF d] peek_hd [OF drop_tail [OF d]] by simp_all
  then show ?case using Nil by (subst close_quote.simps) simp
next
  case (Cons z x)
  then have d: "drop (Suc p) b = z # x @ 0x22 # r" using drop_tail [OF Cons.prems(1)] by simp
  then have "close_quote b (Suc (Suc p)) = Some (Suc (Suc p) + length x)" using Cons.IH [OF d] Cons.prems by auto
  moreover have "peek b p = Some y" "peek b (Suc p) = Some z" using peek_hd [OF Cons.prems(1)] peek_hd [OF d] by simp_all
  ultimately show ?case using Cons.prems by (subst close_quote.simps) auto
qed

lemma drop_update:
  assumes "drop p b = t @ c # r"
  shows "drop p (b[p + length t := d]) = t @ d # r" "p + length t < length b" "drop (p + length t) b = c # r" "drop (Suc (p + length t)) b = r"
proof -
  have "length b - p = length t + 1 + length r" using arg_cong [OF assms, of length] by simp
  then show l: "p + length t < length b" by linarith
  show "drop p (b[p + length t := d]) = t @ d # r" using assms by (simp add: drop_update_swap list_update_append)
  show "drop (p + length t) b = c # r" using assms by (metis append_eq_conv_conj drop_drop add.commute)
  then show "drop (Suc (p + length t)) b = r" by (rule drop_tail)
qed

text \<open>One token, at the end of the line or with a space behind it.\<close>

lemma get_token_at:
  assumes "tok_ok t" "drop p b = tok_text t @ c # r" "c = 0 \<or> c = 0x20"
  shows "\<exists>b' q. get_token b p = Some (Some p, False, b', q) \<and> c_str (drop p b') = Some t \<and> drop q b' = (if c = 0 then c # r else r)"
proof (cases "hd t = 0x22")
  case False
  then have t: "tok_text t = t" "0 \<notin> set t" "0x20 \<notin> set t" "t \<noteq> []" using assms(1) by (auto simp: tok_text_def is_str_def tok_ok_def)
  then obtain x t' where x: "t = x # t'" "x \<noteq> 0" "x \<noteq> 0x22" using False by (cases t) auto
  have d: "drop p b = t @ c # r" using assms(2) t(1) by simp
  have "peek b p = Some x" using d x(1) peek_hd by simp
  moreover have "token_end b p = Some (p + length t)" using token_end_at [OF d t(2,3) assms(3)] .
  moreover have "peek b (p + length t) = Some c" using peek_hd [OF drop_update(3) [OF d]] .
  ultimately have g: "get_token b p = Some (if c = 0x20 then (Some p, False, b[p + length t := 0], p + length t + 1) else (Some p, False, b, p + length t))"
    using x drop_update(2) [OF d] by (simp add: get_token_def plain_token_def poke_def)
  show ?thesis
  proof (cases "c = 0x20")
    case True
    have "c_str (drop p (b[p + length t := 0])) = Some t" using drop_update(1) [OF d, of 0] c_str_append [OF t(2)] by simp
    moreover have "drop (p + length t + 1) (b[p + length t := 0]) = r" using drop_update(4) [OF d] by simp
    ultimately show ?thesis using g True by auto
  next
    case False
    then have c: "c = 0" using assms(3) by simp
    have "c_str (drop p b) = Some t" using d c c_str_append [OF t(2)] by simp
    then show ?thesis using g c drop_update(3) [OF d] by simp
  qed
next
  case True
  then obtain x where x: "t = 0x22 # x" "0 \<notin> set x" "0x22 \<notin> set x" "last (0x22 # x) \<noteq> 0x5C" using assms(1) by (cases t) (auto simp: tok_ok_def)
  have d: "drop p b = 0x22 # x @ 0x22 # c # r" using assms(2) x(1) by (simp add: tok_text_def is_str_def)
  then have d': "drop p b = t @ 0x22 # c # r" using x(1) by simp
  let ?q = "p + length t" let ?b = "b[?q := 0]"
  have "0x22 \<noteq> (0 :: u8)" by simp
  have 1: "peek b p = Some 0x22" "close_quote b (p + 1) = Some ?q" "peek b ?q = Some 0x22" using peek_hd [OF d] close_quote_at [OF d x(2-4)] x(1) peek_hd [OF drop_update(3) [OF d']] by simp_all
  have e: "drop p ?b = (t @ [0]) @ c # r" using drop_update(1) [OF d', of 0] by simp
  have 2: "peek ?b (?q + 1) = Some c" using peek_hd [OF drop_update(3) [OF e]] by simp
  have 0: "0 \<notin> set t" using x by simp
  have g: "get_token b p = Some (if c = 0 then (Some p, False, ?b, ?q + 1) else (Some p, False, ?b[?q + 1 := 0], ?q + 2))"
    using 1 2 drop_update(2) [OF d'] drop_update(2) [OF e] by (simp add: get_token_def quoted_token_def poke_def)
  show ?thesis
  proof (cases "c = 0")
    case True
    then show ?thesis using g e c_str_append [OF 0] drop_update(3) [OF e] by simp
  next
    case False
    have "c_str (drop p (?b[?q + 1 := 0])) = Some t" using drop_update(1) [OF e, of 0] c_str_append [OF 0] by simp
    moreover have "drop (?q + 2) (?b[?q + 1 := 0]) = r" using drop_update(4) [OF e] by simp
    ultimately show ?thesis using g False by auto
  qed
qed

lemma get_tokens_end: "drop p b = 0 # r \<Longrightarrow> get_tokens b p = Some ([], False, b)"
  using peek_hd [of p b 0 r] by (subst get_tokens.simps) (simp add: get_token_def)

lemma get_tokens_line:
  assumes "\<forall>t\<in>set ts. tok_ok t" "drop p b = line_text ts @ 0 # r"
  shows "\<exists>b'. get_tokens b p = Some (ts, False, b')"
  using assms
proof (induction ts arbitrary: p b rule: line_text.induct)
  case 1
  then show ?case using get_tokens_end by auto
next
  case (2 t)
  then obtain b' q where g: "get_token b p = Some (Some p, False, b', q)" "c_str (drop p b') = Some t" "drop q b' = 0 # r"
    using get_token_at [of t p b 0 r] by auto
  then show ?case using get_tokens_end [OF g(3)] by (subst get_tokens.simps) simp
next
  case (3 t u ts)
  then have t: "tok_ok t" "drop p b = tok_text t @ 0x20 # line_text (u # ts) @ 0 # r" by simp_all
  obtain b' q where g: "get_token b p = Some (Some p, False, b', q)" "c_str (drop p b') = Some t" "drop q b' = line_text (u # ts) @ 0 # r"
    using get_token_at [OF t] by auto
  have "\<forall>v\<in>set (u # ts). tok_ok v" using 3(2) by simp
  from 3(1) [OF this g(3)] obtain b'' where "get_tokens b' q = Some (u # ts, False, b'')" by blast
  then show ?case using g by (subst get_tokens.simps) simp
qed

end
