(* ===== verification/Kforth_Dict.thy ===== *)
theory Kforth_Dict
  imports Kforth_Text
begin

text \<open>
  The vocabulary of a context: every name of the dictionary with its meaning.  Defining a word changes the meaning of its name
  for all words that call it, and of no other name.
\<close>

section \<open>The names a program uses\<close>

fun src_names :: "src \<Rightarrow> u8 list set" where
  "src_names (Num v) = {}"
| "src_names (Call x) = {x}"
| "src_names (Say x) = {}"
| "src_names (If_then b) = {tok ''if'', tok ''endif''} \<union> (\<Union>x\<in>set b. src_names x)"
| "src_names (If_else b c) = {tok ''if'', tok ''elif'', tok ''endif''} \<union> (\<Union>x\<in>set b. src_names x) \<union> (\<Union>x\<in>set c. src_names x)"
| "src_names (Count b) = {tok ''do'', tok ''loop''} \<union> (\<Union>x\<in>set b. src_names x)"
| "src_names (Step b) = {tok ''for'', tok ''forloop''} \<union> (\<Union>x\<in>set b. src_names x)"

text \<open>No byte of a string that stands in the place of a type looks like the end of a list or a reference.\<close>

fun src_texts_ok :: "src \<Rightarrow> bool" where
  "src_texts_ok (Say x) \<longleftrightarrow> (\<forall>c\<in>set x. c \<noteq> 0x12 \<and> c \<noteq> 0x14)"
| "src_texts_ok (If_then b) \<longleftrightarrow> (\<forall>x\<in>set b. src_texts_ok x)"
| "src_texts_ok (If_else b c) \<longleftrightarrow> (\<forall>x\<in>set b. src_texts_ok x) \<and> (\<forall>x\<in>set c. src_texts_ok x)"
| "src_texts_ok (Count b) \<longleftrightarrow> (\<forall>x\<in>set b. src_texts_ok x)"
| "src_texts_ok (Step b) \<longleftrightarrow> (\<forall>x\<in>set b. src_texts_ok x)"
| "src_texts_ok _ \<longleftrightarrow> True"

lemma concat_map_cong: "(\<And>x. x \<in> set xs \<Longrightarrow> f x = g x) \<Longrightarrow> concat (map f xs) = concat (map g xs)"
  by (simp cong: map_cong)

lemma code_cong: "(\<And>y. y \<in> src_names x \<Longrightarrow> y \<noteq> nm \<Longrightarrow> wd y = wd' y) \<Longrightarrow> nm \<notin> control_toks \<Longrightarrow> code wd nm x = code wd' nm x"
proof (induction x)
  case (If_then b)
  have "concat (map (code wd nm) b) = concat (map (code wd' nm) b)" by (rule concat_map_cong) (use If_then in auto)
  moreover have "wd (tok ''if'') = wd' (tok ''if'')" "wd (tok ''endif'') = wd' (tok ''endif'')" using If_then.prems by (auto simp: control_toks_def)
  ultimately show ?case by simp
next
  case (If_else b c)
  have "concat (map (code wd nm) b) = concat (map (code wd' nm) b)" by (rule concat_map_cong, rule If_else.IH(1)) (use If_else.prems in auto)
  moreover have "concat (map (code wd nm) c) = concat (map (code wd' nm) c)" by (rule concat_map_cong, rule If_else.IH(2)) (use If_else.prems in auto)
  moreover have "wd (tok ''if'') = wd' (tok ''if'')" "wd (tok ''elif'') = wd' (tok ''elif'')" "wd (tok ''endif'') = wd' (tok ''endif'')"
    using If_else.prems by (auto simp: control_toks_def)
  ultimately show ?case by simp
next
  case (Count b)
  have "concat (map (code wd nm) b) = concat (map (code wd' nm) b)" by (rule concat_map_cong) (use Count in auto)
  moreover have "wd (tok ''do'') = wd' (tok ''do'')" "wd (tok ''loop'') = wd' (tok ''loop'')" using Count.prems by (auto simp: control_toks_def)
  ultimately show ?case by simp
next
  case (Step b)
  have "concat (map (code wd nm) b) = concat (map (code wd' nm) b)" by (rule concat_map_cong) (use Step in auto)
  moreover have "wd (tok ''for'') = wd' (tok ''for'')" "wd (tok ''forloop'') = wd' (tok ''forloop'')" using Step.prems by (auto simp: control_toks_def)
  ultimately show ?case by simp
qed auto

section \<open>Redirecting references\<close>

fun redir :: "nat \<Rightarrow> nat \<Rightarrow> code_item \<Rightarrow> code_item" where
  "redir old new (Word w) = Word (if w = old then new else w)" | "redir old new it = it"

lemma redir_same: "map (redir k k) its = its"
proof (rule map_idI)
  fix it show "redir k k it = it" by (cases it) simp_all
qed

definition passable :: "code_item \<Rightarrow> bool" where
  "passable it \<longleftrightarrow> it \<noteq> End \<and> it \<noteq> Raw 0x12 \<and> it \<noteq> Raw 0x14"

lemma redirect_End: "\<forall>it\<in>set its. passable it \<Longrightarrow> redirect old new (its @ [End]) = Some (map (redir old new) its @ [End])"
proof (induction its)
  case (Cons it its)
  then show ?case by (cases it) (auto simp: passable_def)
qed simp

lemma raw_items_passable: "\<forall>c\<in>set x. c \<noteq> 0x12 \<and> c \<noteq> 0x14 \<Longrightarrow> \<forall>it\<in>set (raw_items x). passable it"
proof
  fix it assume h: "\<forall>c\<in>set x. c \<noteq> 0x12 \<and> c \<noteq> 0x14" "it \<in> set (raw_items x)"
  then obtain k where k: "it = Raw ((x @ [0]) ! (16 * k))" "k < str_items x" by (auto simp: raw_items_def)
  have "16 * k < length (x @ [0])" using k(2) by (simp add: str_items_def less_Suc_eq_le)
  then have "(x @ [0]) ! (16 * k) \<in> set (x @ [0])" by (rule nth_mem)
  then show "passable it" using h(1) k(1) by (auto simp: passable_def)
qed

lemma code_passable: "src_texts_ok x \<Longrightarrow> \<forall>it\<in>set (code wd nm x). passable it"
proof (induction x)
  case (Say x) then show ?case using raw_items_passable by (auto simp: passable_def)
qed (auto simp: passable_def Let_def)

lemma map_redir_raw: "map (redir old new) (raw_items x) = raw_items x"
  by (simp add: raw_items_def)

lemma map_redir_concat: "(\<And>y. y \<in> set b \<Longrightarrow> map (redir old new) (code wd nm y) = code wd' nm y) \<Longrightarrow>
    map (redir old new) (concat (map (code wd nm) b)) = concat (map (code wd' nm) b)"
  by (induction b) auto

lemma code_redir:
  "(\<And>y. y \<in> src_names x \<Longrightarrow> (if wd y = old then new else wd y) = wd' y) \<Longrightarrow> map (redir old new) (code wd nm x) = code wd' nm x"
proof (induction x)
  case (If_then b)
  have m: "map (redir old new) (concat (map (code wd nm) b)) = concat (map (code wd' nm) b)" by (rule map_redir_concat) (use If_then in auto)
  have "length (concat (map (code wd nm) b)) = length (concat (map (code wd' nm) b))" using arg_cong [OF m, of length] by simp
  with m If_then.prems show ?case by (simp add: Let_def)
next
  case (If_else b c)
  have m: "map (redir old new) (concat (map (code wd nm) b)) = concat (map (code wd' nm) b)"
    by (rule map_redir_concat, rule If_else.IH(1), assumption, rule If_else.prems, auto)
  have m': "map (redir old new) (concat (map (code wd nm) c)) = concat (map (code wd' nm) c)"
    by (rule map_redir_concat, rule If_else.IH(2), assumption, rule If_else.prems, auto)
  have "length (concat (map (code wd nm) b)) = length (concat (map (code wd' nm) b))" "length (concat (map (code wd nm) c)) = length (concat (map (code wd' nm) c))"
    using arg_cong [OF m, of length] arg_cong [OF m', of length] by simp_all
  with m m' If_else.prems show ?case by (simp add: Let_def)
next
  case (Count b)
  have "map (redir old new) (concat (map (code wd nm) b)) = concat (map (code wd' nm) b)" by (rule map_redir_concat) (use Count in auto)
  with Count.prems show ?case by simp
next
  case (Step b)
  have "map (redir old new) (concat (map (code wd nm) b)) = concat (map (code wd' nm) b)" by (rule map_redir_concat) (use Step in auto)
  with Step.prems show ?case by simp
qed (auto simp: map_redir_raw)

definition redirected :: "nat \<Rightarrow> nat \<Rightarrow> kword \<Rightarrow> kword" where
  "redirected old new e = (if word_fn e = Null then e\<lparr>word_list := map (redir old new) (butlast (word_list e)) @ [End]\<rparr> else e)"

definition redirectable :: "kword \<Rightarrow> bool" where
  "redirectable e \<longleftrightarrow> (word_fn e = Null \<longrightarrow> (\<exists>its. word_list e = its @ [End] \<and> (\<forall>it\<in>set its. passable it)))"

lemma redirect_all_ok:
  assumes "distinct ws" "\<forall>w\<in>set ws. \<exists>e. es w = Some e \<and> redirectable e"
  shows "\<exists>es'. redirect_all old new ws es = Some es' \<and> (\<forall>w. es' w = (if w \<in> set ws then map_option (redirected old new) (es w) else es w))"
  using assms
proof (induction ws arbitrary: es)
  case (Cons w ws)
  then obtain e where e: "es w = Some e" "redirectable e" by auto
  let ?es = "es(w \<mapsto> redirected old new e)"
  have step: "redirect_all old new (w # ws) es = redirect_all old new ws (if word_fn e = Null then ?es else es)"
  proof (cases "word_fn e = Null")
    case True
    then obtain its where "word_list e = its @ [End]" "\<forall>it\<in>set its. passable it" using e(2) by (auto simp: redirectable_def)
    then show ?thesis using e True redirect_End [of its] by (simp add: redirected_def)
  qed (use e in simp)
  have same: "(if word_fn e = Null then ?es else es) = ?es" using e(1) by (auto simp: redirected_def fun_upd_idem)
  have "\<forall>v\<in>set ws. \<exists>e. ?es v = Some e \<and> redirectable e" using Cons.prems by auto
  moreover have "distinct ws" using Cons.prems(1) by simp
  ultimately obtain es' where "redirect_all old new ws ?es = Some es'"
    "\<forall>v. es' v = (if v \<in> set ws then map_option (redirected old new) (?es v) else ?es v)" using Cons.IH [of ?es] by blast
  then show ?case using step same e(1) Cons.prems(1) by auto
qed simp

section \<open>Looking up names\<close>

lemma find_word_map_of:
  assumes "\<forall>w\<in>set ws. \<exists>e. es w = Some e"
  shows "find_word es x ws = Some (map_of (map (\<lambda>w. (name (the (es w)), w)) ws) x)"
  using assms by (induction ws) auto

lemma find_word_found: "find_word es x ws = Some (Some w) \<Longrightarrow> w \<in> set ws \<and> (\<exists>e. es w = Some e \<and> name e = x)"
  by (induction ws) (auto simp: bind_Some_iff split: if_splits)

text \<open>A lookup depends on the names only, and words with another name do not matter.\<close>

lemma find_word_cong: "(\<And>w. w \<in> set ws \<Longrightarrow> map_option name (es' w) = map_option name (es w)) \<Longrightarrow> find_word es' x ws = find_word es x ws"
proof (induction ws)
  case (Cons w ws)
  then have "map_option name (es' w) = map_option name (es w)" "find_word es' x ws = find_word es x ws" by simp_all
  then show ?case by (cases "es w"; cases "es' w") auto
qed simp

lemma find_word_remove1:
  "es old = Some e \<Longrightarrow> name e \<noteq> x \<Longrightarrow> find_word es x (remove1 old ws) = find_word es x ws"
proof (induction ws)
  case (Cons w ws)
  then show ?case by (cases "es w") auto
qed simp

section \<open>Vocabularies\<close>

definition vocabulary :: "names \<Rightarrow> (u8 list \<Rightarrow> nat) \<Rightarrow> kctx \<Rightarrow> bool" where
  "vocabulary D wd s \<longleftrightarrow> dict_ok D wd s \<and> (\<forall>x. get_word_by_name s x = Some (if x \<in> dom D then Some (wd x) else None)) \<and>
     (\<forall>w\<in>set (dictionary s). \<exists>e. entries s w = Some e \<and> (word_fn e = Null \<longrightarrow> (\<exists>x b. D x = Some (M_word b) \<and> w = wd x))) \<and>
     distinct (dictionary s) \<and> (\<forall>w\<in>set (dictionary s). w < next_entry s) \<and>
     (\<forall>x b. D x = Some (M_word b) \<longrightarrow> (\<forall>y\<in>set b. src_names y \<subseteq> dom D \<and> src_texts_ok y))"

lemma vocabularyD:
  assumes "vocabulary D wd s"
  shows "dict_ok D wd s" "get_word_by_name s x = Some (if x \<in> dom D then Some (wd x) else None)"
    "w \<in> set (dictionary s) \<Longrightarrow> \<exists>e. entries s w = Some e \<and> (word_fn e = Null \<longrightarrow> (\<exists>x b. D x = Some (M_word b) \<and> w = wd x))"
    "distinct (dictionary s)" "w \<in> set (dictionary s) \<Longrightarrow> w < next_entry s"
    "D x = Some (M_word b) \<Longrightarrow> y \<in> set b \<Longrightarrow> src_names y \<subseteq> dom D \<and> src_texts_ok y"
  using assms unfolding vocabulary_def by simp_all

lemma vocabulary_meaning: "vocabulary D wd s \<Longrightarrow> D x = Some m \<Longrightarrow> \<exists>e. entries s (wd x) = Some e \<and> meaning_ok wd x m e"
  using vocabularyD(1) by (simp add: dict_ok_def)

lemma vocabulary_same: "same_dict s s' \<Longrightarrow> vocabulary D wd s \<Longrightarrow> vocabulary D wd s'"
  by (simp add: vocabulary_def dict_ok_same get_word_by_name_def) (simp add: same_dict_def)

lemma vocabulary_list: "vocabulary D wd (s\<lparr>new_word_list := L\<rparr>) \<longleftrightarrow> vocabulary D wd s"
  by (simp add: vocabulary_def dict_ok_def get_word_by_name_def)

lemma vocabulary_entry:
  assumes "vocabulary D wd s" "x \<in> dom D"
  shows "wd x \<in> set (dictionary s)" "\<exists>e. entries s (wd x) = Some e \<and> name e = x"
  using assms find_word_found [of "entries s" x "dictionary s" "wd x"] by (auto simp: vocabulary_def get_word_by_name_def)

lemma vocabulary_inj: "vocabulary D wd s \<Longrightarrow> x \<in> dom D \<Longrightarrow> y \<in> dom D \<Longrightarrow> wd x = wd y \<Longrightarrow> x = y"
  using vocabulary_entry(2) by (metis option.inject)

lemma vocabulary_word:
  assumes "vocabulary D wd s" "D x = Some (M_word b)"
  obtains e where "entries s (wd x) = Some e" "word_fn e = Null" "word_list e = codes wd x b @ [End]" "length (word_list e) < 2 ^ 31" "name e = x"
    "\<forall>y\<in>set b. src_names y \<subseteq> dom D" "\<forall>it\<in>set (codes wd x b). passable it"
proof -
  obtain e where e: "entries s (wd x) = Some e" "meaning_ok wd x (M_word b) e" using assms unfolding vocabulary_def dict_ok_def by blast
  moreover have "name e = x" using vocabulary_entry(2) [OF assms(1), of x] assms(2) e(1) by auto
  moreover have b: "\<forall>y\<in>set b. src_names y \<subseteq> dom D \<and> src_texts_ok y" using assms by (auto simp: vocabulary_def)
  moreover have "\<forall>it\<in>set (codes wd x b). passable it" using b code_passable unfolding codes_def by fastforce
  ultimately show ?thesis using that by auto
qed

lemma vocabulary_redirectable:
  assumes "vocabulary D wd s" "w \<in> set (dictionary s)"
  shows "\<exists>e. entries s w = Some e \<and> redirectable e"
proof -
  obtain e where e: "entries s w = Some e" "word_fn e = Null \<longrightarrow> (\<exists>x b. D x = Some (M_word b) \<and> w = wd x)" using assms unfolding vocabulary_def by blast
  have "redirectable e" unfolding redirectable_def
  proof
    assume "word_fn e = Null"
    then obtain x b where "D x = Some (M_word b)" "w = wd x" using e(2) by blast
    then show "\<exists>its. word_list e = its @ [End] \<and> (\<forall>it\<in>set its. passable it)" using vocabulary_word [OF assms(1)] e(1) by (metis option.inject)
  qed
  then show ?thesis using e(1) by blast
qed

section \<open>Defining a word\<close>

text \<open>Entries and dictionary without the name \<open>nm\<close>, with references to it moved to its new entry.\<close>

definition vacated :: "names \<Rightarrow> (u8 list \<Rightarrow> nat) \<Rightarrow> u8 list \<Rightarrow> nat \<Rightarrow> (nat \<Rightarrow> kword option) \<Rightarrow> nat list \<Rightarrow> bool" where
  "vacated D wd nm new es ds \<longleftrightarrow>
     (\<forall>x m. D x = Some m \<longrightarrow> x \<noteq> nm \<longrightarrow> wd x \<in> set ds \<and> (\<exists>e. es (wd x) = Some e \<and> meaning_ok (wd(nm := new)) x m e)) \<and>
     (\<forall>y. y \<noteq> nm \<longrightarrow> find_word es y ds = Some (if y \<in> dom D then Some (wd y) else None)) \<and>
     (\<forall>w\<in>set ds. \<exists>e. es w = Some e \<and> (word_fn e = Null \<longrightarrow> (\<exists>x b. D x = Some (M_word b) \<and> x \<noteq> nm \<and> w = wd x))) \<and>
     distinct ds \<and> (\<forall>w\<in>set ds. w < new)"

lemma vacated_fresh:
  assumes "vocabulary D wd s" "nm \<notin> dom D" "nm \<notin> control_toks"
  shows "vacated D wd nm (next_entry s) (entries s) (dictionary s)"
proof -
  have m: "wd x \<in> set (dictionary s) \<and> (\<exists>e. entries s (wd x) = Some e \<and> meaning_ok (wd(nm := next_entry s)) x m e)" if x: "D x = Some m" for x m
  proof
    show "wd x \<in> set (dictionary s)" using vocabulary_entry(1) [OF assms(1), of x] x by auto
    obtain e where e: "entries s (wd x) = Some e" "meaning_ok wd x m e" using vocabulary_meaning [OF assms(1) x] by blast
    have "meaning_ok (wd(nm := next_entry s)) x m e"
    proof (cases m)
      case (M_word b)
      have n: "(wd(nm := next_entry s)) z = wd z" if "y \<in> set b" "z \<in> src_names y" for y z
        using vocabularyD(6) [OF assms(1), of x b y] x M_word that assms(2) by auto
      have "code wd x y = code (wd(nm := next_entry s)) x y" if y: "y \<in> set b" for y
      proof -
        have "map (redir 0 0) (code wd x y) = code (wd(nm := next_entry s)) x y" by (rule code_redir) (use n [OF y] in simp)
        then show ?thesis unfolding redir_same .
      qed
      then have "codes wd x b = codes (wd(nm := next_entry s)) x b" unfolding codes_def by (rule concat_map_cong)
      then show ?thesis using e(2) M_word by (metis meaning_ok.simps(2))
    qed (use e in simp)
    then show "\<exists>e. entries s (wd x) = Some e \<and> meaning_ok (wd(nm := next_entry s)) x m e" using e(1) by blast
  qed
  have w: "\<exists>e. entries s w = Some e \<and> (word_fn e = Null \<longrightarrow> (\<exists>x b. D x = Some (M_word b) \<and> x \<noteq> nm \<and> w = wd x))" if h: "w \<in> set (dictionary s)" for w
  proof -
    obtain e where "entries s w = Some e" "word_fn e = Null \<longrightarrow> (\<exists>x b. D x = Some (M_word b) \<and> w = wd x)"
      using vocabularyD(3) [OF assms(1) h] by blast
    then show ?thesis using assms(2) by (intro exI [of _ e]) (simp, metis domI)
  qed
  have "distinct (dictionary s)" "\<forall>w\<in>set (dictionary s). w < next_entry s" "\<forall>y. find_word (entries s) y (dictionary s) = Some (if y \<in> dom D then Some (wd y) else None)"
    using vocabularyD(2,4,5) [OF assms(1)] unfolding get_word_by_name_def by simp_all
  then show ?thesis unfolding vacated_def using m w by (intro conjI) simp_all
qed

lemma redirected_sel [simp]: "name (redirected old new e) = name e" "word_fn (redirected old new e) = word_fn e"
  by (simp_all add: redirected_def)

lemma redirected_meaning:
  assumes "vocabulary D wd s" "nm \<in> dom D" "D x = Some m" "x \<noteq> nm" "entries s (wd x) = Some e"
  shows "meaning_ok (wd(nm := new)) x m (redirected (wd nm) new e)"
proof (cases m)
  case (M_prim p)
  then show ?thesis using assms(1,3,5) unfolding vocabulary_def dict_ok_def by (metis meaning_ok.simps(1) option.inject redirected_sel(2))
next
  case (M_word b)
  then have d: "D x = Some (M_word b)" using assms(3) by simp
  show ?thesis
  proof (rule vocabulary_word [OF assms(1) d])
    fix e' assume h: "entries s (wd x) = Some e'" "word_fn e' = Null" "word_list e' = codes wd x b @ [End]" "length (word_list e') < 2 ^ 31" "name e' = x"
      "\<forall>y\<in>set b. src_names y \<subseteq> dom D" "\<forall>it\<in>set (codes wd x b). passable it"
    have e: "e' = e" using h(1) assms(5) by simp
    have "map (redir (wd nm) new) (code wd x y) = code (wd(nm := new)) x y" if "y \<in> set b" for y
    proof (rule code_redir)
      fix z assume "z \<in> src_names y"
      then have "z \<in> dom D" using h(6) that by blast
      then show "(if wd z = wd nm then new else wd z) = (wd(nm := new)) z" using vocabulary_inj [OF assms(1) _ assms(2)] by auto
    qed
    then have "map (redir (wd nm) new) (codes wd x b) = codes (wd(nm := new)) x b" unfolding codes_def by (rule map_redir_concat)
    moreover from this have "length (codes (wd(nm := new)) x b) = length (codes wd x b)" by (metis length_map)
    ultimately show ?thesis using M_word h(2-4) unfolding e by (simp add: redirected_def)
  qed
qed

lemma vacated_replace:
  assumes "vocabulary D wd s" "nm \<in> dom D"
  shows "\<exists>s'. replace_word (wd nm) (next_entry s) s = Some s' \<and> vacated D wd nm (next_entry s) (entries s') (dictionary s') \<and>
    s' = s\<lparr>entries := entries s', dictionary := dictionary s'\<rparr>"
proof -
  let ?old = "wd nm" let ?new = "next_entry s" let ?ds = "dictionary s"
  have ds: "distinct ?ds" "\<forall>w\<in>set ?ds. w < ?new" "\<forall>y. find_word (entries s) y ?ds = Some (if y \<in> dom D then Some (wd y) else None)"
    using assms(1) unfolding vocabulary_def get_word_by_name_def by blast+
  obtain es where es: "redirect_all ?old ?new ?ds (entries s) = Some es"
    "\<And>w. es w = (if w \<in> set ?ds then map_option (redirected ?old ?new) (entries s w) else entries s w)"
    using redirect_all_ok [OF ds(1), of "entries s" ?old ?new] vocabulary_redirectable [OF assms(1)] by blast
  obtain e where e: "entries s ?old = Some e" "name e = nm" "?old \<in> set ?ds" using vocabulary_entry [OF assms] by blast
  then have old: "es ?old = Some (redirected ?old ?new e)" using es(2) by simp
  let ?es' = "if word_fn e = Null then es(?old := None) else es" let ?ds' = "if word_fn e = Null then remove1 ?old ?ds else ?ds"
  have r: "replace_word ?old ?new s = Some (s\<lparr>entries := ?es', dictionary := ?ds'\<rparr>)" using es(1) old by (simp add: replace_word_def)
  have sub: "set ?ds' \<subseteq> set ?ds" "word_fn e = Null \<Longrightarrow> ?old \<notin> set ?ds'" using ds(1) by (auto simp: set_remove1_eq)
  have in_ds: "es w = map_option (redirected ?old ?new) (entries s w)" if "w \<in> set ?ds" for w using es(2) that by simp
  have m: "wd x \<in> set ?ds' \<and> (\<exists>e. ?es' (wd x) = Some e \<and> meaning_ok (wd(nm := ?new)) x m e)" if x: "D x = Some m" "x \<noteq> nm" for x m
  proof -
    have xd: "x \<in> dom D" using x(1) by auto
    then have ne: "wd x \<noteq> ?old" using vocabulary_inj [OF assms(1) xd assms(2)] x(2) by blast
    obtain f where f: "wd x \<in> set ?ds" "entries s (wd x) = Some f" using vocabulary_entry [OF assms(1) xd] by blast
    have "?es' (wd x) = Some (redirected ?old ?new f)" "wd x \<in> set ?ds'" using in_ds [OF f(1)] f ne ds(1) by (auto simp: set_remove1_eq)
    then show ?thesis using redirected_meaning [OF assms x f(2), of ?new] by blast
  qed
  have l: "find_word ?es' y ?ds' = Some (if y \<in> dom D then Some (wd y) else None)" if y: "y \<noteq> nm" for y
  proof -
    have "find_word ?es' y ?ds' = find_word es y ?ds'" by (rule find_word_cong) (use sub(2) in auto)
    also have "\<dots> = find_word es y ?ds" using find_word_remove1 [of es ?old "redirected ?old ?new e" y ?ds] old e(2) y by auto
    also have "\<dots> = find_word (entries s) y ?ds" by (rule find_word_cong) (simp add: in_ds option.map_comp comp_def)
    finally show ?thesis using ds(3) by simp
  qed
  have w: "\<exists>e. ?es' w = Some e \<and> (word_fn e = Null \<longrightarrow> (\<exists>x b. D x = Some (M_word b) \<and> x \<noteq> nm \<and> w = wd x))" if w: "w \<in> set ?ds'" for w
  proof -
    have wd: "w \<in> set ?ds" using w sub(1) by blast
    obtain f where f: "entries s w = Some f" "word_fn f = Null \<longrightarrow> (\<exists>x b. D x = Some (M_word b) \<and> w = wd x)"
      using assms(1) wd unfolding vocabulary_def by blast
    have "?es' w = Some (redirected ?old ?new f)" using in_ds [OF wd] f(1) w sub(2) by auto
    moreover have "w \<noteq> wd nm" if "word_fn f = Null" using that f(1) e(1) w sub(2) by auto
    ultimately show ?thesis using f(2) by auto
  qed
  have "vacated D wd nm ?new ?es' ?ds'" unfolding vacated_def using m l w ds(1,2) sub(1) by (auto simp: distinct_remove1)
  then show ?thesis using r by auto
qed

lemma store_word_vocabulary:
  assumes "vocabulary D wd s" "nm \<notin> control_toks \<union> special_toks" "zero_fn env (next_entry s)" "take len (new_word_list s) = codes wd nm xs @ [End]"
    "length (codes wd nm xs) + 1 < 2 ^ 31" "\<forall>y\<in>set xs. src_names y \<subseteq> insert nm (dom D) \<and> src_texts_ok y"
  shows "\<exists>s'. store_word env nm len s = Some s' \<and> vocabulary (D(nm \<mapsto> M_word xs)) (wd(nm := next_entry s)) s' \<and>
    s' = s\<lparr>entries := entries s', dictionary := dictionary s', next_entry := next_entry s'\<rparr>"
proof -
  let ?new = "next_entry s" let ?wd = "wd(nm := ?new)" let ?D = "D(nm \<mapsto> M_word xs)"
  let ?e = "\<lparr>name = nm, word_fn = Null, word_list = codes wd nm xs @ [End]\<rparr>"
  have lookup: "get_word_by_name s nm = Some (if nm \<in> dom D then Some (wd nm) else None)" using assms(1) unfolding vocabulary_def by blast
  obtain s1 where s1: "(case if nm \<in> dom D then Some (wd nm) else None of None \<Rightarrow> Some s | Some old \<Rightarrow> replace_word old ?new s) = Some s1"
    "vacated D wd nm ?new (entries s1) (dictionary s1)" "s1 = s\<lparr>entries := entries s1, dictionary := dictionary s1\<rparr>"
  proof (cases "nm \<in> dom D")
    case True
    then show ?thesis using vacated_replace [OF assms(1)] that by auto
  next
    case False
    then show ?thesis using vacated_fresh [OF assms(1) False] assms(2) that [of s] by auto
  qed
  have l1: "new_word_list s1 = new_word_list s" using s1(3) by (metis kctx.select_convs(9) kctx.surjective kctx.update_convs(5,6))
  define s' where "s' = s1\<lparr>entries := (entries s1)(?new \<mapsto> ?e), dictionary := ?new # dictionary s1, next_entry := ?new + 1\<rparr>"
  have st: "store_word env nm len s = Some s'" using lookup s1(1) assms(3,4) l1 by (simp add: store_word_def s'_def Let_def split: if_splits)
  have v: "\<And>x m. D x = Some m \<Longrightarrow> x \<noteq> nm \<Longrightarrow> wd x \<in> set (dictionary s1) \<and> (\<exists>e. entries s1 (wd x) = Some e \<and> meaning_ok ?wd x m e)"
    "\<And>y. y \<noteq> nm \<Longrightarrow> find_word (entries s1) y (dictionary s1) = Some (if y \<in> dom D then Some (wd y) else None)"
    "\<And>w. w \<in> set (dictionary s1) \<Longrightarrow> \<exists>e. entries s1 w = Some e \<and> (word_fn e = Null \<longrightarrow> (\<exists>x b. D x = Some (M_word b) \<and> x \<noteq> nm \<and> w = wd x))"
    "distinct (dictionary s1)" "\<forall>w\<in>set (dictionary s1). w < ?new" using s1(2) unfolding vacated_def by blast+
  have fresh: "?new \<notin> set (dictionary s1)" using v(5) by auto
  have ctl: "control_ok ?D" using assms(1,2) unfolding vocabulary_def dict_ok_def control_ok_def
    by (auto simp: control_words_def control_toks_def)
  have "codes ?wd nm xs = codes wd nm xs" unfolding codes_def by (rule concat_map_cong, rule code_cong) (use assms(2) in auto)
  then have me: "\<exists>e. entries s' (?wd x) = Some e \<and> meaning_ok ?wd x m e" if "?D x = Some m" for x m
    using that v(1) [of x m] fresh assms(5) by (cases "x = nm") (auto simp: s'_def)
  have fw: "find_word (entries s') y (dictionary s1) = find_word (entries s1) y (dictionary s1)" for y
    by (rule find_word_cong) (use fresh in \<open>auto simp: s'_def\<close>)
  have lk: "get_word_by_name s' y = Some (if y \<in> dom ?D then Some (?wd y) else None)" for y
    using v(2) [of y] fw [of y] by (cases "y = nm") (simp_all add: get_word_by_name_def s'_def)
  have ws: "\<exists>e. entries s' w = Some e \<and> (word_fn e = Null \<longrightarrow> (\<exists>x b. ?D x = Some (M_word b) \<and> w = ?wd x))" if "w \<in> set (dictionary s')" for w
  proof (cases "w = ?new")
    case True
    then show ?thesis by (intro exI [of _ ?e]) (auto simp: s'_def)
  next
    case False
    then have "w \<in> set (dictionary s1)" using that by (simp add: s'_def)
    from v(3) [OF this] obtain e where "entries s1 w = Some e" "word_fn e = Null \<longrightarrow> (\<exists>x b. D x = Some (M_word b) \<and> x \<noteq> nm \<and> w = wd x)" by blast
    then show ?thesis using False by (intro exI [of _ e]) (auto simp: s'_def)
  qed
  have bodies: "\<forall>x b. ?D x = Some (M_word b) \<longrightarrow> (\<forall>y\<in>set b. src_names y \<subseteq> dom ?D \<and> src_texts_ok y)"
    using assms(1,6) unfolding vocabulary_def by (auto split: if_splits) blast+
  have "vocabulary ?D ?wd s'" unfolding vocabulary_def dict_ok_def
    using ctl me lk ws bodies v(4,5) fresh by (auto simp: s'_def)
  moreover have "s' = s\<lparr>entries := entries s', dictionary := dictionary s', next_entry := next_entry s'\<rparr>"
  proof -
    obtain es1 ds1 where "s1 = s\<lparr>entries := es1, dictionary := ds1\<rparr>" using s1(3) by blast
    then show ?thesis by (simp add: s'_def)
  qed
  ultimately show ?thesis using st by blast
qed

end
