(* ===== verification/Kforth_Props.thy ===== *)
theory Kforth_Props
  imports Kforth_Dict
begin

text \<open>
  What a line does: a program that is typed runs as the abstract machine says, and a definition gives its name the new meaning.
\<close>

section \<open>Compiling a line\<close>

definition line_ok :: "(u8 list \<Rightarrow> nat) \<Rightarrow> u8 list \<Rightarrow> kctx \<Rightarrow> amachine \<Rightarrow> src list \<Rightarrow> bool" where
  "line_ok wd nm s a xs \<longleftrightarrow> (\<forall>x\<in>set xs. src_ok wd nm s x) \<and> (\<forall>t\<in>set (srcs_toks xs). tok_ok t) \<and>
     length (new_word_list s) = MAX_COMPILE_WORDS \<and> length (codes wd nm xs) < MAX_COMPILE_WORDS \<and> length (cells a) + length (codes wd nm xs) \<le> STACK_SIZE"

lemma semicolon: "nm \<notin> special_toks \<Longrightarrow> compile_tokens nm [tok '';''] c = Some c" "tok_ok (tok '';'')"
proof -
  assume "nm \<notin> special_toks"
  then show "compile_tokens nm [tok '';''] c = Some c"
    using compile_control_plain [of "tok '';''" c] control_special [of "tok '';''"] by (auto simp: compile_tokens.simps special_toks_def bytes_of_def)
qed (simp add: tok_ok_def bytes_of_def)

lemma vocabulary_controls: "vocabulary D wd s \<Longrightarrow> nm \<notin> control_toks \<union> special_toks \<Longrightarrow> controls_known wd nm s"
proof -
  assume v: "vocabulary D wd s" "nm \<notin> control_toks \<union> special_toks"
  have "tok x \<in> dom D" if "(x, p) \<in> set control_words" for x p
    using vocabularyD(1) [OF v(1)] that by (auto simp: dict_ok_def control_ok_def)
  then show ?thesis using v(2) vocabularyD(2) [OF v(1)] by (auto simp: controls_known_def)
qed

lemma compile_line:
  assumes "vocabulary D wd s" "nm \<notin> control_toks \<union> special_toks" "represents F s a" "line_ok wd nm s a xs" "e = [] \<or> e = [tok '';'']"
    "drop p b = line_text (srcs_toks xs @ e) @ 0 # r"
  shows "\<exists>s'. kforth_compile_word nm b p s = Some (s', length (codes wd nm xs) + 1) \<and> compiled F a s s' (write_at 0 (codes wd nm xs @ [End]) (new_word_list s))"
proof -
  let ?L = "new_word_list s" let ?n = "length (codes wd nm xs)"
  have l: "length ?L = MAX_COMPILE_WORDS" "?n < MAX_COMPILE_WORDS" "length (cells a) + ?n \<le> STACK_SIZE" "\<forall>x\<in>set xs. src_ok wd nm s x"
    "\<forall>t\<in>set (srcs_toks xs @ e). tok_ok t" using assms(4,5) semicolon(2) by (auto simp: line_ok_def)
  obtain b' where g: "get_tokens b p = Some (srcs_toks xs @ e, False, b')" using get_tokens_line [OF l(5) assms(6)] by blast
  have "comp_src wd nm s (srcs_toks xs) (codes wd nm xs)" unfolding srcs_toks_def codes_def
    by (rule comp_concat) (use compile_src vocabulary_controls [OF assms(1,2)] l(4) in blast)
  then obtain s1 where s1: "compile_tokens nm (srcs_toks xs @ e) (s, 0) = compile_tokens nm e (s1, ?n)" "compiled F a s s1 (write_at 0 (codes wd nm xs) ?L)"
    using comp_srcD [OF _ compiled_refl [OF assms(3)] l(1), of wd nm "srcs_toks xs" "codes wd nm xs" 0 e] l(2,3) by auto
  have "compile_tokens nm e (s1, ?n) = Some (s1, ?n)" using assms(2,5) semicolon(1) by auto
  moreover obtain s2 where "emit End (s1, ?n) = Some (s2, ?n + 1)" "compiled F a s s2 (write_at ?n [End] (write_at 0 (codes wd nm xs) ?L))"
    using emit_compiled [OF s1(2), of ?n End] l(1,2) by auto
  ultimately show ?thesis using g s1(1) write_at_append [of 0 "codes wd nm xs" "[End]" ?L] l(1,2) by (auto simp: kforth_compile_word_def)
qed

lemma compiled_vocabulary: "compiled F a s s' L \<Longrightarrow> vocabulary D wd s \<Longrightarrow> vocabulary D wd s'"
  unfolding compiled_def using vocabulary_same vocabulary_list by blast

lemma compiled_next: "compiled F a s s' L \<Longrightarrow> next_entry s' = next_entry s"
  by (simp add: compiled_def same_dict_def)

section \<open>Running a line\<close>

definition command_line :: "u8 list \<Rightarrow> bool" where
  "command_line b \<longleftrightarrow> (\<exists>k\<in>{'': '', ''see '', ''reset''}. starts_with b (tok k) \<noteq> Some False)"

lemma statement_runs:
  assumes "vocabulary D wd s" "represents F s a" "line_ok wd [] s a xs" "b = line_text (srcs_toks xs) @ 0 # r" "\<not> command_line b"
    "run_srcs n D [] xs xs a = Some a'"
  shows "\<exists>s' F' N. (\<forall>m\<ge>N. kforth_execute_statement env m b s = Ret (ended a', s')) \<and> represents F' s' a' \<and> vocabulary D wd s' \<and>
    length (new_word_list s') = MAX_COMPILE_WORDS \<and> (\<not> ended a' \<longrightarrow> F' = F)"
proof -
  have nm: "[] \<notin> control_toks \<union> special_toks" by (simp add: control_toks_def special_toks_def bytes_of_def)
  obtain s1 where s1: "kforth_compile_word [] b 0 s = Some (s1, length (codes wd [] xs) + 1)"
    "compiled F a s s1 (write_at 0 (codes wd [] xs @ [End]) (new_word_list s))" using compile_line [OF assms(1) nm assms(2,3), of "[]" 0 b r] assms(4) by auto
  have v: "vocabulary D wd s1" using compiled_vocabulary [OF s1(2) assms(1)] .
  have l: "length (new_word_list s) = MAX_COMPILE_WORDS" "length (codes wd [] xs) < MAX_COMPILE_WORDS" using assms(3) by (simp_all add: line_ok_def)
  then have c: "code_at Temp s1 0 (codes wd [] xs @ [End])" using compiled_list [OF s1(2)]
    by (simp add: code_at_def entry_items_def write_at_def MAX_COMPILE_WORDS_def)
  have h: "hosts wd Temp [] xs s1" using c by (simp add: hosts_def entry_fn_def)
  have "represents F s1 a" using s1(2) by (simp add: compiled_def)
  then have "goes env Temp 0 s1 F (length (codes wd [] xs)) a'"
    using simulation(1) [OF assms(6), of env wd] vocabularyD(1) [OF v] h c unfolding sim_srcs_def by (metis add_0 code_at_append)
  from goes_returns [OF h this] obtain F' s' where g: "word_returns env Temp s1 0 s'" "represents F' s' a'" "same_dict s1 s'" "\<not> ended a' \<longrightarrow> F' = F" by blast
  obtain N where N: "\<forall>m\<ge>N. execute_word env m Temp s1 = Ret (0, s')" using g(1) by (auto simp: word_returns_def)
  have "starts_with b (tok '': '') = Some False" "starts_with b (tok ''see '') = Some False" "starts_with b (tok ''reset'') = Some False" using assms(5) by (auto simp: command_line_def)
  then have "\<forall>m\<ge>N. kforth_execute_statement env m b s = Ret (ended a', s')" using N s1(1) repr_exit [OF g(2)] by (simp add: kforth_execute_statement_def)
  moreover have "new_word_list s' = write_at 0 (codes wd [] xs @ [End]) (new_word_list s)" using compiled_list [OF s1(2)] g(3) by (simp add: same_dict_def)
  then have "length (new_word_list s') = MAX_COMPILE_WORDS" using l by simp
  ultimately show ?thesis using g vocabulary_same [OF g(3) v] by blast
qed

section \<open>Defining a word\<close>

definition definition_line :: "u8 list \<Rightarrow> src list \<Rightarrow> u8 list" where
  "definition_line nm xs = line_text (tok '':'' # nm # srcs_toks xs @ [tok '';''])"

lemma line_of_Cons: "ts \<noteq> [] \<Longrightarrow> line_text (t # ts) = tok_text t @ 0x20 # line_text ts"
  by (cases ts) simp_all

lemma definition_compiles:
  assumes "vocabulary D wd s" "represents F s a" "nm \<notin> control_toks \<union> special_toks" "tok_ok nm" "hd nm \<noteq> 0x22" "line_ok wd nm s a xs" "b = definition_line nm xs @ 0 # r"
    "zero_fn env (next_entry s)" "\<forall>y\<in>set xs. src_names y \<subseteq> insert nm (dom D) \<and> src_texts_ok y"
  shows "\<exists>s'. kforth_execute_statement env n b s = Ret (False, s') \<and> represents F s' (aprint (tok ''compiled '' @ nm @ cr_lf) a) \<and>
    vocabulary (D(nm \<mapsto> M_word xs)) (wd(nm := next_entry s)) s' \<and> length (new_word_list s') = MAX_COMPILE_WORDS"
proof -
  let ?body = "line_text (srcs_toks xs @ [tok '';''])"
  have colon: "tok '':'' = [0x3A]" "tok_text [0x3A] = [0x3A]" "tok_ok [0x3A]" by (simp_all add: bytes_of_def tok_text_def is_str_def tok_ok_def)
  have nmt: "tok_text nm = nm" using assms(5) by (simp add: tok_text_def is_str_def)
  have b: "b = [0x3A] @ 0x20 # nm @ 0x20 # ?body @ 0 # r" using assms(7) colon nmt by (simp add: definition_line_def line_of_Cons)
  obtain b1 q where g1: "get_token b 0 = Some (Some 0, False, b1, q)" "drop q b1 = nm @ 0x20 # ?body @ 0 # r"
    using get_token_at [where p = 0 and c = "0x20", OF colon(3)] b colon(2) by fastforce
  obtain b2 q2 where g2: "get_token b1 q = Some (Some q, False, b2, q2)" "c_str (drop q b2) = Some nm" "drop q2 b2 = ?body @ 0 # r"
    using get_token_at [where p = q and c = "0x20", OF assms(4)] g1(2) nmt by fastforce
  have q2: "q2 = q + length nm + 1"
  proof -
    have "length (drop q b1) = length nm + 1 + length (?body @ 0 # r)" using g1(2) by simp
    moreover have "length (drop q2 b2) = length (?body @ 0 # r)" using g2(3) by simp
    moreover have "length b2 = length b1" using get_token_step(3) [OF g2(1)] .
    ultimately show ?thesis by simp
  qed
  obtain s1 where s1: "kforth_compile_word nm b2 q2 s = Some (s1, length (codes wd nm xs) + 1)"
    "compiled F a s s1 (write_at 0 (codes wd nm xs @ [End]) (new_word_list s))" using compile_line [OF assms(1,3,2,6) _ g2(3)] by auto
  have l: "length (new_word_list s) = MAX_COMPILE_WORDS" "length (codes wd nm xs) < MAX_COMPILE_WORDS" using assms(6) by (simp_all add: line_ok_def)
  have v: "vocabulary D wd s1" using compiled_vocabulary [OF s1(2) assms(1)] .
  have t: "take (length (codes wd nm xs) + 1) (new_word_list s1) = codes wd nm xs @ [End]" using compiled_list [OF s1(2)] by (simp add: write_at_def)
  obtain s2 where s2: "store_word env nm (length (codes wd nm xs) + 1) s1 = Some s2" "vocabulary (D(nm \<mapsto> M_word xs)) (wd(nm := next_entry s)) s2"
    "s2 = s1\<lparr>entries := entries s2, dictionary := dictionary s2, next_entry := next_entry s2\<rparr>"
    using store_word_vocabulary [OF v assms(3) _ t _ assms(9), of env] assms(8) l(2) compiled_next [OF s1(2)] by (auto simp: MAX_COMPILE_WORDS_def)
  let ?s = "puts (tok ''compiled '' @ nm @ cr_lf) s2"
  have "define_statement env b s = Some ?s" using g1 g2 s1(1) s2(1) q2 by (simp add: define_statement_def)
  moreover have "starts_with b (tok '': '') = Some True" using b by (simp add: bytes_of_def)
  ultimately have k: "kforth_execute_statement env n b s = Ret (False, ?s)" by (simp add: kforth_execute_statement_def)
  have "represents F s1 a" using s1(2) by (simp add: compiled_def)
  then have "represents F s2 a"
  proof (rule repr_cases)
    fix u r q
    assume h: "s1 = stacks u (cells a) r (loop_cells F) q" "length (cells a) + length r = STACK_SIZE" "length (loop_cells F) + length q = LOOP_STACK_SIZE"
      "map snd F = frames a" "output_text u = shown a" "exit_flag u = ended a"
    obtain es ds ne where "s2 = s1\<lparr>entries := es, dictionary := ds, next_entry := ne\<rparr>" using s2(3) by blast
    then have "s2 = stacks (u\<lparr>entries := es, dictionary := ds, next_entry := ne\<rparr>) (cells a) r (loop_cells F) q" using h(1) by (simp add: stacks_def)
    then show "represents F s2 a" using h by (simp add: repr_stacks)
  qed
  then have "represents F ?s (aprint (tok ''compiled '' @ nm @ cr_lf) a)" by (rule repr_puts)
  moreover have "vocabulary (D(nm \<mapsto> M_word xs)) (wd(nm := next_entry s)) ?s" by (rule vocabulary_same [OF _ s2(2)]) simp
  moreover have "length (new_word_list ?s) = MAX_COMPILE_WORDS"
  proof -
    have "new_word_list s2 = new_word_list s1" using s2(3) by (metis kctx.select_convs(9) kctx.surjective kctx.update_convs(5,6,8))
    then show ?thesis using compiled_list [OF s1(2)] l by (simp add: puts_def)
  qed
  ultimately show ?thesis using k by blast
qed

section \<open>The first vocabulary\<close>

definition prim_names :: names where
  "prim_names = map_of (map (\<lambda>(x, p). (tok x, M_prim p)) primitives)"

definition prim_wd :: "u8 list \<Rightarrow> nat" where
  "prim_wd x = the (map_of (zip (map (tok \<circ> fst) primitives) [0..<length primitives]) x)"

text \<open>The context after \<open>kforth_init_context\<close>, with empty stacks and the primitives in the dictionary.\<close>

definition start_context :: kctx where
  "start_context = kforth_init_context \<lparr>stack = replicate STACK_SIZE 0, stack_ptr = 0, loop_stack = replicate LOOP_STACK_SIZE 0, loop_stack_ptr = 0,
     entries = prim_entries, dictionary = [], saved_dictionary = [], next_entry = length primitives, new_word_list = replicate MAX_COMPILE_WORDS Unset,
     exit_flag = False, output_text = []\<rparr>"

definition start_machine :: amachine where
  "start_machine = \<lparr>cells = [], frames = [], shown = [], ended = False\<rparr>"

lemma start_repr: "represents [] start_context start_machine"
proof -
  have "start_context = stacks start_context [] (replicate STACK_SIZE 0) [] (replicate LOOP_STACK_SIZE 0)"
    by (simp add: stacks_def start_context_def kforth_init_context_def)
  moreover have "output_text start_context = []" "\<not> exit_flag start_context" by (simp_all add: start_context_def kforth_init_context_def)
  ultimately show ?thesis unfolding represents_def start_machine_def
    by (intro conjI exI [of _ "replicate STACK_SIZE 0"] exI [of _ "replicate LOOP_STACK_SIZE 0"]) simp_all
qed

lemma bytes_of_inj: "bytes_of x = bytes_of y \<longleftrightarrow> x = y"
proof -
  have "inj (\<lambda>c :: char. of_nat (of_char c) :: u8)"
  proof (rule injI)
    fix c d :: char assume "(of_nat (of_char c) :: u8) = of_nat (of_char d)"
    then have "unat (of_nat (of_char c) :: u8) = unat (of_nat (of_char d) :: u8)" by (rule arg_cong)
    then have "(of_char c :: nat) = of_char d" by (simp only: unat_of_nat) simp
    then show "c = d" by simp
  qed
  then show ?thesis by (simp add: bytes_of_def inj_map_eq_map)
qed

lemma bytes_of_Nil: "bytes_of x = [] \<longleftrightarrow> x = []"
  by (simp add: bytes_of_def)

lemma distinct_primitives: "distinct (map (tok \<circ> fst) primitives)"
proof -
  have "distinct (map fst primitives)" by (simp add: primitives_def)
  then have "distinct (map tok (map fst primitives))" by (simp only: distinct_map) (simp add: inj_on_def bytes_of_inj)
  then show ?thesis by simp
qed

lemma prim_names_iff: "prim_names x = Some m \<longleftrightarrow> (\<exists>i < length primitives. x = tok (fst (primitives ! i)) \<and> m = M_prim (snd (primitives ! i)))"
proof -
  let ?xs = "map (\<lambda>(x, p). (tok x, M_prim p)) primitives"
  have "map fst ?xs = map (tok \<circ> fst) primitives" by (simp add: comp_def case_prod_beta)
  then have "prim_names x = Some m \<longleftrightarrow> (x, m) \<in> set ?xs" unfolding prim_names_def using distinct_primitives
    by (simp only: map_of_eq_Some_iff)
  then show ?thesis by (fastforce simp: in_set_conv_nth case_prod_beta)
qed

lemma prim_wd_nth: "i < length primitives \<Longrightarrow> prim_wd (tok (fst (primitives ! i))) = i"
  using map_of_zip_nth [of "map (tok \<circ> fst) primitives" "[0..<length primitives]" i] distinct_primitives by (simp add: prim_wd_def)

lemma start_vocabulary: "vocabulary prim_names prim_wd start_context"
proof -
  have sel: "entries start_context = prim_entries" "dictionary start_context = [0..<length primitives]" "next_entry start_context = length primitives"
    by (simp_all add: start_context_def kforth_init_context_def)
  have ok: "\<exists>e. entries start_context (prim_wd x) = Some e \<and> meaning_ok prim_wd x m e" if "prim_names x = Some m" for x m
    using that unfolding prim_names_iff by (auto simp: prim_wd_nth sel prim_entries_def)
  have w: "\<exists>e. prim_entries w = Some e \<and> word_fn e \<noteq> Null" if "w < length primitives" for w using that by (simp add: prim_entries_def)
  have l: "get_word_by_name start_context x = Some (if x \<in> dom prim_names then Some (prim_wd x) else None)" for x
  proof -
    have f: "get_word_by_name start_context x = Some (map_of (map (\<lambda>w. (name (the (prim_entries w)), w)) [0..<length primitives]) x)"
      using find_word_map_of [of "[0..<length primitives]" prim_entries x] w by (fastforce simp: get_word_by_name_def sel)
    have ns: "map (\<lambda>w. (name (the (prim_entries w)), w)) [0..<length primitives] = zip (map (tok \<circ> fst) primitives) [0..<length primitives]"
      by (rule nth_equalityI) (simp_all add: prim_entries_def)
    show ?thesis
    proof (cases "x \<in> dom prim_names")
      case True
      then obtain i where i: "i < length primitives" "x = tok (fst (primitives ! i))" using prim_names_iff by blast
      then have "map_of (zip (map (tok \<circ> fst) primitives) [0..<length primitives]) x = Some i"
        using map_of_zip_nth [of "map (tok \<circ> fst) primitives" "[0..<length primitives]" i] distinct_primitives by simp
      then show ?thesis using f ns True i prim_wd_nth by simp
    next
      case False
      have "x \<notin> set (map (tok \<circ> fst) primitives)"
      proof
        assume "x \<in> set (map (tok \<circ> fst) primitives)"
        then obtain i where "i < length primitives" "x = tok (fst (primitives ! i))" by (auto simp: in_set_conv_nth simp del: set_map)
        then have "prim_names x = Some (M_prim (snd (primitives ! i)))" using prim_names_iff by blast
        then show False using False by blast
      qed
      then have "map_of (zip (map (tok \<circ> fst) primitives) [0..<length primitives]) x = None" by (simp add: map_of_zip_is_None)
      then show ?thesis using f ns False by simp
    qed
  qed
  have "control_ok prim_names"
  proof -
    have "set control_words \<subseteq> set primitives" by (simp add: control_words_def primitives_def)
    have "prim_names (tok x) = Some (M_prim p)" if "(x, p) \<in> set control_words" for x p
    proof -
      have "(x, p) \<in> set primitives" using that \<open>set control_words \<subseteq> set primitives\<close> by blast
      then obtain i where "i < length primitives" "primitives ! i = (x, p)" by (auto simp: in_set_conv_nth)
      then show ?thesis unfolding prim_names_iff by (intro exI [of _ i]) simp
    qed
    then show ?thesis by (auto simp: control_ok_def)
  qed
  moreover have "prim_names x \<noteq> Some (M_word b)" for x b by (simp add: prim_names_iff)
  moreover have "\<exists>e. entries start_context w = Some e \<and> (word_fn e = Null \<longrightarrow> (\<exists>x b. prim_names x = Some (M_word b) \<and> w = prim_wd x))"
    if "w \<in> set (dictionary start_context)" for w using w [of w] that by (auto simp: sel)
  ultimately show ?thesis unfolding vocabulary_def dict_ok_def using ok l by (simp add: sel)
qed

section \<open>Numbers and strings are no names\<close>

lemma prim_name: "(x, p) \<in> set primitives \<Longrightarrow> prim_names (tok x) = Some (M_prim p)"
proof -
  assume "(x, p) \<in> set primitives"
  then obtain i where "i < length primitives" "primitives ! i = (x, p)" by (auto simp: in_set_conv_nth)
  then show ?thesis unfolding prim_names_iff by (intro exI [of _ i]) simp
qed

lemma prim_wd_known: "(x, p) \<in> set primitives \<Longrightarrow> get_word_by_name start_context (tok x) = Some (Some (prim_wd (tok x)))"
  using vocabularyD(2) [OF start_vocabulary] prim_name by auto

lemma prim_tokens:
  assumes "x \<in> dom prim_names"
  shows "\<not> is_str x" "is_int x \<Longrightarrow> x = [0x2D]"
proof -
  obtain y p where y: "(y, p) \<in> set primitives" "x = tok y" using assms by (auto simp: prim_names_iff) (metis nth_mem prod.collapse)
  have "list_all (\<lambda>(y, p). \<not> is_str (tok y) \<and> (is_int (tok y) \<longrightarrow> tok y = [0x2D])) primitives"
    by (simp add: primitives_def bytes_of_def is_str_def is_int_def isdigit_def)
  then show "\<not> is_str x" "is_int x \<Longrightarrow> x = [0x2D]" using y by (auto simp: list_all_iff)
qed

lemma dec_int_no_dash: "dec_int v \<noteq> [0x2D]"
proof
  assume h: "dec_int v = [0x2D]"
  then have "\<not> v < 0" using dec_nat_digits(1) [of "nat (- v)"] by (auto simp: dec_int_def)
  then show False using h dec_nat_digits(2) [of "nat v"] by (simp add: dec_int_def isdigit_def)
qed

lemma start_unknown:
  "unknown nm start_context (dec_int v) \<longleftrightarrow> dec_int v \<noteq> nm" "unknown nm start_context (0x22 # x) \<longleftrightarrow> 0x22 # x \<noteq> nm"
proof -
  have "dec_int v \<notin> dom prim_names" using prim_tokens(2) [of "dec_int v"] is_int_dec_int dec_int_no_dash by blast
  then show "unknown nm start_context (dec_int v) \<longleftrightarrow> dec_int v \<noteq> nm" using vocabularyD(2) [OF start_vocabulary] by (auto simp: unknown_def)
  have "0x22 # x \<notin> dom prim_names" using prim_tokens(1) [of "0x22 # x"] by (auto simp: is_str_def)
  then show "unknown nm start_context (0x22 # x) \<longleftrightarrow> 0x22 # x \<noteq> nm" using vocabularyD(2) [OF start_vocabulary] by (auto simp: unknown_def)
qed

section \<open>The properties\<close>

text \<open>C2. Typing a program: whenever the abstract machine runs a program of numbers, strings, words, branches and loops to an end, reading the
  line with that program compiles it and runs it, for all large enough fuel, to a context with exactly the machine's stacks and output; the
  vocabulary stays as it was, and the statement reports whether \<open>bye\<close> was run.  The line is one that the compiler reads as it is meant (\<open>line_ok\<close>): its words are
  in the vocabulary, its numbers fit an \<open>int\<close>, its strings contain no point and no quote and do not end in a backslash, tokens are one space apart, the code has fewer
  than 100 items and its branches fit the stack; and it does not begin as a command does (\<open>command_line\<close>).  The machine has no step for an overflow of an
  \<open>int\<close> or a stack, for a missing operand, and for the words that \<open>aprim\<close> leaves out.\<close>

theorem kforth_runs_statement:
  assumes "vocabulary D wd s" "represents F s a" "line_ok wd [] s a xs" "b = line_text (srcs_toks xs) @ 0 # r" "\<not> command_line b"
    "run_srcs n D [] xs xs a = Some a'"
  shows "\<exists>s' F' N. (\<forall>m\<ge>N. kforth_execute_statement env m b s = Ret (ended a', s')) \<and> represents F' s' a' \<and> vocabulary D wd s' \<and>
    length (new_word_list s') = MAX_COMPILE_WORDS \<and> (\<not> ended a' \<longrightarrow> F' = F)"
  using statement_runs [OF assms] .

text \<open>The line \<open>3 0 do I 1 > if "big" elif I . endif loop\<close>.\<close>

definition demo_src :: "src list" where
  "demo_src = [Num 3, Num 0, Count [Call (tok ''I''), Num 1, Call (tok ''>''), If_else [Say (tok ''big'')] [Call (tok ''I''), Call (tok ''.'')]]]"

definition demo_env :: kenv where
  "demo_env = \<lparr>entry_addr = int, cell_entry = (\<lambda>v. if 0 \<le> v then Some (nat v) else None), frame_addr = 0, zero_fn = (\<lambda>w. True), listing = []\<rparr>"

lemma start_known: "(x, p) \<in> set primitives \<Longrightarrow> tok x \<notin> control_toks \<union> special_toks \<Longrightarrow> known prim_wd nm start_context (tok x)"
  using prim_wd_known by (simp add: known_def)

lemma start_sizes: "length (new_word_list start_context) = MAX_COMPILE_WORDS"
  by (simp add: start_context_def kforth_init_context_def)

lemma demo_line_ok: "line_ok prim_wd [] start_context start_machine demo_src"
proof -
  have k: "known prim_wd [] start_context (tok ''I'')" "known prim_wd [] start_context (tok ''>'')" "known prim_wd [] start_context (tok ''.'')"
    by (rule start_known, simp add: primitives_def, simp add: control_toks_def special_toks_def bytes_of_inj)+
  have u: "unknown [] start_context (dec_int v)" "unknown [] start_context (0x22 # x)" for v x
  proof -
    have "dec_int v \<noteq> []" using dec_nat_digits(1) by (simp add: dec_int_def)
    then show "unknown [] start_context (dec_int v)" "unknown [] start_context (0x22 # x)" by (simp_all add: start_unknown)
  qed
  have "\<forall>x\<in>set demo_src. src_ok prim_wd [] start_context x" using k u by (simp add: demo_src_def bytes_of_def [of "''big''"])
  moreover have "\<forall>t\<in>set (srcs_toks demo_src). tok_ok t" by (simp add: demo_src_def srcs_toks_def tok_ok_def bytes_of_def dec_int_def dec_nat.simps)
  moreover have "length (codes prim_wd [] demo_src) = 18" by (simp add: demo_src_def str_items_def bytes_of_def)
  ultimately show ?thesis unfolding line_ok_def using start_sizes by (simp add: start_machine_def MAX_COMPILE_WORDS_def STACK_SIZE_def)
qed

lemma demo_run:
  "run_srcs 20 prim_names [] demo_src demo_src start_machine = Some (start_machine\<lparr>shown := tok ''0 1 big''\<rparr>)"
proof -
  have "prim_names (tok ''I'') = Some (M_prim For_i)" "prim_names (tok ''>'') = Some (M_prim Greater_than)" "prim_names (tok ''.'') = Some (M_prim Dot)"
    by (rule prim_name, simp add: primitives_def)+
  then show ?thesis
    by (simp add: demo_src_def start_machine_def eval_nat_numeral apush_def stack_room_def STACK_SIZE_def LOOP_STACK_SIZE_def frames_size_def abinary_def forth_flag_def
        c_int_def aprint_def dec_int_def dec_nat.simps bytes_of_def)
qed

theorem kforth_runs_statement_witness:
  "\<exists>s' F' N. (\<forall>m\<ge>N. kforth_execute_statement demo_env m (line_text (srcs_toks demo_src) @ [0]) start_context = Ret (False, s')) \<and>
     represents F' s' (start_machine\<lparr>shown := tok ''0 1 big''\<rparr>) \<and> vocabulary prim_names prim_wd s'"
proof -
  have "\<not> command_line (line_text (srcs_toks demo_src) @ [0])"
    by (simp add: command_line_def demo_src_def srcs_toks_def tok_text_def is_str_def bytes_of_def dec_int_def dec_nat.simps)
  from kforth_runs_statement [OF start_vocabulary start_repr demo_line_ok refl this demo_run, of demo_env]
  show ?thesis by (auto simp: start_machine_def)
qed

text \<open>C3. Defining a word: the line \<open>: name body ;\<close> with a program as its body compiles and stores it, and from then on the name means the
  body for every word of the vocabulary that calls it, the old ones included, and for the body itself; all other names
  keep their meaning, and the stacks are as before.  The memory for the new word must be zero where \<open>store_word\<close> leaves \<open>word_fn\<close> unset.\<close>

theorem kforth_defines_word:
  assumes "vocabulary D wd s" "represents F s a" "nm \<notin> control_toks \<union> special_toks" "tok_ok nm" "hd nm \<noteq> 0x22" "line_ok wd nm s a xs" "b = definition_line nm xs @ 0 # r"
    "zero_fn env (next_entry s)" "\<forall>y\<in>set xs. src_names y \<subseteq> insert nm (dom D) \<and> src_texts_ok y"
  shows "\<exists>s'. kforth_execute_statement env n b s = Ret (False, s') \<and> represents F s' (aprint (tok ''compiled '' @ nm @ cr_lf) a) \<and>
    vocabulary (D(nm \<mapsto> M_word xs)) (wd(nm := next_entry s)) s' \<and> length (new_word_list s') = MAX_COMPILE_WORDS"
  using definition_compiles [OF assms] .

text \<open>The line \<open>: fact dup 2 < if drop 1 elif dup 1 - fact * endif ;\<close>, and then \<open>5 fact .\<close>\<close>

definition fact_src :: "src list" where
  "fact_src = [Call (tok ''dup''), Num 2, Call (tok ''<''),
     If_else [Call (tok ''drop''), Num 1] [Call (tok ''dup''), Num 1, Call (tok ''-''), Call (tok ''fact''), Call (tok ''*'')]]"

definition call_src :: "src list" where
  "call_src = [Num 5, Call (tok ''fact''), Call (tok ''.'')]"

definition fact_names :: names where
  "fact_names = prim_names(tok ''fact'' \<mapsto> M_word fact_src)"

lemma fact_line_ok: "line_ok prim_wd (tok ''fact'') start_context start_machine fact_src"
proof -
  have k: "known prim_wd (tok ''fact'') start_context (tok ''dup'')" "known prim_wd (tok ''fact'') start_context (tok ''<'')" "known prim_wd (tok ''fact'') start_context (tok ''drop'')"
    "known prim_wd (tok ''fact'') start_context (tok ''-'')" "known prim_wd (tok ''fact'') start_context (tok ''*'')"
    by (rule start_known, simp add: primitives_def, simp add: control_toks_def special_toks_def bytes_of_inj)+
  have f: "known prim_wd (tok ''fact'') start_context (tok ''fact'')" by (simp add: known_def control_toks_def special_toks_def bytes_of_inj)
  have u: "unknown (tok ''fact'') start_context (dec_int 2)" "unknown (tok ''fact'') start_context (dec_int 1)"
  proof -
    have "dec_int 2 \<noteq> tok ''fact''" "dec_int 1 \<noteq> tok ''fact''" by (simp_all add: dec_int_def dec_nat.simps bytes_of_def)
    then show "unknown (tok ''fact'') start_context (dec_int 2)" "unknown (tok ''fact'') start_context (dec_int 1)" by (simp_all only: start_unknown not_False_eq_True)
  qed
  have "\<forall>x\<in>set fact_src. src_ok prim_wd (tok ''fact'') start_context x" using k f u by (simp add: fact_src_def)
  moreover have "\<forall>t\<in>set (srcs_toks fact_src). tok_ok t" by (simp add: fact_src_def srcs_toks_def tok_ok_def bytes_of_def dec_int_def dec_nat.simps)
  moreover have "length (codes prim_wd (tok ''fact'') fact_src) = 15" by (simp add: fact_src_def bytes_of_inj)
  ultimately show ?thesis unfolding line_ok_def using start_sizes by (simp add: start_machine_def MAX_COMPILE_WORDS_def STACK_SIZE_def)
qed

lemma fact_prims: "prim_names (tok ''dup'') = Some (M_prim Dup)" "prim_names (tok ''<'') = Some (M_prim Less_than)" "prim_names (tok ''drop'') = Some (M_prim Drop)"
  "prim_names (tok ''-'') = Some (M_prim Minus)" "prim_names (tok ''*'') = Some (M_prim Mul)" "prim_names (tok ''.'') = Some (M_prim Dot)"
  "prim_names (tok ''if'') = Some (M_prim If)" "prim_names (tok ''elif'') = Some (M_prim Elif)" "prim_names (tok ''endif'') = Some (M_prim Endif)"
  by (rule prim_name, simp add: primitives_def)+

lemma fact_run: "run_srcs 80 fact_names [] call_src call_src (start_machine\<lparr>shown := x\<rparr>) = Some (start_machine\<lparr>shown := x @ tok ''120 ''\<rparr>)"
proof -
  have "fact_names (tok ''dup'') = Some (M_prim Dup)" "fact_names (tok ''<'') = Some (M_prim Less_than)" "fact_names (tok ''drop'') = Some (M_prim Drop)"
    "fact_names (tok ''-'') = Some (M_prim Minus)" "fact_names (tok ''*'') = Some (M_prim Mul)" "fact_names (tok ''.'') = Some (M_prim Dot)"
    "fact_names (tok ''fact'') = Some (M_word fact_src)"
    using fact_prims by (simp_all add: fact_names_def bytes_of_inj)
  moreover have "dec_int 120 @ tok '' '' = tok ''120 ''" by (simp add: dec_int_def dec_nat.simps bytes_of_def)
  ultimately show ?thesis
    by (simp add: call_src_def fact_src_def start_machine_def eval_nat_numeral apush_def stack_room_def STACK_SIZE_def ashuffle_def abinary_def forth_flag_def c_int_def aprint_def bytes_of_inj bytes_of_Nil)
qed

lemma fact_names_ok: "\<forall>y\<in>set fact_src. src_names y \<subseteq> insert (tok ''fact'') (dom prim_names) \<and> src_texts_ok y"
  using fact_prims by (simp add: fact_src_def domI)

lemma call_line_ok:
  assumes "vocabulary fact_names wd s" "length (new_word_list s) = MAX_COMPILE_WORDS"
  shows "line_ok wd [] s (start_machine\<lparr>shown := x\<rparr>) call_src"
proof -
  note l = vocabularyD(2) [OF assms(1)]
  have d: "fact_names (tok ''fact'') = Some (M_word fact_src)" "fact_names (tok ''.'') = Some (M_prim Dot)" using fact_prims by (simp_all add: fact_names_def bytes_of_inj)
  have k: "known wd [] s (tok ''fact'')" "known wd [] s (tok ''.'')" using l [of "tok ''fact''"] l [of "tok ''.''"] d
    by (simp_all add: known_def control_toks_def special_toks_def bytes_of_inj domI)
  have "dec_int 5 \<notin> dom prim_names" using prim_tokens(2) [of "dec_int 5"] is_int_dec_int dec_int_no_dash by blast
  moreover have "dec_int 5 \<noteq> tok ''fact''" "dec_int 5 \<noteq> []" by (simp_all add: dec_int_def dec_nat.simps bytes_of_def)
  ultimately have u: "unknown [] s (dec_int 5)" using l [of "dec_int 5"] by (simp add: unknown_def fact_names_def)
  have "\<forall>x\<in>set call_src. src_ok wd [] s x" using k u by (simp add: call_src_def)
  moreover have "\<forall>t\<in>set (srcs_toks call_src). tok_ok t" by (simp add: call_src_def srcs_toks_def tok_ok_def bytes_of_def dec_int_def dec_nat.simps)
  moreover have "length (codes wd [] call_src) = 3" by (simp add: call_src_def)
  ultimately show ?thesis unfolding line_ok_def using assms(2) by (simp add: start_machine_def MAX_COMPILE_WORDS_def STACK_SIZE_def)
qed

theorem kforth_defines_word_witness:
  "\<exists>s s' N. kforth_execute_statement demo_env 0 (definition_line (tok ''fact'') fact_src @ [0]) start_context = Ret (False, s) \<and>
     (\<forall>m\<ge>N. kforth_execute_statement demo_env m (line_text (srcs_toks call_src) @ [0]) s = Ret (False, s')) \<and>
     output_text s' = tok ''compiled fact'' @ cr_lf @ tok ''120 ''"
proof -
  let ?nm = "tok ''fact''" let ?x = "tok ''compiled '' @ ?nm @ cr_lf"
  have nm: "?nm \<notin> control_toks \<union> special_toks" "tok_ok ?nm" "hd ?nm \<noteq> 0x22"
    by (simp add: control_toks_def special_toks_def bytes_of_inj, simp_all add: tok_ok_def bytes_of_def)
  have z: "zero_fn demo_env (next_entry start_context)" by (simp add: demo_env_def)
  obtain s where s: "kforth_execute_statement demo_env 0 (definition_line ?nm fact_src @ [0]) start_context = Ret (False, s)"
    "represents [] s (aprint ?x start_machine)" "vocabulary fact_names (prim_wd(?nm := next_entry start_context)) s" "length (new_word_list s) = MAX_COMPILE_WORDS"
    using kforth_defines_word [OF start_vocabulary start_repr nm fact_line_ok refl z fact_names_ok, of 0 "[]"] by (auto simp: fact_names_def)
  have a: "aprint ?x start_machine = start_machine\<lparr>shown := ?x\<rparr>" by (simp add: aprint_def start_machine_def)
  have "\<not> command_line (line_text (srcs_toks call_src) @ [0])"
    by (simp add: command_line_def call_src_def srcs_toks_def tok_text_def is_str_def bytes_of_def dec_int_def dec_nat.simps)
  from statement_runs [OF s(3) s(2) [unfolded a] call_line_ok [OF s(3,4)] refl this fact_run, of demo_env]
  obtain s' F' N where "\<forall>m\<ge>N. kforth_execute_statement demo_env m (line_text (srcs_toks call_src) @ [0]) s = Ret (False, s')"
    "represents F' s' (start_machine\<lparr>shown := ?x @ tok ''120 ''\<rparr>)" by (auto simp: start_machine_def)
  moreover have "?x @ tok ''120 '' = tok ''compiled fact'' @ cr_lf @ tok ''120 ''" by (simp add: bytes_of_def)
  then have "output_text s' = tok ''compiled fact'' @ cr_lf @ tok ''120 ''" using calculation(2) by (simp add: represents_def)
  ultimately show ?thesis using s(1) by blast
qed

end
