(* ===== verification/Kforth_Bugs.thy ===== *)
theory Kforth_Bugs
  imports Kforth_Props
begin

text \<open>
  A statement that goes wrong: one that begins with a space never ends.
\<close>

definition starts_itself :: "kctx \<Rightarrow> bool" where
  "starts_itself s \<longleftrightarrow> peek (new_word_list s) 0 = Some Recursive \<and> \<not> exit_flag s"

lemma emit_starts: "emit it (s, i) = Some (s', i') \<Longrightarrow> starts_itself s \<Longrightarrow> 0 < i \<Longrightarrow> starts_itself s' \<and> 0 < i'"
  by (auto simp: emit_def poke_def starts_itself_def peek_def split: if_splits)

lemma emit_all_starts: "emit_all its (s, i) = Some (s', i') \<Longrightarrow> starts_itself s \<Longrightarrow> 0 < i \<Longrightarrow> starts_itself s' \<and> 0 < i'"
proof (induction its arbitrary: s i)
  case (Cons it its)
  then obtain s1 i1 where "emit it (s, i) = Some (s1, i1)" "emit_all its (s1, i1) = Some (s', i')" by (auto simp: bind_Some_iff)
  then show ?case using Cons emit_starts by blast
qed simp

lemma stack_starts:
  "push_int v s = Some s' \<Longrightarrow> starts_itself s' \<longleftrightarrow> starts_itself s"
  "pop_int s = Some (v, s') \<Longrightarrow> starts_itself s' \<longleftrightarrow> starts_itself s"
  by (auto simp: push_int_def set_stk_def pop_int_def drop_stk_def bind_Some_iff starts_itself_def split: if_splits)

text \<open>Filling in a branch does not change an item that holds no data.\<close>

lemma back_fill_starts: "back_fill k v s = Some s' \<Longrightarrow> starts_itself s \<Longrightarrow> starts_itself s'"
  by (auto simp: back_fill_def bind_Some_iff starts_itself_def peek_def set_data_def nth_list_update split: if_splits)

lemma compile_control_starts: "compile_control t (s, i) = Some (s', i') \<Longrightarrow> starts_itself s \<Longrightarrow> 0 < i \<Longrightarrow> starts_itself s' \<and> 0 < i'"
  unfolding compile_control_def
  by (auto simp: bind_Some_iff stack_starts split: if_splits dest!: emit_starts back_fill_starts)

lemma puts_starts: "starts_itself (puts x s) \<longleftrightarrow> starts_itself s"
  by (simp add: puts_def starts_itself_def)

lemma compile_plain_starts: "compile_plain t (s, i) = Some (s', i') \<Longrightarrow> starts_itself s \<Longrightarrow> 0 < i \<Longrightarrow> starts_itself s' \<and> 0 < i'"
  unfolding compile_plain_def
  by (auto simp: bind_Some_iff puts_starts simp del: emit_all.simps split: if_splits option.splits dest!: emit_starts emit_all_starts)

lemma compile_tokens_starts:
  "compile_tokens nm ts (s, i) = Some (s', i') \<Longrightarrow> starts_itself s \<Longrightarrow> 0 < i \<Longrightarrow> starts_itself s' \<and> 0 < i'"
proof (induction ts arbitrary: s i rule: length_induct)
  case (1 ts)
  show ?case
  proof (cases ts)
    case Nil
    then show ?thesis using 1 by simp
  next
    case (Cons t us)
    obtain s1 i1 where c: "compile_control t (s, i) = Some (s1, i1)" using 1(2) Cons by (auto simp: compile_tokens.simps bind_Some_iff)
    note s1 = compile_control_starts [OF c 1(3,4)]
    have ih: "compile_tokens nm vs (s2, i2) = Some (s', i') \<Longrightarrow> starts_itself s2 \<Longrightarrow> 0 < i2 \<Longrightarrow> length vs \<le> length us \<Longrightarrow> starts_itself s' \<and> 0 < i'" for vs s2 i2
    proof -
      assume h: "compile_tokens nm vs (s2, i2) = Some (s', i')" "starts_itself s2" "0 < i2" "length vs \<le> length us"
      then have "length vs < length ts" using Cons by simp
      then show ?thesis using 1(1) h(1-3) by blast
    qed
    consider (self) "t = nm" | (amp) "t \<noteq> nm" "t = tok ''&''" | (semi) "t \<noteq> nm" "t \<noteq> tok ''&''" "t = tok '';''"
      | (plain) "t \<noteq> nm" "t \<noteq> tok ''&''" "t \<noteq> tok '';''" by blast
    then show ?thesis
    proof cases
      case self
      then obtain s2 i2 where "emit Recursive (s1, i1) = Some (s2, i2)" "compile_tokens nm us (s2, i2) = Some (s', i')"
        using 1(2) Cons c by (auto simp: compile_tokens.simps bind_Some_iff)
      then show ?thesis using ih emit_starts s1 by blast
    next
      case amp
      then obtain v vs it s2 i2 where "us = v # vs" "emit it (s1, i1) = Some (s2, i2)" "compile_tokens nm vs (s2, i2) = Some (s', i')"
        using 1(2) Cons c by (auto simp: compile_tokens.simps bind_Some_iff split: list.splits)
      then show ?thesis using ih [of vs s2 i2] emit_starts [of it s1 i1 s2 i2] s1 by simp
    next
      case semi
      then have "compile_tokens nm us (s1, i1) = Some (s', i')" using 1(2) Cons c by (simp add: compile_tokens.simps)
      then show ?thesis using ih s1 by blast
    next
      case plain
      then obtain s2 i2 where "compile_plain t (s1, i1) = Some (s2, i2)" "compile_tokens nm us (s2, i2) = Some (s', i')"
        using 1(2) Cons c by (auto simp: compile_tokens.simps bind_Some_iff)
      then show ?thesis using ih compile_plain_starts s1 by blast
    qed
  qed
qed

lemma starts_itself_loops: "starts_itself s \<Longrightarrow> execute_word env n Temp s = No_fuel \<and> execute_items env n Temp 0 s = No_fuel"
proof (induction n)
  case (Suc n)
  then have "item_at Temp 0 s = Some Recursive" "\<not> exit_flag s" by (simp_all add: starts_itself_def item_at_def entry_items_def)
  then show ?case using Suc by (simp add: entry_fn_def)
qed simp

text \<open>A statement that begins with a space never ends: the empty token in front of the space is the name of the statement, so its first item calls the statement
  itself.\<close>

theorem kforth_space_never_ends:
  assumes "\<not> exit_flag s" "kforth_compile_word [] (0x20 # b) 0 s = Some (s', len)"
  shows "kforth_execute_statement env n (0x20 # b) s = No_fuel"
proof -
  have g: "get_token (0x20 # b) 0 = Some (Some 0, False, 0 # b, 1)"
    by (simp add: get_token_def plain_token_def token_end.simps [of "0x20 # b" 0] peek_def poke_def)
  obtain ts e b' s1 i1 where ts: "compile_tokens [] ([] # ts) (s, 0) = Some (s1, i1)" "emit End (if e then puts (bytes_of ''<<ERROR: found open quote with no close quote>>'' @ cr_lf) s1 else s1, i1) = Some (s', len)"
    using assms(2) g by (subst (asm) kforth_compile_word_def, subst (asm) get_tokens.simps) (auto simp: bind_Some_iff c_str_def)
  have "compile_control [] (s, 0) = Some (s, 0)" by (rule compile_control_plain) (simp add: control_toks_def bytes_of_def)
  then obtain s2 i2 where s2: "emit Recursive (s, 0) = Some (s2, i2)" "compile_tokens [] ts (s2, i2) = Some (s1, i1)" using ts(1) by (auto simp: compile_tokens.simps bind_Some_iff)
  have i: "starts_itself s2" "i2 = 1" using s2(1) assms(1) by (auto simp: emit_def poke_def starts_itself_def peek_def split: if_splits)
  then have st: "starts_itself s1" "0 < i1" using compile_tokens_starts [OF s2(2)] by simp_all
  then have "starts_itself s'" using emit_starts [OF ts(2)] st puts_starts by auto
  moreover have "starts_with (0x20 # b) (bytes_of '': '') = Some False" "starts_with (0x20 # b) (bytes_of ''see '') = Some False"
    "starts_with (0x20 # b) (bytes_of ''reset'') = Some False" by (simp_all add: bytes_of_def)
  ultimately show ?thesis using assms(2) starts_itself_loops by (simp add: kforth_execute_statement_def)
qed

end
