(* ===== verification/Spec2Isabelle.thy ===== *)
theory Spec2Isabelle
  imports Coap_Apps Platform Time_Apps Retro_Console App501 Pb_Apps Binn_Convert Ubasic_Props Kforth_Bugs
begin

text \<open>
  \<^bold>\<open>Verification of PusOS\<close>

  PusOS is a set of platform files, libraries and applications for the Little Kernel (LK) on a RISC-V
  machine.  The kernel itself (threads, network stack, block devices, console) is not part of the
  repository.  This development models the platform code, the libraries that carry the
  program's data formats and the applications built on them, and proves that they do what they are for.

  \<^bold>\<open>The parts and how they interact.\<close>  The platform code (\<open>src/platform/qemu-virt-riscv-rtc\<close>) starts
  the machine, dispatches interrupts and drives the serial port and the clock.  The libraries
  (\<open>src/pus/lib\<close>) give the applications their message formats (CoAP, protocol buffers, binn) and the
  calendar.  The applications (\<open>src/pus/app\<close>, \<open>src/pus/exp\<close>) are started by the kernel and call
  the libraries: a CoAP server and client, a command server, a Raft message exchange, the time commands,
  a producer with consumers, the Retro virtual machine with its console, and interpreters for BASIC and Forth.

  \<^bold>\<open>How code is modelled.\<close>  A C object is the list of its bytes; an access outside it is undefined
  behaviour and a value of its own (\<open>None\<close>, \<open>Fault\<close>, \<open>Undefined\<close>), so a theorem that
  gives a result also says that no such access happens.  Integers are words of their width, or integers
  with the overflow written out.  Functions that fail return the error the code returns.  What the kernel
  or a caller supplies (datagrams, results of system calls, contents of uninitialised memory, answers
  of the allocator) is an argument; calls into the kernel are recorded as events in order.

  \<^bold>\<open>The theories.\<close>
  \<^item> \<open>Prelude\<close>: checked memory accesses, machine integers, C strings, decimal digits.
  \<^item> \<open>Interfaces\<close>: locales for a message codec and an interrupt controller, interpreted in \<open>Coap_Wire\<close>
    and \<open>Plic\<close>.
  \<^item> \<open>Coap\<close>, \<open>Coap_Wire\<close>: \<open>lib/coap/coap.c\<close>, parser, builder and request dispatch; the parser never
    leaves the datagram, the builder writes the reference encoding, and parsing inverts building.
  \<^item> \<open>Coap_Apps\<close>: \<open>coapsrv.c\<close>, \<open>coapcli.c\<close> and the clients of \<open>app600\<close>; the server answers a
    request, the client stores a reading.
  \<^item> \<open>Plic\<close>, \<open>Rtc\<close>, \<open>Uart\<close>, \<open>Platform\<close>: the files of the platform; interrupts reach the
    handler that was registered, received bytes reach the console buffer, and start-up sets all of it up.
  \<^item> \<open>Datetime\<close>, \<open>Time_Apps\<close>: \<open>datetime.c\<close> against a calendar that counts days, and the commands
    \<open>systime\<close> and \<open>ntptime\<close>.
  \<^item> \<open>Retro\<close>, \<open>Retro_Spec\<close>, \<open>Retro_Safety\<close>, \<open>Retro_Console\<close>: the virtual machine of
    \<open>retro.c\<close>.  The interpreter refines an abstract stack machine, keeps its memory well-typed, and the
    console collects and runs lines.
  \<^item> \<open>App501\<close>: the producer and the consumers of \<open>app500/myapp2.c\<close> as a step relation over all
    interleavings: order of items, termination, what goes wrong after a time-out.
  \<^item> \<open>Nanopb\<close>, \<open>Nanopb_Msg\<close>: \<open>lib/nanopb\<close>, the wire format and whole messages; encoding equals the
    reference encoding and decoding inverts it.
  \<^item> \<open>Pb_Apps\<close>: \<open>cmdserver.c\<close>, \<open>pbserver.c\<close> and \<open>raft_test.c\<close> on top of it.
  \<^item> \<open>Binn\<close>, \<open>Binn_Read\<close>: \<open>lib/binn/binn.c\<close>, containers being written and read; \<open>Binn_Spec\<close>: the bytes of
    a value, that it is read back, and integers in fewer bytes; \<open>Binn_Containers\<close>: a structure as a sequence of
    entries, and that a failed call keeps it; \<open>Binn_Maps\<close>: locales for searching by key and for containers
    with keys, with lists, maps and objects read back; \<open>Binn_Convert\<close>: the conversions of the extended interface
    and iteration.
  \<^item> \<open>Clib\<close>: results of code that may be undefined or run out of fuel, \<open>int\<close> arithmetic and \<open>atoi\<close>, shared by the two
    interpreters that follow.
  \<^item> \<open>Ubasic\<close>: \<open>tokenizer.c\<close>, \<open>ubasic.c\<close> and \<open>lkbasic.c\<close> of \<open>exp/lkbasic\<close>; \<open>Ubasic_Text\<close>: tokens of a text,
    \<open>Ubasic_Expr\<close>, \<open>Ubasic_Stmt\<close>, \<open>Ubasic_Run\<close>: expressions, statements and programs as trees and the abstract
    machine that runs them; \<open>Ubasic_Props\<close>: the interpreter, which works on the text, does what the machine does.
  \<^item> \<open>Kforth\<close>, \<open>Kforth_Int\<close>: the primitive words, the compiler and the inner interpreter of \<open>exp/kforth\<close>; \<open>Kforth_Src\<close>:
    programs as trees, the code they are compiled to and an abstract machine for them; \<open>Kforth_Prims\<close>, \<open>Kforth_Correct\<close>, \<open>Kforth_Sim\<close>:
    the inner interpreter runs that code as the machine runs the trees; \<open>Kforth_Text\<close>, \<open>Kforth_Comp\<close>: the compiler
    makes that code from a line; \<open>Kforth_Dict\<close>: what the names of the dictionary mean, before and after a definition; \<open>Kforth_Props\<close>:
    typed lines and definitions; \<open>Kforth_Bugs\<close>: a line that begins with a space never ends.

  \<^bold>\<open>Loops and fuel.\<close>  Loops of the code are recursive functions with a termination proof, or run on fuel where the
  code may run for ever.  \<open>Retro\<close>: \<open>execute_loop\<close> takes the number of bundles it may run, and running out is the value
  \<open>Out_of_fuel\<close>; its theorems hold for every amount of fuel or say how much is enough.  \<open>Uart\<close>: the loops that poll the
  device take the number of polls, and the theorems give a number that is enough for a device that keeps its contract.
  \<open>Ubasic\<close>: the command takes the number of lines to run and the fuel of a line; expressions need less than
  \<open>ex_fuel\<close>, lines less than \<open>prog_fuel\<close>, and a run of the abstract machine in \<open>n\<close> steps needs \<open>n\<close> lines.
  \<open>Kforth\<close>: fuel bounds calls and items of \<open>execute_word\<close>, and the theorems hold from some amount on.  Running out is
  \<open>No_fuel\<close> in both, so a theorem that the result is \<open>No_fuel\<close> for every amount states that the code does not return.
  Other polling loops, which wait for the network, are run on the list of answers they get.

  \<^bold>\<open>Not modelled.\<close>  The HTTP parser \<open>llhttp.c\<close> is generated code and \<open>lfs.c\<close>, \<open>fatfs\<close>,
  \<open>libfat\<close> and \<open>petite-fat\<close> are file systems of other projects; the code tables of the latter are
  data.  The other interpreters (\<open>mu\<close>, \<open>app/lisp\<close>, \<open>pickle\<close>, \<open>tyforth\<close>, \<open>myforth\<close>, \<open>ribbit\<close>, and beside the BASIC of
  \<open>exp/lkbasic\<close> its \<open>lisp1.c\<close>, \<open>lisp2.c\<close> and \<open>bscanf.c\<close>), the line editor of \<open>exp/kforth/main.c\<close>, which repeats the one of
  \<open>retro.c\<close>, the services \<open>datastore\<close>, \<open>netsrv\<close>, \<open>heartbeat\<close> and \<open>pusapi\<close>, which are calls into the kernel, and the small programs
  (\<open>matrixmul\<close>, \<open>primet\<close>, \<open>app400\<close>, \<open>http\<close>, \<open>qmp\<close>, \<open>test\<close>) are not
  modelled either, nor are \<open>irc\<close> (C++), the tools in Python and shell, the accept loops of the servers,
  which only start workers, and console output except where a theorem is about it.  Of
  \<open>nanopb\<close> arrays, pointers, oneofs, submessages and extensions are left out: no message of the
  repository needs them on the paths that are modelled.
\<close>

end
